(* ===== verification/Orca_Prelude.thy ===== *)
theory Orca_Prelude
  imports Complex_Main "HOL-Library.AList"
begin

text \<open>
  Shared vocabulary of the development: the identifier and time types of
  \<^verbatim>\<open>orcastork/ids.py\<close> and \<^verbatim>\<open>orcastork/clock.py\<close>, the exception hierarchy of
  \<^verbatim>\<open>orcastork/exceptions.py\<close> as an error datatype, the state-and-error convention every
  operation of the model follows, the two loop shapes the code repeats (the admission
  fixpoint and the keyed upsert), and the interfaces several components share, stated as
  locales: \<open>fenced_writer\<close> (epoch fencing), \<open>admission\<close> (least fixpoints) and
  \<open>keyed_merge\<close> (merge-on-add dictionaries).
\<close>

named_theorems op_defs "definitions of the operations, unfolded when one operation is executed"
named_theorems frame_simps "what an operation leaves unchanged"

section \<open>Identifiers, time, errors\<close>

type_synonym operator_id = string
type_synonym capability_id = string
type_synonym session_id = string
type_synonym namespace_id = string
type_synonym epoch = int
type_synonym revision = int
type_synonym instant = int
type_synonym seconds = real

datatype orca_error =
    DuplicateRegistrationError
  | InvalidDataPointError
  | UnknownDataPointTypeError
  | InvalidOperatorError
  | StaleEpochError
  | LockHeldError
  | OptimisticConcurrencyError
  | CompletionTailTimeoutError
  | UnboundedCycleError
  | CapabilityUnavailableError
  | InvalidCapabilityError
  | StateMirrorError
  | AggregatorDeadLetteredError
  | SchedulingGateBlockedError
  | InvalidCompletionConditionError
  | UnprotectedPiiError
  | PiiKeyUnavailableError
  | ReplayError
  | ValueError
  | OtherError string

text \<open>
  An operation takes a state and returns what the Python call does: the exception it raises or
  its value, together with the state it leaves behind (an exception does not undo the
  mutations made before it).
\<close>

type_synonym ('s, 'r) op = "'s \<Rightarrow> (orca_error + 'r) \<times> 's"

definition bindE :: "('s, 'a) op \<Rightarrow> ('a \<Rightarrow> ('s, 'b) op) \<Rightarrow> ('s, 'b) op" where
  "bindE m f = (\<lambda>s. case m s of (Inl e, s') \<Rightarrow> (Inl e, s') | (Inr x, s') \<Rightarrow> f x s')"

definition returnE :: "'a \<Rightarrow> ('s, 'a) op" where
  "returnE x = (\<lambda>s. (Inr x, s))"

definition raiseE :: "orca_error \<Rightarrow> ('s, 'a) op" where
  "raiseE e = (\<lambda>s. (Inl e, s))"

lemma bindE_Inl [simp]: "m s = (Inl e, s') \<Longrightarrow> bindE m f s = (Inl e, s')"
  by (simp add: bindE_def)

lemma bindE_Inr [simp]: "m s = (Inr x, s') \<Longrightarrow> bindE m f s = f x s'"
  by (simp add: bindE_def)

lemma bindE_returnE [simp]: "bindE (returnE x) f = f x"
  by (simp add: bindE_def returnE_def)

lemma bindE_InrD:
  assumes "bindE m f s = (Inr y, t)"
  obtains x s' where "m s = (Inr x, s')" and "f x s' = (Inr y, t)"
  using assms by (auto simp: bindE_def split: prod.splits sum.splits)

text \<open>
  Handlers and loops over calls that may raise, and the triples they are verified with: from \<open>P\<close>
  the call returns with \<open>Q\<close> or raises with \<open>E\<close>.
\<close>

definition catchE :: "('s, 'r) op \<Rightarrow> (orca_error \<Rightarrow> ('s, 'r) op) \<Rightarrow> ('s, 'r) op" where
  "catchE m h s = (case m s of (Inl e, s') \<Rightarrow> h e s' | (Inr x, s') \<Rightarrow> (Inr x, s'))"

fun forE :: "('x \<Rightarrow> ('s, unit) op) \<Rightarrow> 'x list \<Rightarrow> ('s, unit) op" where
  "forE f [] = returnE ()"
| "forE f (x # xs) = bindE (f x) (\<lambda>_. forE f xs)"

definition triple :: "('s \<Rightarrow> bool) \<Rightarrow> ('s, 'r) op \<Rightarrow> ('r \<Rightarrow> 's \<Rightarrow> bool) \<Rightarrow> ('s \<Rightarrow> bool) \<Rightarrow> bool" where
  "triple P m Q E \<longleftrightarrow> (\<forall>s r s'. P s \<longrightarrow> m s = (r, s') \<longrightarrow> (case r of Inl e \<Rightarrow> E s' | Inr x \<Rightarrow> Q x s'))"

lemma tripleI:
  assumes "\<And>s x s'. P s \<Longrightarrow> m s = (Inr x, s') \<Longrightarrow> Q x s'" and "\<And>s e s'. P s \<Longrightarrow> m s = (Inl e, s') \<Longrightarrow> E s'"
  shows "triple P m Q E"
  using assms by (auto simp: triple_def split: sum.split)

lemma triple_InrD: "triple P m Q E \<Longrightarrow> P s \<Longrightarrow> m s = (Inr x, s') \<Longrightarrow> Q x s'"
  by (fastforce simp: triple_def)

lemma triple_InlD: "triple P m Q E \<Longrightarrow> P s \<Longrightarrow> m s = (Inl e, s') \<Longrightarrow> E s'"
  by (fastforce simp: triple_def)

lemma triple_total:
  assumes "triple P m Q (\<lambda>_. False)" and "P s"
  obtains x s' where "m s = (Inr x, s')" and "Q x s'"
proof (cases "m s")
  case (Pair r s')
  with triple_InrD [OF assms] triple_InlD [OF assms] that show ?thesis by (cases r) auto
qed

lemma triple_returnE [intro]: "(\<And>s. P s \<Longrightarrow> Q x s) \<Longrightarrow> triple P (returnE x) Q E"
  by (auto simp: triple_def returnE_def)

lemma triple_raiseE [intro]: "(\<And>s. P s \<Longrightarrow> E s) \<Longrightarrow> triple P (raiseE e) Q E"
  by (auto simp: triple_def raiseE_def)

lemma triple_bindE:
  assumes "triple P m Q E" and "\<And>x. triple (Q x) (f x) R E"
  shows "triple P (bindE m f) R E"
proof (rule tripleI)
  fix s x s'
  assume "P s" "bindE m f s = (Inr x, s')"
  then show "R x s'" using assms by (auto simp: bindE_def split: prod.splits sum.splits dest: triple_InrD)
next
  fix s e s'
  assume "P s" "bindE m f s = (Inl e, s')"
  then show "E s'" using assms by (auto simp: bindE_def split: prod.splits sum.splits dest: triple_InrD triple_InlD)
qed

lemma triple_catchE:
  assumes "triple P m Q E1" and "\<And>e. triple E1 (h e) Q E"
  shows "triple P (catchE m h) Q E"
proof (rule tripleI)
  fix s x s'
  assume "P s" "catchE m h s = (Inr x, s')"
  then show "Q x s'" using assms by (auto simp: catchE_def split: prod.splits sum.splits dest: triple_InrD triple_InlD)
next
  fix s e s'
  assume "P s" "catchE m h s = (Inl e, s')"
  then show "E s'" using assms by (auto simp: catchE_def split: prod.splits sum.splits dest: triple_InrD triple_InlD)
qed

lemma triple_forE:
  assumes "\<And>x. x \<in> set xs \<Longrightarrow> triple I (f x) (\<lambda>_. I) E"
  shows "triple I (forE f xs) (\<lambda>_. I) E"
  using assms by (induction xs) (auto intro!: triple_bindE)

lemma triple_mono:
  assumes "triple P m Q E" and "\<And>s. P' s \<Longrightarrow> P s" and "\<And>x s. Q x s \<Longrightarrow> Q' x s" and "\<And>s. E s \<Longrightarrow> E' s"
  shows "triple P' m Q' E'"
proof (rule tripleI)
  fix s x s'
  assume "P' s" "m s = (Inr x, s')"
  from triple_InrD [OF assms(1) assms(2) [OF this(1)] this(2)] show "Q' x s'" by (rule assms(3))
next
  fix s e s'
  assume "P' s" "m s = (Inl e, s')"
  from triple_InlD [OF assms(1) assms(2) [OF this(1)] this(2)] show "E' s'" by (rule assms(4))
qed

text \<open>A comprehension whose body may raise: the first failure wins.\<close>

fun collect :: "('a \<Rightarrow> orca_error + 'b) \<Rightarrow> 'a list \<Rightarrow> orca_error + 'b list" where
  "collect f [] = Inr []"
| "collect f (x # xs) =
     (case f x of
        Inl e \<Rightarrow> Inl e
      | Inr y \<Rightarrow> (case collect f xs of Inl e \<Rightarrow> Inl e | Inr ys \<Rightarrow> Inr (y # ys)))"

lemma collect_Inr_iff: "collect f xs = Inr ys \<longleftrightarrow> list_all2 (\<lambda>x y. f x = Inr y) xs ys"
proof (induction xs arbitrary: ys)
  case (Cons x xs)
  show ?case
    by (cases "f x"; cases "collect f xs") (auto simp: list_all2_Cons1 Cons.IH [symmetric])
qed auto

lemma collect_total: "\<forall>x \<in> set xs. f x = Inr (g x) \<Longrightarrow> collect f xs = Inr (map g xs)"
  by (induction xs) auto

section \<open>Decimal strings\<close>

text \<open>
  \<^verbatim>\<open>str(int)\<close> and \<^verbatim>\<open>int(str)\<close> on ASCII strings: the parser takes surrounding blanks, a
  sign and digits with single underscores between them, and raises \<^verbatim>\<open>ValueError\<close> (here \<open>None\<close>)
  otherwise.
\<close>

definition digit_char :: "nat \<Rightarrow> char" where
  "digit_char d = char_of (48 + d)"

definition is_digit :: "char \<Rightarrow> bool" where
  "is_digit c \<longleftrightarrow> 48 \<le> (of_char c :: nat) \<and> (of_char c :: nat) \<le> 57"

definition digit_val :: "char \<Rightarrow> nat" where
  "digit_val c = of_char c - 48"

fun show_nat :: "nat \<Rightarrow> string" where
  "show_nat n = (if n < 10 then [digit_char n] else show_nat (n div 10) @ [digit_char (n mod 10)])"

declare show_nat.simps [simp del]

definition show_int :: "int \<Rightarrow> string" where
  "show_int i = (if i < 0 then CHR ''-'' # show_nat (nat (- i)) else show_nat (nat i))"

definition digits_val :: "string \<Rightarrow> nat" where
  "digits_val cs = foldl (\<lambda>a c. 10 * a + digit_val c) 0 cs"

fun digits_ok :: "string \<Rightarrow> bool" where
  "digits_ok [] = False"
| "digits_ok [c] = is_digit c"
| "digits_ok (c # d # cs) = (is_digit c \<and> (if d = CHR ''_'' then digits_ok cs else digits_ok (d # cs)))"

definition is_blank :: "char \<Rightarrow> bool" where
  "is_blank c \<longleftrightarrow> (of_char c :: nat) \<in> {9, 10, 11, 12, 13, 28, 29, 30, 31, 32}"

definition strip :: "string \<Rightarrow> string" where
  "strip cs = rev (dropWhile is_blank (rev (dropWhile is_blank cs)))"

definition parse_digits :: "string \<Rightarrow> nat option" where
  "parse_digits cs = (if digits_ok cs then Some (digits_val (filter (\<lambda>c. c \<noteq> CHR ''_'') cs)) else None)"

definition parse_int :: "string \<Rightarrow> int option" where
  "parse_int s =
     (case strip s of
        [] \<Rightarrow> None
      | c # cs \<Rightarrow>
          if c = CHR ''-'' then map_option (\<lambda>n. - int n) (parse_digits cs)
          else if c = CHR ''+'' then map_option int (parse_digits cs)
          else map_option int (parse_digits (c # cs)))"

lemma digit_char_simps [simp]:
  assumes "d < 10"
  shows "is_digit (digit_char d)" and "digit_val (digit_char d) = d" and "\<not> is_blank (digit_char d)"
    and "digit_char d \<noteq> CHR ''_''" and "digit_char d \<noteq> CHR ''-''" and "digit_char d \<noteq> CHR ''+''"
proof -
  have "of_char (digit_char d) = 48 + d" using assms by (simp add: digit_char_def)
  then show "is_digit (digit_char d)" and "digit_val (digit_char d) = d" and "\<not> is_blank (digit_char d)"
    and "digit_char d \<noteq> CHR ''_''" and "digit_char d \<noteq> CHR ''-''" and "digit_char d \<noteq> CHR ''+''"
    using assms by (auto simp: is_digit_def digit_val_def is_blank_def)
qed

lemma digits_val_snoc [simp]: "digits_val (cs @ [c]) = 10 * digits_val cs + digit_val c"
  by (simp add: digits_val_def)

lemma show_nat_digits: "c \<in> set (show_nat n) \<Longrightarrow> \<exists>d < 10. c = digit_char d"
proof (induction n rule: show_nat.induct)
  case (1 n)
  have m: "n mod 10 < 10" by simp
  show ?case
  proof (cases "n < 10")
    case True
    with 1 show ?thesis by (simp add: show_nat.simps [of n]) blast
  next
    case False
    with 1 have "c \<in> set (show_nat (n div 10)) \<or> c = digit_char (n mod 10)"
      by (auto simp: show_nat.simps [of n])
    with 1(1) [OF False] m show ?thesis by blast
  qed
qed

lemma show_nat_chars:
  assumes "c \<in> set (show_nat n)"
  shows "is_digit c" and "\<not> is_blank c" and "c \<noteq> CHR ''_''" and "c \<noteq> CHR ''-''" and "c \<noteq> CHR ''+''"
  using show_nat_digits [OF assms] by auto

lemma show_nat_nonempty [simp]: "show_nat n \<noteq> []"
  by (subst show_nat.simps) simp

lemma digits_val_show [simp]: "digits_val (show_nat n) = n"
proof (induction n rule: show_nat.induct)
  case (1 n)
  then show ?case by (subst show_nat.simps) (auto simp: digits_val_def)
qed

lemma digits_ok_all: "cs \<noteq> [] \<Longrightarrow> \<forall>c \<in> set cs. \<exists>d < 10. c = digit_char d \<Longrightarrow> digits_ok cs"
  by (induction cs rule: digits_ok.induct) auto

lemma parse_digits_show [simp]: "parse_digits (show_nat n) = Some n"
proof -
  have "digits_ok (show_nat n)" using show_nat_digits by (intro digits_ok_all) auto
  moreover have "filter (\<lambda>c. c \<noteq> CHR ''_'') (show_nat n) = show_nat n"
    using show_nat_chars(3) by (intro filter_True) blast
  ultimately show ?thesis by (simp add: parse_digits_def)
qed

lemma strip_no_blank:
  assumes "\<And>c. c \<in> set cs \<Longrightarrow> \<not> is_blank c"
  shows "strip cs = cs"
proof -
  have "dropWhile is_blank xs = xs" if "set xs \<subseteq> set cs" for xs
    using that assms by (cases xs) auto
  from this [of cs] this [of "rev cs"] show ?thesis by (simp add: strip_def)
qed

lemma parse_show_int [simp]: "parse_int (show_int i) = Some i"
proof (cases "i < 0")
  case True
  then have "show_int i = CHR ''-'' # show_nat (nat (- i))" by (simp add: show_int_def)
  moreover have "strip \<dots> = \<dots>"
    by (rule strip_no_blank) (auto simp: is_blank_def dest: show_nat_chars(2))
  ultimately show ?thesis using True by (simp add: parse_int_def)
next
  case False
  then have "show_int i = show_nat (nat i)" by (simp add: show_int_def)
  moreover have "strip (show_nat (nat i)) = show_nat (nat i)"
    by (rule strip_no_blank) (auto dest: show_nat_chars(2))
  moreover obtain c cs where s: "show_nat (nat i) = c # cs" by (cases "show_nat (nat i)") auto
  moreover from s show_nat_chars [of c "nat i"] have "c \<noteq> CHR ''-''" "c \<noteq> CHR ''+''" by auto
  ultimately show ?thesis
    using False parse_digits_show [of "nat i"] by (simp add: parse_int_def)
qed

lemma show_int_inject [simp]: "show_int i = show_int j \<longleftrightarrow> i = j"
  by (metis option.inject parse_show_int)

section \<open>Association lists as insertion-ordered dictionaries\<close>

text \<open>
  A Python \<^verbatim>\<open>dict\<close> keeps insertion order and an assignment to an existing key keeps the key's
  place: \<^const>\<open>AList.update\<close> does the same on an association list.
\<close>

lemma map_of_update [simp]: "map_of (AList.update k v m) = (map_of m)(k \<mapsto> v)"
  by (rule update_conv')

lemma distinct_keys_update [simp]:
  "distinct (map fst (AList.update k v m)) = distinct (map fst m)"
  by (induction m) (auto simp: dom_update)

lemma map_fst_update:
  "map fst (AList.update k v m) = (if k \<in> fst ` set m then map fst m else map fst m @ [k])"
  by (induction m) auto

lemma update_append_new: "k \<notin> fst ` set m \<Longrightarrow> AList.update k v m = m @ [(k, v)]"
  by (induction m) auto

lemma map_of_None_notin: "map_of m k = None \<longleftrightarrow> k \<notin> fst ` set m"
  by (simp add: map_of_eq_None_iff)

lemma in_keys_iff: "k \<in> fst ` set m \<longleftrightarrow> (\<exists>v. map_of m k = Some v)"
  by (metis domD domI dom_map_of_conv_image_fst)

lemma keyed_filter_mem:
  assumes d: "distinct (map fst m)" and "\<And>p. p \<in> set m \<Longrightarrow> f (snd p) = fst p"
  shows "k \<in> f ` set (map snd (filter P m)) \<longleftrightarrow> (\<exists>v. map_of m k = Some v \<and> P (k, v))"
  using assms(2) by (force simp: map_of_eq_Some_iff [OF d] image_iff)

lemma set_update_distinct:
  "distinct (map fst m) \<Longrightarrow> set (AList.update k v m) = {p \<in> set m. fst p \<noteq> k} \<union> {(k, v)}"
  by (induction m) (auto simp: image_iff)

text \<open>Two dictionaries with the same keys in the same places and the same values are equal.\<close>

lemma alist_eqI:
  assumes "map fst m = map fst n" and "distinct (map fst m)" and "map_of m = map_of n"
  shows "m = n"
  using assms
proof (induction m arbitrary: n)
  case Nil
  then show ?case by simp
next
  case (Cons p m)
  from Cons.prems(1) obtain q n' where n: "n = q # n'" by (cases n) auto
  with Cons.prems have fq: "fst p = fst q" and tl: "map fst m = map fst n'" by auto
  from Cons.prems(3) n fq have "snd p = snd q"
    by (metis map_of_Cons_code(2) option.inject prod.collapse)
  with fq have pq: "p = q" by (rule prod_eqI)
  have "map_of m = map_of n'"
  proof
    fix k
    show "map_of m k = map_of n' k"
    proof (cases "k = fst p")
      case True
      with Cons.prems(2) tl fq have "k \<notin> fst ` set m" and "k \<notin> fst ` set n'"
        by (auto simp flip: set_map)
      then show ?thesis by (simp add: map_of_eq_None_iff[THEN iffD2])
    next
      case False
      with Cons.prems(3) n pq show ?thesis
        by (metis map_of_Cons_code(2) prod.collapse)
    qed
  qed
  with Cons.IH [OF tl] Cons.prems(2) pq n show ?case by simp
qed

section \<open>Epoch fencing\<close>

text \<open>
  Every store, inbox, audit and archive of the program accepts or refuses a write by comparing
  the writer's epoch with the highest epoch accepted so far. The interface: \<open>high\<close> reads that
  epoch, \<open>act e x\<close> performs the guarded operation \<open>x\<close> as the holder of epoch \<open>e\<close>.
\<close>

primrec guarded_run ::
  "(int \<Rightarrow> 'x \<Rightarrow> 's \<Rightarrow> (orca_error + 'r) \<times> 's) \<Rightarrow> (int \<times> 'x) list \<Rightarrow> 's \<Rightarrow> 's" where
  "guarded_run act [] s = s"
| "guarded_run act (p # ps) s = guarded_run act ps (snd (act (fst p) (snd p) s))"

text \<open>The attempts of an interleaving that were not refused, in order.\<close>

primrec accepted_by ::
  "('s \<Rightarrow> int) \<Rightarrow> (int \<Rightarrow> 'x \<Rightarrow> 's \<Rightarrow> (orca_error + 'r) \<times> 's) \<Rightarrow> (int \<times> 'x) list \<Rightarrow> 's \<Rightarrow> (int \<times> 'x) list" where
  "accepted_by high act [] s = []"
| "accepted_by high act (p # ps) s =
     (if fst p < high s then accepted_by high act ps s
      else p # accepted_by high act ps (snd (act (fst p) (snd p) s)))"

locale fenced_writer =
  fixes high :: "'s \<Rightarrow> int"
    and act :: "int \<Rightarrow> 'x \<Rightarrow> 's \<Rightarrow> (orca_error + 'r) \<times> 's"
  assumes refused: "e < high s \<Longrightarrow> act e x s = (Inl StaleEpochError, s)"
    and recorded: "high s \<le> e \<Longrightarrow> high (snd (act e x s)) = e"
    and admitted: "high s \<le> e \<Longrightarrow> fst (act e x s) \<noteq> Inl StaleEpochError"
begin

lemma high_mono: "high s \<le> high (snd (act e x s))"
  by (cases "e < high s") (auto simp: refused recorded)

lemma high_run_mono: "high s \<le> high (guarded_run act ps s)"
proof (induction ps arbitrary: s)
  case Nil
  show ?case by simp
next
  case (Cons p ps)
  have "high s \<le> high (snd (act (fst p) (snd p) s))" by (rule high_mono)
  also have "\<dots> \<le> high (guarded_run act ps (snd (act (fst p) (snd p) s)))" by (rule Cons.IH)
  finally show ?case by simp
qed

lemma stale_iff: "fst (act e x s) = Inl StaleEpochError \<longleftrightarrow> e < high s"
  by (metis admitted fst_conv not_le refused)

text \<open>Once an epoch was accepted, a lower one is refused for ever after, whatever runs between.\<close>

lemma fenced_forever:
  assumes "high s \<le> e" and "e' < e"
  shows "act e' y (guarded_run act ps (snd (act e x s)))
       = (Inl StaleEpochError, guarded_run act ps (snd (act e x s)))"
proof (rule refused)
  have "e = high (snd (act e x s))" using assms(1) by (simp add: recorded)
  also have "\<dots> \<le> high (guarded_run act ps (snd (act e x s)))" by (rule high_run_mono)
  finally show "e' < high (guarded_run act ps (snd (act e x s)))" using assms(2) by simp
qed

lemma run_stale: "\<forall>p \<in> set ps. fst p < high s \<Longrightarrow> guarded_run act ps s = s"
  by (induction ps) (simp_all add: refused)

text \<open>A fenced writer leaves no trace: dropping the refused attempts changes nothing.\<close>

lemma run_accepted: "guarded_run act (accepted_by high act ps s) s = guarded_run act ps s"
  by (induction ps arbitrary: s) (auto simp: refused)

lemma accepted_bounds: "p \<in> set (accepted_by high act ps s) \<Longrightarrow> high s \<le> fst p"
proof (induction ps arbitrary: s)
  case Nil
  then show ?case by simp
next
  case (Cons q qs)
  show ?case
  proof (cases "fst q < high s")
    case True
    with Cons show ?thesis by simp
  next
    case False
    with Cons.prems consider "p = q" | "p \<in> set (accepted_by high act qs (snd (act (fst q) (snd q) s)))"
      by auto
    then show ?thesis
    proof cases
      case 1
      with False show ?thesis by simp
    next
      case 2
      then have "high (snd (act (fst q) (snd q) s)) \<le> fst p" by (rule Cons.IH)
      with high_mono [of s "fst q" "snd q"] show ?thesis by simp
    qed
  qed
qed

text \<open>The epochs of the accepted writes never decrease.\<close>

lemma accepted_sorted: "sorted (map fst (accepted_by high act ps s))"
proof (induction ps arbitrary: s)
  case Nil
  show ?case by simp
next
  case (Cons q qs)
  show ?case
  proof (cases "fst q < high s")
    case True
    then show ?thesis by (simp add: Cons.IH)
  next
    case False
    then have "high (snd (act (fst q) (snd q) s)) = fst q" by (simp add: recorded)
    with accepted_bounds [of _ qs "snd (act (fst q) (snd q) s)"] False show ?thesis
      by (auto simp: Cons.IH)
  qed
qed

end

section \<open>The admission loop\<close>

text \<open>
  Four places of the code run the same loop: sweep a list of candidates, admit each one that is
  not admitted yet and whose condition holds in the current state, update the state, and sweep
  again while a sweep changed something.
\<close>

primrec admit_pass ::
  "('s \<Rightarrow> 'n \<Rightarrow> bool) \<Rightarrow> ('n \<Rightarrow> 's \<Rightarrow> 's) \<Rightarrow> 'n list \<Rightarrow> 'n list \<times> 's \<times> bool \<Rightarrow> 'n list \<times> 's \<times> bool" where
  "admit_pass ok upd [] st = st"
| "admit_pass ok upd (x # xs) st =
     (case st of (acc, s, changed) \<Rightarrow>
        if x \<in> set acc then admit_pass ok upd xs (acc, s, changed)
        else if ok s x then admit_pass ok upd xs (acc @ [x], upd x s, True)
        else admit_pass ok upd xs (acc, s, changed))"

lemma admit_pass_grows:
  "admit_pass ok upd xs (acc, s, c) = (acc', s', c') \<Longrightarrow>
     set acc \<subseteq> set acc' \<and> set acc' \<subseteq> set acc \<union> set xs \<and>
     (c' \<longrightarrow> c \<or> (\<exists>x \<in> set xs. x \<in> set acc' \<and> x \<notin> set acc))"
proof (induction xs arbitrary: acc s c)
  case Nil
  then show ?case by simp
next
  case (Cons x xs)
  show ?case
  proof (cases "x \<notin> set acc \<and> ok s x")
    case True
    with Cons.prems have "admit_pass ok upd xs (acc @ [x], upd x s, True) = (acc', s', c')" by simp
    from Cons.IH [OF this] True show ?thesis by auto
  next
    case False
    with Cons.prems have "admit_pass ok upd xs (acc, s, c) = (acc', s', c')"
      by (auto split: if_splits)
    from Cons.IH [OF this] show ?thesis by auto
  qed
qed

function admit_loop ::
  "('s \<Rightarrow> 'n \<Rightarrow> bool) \<Rightarrow> ('n \<Rightarrow> 's \<Rightarrow> 's) \<Rightarrow> 'n list \<Rightarrow> 'n list \<Rightarrow> 's \<Rightarrow> 'n list \<times> 's" where
  "admit_loop ok upd xs acc s =
     (case admit_pass ok upd xs (acc, s, False) of
        (acc', s', changed) \<Rightarrow> if changed then admit_loop ok upd xs acc' s' else (acc', s'))"
  by pat_completeness auto
termination
proof (relation "measure (\<lambda>(ok, upd, xs, acc, s). card (set xs - set acc))", goal_cases)
  case 1
  show ?case by simp
next
  case (2 ok upd xs acc s)
  then show ?case
    by clarsimp (drule sym, drule admit_pass_grows, auto intro!: psubset_card_mono)
qed

declare admit_loop.simps [simp del]

lemma admit_pass_invariant:
  assumes "\<And>acc s x. P acc s \<Longrightarrow> x \<in> A \<Longrightarrow> x \<notin> set acc \<Longrightarrow> ok s x \<Longrightarrow> P (acc @ [x]) (upd x s)"
  shows "P acc s \<Longrightarrow> set xs \<subseteq> A \<Longrightarrow> admit_pass ok upd xs (acc, s, c) = (acc', s', c') \<Longrightarrow> P acc' s'"
proof (induction xs arbitrary: acc s c)
  case (Cons x xs)
  show ?case
  proof (cases "x \<notin> set acc \<and> ok s x")
    case True
    show ?thesis by (rule Cons.IH [OF assms]) (use Cons.prems True in auto)
  next
    case False
    show ?thesis by (rule Cons.IH [OF Cons.prems(1)]) (use Cons.prems False in \<open>auto split: if_splits\<close>)
  qed
qed simp

lemma admit_loop_invariant:
  assumes "\<And>acc s x. P acc s \<Longrightarrow> x \<in> set xs \<Longrightarrow> x \<notin> set acc \<Longrightarrow> ok s x \<Longrightarrow> P (acc @ [x]) (upd x s)"
  shows "P acc s \<Longrightarrow> admit_loop ok upd xs acc s = (acc', s') \<Longrightarrow> P acc' s'"
proof (induction "card (set xs - set acc)" arbitrary: acc s rule: less_induct)
  case less
  obtain acc1 s1 c1 where p: "admit_pass ok upd xs (acc, s, False) = (acc1, s1, c1)"
    by (cases "admit_pass ok upd xs (acc, s, False)") auto
  have P1: "P acc1 s1" by (rule admit_pass_invariant [OF assms less.prems(1) order_refl p])
  show ?case
  proof (cases c1)
    case True
    from admit_pass_grows [OF p] True have lt: "card (set xs - set acc1) < card (set xs - set acc)"
      by (auto intro!: psubset_card_mono)
    from True p less.prems(2) have "admit_loop ok upd xs acc1 s1 = (acc', s')"
      by (simp add: admit_loop.simps [of ok upd xs acc s])
    from less.hyps [OF lt P1 this] show ?thesis .
  next
    case False
    with p less.prems(2) P1 show ?thesis by (simp add: admit_loop.simps [of ok upd xs acc s])
  qed
qed

locale admission =
  fixes ok :: "'s \<Rightarrow> 'n \<Rightarrow> bool"
    and upd :: "'n \<Rightarrow> 's \<Rightarrow> 's"
    and known :: "'s \<Rightarrow> 'a set"
    and gain :: "'n \<Rightarrow> 'a set"
    and enabled :: "'a set \<Rightarrow> 'n \<Rightarrow> bool"
  assumes ok_enabled: "ok s x \<longleftrightarrow> enabled (known s) x"
    and known_upd: "known (upd x s) = known s \<union> gain x"
    and enabled_mono: "enabled A x \<Longrightarrow> A \<subseteq> B \<Longrightarrow> enabled B x"
begin

lemma pass_known:
  assumes "admit_pass ok upd xs (acc, s, c) = (acc', s', c')"
    and "known s = base \<union> (\<Union>x \<in> set acc. gain x)"
  shows "known s' = base \<union> (\<Union>x \<in> set acc'. gain x)"
  using assms
  by (induction xs arbitrary: acc s c) (fastforce simp: known_upd split: if_splits)+

lemma pass_known_mono:
  "admit_pass ok upd xs (acc, s, c) = (acc', s', c') \<Longrightarrow> known s \<subseteq> known s'"
proof (induction xs arbitrary: acc s c)
  case Nil
  then show ?case by simp
next
  case (Cons x xs)
  show ?case
  proof (cases "x \<notin> set acc \<and> ok s x")
    case True
    with Cons.prems have "admit_pass ok upd xs (acc @ [x], upd x s, True) = (acc', s', c')" by simp
    from Cons.IH [OF this] show ?thesis by (auto simp: known_upd)
  next
    case False
    with Cons.prems Cons.IH show ?thesis by (auto split: if_splits)
  qed
qed

lemma pass_flag: "admit_pass ok upd xs (acc, s, True) = (acc', s', c') \<Longrightarrow> c'"
  by (induction xs arbitrary: acc s) (auto split: if_splits)

lemma pass_stable:
  "admit_pass ok upd xs (acc, s, c) = (acc', s', False) \<Longrightarrow>
     acc' = acc \<and> s' = s \<and> (\<forall>x \<in> set xs. enabled (known s) x \<longrightarrow> x \<in> set acc)"
proof (induction xs arbitrary: acc s c)
  case Nil
  then show ?case by simp
next
  case (Cons x xs)
  show ?case
  proof (cases "x \<notin> set acc \<and> ok s x")
    case True
    with Cons.prems have "admit_pass ok upd xs (acc @ [x], upd x s, True) = (acc', s', False)" by simp
    from pass_flag [OF this] show ?thesis by simp
  next
    case False
    with Cons.prems have "admit_pass ok upd xs (acc, s, c) = (acc', s', False)"
      by (auto split: if_splits)
    from Cons.IH [OF this] False show ?thesis by (auto simp: ok_enabled)
  qed
qed

lemma pass_least:
  assumes "admit_pass ok upd xs (acc, s, c) = (acc', s', c')"
    and "known s = base \<union> (\<Union>x \<in> set acc. gain x)" and "set acc \<subseteq> C" and "set xs \<subseteq> X"
    and closed: "\<And>x. x \<in> X \<Longrightarrow> enabled (base \<union> (\<Union>y \<in> C. gain y)) x \<Longrightarrow> x \<in> C"
  shows "set acc' \<subseteq> C"
  using assms(1-4)
proof (induction xs arbitrary: acc s c)
  case Nil
  then show ?case by simp
next
  case (Cons x xs)
  show ?case
  proof (cases "x \<notin> set acc \<and> ok s x")
    case True
    then have "enabled (known s) x" by (simp add: ok_enabled)
    moreover have "known s \<subseteq> base \<union> (\<Union>y \<in> C. gain y)" using Cons.prems(2,3) by auto
    ultimately have "x \<in> C" using closed [of x] Cons.prems(4) enabled_mono by auto
    with True Cons.prems show ?thesis
      by (intro Cons.IH [of "acc @ [x]" "upd x s" True]) (auto simp: known_upd)
  next
    case False
    with Cons.prems show ?thesis
      by (intro Cons.IH [of acc s c]) (auto split: if_splits)
  qed
qed

lemma loop_spec:
  assumes "admit_loop ok upd xs acc s = (R, s')"
    and "known s = base \<union> (\<Union>x \<in> set acc. gain x)"
  shows "known s' = base \<union> (\<Union>x \<in> set R. gain x) \<and> set R \<subseteq> set acc \<union> set xs \<and>
     (\<forall>x \<in> set xs. enabled (known s') x \<longrightarrow> x \<in> set R) \<and>
     (\<forall>C. (\<forall>x \<in> set xs. enabled (base \<union> (\<Union>y \<in> C. gain y)) x \<longrightarrow> x \<in> C) \<longrightarrow> set acc \<subseteq> C \<longrightarrow> set R \<subseteq> C)"
  using assms
proof (induction "card (set xs - set acc)" arbitrary: acc s rule: less_induct)
  case less
  obtain acc1 s1 c1 where p: "admit_pass ok upd xs (acc, s, False) = (acc1, s1, c1)"
    by (cases "admit_pass ok upd xs (acc, s, False)") auto
  have k1: "known s1 = base \<union> (\<Union>x \<in> set acc1. gain x)" by (rule pass_known [OF p less.prems(2)])
  show ?case
  proof (cases c1)
    case True
    with p less.prems(1) have rec: "admit_loop ok upd xs acc1 s1 = (R, s')"
      by (simp add: admit_loop.simps [of ok upd xs acc s])
    from admit_pass_grows [OF p] True have lt: "card (set xs - set acc1) < card (set xs - set acc)"
      and sub: "set acc1 \<subseteq> set acc \<union> set xs"
      by (auto intro!: psubset_card_mono)
    have least: "set acc1 \<subseteq> C"
      if "\<forall>x \<in> set xs. enabled (base \<union> (\<Union>y \<in> C. gain y)) x \<longrightarrow> x \<in> C" and "set acc \<subseteq> C" for C
      using pass_least [OF p less.prems(2) that(2) order_refl] that(1) by blast
    note ih = less.hyps [OF lt rec k1]
    show ?thesis
    proof (intro conjI allI impI)
      show "known s' = base \<union> (\<Union>x \<in> set R. gain x)" using ih by (rule conjunct1)
      show "set R \<subseteq> set acc \<union> set xs" using ih [THEN conjunct2, THEN conjunct1] sub by auto
      show "\<forall>x \<in> set xs. enabled (known s') x \<longrightarrow> x \<in> set R"
        using ih [THEN conjunct2, THEN conjunct2] by (rule conjunct1)
      fix C
      assume "\<forall>x \<in> set xs. enabled (base \<union> (\<Union>y \<in> C. gain y)) x \<longrightarrow> x \<in> C" and "set acc \<subseteq> C"
      then show "set R \<subseteq> C"
        using ih [THEN conjunct2, THEN conjunct2, THEN conjunct2, rule_format, of C] least by simp
    qed
  next
    case False
    with p less.prems(1) have "R = acc1" and "s' = s1" by (auto simp: admit_loop.simps [of ok upd xs acc s])
    moreover from p False have "acc1 = acc" "s1 = s" "\<forall>x \<in> set xs. enabled (known s) x \<longrightarrow> x \<in> set acc"
      using pass_stable [of xs acc s False acc1 s1] by auto
    ultimately show ?thesis using less.prems(2) by auto
  qed
qed

text \<open>Started from nothing, the loop computes the least set closed under admission.\<close>

lemma loop_closed:
  assumes "admit_loop ok upd xs [] s = (R, s')" and "x \<in> set xs"
    and "enabled (known s \<union> (\<Union>y \<in> set R. gain y)) x"
  shows "x \<in> set R"
  using loop_spec [OF assms(1), of "known s"] assms(2,3) by auto

lemma loop_least:
  assumes "admit_loop ok upd xs [] s = (R, s')"
    and "\<And>x. x \<in> set xs \<Longrightarrow> enabled (known s \<union> (\<Union>y \<in> C. gain y)) x \<Longrightarrow> x \<in> C"
  shows "set R \<subseteq> C"
  using loop_spec [OF assms(1), of "known s"] assms(2) by auto

lemma loop_subset: "admit_loop ok upd xs [] s = (R, s') \<Longrightarrow> set R \<subseteq> set xs"
  using loop_spec [of xs "[]" s R s' "known s"] by auto

lemma loop_known: "admit_loop ok upd xs [] s = (R, s') \<Longrightarrow> known s' = known s \<union> (\<Union>x \<in> set R. gain x)"
  using loop_spec [of xs "[]" s R s' "known s"] by auto

text \<open>The result depends neither on the order of the candidates nor on repetitions.\<close>

lemma loop_order_free:
  assumes "admit_loop ok upd xs [] s = (R, s')" and "admit_loop ok upd ys [] s = (R', s'')"
    and "set xs = set ys"
  shows "set R = set R'"
proof
  show "set R \<subseteq> set R'"
    by (rule loop_least [OF assms(1)]) (use loop_closed [OF assms(2)] assms(3) in auto)
  show "set R' \<subseteq> set R"
    by (rule loop_least [OF assms(2)]) (use loop_closed [OF assms(1)] assms(3) in auto)
qed

text \<open>More known facts admit at least as much.\<close>

lemma loop_mono:
  assumes "admit_loop ok upd xs [] s = (R, s')" and "admit_loop ok upd xs [] t = (R', t')"
    and "known s \<subseteq> known t"
  shows "set R \<subseteq> set R'"
proof (rule loop_least [OF assms(1)])
  fix x
  assume "x \<in> set xs" and "enabled (known s \<union> (\<Union>y \<in> set R'. gain y)) x"
  moreover from this(2) have "enabled (known t \<union> (\<Union>y \<in> set R'. gain y)) x"
    using assms(3) by (blast intro: enabled_mono)
  ultimately show "x \<in> set R'" using loop_closed [OF assms(2)] by blast
qed

end

section \<open>Keyed merging\<close>

text \<open>
  Merge-on-add: a new key is inserted, an existing key's value is merged with the new
  observation. \<open>key\<close> gives an observation its identity, \<open>mrg\<close> merges an observation into the
  stored value.
\<close>

definition upsert :: "('v \<Rightarrow> 'k) \<Rightarrow> ('v \<Rightarrow> 'v \<Rightarrow> 'v) \<Rightarrow> 'v \<Rightarrow> ('k \<times> 'v) list \<Rightarrow> ('k \<times> 'v) list" where
  "upsert key mrg v m =
     (case map_of m (key v) of
        None \<Rightarrow> AList.update (key v) v m
      | Some old \<Rightarrow> AList.update (key v) (mrg old v) m)"

definition well_keyed :: "('v \<Rightarrow> 'k) \<Rightarrow> ('k \<times> 'v) list \<Rightarrow> bool" where
  "well_keyed key m \<longleftrightarrow> distinct (map fst m) \<and> (\<forall>p \<in> set m. key (snd p) = fst p)"

lemma well_keyed_Nil [simp]: "well_keyed key []"
  by (simp add: well_keyed_def)

lemma well_keyed_update:
  "well_keyed key m \<Longrightarrow> key v = k \<Longrightarrow> well_keyed key (AList.update k v m)"
  by (auto simp: well_keyed_def set_update_distinct)

lemma well_keyed_lookup: "well_keyed key m \<Longrightarrow> map_of m k = Some v \<Longrightarrow> key v = k"
  by (auto simp: well_keyed_def dest: map_of_SomeD)

locale keyed_merge =
  fixes key :: "'v \<Rightarrow> 'k"
    and mrg :: "'v \<Rightarrow> 'v \<Rightarrow> 'v"
  assumes key_mrg: "key (mrg a b) = key a"
    and mrg_self: "mrg a a = a"
    and mrg_again: "mrg (mrg a b) b = mrg a b"
    and mrg_swap: "mrg (mrg a b) c = mrg (mrg a c) b"
begin

lemma upsert_keyed: "well_keyed key m \<Longrightarrow> well_keyed key (upsert key mrg v m)"
  by (auto simp: upsert_def key_mrg intro!: well_keyed_update dest: well_keyed_lookup split: option.split)

lemma fold_keyed: "well_keyed key m \<Longrightarrow> well_keyed key (fold (upsert key mrg) vs m)"
  by (induction vs arbitrary: m) (auto intro: upsert_keyed)

lemma upsert_lookup:
  "map_of (upsert key mrg v m) k =
     (if k = key v then Some (case map_of m k of None \<Rightarrow> v | Some old \<Rightarrow> mrg old v) else map_of m k)"
  by (auto simp: upsert_def split: option.split)

text \<open>What a sequence of observations leaves under a key.\<close>

lemma fold_lookup:
  "map_of (fold (upsert key mrg) vs m) k =
     (case map_of m k of
        Some old \<Rightarrow> Some (foldl mrg old (filter (\<lambda>v. key v = k) vs))
      | None \<Rightarrow> (case filter (\<lambda>v. key v = k) vs of [] \<Rightarrow> None | w # ws \<Rightarrow> Some (foldl mrg w ws)))"
  by (induction vs arbitrary: m) (auto simp: upsert_lookup split: option.split list.split)

lemma absorbed_step:
  assumes "map_of m (key v) = Some x" and "mrg x v = x"
  shows "\<exists>y. map_of (upsert key mrg w m) (key v) = Some y \<and> mrg y v = y"
proof -
  have "mrg (mrg x w) v = mrg x w" using assms(2) by (simp add: mrg_swap [of x w v])
  moreover have "map_of m (key w) = Some x" if "key v = key w" using assms(1) that by simp
  ultimately show ?thesis using assms by (cases "key v = key w") (simp_all add: upsert_lookup)
qed

lemma absorbed_fold:
  assumes "map_of m (key v) = Some x" and "mrg x v = x"
  shows "\<exists>y. map_of (fold (upsert key mrg) ws m) (key v) = Some y \<and> mrg y v = y"
  using assms
proof (induction ws arbitrary: m x)
  case Nil
  then show ?case by simp
next
  case (Cons w ws)
  from absorbed_step [OF Cons.prems, of w] obtain y
    where "map_of (upsert key mrg w m) (key v) = Some y" and "mrg y v = y" by blast
  then show ?case using Cons.IH by simp
qed

text \<open>Redelivering an observation that was already merged changes nothing.\<close>

lemma redelivery:
  assumes "v \<in> set vs"
  shows "upsert key mrg v (fold (upsert key mrg) vs m) = fold (upsert key mrg) vs m"
proof -
  from assms obtain us ws where vs: "vs = us @ v # ws" by (auto simp: in_set_conv_decomp)
  let ?n = "fold (upsert key mrg) us m"
  have "\<exists>x. map_of (upsert key mrg v ?n) (key v) = Some x \<and> mrg x v = x"
    by (simp add: upsert_lookup mrg_self mrg_again split: option.split)
  then obtain y where "map_of (fold (upsert key mrg) vs m) (key v) = Some y" and "mrg y v = y"
    using absorbed_fold [of "upsert key mrg v ?n" v _ ws] vs by auto
  then show ?thesis by (simp add: upsert_def update_triv)
qed

lemma redelivery_all:
  "set ws \<subseteq> set vs \<Longrightarrow> fold (upsert key mrg) ws (fold (upsert key mrg) vs m) = fold (upsert key mrg) vs m"
  by (induction ws) (auto simp: redelivery)

end

end
