(* ===== verification/DataPoints.thy ===== *)
theory DataPoints
  imports Orca_Prelude "HOL-Library.Char_ord" "HOL-Library.List_Lexorder"
begin

text \<open>
  The unit of data: \<^verbatim>\<open>orcastork/datapoints/base.py\<close> (values, identity, the class registry,
  re-observation, emission), \<^verbatim>\<open>collection.py\<close> (the keyed set with merge-on-add) and
  \<^verbatim>\<open>view.py\<close> (the subtype-aware query facade).

  A Python class is its unique name with the names of its proper bases (the tail of its
  \<^verbatim>\<open>__mro__\<close>). Values are the JSON-native values, with sets of strings; floats are not
  modelled. \<open>canon\<close> picks one representative of the objects Python's \<^verbatim>\<open>==\<close> identifies
  (a \<^verbatim>\<open>bool\<close> equals the \<^verbatim>\<open>int\<close> of the same value), so a dictionary keyed by Python
  objects is one keyed by representatives. Pydantic's class machinery enters as the resolved
  attributes of a class statement.
\<close>

section \<open>Classes\<close>

datatype pyclass = PyClass (cls_name: string) (cls_bases: "string list")

definition issubclass :: "pyclass \<Rightarrow> pyclass \<Rightarrow> bool" where
  "issubclass c d \<longleftrightarrow> cls_name d \<in> set (cls_name c # cls_bases c)"

lemma issubclass_refl [simp, intro]: "issubclass c c"
  by (simp add: issubclass_def)

section \<open>Values and their normal form\<close>

datatype pyval =
    PNone
  | PBool bool
  | PInt int
  | PStr string
  | PList "pyval list"
  | PTuple "pyval list"
  | PDict "(string \<times> pyval) list"
  | PSet "string list"

fun make_hashable :: "pyval \<Rightarrow> pyval" where
  "make_hashable (PList xs) = PTuple (map make_hashable xs)"
| "make_hashable (PTuple xs) = PTuple (map make_hashable xs)"
| "make_hashable (PDict kvs) =
     PTuple (map (\<lambda>kv. PTuple [PStr (fst kv), snd kv])
       (sort_key fst (map (\<lambda>(k, v). (k, make_hashable v)) kvs)))"
| "make_hashable (PSet xs) = PTuple (map PStr (sort (remdups xs)))"
| "make_hashable v = v"

text \<open>Python's \<^verbatim>\<open>==\<close> on normal forms, and the representative of its classes.\<close>

fun py_eq :: "pyval \<Rightarrow> pyval \<Rightarrow> bool" where
  "py_eq PNone PNone = True"
| "py_eq (PBool a) (PBool b) = (a = b)"
| "py_eq (PBool a) (PInt n) = (n = of_bool a)"
| "py_eq (PInt n) (PBool a) = (n = of_bool a)"
| "py_eq (PInt m) (PInt n) = (m = n)"
| "py_eq (PStr s) (PStr t) = (s = t)"
| "py_eq (PTuple []) (PTuple []) = True"
| "py_eq (PTuple (x # xs)) (PTuple (y # ys)) = (py_eq x y \<and> py_eq (PTuple xs) (PTuple ys))"
| "py_eq _ _ = False"

fun canon :: "pyval \<Rightarrow> pyval" where
  "canon (PBool a) = PInt (of_bool a)"
| "canon (PTuple xs) = PTuple (map canon xs)"
| "canon v = v"

fun hashable :: "pyval \<Rightarrow> bool" where
  "hashable (PTuple xs) = list_all hashable xs"
| "hashable (PList _) = False"
| "hashable (PDict _) = False"
| "hashable (PSet _) = False"
| "hashable _ = True"

lemma make_hashable_hashable [simp]: "hashable (make_hashable v)"
  by (induction v rule: make_hashable.induct) (auto simp: list_all_iff)

lemma py_eq_canon: "hashable a \<Longrightarrow> hashable b \<Longrightarrow> py_eq a b \<longleftrightarrow> canon a = canon b"
  by (induction a b rule: py_eq.induct) auto

text \<open>Two spellings of one dictionary or set have one normal form.\<close>

lemma sort_key_fst_unique:
  fixes kvs kvs' :: "(string \<times> 'a) list"
  assumes "set kvs = set kvs'" and "distinct (map fst kvs)" and "distinct (map fst kvs')"
  shows "sort_key fst kvs = sort_key fst kvs'"
proof (rule alist_eqI)
  have d: "distinct (map fst (sort_key fst kvs))" "distinct (map fst (sort_key fst kvs'))"
    using assms(2,3) by (auto simp: distinct_map)
  then show "distinct (map fst (sort_key fst kvs))" by simp
  show "map fst (sort_key fst kvs) = map fst (sort_key fst kvs')"
    using d by (intro sorted_distinct_set_unique) (auto simp: assms(1))
  have "set (sort_key fst kvs) = set (sort_key fst kvs')" using assms(1) by simp
  with d show "map_of (sort_key fst kvs) = map_of (sort_key fst kvs')"
    by (metis map_of_eqI map_of_eq_Some_iff ext option.exhaust)
qed

lemma make_hashable_dict:
  assumes "set kvs = set kvs'" and "distinct (map fst kvs)" and "distinct (map fst kvs')"
  shows "make_hashable (PDict kvs) = make_hashable (PDict kvs')"
proof -
  let ?f = "\<lambda>(k, v). (k, make_hashable v)"
  have keys: "map fst (map ?f l) = map fst l" for l :: "(string \<times> pyval) list" by (induction l) auto
  have "sort_key fst (map ?f kvs) = sort_key fst (map ?f kvs')"
    by (rule sort_key_fst_unique) (simp_all add: keys assms del: map_map)
  then show ?thesis by simp
qed

text \<open>Normalising a normal form changes nothing.\<close>

lemma make_hashable_idem: "hashable v \<Longrightarrow> make_hashable v = v"
  by (induction v rule: hashable.induct) (auto simp: list_all_iff intro: map_idI)

section \<open>Classes of data and the registry\<close>

record dp_config =
  pii :: bool
  ephemeral :: bool
  audit_every_emission :: bool

text \<open>
  A subclass statement of \<^verbatim>\<open>BaseDataPoint\<close> as the registration hook sees it: whether it is one
  of pydantic's generic parametrisations, whether its own body sets \<^verbatim>\<open>__abstract__\<close>, the
  resolved default of the \<^verbatim>\<open>type\<close> field and the resolved \<^verbatim>\<open>config\<close>.
\<close>

record dp_class =
  dpc_class :: pyclass
  dpc_parametrized :: bool
  dpc_own_abstract :: bool
  dpc_type :: "string option"
  dpc_config :: "dp_config option"

record dp_registry =
  reg_leaves :: "(string \<times> dp_class) list"
  reg_abstract :: "pyclass list"
  reg_version :: int

definition empty_registry :: dp_registry where
  "empty_registry = \<lparr>reg_leaves = [], reg_abstract = [], reg_version = 0\<rparr>"

definition init_subclass :: "dp_class \<Rightarrow> (dp_registry, unit) op" where
  "init_subclass cls reg =
     (if dpc_parametrized cls then (Inr (), reg)
      else if dpc_own_abstract cls then
        (Inr (), reg\<lparr>reg_abstract := List.insert (dpc_class cls) (reg_abstract reg),
                     reg_version := reg_version reg + 1\<rparr>)
      else case dpc_type cls of
        None \<Rightarrow> (Inl InvalidDataPointError, reg)
      | Some t \<Rightarrow>
          if dpc_config cls = None then (Inl InvalidDataPointError, reg)
          else case map_of (reg_leaves reg) t of
            Some existing \<Rightarrow>
              if existing \<noteq> cls then (Inl DuplicateRegistrationError, reg)
              else (Inr (), reg\<lparr>reg_leaves := AList.update t cls (reg_leaves reg),
                                reg_version := reg_version reg + 1\<rparr>)
          | None \<Rightarrow> (Inr (), reg\<lparr>reg_leaves := AList.update t cls (reg_leaves reg),
                                reg_version := reg_version reg + 1\<rparr>))"

definition registered_leaves :: "dp_registry \<Rightarrow> pyclass list" where
  "registered_leaves reg = map (\<lambda>p. dpc_class (snd p)) (reg_leaves reg)"

definition subtypes_of :: "dp_registry \<Rightarrow> pyclass \<Rightarrow> pyclass list" where
  "subtypes_of reg t = filter (\<lambda>leaf. issubclass leaf t) (registered_leaves reg)"

section \<open>DataPoints\<close>

record data_point =
  dp_class :: dp_class
  dp_type :: string
  dp_value :: pyval
  retrieved_by :: operator_id
  first_retrieved :: instant
  last_retrieved :: instant

abbreviation dp_pyclass :: "data_point \<Rightarrow> pyclass" where
  "dp_pyclass d \<equiv> dpc_class (dp_class d)"

type_synonym identity = "string \<times> pyval"

definition identity_key :: "data_point \<Rightarrow> identity" where
  "identity_key d = (dp_type d, canon (make_hashable (dp_value d)))"

definition dp_eq :: "data_point \<Rightarrow> data_point \<Rightarrow> bool" where
  "dp_eq a b \<longleftrightarrow> dp_type a = dp_type b \<and> py_eq (make_hashable (dp_value a)) (make_hashable (dp_value b))"

definition is_pii :: "data_point \<Rightarrow> bool" where
  "is_pii d = (case dpc_config (dp_class d) of None \<Rightarrow> False | Some c \<Rightarrow> pii c)"

definition is_ephemeral :: "data_point \<Rightarrow> bool" where
  "is_ephemeral d = (case dpc_config (dp_class d) of None \<Rightarrow> False | Some c \<Rightarrow> ephemeral c)"

definition audits_every_emission :: "data_point \<Rightarrow> bool" where
  "audits_every_emission d = (case dpc_config (dp_class d) of None \<Rightarrow> True | Some c \<Rightarrow> audit_every_emission c)"

definition reobserved :: "data_point \<Rightarrow> instant \<Rightarrow> data_point" where
  "reobserved d t = d\<lparr>last_retrieved := max (last_retrieved d) t\<rparr>"

record emission =
  leaf_type :: dp_class
  em_value :: pyval

definition emit :: "dp_registry \<Rightarrow> dp_class \<Rightarrow> pyval \<Rightarrow> orca_error + emission" where
  "emit reg cls v =
     (if cls \<notin> snd ` set (reg_leaves reg) then Inl InvalidDataPointError
      else Inr \<lparr>leaf_type = cls, em_value = v\<rparr>)"

text \<open>
  Building the model validates the value against the leaf's schema, which is pydantic's:
  \<open>validate\<close> stands for it, returning the coerced value or the validation error.
\<close>

definition finalize ::
  "(dp_class \<Rightarrow> pyval \<Rightarrow> orca_error + pyval) \<Rightarrow> emission \<Rightarrow> operator_id \<Rightarrow> instant \<Rightarrow> orca_error + data_point" where
  "finalize validate em oid obs =
     (case validate (leaf_type em) (em_value em) of
        Inl err \<Rightarrow> Inl err
      | Inr v \<Rightarrow> (case dpc_type (leaf_type em) of
          None \<Rightarrow> Inl InvalidDataPointError
        | Some t \<Rightarrow> Inr \<lparr>dp_class = leaf_type em, dp_type = t, dp_value = v, retrieved_by = oid,
                        first_retrieved = obs, last_retrieved = obs\<rparr>))"

lemma reobserved_simps [simp]:
  "dp_class (reobserved d t) = dp_class d"
  "dp_type (reobserved d t) = dp_type d"
  "dp_value (reobserved d t) = dp_value d"
  "retrieved_by (reobserved d t) = retrieved_by d"
  "first_retrieved (reobserved d t) = first_retrieved d"
  "last_retrieved (reobserved d t) = max (last_retrieved d) t"
  "identity_key (reobserved d t) = identity_key d"
  by (simp_all add: reobserved_def identity_key_def)

lemma reobserved_reobserved [simp]: "reobserved (reobserved d t) u = reobserved d (max t u)"
  by (simp add: reobserved_def max.assoc)

lemma reobserved_old [simp]: "t \<le> last_retrieved d \<Longrightarrow> reobserved d t = d"
  by (simp add: reobserved_def max_absorb1)

lemma dp_eq_identity: "dp_eq a b \<longleftrightarrow> identity_key a = identity_key b"
  by (simp add: dp_eq_def identity_key_def py_eq_canon)

section \<open>The keyed set\<close>

datatype merge_kind = ADDED | UPDATED

type_synonym merge_result = "merge_kind \<times> data_point"
type_synonym dp_set = "(identity \<times> data_point) list"

definition dpset_add :: "dp_set \<Rightarrow> data_point \<Rightarrow> merge_result \<times> dp_set" where
  "dpset_add items d =
     (case map_of items (identity_key d) of
        None \<Rightarrow> ((ADDED, d), AList.update (identity_key d) d items)
      | Some existing \<Rightarrow>
          let merged = reobserved existing (last_retrieved d)
          in ((UPDATED, merged), AList.update (identity_key d) merged items))"

definition dpset_of :: "data_point list \<Rightarrow> dp_set" where
  "dpset_of ds = foldl (\<lambda>items d. snd (dpset_add items d)) [] ds"

definition dpset_all :: "dp_set \<Rightarrow> data_point list" where
  "dpset_all items = map snd items"

definition dpset_contains :: "dp_set \<Rightarrow> data_point \<Rightarrow> bool" where
  "dpset_contains items d \<longleftrightarrow> identity_key d \<in> set (map fst items)"

definition merge_observation :: "data_point \<Rightarrow> data_point \<Rightarrow> data_point" where
  "merge_observation old d = reobserved old (last_retrieved d)"

interpretation observation: keyed_merge identity_key merge_observation
  by unfold_locales (auto simp: merge_observation_def max.commute)

lemma dpset_add_upsert: "snd (dpset_add items d) = upsert identity_key merge_observation d items"
  by (simp add: dpset_add_def upsert_def merge_observation_def Let_def split: option.split)

lemma dpset_of_fold: "dpset_of ds = fold (upsert identity_key merge_observation) ds []"
  by (simp add: dpset_of_def dpset_add_upsert foldl_conv_fold)

lemma foldl_merge_observation:
  "foldl merge_observation d ds = reobserved d (foldl max (last_retrieved d) (map last_retrieved ds))"
proof (induction ds arbitrary: d)
  case Nil
  show ?case by simp
next
  case (Cons e ds)
  let ?M = "foldl max (max (last_retrieved d) (last_retrieved e)) (map last_retrieved ds)"
  have mono: "a \<le> foldl max a xs" for a :: int and xs
    by (induction xs arbitrary: a) (auto intro: order_trans[OF max.cobounded1])
  have le: "last_retrieved e \<le> ?M" by (rule order_trans [OF max.cobounded2 mono])
  have "foldl merge_observation d (e # ds) = reobserved (merge_observation d e) ?M"
    by (simp only: foldl.simps Cons.IH) (simp add: merge_observation_def)
  also have "\<dots> = reobserved d ?M"
    by (simp add: merge_observation_def max_absorb2 [OF le])
  finally show ?case by simp
qed

section \<open>The view\<close>

type_synonym dp_view = "data_point list"

definition of_type :: "dp_view \<Rightarrow> pyclass \<Rightarrow> data_point list" where
  "of_type items t = filter (\<lambda>d. issubclass (dp_pyclass d) t) items"

text \<open>Python's \<^verbatim>\<open>max\<close> with a key returns the first maximal element.\<close>

fun max_by_key :: "('a \<Rightarrow> int) \<Rightarrow> 'a \<Rightarrow> 'a list \<Rightarrow> 'a" where
  "max_by_key f m [] = m"
| "max_by_key f m (x # xs) = max_by_key f (if f m < f x then x else m) xs"

definition latest :: "dp_view \<Rightarrow> pyclass \<Rightarrow> data_point option" where
  "latest items t =
     (case of_type items t of [] \<Rightarrow> None | d # ds \<Rightarrow> Some (max_by_key last_retrieved d ds))"

definition present_types :: "dp_view \<Rightarrow> pyclass list" where
  "present_types items = remdups (map dp_pyclass items)"

lemma max_by_key_in: "max_by_key f m xs \<in> insert m (set xs)"
  by (induction xs arbitrary: m) (auto split: if_splits)

lemma max_by_key_ge: "x \<in> insert m (set xs) \<Longrightarrow> f x \<le> f (max_by_key f m xs)"
proof (induction xs arbitrary: m x)
  case Nil
  then show ?case by simp
next
  case (Cons y ys)
  let ?m = "if f m < f y then y else m"
  have "f x \<le> f ?m \<or> x \<in> set ys" using Cons.prems by auto
  moreover have "f ?m \<le> f (max_by_key f ?m ys)" by (rule Cons.IH) simp
  moreover have "x \<in> set ys \<Longrightarrow> f x \<le> f (max_by_key f ?m ys)" by (rule Cons.IH) simp
  ultimately have "f x \<le> f (max_by_key f ?m ys)" by (auto intro: order_trans)
  then show ?case by simp
qed

section \<open>Sample data for the concrete instances\<close>

definition sample_class :: dp_class where
  "sample_class = \<lparr>dpc_class = PyClass ''Fact'' [], dpc_parametrized = False, dpc_own_abstract = False,
     dpc_type = Some ''fact'', dpc_config = Some \<lparr>pii = False, ephemeral = False, audit_every_emission = True\<rparr>\<rparr>"

definition sample_dp :: "string \<Rightarrow> instant \<Rightarrow> data_point" where
  "sample_dp v t = \<lparr>dp_class = sample_class, dp_type = ''fact'', dp_value = PStr v, retrieved_by = ''probe'',
     first_retrieved = t, last_retrieved = t\<rparr>"

lemma sample_dp_simps [simp]:
  "identity_key (sample_dp v t) = (''fact'', PStr v)"
  "last_retrieved (sample_dp v t) = t" "first_retrieved (sample_dp v t) = t"
  "dp_class (sample_dp v t) = sample_class" "dp_type (sample_dp v t) = ''fact''"
  by (simp_all add: sample_dp_def identity_key_def)

section \<open>Properties\<close>

text \<open>
  Also: a keyed set built from any sequence of observations holds, under each identity, the first
  observation of that identity with its last-retrieved time raised to the latest one observed
  (so the first-retrieved time is never touched), nothing under an identity never observed, and
  each identity once.
\<close>

theorem dpset_content:
  "map_of (dpset_of ds) k =
     (case filter (\<lambda>d. identity_key d = k) ds of
        [] \<Rightarrow> None
      | w # ws \<Rightarrow> Some (reobserved w (foldl max (last_retrieved w) (map last_retrieved ws))))
   \<and> distinct (map fst (dpset_of ds)) \<and> (\<forall>p. p \<in> set (dpset_of ds) \<longrightarrow> identity_key (snd p) = fst p)"
proof -
  have "well_keyed identity_key (dpset_of ds)"
    unfolding dpset_of_fold by (rule observation.fold_keyed) simp
  moreover have "map_of (dpset_of ds) k =
     (case filter (\<lambda>d. identity_key d = k) ds of
        [] \<Rightarrow> None
      | w # ws \<Rightarrow> Some (reobserved w (foldl max (last_retrieved w) (map last_retrieved ws))))"
    unfolding dpset_of_fold observation.fold_lookup
    by (simp add: foldl_merge_observation split: list.split)
  ultimately show ?thesis by (simp add: well_keyed_def)
qed

theorem dpset_content_witness:
  "map_of (dpset_of [sample_dp ''a'' 3, sample_dp ''b'' 4, sample_dp ''a'' 7]) (''fact'', PStr ''a'')
     = Some (reobserved (sample_dp ''a'' 3) 7)"
  using dpset_content [of "[sample_dp ''a'' 3, sample_dp ''b'' 4, sample_dp ''a'' 7]" "(''fact'', PStr ''a'')"]
  by simp

text \<open>
  Also: merging is idempotent under redelivery: observations that a keyed set has already merged
  can be delivered again, in any order and any number of times, without changing it.
\<close>

theorem dpset_redelivery:
  assumes "set ws \<subseteq> set ds"
  shows "dpset_of (ds @ ws) = dpset_of ds"
  using observation.redelivery_all [OF assms, of "[]"] by (simp add: dpset_of_fold)

theorem dpset_redelivery_witness:
  "dpset_of ([sample_dp ''a'' 3, sample_dp ''b'' 4] @ [sample_dp ''b'' 4, sample_dp ''a'' 3, sample_dp ''b'' 4]) =
   dpset_of [sample_dp ''a'' 3, sample_dp ''b'' 4]"
  by (rule dpset_redelivery) simp

text \<open>
  Also: two observations are the same fact exactly when their identity keys are equal, whatever
  the order in which the entries of a dictionary value were written down.
\<close>

theorem identity_decides_equality:
  "(dp_eq a b \<longleftrightarrow> identity_key a = identity_key b) \<and>
   (set kvs = set kvs' \<longrightarrow> distinct (map fst kvs) \<longrightarrow> distinct (map fst kvs') \<longrightarrow>
      identity_key (d\<lparr>dp_value := PDict kvs\<rparr>) = identity_key (d\<lparr>dp_value := PDict kvs'\<rparr>))"
proof (intro conjI impI)
  show "dp_eq a b \<longleftrightarrow> identity_key a = identity_key b" by (rule dp_eq_identity)
  assume "set kvs = set kvs'" and "distinct (map fst kvs)" and "distinct (map fst kvs')"
  from make_hashable_dict [OF this]
  show "identity_key (d\<lparr>dp_value := PDict kvs\<rparr>) = identity_key (d\<lparr>dp_value := PDict kvs'\<rparr>)"
    by (simp only: identity_key_def) simp
qed

theorem identity_decides_equality_witness:
  "identity_key (sample_dp ''x'' 0\<lparr>dp_value := PDict [(''b'', PInt 2), (''a'', PInt 1)]\<rparr>) =
   identity_key (sample_dp ''x'' 0\<lparr>dp_value := PDict [(''a'', PInt 1), (''b'', PInt 2)]\<rparr>)"
  using identity_decides_equality [of "sample_dp ''x'' 0" "sample_dp ''x'' 0"
      "[(''b'', PInt 2), (''a'', PInt 1)]" "[(''a'', PInt 1), (''b'', PInt 2)]" "sample_dp ''x'' 0"]
  by auto

end
