(* ===== verification/Session_Store.thy ===== *)
theory Session_Store
  imports DataPoints
begin

text \<open>
  The session store: the port \<^verbatim>\<open>orcastork/ports/datapoint_store.py\<close> and its in-memory
  adapter \<^verbatim>\<open>orcastork/adapters/memory/store.py\<close>. One session's state is a record with the
  adapter's fields; every operation is a function of it, guarded by the fencing epoch. The
  adapter's dictionary of sessions is the last section.
\<close>

declare map_of_eq_Some_iff [simp del] Some_eq_map_of_iff [simp del]

section \<open>Effect states and claims\<close>

definition effect_committed :: string where
  "effect_committed = ''committed''"

definition effect_pending_prefix :: string where
  "effect_pending_prefix = ''pending:''"

definition effect_pending_state :: "epoch \<Rightarrow> string" where
  "effect_pending_state e = effect_pending_prefix @ show_int e"

definition effect_pending_epoch :: "string \<Rightarrow> epoch option" where
  "effect_pending_epoch state =
     (if take (length effect_pending_prefix) state \<noteq> effect_pending_prefix then None
      else parse_int (drop (length effect_pending_prefix) state))"

datatype effect_claim = ACQUIRED | ALREADY_COMMITTED | PENDING_SAME_EPOCH | PENDING_STALE_EPOCH

lemma effect_pending_roundtrip [simp]: "effect_pending_epoch (effect_pending_state e) = Some e"
  by (simp add: effect_pending_epoch_def effect_pending_state_def)

lemma effect_pending_inject [simp]: "effect_pending_state e = effect_pending_state e' \<longleftrightarrow> e = e'"
  by (simp add: effect_pending_state_def)

lemma effect_states_differ [simp]:
  "effect_pending_state e \<noteq> effect_committed" "effect_committed \<noteq> effect_pending_state e"
  by (simp_all add: effect_pending_state_def effect_pending_prefix_def effect_committed_def)

section \<open>State\<close>

record st_entry =
  en_dp :: data_point
  en_added :: revision
  en_updated :: revision

record change_set =
  cs_added :: "data_point list"
  cs_updated :: "data_point list"

record session_state =
  st_entries :: "(identity \<times> st_entry) list"
  st_revision :: revision
  st_max_epoch :: epoch
  st_watermarks :: "operator_id \<rightharpoonup> revision"
  st_effects :: "string \<rightharpoonup> string"
  st_deadline :: "instant option"
  st_fingerprint :: "string option"

definition empty_session :: session_state where
  "empty_session = \<lparr>st_entries = [], st_revision = 0, st_max_epoch = 0, st_watermarks = Map.empty,
     st_effects = Map.empty, st_deadline = None, st_fingerprint = None\<rparr>"

definition store_guard_epoch :: "epoch \<Rightarrow> (session_state, unit) op" where
  "store_guard_epoch e s =
     (if e < st_max_epoch s then (Inl StaleEpochError, s) else (Inr (), s\<lparr>st_max_epoch := e\<rparr>))"

section \<open>The keyed merge of a write\<close>

text \<open>One iteration of the loop of \<^verbatim>\<open>write\<close>: the entries and the changed flag.\<close>

definition write_one ::
  "revision \<Rightarrow> (identity \<times> st_entry) list \<times> bool \<Rightarrow> data_point \<Rightarrow> (identity \<times> st_entry) list \<times> bool" where
  "write_one rv st d =
     (case st of (entries, changed) \<Rightarrow>
        (case map_of entries (identity_key d) of
           None \<Rightarrow> (AList.update (identity_key d) \<lparr>en_dp = d, en_added = rv, en_updated = rv\<rparr> entries, True)
         | Some existing \<Rightarrow>
             if last_retrieved (en_dp existing) < last_retrieved d
             then (AList.update (identity_key d)
                     (existing\<lparr>en_dp := reobserved (en_dp existing) (last_retrieved d), en_updated := rv\<rparr>)
                     entries, True)
             else (entries, changed)))"

definition store_write :: "data_point list \<Rightarrow> epoch \<Rightarrow> (session_state, revision) op" where
  "store_write dps e = bindE (store_guard_epoch e) (\<lambda>_ s.
     let nxt = st_revision s + 1;
         (entries, changed) = foldl (write_one nxt) (st_entries s, False) dps;
         s' = s\<lparr>st_entries := entries, st_revision := (if changed then nxt else st_revision s)\<rparr>
     in (Inr (st_revision s'), s'))"

definition apply_added :: "revision \<Rightarrow> (identity \<times> st_entry) list \<Rightarrow> data_point \<Rightarrow> (identity \<times> st_entry) list" where
  "apply_added rv entries d =
     AList.update (identity_key d) \<lparr>en_dp = d, en_added = rv, en_updated = rv\<rparr> entries"

definition apply_updated :: "revision \<Rightarrow> (identity \<times> st_entry) list \<Rightarrow> data_point \<Rightarrow> (identity \<times> st_entry) list" where
  "apply_updated rv entries d =
     (let added = (case map_of entries (identity_key d) of None \<Rightarrow> 0 | Some existing \<Rightarrow> en_added existing)
      in AList.update (identity_key d) \<lparr>en_dp = d, en_added = added, en_updated = rv\<rparr> entries)"

definition store_apply_resolved :: "data_point list \<Rightarrow> data_point list \<Rightarrow> epoch \<Rightarrow> (session_state, revision) op" where
  "store_apply_resolved added updated e = bindE (store_guard_epoch e) (\<lambda>_ s.
     if added = [] \<and> updated = [] then (Inr (st_revision s), s)
     else let nxt = st_revision s + 1;
              entries = foldl (apply_updated nxt) (foldl (apply_added nxt) (st_entries s) added) updated
          in (Inr nxt, s\<lparr>st_entries := entries, st_revision := nxt\<rparr>))"

section \<open>Reads\<close>

definition store_snapshot :: "session_state \<Rightarrow> dp_view" where
  "store_snapshot s = map (\<lambda>p. en_dp (snd p)) (st_entries s)"

definition store_change_set_since :: "session_state \<Rightarrow> revision \<Rightarrow> change_set" where
  "store_change_set_since s since =
     \<lparr>cs_added = map (\<lambda>p. en_dp (snd p)) (filter (\<lambda>p. since < en_added (snd p)) (st_entries s)),
      cs_updated = map (\<lambda>p. en_dp (snd p))
        (filter (\<lambda>p. en_added (snd p) \<le> since \<and> since < en_updated (snd p)) (st_entries s))\<rparr>"

definition store_get_watermark :: "session_state \<Rightarrow> operator_id \<Rightarrow> revision option" where
  "store_get_watermark s oid = st_watermarks s oid"

section \<open>Session meta state\<close>

definition store_set_watermark :: "operator_id \<Rightarrow> revision \<Rightarrow> epoch \<Rightarrow> (session_state, unit) op" where
  "store_set_watermark oid rv e = bindE (store_guard_epoch e) (\<lambda>_ s.
     (Inr (), s\<lparr>st_watermarks := (st_watermarks s)(oid \<mapsto> rv)\<rparr>))"

definition store_set_deadline :: "instant \<Rightarrow> epoch \<Rightarrow> (session_state, unit) op" where
  "store_set_deadline t e = bindE (store_guard_epoch e) (\<lambda>_ s. (Inr (), s\<lparr>st_deadline := Some t\<rparr>))"

definition store_set_fingerprint :: "string \<Rightarrow> epoch \<Rightarrow> (session_state, unit) op" where
  "store_set_fingerprint f e = bindE (store_guard_epoch e) (\<lambda>_ s. (Inr (), s\<lparr>st_fingerprint := Some f\<rparr>))"

section \<open>Effects\<close>

definition claim_effect :: "string \<Rightarrow> bool \<Rightarrow> epoch \<Rightarrow> (session_state, effect_claim) op" where
  "claim_effect k reclaim_stale e = bindE (store_guard_epoch e) (\<lambda>_ s.
     (case st_effects s k of
        None \<Rightarrow> (Inr ACQUIRED, s\<lparr>st_effects := (st_effects s)(k \<mapsto> effect_pending_state e)\<rparr>)
      | Some stored \<Rightarrow>
          if stored = effect_committed then (Inr ALREADY_COMMITTED, s)
          else if stored = effect_pending_state e then (Inr PENDING_SAME_EPOCH, s)
          else if reclaim_stale
            then (Inr ACQUIRED, s\<lparr>st_effects := (st_effects s)(k \<mapsto> effect_pending_state e)\<rparr>)
          else (Inr PENDING_STALE_EPOCH, s)))"

definition commit_effect :: "string \<Rightarrow> epoch \<Rightarrow> (session_state, unit) op" where
  "commit_effect k e = bindE (store_guard_epoch e) (\<lambda>_ s.
     if st_effects s k \<in> {Some (effect_pending_state e), Some effect_committed}
     then (Inr (), s\<lparr>st_effects := (st_effects s)(k \<mapsto> effect_committed)\<rparr>) else (Inr (), s))"

definition revert_effect :: "string \<Rightarrow> epoch \<Rightarrow> (session_state, unit) op" where
  "revert_effect k e = bindE (store_guard_epoch e) (\<lambda>_ s.
     if st_effects s k = Some (effect_pending_state e)
     then (Inr (), s\<lparr>st_effects := (st_effects s)(k := None)\<rparr>) else (Inr (), s))"

definition get_effect_state :: "session_state \<Rightarrow> string \<Rightarrow> string option" where
  "get_effect_state s k = st_effects s k"

section \<open>The guarded operations as one type\<close>

datatype store_op =
    OWrite "data_point list"
  | OApply "data_point list" "data_point list"
  | OWatermark operator_id revision
  | OClaim string bool
  | OCommit string
  | ORevert string
  | ODeadline instant
  | OFingerprint string

definition void :: "('s, 'r) op \<Rightarrow> ('s, unit) op" where
  "void m = bindE m (\<lambda>_. returnE ())"

fun store_act :: "epoch \<Rightarrow> store_op \<Rightarrow> (session_state, unit) op" where
  "store_act e (OWrite dps) = void (store_write dps e)"
| "store_act e (OApply added updated) = void (store_apply_resolved added updated e)"
| "store_act e (OWatermark oid rv) = store_set_watermark oid rv e"
| "store_act e (OClaim k r) = void (claim_effect k r e)"
| "store_act e (OCommit k) = commit_effect k e"
| "store_act e (ORevert k) = revert_effect k e"
| "store_act e (ODeadline t) = store_set_deadline t e"
| "store_act e (OFingerprint f) = store_set_fingerprint f e"

lemmas store_op_defs = store_write_def store_apply_resolved_def store_set_watermark_def
  store_set_deadline_def store_set_fingerprint_def claim_effect_def commit_effect_def revert_effect_def
  void_def store_guard_epoch_def returnE_def bindE_def

lemma store_act_stale: "e < st_max_epoch s \<Longrightarrow> store_act e x s = (Inl StaleEpochError, s)"
  by (cases x) (simp_all add: store_op_defs)

lemma store_act_fresh:
  assumes "st_max_epoch s \<le> e"
  shows "st_max_epoch (snd (store_act e x s)) = e" and "fst (store_act e x s) = Inr ()"
  using assms
  by (cases x; simp add: store_op_defs Let_def split: prod.splits option.splits if_splits)+

interpretation store_fence: fenced_writer st_max_epoch store_act
proof
  fix e :: epoch and s x
  show "e < st_max_epoch s \<Longrightarrow> store_act e x s = (Inl StaleEpochError, s)" by (rule store_act_stale)
  assume "st_max_epoch s \<le> e"
  then show "st_max_epoch (snd (store_act e x s)) = e" and "fst (store_act e x s) \<noteq> Inl StaleEpochError"
    using store_act_fresh by auto
qed

section \<open>What a write does under one key\<close>

lemma write_one_keys:
  "map fst (fst (write_one n (E, c) d)) =
     (if identity_key d \<in> fst ` set E then map fst E else map fst E @ [identity_key d])"
  using map_of_None_notin [of E "identity_key d"]
  by (auto simp: write_one_def map_fst_update split: option.split)

lemma write_fold_keys_set:
  "fst ` set (fst (foldl (write_one n) st dps)) = fst ` set (fst st) \<union> identity_key ` set dps"
proof (induction dps arbitrary: st)
  case Nil
  show ?case by simp
next
  case (Cons d dps)
  have "fst ` set (fst (write_one n st d)) = insert (identity_key d) (fst ` set (fst st))"
    using arg_cong [OF write_one_keys [of n "fst st" "snd st" d], of set]
    by (simp add: insert_absorb split: if_splits)
  then show ?case by (simp add: Cons)
qed

lemma write_fold_distinct:
  "distinct (map fst (fst st)) \<Longrightarrow> distinct (map fst (fst (foldl (write_one n) st dps)))"
proof (induction dps arbitrary: st)
  case (Cons d dps)
  have "distinct (map fst (fst (write_one n st d)))"
    using Cons.prems by (cases st) (auto simp: write_one_def split: option.split)
  then show ?case by (simp add: Cons.IH)
qed simp

text \<open>
  The entry a write leaves under a key: a new identity carries the merge of its observations and
  both stamps of the batch; a known one is freshened, and stamped, only by a later observation.
\<close>

definition written_entry :: "revision \<Rightarrow> data_point list \<Rightarrow> st_entry option \<Rightarrow> st_entry option" where
  "written_entry n ws old =
     (case old of
        None \<Rightarrow> (case ws of [] \<Rightarrow> None
                | w # vs \<Rightarrow> Some \<lparr>en_dp = foldl merge_observation w vs, en_added = n, en_updated = n\<rparr>)
      | Some en \<Rightarrow> Some (let m = foldl merge_observation (en_dp en) ws in
          if last_retrieved (en_dp en) < last_retrieved m then en\<lparr>en_dp := m, en_updated := n\<rparr> else en))"

lemma foldl_max_mono: "(a :: int) \<le> foldl max a xs"
  by (induction xs arbitrary: a) (auto intro: order_trans [OF max.cobounded1])

lemma last_foldl_merge: "last_retrieved (foldl merge_observation d ds) = foldl max (last_retrieved d) (map last_retrieved ds)"
  by (simp add: foldl_merge_observation max_absorb2 foldl_max_mono)

lemma foldl_merge_same:
  "\<not> last_retrieved d < last_retrieved (foldl merge_observation d ds) \<Longrightarrow> foldl merge_observation d ds = d"
  using foldl_max_mono [of "last_retrieved d" "map last_retrieved ds"]
  by (simp add: foldl_merge_observation)

lemma write_one_lookup:
  "map_of (fst (write_one n st d)) k =
     (if k = identity_key d then written_entry n [d] (map_of (fst st) k) else map_of (fst st) k)"
  by (cases st) (auto simp: write_one_def written_entry_def merge_observation_def Let_def split: option.split)

lemma written_entry_Cons:
  "written_entry n (d # ws) old = written_entry n ws (written_entry n [d] old)"
proof (cases old)
  case None
  then show ?thesis using foldl_merge_same [of d ws] by (auto simp: written_entry_def Let_def)
next
  case (Some en)
  let ?d = "merge_observation (en_dp en) d"
  have le: "last_retrieved ?d \<le> last_retrieved (foldl merge_observation ?d ws)"
    by (simp add: last_foldl_merge foldl_max_mono)
  show ?thesis
  proof (cases "last_retrieved (en_dp en) < last_retrieved ?d")
    case True
    with le Some foldl_merge_same [of ?d ws] show ?thesis by (auto simp: written_entry_def Let_def)
  next
    case False
    then have "?d = en_dp en" by (simp add: merge_observation_def)
    with False Some show ?thesis by (auto simp: written_entry_def Let_def)
  qed
qed

lemma written_entry_Nil [simp]: "written_entry n [] old = old"
  by (simp add: written_entry_def Let_def split: option.split)

lemma write_fold_lookup:
  "map_of (fst (foldl (write_one n) st dps)) k =
     written_entry n (filter (\<lambda>d. identity_key d = k) dps) (map_of (fst st) k)"
proof (induction dps arbitrary: st)
  case Nil
  show ?case by simp
next
  case (Cons d dps)
  show ?case
    by (auto simp: Cons write_one_lookup written_entry_Cons [of n d "filter _ _"])
qed

text \<open>The changed flag: some observation was new to the session or fresher than what is stored.\<close>

lemma write_one_changed:
  "snd (write_one n st d) \<longleftrightarrow> snd st \<or> written_entry n [d] (map_of (fst st) (identity_key d)) \<noteq> map_of (fst st) (identity_key d)
     \<or> (\<exists>en. map_of (fst st) (identity_key d) = Some en \<and> last_retrieved (en_dp en) < last_retrieved d)"
  by (cases st) (auto simp: write_one_def written_entry_def merge_observation_def Let_def split: option.split)

lemma write_fold_unchanged:
  "\<not> snd (foldl (write_one n) st dps) \<Longrightarrow> fst (foldl (write_one n) st dps) = fst st \<and> \<not> snd st"
proof (induction dps arbitrary: st)
  case Nil
  then show ?case by simp
next
  case (Cons d dps)
  then have *: "fst (foldl (write_one n) (write_one n st d) dps) = fst (write_one n st d)"
    "\<not> snd (write_one n st d)" by auto
  then have "fst (write_one n st d) = fst st \<and> \<not> snd st"
    by (cases st) (auto simp: write_one_def split: option.splits if_splits)
  with * show ?case by simp
qed

lemma write_fold_flag_mono: "snd st \<Longrightarrow> snd (foldl (write_one n) st dps)"
  using write_fold_unchanged by blast

section \<open>The store invariant\<close>

definition store_inv :: "session_state \<Rightarrow> bool" where
  "store_inv s \<longleftrightarrow> distinct (map fst (st_entries s)) \<and> 0 \<le> st_revision s \<and> 0 \<le> st_max_epoch s \<and>
     (\<forall>k en. map_of (st_entries s) k = Some en \<longrightarrow>
        identity_key (en_dp en) = k \<and> 0 \<le> en_added en \<and> en_added en \<le> en_updated en \<and>
        en_updated en \<le> st_revision s)"

lemma store_invD:
  assumes "store_inv s" and "map_of (st_entries s) k = Some en"
  shows "identity_key (en_dp en) = k" and "0 \<le> en_added en" and "en_added en \<le> en_updated en"
    and "en_updated en \<le> st_revision s"
  using assms unfolding store_inv_def by blast+

lemma store_inv_empty: "store_inv empty_session"
  by (simp add: store_inv_def empty_session_def)

lemma identity_foldl_merge [simp]: "identity_key (foldl merge_observation d ds) = identity_key d"
  by (simp add: foldl_merge_observation)

lemma store_write_accepted:
  assumes "st_max_epoch s \<le> e"
  shows "store_write dps e s =
     (let written = foldl (write_one (st_revision s + 1)) (st_entries s, False) dps;
          r = (if snd written then st_revision s + 1 else st_revision s)
      in (Inr r, s\<lparr>st_max_epoch := e, st_entries := fst written, st_revision := r\<rparr>))"
  using assms
  by (simp add: store_write_def store_guard_epoch_def bindE_def Let_def case_prod_beta)

definition entry_ok :: "revision \<Rightarrow> identity \<Rightarrow> st_entry \<Rightarrow> bool" where
  "entry_ok r k en \<longleftrightarrow>
     identity_key (en_dp en) = k \<and> 0 \<le> en_added en \<and> en_added en \<le> en_updated en \<and> en_updated en \<le> r"

lemma store_inv_entries:
  "store_inv s \<longleftrightarrow> distinct (map fst (st_entries s)) \<and> 0 \<le> st_revision s \<and> 0 \<le> st_max_epoch s \<and>
     (\<forall>k en. map_of (st_entries s) k = Some en \<longrightarrow> entry_ok (st_revision s) k en)"
  unfolding store_inv_def entry_ok_def by (rule refl)

lemma store_invI:
  assumes "distinct (map fst (st_entries s))" and "0 \<le> st_revision s" and "0 \<le> st_max_epoch s"
    and "\<And>k en. map_of (st_entries s) k = Some en \<Longrightarrow> entry_ok (st_revision s) k en"
  shows "store_inv s"
  using assms unfolding store_inv_entries by blast

lemma store_inv_entry_ok: "store_inv s \<Longrightarrow> map_of (st_entries s) k = Some en \<Longrightarrow> entry_ok (st_revision s) k en"
  unfolding store_inv_entries by blast

lemma written_entry_ok:
  assumes new: "written_entry (r + 1) ws old = Some en" and r: "0 \<le> r"
    and ws: "\<And>w. w \<in> set ws \<Longrightarrow> identity_key w = k"
    and old: "\<And>en0. old = Some en0 \<Longrightarrow> entry_ok r k en0"
  shows "entry_ok (r + 1) k en"
proof (cases old)
  case None
  with new obtain w vs where "ws = w # vs" by (cases ws) (auto simp: written_entry_def)
  with None new r ws [of w] show ?thesis by (auto simp: written_entry_def entry_ok_def)
next
  case (Some en0)
  with new have "en = en0 \<or> en = en0\<lparr>en_dp := foldl merge_observation (en_dp en0) ws, en_updated := r + 1\<rparr>"
    by (auto simp: written_entry_def Let_def split: if_splits)
  with old [OF Some] show ?thesis by (auto simp: entry_ok_def)
qed

lemma store_write_inv:
  assumes inv: "store_inv s"
  shows "store_inv (snd (store_write dps e s))"
proof (cases "e < st_max_epoch s")
  case True
  with inv show ?thesis by (simp add: store_write_def store_guard_epoch_def bindE_def)
next
  case False
  obtain entries ch where f: "foldl (write_one (st_revision s + 1)) (st_entries s, False) dps = (entries, ch)"
    by (cases "foldl (write_one (st_revision s + 1)) (st_entries s, False) dps") auto
  have d: "distinct (map fst entries)"
    using write_fold_distinct [of "(st_entries s, False)" "st_revision s + 1" dps] inv f by (simp add: store_inv_def)
  have entry: "entry_ok (if ch then st_revision s + 1 else st_revision s) k en" if en: "map_of entries k = Some en" for k en
  proof (cases ch)
    case False
    with f write_fold_unchanged [of "st_revision s + 1" "(st_entries s, False)" dps] have "entries = st_entries s" by simp
    with en have "map_of (st_entries s) k = Some en" by simp
    from store_inv_entry_ok [OF inv this] False show ?thesis by simp
  next
    case True
    have "written_entry (st_revision s + 1) (filter (\<lambda>d. identity_key d = k) dps) (map_of (st_entries s) k) = Some en"
      using write_fold_lookup [of "st_revision s + 1" "(st_entries s, False)" dps k] f en by simp
    then have "entry_ok (st_revision s + 1) k en"
    proof (rule written_entry_ok)
      show "0 \<le> st_revision s" using inv by (simp add: store_inv_def)
    qed (auto intro: store_inv_entry_ok [OF inv])
    with True show ?thesis by simp
  qed
  have res: "snd (store_write dps e s) = s\<lparr>st_max_epoch := e, st_entries := entries,
      st_revision := (if ch then st_revision s + 1 else st_revision s)\<rparr>"
    using False f by (simp add: store_write_accepted Let_def)
  have "0 \<le> st_revision s" "0 \<le> st_max_epoch s" using inv by (simp_all add: store_inv_def)
  then show ?thesis unfolding res
    by (intro store_invI) (use False d entry in simp_all)
qed

definition entries_ok :: "revision \<Rightarrow> (identity \<times> st_entry) list \<Rightarrow> bool" where
  "entries_ok r E \<longleftrightarrow> distinct (map fst E) \<and> (\<forall>k en. map_of E k = Some en \<longrightarrow> entry_ok r k en)"

lemma entries_ok_lookup: "entries_ok r E \<Longrightarrow> map_of E k = Some en \<Longrightarrow> entry_ok r k en"
  unfolding entries_ok_def by blast

lemma entries_ok_distinct: "entries_ok r E \<Longrightarrow> distinct (map fst E)"
  unfolding entries_ok_def by blast

lemma entries_ok_update:
  "entries_ok r E \<Longrightarrow> entry_ok r k en \<Longrightarrow> entries_ok r (AList.update k en E)"
  unfolding entries_ok_def by (simp only: map_of_update distinct_keys_update) (auto split: if_splits)

lemma apply_added_ok: "entries_ok (r + 1) E \<Longrightarrow> 0 \<le> r \<Longrightarrow> entries_ok (r + 1) (foldl (apply_added (r + 1)) E ds)"
proof (induction ds arbitrary: E)
  case (Cons d ds)
  have "entries_ok (r + 1) (apply_added (r + 1) E d)"
    unfolding apply_added_def using Cons.prems by (intro entries_ok_update) (simp_all add: entry_ok_def)
  with Cons.IH Cons.prems(2) show ?case by simp
qed simp

lemma apply_updated_ok: "entries_ok (r + 1) E \<Longrightarrow> 0 \<le> r \<Longrightarrow> entries_ok (r + 1) (foldl (apply_updated (r + 1)) E ds)"
proof (induction ds arbitrary: E)
  case (Cons d ds)
  have old: "0 \<le> en_added en \<and> en_added en \<le> r + 1" if "map_of E (identity_key d) = Some en" for en
    using Cons.prems(1) that unfolding entries_ok_def entry_ok_def by (meson order_trans)
  have "entries_ok (r + 1) (apply_updated (r + 1) E d)"
    unfolding apply_updated_def Let_def using Cons.prems
    by (intro entries_ok_update) (auto simp: entry_ok_def old split: option.split)
  with Cons.IH Cons.prems(2) show ?case by simp
qed simp

lemma entry_ok_mono: "entry_ok r k en \<Longrightarrow> r \<le> r' \<Longrightarrow> entry_ok r' k en"
  by (simp add: entry_ok_def)

lemma store_apply_resolved_accepted:
  assumes "st_max_epoch s \<le> e"
  shows "store_apply_resolved added updated e s =
     (if added = [] \<and> updated = [] then (Inr (st_revision s), s\<lparr>st_max_epoch := e\<rparr>)
      else (Inr (st_revision s + 1), s\<lparr>st_max_epoch := e,
        st_entries := foldl (apply_updated (st_revision s + 1)) (foldl (apply_added (st_revision s + 1)) (st_entries s) added) updated,
        st_revision := st_revision s + 1\<rparr>))"
  using assms by (simp add: store_apply_resolved_def store_guard_epoch_def bindE_def Let_def)

lemma store_apply_resolved_inv:
  assumes inv: "store_inv s"
  shows "store_inv (snd (store_apply_resolved added updated e s))"
proof (cases "e < st_max_epoch s \<or> (added = [] \<and> updated = [])")
  case True
  with inv show ?thesis
    by (auto simp: store_apply_resolved_def store_guard_epoch_def bindE_def store_inv_def)
next
  case False
  let ?r = "st_revision s" and ?E = "foldl (apply_updated (st_revision s + 1)) (foldl (apply_added (st_revision s + 1)) (st_entries s) added) updated"
  have r: "0 \<le> ?r" "0 \<le> st_max_epoch s" using inv by (simp_all add: store_inv_def)
  have "entries_ok (?r + 1) (st_entries s)"
    using inv entry_ok_mono [of ?r _ _ "?r + 1"] unfolding store_inv_entries entries_ok_def by simp
  then have "entries_ok (?r + 1) ?E"
    by (intro apply_updated_ok apply_added_ok r)
  note E = entries_ok_distinct [OF this] entries_ok_lookup [OF this]
  have "\<not> (added = [] \<and> updated = [])" "st_max_epoch s \<le> e" using False by auto
  then have res: "snd (store_apply_resolved added updated e s) = s\<lparr>st_max_epoch := e, st_entries := ?E, st_revision := ?r + 1\<rparr>"
    by (simp only: store_apply_resolved_accepted if_False snd_conv)
  show ?thesis unfolding res
    by (intro store_invI) (use E r \<open>st_max_epoch s \<le> e\<close> in simp_all)
qed

lemma store_inv_frame:
  assumes "store_inv s" and "st_entries t = st_entries s" and "st_revision t = st_revision s" and "st_max_epoch s \<le> st_max_epoch t"
  shows "store_inv t"
  using assms unfolding store_inv_def by simp

lemma store_meta_inv:
  assumes "store_inv s"
  shows "store_inv (snd (store_set_watermark oid rv e s))" and "store_inv (snd (store_set_deadline t e s))"
    and "store_inv (snd (store_set_fingerprint f e s))" and "store_inv (snd (claim_effect k r e s))"
    and "store_inv (snd (commit_effect k e s))" and "store_inv (snd (revert_effect k e s))"
  by (rule store_inv_frame [OF assms]; simp add: store_op_defs split: option.split)+

lemma snd_void [simp]: "snd (void m s) = snd (m s)"
  by (simp add: void_def bindE_def returnE_def split: prod.split sum.split)

lemma store_act_inv: "store_inv s \<Longrightarrow> store_inv (snd (store_act e x s))"
  by (cases x) (simp_all add: store_write_inv store_apply_resolved_inv store_meta_inv)

lemma store_run_inv: "store_inv s \<Longrightarrow> store_inv (guarded_run store_act ps s)"
  by (induction ps arbitrary: s) (simp_all add: store_act_inv)

section \<open>Revisions and change sets\<close>

lemma store_write_revision:
  assumes "st_max_epoch s \<le> e"
  shows "st_revision (snd (store_write dps e s)) =
     (if snd (foldl (write_one (st_revision s + 1)) (st_entries s, False) dps) then st_revision s + 1 else st_revision s)"
  using assms by (simp add: store_write_accepted Let_def)

lemma store_write_lookup:
  assumes "st_max_epoch s \<le> e"
  shows "map_of (st_entries (snd (store_write dps e s))) k =
     written_entry (st_revision s + 1) (filter (\<lambda>d. identity_key d = k) dps) (map_of (st_entries s) k)"
  using assms write_fold_lookup [of "st_revision s + 1" "(st_entries s, False)" dps k]
  by (simp add: store_write_accepted Let_def)

lemma fresh_absorbed:
  assumes "\<And>d. d \<in> set dps \<Longrightarrow> \<exists>en. map_of E (identity_key d) = Some en \<and> last_retrieved d \<le> last_retrieved (en_dp en)"
  shows "foldl (write_one n) (E, c) dps = (E, c)"
  using assms
proof (induction dps)
  case (Cons d dps)
  from Cons.prems [of d] have "write_one n (E, c) d = (E, c)" by (auto simp: write_one_def)
  with Cons show ?case by simp
qed simp

lemma store_write_absorbs:
  assumes "st_max_epoch s \<le> e" and d: "d \<in> set dps"
  shows "\<exists>en. map_of (st_entries (snd (store_write dps e s))) (identity_key d) = Some en \<and>
     last_retrieved d \<le> last_retrieved (en_dp en)"
proof -
  let ?ws = "filter (\<lambda>x. identity_key x = identity_key d) dps"
  have dws: "d \<in> set ?ws" using d by simp
  have upper: "x \<in> set xs \<Longrightarrow> x \<le> foldl max (a :: int) xs" for x a xs
    by (induction xs arbitrary: a) (auto intro: order_trans [OF max.cobounded2 foldl_max_mono])
  have le: "last_retrieved d \<le> foldl max a (map last_retrieved ?ws)" for a
    using dws by (intro upper) auto
  show ?thesis
  proof (cases "map_of (st_entries s) (identity_key d)")
    case None
    from dws obtain w vs where ws: "?ws = w # vs" by (cases ?ws) auto
    have "last_retrieved d \<le> foldl max (last_retrieved w) (map last_retrieved vs)"
      using le [of "last_retrieved w"] by (simp add: ws)
    with None ws show ?thesis
      by (simp add: store_write_lookup [OF assms(1)] written_entry_def last_foldl_merge)
  next
    case (Some en)
    with le [of "last_retrieved (en_dp en)"] show ?thesis
      by (auto simp: store_write_lookup [OF assms(1)] written_entry_def Let_def last_foldl_merge)
  qed
qed

lemma store_entry_cases:
  assumes "map_of (st_entries (snd (store_write dps e s))) k = Some en" and "st_max_epoch s \<le> e" and "store_inv s"
  shows "(map_of (st_entries s) k = None \<and> en_added en = st_revision s + 1 \<and> en_updated en = st_revision s + 1)
     \<or> (\<exists>old. map_of (st_entries s) k = Some old \<and> last_retrieved (en_dp old) < last_retrieved (en_dp en) \<and>
          en_added en = en_added old \<and> en_updated en = st_revision s + 1)
     \<or> map_of (st_entries s) k = Some en"
  using assms(1)
  by (auto simp: store_write_lookup [OF assms(2)] written_entry_def Let_def split: option.splits list.splits if_splits)

lemma write_again_unchanged:
  assumes e: "st_max_epoch s \<le> e" and ws: "set ws \<subseteq> set dps"
  shows "store_write ws e (snd (store_write dps e s)) =
     (Inr (st_revision (snd (store_write dps e s))), snd (store_write dps e s))"
proof -
  let ?t = "snd (store_write dps e s)"
  have "foldl (write_one (st_revision ?t + 1)) (st_entries ?t, False) ws = (st_entries ?t, False)"
    using store_write_absorbs [OF e] ws by (intro fresh_absorbed) blast
  moreover have "st_max_epoch ?t = e" using e by (simp add: store_write_accepted Let_def)
  ultimately show ?thesis by (simp add: store_write_accepted Let_def)
qed

lemma change_set_members:
  assumes "store_inv s"
  shows "d \<in> set (cs_added (store_change_set_since s r)) \<longleftrightarrow>
      (\<exists>en. map_of (st_entries s) (identity_key d) = Some en \<and> en_dp en = d \<and> r < en_added en)"
    and "d \<in> set (cs_updated (store_change_set_since s r)) \<longleftrightarrow>
      (\<exists>en. map_of (st_entries s) (identity_key d) = Some en \<and> en_dp en = d \<and> en_added en \<le> r \<and> r < en_updated en)"
proof -
  have d: "distinct (map fst (st_entries s))" using assms by (simp add: store_inv_def)
  have mem: "d \<in> set (map (\<lambda>p. en_dp (snd p)) (filter P (st_entries s))) \<longleftrightarrow>
      (\<exists>en. map_of (st_entries s) (identity_key d) = Some en \<and> en_dp en = d \<and> P (identity_key d, en))" for P
  proof
    assume "d \<in> set (map (\<lambda>p. en_dp (snd p)) (filter P (st_entries s)))"
    then obtain p where p: "p \<in> set (st_entries s)" "P p" "d = en_dp (snd p)" by auto
    then have look: "map_of (st_entries s) (fst p) = Some (snd p)" using d by (simp add: map_of_is_SomeI)
    with p(3) have "identity_key d = fst p" using store_inv_entry_ok [OF assms look] by (simp add: entry_ok_def)
    with look p show "\<exists>en. map_of (st_entries s) (identity_key d) = Some en \<and> en_dp en = d \<and> P (identity_key d, en)"
      by (metis prod.collapse)
  next
    assume "\<exists>en. map_of (st_entries s) (identity_key d) = Some en \<and> en_dp en = d \<and> P (identity_key d, en)"
    then obtain en where en: "map_of (st_entries s) (identity_key d) = Some en" "en_dp en = d" "P (identity_key d, en)"
      by blast
    from map_of_SomeD [OF en(1)] en(2,3)
    show "d \<in> set (map (\<lambda>p. en_dp (snd p)) (filter P (st_entries s)))" by force
  qed
  show "d \<in> set (cs_added (store_change_set_since s r)) \<longleftrightarrow>
      (\<exists>en. map_of (st_entries s) (identity_key d) = Some en \<and> en_dp en = d \<and> r < en_added en)"
    and "d \<in> set (cs_updated (store_change_set_since s r)) \<longleftrightarrow>
      (\<exists>en. map_of (st_entries s) (identity_key d) = Some en \<and> en_dp en = d \<and> en_added en \<le> r \<and> r < en_updated en)"
    unfolding store_change_set_since_def by (simp_all only: change_set.simps mem snd_conv)
qed

lemma write_delta:
  fixes dps :: "data_point list"
  assumes inv: "store_inv s" and e: "st_max_epoch s \<le> e"
  defines "t \<equiv> snd (store_write dps e s)"
  shows "d \<in> set (cs_added (store_change_set_since t (st_revision s))) \<longleftrightarrow>
      d \<in> set (store_snapshot t) \<and> map_of (st_entries s) (identity_key d) = None"
    and "d \<in> set (cs_updated (store_change_set_since t (st_revision s))) \<longleftrightarrow>
      d \<in> set (store_snapshot t) \<and>
      (\<exists>old. map_of (st_entries s) (identity_key d) = Some old \<and> last_retrieved (en_dp old) < last_retrieved d)"
proof -
  have invt: "store_inv t" unfolding t_def by (rule store_write_inv [OF inv])
  have snap: "d \<in> set (store_snapshot t) \<longleftrightarrow> (\<exists>en. map_of (st_entries t) (identity_key d) = Some en \<and> en_dp en = d)"
  proof -
    have "store_snapshot t = cs_added (store_change_set_since t (- 1))"
    proof -
      have "- 1 < en_added (snd p)" if "p \<in> set (st_entries t)" for p
      proof -
        have "map_of (st_entries t) (fst p) = Some (snd p)"
          using that invt by (simp add: store_inv_def map_of_is_SomeI)
        from store_inv_entry_ok [OF invt this] show ?thesis by (simp add: entry_ok_def)
      qed
      then have "filter (\<lambda>p. - 1 < en_added (snd p)) (st_entries t) = st_entries t" by (simp add: filter_id_conv)
      then show ?thesis by (simp add: store_snapshot_def store_change_set_since_def)
    qed
    moreover have "- 1 < en_added en" if "map_of (st_entries t) (identity_key d) = Some en" for en
      using store_inv_entry_ok [OF invt that] by (simp add: entry_ok_def)
    ultimately show ?thesis using change_set_members(1) [OF invt, of d "- 1"] by auto
  qed
  have new: "st_revision s < en_added en" if "map_of (st_entries t) (identity_key d) = Some en"
    "map_of (st_entries s) (identity_key d) = None" for en
    using store_entry_cases [OF that(1) [unfolded t_def] e inv] that(2) by auto
  have old: "en_added en \<le> st_revision s \<and> (st_revision s < en_updated en \<longleftrightarrow> last_retrieved (en_dp old) < last_retrieved (en_dp en))"
    if "map_of (st_entries t) (identity_key d) = Some en" "map_of (st_entries s) (identity_key d) = Some old" for en old
    using store_entry_cases [OF that(1) [unfolded t_def] e inv] store_inv_entry_ok [OF inv that(2)] that(2)
    by (auto simp: entry_ok_def)
  show "d \<in> set (cs_added (store_change_set_since t (st_revision s))) \<longleftrightarrow>
      d \<in> set (store_snapshot t) \<and> map_of (st_entries s) (identity_key d) = None"
    unfolding snap change_set_members(1) [OF invt] using new old
    by (cases "map_of (st_entries s) (identity_key d)") fastforce+
  show "d \<in> set (cs_updated (store_change_set_since t (st_revision s))) \<longleftrightarrow>
      d \<in> set (store_snapshot t) \<and>
      (\<exists>old. map_of (st_entries s) (identity_key d) = Some old \<and> last_retrieved (en_dp old) < last_retrieved d)"
    unfolding snap change_set_members(2) [OF invt] using new old
    by (cases "map_of (st_entries s) (identity_key d)") fastforce+
qed

lemma write_one_stamps:
  "snd (write_one n (E, False) d) \<Longrightarrow>
     \<exists>en. map_of (fst (write_one n (E, False) d)) (identity_key d) = Some en \<and> en_updated en = n"
  by (cases "map_of E (identity_key d)") (auto simp: write_one_def split: if_splits)

text \<open>The changed flag of the loop tells whether the entries differ from those before.\<close>

lemma write_fold_flag:
  assumes inv: "store_inv s"
  shows "snd (foldl (write_one (st_revision s + 1)) (st_entries s, False) dps) \<longleftrightarrow>
     fst (foldl (write_one (st_revision s + 1)) (st_entries s, False) dps) \<noteq> st_entries s"
proof -
  let ?n = "st_revision s + 1"
  have "\<exists>k en. map_of (fst (foldl (write_one ?n) (st_entries s, False) ds)) k = Some en \<and> en_updated en = ?n"
    if "snd (foldl (write_one ?n) (st_entries s, False) ds)" for ds
    using that
  proof (induction ds rule: rev_induct)
    case (snoc d ds)
    let ?W = "foldl (write_one ?n) (st_entries s, False) ds"
    have keep: "\<exists>en. map_of (fst (write_one ?n ?W d)) k = Some en \<and> en_updated en = ?n"
      if "map_of (fst ?W) k = Some en" "en_updated en = ?n" for k en
      using that by (auto simp: write_one_lookup written_entry_def Let_def)
    show ?case
    proof (cases "snd ?W")
      case True
      from snoc.IH [OF True] obtain k en where "map_of (fst ?W) k = Some en" "en_updated en = ?n"
        by (elim exE conjE)
      from keep [OF this] show ?thesis unfolding foldl_append foldl.simps by (rule exI)
    next
      case False
      then have "?W = (fst ?W, False)" by (simp add: prod_eq_iff)
      with snoc.prems write_one_stamps [of ?n "fst ?W" d]
      have "\<exists>en. map_of (fst (write_one ?n ?W d)) (identity_key d) = Some en \<and> en_updated en = ?n" by simp
      then show ?thesis unfolding foldl_append foldl.simps by (rule exI)
    qed
  qed simp
  moreover have "en_updated en \<noteq> ?n" if "map_of (st_entries s) k = Some en" for k en
    using store_inv_entry_ok [OF inv that] by (simp add: entry_ok_def)
  ultimately show ?thesis using write_fold_unchanged [of ?n "(st_entries s, False)" dps] by (metis fst_conv)
qed

section \<open>Properties\<close>

text \<open>
  C1: epoch fencing of the store. Once any guarded operation was accepted at an epoch, every
  operation of a lower epoch raises \<open>StaleEpochError\<close> and leaves the session unchanged, after
  any interleaving of further operations by any writers.
\<close>

theorem store_fenced_forever:
  assumes "st_max_epoch s \<le> e" and "e' < e"
  shows "store_act e' y (guarded_run store_act ps (snd (store_act e x s))) =
     (Inl StaleEpochError, guarded_run store_act ps (snd (store_act e x s)))"
  by (rule store_fence.fenced_forever [OF assms])

theorem store_fenced_forever_witness:
  "store_act 1 (OWrite [sample_dp ''a'' 3])
     (guarded_run store_act [(1, ODeadline 9), (2, OCommit ''k'')] (snd (store_act 2 (OClaim ''k'' False) empty_session))) =
   (Inl StaleEpochError,
    guarded_run store_act [(1, ODeadline 9), (2, OCommit ''k'')] (snd (store_act 2 (OClaim ''k'' False) empty_session)))"
  by (rule store_fenced_forever) (simp_all add: empty_session_def)

text \<open>
  Also: an interleaving of operations by any number of writers leaves the session where the
  accepted operations alone leave it, and the epochs of the accepted operations never decrease:
  fenced writers have no effect at all.
\<close>

theorem store_serialised_by_epoch:
  "guarded_run store_act (accepted_by st_max_epoch store_act ps s) s = guarded_run store_act ps s \<and>
   sorted (map fst (accepted_by st_max_epoch store_act ps s))"
  using store_fence.run_accepted store_fence.accepted_sorted by blast

text \<open>
  C2: in every session reached from the empty one by guarded operations, each identity has one
  entry, the entry is filed under its own identity, and its stamps satisfy
  0 <= added <= updated <= revision.
\<close>

theorem store_reachable_inv: "store_inv (guarded_run store_act ps empty_session)"
  by (rule store_run_inv [OF store_inv_empty])

text \<open>
  Also: what an accepted write leaves under an identity. A new identity is filed with the merge of
  its observations and both stamps at the next revision; a known one is freshened, and its
  updated stamp advanced, exactly when a later observation arrived; an identity not written keeps
  its entry. The revision advances by one exactly when something changed.
\<close>

theorem store_write_functional:
  assumes "st_max_epoch s \<le> e" and "store_inv s"
  shows "map_of (st_entries (snd (store_write dps e s))) k =
       written_entry (st_revision s + 1) (filter (\<lambda>d. identity_key d = k) dps) (map_of (st_entries s) k) \<and>
     fst (store_write dps e s) = Inr (st_revision (snd (store_write dps e s))) \<and>
     st_revision (snd (store_write dps e s)) =
       (if st_entries (snd (store_write dps e s)) = st_entries s then st_revision s else st_revision s + 1)"
proof -
  let ?n = "st_revision s + 1"
  have flag: "snd (foldl (write_one ?n) (st_entries s, False) dps) \<longleftrightarrow> st_entries (snd (store_write dps e s)) \<noteq> st_entries s"
    using write_fold_flag [OF assms(2), of dps] by (simp add: store_write_accepted [OF assms(1)] Let_def)
  show ?thesis
    using store_write_lookup [OF assms(1)] store_write_revision [OF assms(1)] flag
    by (simp add: store_write_accepted [OF assms(1)] Let_def)
qed

theorem store_write_functional_witness:
  "map_of (st_entries (snd (store_write [sample_dp ''a'' 3, sample_dp ''a'' 5] 1 empty_session))) (''fact'', PStr ''a'') =
     Some \<lparr>en_dp = reobserved (sample_dp ''a'' 3) 5, en_added = 1, en_updated = 1\<rparr>"
  using store_write_functional [of empty_session 1 "[sample_dp ''a'' 3, sample_dp ''a'' 5]" "(''fact'', PStr ''a'')"]
    store_inv_empty
  by (simp add: empty_session_def written_entry_def merge_observation_def)

text \<open>
  Also: the change set since the revision before a write reports exactly what the write did: as
  added the identities new to the session, as updated the known identities a later observation
  freshened.
\<close>

theorem store_change_set_exact:
  assumes "store_inv s" and "st_max_epoch s \<le> e"
  shows "(d \<in> set (cs_added (store_change_set_since (snd (store_write dps e s)) (st_revision s))) \<longleftrightarrow>
       d \<in> set (store_snapshot (snd (store_write dps e s))) \<and> map_of (st_entries s) (identity_key d) = None) \<and>
     (d \<in> set (cs_updated (store_change_set_since (snd (store_write dps e s)) (st_revision s))) \<longleftrightarrow>
       d \<in> set (store_snapshot (snd (store_write dps e s))) \<and>
       (\<exists>old. map_of (st_entries s) (identity_key d) = Some old \<and> last_retrieved (en_dp old) < last_retrieved d))"
  using write_delta [OF assms] by blast

theorem store_change_set_exact_witness:
  "sample_dp ''a'' 3 \<in> set (cs_added (store_change_set_since (snd (store_write [sample_dp ''a'' 3] 1 empty_session)) 0))"
  using store_change_set_exact [OF store_inv_empty, of 1 "sample_dp ''a'' 3" "[sample_dp ''a'' 3]"]
  by (simp add: empty_session_def store_write_def store_guard_epoch_def bindE_def write_one_def store_snapshot_def)

text \<open>
  Also: redelivering any part of a batch that was written, in any order, is accepted, changes
  nothing and allocates no revision.
\<close>

theorem store_write_idempotent:
  assumes "st_max_epoch s \<le> e" and "set ws \<subseteq> set dps"
  shows "store_write ws e (snd (store_write dps e s)) =
     (Inr (st_revision (snd (store_write dps e s))), snd (store_write dps e s))"
  by (rule write_again_unchanged [OF assms])

theorem store_write_idempotent_witness:
  "store_write [sample_dp ''b'' 4] 1 (snd (store_write [sample_dp ''a'' 3, sample_dp ''b'' 4] 1 empty_session)) =
     (Inr (st_revision (snd (store_write [sample_dp ''a'' 3, sample_dp ''b'' 4] 1 empty_session))),
      snd (store_write [sample_dp ''a'' 3, sample_dp ''b'' 4] 1 empty_session))"
  by (rule store_write_idempotent) (simp_all add: empty_session_def)

end
