(* ===== verification/State_Mirror.thy ===== *)
theory State_Mirror
  imports Session_Store
begin

text \<open>
  The orchestrator's local copy of one session, \<^verbatim>\<open>orcastork/orchestrator/mirror.py\<close>. Operations
  that call the store act on the pair of the mirror and the session's state in the store; the
  reads are functions of the mirror alone. The theory proves that writing through the mirror
  leaves the store exactly where the store's own \<^verbatim>\<open>write\<close> would have left it, and that the
  mirror's change-set answers are the store's.
\<close>

declare map_of_eq_Some_iff [simp del] Some_eq_map_of_iff [simp del]

section \<open>State\<close>

record mirror_entry =
  me_dp :: data_point
  me_added :: revision
  me_updated :: revision

record mirror =
  mi_session :: session_id
  mi_entries :: "(identity \<times> mirror_entry) list"
  mi_baselines :: "revision \<rightharpoonup> (identity \<rightharpoonup> merge_kind)"
  mi_revision :: revision
  mi_rehydrated_at :: revision
  mi_hydrated :: bool

definition new_mirror :: "session_id \<Rightarrow> mirror" where
  "new_mirror sid = \<lparr>mi_session = sid, mi_entries = [], mi_baselines = Map.empty,
     mi_revision = 0, mi_rehydrated_at = 0, mi_hydrated = False\<rparr>"

definition mirror_rehydrate :: "(mirror \<times> session_state, unit) op" where
  "mirror_rehydrate = (\<lambda>(m, s).
     (Inr (), (m\<lparr>mi_entries := foldl (\<lambda>es d. AList.update (identity_key d)
                                       \<lparr>me_dp = d, me_added = 0, me_updated = 0\<rparr> es) [] (store_snapshot s),
               mi_revision := st_revision s, mi_rehydrated_at := st_revision s,
               mi_baselines := Map.empty, mi_hydrated := True\<rparr>, s)))"

definition change_baseline :: "change_set \<Rightarrow> identity \<rightharpoonup> merge_kind" where
  "change_baseline c =
     foldl (\<lambda>b d. b(identity_key d \<mapsto> UPDATED))
       (foldl (\<lambda>b d. b(identity_key d \<mapsto> ADDED)) Map.empty (cs_added c)) (cs_updated c)"

definition prime_change_baseline :: "revision \<Rightarrow> (mirror \<times> session_state, unit) op" where
  "prime_change_baseline since = (\<lambda>(m, s).
     if \<not> mi_hydrated m then (Inl StateMirrorError, (m, s))
     else if mi_rehydrated_at m \<le> since \<or> mi_baselines m since \<noteq> None then (Inr (), (m, s))
     else (Inr (), (m\<lparr>mi_baselines := (mi_baselines m)(since \<mapsto>
                        change_baseline (store_change_set_since s since))\<rparr>, s)))"

section \<open>Local reads\<close>

definition mirror_guard_read :: "mirror \<Rightarrow> session_id \<Rightarrow> orca_error + unit" where
  "mirror_guard_read m sid =
     (if \<not> mi_hydrated m \<or> sid \<noteq> mi_session m then Inl StateMirrorError else Inr ())"

definition mirror_snapshot :: "mirror \<Rightarrow> session_id \<Rightarrow> orca_error + dp_view" where
  "mirror_snapshot m sid =
     (case mirror_guard_read m sid of Inl e \<Rightarrow> Inl e
      | Inr _ \<Rightarrow> Inr (map (\<lambda>p. me_dp (snd p)) (mi_entries m)))"

definition mirror_get_revision :: "mirror \<Rightarrow> session_id \<Rightarrow> orca_error + revision" where
  "mirror_get_revision m sid =
     (case mirror_guard_read m sid of Inl e \<Rightarrow> Inl e | Inr _ \<Rightarrow> Inr (mi_revision m))"

definition local_change_set :: "mirror \<Rightarrow> revision \<Rightarrow> change_set" where
  "local_change_set m since =
     \<lparr>cs_added = map (\<lambda>p. me_dp (snd p)) (filter (\<lambda>p. since < me_added (snd p)) (mi_entries m)),
      cs_updated = map (\<lambda>p. me_dp (snd p))
        (filter (\<lambda>p. me_added (snd p) \<le> since \<and> since < me_updated (snd p)) (mi_entries m))\<rparr>"

text \<open>One iteration of the loop of \<^verbatim>\<open>_baselined_change_set\<close>.\<close>

definition baseline_added :: "(identity \<rightharpoonup> merge_kind) \<Rightarrow> revision \<Rightarrow> identity \<times> mirror_entry \<Rightarrow> bool" where
  "baseline_added b since p \<longleftrightarrow> since < me_added (snd p) \<or> b (fst p) = Some ADDED"

definition baseline_updated :: "(identity \<rightharpoonup> merge_kind) \<Rightarrow> revision \<Rightarrow> identity \<times> mirror_entry \<Rightarrow> bool" where
  "baseline_updated b since p \<longleftrightarrow>
     \<not> baseline_added b since p \<and> (b (fst p) = Some UPDATED \<or> since < me_updated (snd p))"

definition baselined_change_set :: "mirror \<Rightarrow> revision \<Rightarrow> orca_error + change_set" where
  "baselined_change_set m since =
     (case mi_baselines m since of
        None \<Rightarrow> Inl StateMirrorError
      | Some b \<Rightarrow> Inr
          \<lparr>cs_added = map (\<lambda>p. me_dp (snd p)) (filter (baseline_added b since) (mi_entries m)),
           cs_updated = map (\<lambda>p. me_dp (snd p)) (filter (baseline_updated b since) (mi_entries m))\<rparr>)"

definition mirror_change_set_since :: "mirror \<Rightarrow> session_id \<Rightarrow> revision \<Rightarrow> orca_error + change_set" where
  "mirror_change_set_since m sid since =
     (case mirror_guard_read m sid of Inl e \<Rightarrow> Inl e
      | Inr _ \<Rightarrow> if mi_rehydrated_at m \<le> since then Inr (local_change_set m since)
               else baselined_change_set m since)"

section \<open>Resolving a batch\<close>

record resolution =
  res_outcomes :: "merge_result list"
  res_added :: "(identity \<times> data_point) list"
  res_updated :: "(identity \<times> data_point) list"

definition empty_resolution :: resolution where
  "empty_resolution = \<lparr>res_outcomes = [], res_added = [], res_updated = []\<rparr>"

definition resolve_one :: "(identity \<times> mirror_entry) list \<Rightarrow> resolution \<Rightarrow> data_point \<Rightarrow> resolution" where
  "resolve_one entries r d =
     (let k = identity_key d in
      case map_of (res_added r) k of
        Some x \<Rightarrow> let x' = reobserved x (last_retrieved d) in
          r\<lparr>res_added := AList.update k x' (res_added r), res_outcomes := res_outcomes r @ [(UPDATED, x')]\<rparr>
      | None \<Rightarrow>
        (case map_of (res_updated r) k of
           Some x \<Rightarrow> let x' = reobserved x (last_retrieved d) in
             r\<lparr>res_updated := AList.update k x' (res_updated r), res_outcomes := res_outcomes r @ [(UPDATED, x')]\<rparr>
         | None \<Rightarrow>
           (case map_of entries k of
              None \<Rightarrow> r\<lparr>res_added := AList.update k d (res_added r), res_outcomes := res_outcomes r @ [(ADDED, d)]\<rparr>
            | Some existing \<Rightarrow>
                let merged = reobserved (me_dp existing) (last_retrieved d);
                    r' = r\<lparr>res_outcomes := res_outcomes r @ [(UPDATED, merged)]\<rparr>
                in if last_retrieved (me_dp existing) < last_retrieved d
                   then r'\<lparr>res_updated := AList.update k merged (res_updated r)\<rparr> else r')))"

definition mirror_resolve :: "mirror \<Rightarrow> data_point list \<Rightarrow> resolution" where
  "mirror_resolve m ds =
     foldl (resolve_one (mi_entries m)) empty_resolution ds"

definition mirror_apply :: "mirror \<Rightarrow> resolution \<Rightarrow> revision \<Rightarrow> mirror" where
  "mirror_apply m r rv =
     m\<lparr>mi_entries := foldl (\<lambda>es (k, d). AList.map_entry k (\<lambda>en. en\<lparr>me_dp := d, me_updated := rv\<rparr>) es)
         (foldl (\<lambda>es (k, d). AList.update k \<lparr>me_dp = d, me_added = rv, me_updated = rv\<rparr> es)
            (mi_entries m) (res_added r)) (res_updated r),
       mi_revision := rv\<rparr>"

definition mirror_write ::
  "data_point list \<Rightarrow> epoch \<Rightarrow> (mirror \<times> session_state, revision \<times> merge_result list) op" where
  "mirror_write ds e = (\<lambda>(m, s).
     if \<not> mi_hydrated m then (Inl StateMirrorError, (m, s))
     else let r = mirror_resolve m ds in
       case store_apply_resolved (map snd (res_added r)) (map snd (res_updated r)) e s of
         (Inl err, s') \<Rightarrow> (Inl err, (m, s'))
       | (Inr rv, s') \<Rightarrow> (Inr (rv, res_outcomes r), (mirror_apply m r rv, s')))"

section \<open>What a resolved batch holds under one key\<close>

definition merged_new :: "data_point list \<Rightarrow> data_point option" where
  "merged_new ws = (case ws of [] \<Rightarrow> None | w # vs \<Rightarrow> Some (foldl merge_observation w vs))"

definition merged_known :: "data_point list \<Rightarrow> data_point \<Rightarrow> data_point option" where
  "merged_known ws x =
     (let m = foldl merge_observation x ws in if last_retrieved x < last_retrieved m then Some m else None)"

lemma merged_new_Nil [simp]: "merged_new [] = None"
  by (simp add: merged_new_def)

lemma merged_new_snoc:
  "merged_new (ws @ [d]) = Some (case merged_new ws of None \<Rightarrow> d | Some x \<Rightarrow> reobserved x (last_retrieved d))"
  by (simp add: merged_new_def merge_observation_def split: list.split)

lemma merged_known_Nil [simp]: "merged_known [] x = None"
  by (simp add: merged_known_def)

lemma merged_known_snoc:
  "merged_known (ws @ [d]) x =
     (case merged_known ws x of Some y \<Rightarrow> Some (reobserved y (last_retrieved d))
      | None \<Rightarrow> if last_retrieved x < last_retrieved d then Some (reobserved x (last_retrieved d)) else None)"
  using foldl_merge_same [of x ws] by (auto simp: merged_known_def merge_observation_def Let_def)

lemma resolve_one_other:
  assumes "k \<noteq> identity_key d"
  shows "map_of (res_added (resolve_one es r d)) k = map_of (res_added r) k"
    and "map_of (res_updated (resolve_one es r d)) k = map_of (res_updated r) k"
  using assms by (simp_all add: resolve_one_def Let_def split: option.split)

lemma resolve_one_same:
  "map_of (res_added (resolve_one es r d)) (identity_key d) =
     (case map_of (res_added r) (identity_key d) of
        Some x \<Rightarrow> Some (reobserved x (last_retrieved d))
      | None \<Rightarrow> if map_of (res_updated r) (identity_key d) = None \<and> map_of es (identity_key d) = None
               then Some d else None)"
  "map_of (res_updated (resolve_one es r d)) (identity_key d) =
     (if map_of (res_added r) (identity_key d) \<noteq> None then map_of (res_updated r) (identity_key d)
      else case map_of (res_updated r) (identity_key d) of
        Some x \<Rightarrow> Some (reobserved x (last_retrieved d))
      | None \<Rightarrow> (case map_of es (identity_key d) of None \<Rightarrow> None
               | Some en \<Rightarrow> if last_retrieved (me_dp en) < last_retrieved d
                   then Some (reobserved (me_dp en) (last_retrieved d)) else None))"
  by (simp_all add: resolve_one_def Let_def split: option.split)

lemma resolve_lookup:
  "map_of (res_added (foldl (resolve_one es) empty_resolution ds)) k =
     (if map_of es k = None then merged_new (filter (\<lambda>d. identity_key d = k) ds) else None) \<and>
   map_of (res_updated (foldl (resolve_one es) empty_resolution ds)) k =
     (case map_of es k of None \<Rightarrow> None
      | Some en \<Rightarrow> merged_known (filter (\<lambda>d. identity_key d = k) ds) (me_dp en))"
proof (induction ds rule: rev_induct)
  case Nil
  show ?case by (simp add: empty_resolution_def split: option.split)
next
  case (snoc d ds)
  let ?r = "foldl (resolve_one es) empty_resolution ds"
  show ?case
  proof (cases "k = identity_key d")
    case False
    with snoc show ?thesis by (cases "map_of es k") (simp_all add: resolve_one_other)
  next
    case True
    have added: "map_of (res_added ?r) k =
        (if map_of es k = None then merged_new (filter (\<lambda>d. identity_key d = k) ds) else None)"
      and updated: "map_of (res_updated ?r) k = (case map_of es k of None \<Rightarrow> None
        | Some en \<Rightarrow> merged_known (filter (\<lambda>d. identity_key d = k) ds) (me_dp en))"
      using snoc by simp_all
    show ?thesis
    proof (cases "map_of es k")
      case None
      with added updated show ?thesis
        by (simp add: True resolve_one_same merged_new_snoc split: option.split)
    next
      case (Some en)
      with added updated show ?thesis
        by (simp add: True resolve_one_same merged_known_snoc split: option.split)
    qed
  qed
qed

lemma resolve_one_keyed:
  assumes "well_keyed identity_key (res_added r)" and "well_keyed identity_key (res_updated r)"
    and "\<And>k en. map_of es k = Some en \<Longrightarrow> identity_key (me_dp en) = k"
  shows "well_keyed identity_key (res_added (resolve_one es r d))"
    and "well_keyed identity_key (res_updated (resolve_one es r d))"
  using assms(1,2) assms(3) [of "identity_key d"]
  by (auto simp: resolve_one_def Let_def intro!: well_keyed_update dest: well_keyed_lookup split: option.split)

lemma resolve_keyed:
  assumes "\<And>k en. map_of es k = Some en \<Longrightarrow> identity_key (me_dp en) = k"
  shows "well_keyed identity_key (res_added (foldl (resolve_one es) empty_resolution ds)) \<and>
     well_keyed identity_key (res_updated (foldl (resolve_one es) empty_resolution ds))"
proof (induction ds rule: rev_induct)
  case Nil
  show ?case by (simp add: empty_resolution_def)
next
  case (snoc d ds)
  with assms show ?case by (simp add: resolve_one_keyed)
qed

section \<open>The resolved batch does to the store what \<open>store_write\<close> does\<close>

lemma apply_added_lookup:
  "well_keyed identity_key A \<Longrightarrow>
     map_of (foldl (apply_added n) E (map snd A)) k =
       (case map_of A k of Some d \<Rightarrow> Some \<lparr>en_dp = d, en_added = n, en_updated = n\<rparr> | None \<Rightarrow> map_of E k)"
proof (induction A arbitrary: E)
  case (Cons p A)
  then have "well_keyed identity_key A" "identity_key (snd p) = fst p" "map_of A (fst p) = None"
    by (auto simp: well_keyed_def map_of_None_notin)
  with Cons.IH show ?case by (cases p) (auto simp: apply_added_def split: option.split)
qed simp

lemma apply_updated_lookup:
  "well_keyed identity_key U \<Longrightarrow>
     map_of (foldl (apply_updated n) E (map snd U)) k =
       (case map_of U k of
          Some d \<Rightarrow> Some \<lparr>en_dp = d, en_added = (case map_of E k of None \<Rightarrow> 0 | Some en \<Rightarrow> en_added en), en_updated = n\<rparr>
        | None \<Rightarrow> map_of E k)"
proof (induction U arbitrary: E)
  case (Cons p U)
  then have "well_keyed identity_key U" "identity_key (snd p) = fst p" "map_of U (fst p) = None"
    by (auto simp: well_keyed_def map_of_None_notin)
  with Cons.IH show ?case by (cases p) (auto simp: apply_updated_def Let_def split: option.split)
qed simp

lemma apply_added_keys:
  "well_keyed identity_key A \<Longrightarrow> fst ` set A \<inter> fst ` set E = {} \<Longrightarrow>
     map fst (foldl (apply_added n) E (map snd A)) = map fst E @ map fst A"
proof (induction A arbitrary: E)
  case (Cons p A)
  let ?E = "apply_added n E (snd p)"
  from Cons.prems have p: "well_keyed identity_key A" "identity_key (snd p) = fst p" "fst p \<notin> fst ` set A"
    "fst p \<notin> fst ` set E" by (auto simp: well_keyed_def)
  then have E: "map fst ?E = map fst E @ [fst p]" by (simp add: apply_added_def map_fst_update)
  then have "fst ` set ?E = insert (fst p) (fst ` set E)" by (metis image_set list.simps(15) rotate1.simps(2) set_rotate1)
  with p Cons.prems have "fst ` set A \<inter> fst ` set ?E = {}" by auto
  with Cons.IH [OF p(1)] E show ?case by simp
qed simp

lemma apply_updated_keys:
  "well_keyed identity_key U \<Longrightarrow> fst ` set U \<subseteq> fst ` set E \<Longrightarrow>
     map fst (foldl (apply_updated n) E (map snd U)) = map fst E"
proof (induction U arbitrary: E)
  case (Cons p U)
  let ?E = "apply_updated n E (snd p)"
  from Cons.prems have p: "well_keyed identity_key U" "identity_key (snd p) = fst p" "fst p \<in> fst ` set E"
    by (auto simp: well_keyed_def)
  then have E: "map fst ?E = map fst E" by (simp add: apply_updated_def Let_def map_fst_update)
  then have "fst ` set ?E = fst ` set E" by (metis image_set)
  with Cons.IH [OF p(1)] Cons.prems E show ?case by simp
qed simp

lemma update_not_Nil [simp]: "AList.update k v m \<noteq> []"
  by (cases m) auto

lemma resolve_one_keys:
  "map fst (res_added (resolve_one es r d)) =
     (if map_of (res_added r) (identity_key d) = None \<and> map_of (res_updated r) (identity_key d) = None \<and>
         map_of es (identity_key d) = None
      then map fst (res_added r) @ [identity_key d] else map fst (res_added r))"
  using map_of_None_notin [of "res_added r" "identity_key d"]
  by (auto simp: resolve_one_def Let_def map_fst_update split: option.split)

lemma resolve_one_grows:
  "res_added r \<noteq> [] \<or> res_updated r \<noteq> [] \<Longrightarrow>
     res_added (resolve_one es r d) \<noteq> [] \<or> res_updated (resolve_one es r d) \<noteq> []"
  by (auto simp: resolve_one_def Let_def split: option.split)

lemma resolve_updated_known:
  "fst ` set (res_updated (foldl (resolve_one es) empty_resolution ds)) \<subseteq> fst ` set es"
proof
  fix k
  assume "k \<in> fst ` set (res_updated (foldl (resolve_one es) empty_resolution ds))"
  then have "map_of (res_updated (foldl (resolve_one es) empty_resolution ds)) k \<noteq> None"
    by (simp add: map_of_None_notin)
  then have "map_of es k \<noteq> None" using resolve_lookup [of es ds k] by (auto split: option.splits)
  then show "k \<in> fst ` set es" by (simp add: map_of_None_notin)
qed

lemma resolve_added_unknown:
  "fst ` set (res_added (foldl (resolve_one es) empty_resolution ds)) \<inter> fst ` set es = {}"
proof (rule equals0I)
  fix k
  assume "k \<in> fst ` set (res_added (foldl (resolve_one es) empty_resolution ds)) \<inter> fst ` set es"
  then have "map_of (res_added (foldl (resolve_one es) empty_resolution ds)) k \<noteq> None" "map_of es k \<noteq> None"
    by (simp_all add: map_of_None_notin)
  then show False using resolve_lookup [of es ds k] by (auto split: if_splits)
qed

text \<open>The mirror's entries show the same data as the store's.\<close>

definition same_data :: "(identity \<times> mirror_entry) list \<Rightarrow> (identity \<times> st_entry) list \<Rightarrow> bool" where
  "same_data es E \<longleftrightarrow> map fst es = map fst E \<and>
     (\<lambda>k. map_option me_dp (map_of es k)) = (\<lambda>k. map_option en_dp (map_of E k))"

lemma same_data_lookup:
  assumes "same_data es E"
  shows "map_of E k = None \<Longrightarrow> map_of es k = None"
    and "map_of E k = Some en \<Longrightarrow> \<exists>me. map_of es k = Some me \<and> me_dp me = en_dp en"
  using assms fun_cong [of "\<lambda>k. map_option me_dp (map_of es k)" "\<lambda>k. map_option en_dp (map_of E k)" k]
  by (auto simp: same_data_def)

lemma same_data_None: "same_data es E \<Longrightarrow> map_of es k = None \<longleftrightarrow> map_of E k = None"
  using same_data_lookup [of es E k] by (cases "map_of E k") auto

lemma same_data_keys: "same_data es E \<Longrightarrow> fst ` set es = fst ` set E"
  unfolding same_data_def by (metis image_set)

lemma resolve_write_keys:
  assumes sd: "same_data es E"
  shows "map fst (fst (foldl (write_one n) (E, False) ds)) =
     map fst E @ map fst (res_added (foldl (resolve_one es) empty_resolution ds))"
proof (induction ds rule: rev_induct)
  case Nil
  show ?case by (simp add: empty_resolution_def)
next
  case (snoc d ds)
  let ?W = "foldl (write_one n) (E, False) ds" and ?r = "foldl (resolve_one es) empty_resolution ds"
  have "fst ` set (fst ?W) = fst ` set E \<union> fst ` set (res_added ?r)"
    using arg_cong [OF snoc, of set] by simp
  then have "identity_key d \<in> fst ` set (fst ?W) \<longleftrightarrow>
      map_of (res_added ?r) (identity_key d) \<noteq> None \<or> map_of es (identity_key d) \<noteq> None"
    using same_data_keys [OF sd] by (auto simp: map_of_None_notin)
  moreover have "map_of (res_updated ?r) (identity_key d) = None" if "map_of es (identity_key d) = None"
    using resolve_updated_known [of es ds] that by (auto simp: map_of_None_notin)
  ultimately show ?case
    using snoc write_one_keys [of n "fst ?W" "snd ?W" d] by (auto simp: resolve_one_keys)
qed

lemma resolve_one_flag:
  assumes sd: "same_data es E" and r: "res_added r = []" "res_updated r = []"
  shows "snd (write_one n (E, False) d) \<longleftrightarrow> res_added (resolve_one es r d) \<noteq> [] \<or> res_updated (resolve_one es r d) \<noteq> []"
proof (cases "map_of E (identity_key d)")
  case None
  with same_data_lookup(1) [OF sd] r show ?thesis by (simp add: write_one_def resolve_one_def Let_def)
next
  case (Some en)
  from same_data_lookup(2) [OF sd this] obtain me
    where "map_of es (identity_key d) = Some me" "me_dp me = en_dp en" by blast
  with Some r show ?thesis by (simp add: write_one_def resolve_one_def Let_def)
qed

lemma resolve_write_flag:
  assumes sd: "same_data es E"
  shows "snd (foldl (write_one n) (E, False) ds) \<longleftrightarrow>
     (let r = foldl (resolve_one es) empty_resolution ds in res_added r \<noteq> [] \<or> res_updated r \<noteq> [])"
proof (induction ds rule: rev_induct)
  case Nil
  show ?case by (simp add: empty_resolution_def)
next
  case (snoc d ds)
  let ?W = "foldl (write_one n) (E, False) ds" and ?r = "foldl (resolve_one es) empty_resolution ds"
  show ?case
  proof (cases "snd ?W")
    case True
    with snoc have "res_added ?r \<noteq> [] \<or> res_updated ?r \<noteq> []" by (simp add: Let_def)
    from resolve_one_grows [OF this] True write_fold_flag_mono [OF True, of n "[d]"] show ?thesis
      by (simp add: Let_def)
  next
    case False
    then have W: "?W = (E, False)" using write_fold_unchanged [of n "(E, False)" ds] by (cases ?W) auto
    from False snoc have r: "res_added ?r = []" "res_updated ?r = []" by (simp_all add: Let_def)
    show ?thesis using resolve_one_flag [OF sd r, of n d] W by (simp add: Let_def)
  qed
qed

lemma resolve_write_entries:
  assumes sd: "same_data es E" and d: "distinct (map fst E)"
    and keyed: "\<And>k en. map_of E k = Some en \<Longrightarrow> identity_key (en_dp en) = k"
  shows "(let r = foldl (resolve_one es) empty_resolution ds
          in foldl (apply_updated n) (foldl (apply_added n) E (map snd (res_added r))) (map snd (res_updated r))) =
     fst (foldl (write_one n) (E, False) ds)"
proof -
  let ?r = "foldl (resolve_one es) empty_resolution ds"
  let ?E1 = "foldl (apply_added n) E (map snd (res_added ?r))"
  let ?E2 = "foldl (apply_updated n) ?E1 (map snd (res_updated ?r))"
  have "identity_key (me_dp me) = k" if "map_of es k = Some me" for k me
  proof (cases "map_of E k")
    case None
    with same_data_lookup(1) [OF sd] that show ?thesis by simp
  next
    case (Some en)
    with same_data_lookup(2) [OF sd Some] that keyed [OF Some] show ?thesis by auto
  qed
  then have wk: "well_keyed identity_key (res_added ?r)" "well_keyed identity_key (res_updated ?r)"
    using resolve_keyed [of es ds] by simp_all
  have keys1: "map fst ?E1 = map fst E @ map fst (res_added ?r)"
    using resolve_added_unknown [of es ds] same_data_keys [OF sd] by (intro apply_added_keys wk(1)) simp
  then have "fst ` set E \<subseteq> fst ` set ?E1" by (metis Un_upper1 image_set set_append)
  then have "map fst ?E2 = map fst ?E1"
    using resolve_updated_known [of es ds] same_data_keys [OF sd] by (intro apply_updated_keys wk(2)) auto
  then have keys: "map fst ?E2 = map fst (fst (foldl (write_one n) (E, False) ds))"
    by (simp add: keys1 resolve_write_keys [OF sd])
  have "map_of ?E2 k = map_of (fst (foldl (write_one n) (E, False) ds)) k" for k
  proof (cases "map_of E k")
    case None
    with same_data_None [OF sd, of k] resolve_lookup [of es ds k] show ?thesis
      by (simp add: apply_updated_lookup wk apply_added_lookup write_fold_lookup written_entry_def merged_new_def
          split: list.split)
  next
    case (Some en)
    from same_data_lookup(2) [OF sd this] obtain me where me: "map_of es k = Some me" "me_dp me = en_dp en" by blast
    with Some resolve_lookup [of es ds k] show ?thesis
      by (simp add: apply_updated_lookup wk apply_added_lookup write_fold_lookup written_entry_def merged_known_def
          Let_def)
  qed
  then have look: "map_of ?E2 = map_of (fst (foldl (write_one n) (E, False) ds))" by (rule ext)
  have "distinct (map fst (fst (foldl (write_one n) (E, False) ds)))"
    using write_fold_distinct [of "(E, False)"] d by simp
  with keys have "distinct (map fst ?E2)" by simp
  from alist_eqI [OF keys this look] show ?thesis by (simp add: Let_def)
qed

lemma resolved_store_write:
  assumes sd: "same_data (mi_entries m) (st_entries s)" and inv: "store_inv s"
  shows "store_apply_resolved (map snd (res_added (mirror_resolve m ds))) (map snd (res_updated (mirror_resolve m ds))) e s =
     store_write ds e s"
proof (cases "e < st_max_epoch s")
  case True
  then show ?thesis by (simp add: store_apply_resolved_def store_write_def store_guard_epoch_def bindE_def)
next
  case False
  let ?r = "mirror_resolve m ds" and ?n = "st_revision s + 1"
  have keyed: "\<And>k en. map_of (st_entries s) k = Some en \<Longrightarrow> identity_key (en_dp en) = k"
    using store_inv_entry_ok [OF inv] unfolding entry_ok_def by blast
  have d: "distinct (map fst (st_entries s))" using inv by (simp add: store_inv_def)
  note entries = resolve_write_entries [OF sd d keyed, of ds ?n, unfolded Let_def, folded mirror_resolve_def]
  note flag = resolve_write_flag [OF sd, of ?n ds, unfolded Let_def, folded mirror_resolve_def]
  show ?thesis
  proof (cases "snd (foldl (write_one ?n) (st_entries s, False) ds)")
    case True
    with flag have "\<not> (map snd (res_added ?r) = [] \<and> map snd (res_updated ?r) = [])" by simp
    with False True entries show ?thesis
      by (simp only: store_apply_resolved_accepted store_write_accepted Let_def not_less if_False if_True)
  next
    case unchanged: False
    with flag have "map snd (res_added ?r) = []" "map snd (res_updated ?r) = []" by simp_all
    with False unchanged write_fold_unchanged [OF unchanged] show ?thesis
      by (simp add: store_apply_resolved_accepted store_write_accepted Let_def)
  qed
qed

section \<open>Applying the batch locally\<close>

lemma update_pairs_lookup:
  "distinct (map fst A) \<Longrightarrow>
     map_of (foldl (\<lambda>es (k, d). AList.update k (f d) es) es A) x =
       (case map_of A x of Some d \<Rightarrow> Some (f d) | None \<Rightarrow> map_of es x)"
proof (induction A arbitrary: es)
  case (Cons p A)
  then have "map_of A (fst p) = None" by (simp add: map_of_None_notin)
  with Cons show ?case by (cases p) (auto split: option.split)
qed simp

lemma update_pairs_keys:
  "distinct (map fst A) \<Longrightarrow> fst ` set A \<inter> fst ` set es = {} \<Longrightarrow>
     map fst (foldl (\<lambda>es (k, d). AList.update k (f d) es) es A) = map fst es @ map fst A"
proof (induction A arbitrary: es)
  case (Cons p A)
  obtain k d where p: "p = (k, d)" by (cases p)
  let ?es = "AList.update k (f d) es"
  from Cons.prems p have new: "k \<notin> fst ` set es" "k \<notin> fst ` set A" "distinct (map fst A)" by auto
  then have es: "?es = es @ [(k, f d)]" by (simp add: update_append_new)
  with Cons.prems p new have "fst ` set A \<inter> fst ` set ?es = {}" by auto
  with Cons.IH [OF new(3)] p es show ?case by simp
qed simp

lemma map_entry_pairs_lookup:
  "distinct (map fst U) \<Longrightarrow>
     map_of (foldl (\<lambda>es (k, d). AList.map_entry k (f d) es) es U) x =
       (case map_of U x of Some d \<Rightarrow> map_option (f d) (map_of es x) | None \<Rightarrow> map_of es x)"
proof (induction U arbitrary: es)
  case (Cons p U)
  then have "map_of U (fst p) = None" by (simp add: map_of_None_notin)
  with Cons show ?case by (cases p) (auto simp: AList.map_of_map_entry fun_upd_def split: option.split)
qed simp

lemma map_entry_pairs_keys: "map fst (foldl (\<lambda>es (k, d). AList.map_entry k (f d) es) es U) = map fst es"
proof (induction U arbitrary: es)
  case (Cons p U)
  have "map fst (AList.map_entry k g es) = map fst es" for k g and es :: "('a \<times> 'b) list" by (induction es) auto
  with Cons show ?case by (cases p) simp
qed simp

definition stamp :: "revision \<Rightarrow> revision \<Rightarrow> revision" where
  "stamp r x = (if r < x then x else 0)"

definition mirror_entry_of :: "revision \<Rightarrow> st_entry \<Rightarrow> mirror_entry" where
  "mirror_entry_of r en = \<lparr>me_dp = en_dp en, me_added = stamp r (en_added en), me_updated = stamp r (en_updated en)\<rparr>"

text \<open>What a primed baseline at \<open>since\<close> knows of an entry, for the split at rehydration \<open>r\<close>.\<close>

definition baselined :: "revision \<Rightarrow> revision \<Rightarrow> merge_kind option \<Rightarrow> st_entry \<Rightarrow> bool" where
  "baselined r since v en \<longleftrightarrow>
     (v = Some ADDED \<longrightarrow> since < en_added en) \<and>
     (since < en_added en \<and> en_added en \<le> r \<longrightarrow> v = Some ADDED) \<and>
     (v = Some UPDATED \<longrightarrow> en_added en \<le> since \<and> since < en_updated en) \<and>
     (en_added en \<le> since \<and> since < en_updated en \<and> en_updated en \<le> r \<longrightarrow> v = Some UPDATED)"

definition baseline_ok :: "revision \<Rightarrow> revision \<Rightarrow> (identity \<rightharpoonup> merge_kind) \<Rightarrow> (identity \<times> st_entry) list \<Rightarrow> bool" where
  "baseline_ok r since b E \<longleftrightarrow> since < r \<and>
     (\<forall>k. case map_of E k of None \<Rightarrow> b k = None | Some en \<Rightarrow> baselined r since (b k) en)"

text \<open>The coupling: a rehydrated mirror shows the store's data and remembers the stamps since.\<close>

definition mirror_ok :: "mirror \<Rightarrow> session_state \<Rightarrow> bool" where
  "mirror_ok m s \<longleftrightarrow> mi_hydrated m \<and> mi_revision m = st_revision s \<and>
     0 \<le> mi_rehydrated_at m \<and> mi_rehydrated_at m \<le> st_revision s \<and>
     mi_entries m = map (\<lambda>(k, en). (k, mirror_entry_of (mi_rehydrated_at m) en)) (st_entries s) \<and>
     (\<forall>since b. mi_baselines m since = Some b \<longrightarrow> baseline_ok (mi_rehydrated_at m) since b (st_entries s))"

lemma map_of_mirrored: "map_of (map (\<lambda>(k, en). (k, f en)) E) k = map_option f (map_of E k)"
  by (induction E) auto

lemma keys_mirrored: "map fst (map (\<lambda>(k, en). (k, f en)) E) = map fst E"
  by (induction E) auto

lemma mirror_ok_same_data: "mirror_ok m s \<Longrightarrow> same_data (mi_entries m) (st_entries s)"
  unfolding mirror_ok_def same_data_def
  by (simp add: map_of_mirrored keys_mirrored mirror_entry_of_def option.map_comp comp_def del: map_map)

lemma mirror_ok_rehydrate:
  assumes inv: "store_inv s" and r: "mirror_rehydrate (m, s) = (res, (m', s'))"
  shows "res = Inr ()" and "s' = s" and "mirror_ok m' s"
proof -
  from r show "res = Inr ()" and s': "s' = s" by (auto simp: mirror_rehydrate_def)
  let ?f = "\<lambda>es d. AList.update (identity_key d) \<lparr>me_dp = d, me_added = 0, me_updated = 0\<rparr> es"
  have fold: "foldl ?f es (map (\<lambda>p. en_dp (snd p)) E) = es @ map (\<lambda>(k, en). (k, \<lparr>me_dp = en_dp en, me_added = 0, me_updated = 0\<rparr>)) E"
    if "distinct (map fst E)" and "\<And>p. p \<in> set E \<Longrightarrow> identity_key (en_dp (snd p)) = fst p"
      and "fst ` set es \<inter> fst ` set E = {}" for E es
    using that
  proof (induction E arbitrary: es)
    case (Cons p E)
    from Cons.prems(2) [of p] have k: "identity_key (en_dp (snd p)) = fst p" by simp
    from Cons.prems(3) have "fst p \<notin> fst ` set es" by auto
    then have "?f es (en_dp (snd p)) = es @ [(fst p, \<lparr>me_dp = en_dp (snd p), me_added = 0, me_updated = 0\<rparr>)]"
      by (simp add: k update_append_new)
    with Cons.prems show ?case
      by (simp add: Cons.IH case_prod_beta)
  qed simp
  have d: "distinct (map fst (st_entries s))" using inv by (simp add: store_inv_def)
  have ent: "entry_ok (st_revision s) (fst p) (snd p)" if "p \<in> set (st_entries s)" for p
    using that d by (intro store_inv_entry_ok [OF inv]) (simp add: map_of_is_SomeI)
  have eq: "\<lparr>me_dp = en_dp (snd p), me_added = 0, me_updated = 0\<rparr> = mirror_entry_of (st_revision s) (snd p)"
    if "p \<in> set (st_entries s)" for p
    using ent [OF that] by (simp add: mirror_entry_of_def stamp_def entry_ok_def)
  have "foldl ?f [] (store_snapshot s) = map (\<lambda>(k, en). (k, mirror_entry_of (st_revision s) en)) (st_entries s)"
    unfolding store_snapshot_def
    by (subst fold) (use d ent eq in \<open>auto simp: entry_ok_def case_prod_beta\<close>)
  moreover have "0 \<le> st_revision s" using inv by (simp add: store_inv_def)
  moreover from r have "m' = m\<lparr>mi_entries := foldl ?f [] (store_snapshot s), mi_revision := st_revision s,
      mi_rehydrated_at := st_revision s, mi_baselines := Map.empty, mi_hydrated := True\<rparr>"
    by (auto simp: mirror_rehydrate_def)
  ultimately show "mirror_ok m' s" by (simp add: mirror_ok_def)
qed

lemma mirror_ok_keyed:
  assumes "mirror_ok m s" and "store_inv s"
  shows "well_keyed identity_key (res_added (mirror_resolve m ds))"
    and "well_keyed identity_key (res_updated (mirror_resolve m ds))"
proof -
  have "identity_key (me_dp en) = k" if "map_of (mi_entries m) k = Some en" for k en
    using that assms store_inv_entry_ok [OF assms(2), of k]
    by (auto simp: mirror_ok_def map_of_mirrored mirror_entry_of_def entry_ok_def)
  then show "well_keyed identity_key (res_added (mirror_resolve m ds))"
    and "well_keyed identity_key (res_updated (mirror_resolve m ds))"
    using resolve_keyed [of "mi_entries m" ds] by (simp_all add: mirror_resolve_def)
qed

lemma mirror_apply_entries:
  fixes ds :: "data_point list"
  assumes ok: "mirror_ok m s" and inv: "store_inv s" and n: "mi_rehydrated_at m < n"
  defines "r \<equiv> mirror_resolve m ds"
  shows "mi_entries (mirror_apply m r n) =
     map (\<lambda>(k, en). (k, mirror_entry_of (mi_rehydrated_at m) en))
       (foldl (apply_updated n) (foldl (apply_added n) (st_entries s) (map snd (res_added r))) (map snd (res_updated r)))"
    (is "?M = map _ ?E2")
proof -
  let ?R = "mi_rehydrated_at m" and ?E = "st_entries s" and ?es = "mi_entries m"
  let ?E1 = "foldl (apply_added n) ?E (map snd (res_added r))"
  have es: "?es = map (\<lambda>(k, en). (k, mirror_entry_of ?R en)) ?E" using ok by (simp add: mirror_ok_def)
  have keys: "map fst ?es = map fst ?E" by (simp only: es keys_mirrored)
  have wk: "well_keyed identity_key (res_added r)" "well_keyed identity_key (res_updated r)"
    unfolding r_def by (rule mirror_ok_keyed [OF ok inv])+
  then have d: "distinct (map fst (res_added r))" "distinct (map fst (res_updated r))"
    by (simp_all add: well_keyed_def)
  have new: "fst ` set (res_added r) \<inter> fst ` set ?es = {}" "fst ` set (res_updated r) \<subseteq> fst ` set ?es"
    unfolding r_def mirror_resolve_def by (rule resolve_added_unknown resolve_updated_known)+
  have set_keys: "fst ` set ?es = fst ` set ?E" using keys by (metis image_set)
  have k1: "map fst ?E1 = map fst ?E @ map fst (res_added r)"
    by (rule apply_added_keys [OF wk(1)]) (use new set_keys in simp)
  then have "fst ` set ?E \<subseteq> fst ` set ?E1" by (metis Un_upper1 image_set set_append)
  then have k2: "map fst ?E2 = map fst ?E1"
    using new set_keys by (intro apply_updated_keys wk(2)) auto
  have M: "?M = foldl (\<lambda>es (k, d). AList.map_entry k (\<lambda>en. en\<lparr>me_dp := d, me_updated := n\<rparr>) es)
         (foldl (\<lambda>es (k, d). AList.update k \<lparr>me_dp = d, me_added = n, me_updated = n\<rparr> es) ?es (res_added r))
         (res_updated r)"
    by (simp add: mirror_apply_def)
  have kM: "map fst ?M = map fst ?E2"
    unfolding M k2 k1
    by (simp only: map_entry_pairs_keys update_pairs_keys [OF d(1) new(1)] keys)
  show ?thesis
  proof (rule alist_eqI)
    show "map fst ?M = map fst (map (\<lambda>(k, en). (k, mirror_entry_of ?R en)) ?E2)"
      by (simp only: kM keys_mirrored)
    have "distinct (map fst ?E @ map fst (res_added r))"
      using inv d(1) new(1) by (auto simp: store_inv_def set_keys)
    then show "distinct (map fst ?M)" by (simp only: kM k2 k1)
    show "map_of ?M = map_of (map (\<lambda>(k, en). (k, mirror_entry_of ?R en)) ?E2)"
    proof
      fix k
      have some: "\<exists>en. map_of ?E k = Some en" if "map_of (res_updated r) k = Some x" for x
      proof -
        from that have "k \<in> fst ` set (res_updated r)" unfolding in_keys_iff by blast
        with new(2) have "k \<in> fst ` set ?E" unfolding set_keys by (rule subsetD)
        then show ?thesis by (simp only: in_keys_iff)
      qed
      have excl: "map_of ?E k = None" if "map_of (res_added r) k = Some x" for x
      proof -
        from that have "k \<in> fst ` set (res_added r)" unfolding in_keys_iff by blast
        with new(1) have "k \<notin> fst ` set ?E" unfolding set_keys by (metis IntI empty_iff)
        then show ?thesis unfolding map_of_None_notin .
      qed
      show "map_of ?M k = map_of (map (\<lambda>(k, en). (k, mirror_entry_of ?R en)) ?E2) k"
      proof (cases "map_of (res_updated r) k")
        case (Some x)
        from some [OF this] obtain en where en: "map_of ?E k = Some en" by blast
        have "map_of (res_added r) k = None"
          using excl en by (cases "map_of (res_added r) k") auto
        with Some en n show ?thesis
          by (simp add: M map_entry_pairs_lookup update_pairs_lookup d map_of_mirrored es
              apply_updated_lookup apply_added_lookup wk mirror_entry_of_def stamp_def)
      next
        case None
        then show ?thesis using n
          by (cases "map_of (res_added r) k")
            (simp_all add: M map_entry_pairs_lookup update_pairs_lookup d map_of_mirrored es
              apply_updated_lookup apply_added_lookup wk mirror_entry_of_def stamp_def)
      qed
    qed
  qed
qed

section \<open>Writing through the mirror\<close>

lemma mirror_write_store:
  assumes ok: "mirror_ok m s" and inv: "store_inv s"
  shows "mirror_write ds e (m, s) =
     (case store_write ds e s of
        (Inl err, s') \<Rightarrow> (Inl err, (m, s'))
      | (Inr rv, s') \<Rightarrow> (Inr (rv, res_outcomes (mirror_resolve m ds)), (mirror_apply m (mirror_resolve m ds) rv, s')))"
  using ok by (simp add: mirror_write_def resolved_store_write [OF mirror_ok_same_data [OF ok] inv] Let_def mirror_ok_def)

lemma baselined_freshened:
  assumes "baselined r since v en" and "r < n" and "since < r" and "en_added en' = en_added en" and "en_updated en' = n"
  shows "baselined r since v en'"
proof -
  have "since < n" "\<not> n \<le> r" using assms(2,3) by linarith+
  then show ?thesis using assms(1) unfolding baselined_def assms(4,5) by blast
qed

lemma baselined_new: "r < n \<Longrightarrow> en_added en = n \<Longrightarrow> since < r \<Longrightarrow> baselined r since None en"
  by (simp add: baselined_def)

lemma baselined_kept:
  assumes "case old of None \<Rightarrow> v = None | Some en \<Rightarrow> baselined r since v en"
    and "r < n" and "since < r"
    and "new = old \<or> (\<exists>en'. new = Some en' \<and> en_updated en' = n \<and>
       (case old of None \<Rightarrow> en_added en' = n | Some en \<Rightarrow> en_added en' = en_added en))"
  shows "case new of None \<Rightarrow> v = None | Some en \<Rightarrow> baselined r since v en"
proof (cases old)
  case None
  with assms show ?thesis by (cases new) (simp_all add: baselined_new)
next
  case (Some en)
  from assms(4) consider "new = old"
    | en' where "new = Some en'" "en_updated en' = n" "en_added en' = en_added en" using Some by auto
  then show ?thesis
  proof cases
    case 1
    with assms(1) show ?thesis by simp
  next
    case 2
    with assms(1-3) Some baselined_freshened [of r since v en n en'] show ?thesis by simp
  qed
qed

lemma store_write_baseline:
  assumes inv: "store_inv s" and e: "st_max_epoch s \<le> e" and r: "r \<le> st_revision s"
    and b: "baseline_ok r since b (st_entries s)"
  shows "baseline_ok r since b (st_entries (snd (store_write ds e s)))"
proof -
  let ?E' = "st_entries (snd (store_write ds e s))"
  have "case map_of ?E' k of None \<Rightarrow> b k = None | Some en \<Rightarrow> baselined r since (b k) en" for k
  proof (rule baselined_kept [where old = "map_of (st_entries s) k" and n = "st_revision s + 1"])
    show "case map_of (st_entries s) k of None \<Rightarrow> b k = None | Some en \<Rightarrow> baselined r since (b k) en"
      using b unfolding baseline_ok_def by blast
    show "map_of ?E' k = map_of (st_entries s) k \<or> (\<exists>en'. map_of ?E' k = Some en' \<and> en_updated en' = st_revision s + 1 \<and>
       (case map_of (st_entries s) k of None \<Rightarrow> en_added en' = st_revision s + 1 | Some en \<Rightarrow> en_added en' = en_added en))"
    proof (cases "map_of ?E' k")
      case None
      then have "map_of (st_entries s) k = None"
        unfolding store_write_lookup [OF e] by (auto simp: written_entry_def split: option.splits)
      with None show ?thesis by simp
    next
      case (Some en)
      from store_entry_cases [OF this e inv] Some show ?thesis by auto
    qed
  qed (use r b in \<open>auto simp: baseline_ok_def\<close>)
  with b show ?thesis unfolding baseline_ok_def by blast
qed

lemma mirror_write_ok:
  assumes ok: "mirror_ok m s" and inv: "store_inv s" and w: "mirror_write ds e (m, s) = (res, (m', s'))"
  shows "mirror_ok m' s'" and "s' = snd (store_write ds e s)" and "map_sum id fst res = fst (store_write ds e s)"
    and "mi_session m' = mi_session m" and "mi_rehydrated_at m' = mi_rehydrated_at m"
    and "mi_baselines m' = mi_baselines m"
proof -
  let ?r = "mirror_resolve m ds" and ?n = "st_revision s + 1"
  obtain x s1 where sw: "store_write ds e s = (x, s1)" by (cases "store_write ds e s")
  note eq = w [unfolded mirror_write_store [OF ok inv, of ds e] sw]
  have cases: "s' = s1 \<and> map_sum id fst res = x \<and> (m' = m \<or> (\<exists>r rv. m' = mirror_apply m r rv))"
  proof (cases x)
    case (Inl err)
    with eq show ?thesis by auto
  next
    case (Inr rv)
    with eq have "m' = mirror_apply m ?r rv" "s' = s1" "res = Inr (rv, res_outcomes ?r)" by simp_all
    with Inr show ?thesis by auto
  qed
  then show "s' = snd (store_write ds e s)" "map_sum id fst res = fst (store_write ds e s)"
    by (simp_all add: sw)
  from cases consider "m' = m" | r rv where "m' = mirror_apply m r rv" by blast
  then show "mi_session m' = mi_session m" "mi_rehydrated_at m' = mi_rehydrated_at m" "mi_baselines m' = mi_baselines m"
    by (cases; simp add: mirror_apply_def)+
  show "mirror_ok m' s'"
  proof (cases "e < st_max_epoch s")
    case True
    then have "store_write ds e s = (Inl StaleEpochError, s)"
      by (simp add: store_write_def store_guard_epoch_def bindE_def)
    with w mirror_write_store [OF ok inv, of ds e] ok show ?thesis by simp
  next
    case False
    then have e: "st_max_epoch s \<le> e" by simp
    let ?W = "foldl (write_one ?n) (st_entries s, False) ds"
    let ?rv = "if snd ?W then ?n else st_revision s"
    have sw: "store_write ds e s = (Inr ?rv, s\<lparr>st_max_epoch := e, st_entries := fst ?W, st_revision := ?rv\<rparr>)"
      by (simp add: store_write_accepted [OF e] Let_def)
    with w mirror_write_store [OF ok inv, of ds e] have m': "m' = mirror_apply m ?r ?rv"
      and s': "s' = s\<lparr>st_max_epoch := e, st_entries := fst ?W, st_revision := ?rv\<rparr>" by auto
    have sd: "same_data (mi_entries m) (st_entries s)" by (rule mirror_ok_same_data [OF ok])
    have d: "distinct (map fst (st_entries s))" using inv by (simp add: store_inv_def)
    have keyed: "\<And>k en. map_of (st_entries s) k = Some en \<Longrightarrow> identity_key (en_dp en) = k"
      using store_inv_entry_ok [OF inv] unfolding entry_ok_def by blast
    have rn: "mi_rehydrated_at m < ?n" using ok by (simp add: mirror_ok_def)
    have entries: "mi_entries m' = map (\<lambda>(k, en). (k, mirror_entry_of (mi_rehydrated_at m) en)) (fst ?W)"
    proof (cases "snd ?W")
      case True
      with mirror_apply_entries [OF ok inv rn, of ds] m'
      have "mi_entries m' = map (\<lambda>(k, en). (k, mirror_entry_of (mi_rehydrated_at m) en))
          (foldl (apply_updated ?n) (foldl (apply_added ?n) (st_entries s) (map snd (res_added ?r))) (map snd (res_updated ?r)))"
        by simp
      with resolve_write_entries [OF sd d keyed, of ds ?n, unfolded Let_def, folded mirror_resolve_def]
      show ?thesis by simp
    next
      case unchanged: False
      with resolve_write_flag [OF sd, of ?n ds, unfolded Let_def, folded mirror_resolve_def]
      have "res_added ?r = []" "res_updated ?r = []" by simp_all
      with m' have "mi_entries m' = mi_entries m" by (simp add: mirror_apply_def)
      with write_fold_unchanged [OF unchanged] ok show ?thesis by (simp add: mirror_ok_def)
    qed
    have rest: "mi_hydrated m'" "mi_revision m' = st_revision s'" "mi_rehydrated_at m' = mi_rehydrated_at m"
      "mi_baselines m' = mi_baselines m"
      using ok m' s' by (simp_all add: mirror_apply_def mirror_ok_def)
    have base: "baseline_ok (mi_rehydrated_at m) since b (fst ?W)" if "mi_baselines m since = Some b" for since b
      using store_write_baseline [OF inv e, of "mi_rehydrated_at m" since b ds] ok that
      by (simp add: mirror_ok_def sw)
    have "st_revision s \<le> st_revision s'" using s' by simp
    with ok base rest entries s' show ?thesis unfolding mirror_ok_def by simp
  qed
qed

section \<open>The mirror answers as the store does\<close>

lemma mirrored_filter:
  assumes "\<And>p. p \<in> set E \<Longrightarrow> P (fst p, mirror_entry_of r (snd p)) \<longleftrightarrow> Q p"
  shows "map (\<lambda>p. me_dp (snd p)) (filter P (map (\<lambda>(k, en). (k, mirror_entry_of r en)) E)) =
     map (\<lambda>p. en_dp (snd p)) (filter Q E)"
  using assms by (induction E) (auto simp: mirror_entry_of_def)

lemma prime_ok:
  assumes ok: "mirror_ok m s" and inv: "store_inv s" and p: "prime_change_baseline since (m, s) = (res, (m', s'))"
  shows "res = Inr ()" and "s' = s" and "mirror_ok m' s" and "mi_session m' = mi_session m"
    and "mi_rehydrated_at m' \<le> since \<or> mi_baselines m' since \<noteq> None"
proof -
  show "res = Inr ()" "s' = s" "mi_session m' = mi_session m"
    "mi_rehydrated_at m' \<le> since \<or> mi_baselines m' since \<noteq> None"
    using ok p by (auto simp: prime_change_baseline_def mirror_ok_def split: if_splits)
  let ?b = "change_baseline (store_change_set_since s since)"
  show "mirror_ok m' s"
  proof (cases "mi_rehydrated_at m \<le> since \<or> mi_baselines m since \<noteq> None")
    case True
    with ok p show ?thesis by (auto simp: prime_change_baseline_def mirror_ok_def split: if_splits)
  next
    case False
    have m': "m' = m\<lparr>mi_baselines := (mi_baselines m)(since \<mapsto> ?b)\<rparr>"
      using False ok p by (auto simp: prime_change_baseline_def mirror_ok_def split: if_splits)
    have look: "foldl (\<lambda>b d. b(identity_key d \<mapsto> v)) b0 ds k = (if k \<in> identity_key ` set ds then Some v else b0 k)"
      for b0 :: "identity \<rightharpoonup> merge_kind" and v ds k by (induction ds arbitrary: b0) auto
    have keyed: "f (snd p) = fst p" if "p \<in> set (st_entries s)" and "f = identity_key \<circ> en_dp" for p f
      using store_inv_entry_ok [OF inv, of "fst p" "snd p"] that inv
      by (simp add: map_of_is_SomeI entry_ok_def store_inv_def)
    have mem: "(k \<in> identity_key ` set (map (\<lambda>p. en_dp (snd p)) (filter P (st_entries s)))) \<longleftrightarrow>
        (\<exists>en. map_of (st_entries s) k = Some en \<and> P (k, en))" for P k
      using keyed_filter_mem [of "st_entries s" "identity_key \<circ> en_dp" k P] keyed inv
      by (simp add: store_inv_def image_image comp_def)
    have "baseline_ok (mi_rehydrated_at m) since ?b (st_entries s)"
      unfolding baseline_ok_def
    proof (intro conjI allI)
      show "since < mi_rehydrated_at m" using False by simp
      fix k
      show "case map_of (st_entries s) k of None \<Rightarrow> ?b k = None
          | Some en \<Rightarrow> baselined (mi_rehydrated_at m) since (?b k) en"
      proof (cases "map_of (st_entries s) k")
        case None
        then show ?thesis by (simp add: change_baseline_def look store_change_set_since_def mem del: set_map)
      next
        case (Some en)
        from store_inv_entry_ok [OF inv this] Some show ?thesis
          by (simp add: change_baseline_def look store_change_set_since_def mem baselined_def entry_ok_def del: set_map)
      qed
    qed
    with ok m' show ?thesis unfolding mirror_ok_def by simp
  qed
qed

lemma mirror_ok_keys_entry:
  assumes inv: "store_inv s" and p: "p \<in> set (st_entries s)"
  shows "map_of (st_entries s) (fst p) = Some (snd p)" and "entry_ok (st_revision s) (fst p) (snd p)"
proof -
  show look: "map_of (st_entries s) (fst p) = Some (snd p)"
    using p inv by (simp add: store_inv_def map_of_is_SomeI)
  show "entry_ok (st_revision s) (fst p) (snd p)" by (rule store_inv_entry_ok [OF inv look])
qed

lemma local_changes:
  assumes ok: "mirror_ok m s" and since: "mi_rehydrated_at m \<le> since"
  shows "local_change_set m since = store_change_set_since s since"
proof -
  let ?r = "mi_rehydrated_at m"
  have stamps: "(since < stamp ?r x) = (since < x)" "(stamp ?r x \<le> since) = (x \<le> since)" for x
    using since ok by (auto simp: stamp_def mirror_ok_def)
  have es: "mi_entries m = map (\<lambda>(k, en). (k, mirror_entry_of ?r en)) (st_entries s)"
    using ok by (simp add: mirror_ok_def)
  show ?thesis
    unfolding local_change_set_def store_change_set_since_def es
    by (simp only: change_set.ext_inject, intro conjI refl mirrored_filter)
      (simp_all add: mirror_entry_of_def stamps)
qed

lemma baselined_changes:
  assumes ok: "mirror_ok m s" and inv: "store_inv s" and b: "mi_baselines m since = Some b"
  shows "baselined_change_set m since = Inr (store_change_set_since s since)"
proof -
  let ?r = "mi_rehydrated_at m"
  have bok: "baseline_ok ?r since b (st_entries s)" using ok b by (simp add: mirror_ok_def)
  then have since: "since < ?r" by (simp add: baseline_ok_def)
  have es: "mi_entries m = map (\<lambda>(k, en). (k, mirror_entry_of ?r en)) (st_entries s)"
    using ok by (simp add: mirror_ok_def)
  have added: "baseline_added b since (fst p, mirror_entry_of ?r (snd p)) \<longleftrightarrow> since < en_added (snd p)"
    and updated: "baseline_updated b since (fst p, mirror_entry_of ?r (snd p)) \<longleftrightarrow>
      en_added (snd p) \<le> since \<and> since < en_updated (snd p)" if p: "p \<in> set (st_entries s)" for p
  proof -
    note en = mirror_ok_keys_entry [OF inv p]
    have v: "baselined ?r since (b (fst p)) (snd p)" using bok en(1) unfolding baseline_ok_def
      by (metis option.simps(5))
    have s1: "since < stamp ?r x \<longleftrightarrow> ?r < x \<or> since < 0" for x using since by (auto simp: stamp_def)
    have pos: "0 \<le> en_added (snd p)" "en_added (snd p) \<le> en_updated (snd p)" using en(2) by (simp_all add: entry_ok_def)
    show a: "baseline_added b since (fst p, mirror_entry_of ?r (snd p)) \<longleftrightarrow> since < en_added (snd p)"
    proof
      assume "baseline_added b since (fst p, mirror_entry_of ?r (snd p))"
      then have "?r < en_added (snd p) \<or> since < 0 \<or> b (fst p) = Some ADDED"
        by (simp add: baseline_added_def mirror_entry_of_def s1)
      then show "since < en_added (snd p)" using v pos since unfolding baselined_def by linarith
    next
      assume "since < en_added (snd p)"
      then have "?r < en_added (snd p) \<or> b (fst p) = Some ADDED" using v unfolding baselined_def by linarith
      then show "baseline_added b since (fst p, mirror_entry_of ?r (snd p))"
        by (auto simp: baseline_added_def mirror_entry_of_def s1)
    qed
    show "baseline_updated b since (fst p, mirror_entry_of ?r (snd p)) \<longleftrightarrow>
      en_added (snd p) \<le> since \<and> since < en_updated (snd p)"
    proof
      assume "baseline_updated b since (fst p, mirror_entry_of ?r (snd p))"
      then have "\<not> since < en_added (snd p)" "b (fst p) = Some UPDATED \<or> ?r < en_updated (snd p) \<or> since < 0"
        by (simp_all add: baseline_updated_def a) (simp add: mirror_entry_of_def s1)
      then show "en_added (snd p) \<le> since \<and> since < en_updated (snd p)"
        using v pos since unfolding baselined_def by linarith
    next
      assume "en_added (snd p) \<le> since \<and> since < en_updated (snd p)"
      then have "\<not> since < en_added (snd p)" "b (fst p) = Some UPDATED \<or> ?r < en_updated (snd p)"
        using v unfolding baselined_def by linarith+
      then show "baseline_updated b since (fst p, mirror_entry_of ?r (snd p))"
        by (simp add: baseline_updated_def a) (auto simp: mirror_entry_of_def s1)
    qed
  qed
  show ?thesis
    unfolding baselined_change_set_def store_change_set_since_def es b
    by (simp only: option.case sum.inject change_set.ext_inject, intro conjI refl mirrored_filter)
      (simp_all add: added updated)
qed

lemma mirror_changes:
  assumes "mirror_ok m s" and "store_inv s" and "mi_rehydrated_at m \<le> since \<or> mi_baselines m since \<noteq> None"
  shows "mirror_change_set_since m (mi_session m) since = Inr (store_change_set_since s since)"
proof -
  have "mi_hydrated m" using assms(1) by (simp add: mirror_ok_def)
  then show ?thesis
    using local_changes [OF assms(1), of since] baselined_changes [OF assms(1,2), of since] assms(3)
    by (cases "mi_rehydrated_at m \<le> since") (auto simp: mirror_change_set_since_def mirror_guard_read_def)
qed

lemma mirror_reads:
  assumes "mirror_ok m s"
  shows "mirror_snapshot m (mi_session m) = Inr (store_snapshot s)"
    and "mirror_get_revision m (mi_session m) = Inr (st_revision s)"
  using assms
  by (auto simp: mirror_ok_def mirror_snapshot_def mirror_get_revision_def mirror_guard_read_def store_snapshot_def
      mirror_entry_of_def)

section \<open>Properties\<close>

text \<open>
  C3: refinement of the store's write. A batch written through a mirror coupled with the store
  is accepted or refused, leaves the store, and returns the revision exactly as the store's own
  \<open>write\<close> of the raw batch would; the mirror is coupled with the store's new state, and a refused
  batch leaves the mirror as it was.
\<close>

theorem mirror_write_refines:
  assumes "mirror_ok m s" and "store_inv s" and "mirror_write ds e (m, s) = (res, (m', s'))"
  shows "s' = snd (store_write ds e s) \<and> map_sum id fst res = fst (store_write ds e s) \<and>
     mirror_ok m' s' \<and> (e < st_max_epoch s \<longrightarrow> m' = m)"
proof (intro conjI impI)
  show "s' = snd (store_write ds e s)" "map_sum id fst res = fst (store_write ds e s)" "mirror_ok m' s'"
    by (rule mirror_write_ok [OF assms])+
  assume "e < st_max_epoch s"
  then have "store_write ds e s = (Inl StaleEpochError, s)"
    by (simp add: store_write_def store_guard_epoch_def bindE_def)
  with assms(3) show "m' = m" by (simp add: mirror_write_store [OF assms(1,2)])
qed

definition sample_mirror :: mirror where
  "sample_mirror = fst (snd (mirror_rehydrate (new_mirror ''s'', empty_session)))"

lemma sample_mirror_ok: "mirror_ok sample_mirror empty_session"
  using mirror_ok_rehydrate(3) [OF store_inv_empty, of "new_mirror ''s''" "Inr ()" sample_mirror empty_session]
  by (simp add: sample_mirror_def mirror_rehydrate_def)

theorem mirror_write_refines_witness:
  "snd (snd (mirror_write [sample_dp ''a'' 3, sample_dp ''a'' 8] 1 (sample_mirror, empty_session))) =
     snd (store_write [sample_dp ''a'' 3, sample_dp ''a'' 8] 1 empty_session)"
  using mirror_write_refines [OF sample_mirror_ok store_inv_empty, of "[sample_dp ''a'' 3, sample_dp ''a'' 8]" 1]
  by (cases "mirror_write [sample_dp ''a'' 3, sample_dp ''a'' 8] 1 (sample_mirror, empty_session)") auto

text \<open>
  C4: the mirror's local answers are the store's: its snapshot, its revision, and its change set
  since any revision at or after rehydration or for which a baseline was primed.
\<close>

theorem mirror_answers_as_store:
  assumes "mirror_ok m s" and "store_inv s"
    and "mi_rehydrated_at m \<le> since \<or> mi_baselines m since \<noteq> None"
  shows "mirror_change_set_since m (mi_session m) since = Inr (store_change_set_since s since) \<and>
     mirror_snapshot m (mi_session m) = Inr (store_snapshot s) \<and>
     mirror_get_revision m (mi_session m) = Inr (st_revision s)"
  using mirror_changes [OF assms] mirror_reads [OF assms(1)] by blast

theorem mirror_answers_as_store_witness:
  "mirror_change_set_since sample_mirror ''s'' 0 = Inr (store_change_set_since empty_session 0)"
  using mirror_answers_as_store [OF sample_mirror_ok store_inv_empty, of 0]
  by (simp add: sample_mirror_def mirror_rehydrate_def new_mirror_def empty_session_def)

text \<open>
  Also: once a write of epoch \<open>e\<close> went through the mirror, whatever writers of lower epochs attempt
  on the store, in any number and order, the mirror stays coupled with it.
\<close>

theorem mirror_survives_stale_writers:
  assumes "mirror_ok m s" and "store_inv s" and "st_max_epoch s \<le> e"
    and "mirror_write ds e (m, s) = (res, (m', s'))" and "\<forall>p \<in> set ps. fst p < e"
  shows "mirror_ok m' (guarded_run store_act ps s')"
proof -
  have "s' = snd (store_write ds e s)" "mirror_ok m' s'"
    by (rule mirror_write_ok [OF assms(1,2,4)])+
  moreover from this assms(3) have "st_max_epoch s' = e" by (simp add: store_write_accepted Let_def)
  ultimately show ?thesis using store_fence.run_stale assms(5) by simp
qed

theorem mirror_survives_stale_writers_witness:
  "mirror_ok (fst (snd (mirror_write [] 2 (sample_mirror, empty_session))))
     (guarded_run store_act [(1, OWrite [sample_dp ''b'' 4])] (snd (snd (mirror_write [] 2 (sample_mirror, empty_session)))))"
  by (rule mirror_survives_stale_writers [OF sample_mirror_ok store_inv_empty, where ds = "[]" and e = 2
        and res = "fst (mirror_write [] 2 (sample_mirror, empty_session))"])
    (simp_all add: empty_session_def)

text \<open>
  Also: the coupling needs that first write. A successor that only rehydrated, without any guarded
  operation of its own epoch, does not fence its predecessor: the predecessor's later write is
  still accepted, and the successor's mirror no longer shows the store's data.
\<close>

theorem rehydration_alone_does_not_fence:
  "let s1 = snd (store_write [sample_dp ''a'' 3] 1 empty_session);
       m = fst (snd (mirror_rehydrate (new_mirror ''s'', s1)));
       late = store_write [sample_dp ''b'' 4] 1 s1
   in mirror_ok m s1 \<and> fst late = Inr 2 \<and>
      mirror_snapshot m ''s'' = Inr [sample_dp ''a'' 3] \<and>
      store_snapshot (snd late) = [sample_dp ''a'' 3, sample_dp ''b'' 4]"
proof -
  let ?s = "snd (store_write [sample_dp ''a'' 3] 1 empty_session)"
  obtain res m s' where r: "mirror_rehydrate (new_mirror ''s'', ?s) = (res, (m, s'))"
    by (metis prod.collapse)
  have ok: "mirror_ok m ?s"
    by (rule mirror_ok_rehydrate(3) [OF store_write_inv [OF store_inv_empty] r])
  have "?s = empty_session\<lparr>st_max_epoch := 1, st_revision := 1,
      st_entries := [((''fact'', PStr ''a''), \<lparr>en_dp = sample_dp ''a'' 3, en_added = 1, en_updated = 1\<rparr>)]\<rparr>"
    by (simp add: store_write_def store_guard_epoch_def bindE_def empty_session_def write_one_def)
  moreover have "mi_session m = ''s''" using r by (auto simp: mirror_rehydrate_def new_mirror_def)
  ultimately show ?thesis
    using ok mirror_reads(1) [OF ok] r
    by (simp add: Let_def store_write_def store_guard_epoch_def bindE_def empty_session_def write_one_def store_snapshot_def)
qed

end
