(* ===== verification/Session_Inbox.thy ===== *)
theory Session_Inbox
  imports DataPoints
begin

text \<open>
  The session inbox: the port \<^verbatim>\<open>orcastork/ports/inbox.py\<close> and its in-memory adapter
  \<^verbatim>\<open>orcastork/adapters/memory/inbox.py\<close>. Messages are kept in their wire form; decoding a
  payload (\<^verbatim>\<open>orjson.loads\<close>) and building the model from the decoded value
  (\<^verbatim>\<open>parse_data_point\<close>, pydantic's discriminated union) are the parameters \<open>dec\<close> and \<open>prs\<close>,
  and the fresh identifier of an appended message is an argument.
\<close>

section \<open>State\<close>

record inbox_message =
  ms_id :: string
  ms_payload :: string
  ms_count :: int
  ms_claimed :: bool

record quarantined_entry =
  qe_id :: string
  qe_reason :: string
  qe_count :: int
  qe_payload :: "string option"

record inbox_state =
  ib_messages :: "inbox_message list"
  ib_quarantined :: "quarantined_entry list"
  ib_max_epoch :: epoch
  ib_arrival :: bool

definition new_inbox :: inbox_state where
  "new_inbox = \<lparr>ib_messages = [], ib_quarantined = [], ib_max_epoch = 0, ib_arrival = False\<rparr>"

datatype delivered =
    InboxEntry (dl_id: string) data_point int
  | PoisonInboxEntry (dl_id: string) string int "string option"

definition inbox_guard_epoch :: "epoch \<Rightarrow> (inbox_state, unit) op" where
  "inbox_guard_epoch e s =
     (if e < ib_max_epoch s then (Inl StaleEpochError, s) else (Inr (), s\<lparr>ib_max_epoch := e\<rparr>))"

section \<open>Appending\<close>

definition append_serialized :: "string \<Rightarrow> string \<Rightarrow> (inbox_state, string) op" where
  "append_serialized new_id payload s =
     (Inr new_id, s\<lparr>ib_messages := ib_messages s @
        [\<lparr>ms_id = new_id, ms_payload = payload, ms_count = 0, ms_claimed = False\<rparr>], ib_arrival := True\<rparr>)"

definition inbox_append :: "(data_point \<Rightarrow> string) \<Rightarrow> string \<Rightarrow> data_point \<Rightarrow> (inbox_state, string) op" where
  "inbox_append dumps new_id d = append_serialized new_id (dumps d)"

section \<open>Delivery\<close>

definition to_entry ::
  "(string \<Rightarrow> string + pyval) \<Rightarrow> (pyval \<Rightarrow> orca_error + data_point) \<Rightarrow> inbox_message \<Rightarrow> orca_error + delivered" where
  "to_entry dec prs m =
     (case dec (ms_payload m) of
        Inl err \<Rightarrow> Inr (PoisonInboxEntry (ms_id m) err (ms_count m) (Some (ms_payload m)))
      | Inr raw \<Rightarrow> (case prs raw of
          Inl err \<Rightarrow> Inl err
        | Inr d \<Rightarrow> Inr (InboxEntry (ms_id m) d (ms_count m))))"

text \<open>
  The loop of \<^verbatim>\<open>consume\<close>: \<open>n\<close> messages have been claimed so far. A payload that decodes but
  does not parse raises in the middle of the loop, with the messages before it, and itself,
  already claimed.
\<close>

fun consume_loop ::
  "(string \<Rightarrow> string + pyval) \<Rightarrow> (pyval \<Rightarrow> orca_error + data_point) \<Rightarrow> int option \<Rightarrow> int \<Rightarrow>
     inbox_message list \<Rightarrow> (orca_error + delivered list) \<times> inbox_message list" where
  "consume_loop dec prs cap n [] = (Inr [], [])"
| "consume_loop dec prs cap n (m # ms) =
     (if (case cap of None \<Rightarrow> False | Some k \<Rightarrow> k \<le> n) then (Inr [], m # ms)
      else if ms_claimed m then
        (case consume_loop dec prs cap n ms of (r, ms') \<Rightarrow> (r, m # ms'))
      else
        (let m' = m\<lparr>ms_claimed := True, ms_count := ms_count m + 1\<rparr> in
         case to_entry dec prs m' of
           Inl err \<Rightarrow> (Inl err, m' # ms)
         | Inr d \<Rightarrow>
             (case consume_loop dec prs cap (n + 1) ms of
                (Inl err, ms') \<Rightarrow> (Inl err, m' # ms')
              | (Inr ds, ms') \<Rightarrow> (Inr (d # ds), m' # ms'))))"

definition inbox_consume ::
  "(string \<Rightarrow> string + pyval) \<Rightarrow> (pyval \<Rightarrow> orca_error + data_point) \<Rightarrow> int option \<Rightarrow> (inbox_state, delivered list) op" where
  "inbox_consume dec prs cap s =
     (if (case cap of None \<Rightarrow> False | Some k \<Rightarrow> k \<le> 0) then (Inr [], s)
      else case consume_loop dec prs cap 0 (ib_messages s) of (r, ms) \<Rightarrow> (r, s\<lparr>ib_messages := ms\<rparr>))"

fun reclaim_loop ::
  "(string \<Rightarrow> string + pyval) \<Rightarrow> (pyval \<Rightarrow> orca_error + data_point) \<Rightarrow> inbox_message list \<Rightarrow>
     (orca_error + delivered list) \<times> inbox_message list" where
  "reclaim_loop dec prs [] = (Inr [], [])"
| "reclaim_loop dec prs (m # ms) =
     (if \<not> ms_claimed m then
        (case reclaim_loop dec prs ms of (r, ms') \<Rightarrow> (r, m # ms'))
      else
        (let m' = m\<lparr>ms_count := ms_count m + 1\<rparr> in
         case to_entry dec prs m' of
           Inl err \<Rightarrow> (Inl err, m' # ms)
         | Inr d \<Rightarrow>
             (case reclaim_loop dec prs ms of
                (Inl err, ms') \<Rightarrow> (Inl err, m' # ms')
              | (Inr ds, ms') \<Rightarrow> (Inr (d # ds), m' # ms'))))"

definition inbox_reclaim ::
  "(string \<Rightarrow> string + pyval) \<Rightarrow> (pyval \<Rightarrow> orca_error + data_point) \<Rightarrow> (inbox_state, delivered list) op" where
  "inbox_reclaim dec prs s =
     (case reclaim_loop dec prs (ib_messages s) of (r, ms) \<Rightarrow> (r, s\<lparr>ib_messages := ms\<rparr>))"

section \<open>Disposal\<close>

text \<open>The scan both disposals share: the first message with the id, removed if it was claimed.\<close>

fun take_claimed :: "string \<Rightarrow> inbox_message list \<Rightarrow> inbox_message option \<times> inbox_message list" where
  "take_claimed i [] = (None, [])"
| "take_claimed i (m # ms) =
     (if ms_id m = i then (if ms_claimed m then (Some m, ms) else (None, m # ms))
      else case take_claimed i ms of (r, ms') \<Rightarrow> (r, m # ms'))"

definition inbox_ack :: "string \<Rightarrow> epoch \<Rightarrow> (inbox_state, unit) op" where
  "inbox_ack i e = bindE (inbox_guard_epoch e) (\<lambda>_ s.
     (Inr (), s\<lparr>ib_messages := snd (take_claimed i (ib_messages s))\<rparr>))"

definition inbox_quarantine :: "string \<Rightarrow> string \<Rightarrow> epoch \<Rightarrow> (inbox_state, unit) op" where
  "inbox_quarantine i reason e = bindE (inbox_guard_epoch e) (\<lambda>_ s.
     (case take_claimed i (ib_messages s) of
        (None, _) \<Rightarrow> (Inr (), s)
      | (Some m, ms) \<Rightarrow> (Inr (), s\<lparr>ib_messages := ms, ib_quarantined := ib_quarantined s @
          [\<lparr>qe_id = i, qe_reason = reason, qe_count = ms_count m, qe_payload = Some (ms_payload m)\<rparr>]\<rparr>)))"

definition pending_count :: "inbox_state \<Rightarrow> nat" where
  "pending_count s = length (ib_messages s)"

text \<open>
  \<^verbatim>\<open>wait_for_entry\<close> returns at once when something is pending (\<open>True\<close>); otherwise it clears the
  arrival event and blocks until the event is set.
\<close>

definition wait_for_entry :: "inbox_state \<Rightarrow> bool \<times> inbox_state" where
  "wait_for_entry s = (if ib_messages s \<noteq> [] then (True, s) else (False, s\<lparr>ib_arrival := False\<rparr>))"

section \<open>Runs of operations\<close>

datatype inbox_op =
    IAppend string string
  | IConsume "int option"
  | IReclaim
  | IAck string epoch
  | IQuarantine string string epoch

fun inbox_act ::
  "(string \<Rightarrow> string + pyval) \<Rightarrow> (pyval \<Rightarrow> orca_error + data_point) \<Rightarrow> inbox_op \<Rightarrow> inbox_state \<Rightarrow> inbox_state" where
  "inbox_act dec prs (IAppend i p) s = snd (append_serialized i p s)"
| "inbox_act dec prs (IConsume cap) s = snd (inbox_consume dec prs cap s)"
| "inbox_act dec prs IReclaim s = snd (inbox_reclaim dec prs s)"
| "inbox_act dec prs (IAck i e) s = snd (inbox_ack i e s)"
| "inbox_act dec prs (IQuarantine i r e) s = snd (inbox_quarantine i r e s)"

definition inbox_run ::
  "(string \<Rightarrow> string + pyval) \<Rightarrow> (pyval \<Rightarrow> orca_error + data_point) \<Rightarrow> inbox_op list \<Rightarrow> inbox_state \<Rightarrow> inbox_state" where
  "inbox_run dec prs xs s = fold (inbox_act dec prs) xs s"

text \<open>The epoch-guarded operations as one action: \<open>None\<close> acknowledges, \<open>Some r\<close> quarantines.\<close>

definition dispose :: "epoch \<Rightarrow> string \<times> string option \<Rightarrow> (inbox_state, unit) op" where
  "dispose e x = (case snd x of None \<Rightarrow> inbox_ack (fst x) e | Some r \<Rightarrow> inbox_quarantine (fst x) r e)"

lemmas inbox_defs = append_serialized_def inbox_ack_def inbox_quarantine_def inbox_guard_epoch_def bindE_def

interpretation inbox_fence: fenced_writer ib_max_epoch dispose
  by unfold_locales (auto simp: dispose_def inbox_defs split: option.splits prod.splits)

section \<open>What the loops keep and deliver\<close>

definition wire :: "inbox_message list \<Rightarrow> (string \<times> string) list" where
  "wire ms = map (\<lambda>m. (ms_id m, ms_payload m)) ms"

definition unclaimed_ids :: "inbox_message list \<Rightarrow> string list" where
  "unclaimed_ids ms = map ms_id (filter (\<lambda>m. \<not> ms_claimed m) ms)"

definition claimed_ids :: "inbox_message list \<Rightarrow> string list" where
  "claimed_ids ms = map ms_id (filter ms_claimed ms)"

lemma wire_simps [simp]:
  "wire [] = []" "wire (m # ms) = (ms_id m, ms_payload m) # wire ms" "wire (ms @ ns) = wire ms @ wire ns"
  by (simp_all add: wire_def)

lemma wire_ids: "map fst (wire ms) = map ms_id ms"
  by (induction ms) simp_all

lemma to_entry_id: "to_entry dec prs m = Inr d \<Longrightarrow> dl_id d = ms_id m"
  by (auto simp: to_entry_def split: sum.splits)

lemma consume_loop_wire: "consume_loop dec prs cap n ms = (r, ms') \<Longrightarrow> wire ms' = wire ms"
  by (induction ms arbitrary: n r ms')
    (auto simp: Let_def split: if_splits prod.splits sum.splits option.splits)

lemma reclaim_loop_wire: "reclaim_loop dec prs ms = (r, ms') \<Longrightarrow> wire ms' = wire ms"
  by (induction ms arbitrary: r ms') (auto simp: Let_def split: if_splits prod.splits sum.splits)

lemma take_claimed_wire:
  "filter (\<lambda>p. fst p \<noteq> i) (wire (snd (take_claimed i ms))) = filter (\<lambda>p. fst p \<noteq> i) (wire ms)"
  by (induction ms) (auto split: prod.splits)

lemma take_claimed_ids:
  "take_claimed i ms = (Some m, ms') \<Longrightarrow> ms_id m = i \<and> set (map ms_id ms) = insert i (set (map ms_id ms')) \<and>
     (distinct (map ms_id ms) \<longrightarrow> distinct (map ms_id ms') \<and> i \<notin> set (map ms_id ms'))"
  by (induction ms arbitrary: ms') (auto split: if_splits prod.splits)

lemma take_claimed_None: "take_claimed i ms = (None, ms') \<Longrightarrow> ms' = ms"
  by (induction ms arbitrary: ms') (auto split: if_splits prod.splits)

lemma consume_loop_delivers:
  "consume_loop dec prs cap n ms = (Inr ds, ms') \<Longrightarrow>
     (case cap of
        None \<Rightarrow> map dl_id ds = unclaimed_ids ms \<and> unclaimed_ids ms' = []
      | Some k \<Rightarrow> map dl_id ds = take (nat (k - n)) (unclaimed_ids ms) \<and>
          unclaimed_ids ms' = drop (nat (k - n)) (unclaimed_ids ms))"
proof (induction ms arbitrary: n ds ms')
  case Nil
  then show ?case by (auto simp: unclaimed_ids_def split: option.splits)
next
  case (Cons m ms)
  show ?case
  proof (cases "case cap of None \<Rightarrow> False | Some k \<Rightarrow> k \<le> n")
    case True
    with Cons.prems show ?thesis by (auto split: option.splits)
  next
    case go: False
    show ?thesis
    proof (cases "ms_claimed m")
      case True
      with go Cons.prems obtain ns where "consume_loop dec prs cap n ms = (Inr ds, ns)" "ms' = m # ns"
        by (auto split: prod.splits)
      with Cons.IH [OF this(1)] True show ?thesis by (simp add: unclaimed_ids_def split: option.splits)
    next
      case False
      let ?m = "m\<lparr>ms_claimed := True, ms_count := ms_count m + 1\<rparr>"
      from False go Cons.prems obtain d es ns where d: "to_entry dec prs ?m = Inr d"
        and rec: "consume_loop dec prs cap (n + 1) ms = (Inr es, ns)" and res: "ds = d # es" "ms' = ?m # ns"
        by (auto simp: Let_def split: prod.splits sum.splits)
      have "dl_id d = ms_id m" using to_entry_id [OF d] by simp
      moreover have "nat (k - n) = Suc (nat (k - (n + 1)))" if "cap = Some k" for k using go that by simp
      ultimately show ?thesis using Cons.IH [OF rec] False res
        by (simp add: unclaimed_ids_def split: option.splits)
    qed
  qed
qed

lemma reclaim_loop_delivers:
  "reclaim_loop dec prs ms = (Inr ds, ms') \<Longrightarrow> map dl_id ds = claimed_ids ms"
  by (induction ms arbitrary: ds ms')
    (auto simp: claimed_ids_def Let_def dest: to_entry_id split: if_splits prod.splits sum.splits)

text \<open>No payload that decodes fails to parse.\<close>

definition parses :: "(string \<Rightarrow> string + pyval) \<Rightarrow> (pyval \<Rightarrow> orca_error + data_point) \<Rightarrow> bool" where
  "parses dec prs \<longleftrightarrow> (\<forall>m. \<exists>d. to_entry dec prs m = Inr d)"

lemma consume_loop_total: "parses dec prs \<Longrightarrow> \<exists>ds ms'. consume_loop dec prs cap n ms = (Inr ds, ms')"
proof (induction ms arbitrary: n)
  case (Cons m ms)
  let ?m = "m\<lparr>ms_claimed := True, ms_count := ms_count m + 1\<rparr>"
  from Cons.prems obtain d where d: "to_entry dec prs ?m = Inr d" unfolding parses_def by blast
  from Cons obtain ds ms' where "consume_loop dec prs cap n ms = (Inr ds, ms')" by blast
  moreover from Cons obtain es ns where "consume_loop dec prs cap (n + 1) ms = (Inr es, ns)" by blast
  ultimately show ?case using d by (simp add: Let_def)
qed simp

lemma reclaim_loop_total: "parses dec prs \<Longrightarrow> \<exists>ds ms'. reclaim_loop dec prs ms = (Inr ds, ms')"
proof (induction ms)
  case (Cons m ms)
  let ?m = "m\<lparr>ms_count := ms_count m + 1\<rparr>"
  from Cons.prems obtain d where d: "to_entry dec prs ?m = Inr d" unfolding parses_def by blast
  from Cons obtain ds ms' where "reclaim_loop dec prs ms = (Inr ds, ms')" by blast
  then show ?case using d by (simp add: Let_def)
qed simp

section \<open>Nothing is lost\<close>

definition disposes :: "string \<Rightarrow> inbox_op \<Rightarrow> bool" where
  "disposes i x = (case x of IAck j _ \<Rightarrow> j = i | IQuarantine j _ _ \<Rightarrow> j = i | _ \<Rightarrow> False)"

lemma take_claimed_other:
  assumes "(i, p) \<in> set (wire ms)" and "j \<noteq> i"
  shows "(i, p) \<in> set (wire (snd (take_claimed j ms)))"
proof -
  from assms have "(i, p) \<in> set (filter (\<lambda>q. fst q \<noteq> j) (wire ms))" by simp
  then have "(i, p) \<in> set (filter (\<lambda>q. fst q \<noteq> j) (wire (snd (take_claimed j ms))))"
    by (simp only: take_claimed_wire)
  then show ?thesis by simp
qed

lemma inbox_act_keeps:
  assumes "(i, p) \<in> set (wire (ib_messages s))" and "\<not> disposes i x"
  shows "(i, p) \<in> set (wire (ib_messages (inbox_act dec prs x s)))"
proof (cases x)
  case (IAppend j q)
  with assms show ?thesis by (simp add: append_serialized_def)
next
  case (IConsume cap)
  obtain r ms where "consume_loop dec prs cap 0 (ib_messages s) = (r, ms)" by fastforce
  with IConsume assms consume_loop_wire [OF this] show ?thesis by (simp add: inbox_consume_def)
next
  case IReclaim
  obtain r ms where "reclaim_loop dec prs (ib_messages s) = (r, ms)" by fastforce
  with IReclaim assms reclaim_loop_wire [OF this] show ?thesis by (simp add: inbox_reclaim_def)
next
  case (IAck j e)
  with assms take_claimed_other [of i p "ib_messages s" j] show ?thesis
    by (simp add: inbox_defs disposes_def)
next
  case (IQuarantine j r e)
  with assms take_claimed_other [of i p "ib_messages s" j] show ?thesis
    by (auto simp: inbox_defs disposes_def split: prod.split option.split)
qed

lemma inbox_run_keeps:
  "(i, p) \<in> set (wire (ib_messages s)) \<Longrightarrow> \<forall>x \<in> set xs. \<not> disposes i x \<Longrightarrow>
     (i, p) \<in> set (wire (ib_messages (inbox_run dec prs xs s)))"
  unfolding inbox_run_def by (induction xs arbitrary: s) (simp_all add: inbox_act_keeps)

lemma ids_claimed_or_not: "set (map ms_id ms) = set (unclaimed_ids ms) \<union> set (claimed_ids ms)"
  by (induction ms) (auto simp: unclaimed_ids_def claimed_ids_def)

section \<open>Identifiers\<close>

definition inbox_ids :: "inbox_state \<Rightarrow> string list" where
  "inbox_ids s = map ms_id (ib_messages s) @ map qe_id (ib_quarantined s)"

fun appended :: "inbox_op \<Rightarrow> string list" where
  "appended (IAppend i p) = [i]"
| "appended _ = []"

lemma inbox_act_ids:
  assumes "distinct (inbox_ids s)" and "set (appended x) \<inter> set (inbox_ids s) = {}"
  shows "distinct (inbox_ids (inbox_act dec prs x s)) \<and>
     set (inbox_ids (inbox_act dec prs x s)) \<subseteq> set (inbox_ids s) \<union> set (appended x)"
proof (cases x)
  case (IAppend j q)
  with assms show ?thesis by (auto simp: append_serialized_def inbox_ids_def)
next
  case (IConsume cap)
  obtain r ms where "consume_loop dec prs cap 0 (ib_messages s) = (r, ms)" by fastforce
  with IConsume assms consume_loop_wire [OF this] show ?thesis
    by (auto simp: inbox_consume_def inbox_ids_def simp flip: wire_ids)
next
  case IReclaim
  obtain r ms where "reclaim_loop dec prs (ib_messages s) = (r, ms)" by fastforce
  with IReclaim assms reclaim_loop_wire [OF this] show ?thesis
    by (auto simp: inbox_reclaim_def inbox_ids_def simp flip: wire_ids)
next
  case (IAck j e)
  obtain r ms where t: "take_claimed j (ib_messages s) = (r, ms)" by fastforce
  show ?thesis
  proof (cases r)
    case None
    with take_claimed_None t have "ms = ib_messages s" by auto
    with IAck assms t show ?thesis by (auto simp: inbox_defs inbox_ids_def)
  next
    case (Some m)
    with take_claimed_ids [of j "ib_messages s" m ms] IAck assms t show ?thesis
      by (auto simp: inbox_defs inbox_ids_def)
  qed
next
  case (IQuarantine j rs e)
  obtain r ms where t: "take_claimed j (ib_messages s) = (r, ms)" by fastforce
  show ?thesis
  proof (cases r)
    case None
    with IQuarantine assms t show ?thesis by (auto simp: inbox_defs inbox_ids_def)
  next
    case (Some m)
    with take_claimed_ids [of j "ib_messages s" m ms] IQuarantine assms t show ?thesis
      by (auto simp: inbox_defs inbox_ids_def)
  qed
qed

lemma inbox_run_ids:
  "distinct (inbox_ids s) \<Longrightarrow> distinct (concat (map appended xs)) \<Longrightarrow>
     set (concat (map appended xs)) \<inter> set (inbox_ids s) = {} \<Longrightarrow> distinct (inbox_ids (inbox_run dec prs xs s))"
proof (induction xs arbitrary: s)
  case (Cons x xs)
  let ?t = "inbox_act dec prs x s"
  from Cons.prems have "set (appended x) \<inter> set (inbox_ids s) = {}" by auto
  note t = inbox_act_ids [OF Cons.prems(1) this, of dec prs]
  with Cons.prems have "set (concat (map appended xs)) \<inter> set (inbox_ids ?t) = {}" by fastforce
  with Cons.IH [of ?t] t Cons.prems(2) show ?case by (simp add: inbox_run_def)
qed (simp add: inbox_run_def)

section \<open>Properties\<close>


definition sample_dec :: "string \<Rightarrow> string + pyval" where
  "sample_dec payload = (if payload = ''{'' then Inl ''JSONDecodeError'' else Inr (PStr payload))"

definition sample_prs :: "pyval \<Rightarrow> orca_error + data_point" where
  "sample_prs raw = (case raw of PStr v \<Rightarrow> Inr (sample_dp v 0) | _ \<Rightarrow> Inl UnknownDataPointTypeError)"

lemma sample_parses: "parses sample_dec sample_prs"
  by (simp add: parses_def to_entry_def sample_dec_def sample_prs_def)


text \<open>
  Also: \<open>consume\<close> delivers the not-yet-delivered messages in append order, the first \<open>k\<close> of them
  when capped at \<open>k\<close> (none for a cap of zero or less), and exactly these are claimed: the next
  \<open>consume\<close> starts with the message after them.
\<close>

theorem inbox_consume_in_order:
  assumes "inbox_consume dec prs cap s = (Inr ds, s')"
  shows "map dl_id ds = (case cap of None \<Rightarrow> unclaimed_ids (ib_messages s)
            | Some k \<Rightarrow> take (nat k) (unclaimed_ids (ib_messages s))) \<and>
     unclaimed_ids (ib_messages s') = (case cap of None \<Rightarrow> []
            | Some k \<Rightarrow> drop (nat k) (unclaimed_ids (ib_messages s))) \<and>
     map ms_id (ib_messages s') = map ms_id (ib_messages s)"
proof (cases "case cap of None \<Rightarrow> False | Some k \<Rightarrow> k \<le> 0")
  case True
  with assms show ?thesis by (auto simp: inbox_consume_def split: option.splits)
next
  case False
  with assms obtain ms where c: "consume_loop dec prs cap 0 (ib_messages s) = (Inr ds, ms)"
    and s': "s' = s\<lparr>ib_messages := ms\<rparr>" by (auto simp: inbox_consume_def split: prod.splits)
  have "map fst (wire ms) = map fst (wire (ib_messages s))" using consume_loop_wire [OF c] by simp
  with consume_loop_delivers [OF c] s' show ?thesis by (simp add: wire_ids split: option.splits)
qed

theorem inbox_consume_in_order_witness:
  "map dl_id [InboxEntry ''m1'' (sample_dp ''x'' 0) 1, PoisonInboxEntry ''m2'' ''JSONDecodeError'' 1 (Some ''{'')] =
   take 2 [''m1'', ''m2'', ''m3'']"
proof -
  let ?s = "inbox_run sample_dec sample_prs [IAppend ''m1'' ''x'', IAppend ''m2'' ''{'', IAppend ''m3'' ''y''] new_inbox"
  have "\<exists>s'. inbox_consume sample_dec sample_prs (Some 2) ?s =
     (Inr [InboxEntry ''m1'' (sample_dp ''x'' 0) 1, PoisonInboxEntry ''m2'' ''JSONDecodeError'' 1 (Some ''{'')], s')"
    by (simp add: inbox_run_def append_serialized_def new_inbox_def inbox_consume_def to_entry_def sample_dec_def
        sample_prs_def Let_def)
  then obtain s' where "inbox_consume sample_dec sample_prs (Some 2) ?s =
     (Inr [InboxEntry ''m1'' (sample_dp ''x'' 0) 1, PoisonInboxEntry ''m2'' ''JSONDecodeError'' 1 (Some ''{'')], s')" ..
  from inbox_consume_in_order [OF this] show ?thesis
    by (simp add: inbox_run_def append_serialized_def new_inbox_def unclaimed_ids_def)
qed

text \<open>
  Also: quarantine is terminal. As long as appended messages get fresh identifiers, no identifier
  is ever pending twice, recorded as quarantined twice, or pending after it was quarantined.
\<close>

theorem inbox_quarantine_terminal:
  assumes "distinct (concat (map appended xs))"
  shows "distinct (map ms_id (ib_messages (inbox_run dec prs xs new_inbox)) @
     map qe_id (ib_quarantined (inbox_run dec prs xs new_inbox)))"
  using inbox_run_ids [of new_inbox xs dec prs] assms by (simp add: inbox_ids_def new_inbox_def)

theorem inbox_quarantine_terminal_witness:
  "map qe_id (ib_quarantined (inbox_run sample_dec sample_prs
      [IAppend ''m1'' ''{'', IConsume None, IQuarantine ''m1'' ''bad'' 1, IQuarantine ''m1'' ''bad'' 1] new_inbox)) = [''m1''] \<and>
   distinct (map qe_id (ib_quarantined (inbox_run sample_dec sample_prs
      [IAppend ''m1'' ''{'', IConsume None, IQuarantine ''m1'' ''bad'' 1, IQuarantine ''m1'' ''bad'' 1] new_inbox)))"
proof
  show "map qe_id (ib_quarantined (inbox_run sample_dec sample_prs
      [IAppend ''m1'' ''{'', IConsume None, IQuarantine ''m1'' ''bad'' 1, IQuarantine ''m1'' ''bad'' 1] new_inbox)) = [''m1'']"
    by (simp add: inbox_run_def inbox_defs new_inbox_def inbox_consume_def to_entry_def sample_dec_def Let_def)
  have "distinct (map ms_id ms @ map qe_id qs) \<Longrightarrow> distinct (map qe_id qs)" for ms qs by simp
  from this [OF inbox_quarantine_terminal [of "[IAppend ''m1'' ''{'', IConsume None, IQuarantine ''m1'' ''bad'' 1,
      IQuarantine ''m1'' ''bad'' 1]" sample_dec sample_prs]]
  show "distinct (map qe_id (ib_quarantined (inbox_run sample_dec sample_prs
      [IAppend ''m1'' ''{'', IConsume None, IQuarantine ''m1'' ''bad'' 1, IQuarantine ''m1'' ''bad'' 1] new_inbox)))"
    by simp
qed

text \<open>
  Also: a payload that decodes but does not parse makes \<open>consume\<close> raise after the messages before
  it in the batch were already claimed: they are returned by no \<open>consume\<close>, this one or a later
  one, and only \<open>reclaim\<close> delivers them again.
\<close>

theorem inbox_failed_parse_strands_batch:
  assumes "ib_messages s = ms @ m # rest" and "\<forall>x \<in> set ms. \<not> ms_claimed x" and "\<not> ms_claimed m"
    and "\<forall>x \<in> set ms. \<exists>d. to_entry dec prs (x\<lparr>ms_claimed := True, ms_count := ms_count x + 1\<rparr>) = Inr d"
    and "to_entry dec prs (m\<lparr>ms_claimed := True, ms_count := ms_count m + 1\<rparr>) = Inl err"
  shows "fst (inbox_consume dec prs None s) = Inl err \<and>
     unclaimed_ids (ib_messages (snd (inbox_consume dec prs None s))) = unclaimed_ids rest \<and>
     claimed_ids (ib_messages (snd (inbox_consume dec prs None s))) = map ms_id (ms @ [m]) @ claimed_ids rest"
proof -
  have "\<exists>ns. consume_loop dec prs None n (ms @ m # rest) = (Inl err, ns) \<and> unclaimed_ids ns = unclaimed_ids rest \<and>
      claimed_ids ns = map ms_id (ms @ [m]) @ claimed_ids rest" for n
    using assms(2,4)
  proof (induction ms arbitrary: n)
    case Nil
    with assms(3,5) show ?case by (simp add: Let_def unclaimed_ids_def claimed_ids_def)
  next
    case (Cons x ms)
    from Cons.IH [of "n + 1"] Cons.prems obtain ns
      where "consume_loop dec prs None (n + 1) (ms @ m # rest) = (Inl err, ns)" "unclaimed_ids ns = unclaimed_ids rest"
        "claimed_ids ns = map ms_id (ms @ [m]) @ claimed_ids rest" by auto
    moreover from Cons.prems obtain d where "to_entry dec prs (x\<lparr>ms_claimed := True, ms_count := ms_count x + 1\<rparr>) = Inr d"
      by auto
    ultimately show ?case using Cons.prems by (simp add: Let_def unclaimed_ids_def claimed_ids_def)
  qed
  from this [of 0] obtain ns where "consume_loop dec prs None 0 (ib_messages s) = (Inl err, ns)"
    "unclaimed_ids ns = unclaimed_ids rest" "claimed_ids ns = map ms_id (ms @ [m]) @ claimed_ids rest"
    using assms(1) by auto
  then show ?thesis by (simp add: inbox_consume_def)
qed

definition picky_prs :: "pyval \<Rightarrow> orca_error + data_point" where
  "picky_prs raw = (if raw = PStr ''new'' then Inl UnknownDataPointTypeError else sample_prs raw)"

theorem inbox_failed_parse_strands_batch_witness:
  "fst (inbox_consume sample_dec picky_prs None (inbox_run sample_dec picky_prs
      [IAppend ''m1'' ''x'', IAppend ''m2'' ''new''] new_inbox)) = Inl UnknownDataPointTypeError"
  by (rule conjunct1 [OF inbox_failed_parse_strands_batch [where rest = "[]"
        and ms = "[\<lparr>ms_id = ''m1'', ms_payload = ''x'', ms_count = 0, ms_claimed = False\<rparr>]"
        and m = "\<lparr>ms_id = ''m2'', ms_payload = ''new'', ms_count = 0, ms_claimed = False\<rparr>"]])
    (simp_all add: inbox_run_def append_serialized_def new_inbox_def to_entry_def sample_dec_def sample_prs_def picky_prs_def)

end
