(* ===== verification/Session_Lock.thy ===== *)
theory Session_Lock
  imports Orca_Prelude
begin

text \<open>
  The session lock: the port \<^verbatim>\<open>orcastork/ports/session_lock.py\<close> and its in-memory adapter
  \<^verbatim>\<open>orcastork/adapters/memory/lock.py\<close>, a lease with a time to live and a fencing epoch that
  only grows. The clock is explicit: every operation takes the current monotonic time, and the
  last section runs operations and the passing of time as one sequence of steps. The interface
  the manager relies on is the locale \<open>epoch_source\<close>.
\<close>

section \<open>State and operations\<close>

definition default_ttl_seconds :: seconds where
  "default_ttl_seconds = 30"

record lease =
  ls_epoch :: epoch
  ls_expires_at :: seconds

record lock_state =
  lk_counter :: epoch
  lk_lease :: "lease option"
  lk_complete :: bool

definition new_lock :: lock_state where
  "new_lock = \<lparr>lk_counter = 0, lk_lease = None, lk_complete = False\<rparr>"

definition is_live :: "seconds \<Rightarrow> lock_state \<Rightarrow> bool" where
  "is_live now s = (case lk_lease s of None \<Rightarrow> False | Some l \<Rightarrow> now < ls_expires_at l)"

definition lock_acquire :: "seconds \<Rightarrow> seconds \<Rightarrow> (lock_state, epoch) op" where
  "lock_acquire ttl now s =
     (if is_live now s then (Inl LockHeldError, s)
      else let e = lk_counter s + 1
           in (Inr e, s\<lparr>lk_counter := e, lk_lease := Some \<lparr>ls_epoch = e, ls_expires_at = now + ttl\<rparr>\<rparr>))"

definition lock_renew :: "seconds \<Rightarrow> seconds \<Rightarrow> epoch \<Rightarrow> (lock_state, unit) op" where
  "lock_renew ttl now e s =
     (case lk_lease s of
        None \<Rightarrow> (Inl StaleEpochError, s)
      | Some l \<Rightarrow>
          if ls_epoch l \<noteq> e \<or> \<not> is_live now s then (Inl StaleEpochError, s)
          else (Inr (), s\<lparr>lk_lease := Some (l\<lparr>ls_expires_at := now + ttl\<rparr>)\<rparr>))"

definition lock_release :: "epoch \<Rightarrow> (lock_state, unit) op" where
  "lock_release e s =
     (case lk_lease s of
        None \<Rightarrow> (Inr (), s)
      | Some l \<Rightarrow> if ls_epoch l = e then (Inr (), s\<lparr>lk_lease := None\<rparr>) else (Inr (), s))"

definition current_epoch :: "lock_state \<Rightarrow> epoch" where
  "current_epoch s = lk_counter s"

definition is_held :: "seconds \<Rightarrow> lock_state \<Rightarrow> bool" where
  "is_held now s = is_live now s"

definition mark_complete :: "epoch \<Rightarrow> (lock_state, unit) op" where
  "mark_complete e s =
     (if e < lk_counter s then (Inl StaleEpochError, s) else (Inr (), s\<lparr>lk_complete := True\<rparr>))"

definition is_complete :: "lock_state \<Rightarrow> bool" where
  "is_complete s = lk_complete s"

definition clear_complete :: "(lock_state, unit) op" where
  "clear_complete s = (Inr (), s\<lparr>lk_complete := False\<rparr>)"

section \<open>The interface: a source of fencing epochs\<close>

text \<open>
  \<open>perform\<close> runs one operation and returns the epoch it granted, if it granted one; \<open>top\<close> is the
  highest epoch minted so far and \<open>finish e\<close> the operation that finalises as the holder of \<open>e\<close>.
\<close>

primrec perform_all :: "('x \<Rightarrow> 's \<Rightarrow> (orca_error + epoch option) \<times> 's) \<Rightarrow> 'x list \<Rightarrow> 's \<Rightarrow> 's" where
  "perform_all perform [] s = s"
| "perform_all perform (x # xs) s = perform_all perform xs (snd (perform x s))"

primrec grants :: "('x \<Rightarrow> 's \<Rightarrow> (orca_error + epoch option) \<times> 's) \<Rightarrow> 'x list \<Rightarrow> 's \<Rightarrow> epoch list" where
  "grants perform [] s = []"
| "grants perform (x # xs) s =
     (case fst (perform x s) of
        Inr (Some e) \<Rightarrow> e # grants perform xs (snd (perform x s))
      | _ \<Rightarrow> grants perform xs (snd (perform x s)))"

locale epoch_source =
  fixes top :: "'s \<Rightarrow> epoch"
    and perform :: "'x \<Rightarrow> 's \<Rightarrow> (orca_error + epoch option) \<times> 's"
    and finish :: "epoch \<Rightarrow> 'x"
  assumes grant: "fst (perform x s) = Inr (Some e) \<Longrightarrow> top s < e \<and> top (snd (perform x s)) = e"
    and keep: "\<forall>e. fst (perform x s) \<noteq> Inr (Some e) \<Longrightarrow> top (snd (perform x s)) = top s"
    and finish_stale: "e < top s \<Longrightarrow> perform (finish e) s = (Inl StaleEpochError, s)"
begin

lemma top_mono: "top s \<le> top (snd (perform x s))"
  using grant [of x s] keep [of x s] by (cases "\<exists>e. fst (perform x s) = Inr (Some e)") fastforce+

lemma top_run_mono: "top s \<le> top (perform_all perform xs s)"
proof (induction xs arbitrary: s)
  case (Cons x xs)
  from top_mono [of s x] Cons.IH [of "snd (perform x s)"] show ?case by simp
qed simp

lemma grants_above: "e \<in> set (grants perform xs s) \<Longrightarrow> top s < e"
proof (induction xs arbitrary: s)
  case (Cons x xs)
  let ?t = "snd (perform x s)"
  show ?case
  proof (cases "\<exists>g. fst (perform x s) = Inr (Some g)")
    case True
    then obtain g where g: "fst (perform x s) = Inr (Some g)" by blast
    with Cons.prems consider "e = g" | "e \<in> set (grants perform xs ?t)" by auto
    then show ?thesis
    proof cases
      case 1
      with grant [OF g] show ?thesis by simp
    next
      case 2
      from Cons.IH [OF this] top_mono [of s x] show ?thesis by simp
    qed
  next
    case False
    with Cons.prems have "e \<in> set (grants perform xs ?t)" by (auto split: sum.splits option.splits)
    from Cons.IH [OF this] top_mono [of s x] show ?thesis by simp
  qed
qed simp

text \<open>Every grant is strictly above every earlier one.\<close>

lemma grants_increasing: "sorted_wrt (<) (grants perform xs s)"
proof (induction xs arbitrary: s)
  case (Cons x xs)
  show ?case
  proof (cases "\<exists>g. fst (perform x s) = Inr (Some g)")
    case True
    then obtain g where g: "fst (perform x s) = Inr (Some g)" by blast
    with grant [OF g] grants_above [of _ xs "snd (perform x s)"] show ?thesis by (simp add: Cons.IH)
  next
    case False
    then have "grants perform (x # xs) s = grants perform xs (snd (perform x s))"
      by (auto split: sum.splits option.splits)
    with Cons.IH show ?thesis by simp
  qed
qed simp

text \<open>A holder that was superseded can never finalise, whatever happens afterwards.\<close>

lemma superseded_never_finishes:
  assumes "fst (perform x s) = Inr (Some e)" and "e' < e"
  shows "perform (finish e') (perform_all perform ys (snd (perform x s))) =
     (Inl StaleEpochError, perform_all perform ys (snd (perform x s)))"
proof (rule finish_stale)
  have "e = top (snd (perform x s))" using grant [OF assms(1)] by simp
  also have "\<dots> \<le> top (perform_all perform ys (snd (perform x s)))" by (rule top_run_mono)
  finally show "e' < top (perform_all perform ys (snd (perform x s)))" using assms(2) by simp
qed

end

section \<open>The lock under a passing clock\<close>

datatype lock_op =
    LAcquire
  | LRenew epoch
  | LRelease epoch
  | LMark epoch
  | LClear
  | LTick seconds

type_synonym lock_world = "seconds \<times> lock_state"

definition on_lock :: "(lock_state, 'r) op \<Rightarrow> ('r \<Rightarrow> epoch option) \<Rightarrow> (lock_world, epoch option) op" where
  "on_lock m f w = (case m (snd w) of (Inl e, s') \<Rightarrow> (Inl e, (fst w, s')) | (Inr x, s') \<Rightarrow> (Inr (f x), (fst w, s')))"

fun lock_perform :: "seconds \<Rightarrow> lock_op \<Rightarrow> (lock_world, epoch option) op" where
  "lock_perform ttl LAcquire w = on_lock (lock_acquire ttl (fst w)) Some w"
| "lock_perform ttl (LRenew e) w = on_lock (lock_renew ttl (fst w) e) (\<lambda>_. None) w"
| "lock_perform ttl (LRelease e) w = on_lock (lock_release e) (\<lambda>_. None) w"
| "lock_perform ttl (LMark e) w = on_lock (mark_complete e) (\<lambda>_. None) w"
| "lock_perform ttl LClear w = on_lock clear_complete (\<lambda>_. None) w"
| "lock_perform ttl (LTick dt) w = (Inr None, (fst w + max 0 dt, snd w))"

lemmas lock_defs = lock_acquire_def lock_renew_def lock_release_def mark_complete_def clear_complete_def
  is_live_def on_lock_def

lemma lock_perform_grant:
  "fst (lock_perform ttl x w) = Inr (Some e) \<Longrightarrow>
     x = LAcquire \<and> e = lk_counter (snd w) + 1 \<and> lk_counter (snd (snd (lock_perform ttl x w))) = e"
  by (cases x) (auto simp: lock_defs Let_def split: option.splits if_splits)

lemma lock_perform_counter:
  "\<forall>e. fst (lock_perform ttl x w) \<noteq> Inr (Some e) \<Longrightarrow> lk_counter (snd (snd (lock_perform ttl x w))) = lk_counter (snd w)"
  by (cases x) (auto simp: lock_defs Let_def split: option.splits if_splits)

interpretation memory_lock: epoch_source "\<lambda>w. lk_counter (snd w)" "lock_perform ttl" LMark for ttl
proof
  fix x :: lock_op and w e
  assume "fst (lock_perform ttl x w) = Inr (Some e)"
  note g = lock_perform_grant [OF this]
  then have "lk_counter (snd w) < e" by simp
  with g show "lk_counter (snd w) < e \<and> lk_counter (snd (snd (lock_perform ttl x w))) = e" by blast
next
  fix x :: lock_op and w
  assume "\<forall>e. fst (lock_perform ttl x w) \<noteq> Inr (Some e)"
  then show "lk_counter (snd (snd (lock_perform ttl x w))) = lk_counter (snd w)" by (rule lock_perform_counter)
next
  fix e :: epoch and w :: lock_world
  assume "e < lk_counter (snd w)"
  then show "lock_perform ttl (LMark e) w = (Inl StaleEpochError, w)" by (cases w) (simp add: lock_defs)
qed

inductive lock_reach :: "seconds \<Rightarrow> lock_world \<Rightarrow> bool" for ttl where
  init: "lock_reach ttl (now, new_lock)"
| step: "lock_reach ttl w \<Longrightarrow> lock_reach ttl (snd (lock_perform ttl x w))"

text \<open>A lease is always that of the highest epoch, and never reaches further than one TTL ahead.\<close>

definition lock_inv :: "seconds \<Rightarrow> lock_world \<Rightarrow> bool" where
  "lock_inv ttl w \<longleftrightarrow> 0 \<le> lk_counter (snd w) \<and>
     (case lk_lease (snd w) of None \<Rightarrow> True
      | Some l \<Rightarrow> ls_epoch l = lk_counter (snd w) \<and> ls_expires_at l \<le> fst w + ttl)"

lemma lock_inv_step: "lock_inv ttl w \<Longrightarrow> lock_inv ttl (snd (lock_perform ttl x w))"
  by (cases x) (auto simp: lock_inv_def lock_defs Let_def split: option.splits)

lemma lock_reach_inv: "lock_reach ttl w \<Longrightarrow> lock_inv ttl w"
  by (induction rule: lock_reach.induct) (simp_all add: lock_inv_step, simp add: lock_inv_def new_lock_def)

definition holds_lock :: "epoch \<Rightarrow> seconds \<Rightarrow> lock_world \<Rightarrow> bool" where
  "holds_lock e until w \<longleftrightarrow>
     (\<exists>l. lk_lease (snd w) = Some l \<and> ls_epoch l = e \<and> until \<le> ls_expires_at l)"

lemma holder_kept_step:
  assumes "holds_lock e until w" and "lock_inv ttl w" and "x \<noteq> LRelease e" and "fst w < until"
  shows "holds_lock e until (snd (lock_perform ttl x w)) \<and> (\<forall>g. fst (lock_perform ttl x w) \<noteq> Inr (Some g))"
proof -
  from assms(1) obtain l where "lk_lease (snd w) = Some l" "ls_epoch l = e" "until \<le> ls_expires_at l"
    unfolding holds_lock_def by blast
  with assms(2-4) show ?thesis
    by (cases x) (auto simp: holds_lock_def lock_inv_def lock_defs Let_def)
qed

lemma clock_monotone: "fst w \<le> fst (snd (lock_perform ttl x w))"
  by (cases x) (auto simp: lock_defs Let_def split: option.splits)

lemma clock_run_monotone: "fst w \<le> fst (perform_all (lock_perform ttl) xs w)"
proof (induction xs arbitrary: w)
  case (Cons x xs)
  show ?case using clock_monotone [of w ttl x] Cons.IH [of "snd (lock_perform ttl x w)"] by simp
qed simp

lemma holder_kept:
  "holds_lock e until w \<Longrightarrow> lock_inv ttl w \<Longrightarrow> LRelease e \<notin> set xs \<Longrightarrow>
     fst (perform_all (lock_perform ttl) xs w) < until \<Longrightarrow>
     grants (lock_perform ttl) xs w = [] \<and> holds_lock e until (perform_all (lock_perform ttl) xs w)"
proof (induction xs arbitrary: w)
  case (Cons x xs)
  let ?w = "snd (lock_perform ttl x w)"
  have "fst w < until" using Cons.prems(4) clock_run_monotone [of w ttl "x # xs"] by simp
  from holder_kept_step [OF Cons.prems(1,2) _ this, of x] Cons.prems(3)
  have h: "holds_lock e until ?w" and n: "\<forall>g. fst (lock_perform ttl x w) \<noteq> Inr (Some g)" by auto
  from n have "grants (lock_perform ttl) (x # xs) w = grants (lock_perform ttl) xs ?w"
    by (auto split: sum.splits option.splits)
  with Cons.IH [OF h lock_inv_step [OF Cons.prems(2)]] Cons.prems(3,4) show ?case by simp
qed simp

section \<open>Properties\<close>

text \<open>
  Also: every sequence of acquisitions, renewals, releases, completions and clock advances grants
  strictly increasing epochs, so no epoch is ever granted twice, expiry and takeover included.
\<close>

theorem lock_epochs_increase: "sorted_wrt (<) (grants (lock_perform ttl) xs w)"
  by (rule memory_lock.grants_increasing)



text \<open>
  Also: liveness of takeover. In any reachable state, once a full time to live has passed with
  nobody acting, an acquisition succeeds and mints the next epoch.
\<close>

theorem lock_takeover_after_ttl:
  assumes "lock_reach ttl w" and "0 \<le> ttl" and "ttl \<le> dt"
  shows "fst (lock_perform ttl LAcquire (snd (lock_perform ttl (LTick dt) w))) = Inr (Some (lk_counter (snd w) + 1))"
  using lock_reach_inv [OF assms(1)] assms(2,3)
  by (auto simp: lock_inv_def lock_defs Let_def split: option.splits)

theorem lock_takeover_after_ttl_witness:
  "fst (lock_perform 30 LAcquire (snd (lock_perform 30 (LTick 31) (snd (lock_perform 30 LAcquire (0, new_lock)))))) =
     Inr (Some (lk_counter (snd (snd (lock_perform 30 LAcquire (0, new_lock)))) + 1))"
  by (rule lock_takeover_after_ttl [OF lock_reach.step [OF lock_reach.init]]) simp_all

text \<open>
  C6: a superseded holder can never finalise the session: after a later epoch was granted,
  marking the session complete with a lower epoch raises \<open>StaleEpochError\<close> and changes nothing,
  whatever happens in between.
\<close>

theorem lock_superseded_cannot_complete:
  assumes "fst (lock_perform ttl x w) = Inr (Some e)" and "e' < e"
  shows "lock_perform ttl (LMark e') (perform_all (lock_perform ttl) ys (snd (lock_perform ttl x w))) =
     (Inl StaleEpochError, perform_all (lock_perform ttl) ys (snd (lock_perform ttl x w)))"
  by (rule memory_lock.superseded_never_finishes [OF assms])

theorem lock_superseded_cannot_complete_witness:
  "fst (lock_perform 30 (LMark 1) (perform_all (lock_perform 30) [LTick 5, LRelease 2]
     (snd (lock_perform 30 LAcquire (40, \<lparr>lk_counter = 1, lk_lease = None, lk_complete = False\<rparr>))))) = Inl StaleEpochError"
  by (subst lock_superseded_cannot_complete [where e = 2]) (simp_all add: lock_defs Let_def)

end
