(* ===== verification/Durable.thy ===== *)
theory Durable
  imports DataPoints
begin

text \<open>
  Durable outputs: the port \<^verbatim>\<open>orcastork/ports/durable_store.py\<close>, its in-memory adapter
  \<^verbatim>\<open>orcastork/adapters/memory/durable_store.py\<close> and the aggregator's write helper
  \<^verbatim>\<open>orcastork/aggregation/helpers.py\<close>. The helper's upsert reads in one step and writes in a
  later one, so other writers can act in between: it is modelled as these two steps.
\<close>

section \<open>The store\<close>

type_synonym document = "(string \<times> pyval) list"

record stored_document =
  sd_document :: document
  sd_version :: int
  sd_status :: "string option"
  sd_updated_at :: "instant option"

record durable_state =
  du_documents :: "string \<times> string \<rightharpoonup> stored_document"
  du_sets :: "string \<times> string \<times> string \<rightharpoonup> string list"
  du_contributions :: "(session_id \<times> operator_id) list"
  du_max_epoch :: "string \<rightharpoonup> epoch"

definition new_durable :: durable_state where
  "new_durable = \<lparr>du_documents = Map.empty, du_sets = Map.empty, du_contributions = [], du_max_epoch = Map.empty\<rparr>"

definition key_scope :: "string \<Rightarrow> string \<Rightarrow> string" where
  "key_scope table key = table @ [CHR 0x00] @ key"

definition contribution_scope :: "session_id \<Rightarrow> string" where
  "contribution_scope sid = ''contribution:'' @ sid"

definition scope_epoch :: "string \<Rightarrow> durable_state \<Rightarrow> epoch" where
  "scope_epoch scope s = (case du_max_epoch s scope of None \<Rightarrow> 0 | Some e \<Rightarrow> e)"

definition durable_guard_epoch :: "string \<Rightarrow> epoch \<Rightarrow> (durable_state, unit) op" where
  "durable_guard_epoch scope e s =
     (if e < scope_epoch scope s then (Inl StaleEpochError, s)
      else (Inr (), s\<lparr>du_max_epoch := (du_max_epoch s)(scope \<mapsto> e)\<rparr>))"

definition durable_read :: "string \<Rightarrow> string \<Rightarrow> durable_state \<Rightarrow> stored_document option" where
  "durable_read table key s = du_documents s (table, key)"

definition document_version :: "stored_document option \<Rightarrow> int" where
  "document_version d = (case d of None \<Rightarrow> 0 | Some stored \<Rightarrow> sd_version stored)"

definition durable_upsert ::
  "string \<Rightarrow> string \<Rightarrow> document \<Rightarrow> int \<Rightarrow> epoch \<Rightarrow> string option \<Rightarrow> instant option \<Rightarrow> (durable_state, int) op" where
  "durable_upsert table key doc expected e status updated = bindE (durable_guard_epoch (key_scope table key) e) (\<lambda>_ s.
     let current_version = document_version (du_documents s (table, key)) in
     if current_version \<noteq> expected then (Inl OptimisticConcurrencyError, s)
     else (Inr (current_version + 1), s\<lparr>du_documents := (du_documents s)((table, key) \<mapsto>
        \<lparr>sd_document = doc, sd_version = current_version + 1, sd_status = status, sd_updated_at = updated\<rparr>)\<rparr>))"

definition add_to_set :: "string \<Rightarrow> string \<Rightarrow> string \<Rightarrow> string \<Rightarrow> epoch \<Rightarrow> (durable_state, nat) op" where
  "add_to_set table key fld v e = bindE (durable_guard_epoch (key_scope table key) e) (\<lambda>_ s.
     let members = List.insert v (case du_sets s (table, key, fld) of None \<Rightarrow> [] | Some ms \<Rightarrow> ms)
     in (Inr (length members), s\<lparr>du_sets := (du_sets s)((table, key, fld) \<mapsto> members)\<rparr>))"

definition mark_contribution :: "session_id \<Rightarrow> operator_id \<Rightarrow> epoch \<Rightarrow> (durable_state, bool) op" where
  "mark_contribution sid oid e = bindE (durable_guard_epoch (contribution_scope sid) e) (\<lambda>_ s.
     if (sid, oid) \<in> set (du_contributions s) then (Inr False, s)
     else (Inr True, s\<lparr>du_contributions := (sid, oid) # du_contributions s\<rparr>))"

definition is_contribution_marked :: "session_id \<Rightarrow> operator_id \<Rightarrow> durable_state \<Rightarrow> bool" where
  "is_contribution_marked sid oid s \<longleftrightarrow> (sid, oid) \<in> set (du_contributions s)"

definition clear_contribution :: "session_id \<Rightarrow> operator_id \<Rightarrow> (durable_state, unit) op" where
  "clear_contribution sid oid s = (Inr (), s\<lparr>du_contributions := removeAll (sid, oid) (du_contributions s)\<rparr>)"

section \<open>The aggregator's helper\<close>

datatype aggregate_status = IN_PROGRESS | FINAL

definition status_value :: "aggregate_status \<Rightarrow> string" where
  "status_value st = (case st of IN_PROGRESS \<Rightarrow> ''in_progress'' | FINAL \<Rightarrow> ''final'')"

text \<open>
  The first half of \<^verbatim>\<open>upsert\<close>: it reads the record and decides. \<open>Inl v\<close> returns the version
  unchanged, \<open>Inr (v, st)\<close> goes on to write with expected version \<open>v\<close> and status \<open>st\<close>.
\<close>

definition helper_decide :: "bool \<Rightarrow> stored_document option \<Rightarrow> int + (int \<times> aggregate_status)" where
  "helper_decide is_final existing =
     (let expected = document_version existing in
      if \<not> is_final \<and> (case existing of None \<Rightarrow> False | Some d \<Rightarrow> sd_status d = Some (status_value FINAL))
      then Inl expected
      else Inr (expected, if is_final then FINAL else IN_PROGRESS))"

definition helper_write ::
  "int + (int \<times> aggregate_status) \<Rightarrow> string \<Rightarrow> string \<Rightarrow> document \<Rightarrow> epoch \<Rightarrow> instant \<Rightarrow> (durable_state, int) op" where
  "helper_write decision table key doc e now =
     (case decision of
        Inl v \<Rightarrow> returnE v
      | Inr (expected, st) \<Rightarrow> durable_upsert table key doc expected e (Some (status_value st)) (Some now))"

definition helper_upsert ::
  "bool \<Rightarrow> string \<Rightarrow> string \<Rightarrow> document \<Rightarrow> epoch \<Rightarrow> instant \<Rightarrow> (durable_state, int) op" where
  "helper_upsert is_final table key doc e now s =
     helper_write (helper_decide is_final (durable_read table key s)) table key doc e now s"

section \<open>Operations of one document\<close>

datatype durable_op =
    DUpsert string string document int "string option" "instant option"
  | DAddToSet string string string string
  | DMark session_id operator_id
  | DClear session_id operator_id

fun durable_act :: "epoch \<Rightarrow> durable_op \<Rightarrow> (durable_state, unit) op" where
  "durable_act e (DUpsert t k doc v st up) s = (case durable_upsert t k doc v e st up s of (Inl x, s') \<Rightarrow> (Inl x, s') | (Inr _, s') \<Rightarrow> (Inr (), s'))"
| "durable_act e (DAddToSet t k f v) s = (case add_to_set t k f v e s of (Inl x, s') \<Rightarrow> (Inl x, s') | (Inr _, s') \<Rightarrow> (Inr (), s'))"
| "durable_act e (DMark sid oid) s = (case mark_contribution sid oid e s of (Inl x, s') \<Rightarrow> (Inl x, s') | (Inr _, s') \<Rightarrow> (Inr (), s'))"
| "durable_act e (DClear sid oid) s = clear_contribution sid oid s"

text \<open>The two guarded writes of one key as one action.\<close>

datatype key_write =
    KUpsert document int "string option" "instant option"
  | KAddToSet string string

definition key_write_op :: "string \<Rightarrow> string \<Rightarrow> key_write \<Rightarrow> durable_op" where
  "key_write_op t k w = (case w of KUpsert doc v st up \<Rightarrow> DUpsert t k doc v st up | KAddToSet f v \<Rightarrow> DAddToSet t k f v)"

lemmas durable_defs = durable_upsert_def add_to_set_def mark_contribution_def clear_contribution_def
  durable_guard_epoch_def bindE_def

interpretation durable_fence: fenced_writer "scope_epoch (key_scope t k)" "\<lambda>e w. durable_act e (key_write_op t k w)" for t k
  by unfold_locales
    (auto simp: key_write_op_def durable_defs scope_epoch_def Let_def split: key_write.splits option.splits)

section \<open>Versions\<close>

lemma durable_act_document:
  fixes k :: "string \<times> string"
  shows "du_documents (snd (durable_act e x s)) k = du_documents s k \<or>
     document_version (du_documents (snd (durable_act e x s)) k) = document_version (du_documents s k) + 1"
  by (cases x) (auto simp: durable_defs document_version_def Let_def)

lemma durable_run_document:
  fixes k :: "string \<times> string"
  shows "document_version (du_documents s k) \<le> document_version (du_documents (guarded_run durable_act ps s) k) \<and>
     (document_version (du_documents (guarded_run durable_act ps s) k) = document_version (du_documents s k) \<longrightarrow>
        du_documents (guarded_run durable_act ps s) k = du_documents s k)"
proof (induction ps arbitrary: s)
  case (Cons p ps)
  let ?t = "snd (durable_act (fst p) (snd p) s)"
  have "du_documents ?t k = du_documents s k \<or> document_version (du_documents ?t k) = document_version (du_documents s k) + 1"
    by (rule durable_act_document)
  with Cons.IH [of ?t] show ?case by auto
qed simp

lemma durable_upsert_ok:
  "durable_upsert t k doc v e st up s = (Inr n, s') \<Longrightarrow>
     n = v + 1 \<and> document_version (du_documents s (t, k)) = v \<and>
     du_documents s' = (du_documents s)((t, k) \<mapsto> \<lparr>sd_document = doc, sd_version = v + 1, sd_status = st, sd_updated_at = up\<rparr>)"
  by (auto simp: durable_defs Let_def split: if_splits)

lemma durable_upsert_wrong_version:
  "document_version (du_documents s (t, k)) \<noteq> v \<Longrightarrow>
     fst (durable_upsert t k doc v e st up s) \<in> {Inl OptimisticConcurrencyError, Inl StaleEpochError} \<and>
     du_documents (snd (durable_upsert t k doc v e st up s)) = du_documents s"
  by (auto simp: durable_defs Let_def)

section \<open>Properties\<close>

text \<open>
  Also: no lost update. When two writers read the same version of a record and one of them wrote
  it, the other's upsert is refused, after any other operations of the store, and leaves every
  document as it is.
\<close>

theorem durable_no_lost_update:
  assumes "durable_upsert t k doc v e st up s = (Inr n, s')"
  shows "fst (durable_upsert t k doc' v e' st' up' (guarded_run durable_act ps s'))
      \<in> {Inl OptimisticConcurrencyError, Inl StaleEpochError} \<and>
    du_documents (snd (durable_upsert t k doc' v e' st' up' (guarded_run durable_act ps s'))) =
      du_documents (guarded_run durable_act ps s')"
proof (rule durable_upsert_wrong_version)
  from durable_upsert_ok [OF assms] have "document_version (du_documents s' (t, k)) = v + 1"
    by (simp add: document_version_def)
  with durable_run_document [of s' "(t, k)" ps]
  show "document_version (du_documents (guarded_run durable_act ps s') (t, k)) \<noteq> v" by auto
qed

theorem durable_no_lost_update_witness:
  "fst (durable_upsert ''t'' ''k'' [] 0 1 None None
     (guarded_run durable_act [(1, DMark ''s'' ''agg'')] (snd (durable_upsert ''t'' ''k'' [(''n'', PInt 1)] 0 1 None None new_durable))))
   \<in> {Inl OptimisticConcurrencyError, Inl StaleEpochError}"
  by (rule conjunct1 [OF durable_no_lost_update [where n = 1 and s = new_durable and v = 0 and e = 1]])
    (auto simp: durable_defs new_durable_def scope_epoch_def document_version_def)

text \<open>
  C9: a final record is terminal for interim refreshes. However the read and the write of an
  interim helper call are interleaved with other operations, the write never replaces a record
  whose status is final.
\<close>

theorem interim_never_overwrites_final:
  assumes "durable_read t k (guarded_run durable_act ps s) = Some d" and "sd_status d = Some (status_value FINAL)"
  shows "durable_read t k (snd (helper_write (helper_decide False (durable_read t k s)) t k doc e now
      (guarded_run durable_act ps s))) = Some d"
proof -
  let ?s' = "guarded_run durable_act ps s" and ?r = "durable_read t k s"
  show ?thesis
  proof (cases "helper_decide False ?r")
    case (Inl v)
    with assms(1) show ?thesis by (simp add: helper_write_def returnE_def)
  next
    case (Inr p)
    then have p: "p = (document_version ?r, IN_PROGRESS)" and live: "?r \<noteq> Some d"
      using assms(2) by (auto simp: helper_decide_def Let_def split: option.splits if_splits)
    have "document_version (du_documents ?s' (t, k)) \<noteq> document_version ?r"
      using durable_run_document [of s "(t, k)" ps] live assms(1) by (auto simp: durable_read_def)
    from durable_upsert_wrong_version [OF this] Inr p assms(1) show ?thesis
      by (simp add: helper_write_def durable_read_def)
  qed
qed

theorem interim_never_overwrites_final_witness:
  "durable_read ''t'' ''k'' (snd (helper_write (helper_decide False (durable_read ''t'' ''k'' new_durable)) ''t'' ''k'' [] 2 7
      (guarded_run durable_act [(1, DUpsert ''t'' ''k'' [] 0 (Some ''final'') None)] new_durable))) =
   Some \<lparr>sd_document = [], sd_version = 1, sd_status = Some ''final'', sd_updated_at = None\<rparr>"
  by (rule interim_never_overwrites_final)
    (simp_all add: durable_defs new_durable_def scope_epoch_def document_version_def durable_read_def status_value_def)

text \<open>
  Also: both write paths of one key are fenced together: once a document upsert or a set-add of
  the key was accepted at an epoch, neither of them is accepted at a lower epoch again.
\<close>

theorem durable_key_fenced:
  assumes "scope_epoch (key_scope t k) s \<le> e" and "e' < e"
  shows "durable_act e' (key_write_op t k w') (guarded_run (\<lambda>e w. durable_act e (key_write_op t k w)) ps
        (snd (durable_act e (key_write_op t k w) s))) =
     (Inl StaleEpochError, guarded_run (\<lambda>e w. durable_act e (key_write_op t k w)) ps
        (snd (durable_act e (key_write_op t k w) s)))"
  by (rule durable_fence.fenced_forever [OF assms])

theorem durable_key_fenced_witness:
  "fst (durable_act 1 (key_write_op ''t'' ''k'' (KUpsert [] 0 None None))
     (guarded_run (\<lambda>e w. durable_act e (key_write_op ''t'' ''k'' w)) []
        (snd (durable_act 2 (key_write_op ''t'' ''k'' (KAddToSet ''f'' ''v'')) new_durable)))) = Inl StaleEpochError"
proof -
  have "scope_epoch (key_scope ''t'' ''k'') new_durable \<le> 2" by (simp add: scope_epoch_def new_durable_def)
  from durable_key_fenced [OF this, of 1 "KUpsert [] 0 None None" "[]" "KAddToSet ''f'' ''v''"]
  show ?thesis by simp
qed

text \<open>
  C10: an aggregator contributes at most once per session. After a contribution was recorded, no
  further marking is reported as new, by any epoch and after any operations, until the marker is
  cleared for a re-open.
\<close>

theorem contribution_at_most_once:
  assumes "fst (mark_contribution sid oid e s) = Inr b"
    and "\<forall>p \<in> set ps. snd p \<noteq> DClear sid oid"
  shows "fst (mark_contribution sid oid e' (guarded_run durable_act ps (snd (mark_contribution sid oid e s)))) \<noteq> Inr True"
proof -
  have "(sid, oid) \<in> set (du_contributions (guarded_run durable_act qs t))"
    if "(sid, oid) \<in> set (du_contributions t)" "\<forall>p \<in> set qs. snd p \<noteq> DClear sid oid" for qs t
    using that
  proof (induction qs arbitrary: t)
    case (Cons q qs)
    then have "snd q \<noteq> DClear sid oid" by simp
    then have "(sid, oid) \<in> set (du_contributions (snd (durable_act (fst q) (snd q) t)))"
      using Cons.prems(1) by (cases "snd q") (auto simp: durable_defs Let_def)
    with Cons show ?case by simp
  qed simp
  moreover have "(sid, oid) \<in> set (du_contributions (snd (mark_contribution sid oid e s)))"
    using assms(1) by (auto simp: durable_defs split: if_splits)
  ultimately show ?thesis using assms(2) by (simp add: durable_defs)
qed

theorem contribution_at_most_once_witness:
  "fst (mark_contribution ''s'' ''agg'' 2 (guarded_run durable_act [(1, DMark ''s'' ''other'')]
     (snd (mark_contribution ''s'' ''agg'' 1 new_durable)))) \<noteq> Inr True"
  by (rule contribution_at_most_once [where b = True])
    (simp_all add: durable_defs new_durable_def scope_epoch_def)

end
