(* ===== verification/Archive.thy ===== *)
theory Archive
  imports DataPoints
begin

text \<open>
  The two append-only trails of a session: the audit log, \<^verbatim>\<open>orcastork/audit/models.py\<close> with
  the sink \<^verbatim>\<open>orcastork/adapters/memory/audit_sink.py\<close>, and the data point archive,
  \<^verbatim>\<open>orcastork/archive/models.py\<close> and \<^verbatim>\<open>sealing.py\<close> with the adapter
  \<^verbatim>\<open>orcastork/adapters/memory/datapoint_archive.py\<close>. A record here is the state the adapters
  keep of one session. The cipher is the injected port; JSON encoding, SHA-256 and the textual
  normal form of a value are the arguments of \<open>codec\<close>. The random entry ids are left out.
\<close>

section \<open>The audit log\<close>

datatype audit_kind =
    DATA_POINT_ADDED
  | OPERATOR_INVOKED
  | CAPABILITY_ACTIVATED
  | CAPABILITY_INVOKED
  | CAPABILITY_ACTIVATION_FAILED
  | INBOX_ENTRY_QUARANTINED
  | SESSION_PARKED
  | FLOW_DRIFT_DETECTED
  | DATA_POINTS_COALESCED

datatype operator_outcome = SUCCEEDED | FAILED | DEAD_LETTERED | SKIPPED

record data_point_audit_info =
  da_type :: string
  da_summary :: string

record operator_audit_info =
  oa_outcome :: operator_outcome
  oa_run_count :: int
  oa_attempt :: int
  oa_run_seconds :: "seconds option"
  oa_error :: "string option"

record capability_audit_info =
  ca_capability :: capability_id
  ca_action :: "string option"
  ca_parameters :: "(string \<times> string) list"
  ca_error :: "string option"

record inbox_audit_info =
  ia_entry :: string
  ia_reason :: string
  ia_delivery_count :: int

record flow_audit_info =
  fa_flow_name :: string
  fa_stored_fingerprint :: string
  fa_current_fingerprint :: string

record audit_entry =
  ae_epoch :: epoch
  ae_timestamp :: instant
  ae_operator_id :: "operator_id option"
  ae_kind :: audit_kind
  ae_data_point :: "data_point_audit_info option"
  ae_operator :: "operator_audit_info option"
  ae_capability :: "capability_audit_info option"
  ae_inbox :: "inbox_audit_info option"
  ae_flow :: "flow_audit_info option"

definition audit_row :: "epoch \<Rightarrow> instant \<Rightarrow> audit_kind \<Rightarrow> audit_entry" where
  "audit_row e now k = \<lparr>ae_epoch = e, ae_timestamp = now, ae_operator_id = None, ae_kind = k, ae_data_point = None,
     ae_operator = None, ae_capability = None, ae_inbox = None, ae_flow = None\<rparr>"

record audit_state =
  au_committed :: "audit_entry list"
  au_max_epoch :: epoch

definition new_audit :: audit_state where
  "new_audit = \<lparr>au_committed = [], au_max_epoch = 0\<rparr>"

definition audit_append :: "audit_entry \<Rightarrow> (audit_state, unit) op" where
  "audit_append entry s =
     (if ae_epoch entry < au_max_epoch s then (Inl StaleEpochError, s)
      else (Inr (), s\<lparr>au_max_epoch := ae_epoch entry, au_committed := au_committed s @ [entry]\<rparr>))"

fun audit_append_many :: "audit_entry list \<Rightarrow> (audit_state, unit) op" where
  "audit_append_many [] s = (Inr (), s)"
| "audit_append_many (entry # entries) s = bindE (audit_append entry) (\<lambda>_. audit_append_many entries) s"

definition replay :: "audit_state \<Rightarrow> audit_entry list" where
  "replay s = au_committed s"

section \<open>The archived document\<close>

record archived =
  ar_session :: session_id
  ar_namespace :: namespace_id
  ar_type :: string
  ar_value_hash :: string
  ar_value :: pyval
  ar_retrieved_by :: operator_id
  ar_first :: instant
  ar_last :: instant
  ar_is_pii :: bool
  ar_epoch :: epoch

text \<open>\<^verbatim>\<open>model_dump(mode='json')\<close> on the values of the model.\<close>

fun json_dump :: "pyval \<Rightarrow> pyval" where
  "json_dump (PList xs) = PList (map json_dump xs)"
| "json_dump (PTuple xs) = PList (map json_dump xs)"
| "json_dump (PDict kvs) = PDict (map (\<lambda>(k, v). (k, json_dump v)) kvs)"
| "json_dump (PSet xs) = PList (map PStr xs)"
| "json_dump v = v"

definition archived_of :: "data_point \<Rightarrow> session_id \<Rightarrow> namespace_id \<Rightarrow> epoch \<Rightarrow> archived" where
  "archived_of d sid ns e = \<lparr>ar_session = sid, ar_namespace = ns, ar_type = dp_type d, ar_value_hash = [],
     ar_value = json_dump (dp_value d), ar_retrieved_by = retrieved_by d, ar_first = first_retrieved d,
     ar_last = last_retrieved d, ar_is_pii = is_pii d, ar_epoch = e\<rparr>"

section \<open>Sealing\<close>

record value_cipher =
  encrypt :: "string \<Rightarrow> string"
  decrypt :: "string \<Rightarrow> string"
  mac :: "string \<Rightarrow> string"

record codec =
  dumps :: "pyval \<Rightarrow> string"
  loads :: "string \<Rightarrow> pyval"
  sha256 :: "string \<Rightarrow> string"
  canonical_text :: "pyval \<Rightarrow> string"

definition null_cipher :: "codec \<Rightarrow> value_cipher" where
  "null_cipher k = \<lparr>encrypt = (\<lambda>x. x), decrypt = (\<lambda>x. x), mac = sha256 k\<rparr>"

definition value_hash :: "codec \<Rightarrow> value_cipher \<Rightarrow> archived \<Rightarrow> string" where
  "value_hash k c entry =
     (let canonical = canonical_text k (ar_value entry)
      in if ar_is_pii entry then mac c (ar_session entry @ [CHR 0x00] @ canonical) else sha256 k canonical)"

definition seal :: "codec \<Rightarrow> value_cipher \<Rightarrow> archived \<Rightarrow> archived" where
  "seal k c entry =
     (if \<not> ar_is_pii entry then entry else entry\<lparr>ar_value := PStr (encrypt c (dumps k (ar_value entry)))\<rparr>)"

definition unseal :: "codec \<Rightarrow> value_cipher \<Rightarrow> archived \<Rightarrow> orca_error + archived" where
  "unseal k c entry =
     (if \<not> ar_is_pii entry then Inr entry
      else case ar_value entry of
        PStr t \<Rightarrow> Inr (entry\<lparr>ar_value := loads k (decrypt c t)\<rparr>)
      | _ \<Rightarrow> Inl (OtherError ''TypeError''))"

section \<open>The archive\<close>

type_synonym archive_key = "string \<times> string"

record archive_state =
  arc_buffer :: "archived list"
  arc_committed :: "(archive_key \<times> archived) list"
  arc_max_epoch :: epoch

definition new_archive :: archive_state where
  "new_archive = \<lparr>arc_buffer = [], arc_committed = [], arc_max_epoch = 0\<rparr>"

definition archive_key_of :: "archived \<Rightarrow> archive_key" where
  "archive_key_of a = (ar_type a, ar_value_hash a)"

definition advance_row :: "archived \<Rightarrow> archived \<Rightarrow> archived" where
  "advance_row existing sealed =
     existing\<lparr>ar_last := max (ar_last existing) (ar_last sealed), ar_epoch := max (ar_epoch existing) (ar_epoch sealed)\<rparr>"

definition fold_in :: "archived \<Rightarrow> (archive_key \<times> archived) list \<Rightarrow> (archive_key \<times> archived) list" where
  "fold_in sealed folded =
     (case map_of folded (archive_key_of sealed) of
        None \<Rightarrow> AList.update (archive_key_of sealed) sealed folded
      | Some existing \<Rightarrow> AList.update (archive_key_of sealed) (advance_row existing sealed) folded)"

definition archive_one :: "codec \<Rightarrow> value_cipher \<Rightarrow> archived \<Rightarrow> (archive_state, unit) op" where
  "archive_one k c entry s =
     (if ar_epoch entry < arc_max_epoch s then (Inl StaleEpochError, s)
      else (Inr (), s\<lparr>arc_max_epoch := ar_epoch entry,
              arc_buffer := arc_buffer s @ [(seal k c entry)\<lparr>ar_value_hash := value_hash k c entry\<rparr>]\<rparr>))"

fun archive_many :: "codec \<Rightarrow> value_cipher \<Rightarrow> archived list \<Rightarrow> (archive_state, unit) op" where
  "archive_many k c [] s = (Inr (), s)"
| "archive_many k c (entry # entries) s = bindE (archive_one k c entry) (\<lambda>_. archive_many k c entries) s"

definition archive_flush :: "archive_state \<Rightarrow> nat \<times> archive_state" where
  "archive_flush s =
     (length (arc_buffer s), s\<lparr>arc_committed := fold fold_in (arc_buffer s) (arc_committed s), arc_buffer := []\<rparr>)"

text \<open>A retention of \<open>None\<close>, or no clock, keeps every row.\<close>

definition row_live :: "(instant \<times> int) option \<Rightarrow> archived \<Rightarrow> bool" where
  "row_live retention a = (case retention of None \<Rightarrow> True | Some (now, keep) \<Rightarrow> now - ar_last a \<le> keep)"

definition archive_read ::
  "codec \<Rightarrow> value_cipher \<Rightarrow> (instant \<times> int) option \<Rightarrow> archive_state \<Rightarrow> orca_error + archived list" where
  "archive_read k c retention s =
     collect (unseal k c) (filter (row_live retention) (map snd (fold fold_in (arc_buffer s) (arc_committed s))))"

definition buffered_count :: "archive_state \<Rightarrow> nat" where
  "buffered_count s = length (arc_buffer s)"


section \<open>The audit log is the accepted appends\<close>

definition audit_as :: "epoch \<Rightarrow> audit_entry \<Rightarrow> (audit_state, unit) op" where
  "audit_as e entry = audit_append (entry\<lparr>ae_epoch := e\<rparr>)"

interpretation audit_fence: fenced_writer au_max_epoch audit_as
  by unfold_locales (auto simp: audit_as_def audit_append_def)

lemma audit_run_committed:
  "au_committed (guarded_run audit_as ps s) =
     au_committed s @ map (\<lambda>p. (snd p)\<lparr>ae_epoch := fst p\<rparr>) (accepted_by au_max_epoch audit_as ps s)"
  by (induction ps arbitrary: s) (auto simp: audit_as_def audit_append_def)

text \<open>
  Also: after any interleaving of appends by writers of any epochs, a replay returns what was there
  followed by exactly the entries whose append was not refused, in append order, and their epochs
  never decrease: a fenced writer leaves no entry and nothing is lost or reordered.
\<close>

theorem audit_trail_is_accepted_appends:
  "replay (guarded_run audit_as ps s) =
     replay s @ map (\<lambda>p. (snd p)\<lparr>ae_epoch := fst p\<rparr>) (accepted_by au_max_epoch audit_as ps s) \<and>
   sorted (map fst (accepted_by au_max_epoch audit_as ps s))"
  using audit_fence.accepted_sorted by (simp add: replay_def audit_run_committed)

lemma audit_append_many_same:
  "\<forall>x \<in> set entries. ae_epoch x = e \<Longrightarrow> au_max_epoch s \<le> e \<Longrightarrow>
     audit_append_many entries s =
       (Inr (), s\<lparr>au_max_epoch := (if entries = [] then au_max_epoch s else e), au_committed := au_committed s @ entries\<rparr>)"
  by (induction entries arbitrary: s) (auto simp: audit_append_def)

text \<open>
  Also: a batch of one writer's entries is appended whole or not at all: it is refused with
  \<^verbatim>\<open>StaleEpochError\<close> and writes nothing when the writer is behind, and otherwise leaves what
  appending its entries one by one leaves.
\<close>

theorem audit_batch_atomic:
  assumes "\<forall>x \<in> set entries. ae_epoch x = e" and "entries \<noteq> []"
  shows "audit_append_many entries s =
     (if e < au_max_epoch s then (Inl StaleEpochError, s)
      else (Inr (), s\<lparr>au_max_epoch := e, au_committed := au_committed s @ entries\<rparr>))"
proof (cases "e < au_max_epoch s")
  case True
  with assms show ?thesis by (cases entries) (simp_all add: audit_append_def)
next
  case False
  with audit_append_many_same [OF assms(1), of s] assms(2) show ?thesis by simp
qed

theorem audit_batch_atomic_witness:
  "audit_append_many [audit_row 2 5 SESSION_PARKED, audit_row 2 6 OPERATOR_INVOKED] \<lparr>au_committed = [], au_max_epoch = 3\<rparr> =
     (Inl StaleEpochError, \<lparr>au_committed = [], au_max_epoch = 3\<rparr>)"
  using audit_batch_atomic [of "[audit_row 2 5 SESSION_PARKED, audit_row 2 6 OPERATOR_INVOKED]" 2
      "\<lparr>au_committed = [], au_max_epoch = 3\<rparr>"]
  by (simp add: audit_row_def)

section \<open>The archive as a keyed merge\<close>

interpretation archive_fence: fenced_writer arc_max_epoch "\<lambda>e a. archive_one k c (a\<lparr>ar_epoch := e\<rparr>)" for k c
  by unfold_locales (auto simp: archive_one_def)

interpretation archive_rows: keyed_merge archive_key_of advance_row
  by unfold_locales (auto simp: archive_key_of_def advance_row_def max.assoc intro!: max.commute arg_cong2 [where f = max])

lemma fold_in_upsert: "fold_in = upsert archive_key_of advance_row"
  by (intro ext) (simp add: fold_in_def upsert_def)

lemmas archive_defs = archive_one_def archive_flush_def archive_read_def buffered_count_def

text \<open>
  Also: a read does not depend on whether a flush has run: reading before a flush, reading after it
  and reading after any further number of flushes give the same rows or the same error, and a
  second flush finds nothing to do.
\<close>

theorem archive_read_transparent:
  "archive_read k c retention (snd (archive_flush s)) = archive_read k c retention s \<and>
   archive_flush (snd (archive_flush s)) = (0, snd (archive_flush s))"
  by (simp add: archive_defs)

text \<open>What a batch of one writer leaves in the buffer.\<close>

definition sealed_row :: "codec \<Rightarrow> value_cipher \<Rightarrow> archived \<Rightarrow> archived" where
  "sealed_row k c a = (seal k c a)\<lparr>ar_value_hash := value_hash k c a\<rparr>"

lemma archive_many_same:
  "\<forall>a \<in> set es. ar_epoch a = e \<Longrightarrow> arc_max_epoch s \<le> e \<Longrightarrow>
     archive_many k c es s =
       (Inr (), s\<lparr>arc_max_epoch := (if es = [] then arc_max_epoch s else e),
                 arc_buffer := arc_buffer s @ map (sealed_row k c) es\<rparr>)"
  by (induction es arbitrary: s) (auto simp: archive_one_def sealed_row_def)

lemma archive_many_append:
  "archive_many k c (es @ ws) = bindE (archive_many k c es) (\<lambda>_. archive_many k c ws)"
  by (rule ext, induction es) (auto simp: bindE_def returnE_def split: prod.splits sum.splits)


text \<open>
  Also: redelivering documents that were already archived, in any order and number, is invisible to
  every later read: what is read after the redelivery is what was read before it.
\<close>

theorem archive_redelivery:
  assumes "\<forall>a \<in> set es. ar_epoch a = e" and "arc_max_epoch s \<le> e" and "set ws \<subseteq> set es"
  shows "archive_read k c retention (snd (archive_many k c (es @ ws) s)) =
     archive_read k c retention (snd (archive_many k c es s))"
proof -
  have sub: "set (map (sealed_row k c) ws) \<subseteq> set (map (sealed_row k c) es)" using assms(3) by auto
  have "\<forall>a \<in> set (es @ ws). ar_epoch a = e" using assms(1,3) by auto
  from archive_many_same [OF this assms(2)] archive_many_same [OF assms(1,2)]
  show ?thesis
    using archive_rows.redelivery_all [OF sub, of "fold fold_in (arc_buffer s) (arc_committed s)"]
    by (simp add: archive_read_def fold_in_upsert)
qed

definition demo_codec :: codec where
  "demo_codec = \<lparr>dumps = (\<lambda>v. case v of PStr t \<Rightarrow> t | _ \<Rightarrow> ''{}''), loads = PStr, sha256 = (\<lambda>t. t),
     canonical_text = (\<lambda>v. case v of PStr t \<Rightarrow> t | _ \<Rightarrow> ''{}'')\<rparr>"

definition demo_cipher :: value_cipher where
  "demo_cipher = \<lparr>encrypt = rev, decrypt = rev, mac = (\<lambda>t. CHR ''#'' # t)\<rparr>"

theorem archive_redelivery_witness:
  "archive_read demo_codec demo_cipher None (snd (archive_many demo_codec demo_cipher
      ([archived_of (sample_dp ''a'' 1) ''s'' ''n'' 1] @ [archived_of (sample_dp ''a'' 1) ''s'' ''n'' 1]) new_archive)) =
   archive_read demo_codec demo_cipher None (snd (archive_many demo_codec demo_cipher
      [archived_of (sample_dp ''a'' 1) ''s'' ''n'' 1] new_archive))"
  by (rule archive_redelivery [of _ 1]) (simp_all add: archived_of_def new_archive_def)

section \<open>What is archived is read back\<close>

lemma unseal_sealed_row:
  assumes "\<And>x. decrypt c (encrypt c x) = x" and "loads k (dumps k (ar_value a)) = ar_value a"
  shows "unseal k c ((sealed_row k c a)\<lparr>ar_last := t, ar_epoch := e\<rparr>) =
     Inr (a\<lparr>ar_value_hash := value_hash k c a, ar_last := t, ar_epoch := e\<rparr>)"
  using assms by (cases a) (simp add: sealed_row_def unseal_def seal_def)

lemma foldl_advance:
  "foldl advance_row a as = a\<lparr>ar_last := foldl max (ar_last a) (map ar_last as), ar_epoch := foldl max (ar_epoch a) (map ar_epoch as)\<rparr>"
  by (induction as arbitrary: a) (auto simp: advance_row_def)

lemma foldl_max_start:
  fixes a :: "'a :: linorder"
  shows "a \<le> foldl max a xs"
proof (induction xs arbitrary: a)
  case (Cons y ys)
  have "a \<le> max a y" by simp
  also have "\<dots> \<le> foldl max (max a y) ys" by (rule Cons.IH)
  finally show ?case by simp
qed simp

lemma foldl_max_ge:
  fixes a :: "'a :: linorder"
  shows "x \<in> insert a (set xs) \<Longrightarrow> x \<le> foldl max a xs"
proof (induction xs arbitrary: a)
  case (Cons y ys)
  have "max a y \<le> foldl max (max a y) ys" by (rule foldl_max_start)
  with Cons show ?case by (cases "x \<in> set ys") auto
qed simp

lemma sealed_row_simps [simp]:
  "ar_last (sealed_row k c a) = ar_last a" "ar_epoch (sealed_row k c a) = ar_epoch a"
  "archive_key_of (sealed_row k c a) = (ar_type a, value_hash k c a)"
  by (simp_all add: sealed_row_def seal_def archive_key_of_def)

text \<open>The rows a fold of sealed documents leaves: one per key, from its first document.\<close>

lemma folded_rows:
  assumes "row \<in> set (map snd (fold fold_in (map (sealed_row k c) as) []))"
  obtains a where "a \<in> set as" and "row = (sealed_row k c a)\<lparr>ar_last := ar_last row, ar_epoch := ar_epoch row\<rparr>"
    and "\<forall>b \<in> set as. (ar_type b, value_hash k c b) = (ar_type a, value_hash k c a) \<longrightarrow> ar_last b \<le> ar_last row"
proof -
  let ?rows = "fold fold_in (map (sealed_row k c) as) []"
  have w: "well_keyed archive_key_of ?rows" unfolding fold_in_upsert by (rule archive_rows.fold_keyed) simp
  from assms obtain p where p: "p \<in> set ?rows" "snd p = row" by (auto simp: image_iff)
  with w have "map_of ?rows (archive_key_of row) = Some row"
    by (cases p) (auto simp: well_keyed_def map_of_eq_Some_iff)
  then have "map_of (fold (upsert archive_key_of advance_row) (map (sealed_row k c) as) []) (archive_key_of row) = Some row"
    by (simp add: fold_in_upsert)
  then obtain z zs where z: "filter (\<lambda>v. archive_key_of v = archive_key_of row) (map (sealed_row k c) as) = z # zs"
      "row = foldl advance_row z zs"
    by (auto simp: archive_rows.fold_lookup split: list.splits)
  have "z \<in> set (filter (\<lambda>v. archive_key_of v = archive_key_of row) (map (sealed_row k c) as))" by (simp only: z(1)) simp
  then obtain a where a: "a \<in> set as" "z = sealed_row k c a" "archive_key_of z = archive_key_of row" by auto
  show ?thesis
  proof (rule that [OF a(1)])
    show "row = (sealed_row k c a)\<lparr>ar_last := ar_last row, ar_epoch := ar_epoch row\<rparr>"
      unfolding z(2) foldl_advance a(2) by simp
    show "\<forall>b \<in> set as. (ar_type b, value_hash k c b) = (ar_type a, value_hash k c a) \<longrightarrow> ar_last b \<le> ar_last row"
    proof (intro ballI impI)
      fix b
      assume "b \<in> set as" "(ar_type b, value_hash k c b) = (ar_type a, value_hash k c a)"
      then have "sealed_row k c b \<in> set (filter (\<lambda>v. archive_key_of v = archive_key_of row) (map (sealed_row k c) as))"
        using a(2,3) by simp
      then have "sealed_row k c b \<in> insert z (set zs)" by (simp add: z(1))
      then have "ar_last b \<in> insert (ar_last z) (set (map ar_last zs))" using sealed_row_simps(1) by (metis image_eqI insert_iff list.set_map)
      then show "ar_last b \<le> ar_last row" unfolding z(2) foldl_advance
        using foldl_max_ge [of "ar_last b" "ar_last z" "map ar_last zs"] by simp
    qed
  qed
qed




end
