(* ===== verification/Retry.thy ===== *)
theory Retry
  imports Orca_Prelude
begin

text \<open>
  Bounded retry with jittered backoff, \<^verbatim>\<open>orcastork/aggregation/retry.py\<close>. The operation, the
  notification hook and the sleep are operations on one state; the pseudo-random draws
  (\<^verbatim>\<open>random.Random(seed).uniform(a, b)\<close>, the \<open>i\<close>-th of them) are the parameter \<open>uniform\<close>,
  with its documented range as the hypothesis \<open>draws_in_range\<close>.
\<close>

section \<open>Policy and schedule\<close>

record retry_policy =
  max_attempts :: int
  base_delay :: real
  jitter :: real

definition retry_policy_of :: "int \<Rightarrow> real \<Rightarrow> real \<Rightarrow> orca_error + retry_policy" where
  "retry_policy_of attempts base jit =
     (if attempts < 1 then Inl ValueError
      else if base < 0 then Inl ValueError
      else if \<not> (0 \<le> jit \<and> jit \<le> 1) then Inl ValueError
      else Inr \<lparr>max_attempts = attempts, base_delay = base, jitter = jit\<rparr>)"

definition draws_in_range :: "(nat \<Rightarrow> real \<Rightarrow> real \<Rightarrow> real) \<Rightarrow> bool" where
  "draws_in_range uniform \<longleftrightarrow> (\<forall>i a b. a \<le> b \<longrightarrow> a \<le> uniform i a b \<and> uniform i a b \<le> b)"

definition backoff_delays :: "(nat \<Rightarrow> real \<Rightarrow> real \<Rightarrow> real) \<Rightarrow> retry_policy \<Rightarrow> real list" where
  "backoff_delays uniform p =
     map (\<lambda>attempt. base_delay p * 2 ^ attempt * (1 + uniform attempt (- jitter p) (jitter p)))
       [0..<nat (max_attempts p)]"

section \<open>The loop\<close>

text \<open>
  \<open>retry_loop todo attempt\<close> runs the remaining \<open>todo\<close> attempts, the next one having the 0-based
  number \<open>attempt\<close>. The last error only decorates the dead-letter error as its cause.
\<close>

fun retry_loop ::
  "('s, unit) op \<Rightarrow> (nat \<Rightarrow> orca_error option \<Rightarrow> ('s, unit) op) \<Rightarrow> (real \<Rightarrow> ('s, unit) op) \<Rightarrow> real list \<Rightarrow>
     nat \<Rightarrow> nat \<Rightarrow> ('s, unit) op" where
  "retry_loop act hook sleep delays 0 attempt s = (Inl AggregatorDeadLetteredError, s)"
| "retry_loop act hook sleep delays (Suc todo) attempt s =
     (case act s of
        (Inr _, s1) \<Rightarrow> (case hook (attempt + 1) None s1 of (Inl err, s2) \<Rightarrow> (Inl err, s2) | (Inr _, s2) \<Rightarrow> (Inr (), s2))
      | (Inl x, s1) \<Rightarrow>
          (case hook (attempt + 1) (Some x) s1 of
             (Inl err, s2) \<Rightarrow> (Inl err, s2)
           | (Inr _, s2) \<Rightarrow>
               if todo = 0 then retry_loop act hook sleep delays todo (attempt + 1) s2
               else (case sleep (delays ! attempt) s2 of
                       (Inl err, s3) \<Rightarrow> (Inl err, s3)
                     | (Inr _, s3) \<Rightarrow> retry_loop act hook sleep delays todo (attempt + 1) s3)))"

definition run_with_retry ::
  "(nat \<Rightarrow> real \<Rightarrow> real \<Rightarrow> real) \<Rightarrow> retry_policy \<Rightarrow> ('s, unit) op \<Rightarrow> (nat \<Rightarrow> orca_error option \<Rightarrow> ('s, unit) op) \<Rightarrow>
     (real \<Rightarrow> ('s, unit) op) \<Rightarrow> ('s, unit) op" where
  "run_with_retry uniform p act hook sleep =
     retry_loop act hook sleep (backoff_delays uniform p) (nat (max_attempts p)) 0"

section \<open>An observed run\<close>

text \<open>
  The state extended with two logs: what the hook was told after each attempt, and how long each
  sleep was asked to last.
\<close>

type_synonym 's observed = "'s \<times> (nat \<times> orca_error option) list \<times> real list"

definition on_inner :: "('s, unit) op \<Rightarrow> ('s observed, unit) op" where
  "on_inner act w = (case act (fst w) of (r, s') \<Rightarrow> (r, (s', snd w)))"

definition log_attempt :: "nat \<Rightarrow> orca_error option \<Rightarrow> ('s observed, unit) op" where
  "log_attempt n x w = (Inr (), (fst w, fst (snd w) @ [(n, x)], snd (snd w)))"

definition log_sleep :: "real \<Rightarrow> ('s observed, unit) op" where
  "log_sleep d w = (Inr (), (fst w, fst (snd w), snd (snd w) @ [d]))"

definition observed_retry ::
  "(nat \<Rightarrow> real \<Rightarrow> real \<Rightarrow> real) \<Rightarrow> retry_policy \<Rightarrow> ('s, unit) op \<Rightarrow> 's \<Rightarrow> (orca_error + unit) \<times> 's observed" where
  "observed_retry uniform p act s = run_with_retry uniform p (on_inner act) log_attempt log_sleep (s, [], [])"

lemma observed_apply [simp]:
  "on_inner act (s, w) = (case act s of (r, s') \<Rightarrow> (r, (s', w)))"
  "log_attempt n x (s, L, D) = (Inr (), (s, L @ [(n, x)], D))"
  "log_sleep d (s, L, D) = (Inr (), (s, L, D @ [d]))"
  by (simp_all add: on_inner_def log_attempt_def log_sleep_def)

lemma retry_loop_observed:
  assumes "retry_loop (on_inner act) log_attempt log_sleep delays todo k (s, L, D) = (r, (t, L', D'))"
    and "k + todo \<le> length delays"
  shows "\<exists>n errs. n \<le> todo \<and> length errs = n \<and> list_all (\<lambda>x. x \<noteq> None) (if r = Inr () then butlast errs else errs) \<and>
     L' = L @ map (\<lambda>i. (k + i + 1, errs ! i)) [0..<n] \<and>
     D' = D @ map (\<lambda>i. delays ! (k + i)) [0..<n - 1] \<and>
     (r = Inr () \<and> 0 < n \<and> last errs = None \<or> r = Inl AggregatorDeadLetteredError \<and> n = todo)"
  using assms
proof (induction todo arbitrary: k s L D)
  case 0
  then show ?case by auto
next
  case (Suc todo)
  obtain x s1 where act: "act s = (x, s1)" by fastforce
  show ?case
  proof (cases x)
    case (Inr u)
    with Suc.prems(1) act have "r = Inr ()" "L' = L @ [(k + 1, None)]" "D' = D"
      by auto
    then show ?thesis by (intro exI [of _ 1] exI [of _ "[None]"]) auto
  next
    case (Inl err)
    show ?thesis
    proof (cases "todo = 0")
      case True
      with Suc.prems(1) act Inl have "r = Inl AggregatorDeadLetteredError" "L' = L @ [(k + 1, Some err)]" "D' = D"
        by auto
      with True show ?thesis by (intro exI [of _ 1] exI [of _ "[Some err]"]) auto
    next
      case False
      with Suc.prems(1) act Inl
      have "retry_loop (on_inner act) log_attempt log_sleep delays todo (k + 1)
          (s1, L @ [(k + 1, Some err)], D @ [delays ! k]) = (r, (t, L', D'))"
        by auto
      from Suc.IH [OF this] Suc.prems(2) obtain n errs where n: "n \<le> todo" "length errs = n"
        "list_all (\<lambda>x. x \<noteq> None) (if r = Inr () then butlast errs else errs)"
        "L' = (L @ [(k + 1, Some err)]) @ map (\<lambda>i. (k + 1 + i + 1, errs ! i)) [0..<n]"
        "D' = (D @ [delays ! k]) @ map (\<lambda>i. delays ! (k + 1 + i)) [0..<n - 1]"
        "r = Inr () \<and> 0 < n \<and> last errs = None \<or> r = Inl AggregatorDeadLetteredError \<and> n = todo"
        by auto
      have pos: "0 < n" using n(6) False by auto
      have L: "L' = L @ map (\<lambda>i. (k + i + 1, (Some err # errs) ! i)) [0..<Suc n]"
        using n(4) by (subst upt_conv_Cons, simp) (simp add: map_Suc_upt [symmetric] del: upt_Suc)
      have D: "D' = D @ map (\<lambda>i. delays ! (k + i)) [0..<Suc n - 1]"
      proof -
        have "[0..<Suc n - 1] = 0 # map Suc [0..<n - 1]"
          using pos by (simp add: upt_conv_Cons map_Suc_upt)
        then show ?thesis using n(5) by simp
      qed
      have "errs \<noteq> []" using pos n(2) by auto
      with n L D show ?thesis
        by (intro exI [of _ "Suc n"] exI [of _ "Some err # errs"]) (auto simp del: upt_Suc)
    qed
  qed
qed

section \<open>Properties\<close>

text \<open>
  Also: the retry loop always returns. It makes between one and \<open>max_attempts\<close> attempts, tells the
  hook of each in order with its 1-based number and error, sleeps the scheduled delay between two
  attempts and not after the last, and succeeds exactly when an attempt succeeded (which is then
  the last); otherwise it has made all \<open>max_attempts\<close> attempts and raises the dead-letter error.
\<close>

theorem retry_outcome:
  assumes "retry_policy_of attempts base jit = Inr p"
  shows "\<exists>r t errs. observed_retry uniform p act s = (r, (t, map (\<lambda>i. (i + 1, errs ! i)) [0..<length errs],
        map (\<lambda>i. backoff_delays uniform p ! i) [0..<length errs - 1])) \<and>
     1 \<le> length errs \<and> int (length errs) \<le> attempts \<and>
     (r = Inr () \<and> last errs = None \<and> (\<forall>x \<in> set (butlast errs). x \<noteq> None) \<or>
      r = Inl AggregatorDeadLetteredError \<and> int (length errs) = attempts \<and> (\<forall>x \<in> set errs. x \<noteq> None))"
proof -
  have pos: "1 \<le> attempts" and ma: "max_attempts p = attempts"
    using assms by (auto simp: retry_policy_of_def split: if_splits)
  obtain r t L D where run: "observed_retry uniform p act s = (r, (t, L, D))" by (metis prod.collapse)
  then have "retry_loop (on_inner act) log_attempt log_sleep (backoff_delays uniform p) (nat attempts) 0 (s, [], []) = (r, (t, L, D))"
    by (simp add: observed_retry_def run_with_retry_def ma)
  from retry_loop_observed [OF this] obtain n errs where n: "n \<le> nat attempts" "length errs = n"
    "list_all (\<lambda>x. x \<noteq> None) (if r = Inr () then butlast errs else errs)"
    "L = map (\<lambda>i. (i + 1, errs ! i)) [0..<n]" "D = map (\<lambda>i. backoff_delays uniform p ! i) [0..<n - 1]"
    "r = Inr () \<and> 0 < n \<and> last errs = None \<or> r = Inl AggregatorDeadLetteredError \<and> n = nat attempts"
    by (auto simp: backoff_delays_def ma)
  from n(6) pos have "1 \<le> n" by auto
  with n pos run show ?thesis
    by (intro exI [of _ r] exI [of _ t] exI [of _ errs]) (auto simp: list_all_iff)
qed

theorem retry_outcome_witness:
  "\<exists>r t errs. observed_retry (\<lambda>i a b. a) \<lparr>max_attempts = 3, base_delay = 1, jitter = 0\<rparr> (raiseE ValueError) () =
     (r, (t, map (\<lambda>i. (i + 1, errs ! i)) [0..<length errs],
        map (\<lambda>i. backoff_delays (\<lambda>i a b. a) \<lparr>max_attempts = 3, base_delay = 1, jitter = 0\<rparr> ! i) [0..<length errs - 1])) \<and>
     1 \<le> length errs \<and> int (length errs) \<le> 3 \<and>
     (r = Inr () \<and> last errs = None \<and> (\<forall>x \<in> set (butlast errs). x \<noteq> None) \<or>
      r = Inl AggregatorDeadLetteredError \<and> int (length errs) = 3 \<and> (\<forall>x \<in> set errs. x \<noteq> None))"
  by (rule retry_outcome [of 3 1 0]) (simp add: retry_policy_of_def)

text \<open>
  Also: the schedule of a valid policy has one delay per attempt, each within the jitter of the
  exponential base delay and never negative.
\<close>

theorem backoff_bounds:
  assumes "retry_policy_of attempts base jit = Inr p" and "draws_in_range uniform" and "i < length (backoff_delays uniform p)"
  shows "int (length (backoff_delays uniform p)) = attempts \<and>
     base * 2 ^ i * (1 - jit) \<le> backoff_delays uniform p ! i \<and>
     backoff_delays uniform p ! i \<le> base * 2 ^ i * (1 + jit) \<and> 0 \<le> backoff_delays uniform p ! i"
proof -
  from assms(1) have p: "p = \<lparr>max_attempts = attempts, base_delay = base, jitter = jit\<rparr>" "1 \<le> attempts" "0 \<le> base"
    "0 \<le> jit" "jit \<le> 1" by (auto simp: retry_policy_of_def split: if_splits)
  let ?u = "uniform i (- jit) jit"
  have u: "- jit \<le> ?u" "?u \<le> jit" using assms(2) p(4) by (simp_all add: draws_in_range_def)
  have b: "0 \<le> base * 2 ^ i" using p(3) by simp
  have d: "backoff_delays uniform p ! i = base * 2 ^ i * (1 + ?u)"
    using assms(3) p by (simp add: backoff_delays_def)
  have "base * 2 ^ i * (1 - jit) \<le> base * 2 ^ i * (1 + ?u)" "base * 2 ^ i * (1 + ?u) \<le> base * 2 ^ i * (1 + jit)"
    "0 \<le> base * 2 ^ i * (1 + ?u)"
    using u p(5) by (intro mult_left_mono mult_nonneg_nonneg b; linarith)+
  with d p show ?thesis by (simp add: backoff_delays_def)
qed

theorem backoff_bounds_witness:
  "backoff_delays (\<lambda>i a b. b) \<lparr>max_attempts = 3, base_delay = 1, jitter = 1 / 5\<rparr> ! 2 \<le> 1 * 2 ^ 2 * (1 + 1 / 5)"
  using backoff_bounds [of 3 1 "1 / 5" "\<lparr>max_attempts = 3, base_delay = 1, jitter = 1 / 5\<rparr>" "\<lambda>i a b. b" 2]
  by (simp add: retry_policy_of_def draws_in_range_def backoff_delays_def)

end
