(* ===== verification/Operators.thy ===== *)
theory Operators
  imports DataPoints Retry
begin

text \<open>
  Operators and capabilities as classes: \<^verbatim>\<open>orcastork/operators/base.py\<close>,
  \<^verbatim>\<open>orcastork/operators/context.py\<close> and \<^verbatim>\<open>orcastork/capabilities/base.py\<close>. A class
  attribute that is a \<^verbatim>\<open>frozenset\<close> is a list in the order the set is enumerated; the
  theorems about what is computed from it do not depend on that order. Registration is the
  hook run by a subclass statement, on a record of what the hook reads of the class.
\<close>

section \<open>Operators\<close>

datatype rerun_on = ADDED_OR_UPDATED | ADDED_ONLY

record operator_policy =
  rerun_on_new_data :: bool
  rerun_on :: rerun_on
  debounce :: "seconds option"
  max_cycles :: "int option"
  op_timeout :: "seconds option"
  op_retry :: "retry_policy option"

record operator_class =
  op_class :: pyclass
  op_id :: operator_id
  op_policy :: operator_policy
  op_depends_on :: "pyclass list"
  op_uses :: "pyclass list"
  op_produces :: "pyclass list"
  op_requires :: "pyclass list"
  is_aggregator :: bool
  interim_refresh :: bool
  op_consumes :: "pyclass list"

text \<open>What \<^verbatim>\<open>Operator.__init_subclass__\<close> reads of the new class.\<close>

record operator_statement =
  os_operator_id :: "operator_id option"
  os_has_abstract_methods :: bool
  os_policy :: "operator_policy option"
  os_class :: operator_class

type_synonym operator_registry = "(operator_id \<times> operator_class) list"

definition operator_init_subclass :: "operator_statement \<Rightarrow> (operator_registry, unit) op" where
  "operator_init_subclass cls reg =
     (case os_operator_id cls of
        None \<Rightarrow> (Inr (), reg)
      | Some oid \<Rightarrow>
          if os_has_abstract_methods cls then (Inr (), reg)
          else if os_policy cls = None then (Inl InvalidOperatorError, reg)
          else (case map_of reg oid of
                  Some existing \<Rightarrow>
                    if op_class existing \<noteq> op_class (os_class cls) then (Inl DuplicateRegistrationError, reg)
                    else (Inr (), AList.update oid (os_class cls) reg)
                | None \<Rightarrow> (Inr (), AList.update oid (os_class cls) reg)))"

section \<open>Capabilities and the audited seam\<close>

record capability_class =
  cap_class :: pyclass
  cap_id :: capability_id
  cap_depends_on :: "pyclass list"
  cap_requires :: "pyclass list"

text \<open>
  An attribute of a class body: what \<^verbatim>\<open>inspect\<close> says of it, whether it is abstract and
  whether it already carries the audited marker.
\<close>

datatype attribute_kind = CoroutineFunction | PlainFunction | NotAFunction

record class_attribute =
  at_kind :: attribute_kind
  at_abstract :: bool
  at_audited :: bool

definition is_private :: "string \<Rightarrow> bool" where
  "is_private name \<longleftrightarrow> (case name of [] \<Rightarrow> False | c # _ \<Rightarrow> c = CHR ''_'')"

definition is_auditable_action :: "string \<Rightarrow> class_attribute \<Rightarrow> bool" where
  "is_auditable_action name a \<longleftrightarrow>
     \<not> is_private name \<and> name \<noteq> ''activate'' \<and> at_kind a = CoroutineFunction \<and> \<not> at_abstract a \<and> \<not> at_audited a"

text \<open>The public names the \<^verbatim>\<open>Capability\<close> base itself defines.\<close>

definition capability_base_names :: "string list" where
  "capability_base_names =
     [''depends_on'', ''requires'', ''bind_auditor'', ''bind_rate_limit'', ''bind_telemetry'', ''activate'']"

definition is_unaudited_public_method :: "string \<Rightarrow> class_attribute \<Rightarrow> bool" where
  "is_unaudited_public_method name a \<longleftrightarrow>
     \<not> is_private name \<and> name \<notin> set capability_base_names \<and> at_kind a = PlainFunction"

record capability_statement =
  ks_attributes :: "(string \<times> class_attribute) list"
  ks_capability_id :: "capability_id option"
  ks_has_abstract_methods :: bool
  ks_class :: capability_class

fun wrap_actions :: "(string \<times> class_attribute) list \<Rightarrow> orca_error + (string \<times> class_attribute) list" where
  "wrap_actions [] = Inr []"
| "wrap_actions ((name, a) # rest) =
     (if is_auditable_action name a then
        (case wrap_actions rest of Inl e \<Rightarrow> Inl e | Inr ws \<Rightarrow> Inr ((name, a\<lparr>at_audited := True\<rparr>) # ws))
      else if is_unaudited_public_method name a then Inl InvalidCapabilityError
      else (case wrap_actions rest of Inl e \<Rightarrow> Inl e | Inr ws \<Rightarrow> Inr ((name, a) # ws)))"

type_synonym capability_registry = "(capability_id \<times> capability_class) list"

text \<open>The hook returns the attributes of the class as it left them.\<close>

definition capability_init_subclass ::
  "capability_statement \<Rightarrow> (capability_registry, (string \<times> class_attribute) list) op" where
  "capability_init_subclass cls reg =
     (case wrap_actions (ks_attributes cls) of
        Inl e \<Rightarrow> (Inl e, reg)
      | Inr ws \<Rightarrow>
          (case ks_capability_id cls of
             None \<Rightarrow> (Inr ws, reg)
           | Some cid \<Rightarrow>
               if ks_has_abstract_methods cls then (Inr ws, reg)
               else (case map_of reg cid of
                       Some existing \<Rightarrow>
                         if cap_class existing \<noteq> cap_class (ks_class cls) then (Inl DuplicateRegistrationError, reg)
                         else (Inr ws, AList.update cid (ks_class cls) reg)
                     | None \<Rightarrow> (Inr ws, AList.update cid (ks_class cls) reg))))"

text \<open>
  The wrapper around an action: acquire the rate limit when one is bound, record the invocation
  when an auditor is bound, then run the body. The span around it is telemetry.
\<close>

definition audited_call ::
  "('s, unit) op option \<Rightarrow> ('s, unit) op option \<Rightarrow> ('s, 'r) op \<Rightarrow> ('s, 'r) op" where
  "audited_call limiter auditor body =
     bindE (case limiter of None \<Rightarrow> returnE () | Some acquire \<Rightarrow> acquire) (\<lambda>_.
     bindE (case auditor of None \<Rightarrow> returnE () | Some record_it \<Rightarrow> record_it) (\<lambda>_. body))"

section \<open>The view of the available capabilities\<close>

record capability_view =
  cv_available :: "(capability_id \<times> capability_class) list"
  cv_preference :: "capability_id list"

definition available_types :: "capability_view \<Rightarrow> pyclass list" where
  "available_types v = remdups (map (\<lambda>p. cap_class (snd p)) (cv_available v))"

definition is_available :: "capability_view \<Rightarrow> capability_id \<Rightarrow> bool" where
  "is_available v cid \<longleftrightarrow> cid \<in> set (map fst (cv_available v))"

fun index_of :: "'a \<Rightarrow> 'a list \<Rightarrow> nat" where
  "index_of x [] = 0"
| "index_of x (y # ys) = (if x = y then 0 else Suc (index_of x ys))"

definition preference_rank :: "capability_view \<Rightarrow> capability_class \<Rightarrow> nat \<times> capability_id" where
  "preference_rank v c =
     (if cap_id c \<in> set (cv_preference v) then (index_of (cap_id c) (cv_preference v), cap_id c)
      else (length (cv_preference v), cap_id c))"

definition rank_le :: "nat \<times> capability_id \<Rightarrow> nat \<times> capability_id \<Rightarrow> bool" where
  "rank_le a b \<longleftrightarrow> fst a < fst b \<or> (fst a = fst b \<and> snd a \<le> snd b)"

text \<open>\<^verbatim>\<open>sorted(...)[0]\<close>: the first of the minimal elements.\<close>

fun first_minimal :: "('a \<Rightarrow> 'a \<Rightarrow> bool) \<Rightarrow> 'a \<Rightarrow> 'a list \<Rightarrow> 'a" where
  "first_minimal le m [] = m"
| "first_minimal le m (x # xs) = first_minimal le (if le m x then m else x) xs"

definition resolve_capability :: "capability_view \<Rightarrow> pyclass \<Rightarrow> capability_class option" where
  "resolve_capability v t =
     (case filter (\<lambda>c. issubclass (cap_class c) t) (map snd (cv_available v)) of
        [] \<Rightarrow> None
      | c # cs \<Rightarrow> Some (first_minimal (\<lambda>a b. rank_le (preference_rank v a) (preference_rank v b)) c cs))"

definition require_capability :: "capability_view \<Rightarrow> pyclass \<Rightarrow> orca_error + capability_class" where
  "require_capability v t =
     (case resolve_capability v t of None \<Rightarrow> Inl CapabilityUnavailableError | Some c \<Rightarrow> Inr c)"

section \<open>What an invocation is told\<close>

record invocation_delta =
  dt_added :: "data_point list"
  dt_updated :: "data_point list"
  dt_newly_available_caps :: "capability_id list"
  dt_is_first_invocation :: bool

section \<open>Lemmas\<close>

definition seam_covered :: "string \<times> class_attribute \<Rightarrow> bool" where
  "seam_covered p \<longleftrightarrow> \<not> is_auditable_action (fst p) (snd p) \<and> \<not> is_unaudited_public_method (fst p) (snd p)"

lemma wrapped_covered: "is_auditable_action name a \<Longrightarrow> seam_covered (name, a\<lparr>at_audited := True\<rparr>)"
  by (simp add: seam_covered_def is_auditable_action_def is_unaudited_public_method_def)

lemma wrap_actions_covered:
  "wrap_actions as = Inr ws \<Longrightarrow> map fst ws = map fst as \<and> (\<forall>p \<in> set ws. seam_covered p)"
proof (induction as arbitrary: ws rule: wrap_actions.induct)
  case 1
  then show ?case by simp
next
  case (2 name a rest)
  then obtain vs where vs: "wrap_actions rest = Inr vs" by (auto split: if_splits sum.splits)
  with "2.prems" have ws: "ws = (name, if is_auditable_action name a then a\<lparr>at_audited := True\<rparr> else a) # vs"
    and ok: "is_auditable_action name a \<or> \<not> is_unaudited_public_method name a" by (auto split: if_splits)
  have "map fst vs = map fst rest \<and> (\<forall>p \<in> set vs. seam_covered p)"
    using "2.IH" vs ok by blast
  moreover have "seam_covered (name, if is_auditable_action name a then a\<lparr>at_audited := True\<rparr> else a)"
    using ok wrapped_covered by (auto simp: seam_covered_def)
  ultimately show ?case by (simp add: ws)
qed

lemma rank_le_total: "rank_le a b \<or> rank_le b a"
  by (auto simp: rank_le_def)

lemma rank_le_trans: "rank_le a b \<Longrightarrow> rank_le b c \<Longrightarrow> rank_le a c"
  by (auto simp: rank_le_def)

lemma first_minimal_in: "first_minimal le m xs \<in> insert m (set xs)"
  by (induction xs arbitrary: m) (auto split: if_splits)

lemma first_minimal_le:
  assumes "\<And>a b. le a b \<or> le b a" and "\<And>a b c. le a b \<Longrightarrow> le b c \<Longrightarrow> le a c" and "x \<in> insert m (set xs)"
  shows "le (first_minimal le m xs) x"
  using assms(3)
proof (induction xs arbitrary: m x)
  case Nil
  with assms(1) [of m m] show ?case by simp
next
  case (Cons y ys)
  let ?m = "if le m y then m else y"
  have below: "le (first_minimal le ?m ys) ?m" by (rule Cons.IH) simp
  show ?case
  proof (cases "x \<in> set ys")
    case True
    then show ?thesis using Cons.IH [of x ?m] by simp
  next
    case False
    with Cons.prems have "x = m \<or> x = y" by simp
    then have "le ?m x" using assms(1) [of m y] assms(1) [of m m] assms(1) [of y y] by auto
    with below show ?thesis unfolding first_minimal.simps by (rule assms(2))
  qed
qed

section \<open>Properties\<close>

text \<open>
  Also: no action escapes the audited seam. When the registration hook accepts a capability class,
  every public coroutine method of its body other than \<open>activate\<close> and abstract ones carries the
  audit wrapper, and the body has no other public function outside the names of the base class.
\<close>

theorem accepted_capability_is_audited:
  assumes "capability_init_subclass cls reg = (Inr ws, reg')" and "(name, a) \<in> set ws" and "\<not> is_private name"
  shows "(at_kind a = CoroutineFunction \<longrightarrow> name \<noteq> ''activate'' \<longrightarrow> \<not> at_abstract a \<longrightarrow> at_audited a) \<and>
     (at_kind a = PlainFunction \<longrightarrow> name \<in> set capability_base_names) \<and>
     map fst ws = map fst (ks_attributes cls)"
proof -
  from assms(1) have "wrap_actions (ks_attributes cls) = Inr ws"
    by (auto simp: capability_init_subclass_def split: sum.splits option.splits if_splits)
  from wrap_actions_covered [OF this] assms(2,3) show ?thesis
    by (fastforce simp: seam_covered_def is_auditable_action_def is_unaudited_public_method_def)
qed

definition sample_capability :: capability_class where
  "sample_capability = \<lparr>cap_class = PyClass ''Mailer'' [], cap_id = ''mailer'', cap_depends_on = [], cap_requires = []\<rparr>"

theorem accepted_capability_is_audited_witness:
  "fst (capability_init_subclass \<lparr>ks_attributes = [(''send'', \<lparr>at_kind = CoroutineFunction, at_abstract = False, at_audited = False\<rparr>)],
     ks_capability_id = Some ''mailer'', ks_has_abstract_methods = False, ks_class = sample_capability\<rparr> []) =
   Inr [(''send'', \<lparr>at_kind = CoroutineFunction, at_abstract = False, at_audited = True\<rparr>)] \<and>
   ''send'' \<noteq> ''activate''"
proof -
  let ?a = "\<lparr>at_kind = CoroutineFunction, at_abstract = False, at_audited = False\<rparr>"
  let ?c = "\<lparr>ks_attributes = [(''send'', ?a)], ks_capability_id = Some ''mailer'', ks_has_abstract_methods = False,
    ks_class = sample_capability\<rparr>"
  have h: "capability_init_subclass ?c [] = (Inr [(''send'', ?a\<lparr>at_audited := True\<rparr>)], [(''mailer'', sample_capability)])"
    by (simp add: capability_init_subclass_def is_auditable_action_def is_private_def)
  from accepted_capability_is_audited [OF h, of "''send''" "?a\<lparr>at_audited := True\<rparr>"] h show ?thesis
    by (simp add: is_private_def)
qed

text \<open>
  Also: a capability action is paced, then recorded, then run: its body runs only after the rate
  limiter let it through and the auditor recorded it, and a failure of either of them is the
  outcome of the call.
\<close>

theorem audited_call_order:
  "audited_call (Some acquire) (Some record_it) body s =
     (case acquire s of
        (Inl e, s1) \<Rightarrow> (Inl e, s1)
      | (Inr _, s1) \<Rightarrow> (case record_it s1 of (Inl e, s2) \<Rightarrow> (Inl e, s2) | (Inr _, s2) \<Rightarrow> body s2))"
  by (simp add: audited_call_def bindE_def split: prod.split sum.split)

text \<open>
  Also: resolving a capability type returns an available provider of that type, and the one that
  ranks first among all of them: in the namespace's listed order, then the unlisted ones by id;
  it returns none exactly when no provider is available.
\<close>

theorem resolve_prefers_listed:
  "(resolve_capability v t = None \<longleftrightarrow> (\<forall>c \<in> snd ` set (cv_available v). \<not> issubclass (cap_class c) t)) \<and>
   (resolve_capability v t = Some c \<longrightarrow>
      c \<in> snd ` set (cv_available v) \<and> issubclass (cap_class c) t \<and>
      (\<forall>d \<in> snd ` set (cv_available v). issubclass (cap_class d) t \<longrightarrow>
         rank_le (preference_rank v c) (preference_rank v d)))"
proof (cases "filter (\<lambda>c. issubclass (cap_class c) t) (map snd (cv_available v))")
  case Nil
  then show ?thesis by (auto simp: resolve_capability_def filter_empty_conv)
next
  case (Cons m ms)
  let ?le = "\<lambda>a b. rank_le (preference_rank v a) (preference_rank v b)"
  have set: "insert m (set ms) = {c \<in> snd ` set (cv_available v). issubclass (cap_class c) t}"
    using arg_cong [OF Cons, of set] by auto
  have r: "resolve_capability v t = Some (first_minimal ?le m ms)" by (simp add: resolve_capability_def Cons)
  have "?le (first_minimal ?le m ms) d" if "d \<in> insert m (set ms)" for d
    by (rule first_minimal_le [OF rank_le_total rank_le_trans that])
  moreover have "first_minimal ?le m ms \<in> insert m (set ms)" by (rule first_minimal_in)
  moreover have "\<not> (\<forall>c \<in> snd ` set (cv_available v). \<not> issubclass (cap_class c) t)"
    using set by blast
  ultimately show ?thesis unfolding set r by auto
qed

theorem resolve_prefers_listed_witness:
  "resolve_capability \<lparr>cv_available = [(''a'', sample_capability\<lparr>cap_id := ''a''\<rparr>), (''b'', sample_capability\<lparr>cap_id := ''b''\<rparr>)],
     cv_preference = [''b'']\<rparr> (PyClass ''Mailer'' []) = Some (sample_capability\<lparr>cap_id := ''b''\<rparr>)"
proof -
  let ?v = "\<lparr>cv_available = [(''a'', sample_capability\<lparr>cap_id := ''a''\<rparr>), (''b'', sample_capability\<lparr>cap_id := ''b''\<rparr>)],
     cv_preference = [''b'']\<rparr>"
  have r: "resolve_capability ?v (PyClass ''Mailer'' []) = Some (sample_capability\<lparr>cap_id := ''b''\<rparr>)"
    by (simp add: resolve_capability_def issubclass_def sample_capability_def rank_le_def preference_rank_def)
  from resolve_prefers_listed [of ?v "PyClass ''Mailer'' []" "sample_capability\<lparr>cap_id := ''b''\<rparr>"] r
  show ?thesis by blast
qed

end
