(* ===== verification/Merge_Point.thy ===== *)
theory Merge_Point
  imports State_Mirror Session_Inbox Session_Lock Durable Archive Operators
begin

text \<open>
  The sole-mutator merge point of \<^verbatim>\<open>orcastork/orchestrator/orchestrator.py\<close>: emissions and
  inbox entries are written through the mirror, audited, archived and acknowledged here
  (\<^verbatim>\<open>_merge_emissions\<close>, \<^verbatim>\<open>_merge_bookkeeping\<close>, \<^verbatim>\<open>_drain_inbox\<close> and what they call,
  \<^verbatim>\<open>_append_coalesced_audits\<close>).

  \<open>world\<close> is everything one session has behind the ports, in the in-memory adapters' state;
  \<open>orch\<close> extends it by what the orchestrator object holds. A call through a port may fail before
  it had any effect: \<open>w_faults\<close> is the sequence of such failures still to come, one entry for each
  port call (none once the list is empty), and every theorem holds for every sequence.
  \<open>run_config\<close> is what a run never changes, with the texts that come from outside the sources:
  \<^verbatim>\<open>str\<close> of a value and of an error, the author's \<^verbatim>\<open>audit_summary\<close>, and the wire codec.
\<close>

section \<open>The world behind the ports\<close>

record world =
  w_store :: session_state
  w_audit :: audit_state
  w_archive :: archive_state
  w_inbox :: inbox_state
  w_durable :: durable_state
  w_lock :: lock_state
  w_now :: instant
  w_mono :: seconds
  w_faults :: "orca_error option list"

text \<open>
  What the cipher provider resolved for the run. The passthrough counts as no cipher for the audit;
  the code tells it by its class.
\<close>

datatype resolved_cipher = NullCipher | InjectedCipher value_cipher

record orch = world +
  or_mirror :: mirror
  or_cipher :: "resolved_cipher option"
  or_coalesced :: "(string \<times> int) list"
  or_reobserved :: "(string \<times> int) list"
  or_undeclared :: "(operator_id \<times> string) list"

record run_config =
  rc_session :: session_id
  rc_namespace :: namespace_id
  rc_operators :: "operator_class list"
  rc_capabilities :: "capability_class list"
  rc_retry_policy :: retry_policy
  rc_max_inbox_deliveries :: int
  rc_codec :: codec
  rc_archive_cipher :: value_cipher
  rc_decode :: "string \<Rightarrow> string + pyval"
  rc_parse :: "pyval \<Rightarrow> orca_error + data_point"
  rc_value_text :: "pyval \<Rightarrow> string"
  rc_error_text :: "orca_error \<Rightarrow> string"
  rc_audit_summary :: "data_point \<Rightarrow> string option"

text \<open>A call through a port.\<close>

definition port :: "('a world_scheme, 'r) op \<Rightarrow> ('a world_scheme, 'r) op" where
  "port m w =
     (case w_faults w of
        [] \<Rightarrow> m w
      | None # fs \<Rightarrow> m (w\<lparr>w_faults := fs\<rparr>)
      | Some e # fs \<Rightarrow> (Inl e, w\<lparr>w_faults := fs\<rparr>))"

definition on_inbox :: "(inbox_state, 'r) op \<Rightarrow> ('a world_scheme, 'r) op" where
  "on_inbox f w = (case f (w_inbox w) of (r, i) \<Rightarrow> (r, w\<lparr>w_inbox := i\<rparr>))"

definition on_audit :: "(audit_state, 'r) op \<Rightarrow> ('a world_scheme, 'r) op" where
  "on_audit f w = (case f (w_audit w) of (r, a) \<Rightarrow> (r, w\<lparr>w_audit := a\<rparr>))"

definition on_archive :: "(archive_state, 'r) op \<Rightarrow> ('a world_scheme, 'r) op" where
  "on_archive f w = (case f (w_archive w) of (r, a) \<Rightarrow> (r, w\<lparr>w_archive := a\<rparr>))"

section \<open>Auditing one merge\<close>

definition audit_summary_text :: "run_config \<Rightarrow> resolved_cipher option \<Rightarrow> data_point \<Rightarrow> string" where
  "audit_summary_text c cipher d =
     (case rc_audit_summary c d of
        Some s \<Rightarrow> s
      | None \<Rightarrow>
          if is_pii d then (case cipher of Some (InjectedCipher k) \<Rightarrow> encrypt k (rc_value_text c (dp_value d)) | _ \<Rightarrow> ''<redacted>'')
          else rc_value_text c (dp_value d))"

definition data_point_audit_entry ::
  "run_config \<Rightarrow> resolved_cipher option \<Rightarrow> data_point \<Rightarrow> operator_id option \<Rightarrow> epoch \<Rightarrow> instant \<Rightarrow> audit_entry" where
  "data_point_audit_entry c cipher d oid e now =
     (audit_row e now DATA_POINT_ADDED)\<lparr>ae_operator_id := oid,
        ae_data_point := Some \<lparr>da_type = dp_type d, da_summary = audit_summary_text c cipher d\<rparr>\<rparr>"

definition operator_by_id :: "run_config \<Rightarrow> operator_id \<Rightarrow> operator_class option" where
  "operator_by_id c oid = map_of (rev (map (\<lambda>x. (op_id x, x)) (rc_operators c))) oid"

text \<open>The mismatch is logged once for each operator and type; the merge goes on.\<close>

definition check_emission_declared :: "run_config \<Rightarrow> operator_id \<Rightarrow> data_point \<Rightarrow> orch \<Rightarrow> orch" where
  "check_emission_declared c oid d w =
     (case operator_by_id c oid of
        None \<Rightarrow> w
      | Some x \<Rightarrow>
          if (\<exists>t \<in> set (op_produces x). issubclass (dp_pyclass d) t) then w
          else if (oid, dp_type d) \<in> set (or_undeclared w) then w
          else w\<lparr>or_undeclared := or_undeclared w @ [(oid, dp_type d)]\<rparr>)"

definition tally :: "string \<Rightarrow> (string \<times> int) list \<Rightarrow> (string \<times> int) list" where
  "tally t counts = AList.update t ((case map_of counts t of None \<Rightarrow> 0 | Some n \<Rightarrow> n) + 1) counts"

type_synonym emitted = "operator_id option \<times> data_point"

definition note_emission :: "run_config \<Rightarrow> emitted \<Rightarrow> orch \<Rightarrow> orch" where
  "note_emission c em w =
     (case fst em of None \<Rightarrow> w | Some oid \<Rightarrow> check_emission_declared c oid (snd em) w)"

record bookkeeping =
  bo_audit :: "audit_entry list"
  bo_archive :: "archived list"

text \<open>One iteration of the loop of \<^verbatim>\<open>_merge_bookkeeping\<close>.\<close>

definition bookkeep_one ::
  "run_config \<Rightarrow> epoch \<Rightarrow> emitted \<times> merge_result \<Rightarrow> bookkeeping \<times> orch \<Rightarrow> bookkeeping \<times> orch" where
  "bookkeep_one c e x st =
     (let d = snd (fst x);
          w = note_emission c (fst x) (snd st);
          b = fst st;
          (b1, w1) =
            (if \<not> audits_every_emission d then (b, w\<lparr>or_coalesced := tally (dp_type d) (or_coalesced w)\<rparr>)
             else if fst (snd x) = UPDATED then (b, w\<lparr>or_reobserved := tally (dp_type d) (or_reobserved w)\<rparr>)
             else (b\<lparr>bo_audit := bo_audit b @ [data_point_audit_entry c (or_cipher w) d (fst (fst x)) e (w_now w)]\<rparr>, w))
      in (if is_ephemeral d then b1
          else b1\<lparr>bo_archive := bo_archive b1 @ [archived_of d (rc_session c) (rc_namespace c) e]\<rparr>, w1))"

definition append_audit_entries :: "audit_entry list \<Rightarrow> (orch, unit) op" where
  "append_audit_entries entries =
     (case entries of
        [] \<Rightarrow> returnE ()
      | [entry] \<Rightarrow> port (on_audit (audit_append entry))
      | _ \<Rightarrow> port (on_audit (audit_append_many entries)))"

definition archive_entries :: "run_config \<Rightarrow> archived list \<Rightarrow> (orch, unit) op" where
  "archive_entries c entries =
     (case entries of
        [] \<Rightarrow> returnE ()
      | [entry] \<Rightarrow> port (on_archive (archive_one (rc_codec c) (rc_archive_cipher c) entry))
      | _ \<Rightarrow> port (on_archive (archive_many (rc_codec c) (rc_archive_cipher c) entries)))"

definition merge_bookkeeping :: "run_config \<Rightarrow> epoch \<Rightarrow> emitted list \<Rightarrow> merge_result list \<Rightarrow> (orch, unit) op" where
  "merge_bookkeeping c e emitted outcomes w =
     (case fold (bookkeep_one c e) (zip emitted outcomes) (\<lparr>bo_audit = [], bo_archive = []\<rparr>, w) of
        (b, w') \<Rightarrow> bindE (append_audit_entries (bo_audit b)) (\<lambda>_. archive_entries c (bo_archive b)) w')"

section \<open>Merging emissions\<close>

definition write_through :: "data_point list \<Rightarrow> epoch \<Rightarrow> (orch, revision \<times> merge_result list) op" where
  "write_through ds e = port (\<lambda>w. case mirror_write ds e (or_mirror w, w_store w) of
     (r, (m, s)) \<Rightarrow> (r, w\<lparr>or_mirror := m, w_store := s\<rparr>))"

definition merge_emissions :: "run_config \<Rightarrow> epoch \<Rightarrow> emitted list \<Rightarrow> (orch, unit) op" where
  "merge_emissions c e emitted =
     (if emitted = [] then returnE ()
      else bindE (write_through (map snd emitted) e) (\<lambda>(rv, outcomes). merge_bookkeeping c e emitted outcomes))"

section \<open>The inbox\<close>

definition apply_inbox_data_points :: "run_config \<Rightarrow> epoch \<Rightarrow> data_point list \<Rightarrow> (orch, unit) op" where
  "apply_inbox_data_points c e ds =
     bindE (write_through ds e) (\<lambda>(rv, outcomes).
       catchE (merge_bookkeeping c e (map (\<lambda>d. (None, d)) ds) outcomes)
         (\<lambda>err. if err = StaleEpochError then raiseE err else returnE ()))"

definition quarantine_inbox_entry :: "run_config \<Rightarrow> epoch \<Rightarrow> string \<Rightarrow> string \<Rightarrow> int \<Rightarrow> (orch, unit) op" where
  "quarantine_inbox_entry c e entry_id reason deliveries =
     bindE (port (on_inbox (inbox_quarantine entry_id reason e))) (\<lambda>_ w.
       port (on_audit (audit_append ((audit_row e (w_now w) INBOX_ENTRY_QUARANTINED)\<lparr>ae_inbox :=
         Some \<lparr>ia_entry = entry_id, ia_reason = reason, ia_delivery_count = deliveries\<rparr>\<rparr>))) w)"

definition apply_inbox_entry :: "run_config \<Rightarrow> epoch \<Rightarrow> string \<times> data_point \<times> int \<Rightarrow> (orch, unit) op" where
  "apply_inbox_entry c e entry w =
     (case entry of (i, d, deliveries) \<Rightarrow>
       (case apply_inbox_data_points c e [d] w of
          (Inl err, w') \<Rightarrow>
            if err = StaleEpochError then (Inl err, w')
            else if rc_max_inbox_deliveries c \<le> deliveries then quarantine_inbox_entry c e i (rc_error_text c err) deliveries w'
            else (Inr (), w')
        | (Inr _, w') \<Rightarrow> port (on_inbox (inbox_ack i e)) w'))"

fun poison_entries :: "delivered list \<Rightarrow> (string \<times> string \<times> int) list" where
  "poison_entries [] = []"
| "poison_entries (PoisonInboxEntry i err n p # ds) = (i, err, n) # poison_entries ds"
| "poison_entries (InboxEntry i d n # ds) = poison_entries ds"

fun valid_entries :: "delivered list \<Rightarrow> (string \<times> data_point \<times> int) list" where
  "valid_entries [] = []"
| "valid_entries (PoisonInboxEntry i err n p # ds) = valid_entries ds"
| "valid_entries (InboxEntry i d n # ds) = (i, d, n) # valid_entries ds"

definition apply_valid_entries :: "run_config \<Rightarrow> epoch \<Rightarrow> (string \<times> data_point \<times> int) list \<Rightarrow> (orch, unit) op" where
  "apply_valid_entries c e valid =
     (if length valid \<le> 1 then forE (apply_inbox_entry c e) valid
      else (\<lambda>w. case apply_inbox_data_points c e (map (\<lambda>x. fst (snd x)) valid) w of
         (Inl err, w') \<Rightarrow> if err = StaleEpochError then (Inl err, w') else forE (apply_inbox_entry c e) valid w'
       | (Inr _, w') \<Rightarrow> forE (\<lambda>x. port (on_inbox (inbox_ack (fst x) e))) valid w'))"

definition drain_inbox :: "run_config \<Rightarrow> epoch \<Rightarrow> (orch, unit) op" where
  "drain_inbox c e =
     bindE (port (on_inbox (inbox_reclaim (rc_decode c) (rc_parse c)))) (\<lambda>reclaimed.
     bindE (port (on_inbox (inbox_consume (rc_decode c) (rc_parse c) None))) (\<lambda>fresh.
     bindE (forE (\<lambda>(i, err, n). quarantine_inbox_entry c e i err n) (poison_entries (reclaimed @ fresh))) (\<lambda>_.
       apply_valid_entries c e (valid_entries (reclaimed @ fresh)))))"

section \<open>The coalesced counts\<close>

definition coalesced_rows :: "epoch \<Rightarrow> instant \<Rightarrow> string \<Rightarrow> (string \<times> int) list \<Rightarrow> audit_entry list" where
  "coalesced_rows e now what counts =
     map (\<lambda>(t, n). (audit_row e now DATA_POINTS_COALESCED)\<lparr>ae_data_point :=
       Some \<lparr>da_type = t, da_summary = show_int n @ '' '' @ what\<rparr>\<rparr>) (sort_key fst counts)"

definition append_coalesced_audits :: "epoch \<Rightarrow> (orch, unit) op" where
  "append_coalesced_audits e w =
     (let entries = coalesced_rows e (w_now w) ''merged'' (or_coalesced w) @
          coalesced_rows e (w_now w) ''re-observed'' (or_reobserved w)
      in if entries = [] then (Inr (), w)
         else append_audit_entries entries (w\<lparr>or_coalesced := [], or_reobserved := []\<rparr>))"


section \<open>Triples for calls through a port\<close>

lemma triple_port:
  assumes "triple P m Q E" and "\<And>w fs. P w \<Longrightarrow> P (w\<lparr>w_faults := fs\<rparr>)" and "\<And>w. P w \<Longrightarrow> E w"
  shows "triple P (port m) Q E"
proof (rule tripleI)
  fix w x w'
  assume "P w" "port m w = (Inr x, w')"
  then show "Q x w'" using assms(1,2) by (auto simp: port_def split: list.splits option.splits dest: triple_InrD)
next
  fix w e w'
  assume w: "P w" "port m w = (Inl e, w')"
  then show "E w'" using assms by (auto simp: port_def split: list.splits option.splits dest: triple_InlD)
qed

lemma triple_on_audit:
  assumes "\<And>w a. I w \<Longrightarrow> I (w\<lparr>w_audit := a\<rparr>)" and "\<And>w fs. I w \<Longrightarrow> I (w\<lparr>w_faults := fs\<rparr>)"
  shows "triple I (port (on_audit f)) (\<lambda>_. I) I"
proof (rule triple_port)
  show "triple I (on_audit f) (\<lambda>_. I) I"
    by (rule tripleI) (auto simp: on_audit_def intro: assms(1) split: prod.splits)
qed (use assms(2) in blast)+

lemma triple_on_archive:
  assumes "\<And>w a. I w \<Longrightarrow> I (w\<lparr>w_archive := a\<rparr>)" and "\<And>w fs. I w \<Longrightarrow> I (w\<lparr>w_faults := fs\<rparr>)"
  shows "triple I (port (on_archive f)) (\<lambda>_. I) I"
proof (rule triple_port)
  show "triple I (on_archive f) (\<lambda>_. I) I"
    by (rule tripleI) (auto simp: on_archive_def intro: assms(1) split: prod.splits)
qed (use assms(2) in blast)+

lemma triple_append_audits:
  assumes "\<And>w a. I w \<Longrightarrow> I (w\<lparr>w_audit := a\<rparr>)" and "\<And>w fs. I w \<Longrightarrow> I (w\<lparr>w_faults := fs\<rparr>)"
  shows "triple I (append_audit_entries es) (\<lambda>_. I) I"
  unfolding append_audit_entries_def using triple_on_audit [OF assms]
  by (auto split: list.split)

lemma triple_archive_entries:
  assumes "\<And>w a. I w \<Longrightarrow> I (w\<lparr>w_archive := a\<rparr>)" and "\<And>w fs. I w \<Longrightarrow> I (w\<lparr>w_faults := fs\<rparr>)"
  shows "triple I (archive_entries c es) (\<lambda>_. I) I"
  unfolding archive_entries_def using triple_on_archive [OF assms]
  by (auto split: list.split)

text \<open>What the bookkeeping of a merge leaves alone.\<close>

definition same_base :: "orch \<Rightarrow> orch \<Rightarrow> bool" where
  "same_base w w' \<longleftrightarrow> (\<exists>a r u. w' = w\<lparr>or_coalesced := a, or_reobserved := r, or_undeclared := u\<rparr>)"

lemma same_baseI: "w' = w\<lparr>or_coalesced := a, or_reobserved := r, or_undeclared := u\<rparr> \<Longrightarrow> same_base w w'"
  unfolding same_base_def by blast

lemma same_base_refl [simp]: "same_base w w"
  by (rule same_baseI [where a = "or_coalesced w" and r = "or_reobserved w" and u = "or_undeclared w"]) simp

lemma same_base_trans: "same_base u v \<Longrightarrow> same_base v w \<Longrightarrow> same_base u w"
  unfolding same_base_def by (elim exE) (simp, blast)

lemma same_baseD:
  assumes "same_base w w'"
  shows "w_store w' = w_store w" "w_audit w' = w_audit w" "w_archive w' = w_archive w" "w_inbox w' = w_inbox w"
    "w_now w' = w_now w" "w_faults w' = w_faults w" "or_mirror w' = or_mirror w" "or_cipher w' = or_cipher w"
  using assms by (auto simp: same_base_def)

lemma check_emission_declared_shape:
  "check_emission_declared c oid d w = w\<lparr>or_undeclared := or_undeclared (check_emission_declared c oid d w)\<rparr>"
  by (simp add: check_emission_declared_def split: option.split)

lemma note_emission_frame: "same_base w (note_emission c em w)"
proof (cases "fst em")
  case (Some oid)
  show ?thesis
    by (rule same_baseI [where a = "or_coalesced w" and r = "or_reobserved w" and u = "or_undeclared (check_emission_declared c oid (snd em) w)"])
      (simp add: note_emission_def Some check_emission_declared_shape [symmetric])
qed (simp add: note_emission_def)

lemma same_base_count [intro]:
  assumes "same_base w w1"
  shows "same_base w (w1\<lparr>or_coalesced := a\<rparr>)" "same_base w (w1\<lparr>or_reobserved := a\<rparr>)"
proof -
  show "same_base w (w1\<lparr>or_coalesced := a\<rparr>)"
    by (rule same_base_trans [OF assms same_baseI [where a = a and r = "or_reobserved w1" and u = "or_undeclared w1"]]) simp
  show "same_base w (w1\<lparr>or_reobserved := a\<rparr>)"
    by (rule same_base_trans [OF assms same_baseI [where a = "or_coalesced w1" and r = a and u = "or_undeclared w1"]]) simp
qed

lemma bookkeep_one_frame: "same_base w (snd (bookkeep_one c e x (b, w)))"
  using note_emission_frame [of w c "fst x"] by (auto simp: bookkeep_one_def Let_def)

lemma bookkeep_fold_frame: "same_base w (snd (fold (bookkeep_one c e) xs (b, w)))"
proof (induction xs arbitrary: b w)
  case (Cons x xs)
  obtain b1 w1 where "bookkeep_one c e x (b, w) = (b1, w1)" by (cases "bookkeep_one c e x (b, w)")
  with bookkeep_one_frame [of w c e x b] Cons [of w1 b1] show ?case by (auto intro: same_base_trans)
qed simp


section \<open>No inbox entry is lost\<close>

definition decodes :: "run_config \<Rightarrow> string \<Rightarrow> data_point \<Rightarrow> bool" where
  "decodes c p d \<longleftrightarrow> (\<exists>raw. rc_decode c p = Inr raw \<and> rc_parse c raw = Inr d)"

definition in_store :: "data_point \<Rightarrow> orch \<Rightarrow> bool" where
  "in_store d w \<longleftrightarrow> (\<exists>en. map_of (st_entries (w_store w)) (identity_key d) = Some en \<and> last_retrieved d \<le> last_retrieved (en_dp en))"

definition orch_inv :: "orch \<Rightarrow> bool" where
  "orch_inv w \<longleftrightarrow> mirror_ok (or_mirror w) (w_store w) \<and> store_inv (w_store w) \<and> distinct (map ms_id (ib_messages (w_inbox w)))"

definition waiting :: "string \<Rightarrow> string \<Rightarrow> orch \<Rightarrow> bool" where
  "waiting i p w \<longleftrightarrow> (i, p) \<in> set (wire (ib_messages (w_inbox w)))"

text \<open>An entry is accounted for: still in the inbox, quarantined, or applied to the store.\<close>

definition entry_safe :: "run_config \<Rightarrow> string \<Rightarrow> string \<Rightarrow> orch \<Rightarrow> bool" where
  "entry_safe c i p w \<longleftrightarrow> waiting i p w \<or> i \<in> qe_id ` set (ib_quarantined (w_inbox w)) \<or> (\<exists>d. decodes c p d \<and> in_store d w)"

definition drain_inv :: "run_config \<Rightarrow> string \<Rightarrow> string \<Rightarrow> orch \<Rightarrow> bool" where
  "drain_inv c i p w \<longleftrightarrow> orch_inv w \<and> entry_safe c i p w"

lemma drain_inv_same:
  assumes "drain_inv c i p w" and "w_store w' = w_store w" and "w_inbox w' = w_inbox w" and "or_mirror w' = or_mirror w"
  shows "drain_inv c i p w'"
  using assms by (simp add: drain_inv_def orch_inv_def entry_safe_def waiting_def in_store_def)

lemma in_store_same: "w_store w' = w_store w \<Longrightarrow> in_store d w' = in_store d w"
  by (simp add: in_store_def)

lemma in_store_grows:
  assumes "store_inv (w_store w)" and "in_store d w" and "w_store w' = snd (store_write ds e (w_store w))"
  shows "in_store d w'"
proof (cases "st_max_epoch (w_store w) \<le> e")
  case False
  then have "w_store w' = w_store w" using assms(3) by (simp add: store_write_def store_guard_epoch_def bindE_def)
  with assms(2) show ?thesis by (simp add: in_store_def)
next
  case True
  from assms(2) obtain en where en: "map_of (st_entries (w_store w)) (identity_key d) = Some en"
    "last_retrieved d \<le> last_retrieved (en_dp en)" unfolding in_store_def by blast
  have "map_of (st_entries (w_store w')) (identity_key d) =
      written_entry (st_revision (w_store w) + 1) (filter (\<lambda>x. identity_key x = identity_key d) ds) (Some en)"
    unfolding assms(3) by (simp only: store_write_lookup [OF True] en(1))
  moreover have "last_retrieved (en_dp en) \<le> last_retrieved (foldl merge_observation (en_dp en) xs)" for xs
    by (simp add: last_foldl_merge foldl_max_mono)
  ultimately show ?thesis using en(2) unfolding in_store_def
    by (auto simp: written_entry_def Let_def intro: order_trans)
qed

lemma bookkeeping_frame:
  assumes "merge_bookkeeping c e emitted outcomes w = (r, w')"
  shows "w_store w' = w_store w" "w_inbox w' = w_inbox w" "or_mirror w' = or_mirror w"
proof -
  obtain b w1 where f: "fold (bookkeep_one c e) (zip emitted outcomes) (\<lparr>bo_audit = [], bo_archive = []\<rparr>, w) = (b, w1)"
    by (cases "fold (bookkeep_one c e) (zip emitted outcomes) (\<lparr>bo_audit = [], bo_archive = []\<rparr>, w)")
  have b: "same_base w w1" using bookkeep_fold_frame [of w c e "zip emitted outcomes" "\<lparr>bo_audit = [], bo_archive = []\<rparr>"] f by simp
  let ?I = "\<lambda>v. w_store v = w_store w \<and> w_inbox v = w_inbox w \<and> or_mirror v = or_mirror w"
  have audit: "triple ?I (append_audit_entries es) (\<lambda>_. ?I) ?I" for es by (rule triple_append_audits) auto
  have archive: "triple ?I (archive_entries c es) (\<lambda>_. ?I) ?I" for es by (rule triple_archive_entries) auto
  have "triple ?I (bindE (append_audit_entries (bo_audit b)) (\<lambda>_. archive_entries c (bo_archive b))) (\<lambda>_. ?I) ?I"
    by (rule triple_bindE [OF audit archive])
  moreover have "?I w1" using same_baseD [OF b] by simp
  moreover have "bindE (append_audit_entries (bo_audit b)) (\<lambda>_. archive_entries c (bo_archive b)) w1 = (r, w')"
    using assms f by (simp add: merge_bookkeeping_def)
  ultimately have "?I w'" by (cases r) (auto dest: triple_InrD triple_InlD)
  then show "w_store w' = w_store w" "w_inbox w' = w_inbox w" "or_mirror w' = or_mirror w" by simp_all
qed


text \<open>\<open>applied ds\<close> holds once every data point of \<open>ds\<close> is in the store.\<close>

definition applied :: "data_point list \<Rightarrow> orch \<Rightarrow> bool" where
  "applied ds w \<longleftrightarrow> (\<forall>d \<in> set ds. in_store d w)"

lemma drain_inv_faults: "drain_inv c i p w \<Longrightarrow> drain_inv c i p (w\<lparr>w_faults := fs\<rparr>)"
  by (rule drain_inv_same) simp_all

lemma applied_faults: "applied ds w \<Longrightarrow> applied ds (w\<lparr>w_faults := fs\<rparr>)"
  by (simp add: applied_def in_store_def)

lemma write_through_triple:
  "triple (\<lambda>w. drain_inv c i p w \<and> applied as w) (write_through ds e)
     (\<lambda>_ w. drain_inv c i p w \<and> applied as w \<and> applied ds w) (\<lambda>w. drain_inv c i p w \<and> applied as w)"
  unfolding write_through_def
proof (rule triple_port)
  let ?f = "\<lambda>w. case mirror_write ds e (or_mirror w, w_store w) of (r, (m, s)) \<Rightarrow> (r, w\<lparr>or_mirror := m, w_store := s\<rparr>)"
  have step: "drain_inv c i p w' \<and> applied as w' \<and> (case r of Inl _ \<Rightarrow> True | Inr _ \<Rightarrow> applied ds w')"
    if w: "drain_inv c i p w" "applied as w" and f: "?f w = (r, w')" for w r w'
  proof -
    obtain m s where mw: "mirror_write ds e (or_mirror w, w_store w) = (r, (m, s))" and w': "w' = w\<lparr>or_mirror := m, w_store := s\<rparr>"
      using f by (auto split: prod.splits)
    have inv: "mirror_ok (or_mirror w) (w_store w)" "store_inv (w_store w)"
      using w(1) by (auto simp: drain_inv_def orch_inv_def)
    note wr = mirror_write_ok [OF inv mw]
    have s: "w_store w' = snd (store_write ds e (w_store w))" using wr(2) w' by simp
    have grow: "in_store d w \<Longrightarrow> in_store d w'" for d by (rule in_store_grows [OF inv(2) _ s])
    have "orch_inv w'" using w(1) wr(1) s store_write_inv [OF inv(2), of ds e] w'
      by (simp add: drain_inv_def orch_inv_def)
    moreover have "entry_safe c i p w'" using w(1) grow w' by (auto simp: drain_inv_def entry_safe_def waiting_def)
    moreover have "applied as w'" using w(2) grow by (simp add: applied_def)
    moreover have "applied ds w'" if "r = Inr x" for x
    proof -
      have "fst (store_write ds e (w_store w)) \<noteq> Inl StaleEpochError" using wr(3) that by auto
      then have "st_max_epoch (w_store w) \<le> e"
        by (rule contrapos_np) (simp add: store_write_def store_guard_epoch_def bindE_def)
      from store_write_absorbs [OF this] show ?thesis by (simp add: applied_def in_store_def s)
    qed
    ultimately show ?thesis by (simp add: drain_inv_def split: sum.split)
  qed
  show "triple (\<lambda>w. drain_inv c i p w \<and> applied as w) ?f
     (\<lambda>_ w. drain_inv c i p w \<and> applied as w \<and> applied ds w) (\<lambda>w. drain_inv c i p w \<and> applied as w)"
  proof (rule tripleI)
    fix w x w'
    assume w: "drain_inv c i p w \<and> applied as w" and f: "?f w = (Inr x, w')"
    from step [OF conjunct1 [OF w] conjunct2 [OF w] f] show "drain_inv c i p w' \<and> applied as w' \<and> applied ds w'" by simp
  next
    fix w err w'
    assume w: "drain_inv c i p w \<and> applied as w" and f: "?f w = (Inl err, w')"
    from step [OF conjunct1 [OF w] conjunct2 [OF w] f] show "drain_inv c i p w' \<and> applied as w'" by simp
  qed
qed (auto intro: drain_inv_faults applied_faults)

lemma apply_data_points_triple:
  "triple (drain_inv c i p) (apply_inbox_data_points c e ds) (\<lambda>_ w. drain_inv c i p w \<and> applied ds w) (drain_inv c i p)"
  unfolding apply_inbox_data_points_def
proof (rule triple_bindE)
  show "triple (drain_inv c i p) (write_through ds e) (\<lambda>_ w. drain_inv c i p w \<and> applied ds w) (drain_inv c i p)"
    by (rule triple_mono [OF write_through_triple [of c i p "[]"]]) (auto simp: applied_def)
  fix x :: "revision \<times> merge_result list"
  let ?P = "\<lambda>w. drain_inv c i p w \<and> applied ds w"
  have kept: "?P w'" if "?P w" and m: "merge_bookkeeping c e (map (\<lambda>d. (None, d)) ds) (snd x) w = (r, w')" for w r w'
    using that(1) drain_inv_same [OF _ bookkeeping_frame [OF m]] bookkeeping_frame(1) [OF m] by (auto simp: applied_def in_store_def)
  have "triple ?P (merge_bookkeeping c e (map (\<lambda>d. (None, d)) ds) (snd x)) (\<lambda>_. ?P) ?P"
    by (rule tripleI) (rule kept, assumption+)+
  then show "triple ?P (case x of (rv, outcomes) \<Rightarrow> catchE (merge_bookkeeping c e (map (\<lambda>d. (None, d)) ds) outcomes)
      (\<lambda>err. if err = StaleEpochError then raiseE err else returnE ())) (\<lambda>_. ?P) (drain_inv c i p)"
    by (cases x) (auto intro!: triple_catchE [where ?E1.0 = ?P])
qed

section \<open>Disposing of entries\<close>

lemma take_claimed_keeps:
  "(j, q) \<in> set (wire ms) \<Longrightarrow> j \<noteq> i \<Longrightarrow> (j, q) \<in> set (wire (snd (take_claimed i ms)))"
proof -
  assume "(j, q) \<in> set (wire ms)" and "j \<noteq> i"
  then have "(j, q) \<in> set (filter (\<lambda>p. fst p \<noteq> i) (wire ms))" by simp
  then have "(j, q) \<in> set (filter (\<lambda>p. fst p \<noteq> i) (wire (snd (take_claimed i ms))))" by (simp only: take_claimed_wire)
  then show "(j, q) \<in> set (wire (snd (take_claimed i ms)))" by simp
qed

lemma take_claimed_distinct: "distinct (map ms_id ms) \<Longrightarrow> distinct (map ms_id (snd (take_claimed i ms)))"
  by (cases "take_claimed i ms"; cases "fst (take_claimed i ms)") (auto dest: take_claimed_ids take_claimed_None)

lemma inbox_disposal_inv:
  assumes w: "drain_inv c i p w" and ms: "ib_messages b = snd (take_claimed j (ib_messages (w_inbox w)))"
    and q: "qe_id ` set (ib_quarantined (w_inbox w)) \<subseteq> qe_id ` set (ib_quarantined b)"
    and j: "j = i \<Longrightarrow> i \<in> qe_id ` set (ib_quarantined b) \<or> (\<exists>d. decodes c p d \<and> in_store d w)"
  shows "drain_inv c i p (w\<lparr>w_inbox := b\<rparr>)"
proof -
  have "orch_inv (w\<lparr>w_inbox := b\<rparr>)"
    using w take_claimed_distinct [of "ib_messages (w_inbox w)" j] by (simp add: drain_inv_def orch_inv_def ms)
  moreover have "entry_safe c i p (w\<lparr>w_inbox := b\<rparr>)"
  proof (cases "j = i")
    case True
    with j show ?thesis by (auto simp: entry_safe_def in_store_def)
  next
    case False
    with w q take_claimed_keeps [of i p "ib_messages (w_inbox w)" j] show ?thesis
      by (auto simp: drain_inv_def entry_safe_def waiting_def in_store_def ms)
  qed
  ultimately show ?thesis by (simp add: drain_inv_def)
qed

lemma ack_triple:
  assumes "\<And>w. P w \<Longrightarrow> drain_inv c i p w \<and> (j = i \<longrightarrow> (\<exists>d. decodes c p d \<and> in_store d w))"
    and "\<And>w b. P w \<Longrightarrow> drain_inv c i p (w\<lparr>w_inbox := b\<rparr>) \<Longrightarrow> P (w\<lparr>w_inbox := b\<rparr>)"
    and "\<And>w fs. P w \<Longrightarrow> P (w\<lparr>w_faults := fs\<rparr>)"
  shows "triple P (port (on_inbox (inbox_ack j e))) (\<lambda>_. P) P"
proof (rule triple_port)
  show "triple P (on_inbox (inbox_ack j e)) (\<lambda>_. P) P"
  proof (rule tripleI)
    fix w x w'
    assume w: "P w" and a: "on_inbox (inbox_ack j e) w = (Inr x, w')"
    then have e: "w' = w\<lparr>w_inbox := (w_inbox w)\<lparr>ib_max_epoch := e, ib_messages := snd (take_claimed j (ib_messages (w_inbox w)))\<rparr>\<rparr>"
      by (auto simp: on_inbox_def inbox_defs split: if_splits)
    show "P w'" unfolding e
      by (rule assms(2) [OF w], rule inbox_disposal_inv [where j = j]) (use assms(1) [OF w] in auto)
  next
    fix w err w'
    assume w: "P w" and a: "on_inbox (inbox_ack j e) w = (Inl err, w')"
    then have "w' = w" by (auto simp: on_inbox_def inbox_defs split: if_splits)
    with w show "P w'" by simp
  qed
qed (use assms(3) in blast)+

lemma quarantine_triple:
  "triple (drain_inv c i p) (quarantine_inbox_entry c e j reason n) (\<lambda>_. drain_inv c i p) (drain_inv c i p)"
  unfolding quarantine_inbox_entry_def
proof (rule triple_bindE)
  show "triple (drain_inv c i p) (port (on_inbox (inbox_quarantine j reason e))) (\<lambda>_. drain_inv c i p) (drain_inv c i p)"
  proof (rule triple_port)
    show "triple (drain_inv c i p) (on_inbox (inbox_quarantine j reason e)) (\<lambda>_. drain_inv c i p) (drain_inv c i p)"
    proof (rule tripleI)
      fix w x w'
      assume w: "drain_inv c i p w" and a: "on_inbox (inbox_quarantine j reason e) w = (Inr x, w')"
      show "drain_inv c i p w'"
      proof (cases "fst (take_claimed j (ib_messages (w_inbox w)))")
        case None
        then have "take_claimed j (ib_messages (w_inbox w)) = (None, snd (take_claimed j (ib_messages (w_inbox w))))" by (metis prod.collapse)
        with a have "w' = w\<lparr>w_inbox := (w_inbox w)\<lparr>ib_max_epoch := e\<rparr>\<rparr>"
          by (auto simp: on_inbox_def inbox_defs split: if_splits prod.splits)
        with w show ?thesis by (auto simp: drain_inv_def orch_inv_def entry_safe_def waiting_def in_store_def)
      next
        case (Some m)
        then have t: "take_claimed j (ib_messages (w_inbox w)) = (Some m, snd (take_claimed j (ib_messages (w_inbox w))))" by (metis prod.collapse)
        with a have e: "w' = w\<lparr>w_inbox := (w_inbox w)\<lparr>ib_max_epoch := e, ib_messages := snd (take_claimed j (ib_messages (w_inbox w))),
            ib_quarantined := ib_quarantined (w_inbox w) @ [\<lparr>qe_id = j, qe_reason = reason, qe_count = ms_count m, qe_payload = Some (ms_payload m)\<rparr>]\<rparr>\<rparr>"
          by (auto simp: on_inbox_def inbox_defs split: if_splits prod.splits)
        show ?thesis unfolding e by (rule inbox_disposal_inv [OF w, where j = j]) auto
      qed
    next
      fix w err w'
      assume w: "drain_inv c i p w" and a: "on_inbox (inbox_quarantine j reason e) w = (Inl err, w')"
      then have "w' = w" by (auto simp: on_inbox_def inbox_defs split: if_splits option.splits prod.splits)
      with w show "drain_inv c i p w'" by simp
    qed
  qed (auto intro: drain_inv_faults)
  fix x :: unit
  have "triple (drain_inv c i p) (port (on_audit f)) (\<lambda>_. drain_inv c i p) (drain_inv c i p)" for f :: "(audit_state, unit) op"
    by (rule triple_on_audit) (auto intro: drain_inv_same)
  then show "triple (drain_inv c i p) (\<lambda>w. port (on_audit (audit_append ((audit_row e (w_now w) INBOX_ENTRY_QUARANTINED)\<lparr>ae_inbox :=
         Some \<lparr>ia_entry = j, ia_reason = reason, ia_delivery_count = n\<rparr>\<rparr>))) w) (\<lambda>_. drain_inv c i p) (drain_inv c i p)"
    unfolding triple_def by blast
qed


section \<open>Draining\<close>

text \<open>Every entry a delivery hands out was decoded from the payload under its id.\<close>

definition sourced :: "(string \<Rightarrow> string + pyval) \<Rightarrow> (pyval \<Rightarrow> orca_error + data_point) \<Rightarrow> inbox_message list \<Rightarrow> delivered list \<Rightarrow> bool" where
  "sourced dec prs ms ds \<longleftrightarrow> (\<forall>x \<in> set (valid_entries ds). \<exists>q raw. (fst x, q) \<in> set (wire ms) \<and> dec q = Inr raw \<and> prs raw = Inr (fst (snd x)))"

lemma sourced_Nil: "sourced dec prs ms []"
  by (simp add: sourced_def)

lemma sourced_weaken: "sourced dec prs ms ds \<Longrightarrow> sourced dec prs (m # ms) ds"
  by (fastforce simp: sourced_def)

lemma sourced_Cons:
  assumes "to_entry dec prs (m\<lparr>ms_claimed := b, ms_count := n\<rparr>) = Inr d" and "sourced dec prs ms ds"
  shows "sourced dec prs (m # ms) (d # ds)"
  using assms(1) sourced_weaken [OF assms(2), of m]
  by (cases d) (simp_all add: sourced_def to_entry_def split: sum.splits, blast)


lemma consume_loop_sourced: "consume_loop dec prs cap n ms = (Inr ds, ms') \<Longrightarrow> sourced dec prs ms ds"
proof (induction ms arbitrary: n ds ms')
  case (Cons m ms)
  let ?stop = "case cap of None \<Rightarrow> False | Some k \<Rightarrow> k \<le> n"
  consider "?stop" | "\<not> ?stop" "ms_claimed m" | "\<not> ?stop" "\<not> ms_claimed m" by blast
  then show ?case
  proof cases
    case 1
    with Cons.prems show ?thesis by (simp add: sourced_Nil)
  next
    case 2
    with Cons.prems obtain ns where "consume_loop dec prs cap n ms = (Inr ds, ns)" by (auto split: prod.splits)
    from Cons.IH [OF this] show ?thesis by (rule sourced_weaken)
  next
    case 3
    with Cons.prems obtain d es ns where d: "to_entry dec prs (m\<lparr>ms_claimed := True, ms_count := ms_count m + 1\<rparr>) = Inr d"
      and rec: "consume_loop dec prs cap (n + 1) ms = (Inr es, ns)" and "ds = d # es"
      by (auto simp: Let_def split: prod.splits sum.splits)
    with sourced_Cons [OF d Cons.IH [OF rec]] show ?thesis by simp
  qed
qed (simp add: sourced_Nil)

lemma reclaim_loop_sourced: "reclaim_loop dec prs ms = (Inr ds, ms') \<Longrightarrow> sourced dec prs ms ds"
proof (induction ms arbitrary: ds ms')
  case (Cons m ms)
  show ?case
  proof (cases "ms_claimed m")
    case False
    with Cons.prems obtain ns where "reclaim_loop dec prs ms = (Inr ds, ns)" by (auto split: prod.splits)
    from Cons.IH [OF this] show ?thesis by (rule sourced_weaken)
  next
    case True
    with Cons.prems obtain d es ns where d: "to_entry dec prs (m\<lparr>ms_claimed := True, ms_count := ms_count m + 1\<rparr>) = Inr d"
      and rec: "reclaim_loop dec prs ms = (Inr es, ns)" and "ds = d # es"
      by (cases m) (auto simp: Let_def split: prod.splits sum.splits)
    with sourced_Cons [OF d Cons.IH [OF rec]] show ?thesis by simp
  qed
qed (simp add: sourced_Nil)

lemma valid_entries_append: "valid_entries (xs @ ys) = valid_entries xs @ valid_entries ys"
  by (induction xs rule: valid_entries.induct) auto

text \<open>The entries that concern the message under watch carry its data point.\<close>

definition faithful :: "run_config \<Rightarrow> string \<Rightarrow> string \<Rightarrow> (string \<times> data_point \<times> int) list \<Rightarrow> bool" where
  "faithful c i p xs \<longleftrightarrow> (\<forall>x \<in> set xs. fst x = i \<longrightarrow> decodes c p (fst (snd x)))"

lemma sourced_faithful:
  assumes "sourced (rc_decode c) (rc_parse c) ms ds" and "distinct (map ms_id ms)" and "(i, p) \<in> set (wire ms)"
  shows "faithful c i p (valid_entries ds)"
proof -
  have "q = p" if "(i, q) \<in> set (wire ms)" for q
    using eq_key_imp_eq_value [of "wire ms" i q p] that assms(2,3) by (simp add: wire_ids)
  with assms(1) show ?thesis unfolding faithful_def sourced_def decodes_def by blast
qed

definition watched :: "run_config \<Rightarrow> string \<Rightarrow> string \<Rightarrow> orch \<Rightarrow> bool" where
  "watched c i p w \<longleftrightarrow> orch_inv w \<and> waiting i p w"

lemma watched_drain_inv: "watched c i p w \<Longrightarrow> drain_inv c i p w"
  by (simp add: watched_def drain_inv_def entry_safe_def)

lemma watched_faults: "watched c i p w \<Longrightarrow> watched c i p (w\<lparr>w_faults := fs\<rparr>)"
  by (simp add: watched_def orch_inv_def waiting_def)

lemma watched_wire:
  assumes "watched c i p w" and "wire ms = wire (ib_messages (w_inbox w))"
  shows "watched c i p (w\<lparr>w_inbox := (w_inbox w)\<lparr>ib_messages := ms\<rparr>\<rparr>)"
proof -
  have "map ms_id ms = map ms_id (ib_messages (w_inbox w))" using assms(2) by (metis wire_ids)
  with assms show ?thesis by (simp add: watched_def orch_inv_def waiting_def)
qed

lemma reclaim_triple:
  "triple (watched c i p) (port (on_inbox (inbox_reclaim (rc_decode c) (rc_parse c))))
     (\<lambda>ds w. watched c i p w \<and> faithful c i p (valid_entries ds)) (watched c i p)"
proof (rule triple_port)
  have step: "watched c i p w' \<and> (\<forall>ds. r = Inr ds \<longrightarrow> faithful c i p (valid_entries ds))"
    if w: "watched c i p w" and a: "on_inbox (inbox_reclaim (rc_decode c) (rc_parse c)) w = (r, w')" for w r w'
  proof -
    obtain ms where l: "reclaim_loop (rc_decode c) (rc_parse c) (ib_messages (w_inbox w)) = (r, ms)"
      and w': "w' = w\<lparr>w_inbox := (w_inbox w)\<lparr>ib_messages := ms\<rparr>\<rparr>"
      using a by (auto simp: on_inbox_def inbox_reclaim_def split: prod.splits)
    have "watched c i p w'" unfolding w' by (rule watched_wire [OF w reclaim_loop_wire [OF l]])
    with w l show ?thesis
      by (auto simp: watched_def orch_inv_def waiting_def dest!: reclaim_loop_sourced intro!: sourced_faithful)
  qed
  show "triple (watched c i p) (on_inbox (inbox_reclaim (rc_decode c) (rc_parse c)))
     (\<lambda>ds w. watched c i p w \<and> faithful c i p (valid_entries ds)) (watched c i p)"
    by (rule tripleI) (use step in blast)+
qed (auto intro: watched_faults)

lemma consume_triple:
  "triple (watched c i p) (port (on_inbox (inbox_consume (rc_decode c) (rc_parse c) None)))
     (\<lambda>ds w. watched c i p w \<and> faithful c i p (valid_entries ds)) (watched c i p)"
proof (rule triple_port)
  have step: "watched c i p w' \<and> (\<forall>ds. r = Inr ds \<longrightarrow> faithful c i p (valid_entries ds))"
    if w: "watched c i p w" and a: "on_inbox (inbox_consume (rc_decode c) (rc_parse c) None) w = (r, w')" for w r w'
  proof -
    obtain ms where l: "consume_loop (rc_decode c) (rc_parse c) None 0 (ib_messages (w_inbox w)) = (r, ms)"
      and w': "w' = w\<lparr>w_inbox := (w_inbox w)\<lparr>ib_messages := ms\<rparr>\<rparr>"
      using a by (auto simp: on_inbox_def inbox_consume_def split: prod.splits)
    have "watched c i p w'" unfolding w' by (rule watched_wire [OF w consume_loop_wire [OF l]])
    with w l show ?thesis
      by (auto simp: watched_def orch_inv_def waiting_def dest!: consume_loop_sourced intro!: sourced_faithful)
  qed
  show "triple (watched c i p) (on_inbox (inbox_consume (rc_decode c) (rc_parse c) None))
     (\<lambda>ds w. watched c i p w \<and> faithful c i p (valid_entries ds)) (watched c i p)"
    by (rule tripleI) (use step in blast)+
qed (auto intro: watched_faults)

lemma apply_entry_triple:
  assumes "fst x = i \<longrightarrow> decodes c p (fst (snd x))"
  shows "triple (drain_inv c i p) (apply_inbox_entry c e x) (\<lambda>_. drain_inv c i p) (drain_inv c i p)"
proof -
  obtain j d n where x: "x = (j, d, n)" by (cases x) auto
  let ?A = "\<lambda>w. drain_inv c i p w \<and> applied [d] w"
  have ack: "triple ?A (port (on_inbox (inbox_ack j e))) (\<lambda>_. ?A) ?A"
    by (rule ack_triple [where c = c and i = i and p = p])
      (use assms x in \<open>auto simp: applied_def in_store_def intro: drain_inv_faults\<close>)
  have step: "drain_inv c i p w'" if w: "drain_inv c i p w" and a: "apply_inbox_entry c e x w = (r, w')" for w r w'
  proof (cases "apply_inbox_data_points c e [d] w")
    case (Pair r1 w1)
    show ?thesis
    proof (cases r1)
      case (Inl err)
      with triple_InlD [OF apply_data_points_triple w] Pair have w1: "drain_inv c i p w1" by blast
      have "drain_inv c i p (snd (quarantine_inbox_entry c e j t n w1))" for t
        using quarantine_triple [of c i p e j t n] w1 by (cases "quarantine_inbox_entry c e j t n w1"; cases "fst (quarantine_inbox_entry c e j t n w1)")
          (auto dest: triple_InrD triple_InlD)
      with a w1 Pair Inl x show ?thesis by (auto simp: apply_inbox_entry_def split: if_splits) (metis snd_conv)
    next
      case (Inr u)
      with triple_InrD [OF apply_data_points_triple w] Pair have w1: "?A w1" by blast
      from a Pair Inr x have "port (on_inbox (inbox_ack j e)) w1 = (r, w')" by (simp add: apply_inbox_entry_def)
      with triple_InrD [OF ack w1] triple_InlD [OF ack w1] show ?thesis by (cases r) auto
    qed
  qed
  show ?thesis by (rule tripleI) (use step in blast)+
qed


lemma apply_valid_triple:
  assumes f: "faithful c i p valid"
  shows "triple (drain_inv c i p) (apply_valid_entries c e valid) (\<lambda>_. drain_inv c i p) (drain_inv c i p)"
proof (cases "length valid \<le> 1")
  case True
  with f show ?thesis
    by (simp add: apply_valid_entries_def) (rule triple_forE, rule apply_entry_triple, simp add: faithful_def)
next
  case False
  let ?ds = "map (\<lambda>x. fst (snd x)) valid"
  let ?A = "\<lambda>w. drain_inv c i p w \<and> applied ?ds w"
  have acks: "triple ?A (forE (\<lambda>x. port (on_inbox (inbox_ack (fst x) e))) valid) (\<lambda>_. ?A) ?A"
  proof (rule triple_forE, rule ack_triple [where c = c and i = i and p = p])
    fix x w
    assume x: "x \<in> set valid" and w: "?A w"
    then have "in_store (fst (snd x)) w" by (auto simp: applied_def)
    with f x w show "drain_inv c i p w \<and> (fst x = i \<longrightarrow> (\<exists>d. decodes c p d \<and> in_store d w))"
      by (auto simp: faithful_def)
  qed (auto simp: applied_def in_store_def intro: drain_inv_faults)
  have fallback: "triple (drain_inv c i p) (forE (apply_inbox_entry c e) valid) (\<lambda>_. drain_inv c i p) (drain_inv c i p)"
    by (rule triple_forE, rule apply_entry_triple) (use f in \<open>simp add: faithful_def\<close>)
  have step: "drain_inv c i p w'" if w: "drain_inv c i p w" and a: "apply_valid_entries c e valid w = (r, w')" for w r w'
  proof (cases "apply_inbox_data_points c e ?ds w")
    case (Pair r1 w1)
    show ?thesis
    proof (cases r1)
      case (Inl err)
      with triple_InlD [OF apply_data_points_triple w] Pair have w1: "drain_inv c i p w1" by blast
      show ?thesis
      proof (cases "err = StaleEpochError")
        case True
        with a w1 Pair Inl \<open>\<not> length valid \<le> 1\<close> show ?thesis by (simp add: apply_valid_entries_def)
      next
        case False
        with a Pair Inl \<open>\<not> length valid \<le> 1\<close> have "forE (apply_inbox_entry c e) valid w1 = (r, w')"
          by (simp add: apply_valid_entries_def)
        with triple_InrD [OF fallback w1] triple_InlD [OF fallback w1] show ?thesis by (cases r) auto
      qed
    next
      case (Inr u)
      with triple_InrD [OF apply_data_points_triple w] Pair have w1: "?A w1" by blast
      from a Pair Inr False have "forE (\<lambda>x. port (on_inbox (inbox_ack (fst x) e))) valid w1 = (r, w')"
        by (simp add: apply_valid_entries_def)
      with triple_InrD [OF acks w1] triple_InlD [OF acks w1] show ?thesis by (cases r) auto
    qed
  qed
  show ?thesis by (rule tripleI) (use step in blast)+
qed

lemma drain_triple:
  "triple (watched c i p) (drain_inbox c e) (\<lambda>_. drain_inv c i p) (drain_inv c i p)"
  unfolding drain_inbox_def
proof (rule triple_bindE [where Q = "\<lambda>ds w. watched c i p w \<and> faithful c i p (valid_entries ds)"])
  show "triple (watched c i p) (port (on_inbox (inbox_reclaim (rc_decode c) (rc_parse c))))
     (\<lambda>ds w. watched c i p w \<and> faithful c i p (valid_entries ds)) (drain_inv c i p)"
    by (rule triple_mono [OF reclaim_triple]) (auto dest: watched_drain_inv)
  fix reclaimed
  let ?W = "\<lambda>w. watched c i p w \<and> faithful c i p (valid_entries reclaimed)"
  let ?V = "\<lambda>fresh w. drain_inv c i p w \<and> faithful c i p (valid_entries (reclaimed @ fresh))"
  show "triple ?W (bindE (port (on_inbox (inbox_consume (rc_decode c) (rc_parse c) None))) (\<lambda>fresh.
      bindE (forE (\<lambda>(i, err, n). quarantine_inbox_entry c e i err n) (poison_entries (reclaimed @ fresh))) (\<lambda>_.
       apply_valid_entries c e (valid_entries (reclaimed @ fresh))))) (\<lambda>_. drain_inv c i p) (drain_inv c i p)"
  proof (rule triple_bindE [where Q = ?V])
    show "triple ?W (port (on_inbox (inbox_consume (rc_decode c) (rc_parse c) None))) ?V (drain_inv c i p)"
      by (cases "faithful c i p (valid_entries reclaimed)", rule triple_mono [OF consume_triple])
        (auto simp: faithful_def valid_entries_append triple_def dest: watched_drain_inv)
    fix fresh
    show "triple (?V fresh) (bindE (forE (\<lambda>(i, err, n). quarantine_inbox_entry c e i err n) (poison_entries (reclaimed @ fresh))) (\<lambda>_.
       apply_valid_entries c e (valid_entries (reclaimed @ fresh)))) (\<lambda>_. drain_inv c i p) (drain_inv c i p)"
    proof (cases "faithful c i p (valid_entries (reclaimed @ fresh))")
      case True
      have q: "triple (drain_inv c i p) (forE (\<lambda>(i, err, n). quarantine_inbox_entry c e i err n) (poison_entries (reclaimed @ fresh)))
          (\<lambda>_. drain_inv c i p) (drain_inv c i p)"
        by (rule triple_forE) (auto intro: quarantine_triple)
      show ?thesis
        by (rule triple_mono [OF triple_bindE [OF q apply_valid_triple [OF True]]]) simp_all
    qed (simp add: triple_def)
  qed
qed

text \<open>
  C13: draining the inbox never loses an entry. Whatever the entries are and whichever port calls
  fail on the way, with whatever errors, an entry that was in the inbox when the drain began is
  afterwards still in the inbox, or was quarantined, or its decoded data point is in the store with
  at least its observation time; and the mirror still agrees with the store.
\<close>

theorem drain_loses_nothing:
  assumes "orch_inv w" and "(i, p) \<in> set (wire (ib_messages (w_inbox w)))" and "drain_inbox c e w = (r, w')"
  shows "((i, p) \<in> set (wire (ib_messages (w_inbox w'))) \<or> i \<in> qe_id ` set (ib_quarantined (w_inbox w')) \<or>
     (\<exists>d. decodes c p d \<and> in_store d w')) \<and> orch_inv w'"
proof -
  have w: "watched c i p w" using assms(1,2) by (simp add: watched_def waiting_def)
  have "drain_inv c i p w'"
    using triple_InrD [OF drain_triple w] triple_InlD [OF drain_triple w] assms(3) by (cases r) auto
  then show ?thesis by (simp add: drain_inv_def entry_safe_def waiting_def)
qed

definition demo_config :: run_config where
  "demo_config = \<lparr>rc_session = ''s'', rc_namespace = ''n'', rc_operators = [], rc_capabilities = [],
     rc_retry_policy = \<lparr>max_attempts = 1, base_delay = 0, jitter = 0\<rparr>, rc_max_inbox_deliveries = 5, rc_codec = demo_codec,
     rc_archive_cipher = demo_cipher, rc_decode = sample_dec, rc_parse = sample_prs,
     rc_value_text = (\<lambda>v. case v of PStr t \<Rightarrow> t | _ \<Rightarrow> ''{}''), rc_error_text = (\<lambda>_. ''error''), rc_audit_summary = (\<lambda>_. None)\<rparr>"

definition demo_orch :: orch where
  "demo_orch = \<lparr>w_store = empty_session, w_audit = new_audit, w_archive = new_archive,
     w_inbox = snd (append_serialized ''m1'' ''x'' new_inbox), w_durable = new_durable, w_lock = new_lock, w_now = 0, w_mono = 0,
     w_faults = [None, None, Some (OtherError ''timeout'')], or_mirror = sample_mirror, or_cipher = None, or_coalesced = [],
     or_reobserved = [], or_undeclared = []\<rparr>"

lemma demo_orch_inv: "orch_inv demo_orch"
  by (simp add: orch_inv_def demo_orch_def sample_mirror_ok store_inv_empty append_serialized_def new_inbox_def)

theorem drain_loses_nothing_witness:
  "(''m1'', ''x'') \<in> set (wire (ib_messages (w_inbox (snd (drain_inbox demo_config 1 demo_orch))))) \<or>
   ''m1'' \<in> qe_id ` set (ib_quarantined (w_inbox (snd (drain_inbox demo_config 1 demo_orch)))) \<or>
   (\<exists>d. decodes demo_config ''x'' d \<and> in_store d (snd (drain_inbox demo_config 1 demo_orch)))"
proof -
  have m: "(''m1'', ''x'') \<in> set (wire (ib_messages (w_inbox demo_orch)))"
    by (simp add: demo_orch_def append_serialized_def new_inbox_def)
  show ?thesis
    by (rule drain_loses_nothing [OF demo_orch_inv m, THEN conjunct1, of demo_config 1 "fst (drain_inbox demo_config 1 demo_orch)"]) simp
qed


section \<open>Every merge is accounted for\<close>

definition total :: "(string \<times> int) list \<Rightarrow> int" where
  "total counts = sum_list (map snd counts)"

lemma total_tally: "total (tally t counts) = total counts + 1"
proof -
  have "sum_list (map snd (AList.update t v counts)) = sum_list (map snd counts) - (case map_of counts t of None \<Rightarrow> 0 | Some n \<Rightarrow> n) + v"
    for v :: int by (induction counts) auto
  then show ?thesis by (simp add: total_def tally_def)
qed

text \<open>Audit rows and counted merges of an orchestrator.\<close>

definition accounted :: "orch \<Rightarrow> int" where
  "accounted w = int (length (replay (w_audit w))) + total (or_coalesced w) + total (or_reobserved w)"

lemma note_emission_counts [simp]:
  "or_coalesced (note_emission c em w) = or_coalesced w" "or_reobserved (note_emission c em w) = or_reobserved w"
  by (auto simp: note_emission_def check_emission_declared_def split: option.split)

lemma bookkeep_one_counts:
  "bookkeep_one c e x (b, w) = (b', w') \<Longrightarrow>
     int (length (bo_audit b')) + total (or_coalesced w') + total (or_reobserved w') =
     int (length (bo_audit b)) + total (or_coalesced w) + total (or_reobserved w) + 1"
  by (auto simp: bookkeep_one_def Let_def total_tally split: if_splits)

lemma bookkeep_fold_counts:
  "fold (bookkeep_one c e) xs (b, w) = (b', w') \<Longrightarrow>
     int (length (bo_audit b')) + total (or_coalesced w') + total (or_reobserved w') =
     int (length (bo_audit b)) + total (or_coalesced w) + total (or_reobserved w) + int (length xs)"
proof (induction xs arbitrary: b w)
  case (Cons x xs)
  obtain b1 w1 where s: "bookkeep_one c e x (b, w) = (b1, w1)" by (cases "bookkeep_one c e x (b, w)")
  with Cons.prems have "fold (bookkeep_one c e) xs (b1, w1) = (b', w')" by simp
  from Cons.IH [OF this] bookkeep_one_counts [OF s] show ?case by simp
qed simp

lemma audit_append_many_commits:
  "audit_append_many es s = (Inr (), s') \<Longrightarrow> au_committed s' = au_committed s @ es"
  by (induction es arbitrary: s) (auto simp: audit_append_def bindE_def split: if_splits)

lemma port_on_audit_Inr:
  assumes "port (on_audit f) w = (Inr x, w')"
  obtains fs a where "f (w_audit w) = (Inr x, a)" and "w' = w\<lparr>w_faults := fs, w_audit := a\<rparr>"
proof -
  from assms consider "w_faults w = []" | fs where "w_faults w = None # fs"
    by (auto simp: port_def split: list.splits option.splits)
  then show ?thesis
  proof cases
    case 1
    with assms that [of _ "[]"] show ?thesis by (auto simp: port_def on_audit_def split: prod.splits)
  next
    case (2 fs)
    with assms that [of _ fs] show ?thesis by (auto simp: port_def on_audit_def split: prod.splits)
  qed
qed

lemma append_audits_commits:
  assumes "append_audit_entries es w = (Inr (), w')"
  shows "replay (w_audit w') = replay (w_audit w) @ es \<and> or_coalesced w' = or_coalesced w \<and> or_reobserved w' = or_reobserved w"
proof -
  consider "es = []" | entry where "es = [entry]" | x y zs where "es = x # y # zs" by (metis neq_Nil_conv)
  then show ?thesis
  proof cases
    case 1
    with assms show ?thesis by (simp add: append_audit_entries_def returnE_def)
  next
    case (2 entry)
    with assms have "port (on_audit (audit_append entry)) w = (Inr (), w')" by (simp add: append_audit_entries_def)
    then show ?thesis by (rule port_on_audit_Inr) (auto simp: replay_def audit_append_def 2 split: if_splits)
  next
    case (3 x y zs)
    with assms have "port (on_audit (audit_append_many es)) w = (Inr (), w')" by (simp add: append_audit_entries_def)
    then show ?thesis by (rule port_on_audit_Inr) (auto simp: replay_def dest: audit_append_many_commits)
  qed
qed

lemma archive_entries_counts:
  assumes "archive_entries c es w = (Inr (), w')"
  shows "w_audit w' = w_audit w \<and> or_coalesced w' = or_coalesced w \<and> or_reobserved w' = or_reobserved w"
proof -
  let ?I = "\<lambda>v. w_audit v = w_audit w \<and> or_coalesced v = or_coalesced w \<and> or_reobserved v = or_reobserved w"
  have "triple ?I (archive_entries c es) (\<lambda>_. ?I) ?I" by (rule triple_archive_entries) auto
  from triple_InrD [OF this _ assms] show ?thesis by simp
qed

lemma bookkeeping_accounts:
  assumes "merge_bookkeeping c e emitted outcomes w = (Inr (), w')" and "length outcomes = length emitted"
  shows "accounted w' = accounted w + int (length emitted)"
proof -
  obtain b w1 where f: "fold (bookkeep_one c e) (zip emitted outcomes) (\<lparr>bo_audit = [], bo_archive = []\<rparr>, w) = (b, w1)"
    by (cases "fold (bookkeep_one c e) (zip emitted outcomes) (\<lparr>bo_audit = [], bo_archive = []\<rparr>, w)")
  have au: "w_audit w1 = w_audit w"
    using same_baseD(2) [OF bookkeep_fold_frame [of w c e "zip emitted outcomes" "\<lparr>bo_audit = [], bo_archive = []\<rparr>"]] f by simp
  from assms(1) f obtain w2 where a: "append_audit_entries (bo_audit b) w1 = (Inr (), w2)" "archive_entries c (bo_archive b) w2 = (Inr (), w')"
    by (auto simp: merge_bookkeeping_def elim: bindE_InrD)
  show ?thesis
    using bookkeep_fold_counts [OF f] append_audits_commits [OF a(1)] archive_entries_counts [OF a(2)] assms(2) au
    by (simp add: accounted_def)
qed

lemma resolve_outcomes_length: "length (res_outcomes (mirror_resolve m ds)) = length ds"
proof (induction ds rule: rev_induct)
  case (snoc d ds)
  then show ?case by (simp add: mirror_resolve_def resolve_one_def Let_def split: option.split)
qed (simp add: mirror_resolve_def empty_resolution_def)

lemma write_through_Inr:
  assumes "write_through ds e w = (Inr (rv, outcomes), w')"
  shows "length outcomes = length ds \<and> accounted w' = accounted w"
  using assms
  by (auto simp: write_through_def port_def mirror_write_def accounted_def Let_def resolve_outcomes_length
      split: list.splits option.splits prod.splits sum.splits if_splits)

text \<open>
  Also: every merge is accounted for exactly once: a merge of \<open>n\<close> emissions that returns has added
  exactly \<open>n\<close> to the audit rows and the counters for coalesced and re-observed merges together,
  so the trail with its coalesced counts never under- or over-reports.
\<close>

theorem merge_accounted:
  assumes "merge_emissions c e emitted w = (Inr (), w')"
  shows "accounted w' = accounted w + int (length emitted)"
proof (cases "emitted = []")
  case True
  with assms show ?thesis by (simp add: merge_emissions_def returnE_def)
next
  case False
  with assms obtain rv outcomes w1 where a: "write_through (map snd emitted) e w = (Inr (rv, outcomes), w1)"
    "merge_bookkeeping c e emitted outcomes w1 = (Inr (), w')"
    by (auto simp: merge_emissions_def elim: bindE_InrD)
  from write_through_Inr [OF a(1)] bookkeeping_accounts [OF a(2)] show ?thesis by simp
qed

theorem merge_accounted_witness:
  "accounted (snd (merge_emissions demo_config 1 [(None, sample_dp ''a'' 1), (None, sample_dp ''a'' 2)] (demo_orch\<lparr>w_faults := []\<rparr>)))
     = accounted (demo_orch\<lparr>w_faults := []\<rparr>) + 2"
proof -
  let ?m = "merge_emissions demo_config 1 [(None, sample_dp ''a'' 1), (None, sample_dp ''a'' 2)] (demo_orch\<lparr>w_faults := []\<rparr>)"
  have "fst ?m = Inr ()" by code_simp
  then have "?m = (Inr (), snd ?m)" by (metis prod.collapse)
  from merge_accounted [OF this] show ?thesis by simp
qed


section \<open>A healthy drain empties the inbox\<close>

text \<open>No port call is going to fail and no component has seen an epoch above \<open>e\<close>.\<close>

definition healthy :: "epoch \<Rightarrow> orch \<Rightarrow> bool" where
  "healthy e w \<longleftrightarrow> w_faults w = [] \<and> orch_inv w \<and> st_max_epoch (w_store w) \<le> e \<and> ib_max_epoch (w_inbox w) \<le> e \<and>
     au_max_epoch (w_audit w) \<le> e \<and> arc_max_epoch (w_archive w) \<le> e"

definition left :: "epoch \<Rightarrow> string set \<Rightarrow> orch \<Rightarrow> bool" where
  "left e K w \<longleftrightarrow> healthy e w \<and> (\<forall>m \<in> set (ib_messages (w_inbox w)). ms_claimed m \<and> ms_id m \<in> K)"

abbreviation never :: "orch \<Rightarrow> bool" where
  "never \<equiv> \<lambda>_. False"

lemma port_healthy: "healthy e w \<Longrightarrow> port m w = m w"
  by (simp add: healthy_def port_def)

lemma healthy_triple_port:
  assumes "triple P m Q never" and "\<And>w. P w \<Longrightarrow> healthy e w"
  shows "triple P (port m) Q never"
proof (rule tripleI)
  fix w x w'
  assume w: "P w" and "port m w = (Inr x, w')"
  then have "m w = (Inr x, w')" by (simp add: port_healthy [OF assms(2) [OF w]])
  from triple_InrD [OF assms(1) w this] show "Q x w'" .
next
  fix w err w'
  assume w: "P w" and "port m w = (Inl err, w')"
  then have "m w = (Inl err, w')" by (simp add: port_healthy [OF assms(2) [OF w]])
  from triple_InlD [OF assms(1) w this] show False .
qed

lemma audit_entries_epoch: "x \<in> set (bo_audit (fst (fold (bookkeep_one c e) xs (b, w)))) \<Longrightarrow> \<forall>y \<in> set (bo_audit b). ae_epoch y = e \<Longrightarrow> ae_epoch x = e"
proof (induction xs arbitrary: b w)
  case (Cons y ys)
  obtain b1 w1 where s: "bookkeep_one c e y (b, w) = (b1, w1)" by (cases "bookkeep_one c e y (b, w)")
  then have "\<forall>y \<in> set (bo_audit b1). ae_epoch y = e"
    using Cons.prems(2) by (auto simp: bookkeep_one_def Let_def data_point_audit_entry_def audit_row_def split: if_splits)
  with Cons s show ?case by simp
qed simp

lemma archive_rows_epoch: "x \<in> set (bo_archive (fst (fold (bookkeep_one c e) xs (b, w)))) \<Longrightarrow> \<forall>y \<in> set (bo_archive b). ar_epoch y = e \<Longrightarrow> ar_epoch x = e"
proof (induction xs arbitrary: b w)
  case (Cons y ys)
  obtain b1 w1 where s: "bookkeep_one c e y (b, w) = (b1, w1)" by (cases "bookkeep_one c e y (b, w)")
  then have "\<forall>y \<in> set (bo_archive b1). ar_epoch y = e"
    using Cons.prems(2) by (auto simp: bookkeep_one_def Let_def archived_of_def split: if_splits)
  with Cons s show ?case by simp
qed simp

lemma left_same:
  assumes "left e K w" and "w_store w' = w_store w" "w_inbox w' = w_inbox w" "or_mirror w' = or_mirror w" "w_faults w' = w_faults w"
    and "au_max_epoch (w_audit w') \<le> e" "arc_max_epoch (w_archive w') \<le> e"
  shows "left e K w'"
  using assms by (simp add: left_def healthy_def orch_inv_def)

lemma left_append_audits:
  assumes "\<forall>x \<in> set es. ae_epoch x = e"
  shows "triple (left e K) (append_audit_entries es) (\<lambda>_. left e K) never"
proof -
  have one: "triple (left e K) (port (on_audit (audit_append_many es))) (\<lambda>_. left e K) never"
  proof (rule healthy_triple_port [where e = e])
    have step: "\<exists>a. on_audit (audit_append_many es) w = (Inr (), w\<lparr>w_audit := a\<rparr>) \<and> left e K (w\<lparr>w_audit := a\<rparr>)" if w: "left e K w" for w
    proof -
      have le: "au_max_epoch (w_audit w) \<le> e" using w by (simp add: left_def healthy_def)
      let ?a = "(w_audit w)\<lparr>au_max_epoch := (if es = [] then au_max_epoch (w_audit w) else e), au_committed := au_committed (w_audit w) @ es\<rparr>"
      have "left e K (w\<lparr>w_audit := ?a\<rparr>)" by (rule left_same [OF w]) (use le w in \<open>simp_all add: left_def healthy_def\<close>)
      then show ?thesis
        by (intro exI [of _ ?a]) (simp only: on_audit_def audit_append_many_same [OF assms le] prod.case)
    qed
    show "triple (left e K) (on_audit (audit_append_many es)) (\<lambda>_. left e K) never" by (rule tripleI) (use step in force)+
  qed (simp add: left_def)
  have "audit_append_many [x] = audit_append x" for x
    by (rule ext) (auto simp: bindE_def split: prod.splits sum.splits)
  with one show ?thesis by (auto simp: append_audit_entries_def split: list.split)
qed

lemma left_archive_entries:
  assumes "\<forall>x \<in> set es. ar_epoch x = e"
  shows "triple (left e K) (archive_entries c es) (\<lambda>_. left e K) never"
proof -
  have one: "triple (left e K) (port (on_archive (archive_many k z es))) (\<lambda>_. left e K) never" for k z
  proof (rule healthy_triple_port [where e = e])
    have step: "\<exists>a. on_archive (archive_many k z es) w = (Inr (), w\<lparr>w_archive := a\<rparr>) \<and> left e K (w\<lparr>w_archive := a\<rparr>)" if w: "left e K w" for w
    proof -
      have le: "arc_max_epoch (w_archive w) \<le> e" using w by (simp add: left_def healthy_def)
      let ?a = "(w_archive w)\<lparr>arc_max_epoch := (if es = [] then arc_max_epoch (w_archive w) else e),
          arc_buffer := arc_buffer (w_archive w) @ map (sealed_row k z) es\<rparr>"
      have "left e K (w\<lparr>w_archive := ?a\<rparr>)" by (rule left_same [OF w]) (use le w in \<open>simp_all add: left_def healthy_def\<close>)
      then show ?thesis
        by (intro exI [of _ ?a]) (simp only: on_archive_def archive_many_same [OF assms le] prod.case)
    qed
    show "triple (left e K) (on_archive (archive_many k z es)) (\<lambda>_. left e K) never" by (rule tripleI) (use step in force)+
  qed (simp add: left_def)
  have "archive_many k z [x] = archive_one k z x" for k z x
    by (rule ext) (auto simp: bindE_def split: prod.splits sum.splits)
  with one [of "rc_codec c" "rc_archive_cipher c"] show ?thesis by (auto simp: archive_entries_def split: list.split)
qed

lemma left_bookkeeping: "triple (left e K) (merge_bookkeeping c e emitted outcomes) (\<lambda>_. left e K) never"
proof -
  have step: "\<exists>u w'. merge_bookkeeping c e emitted outcomes w = (Inr u, w') \<and> left e K w'" if w: "left e K w" for w
  proof -
    let ?b0 = "\<lparr>bo_audit = [], bo_archive = []\<rparr>"
    obtain b w1 where f: "fold (bookkeep_one c e) (zip emitted outcomes) (?b0, w) = (b, w1)"
      by (cases "fold (bookkeep_one c e) (zip emitted outcomes) (?b0, w)")
    have s: "same_base w w1" using bookkeep_fold_frame [of w c e "zip emitted outcomes" ?b0] f by simp
    have w1: "left e K w1" by (rule left_same [OF w]) (use w same_baseD [OF s] in \<open>simp_all add: left_def healthy_def\<close>)
    have e: "\<forall>x \<in> set (bo_audit b). ae_epoch x = e" "\<forall>x \<in> set (bo_archive b). ar_epoch x = e"
      using audit_entries_epoch [of _ c e "zip emitted outcomes" ?b0 w] archive_rows_epoch [of _ c e "zip emitted outcomes" ?b0 w] f by auto
    have t: "triple (left e K) (bindE (append_audit_entries (bo_audit b)) (\<lambda>_. archive_entries c (bo_archive b))) (\<lambda>_. left e K) never"
      by (rule triple_bindE [OF left_append_audits [OF e(1)] left_archive_entries [OF e(2)]])
    obtain r w2 where r: "bindE (append_audit_entries (bo_audit b)) (\<lambda>_. archive_entries c (bo_archive b)) w1 = (r, w2)"
      by (cases "bindE (append_audit_entries (bo_audit b)) (\<lambda>_. archive_entries c (bo_archive b)) w1")
    with f have m: "merge_bookkeeping c e emitted outcomes w = (r, w2)" by (simp add: merge_bookkeeping_def)
    show ?thesis
    proof (cases r)
      case (Inl err)
      with triple_InlD [OF t w1] r show ?thesis by simp
    next
      case (Inr u)
      with triple_InrD [OF t w1] r m show ?thesis by blast
    qed
  qed
  show ?thesis by (rule tripleI) (use step in force)+
qed


lemma left_write: "triple (left e K) (write_through ds e) (\<lambda>_. left e K) never"
  unfolding write_through_def
proof (rule healthy_triple_port [where e = e])
  let ?f = "\<lambda>w. case mirror_write ds e (or_mirror w, w_store w) of (r, (m, s)) \<Rightarrow> (r, w\<lparr>or_mirror := m, w_store := s\<rparr>)"
  have step: "\<exists>x w'. ?f w = (Inr x, w') \<and> left e K w'" if w: "left e K w" for w
  proof -
    obtain r m s where mw: "mirror_write ds e (or_mirror w, w_store w) = (r, (m, s))"
      by (cases "mirror_write ds e (or_mirror w, w_store w)") auto
    have inv: "mirror_ok (or_mirror w) (w_store w)" "store_inv (w_store w)" and le: "st_max_epoch (w_store w) \<le> e"
      using w by (auto simp: left_def healthy_def orch_inv_def)
    note wr = mirror_write_ok [OF inv mw]
    have acc: "\<exists>rv. fst (store_write ds e (w_store w)) = Inr rv" "st_max_epoch (snd (store_write ds e (w_store w))) = e"
      using le by (simp_all add: store_write_accepted Let_def)
    then obtain x where "r = Inr x" using wr(3) by (cases r) auto
    moreover have "left e K (w\<lparr>or_mirror := m, w_store := s\<rparr>)"
      using w wr(1,2) acc(2) store_write_inv [OF inv(2), of ds e] by (simp add: left_def healthy_def orch_inv_def)
    ultimately show ?thesis by (simp add: mw)
  qed
  show "triple (left e K) ?f (\<lambda>_. left e K) never" by (rule tripleI) (use step in force)+
qed (simp add: left_def)

lemma left_apply: "triple (left e K) (apply_inbox_data_points c e ds) (\<lambda>_. left e K) never"
  unfolding apply_inbox_data_points_def
proof (rule triple_bindE [OF left_write])
  fix x :: "revision \<times> merge_result list"
  have "triple (left e K) (catchE (merge_bookkeeping c e (map (\<lambda>d. (None, d)) ds) outcomes)
       (\<lambda>err. if err = StaleEpochError then raiseE err else returnE ())) (\<lambda>_. left e K) never" for outcomes
    by (rule triple_catchE [OF left_bookkeeping]) (simp add: triple_def)
  then show "triple (left e K) (case x of (rv, outcomes) \<Rightarrow> catchE (merge_bookkeeping c e (map (\<lambda>d. (None, d)) ds) outcomes)
       (\<lambda>err. if err = StaleEpochError then raiseE err else returnE ())) (\<lambda>_. left e K) never"
    by (cases x) simp
qed

lemma take_claimed_all:
  assumes "\<forall>m \<in> set ms. ms_claimed m \<and> ms_id m \<in> K" and "distinct (map ms_id ms)"
  shows "\<forall>m \<in> set (snd (take_claimed j ms)). ms_claimed m \<and> ms_id m \<in> K - {j}"
  using assms by (induction ms) (auto simp: image_iff split: prod.splits)

lemma left_disposed:
  assumes w: "left e K w" and ms: "ib_messages b = snd (take_claimed j (ib_messages (w_inbox w)))" and e: "ib_max_epoch b = e"
  shows "left e (K - {j}) (w\<lparr>w_inbox := b\<rparr>)"
proof -
  have a: "\<forall>m \<in> set (ib_messages (w_inbox w)). ms_claimed m \<and> ms_id m \<in> K" "distinct (map ms_id (ib_messages (w_inbox w)))"
    using w by (auto simp: left_def healthy_def orch_inv_def)
  from take_claimed_all [OF a, of j] take_claimed_distinct [OF a(2), of j] w e show ?thesis
    by (simp add: left_def healthy_def orch_inv_def ms)
qed

lemma left_ack: "triple (left e K) (port (on_inbox (inbox_ack j e))) (\<lambda>_. left e (K - {j})) never"
proof (rule healthy_triple_port [where e = e])
  have step: "\<exists>w'. on_inbox (inbox_ack j e) w = (Inr (), w') \<and> left e (K - {j}) w'" if w: "left e K w" for w
  proof -
    let ?b = "(w_inbox w)\<lparr>ib_max_epoch := e, ib_messages := snd (take_claimed j (ib_messages (w_inbox w)))\<rparr>"
    have "on_inbox (inbox_ack j e) w = (Inr (), w\<lparr>w_inbox := ?b\<rparr>)"
      using w by (simp add: on_inbox_def inbox_defs left_def healthy_def)
    moreover have "left e (K - {j}) (w\<lparr>w_inbox := ?b\<rparr>)" by (rule left_disposed [OF w]) simp_all
    ultimately show ?thesis by blast
  qed
  show "triple (left e K) (on_inbox (inbox_ack j e)) (\<lambda>_. left e (K - {j})) never" by (rule tripleI) (use step in force)+
qed (simp add: left_def)

lemma left_quarantine: "triple (left e K) (quarantine_inbox_entry c e j reason n) (\<lambda>_. left e (K - {j})) never"
  unfolding quarantine_inbox_entry_def
proof (rule triple_bindE)
  show "triple (left e K) (port (on_inbox (inbox_quarantine j reason e))) (\<lambda>_. left e (K - {j})) never"
  proof (rule healthy_triple_port [where e = e])
    have step: "\<exists>w'. on_inbox (inbox_quarantine j reason e) w = (Inr (), w') \<and> left e (K - {j}) w'" if w: "left e K w" for w
    proof -
      have le: "ib_max_epoch (w_inbox w) \<le> e" using w by (simp add: left_def healthy_def)
      obtain r ms where t: "take_claimed j (ib_messages (w_inbox w)) = (r, ms)" by (cases "take_claimed j (ib_messages (w_inbox w))")
      then have ms: "ms = snd (take_claimed j (ib_messages (w_inbox w)))" by simp
      show ?thesis
      proof (cases r)
        case None
        with t take_claimed_None have "ms = ib_messages (w_inbox w)" by blast
        with ms have "left e (K - {j}) (w\<lparr>w_inbox := (w_inbox w)\<lparr>ib_max_epoch := e\<rparr>\<rparr>)"
          by (intro left_disposed [OF w]) simp_all
        with t None le show ?thesis by (simp add: on_inbox_def inbox_defs)
      next
        case (Some m)
        have "left e (K - {j}) (w\<lparr>w_inbox := (w_inbox w)\<lparr>ib_max_epoch := e, ib_messages := ms,
            ib_quarantined := ib_quarantined (w_inbox w) @ [\<lparr>qe_id = j, qe_reason = reason, qe_count = ms_count m, qe_payload = Some (ms_payload m)\<rparr>]\<rparr>\<rparr>)"
          by (rule left_disposed [OF w]) (simp_all add: ms)
        with t Some le show ?thesis by (simp add: on_inbox_def inbox_defs)
      qed
    qed
    show "triple (left e K) (on_inbox (inbox_quarantine j reason e)) (\<lambda>_. left e (K - {j})) never" by (rule tripleI) (use step in force)+
  qed (simp add: left_def)
  fix x :: unit
  have "triple (left e K') (append_audit_entries [(audit_row e now INBOX_ENTRY_QUARANTINED)\<lparr>ae_inbox := info\<rparr>]) (\<lambda>_. left e K') never" for K' now info
    by (rule left_append_audits) (simp add: audit_row_def)
  then show "triple (left e (K - {j})) (\<lambda>w. port (on_audit (audit_append ((audit_row e (w_now w) INBOX_ENTRY_QUARANTINED)\<lparr>ae_inbox :=
         Some \<lparr>ia_entry = j, ia_reason = reason, ia_delivery_count = n\<rparr>\<rparr>))) w) (\<lambda>_. left e (K - {j})) never"
    unfolding append_audit_entries_def list.case triple_def by blast
qed

lemma left_forE:
  assumes "\<And>x K. x \<in> set xs \<Longrightarrow> triple (left e K) (f x) (\<lambda>_. left e (K - {g x})) never"
  shows "triple (left e K) (forE f xs) (\<lambda>_. left e (K - g ` set xs)) never"
  using assms
proof (induction xs arbitrary: K)
  case (Cons x xs)
  have "triple (left e K) (bindE (f x) (\<lambda>_. forE f xs)) (\<lambda>_. left e (K - {g x} - g ` set xs)) never"
    by (rule triple_bindE [OF Cons.prems]) (use Cons in auto)
  moreover have "K - {g x} - g ` set xs = K - g ` set (x # xs)" by auto
  ultimately show ?case by simp
qed (simp add: triple_returnE)


lemma left_apply_entry: "triple (left e K) (apply_inbox_entry c e x) (\<lambda>_. left e (K - {fst x})) never"
proof -
  obtain j d n where x: "x = (j, d, n)" by (cases x) auto
  have "\<exists>w1. apply_inbox_entry c e x w = port (on_inbox (inbox_ack j e)) w1 \<and> left e K w1" if w: "left e K w" for w
  proof -
    obtain u w1 where "apply_inbox_data_points c e [d] w = (Inr u, w1)" "left e K w1" by (rule triple_total [OF left_apply w])
    then show ?thesis by (auto simp: apply_inbox_entry_def x)
  qed
  with left_ack [of e K j] show ?thesis unfolding triple_def x fst_conv by metis
qed

lemma left_apply_valid:
  "triple (left e K) (apply_valid_entries c e valid) (\<lambda>_. left e (K - fst ` set valid)) never"
proof (cases "length valid \<le> 1")
  case True
  have "triple (left e K) (forE (apply_inbox_entry c e) valid) (\<lambda>_. left e (K - fst ` set valid)) never"
    by (rule left_forE) (rule left_apply_entry)
  with True show ?thesis by (simp add: apply_valid_entries_def)
next
  case False
  have acks: "triple (left e K) (forE (\<lambda>x. port (on_inbox (inbox_ack (fst x) e))) valid) (\<lambda>_. left e (K - fst ` set valid)) never"
    by (rule left_forE) (rule left_ack)
  have "\<exists>w1. apply_valid_entries c e valid w = forE (\<lambda>x. port (on_inbox (inbox_ack (fst x) e))) valid w1 \<and> left e K w1"
    if w: "left e K w" for w
  proof -
    obtain u w1 where "apply_inbox_data_points c e (map (\<lambda>x. fst (snd x)) valid) w = (Inr u, w1)" "left e K w1"
      by (rule triple_total [OF left_apply w])
    with False show ?thesis by (auto simp: apply_valid_entries_def)
  qed
  with acks show ?thesis unfolding triple_def by metis
qed

lemma reclaim_loop_claims: "reclaim_loop dec prs ms = (r, ms') \<Longrightarrow> map (\<lambda>m. (ms_id m, ms_claimed m)) ms' = map (\<lambda>m. (ms_id m, ms_claimed m)) ms"
  by (induction ms arbitrary: r ms') (auto simp: Let_def split: if_splits prod.splits sum.splits)

lemma claims_ids:
  assumes "map (\<lambda>m. (ms_id m, ms_claimed m)) ms' = map (\<lambda>m. (ms_id m, ms_claimed m)) ms"
  shows "claimed_ids ms' = claimed_ids ms" "unclaimed_ids ms' = unclaimed_ids ms"
proof -
  have c: "claimed_ids xs = map fst (filter snd (map (\<lambda>m. (ms_id m, ms_claimed m)) xs))"
    and u: "unclaimed_ids xs = map fst (filter (\<lambda>p. \<not> snd p) (map (\<lambda>m. (ms_id m, ms_claimed m)) xs))" for xs
    by (simp_all add: claimed_ids_def unclaimed_ids_def filter_map comp_def)
  show "claimed_ids ms' = claimed_ids ms" unfolding c assms ..
  show "unclaimed_ids ms' = unclaimed_ids ms" unfolding u assms ..
qed

lemma delivered_ids: "dl_id ` set ds = fst ` set (poison_entries ds) \<union> fst ` set (valid_entries ds)"
  by (induction ds rule: valid_entries.induct) auto

lemma no_unclaimed: "unclaimed_ids ms = [] \<Longrightarrow> \<forall>m \<in> set ms. ms_claimed m"
  by (simp add: unclaimed_ids_def filter_empty_conv)

lemma healthy_messages:
  assumes "healthy e w" and "wire ms = wire (ib_messages (w_inbox w))"
  shows "healthy e (w\<lparr>w_inbox := (w_inbox w)\<lparr>ib_messages := ms\<rparr>\<rparr>)"
proof -
  have "map ms_id ms = map ms_id (ib_messages (w_inbox w))" using assms(2) by (metis wire_ids)
  with assms(1) show ?thesis by (simp add: healthy_def orch_inv_def)
qed

text \<open>
  Also: a drain with no failing port call, by the newest owner, on an inbox whose payloads parse or
  are undecodable, returns and leaves the inbox empty: every entry was applied and acknowledged or
  quarantined, so no entry is redelivered for ever.
\<close>

theorem drain_empties_inbox:
  assumes h: "healthy e w" and p: "parses (rc_decode c) (rc_parse c)"
  shows "\<exists>w'. drain_inbox c e w = (Inr (), w') \<and> ib_messages (w_inbox w') = []"
proof -
  obtain ds1 ms1 where l1: "reclaim_loop (rc_decode c) (rc_parse c) (ib_messages (w_inbox w)) = (Inr ds1, ms1)"
    using reclaim_loop_total [OF p] by blast
  obtain ds2 ms2 where l2: "consume_loop (rc_decode c) (rc_parse c) None 0 ms1 = (Inr ds2, ms2)"
    using consume_loop_total [OF p] by blast
  let ?w1 = "w\<lparr>w_inbox := (w_inbox w)\<lparr>ib_messages := ms1\<rparr>\<rparr>" and ?w2 = "w\<lparr>w_inbox := (w_inbox w)\<lparr>ib_messages := ms2\<rparr>\<rparr>"
  have h1: "healthy e ?w1" by (rule healthy_messages [OF h reclaim_loop_wire [OF l1]])
  have "wire ms2 = wire (ib_messages (w_inbox w))" using consume_loop_wire [OF l2] reclaim_loop_wire [OF l1] by simp
  then have h2: "healthy e ?w2" by (rule healthy_messages [OF h])
  have r1: "port (on_inbox (inbox_reclaim (rc_decode c) (rc_parse c))) w = (Inr ds1, ?w1)"
    by (simp add: port_healthy [OF h] on_inbox_def inbox_reclaim_def l1)
  have r2: "port (on_inbox (inbox_consume (rc_decode c) (rc_parse c) None)) ?w1 = (Inr ds2, ?w2)"
    by (simp add: port_healthy [OF h1] on_inbox_def inbox_consume_def l2)
  let ?ds = "ds1 @ ds2"
  have ids: "map dl_id ds2 = unclaimed_ids ms1" "unclaimed_ids ms2 = []" "map dl_id ds1 = claimed_ids (ib_messages (w_inbox w))"
    using consume_loop_delivers [OF l2] reclaim_loop_delivers [OF l1] by simp_all
  have "set (map ms_id ms2) = set (map ms_id ms1)" using consume_loop_wire [OF l2] by (metis wire_ids)
  also have "\<dots> = set (unclaimed_ids ms1) \<union> set (claimed_ids ms1)" by (rule ids_claimed_or_not)
  also have "\<dots> = dl_id ` set ?ds"
    unfolding claims_ids(1) [OF reclaim_loop_claims [OF l1]] ids(1,3) [symmetric] by auto
  finally have K: "set (map ms_id ms2) = dl_id ` set ?ds" .
  have w2: "left e (dl_id ` set ?ds) ?w2"
    using h2 no_unclaimed [OF ids(2)] K by (auto simp: left_def)
  have q: "triple (left e (dl_id ` set ?ds)) (forE (\<lambda>(i, err, n). quarantine_inbox_entry c e i err n) (poison_entries ?ds))
      (\<lambda>_. left e (dl_id ` set ?ds - fst ` set (poison_entries ?ds))) never"
    by (rule left_forE) (auto intro: left_quarantine)
  have t: "triple (left e (dl_id ` set ?ds)) (bindE (forE (\<lambda>(i, err, n). quarantine_inbox_entry c e i err n) (poison_entries ?ds)) (\<lambda>_.
      apply_valid_entries c e (valid_entries ?ds)))
      (\<lambda>_. left e (dl_id ` set ?ds - fst ` set (poison_entries ?ds) - fst ` set (valid_entries ?ds))) never"
    by (rule triple_bindE [OF q left_apply_valid])
  have none: "dl_id ` set ?ds - fst ` set (poison_entries ?ds) - fst ` set (valid_entries ?ds) = {}"
    unfolding delivered_ids by blast
  obtain u w3 where r: "bindE (forE (\<lambda>(i, err, n). quarantine_inbox_entry c e i err n) (poison_entries ?ds)) (\<lambda>_.
      apply_valid_entries c e (valid_entries ?ds)) ?w2 = (Inr u, w3)" and "left e {} w3"
    by (rule triple_total [OF t [unfolded none] w2])
  then have "ib_messages (w_inbox w3) = []" by (cases "ib_messages (w_inbox w3)") (auto simp: left_def)
  with r1 r2 r show ?thesis by (simp add: drain_inbox_def)
qed

theorem drain_empties_inbox_witness:
  "\<exists>w'. drain_inbox demo_config 1 (demo_orch\<lparr>w_faults := []\<rparr>) = (Inr (), w') \<and> ib_messages (w_inbox w') = []"
proof (rule drain_empties_inbox)
  show "parses (rc_decode demo_config) (rc_parse demo_config)" by (simp add: demo_config_def sample_parses)
  show "healthy 1 (demo_orch\<lparr>w_faults := []\<rparr>)"
    using demo_orch_inv by (simp add: healthy_def orch_inv_def demo_orch_def empty_session_def new_audit_def new_archive_def
        append_serialized_def new_inbox_def)
qed

end
