(* ===== verification/Dependency_Graph.thy ===== *)
theory Dependency_Graph
  imports Operators
begin

text \<open>
  The static dependency graph over operator and capability classes,
  \<^verbatim>\<open>orcastork/graph/builder.py\<close>, the backward closure used for pruning,
  \<^verbatim>\<open>orcastork/graph/reachability.py\<close>, and the runtime circuit breaker,
  \<^verbatim>\<open>orcastork/graph/circuit_breaker.py\<close>. Sets are lists without repetitions in the order
  they are enumerated. The class registry (for the abstract-produces rule) is an argument.
\<close>

section \<open>Nodes and produced types\<close>

datatype node = OpNode operator_class | CapNode capability_class

fun node_depends_on :: "node \<Rightarrow> pyclass list" where
  "node_depends_on (OpNode x) = op_depends_on x"
| "node_depends_on (CapNode c) = cap_depends_on c"

fun node_requires :: "node \<Rightarrow> pyclass list" where
  "node_requires (OpNode x) = op_requires x"
| "node_requires (CapNode c) = cap_requires c"

definition effective_produces :: "dp_registry \<Rightarrow> operator_class \<Rightarrow> pyclass list" where
  "effective_produces reg x =
     remdups (concat (map (\<lambda>d. if d \<in> set (reg_abstract reg) then subtypes_of reg d else [d]) (op_produces x)))"

definition feeds_type :: "pyclass list \<Rightarrow> pyclass \<Rightarrow> bool" where
  "feeds_type produced t \<longleftrightarrow> (\<exists>p \<in> set produced. issubclass p t)"

section \<open>The graph\<close>

type_synonym graph_edges = "(node \<times> node list) list"

definition add_edge :: "node \<Rightarrow> node \<Rightarrow> graph_edges \<Rightarrow> graph_edges" where
  "add_edge x y g = AList.map_entry x (List.insert y) g"

definition data_edges :: "dp_registry \<Rightarrow> operator_class list \<Rightarrow> node list \<Rightarrow> graph_edges \<Rightarrow> graph_edges" where
  "data_edges reg ops nodes g =
     fold (\<lambda>consumer. fold (\<lambda>t. fold (\<lambda>x g. if feeds_type (effective_produces reg x) t
          then add_edge (OpNode x) consumer g else g) ops) (node_depends_on consumer)) nodes g"

definition requirement_edges :: "capability_class list \<Rightarrow> node list \<Rightarrow> graph_edges \<Rightarrow> graph_edges" where
  "requirement_edges caps nodes g =
     fold (\<lambda>requirer. fold (\<lambda>t. fold (\<lambda>c g. if issubclass (cap_class c) t
          then add_edge (CapNode c) requirer g else g) caps) (node_requires requirer)) nodes g"

definition build_graph :: "dp_registry \<Rightarrow> operator_class list \<Rightarrow> capability_class list \<Rightarrow> graph_edges" where
  "build_graph reg ops caps =
     (let nodes = map OpNode ops @ map CapNode caps;
          empty = fold (\<lambda>n g. AList.update n [] g) nodes []
      in requirement_edges caps nodes (data_edges reg ops nodes empty))"

definition build_uses_edges :: "dp_registry \<Rightarrow> operator_class list \<Rightarrow> graph_edges" where
  "build_uses_edges reg ops =
     fold (\<lambda>consumer. fold (\<lambda>t. fold (\<lambda>x g. if x \<noteq> consumer \<and> feeds_type (effective_produces reg x) t
          then add_edge (OpNode x) (OpNode consumer) g else g) ops) (op_uses consumer)) ops
       (fold (\<lambda>x g. AList.update (OpNode x) [] g) ops [])"

definition keeps_node :: "capability_id list \<Rightarrow> node \<Rightarrow> bool" where
  "keeps_node permitted n = (case n of CapNode c \<Rightarrow> cap_id c \<in> set permitted | OpNode _ \<Rightarrow> True)"

definition restrict_to_permitted :: "graph_edges \<Rightarrow> capability_id list \<Rightarrow> graph_edges" where
  "restrict_to_permitted g permitted =
     map (\<lambda>(n, ts). (n, filter (keeps_node permitted) ts)) (filter (\<lambda>p. keeps_node permitted (fst p)) g)"

definition has_edge :: "graph_edges \<Rightarrow> node \<Rightarrow> node \<Rightarrow> bool" where
  "has_edge g x y \<longleftrightarrow> (case map_of g x of None \<Rightarrow> False | Some ys \<Rightarrow> y \<in> set ys)"

section \<open>Backward reachability\<close>

definition produces_needed :: "dp_registry \<Rightarrow> pyclass list \<Rightarrow> operator_class \<Rightarrow> bool" where
  "produces_needed reg needed x \<longleftrightarrow>
     (\<exists>p \<in> set (effective_produces reg x). \<exists>t \<in> set needed. issubclass p t)"

definition kept_operators :: "dp_registry \<Rightarrow> operator_class list \<Rightarrow> pyclass list \<Rightarrow> operator_class list" where
  "kept_operators reg ops sinks =
     fst (admit_loop (produces_needed reg) (\<lambda>x needed. needed @ op_depends_on x) ops [] sinks)"

text \<open>One pass of the capability loop: every requirement of every requirer against every provider.\<close>

definition keep_provider :: "capability_class list \<times> bool \<Rightarrow> pyclass \<times> capability_class \<Rightarrow> capability_class list \<times> bool" where
  "keep_provider st rp =
     (if snd rp \<notin> set (fst st) \<and> issubclass (cap_class (snd rp)) (fst rp) then (fst st @ [snd rp], True) else st)"

definition requirement_pairs :: "node list \<Rightarrow> capability_class list \<Rightarrow> (pyclass \<times> capability_class) list" where
  "requirement_pairs requirers caps =
     concat (map (\<lambda>r. concat (map (\<lambda>t. map (\<lambda>c. (t, c)) caps) (node_requires r))) requirers)"

definition capability_pass ::
  "operator_class list \<Rightarrow> capability_class list \<Rightarrow> capability_class list \<Rightarrow> capability_class list \<times> bool" where
  "capability_pass kept_ops caps kept =
     foldl keep_provider (kept, False) (requirement_pairs (map OpNode kept_ops @ map CapNode kept) caps)"

lemma keep_provider_grows:
  "foldl keep_provider (kept, c) rps = (kept', c') \<Longrightarrow>
     set kept \<subseteq> set kept' \<and> set kept' \<subseteq> set kept \<union> snd ` set rps \<and>
     (c' \<longrightarrow> c \<or> (\<exists>p \<in> snd ` set rps. p \<in> set kept' \<and> p \<notin> set kept)) \<and>
     (\<not> c' \<longrightarrow> kept' = kept \<and> \<not> c \<and> (\<forall>rp \<in> set rps. issubclass (cap_class (snd rp)) (fst rp) \<longrightarrow> snd rp \<in> set kept)) \<and>
     (\<forall>p \<in> set kept'. p \<in> set kept \<or> (\<exists>rp \<in> set rps. snd rp = p \<and> issubclass (cap_class p) (fst rp)))"
proof (induction rps arbitrary: kept c)
  case Nil
  then show ?case by simp
next
  case (Cons rp rps)
  show ?case
  proof (cases "snd rp \<notin> set kept \<and> issubclass (cap_class (snd rp)) (fst rp)")
    case True
    then have "keep_provider (kept, c) rp = (kept @ [snd rp], True)" by (simp add: keep_provider_def)
    with Cons.prems have "foldl keep_provider (kept @ [snd rp], True) rps = (kept', c')" by simp
    from Cons.IH [OF this] True show ?thesis by auto
  next
    case False
    then have "keep_provider (kept, c) rp = (kept, c)" by (auto simp: keep_provider_def)
    with Cons.prems have "foldl keep_provider (kept, c) rps = (kept', c')" by simp
    from Cons.IH [OF this] False show ?thesis by auto
  qed
qed

lemma requirement_pairs_set:
  "set (requirement_pairs rs caps) = {(t, c). \<exists>r \<in> set rs. t \<in> set (node_requires r) \<and> c \<in> set caps}"
  by (auto simp: requirement_pairs_def)

function keep_capabilities ::
  "operator_class list \<Rightarrow> capability_class list \<Rightarrow> capability_class list \<Rightarrow> capability_class list" where
  "keep_capabilities kept_ops caps kept =
     (case capability_pass kept_ops caps kept of
        (kept', changed) \<Rightarrow> if changed then keep_capabilities kept_ops caps kept' else kept')"
  by pat_completeness auto
termination
proof (relation "measure (\<lambda>(ops, caps, kept). card (set caps - set kept))", goal_cases)
  case 1
  show ?case by simp
next
  case (2 kept_ops caps kept kept' changed)
  then have p: "foldl keep_provider (kept, False) (requirement_pairs (map OpNode kept_ops @ map CapNode kept) caps) = (kept', True)"
    by (simp add: capability_pass_def)
  from keep_provider_grows [OF p] obtain c where "c \<in> set caps" "c \<in> set kept'" "c \<notin> set kept" "set kept \<subseteq> set kept'"
    by (auto simp: requirement_pairs_set)
  then show ?case by (auto intro!: psubset_card_mono)
qed

declare keep_capabilities.simps [simp del]

definition backward_reachable ::
  "dp_registry \<Rightarrow> operator_class list \<Rightarrow> capability_class list \<Rightarrow> pyclass list \<Rightarrow> node list" where
  "backward_reachable reg ops caps sinks =
     (let kept_ops = kept_operators reg ops sinks
      in map OpNode kept_ops @ map CapNode (keep_capabilities kept_ops caps []))"

section \<open>The circuit breaker\<close>

record circuit_breaker =
  cb_caps :: "operator_id \<rightharpoonup> int"
  cb_counts :: "operator_id \<rightharpoonup> int"

definition new_breaker :: "(operator_id \<rightharpoonup> int) \<Rightarrow> circuit_breaker" where
  "new_breaker caps = \<lparr>cb_caps = caps, cb_counts = Map.empty\<rparr>"

definition breaker_runs :: "operator_id \<Rightarrow> circuit_breaker \<Rightarrow> int" where
  "breaker_runs oid b = (case cb_counts b oid of None \<Rightarrow> 0 | Some n \<Rightarrow> n)"

definition record_run :: "operator_id \<Rightarrow> circuit_breaker \<Rightarrow> circuit_breaker" where
  "record_run oid b = b\<lparr>cb_counts := (cb_counts b)(oid \<mapsto> breaker_runs oid b + 1)\<rparr>"

definition is_tripped :: "operator_id \<Rightarrow> circuit_breaker \<Rightarrow> bool" where
  "is_tripped oid b = (case cb_caps b oid of None \<Rightarrow> False | Some cap \<Rightarrow> cap \<le> breaker_runs oid b)"

text \<open>The scheduler's use of it: an operator asked to run is run unless it is tripped.\<close>

definition attempt_run :: "operator_id \<Rightarrow> circuit_breaker \<Rightarrow> circuit_breaker" where
  "attempt_run oid b = (if is_tripped oid b then b else record_run oid b)"

section \<open>The edges the builders add\<close>

definition edge_set :: "graph_edges \<Rightarrow> (node \<times> node) set" where
  "edge_set g = {(x, y). has_edge g x y}"

definition adds_edges :: "node set \<Rightarrow> (graph_edges \<Rightarrow> graph_edges) \<Rightarrow> (node \<times> node) set \<Rightarrow> bool" where
  "adds_edges N f S \<longleftrightarrow> (\<forall>g. fst ` set g = N \<and> distinct (map fst g) \<longrightarrow>
     fst ` set (f g) = N \<and> distinct (map fst (f g)) \<and> edge_set (f g) = edge_set g \<union> S)"

lemma adds_edges_fold:
  "(\<And>z. z \<in> set zs \<Longrightarrow> adds_edges N (f z) (S z)) \<Longrightarrow> adds_edges N (fold f zs) (\<Union>z \<in> set zs. S z)"
  by (induction zs) (auto simp: adds_edges_def)

lemma map_entry_keys: "map fst (AList.map_entry x f g) = map fst g"
  by (induction g) auto

lemma adds_edges_one: "x \<in> N \<Longrightarrow> adds_edges N (add_edge x y) {(x, y)}"
proof (unfold adds_edges_def, intro allI impI)
  fix g :: graph_edges
  assume x: "x \<in> N" and g: "fst ` set g = N \<and> distinct (map fst g)"
  have keys: "map fst (add_edge x y g) = map fst g" by (simp add: add_edge_def map_entry_keys)
  from x g obtain ys where "map_of g x = Some ys" using in_keys_iff [of x g] by auto
  then have "edge_set (add_edge x y g) = edge_set g \<union> {(x, y)}"
    by (auto simp: edge_set_def has_edge_def add_edge_def AList.map_of_map_entry split: if_splits option.splits)
  with g keys show "fst ` set (add_edge x y g) = N \<and> distinct (map fst (add_edge x y g)) \<and>
      edge_set (add_edge x y g) = edge_set g \<union> {(x, y)}"
    by (metis image_set)
qed

lemma adds_edges_if: "(P \<Longrightarrow> adds_edges N f S) \<Longrightarrow> adds_edges N (\<lambda>g. if P then f g else g) (if P then S else {})"
  by (auto simp: adds_edges_def)

lemma empty_graph:
  "fst ` set (fold (\<lambda>n g. AList.update n [] g) ns g) = fst ` set g \<union> set ns \<and>
   (distinct (map fst g) \<longrightarrow> distinct (map fst (fold (\<lambda>n g. AList.update n [] g) ns g))) \<and>
   (edge_set g = {} \<longrightarrow> edge_set (fold (\<lambda>n g. AList.update n [] g) ns g) = {})"
proof (induction ns arbitrary: g)
  case (Cons n ns)
  have "fst ` set (AList.update n [] g) = insert n (fst ` set g)" by (simp add: dom_update)
  moreover have "edge_set g = {} \<longrightarrow> edge_set (AList.update n [] g) = {}"
    by (auto simp: edge_set_def has_edge_def split: option.splits)
  ultimately show ?case using Cons.IH [of "AList.update n [] g"] by auto
qed simp

lemma data_edges_add:
  assumes "OpNode ` set ops \<subseteq> N"
  shows "adds_edges N (data_edges reg ops nodes)
     (\<Union>y \<in> set nodes. \<Union>t \<in> set (node_depends_on y). \<Union>a \<in> set ops.
        if feeds_type (effective_produces reg a) t then {(OpNode a, y)} else {})"
  unfolding data_edges_def
  by (intro adds_edges_fold adds_edges_if adds_edges_one) (use assms in auto)

lemma requirement_edges_add:
  assumes "CapNode ` set caps \<subseteq> N"
  shows "adds_edges N (requirement_edges caps nodes)
     (\<Union>y \<in> set nodes. \<Union>t \<in> set (node_requires y). \<Union>c \<in> set caps.
        if issubclass (cap_class c) t then {(CapNode c, y)} else {})"
  unfolding requirement_edges_def
  by (intro adds_edges_fold adds_edges_if adds_edges_one) (use assms in auto)

section \<open>What backward reachability keeps\<close>

interpretation backward: admission "produces_needed reg" "\<lambda>x needed. needed @ op_depends_on x" set
    "\<lambda>x. set (op_depends_on x)" "\<lambda>A x. \<exists>p \<in> set (effective_produces reg x). \<exists>t \<in> A. issubclass p t" for reg
  by unfold_locales (auto simp: produces_needed_def)

text \<open>The types a set of operators and the sinks need.\<close>

definition needed_types :: "pyclass list \<Rightarrow> operator_class list \<Rightarrow> pyclass set" where
  "needed_types sinks ops = set sinks \<union> (\<Union>x \<in> set ops. set (op_depends_on x))"

lemma kept_operators_closed:
  assumes "x \<in> set ops" and "p \<in> set (effective_produces reg x)" and "t \<in> needed_types sinks (kept_operators reg ops sinks)"
    and "issubclass p t"
  shows "x \<in> set (kept_operators reg ops sinks)"
proof -
  obtain R s' where l: "admit_loop (produces_needed reg) (\<lambda>x needed. needed @ op_depends_on x) ops [] sinks = (R, s')"
    by fastforce
  with assms show ?thesis
    using backward.loop_closed [OF l assms(1)] by (auto simp: kept_operators_def needed_types_def)
qed

lemma kept_operators_least:
  assumes "\<And>x p t. x \<in> set ops \<Longrightarrow> p \<in> set (effective_produces reg x) \<Longrightarrow> t \<in> set sinks \<union> (\<Union>y \<in> C. set (op_depends_on y)) \<Longrightarrow>
     issubclass p t \<Longrightarrow> x \<in> C"
  shows "set (kept_operators reg ops sinks) \<subseteq> C"
proof -
  obtain R s' where l: "admit_loop (produces_needed reg) (\<lambda>x needed. needed @ op_depends_on x) ops [] sinks = (R, s')"
    by fastforce
  have "set R \<subseteq> C" by (rule backward.loop_least [OF l]) (use assms in blast)
  with l show ?thesis by (simp add: kept_operators_def)
qed

lemma kept_operators_subset: "set (kept_operators reg ops sinks) \<subseteq> set ops"
proof -
  obtain R s' where l: "admit_loop (produces_needed reg) (\<lambda>x needed. needed @ op_depends_on x) ops [] sinks = (R, s')"
    by fastforce
  with backward.loop_subset [OF l] show ?thesis by (simp add: kept_operators_def)
qed

definition required_by :: "operator_class list \<Rightarrow> capability_class set \<Rightarrow> pyclass set" where
  "required_by ops K = (\<Union>x \<in> set ops. set (op_requires x)) \<union> (\<Union>c \<in> K. set (cap_requires c))"

lemma capability_pass_spec:
  assumes "capability_pass ops caps kept = (kept', changed)"
  shows "set kept \<subseteq> set kept'" and "set kept' \<subseteq> set kept \<union> set caps"
    and "\<not> changed \<Longrightarrow> kept' = kept \<and> (\<forall>c \<in> set caps. \<forall>t \<in> required_by ops (set kept). issubclass (cap_class c) t \<longrightarrow> c \<in> set kept)"
    and "\<forall>c \<in> set kept'. c \<in> set kept \<or> (c \<in> set caps \<and> (\<exists>t \<in> required_by ops (set kept). issubclass (cap_class c) t))"
    and "changed \<Longrightarrow> \<exists>c. c \<in> set caps \<and> c \<in> set kept' \<and> c \<notin> set kept"
proof -
  let ?rps = "requirement_pairs (map OpNode ops @ map CapNode kept) caps"
  have rps: "set ?rps = {(t, c). t \<in> required_by ops (set kept) \<and> c \<in> set caps}"
    by (auto simp: requirement_pairs_set required_by_def bex_Un)
  note g = keep_provider_grows [OF assms [unfolded capability_pass_def]]
  show "set kept \<subseteq> set kept'" "set kept' \<subseteq> set kept \<union> set caps" using g rps by auto
  show "\<not> changed \<Longrightarrow> kept' = kept \<and> (\<forall>c \<in> set caps. \<forall>t \<in> required_by ops (set kept). issubclass (cap_class c) t \<longrightarrow> c \<in> set kept)"
    using g rps by auto
  show "\<forall>c \<in> set kept'. c \<in> set kept \<or> (c \<in> set caps \<and> (\<exists>t \<in> required_by ops (set kept). issubclass (cap_class c) t))"
    using g rps by auto
  show "changed \<Longrightarrow> \<exists>c. c \<in> set caps \<and> c \<in> set kept' \<and> c \<notin> set kept" using g rps by auto
qed

lemma required_by_mono: "K \<subseteq> L \<Longrightarrow> required_by ops K \<subseteq> required_by ops L"
  by (auto simp: required_by_def)

lemma keep_capabilities_spec:
  "set kept \<subseteq> set (keep_capabilities ops caps kept) \<and>
      set (keep_capabilities ops caps kept) \<subseteq> set kept \<union> set caps \<and>
      (\<forall>c \<in> set caps. \<forall>t \<in> required_by ops (set (keep_capabilities ops caps kept)).
        issubclass (cap_class c) t \<longrightarrow> c \<in> set (keep_capabilities ops caps kept)) \<and>
      ((\<forall>c \<in> set caps. \<forall>t \<in> required_by ops C. issubclass (cap_class c) t \<longrightarrow> c \<in> C) \<longrightarrow> set kept \<subseteq> C \<longrightarrow>
        set (keep_capabilities ops caps kept) \<subseteq> C)"
proof (induction ops caps kept rule: keep_capabilities.induct)
  case (1 ops caps kept)
  obtain kept' changed where p: "capability_pass ops caps kept = (kept', changed)" by fastforce
  note spec = capability_pass_spec [OF p]
  have least: "set kept' \<subseteq> C" if "\<forall>c \<in> set caps. \<forall>t \<in> required_by ops C. issubclass (cap_class c) t \<longrightarrow> c \<in> C"
    and "set kept \<subseteq> C" using that spec(4) required_by_mono [OF that(2), of ops] by blast
  show ?case
  proof (cases changed)
    case True
    with p have k: "keep_capabilities ops caps kept = keep_capabilities ops caps kept'"
      by (simp add: keep_capabilities.simps [of ops caps kept])
    note ih = "1.IH" [OF p [symmetric] True]
    show ?thesis unfolding k using ih spec(1,2) least by blast
  next
    case False
    with p have k: "keep_capabilities ops caps kept = kept'"
      by (simp add: keep_capabilities.simps [of ops caps kept])
    show ?thesis unfolding k using spec(1,2) spec(3) [OF False] least by simp
  qed
qed

lemma keep_capabilities_closed:
  assumes "c \<in> set caps" and "t \<in> required_by ops (set (keep_capabilities ops caps []))" and "issubclass (cap_class c) t"
  shows "c \<in> set (keep_capabilities ops caps [])"
  using keep_capabilities_spec [of "[]" ops caps] assms by blast

lemma keep_capabilities_least:
  assumes "\<And>c t. c \<in> set caps \<Longrightarrow> t \<in> required_by ops C \<Longrightarrow> issubclass (cap_class c) t \<Longrightarrow> c \<in> C"
  shows "set (keep_capabilities ops caps []) \<subseteq> C"
  using keep_capabilities_spec [of "[]" ops caps C] assms by auto

section \<open>Properties\<close>

text \<open>
  Also: the dependency graph has an edge exactly where a consumer among its nodes depends on a
  type that an operator of the graph produces (subtype-aware, an abstract declaration standing
  for all its registered leaves), or requires a capability type that a capability of the graph
  provides.
\<close>

theorem build_graph_edges:
  "has_edge (build_graph reg ops caps) x y \<longleftrightarrow>
     y \<in> OpNode ` set ops \<union> CapNode ` set caps \<and>
     ((\<exists>a \<in> set ops. x = OpNode a \<and> (\<exists>t \<in> set (node_depends_on y). feeds_type (effective_produces reg a) t)) \<or>
      (\<exists>c \<in> set caps. x = CapNode c \<and> (\<exists>t \<in> set (node_requires y). issubclass (cap_class c) t)))"
proof -
  let ?nodes = "map OpNode ops @ map CapNode caps"
  let ?N = "set ?nodes" and ?g = "fold (\<lambda>n g. AList.update n [] g) ?nodes [] :: graph_edges"
  note eg = empty_graph [of ?nodes "[]"]
  have e1: "fst ` set ?g = ?N" using eg [THEN conjunct1] by simp
  have e2: "distinct (map fst ?g)" by (rule eg [THEN conjunct2, THEN conjunct1, rule_format]) simp
  have e3: "edge_set ?g = {}"
    by (rule eg [THEN conjunct2, THEN conjunct2, rule_format]) (simp add: edge_set_def has_edge_def)
  note e = e1 e2 e3
  have d: "adds_edges ?N (data_edges reg ops ?nodes)
     (\<Union>y \<in> ?N. \<Union>t \<in> set (node_depends_on y). \<Union>a \<in> set ops.
        if feeds_type (effective_produces reg a) t then {(OpNode a, y)} else {})"
    by (rule data_edges_add) auto
  have r: "adds_edges ?N (requirement_edges caps ?nodes)
     (\<Union>y \<in> ?N. \<Union>t \<in> set (node_requires y). \<Union>c \<in> set caps.
        if issubclass (cap_class c) t then {(CapNode c, y)} else {})"
    by (rule requirement_edges_add) auto
  from d [unfolded adds_edges_def, rule_format, of ?g] e
  have d': "fst ` set (data_edges reg ops ?nodes ?g) = ?N" "distinct (map fst (data_edges reg ops ?nodes ?g))"
    "edge_set (data_edges reg ops ?nodes ?g) = (\<Union>y \<in> ?N. \<Union>t \<in> set (node_depends_on y). \<Union>a \<in> set ops.
        if feeds_type (effective_produces reg a) t then {(OpNode a, y)} else {})" by auto
  from r [unfolded adds_edges_def, rule_format, of "data_edges reg ops ?nodes ?g"] d'
  have "edge_set (build_graph reg ops caps) =
     (\<Union>y \<in> ?N. \<Union>t \<in> set (node_depends_on y). \<Union>a \<in> set ops.
        if feeds_type (effective_produces reg a) t then {(OpNode a, y)} else {}) \<union>
     (\<Union>y \<in> ?N. \<Union>t \<in> set (node_requires y). \<Union>c \<in> set caps.
        if issubclass (cap_class c) t then {(CapNode c, y)} else {})"
    by (simp add: build_graph_def Let_def)
  moreover have "has_edge (build_graph reg ops caps) x y \<longleftrightarrow> (x, y) \<in> edge_set (build_graph reg ops caps)"
    by (simp add: edge_set_def)
  ultimately show ?thesis by (auto split: if_splits)
qed

text \<open>
  Also: backward reachability keeps the least set of operators that contains every operator
  producing a sink type or a type some kept operator depends on, and the least set of
  capabilities that contains every provider of a type a kept operator or capability requires.
\<close>

theorem backward_reachable_least:
  "(OpNode x \<in> set (backward_reachable reg ops caps sinks) \<longleftrightarrow>
      (\<forall>C. (\<forall>y \<in> set ops. \<forall>p \<in> set (effective_produces reg y). \<forall>t \<in> set sinks \<union> (\<Union>z \<in> C. set (op_depends_on z)).
          issubclass p t \<longrightarrow> y \<in> C) \<longrightarrow> x \<in> C)) \<and>
   (CapNode c \<in> set (backward_reachable reg ops caps sinks) \<longleftrightarrow>
      (\<forall>C. (\<forall>d \<in> set caps. \<forall>t \<in> required_by (kept_operators reg ops sinks) C. issubclass (cap_class d) t \<longrightarrow> d \<in> C) \<longrightarrow> c \<in> C))"
proof -
  let ?K = "kept_operators reg ops sinks"
  have "x \<in> set ?K \<longleftrightarrow> (\<forall>C. (\<forall>y \<in> set ops. \<forall>p \<in> set (effective_produces reg y).
      \<forall>t \<in> set sinks \<union> (\<Union>z \<in> C. set (op_depends_on z)). issubclass p t \<longrightarrow> y \<in> C) \<longrightarrow> x \<in> C)"
  proof (intro iffI allI impI)
    fix C
    assume "x \<in> set ?K" and "\<forall>y \<in> set ops. \<forall>p \<in> set (effective_produces reg y).
      \<forall>t \<in> set sinks \<union> (\<Union>z \<in> C. set (op_depends_on z)). issubclass p t \<longrightarrow> y \<in> C"
    then show "x \<in> C" using kept_operators_least [of ops reg sinks C] by blast
  next
    assume "\<forall>C. (\<forall>y \<in> set ops. \<forall>p \<in> set (effective_produces reg y).
      \<forall>t \<in> set sinks \<union> (\<Union>z \<in> C. set (op_depends_on z)). issubclass p t \<longrightarrow> y \<in> C) \<longrightarrow> x \<in> C"
    then show "x \<in> set ?K"
      by (rule allE [of _ "set ?K"]) (use kept_operators_closed [of _ ops _ reg _ sinks] in \<open>auto simp: needed_types_def\<close>)
  qed
  moreover have "c \<in> set (keep_capabilities ?K caps []) \<longleftrightarrow>
    (\<forall>C. (\<forall>d \<in> set caps. \<forall>t \<in> required_by ?K C. issubclass (cap_class d) t \<longrightarrow> d \<in> C) \<longrightarrow> c \<in> C)"
  proof (intro iffI allI impI)
    fix C
    assume "c \<in> set (keep_capabilities ?K caps [])" and "\<forall>d \<in> set caps. \<forall>t \<in> required_by ?K C. issubclass (cap_class d) t \<longrightarrow> d \<in> C"
    then show "c \<in> C" using keep_capabilities_least [of caps ?K C] by blast
  next
    assume "\<forall>C. (\<forall>d \<in> set caps. \<forall>t \<in> required_by ?K C. issubclass (cap_class d) t \<longrightarrow> d \<in> C) \<longrightarrow> c \<in> C"
    then show "c \<in> set (keep_capabilities ?K caps [])" using keep_capabilities_closed [of _ caps _ ?K] by blast
  qed
  ultimately show ?thesis by (auto simp: backward_reachable_def Let_def)
qed

definition sample_operator :: "string \<Rightarrow> pyclass list \<Rightarrow> pyclass list \<Rightarrow> pyclass list \<Rightarrow> operator_class" where
  "sample_operator n deps prods reqs = \<lparr>op_class = PyClass n [], op_id = n,
     op_policy = \<lparr>rerun_on_new_data = False, rerun_on = ADDED_OR_UPDATED, debounce = None, max_cycles = None,
       op_timeout = None, op_retry = None\<rparr>,
     op_depends_on = deps, op_uses = [], op_produces = prods, op_requires = reqs, is_aggregator = False,
     interim_refresh = False, op_consumes = []\<rparr>"

theorem backward_reachable_least_witness:
  "OpNode (sample_operator ''a'' [] [PyClass ''X'' []] []) \<in>
     set (backward_reachable empty_registry [sample_operator ''a'' [] [PyClass ''X'' []] []] [] [PyClass ''X'' []])"
  using backward_reachable_least [of "sample_operator ''a'' [] [PyClass ''X'' []] []" empty_registry
      "[sample_operator ''a'' [] [PyClass ''X'' []] []]" "[]" "[PyClass ''X'' []]"]
  by (auto simp: effective_produces_def empty_registry_def sample_operator_def)

text \<open>
  Also: the circuit breaker bounds every capped operator: however often an operator with cap
  \<open>n\<close> is asked to run, interleaved with any other operators, it runs at most \<open>n\<close> times (and
  exactly as often as it was asked to, up to the cap).
\<close>

theorem breaker_bounds_runs:
  assumes "caps oid = Some n" and "0 \<le> n"
  shows "breaker_runs oid (fold attempt_run oids (new_breaker caps)) = min n (int (count_list oids oid))"
proof -
  have "breaker_runs oid (fold attempt_run oids b) = min n (breaker_runs oid b + int (count_list oids oid))"
    if "cb_caps b oid = Some n" "breaker_runs oid b \<le> n" for b
    using that
  proof (induction oids arbitrary: b)
    case Nil
    then show ?case by simp
  next
    case (Cons o' os)
    have c: "cb_caps (attempt_run o' b) oid = Some n" using Cons.prems(1) by (simp add: attempt_run_def record_run_def)
    have r: "breaker_runs oid (attempt_run o' b) = (if o' = oid then min n (breaker_runs oid b + 1) else breaker_runs oid b)"
      using Cons.prems by (auto simp: attempt_run_def is_tripped_def record_run_def breaker_runs_def)
    from Cons.IH [OF c] r Cons.prems(2) show ?case by auto
  qed
  from this [of "new_breaker caps"] assms show ?thesis by (simp add: new_breaker_def breaker_runs_def)
qed

theorem breaker_bounds_runs_witness:
  "breaker_runs ''a'' (fold attempt_run [''a'', ''b'', ''a'', ''a'', ''a''] (new_breaker [''a'' \<mapsto> 2])) = 2"
  using breaker_bounds_runs [of "[''a'' \<mapsto> 2]" "''a''" 2 "[''a'', ''b'', ''a'', ''a'', ''a'']"] by simp

end
