(* ===== verification/Scheduling.thy ===== *)
theory Scheduling
  imports Dependency_Graph State_Mirror
begin

text \<open>
  The scheduling decisions of \<^verbatim>\<open>orcastork/scheduling/\<close>: readiness, graph-aware quiescence,
  the invocation delta from a watermark, debounce windows and completion conditions; and the
  pruning decision of the orchestrator's constructor, which rests on them. The reader interface
  \<open>DataPointReader\<close> that the delta is computed from is the locale \<open>delta_reader\<close>, provided by
  the store and by the mirror.
\<close>

declare map_of_eq_Some_iff [simp del] Some_eq_map_of_iff [simp del]

section \<open>Readiness\<close>

record readiness_gap =
  missing_data_points :: "pyclass list"
  missing_capabilities :: "pyclass list"

definition unsatisfied :: "pyclass list \<Rightarrow> pyclass list \<Rightarrow> pyclass list" where
  "unsatisfied required present =
     sort_key cls_name (filter (\<lambda>t. \<not> (\<exists>p \<in> set present. issubclass p t)) required)"

definition readiness_gap_of :: "operator_class \<Rightarrow> pyclass list \<Rightarrow> pyclass list \<Rightarrow> readiness_gap" where
  "readiness_gap_of x present avail =
     \<lparr>missing_data_points = unsatisfied (op_depends_on x) present,
      missing_capabilities = unsatisfied (op_requires x) avail\<rparr>"

definition gap_is_ready :: "readiness_gap \<Rightarrow> bool" where
  "gap_is_ready g \<longleftrightarrow> missing_data_points g = [] \<and> missing_capabilities g = []"

definition is_ready :: "operator_class \<Rightarrow> pyclass list \<Rightarrow> pyclass list \<Rightarrow> bool" where
  "is_ready x present avail = gap_is_ready (readiness_gap_of x present avail)"

definition ready_operators ::
  "operator_class list \<Rightarrow> pyclass list \<Rightarrow> pyclass list \<Rightarrow> operator_id list \<Rightarrow> operator_class list" where
  "ready_operators ops present avail already_run =
     filter (\<lambda>x. op_id x \<notin> set already_run \<and> is_ready x present avail) ops"

section \<open>Quiescence\<close>

definition deps_reachable :: "operator_class \<Rightarrow> pyclass list \<Rightarrow> bool" where
  "deps_reachable x producible \<longleftrightarrow> (\<forall>t \<in> set (op_depends_on x). \<exists>p \<in> set producible. issubclass p t)"

definition caps_available :: "operator_class \<Rightarrow> pyclass list \<Rightarrow> bool" where
  "caps_available x avail \<longleftrightarrow> (\<forall>t \<in> set (op_requires x). \<exists>c \<in> set avail. issubclass c t)"

definition admits :: "pyclass list \<Rightarrow> pyclass list \<Rightarrow> operator_class \<Rightarrow> bool" where
  "admits avail producible x \<longleftrightarrow> deps_reachable x producible \<and> caps_available x avail"

definition reachable_pending ::
  "dp_registry \<Rightarrow> operator_class list \<Rightarrow> pyclass list \<Rightarrow> pyclass list \<Rightarrow> operator_class list" where
  "reachable_pending reg pending present avail =
     fst (admit_loop (admits avail) (\<lambda>x producible. producible @ effective_produces reg x) pending [] present)"

definition is_quiescent :: "dp_registry \<Rightarrow> operator_class list \<Rightarrow> pyclass list \<Rightarrow> pyclass list \<Rightarrow> bool" where
  "is_quiescent reg pending present avail \<longleftrightarrow> reachable_pending reg pending present avail = []"

section \<open>The delta since a watermark\<close>

definition compute_delta ::
  "change_set \<Rightarrow> data_point list \<Rightarrow> capability_id list \<Rightarrow> capability_id list \<Rightarrow> bool \<Rightarrow> invocation_delta" where
  "compute_delta change current previous_caps available_caps first =
     (let newly = filter (\<lambda>c. c \<notin> set previous_caps) available_caps
      in if first then \<lparr>dt_added = current, dt_updated = [], dt_newly_available_caps = newly, dt_is_first_invocation = True\<rparr>
         else \<lparr>dt_added = cs_added change, dt_updated = cs_updated change, dt_newly_available_caps = newly,
               dt_is_first_invocation = False\<rparr>)"

text \<open>\<open>view\<close> and \<open>changes\<close> are the reader's two calls; either may raise.\<close>

definition operator_delta ::
  "orca_error + dp_view \<Rightarrow> (revision \<Rightarrow> orca_error + change_set) \<Rightarrow> revision option \<Rightarrow>
     capability_id list \<Rightarrow> capability_id list \<Rightarrow> orca_error + invocation_delta" where
  "operator_delta view changes watermark available_caps previous_caps =
     (case watermark of
        None \<Rightarrow> (case view of Inl e \<Rightarrow> Inl e
          | Inr current \<Rightarrow> Inr (compute_delta \<lparr>cs_added = [], cs_updated = []\<rparr> current previous_caps available_caps True))
      | Some w \<Rightarrow> (case changes w of Inl e \<Rightarrow> Inl e
          | Inr change \<Rightarrow> Inr (compute_delta change [] previous_caps available_caps False)))"

section \<open>Debounce\<close>

definition default_debounce :: seconds where
  "default_debounce = 0"

definition rerun_eligible :: "operator_policy \<Rightarrow> bool \<Rightarrow> bool" where
  "rerun_eligible policy has_relevant_new_data \<longleftrightarrow> rerun_on_new_data policy \<and> has_relevant_new_data"

definition window_defers_to_finalize :: "operator_class \<Rightarrow> bool \<Rightarrow> bool" where
  "window_defers_to_finalize x completion_satisfied \<longleftrightarrow> completion_satisfied \<and> is_aggregator x \<and> interim_refresh x"

record debounce_controller =
  db_default_window :: seconds
  db_due_at :: "operator_id \<rightharpoonup> seconds"

definition debounce_schedule :: "seconds \<Rightarrow> operator_id \<Rightarrow> seconds option \<Rightarrow> debounce_controller \<Rightarrow> debounce_controller" where
  "debounce_schedule now oid window d =
     (let effective = (case window of None \<Rightarrow> db_default_window d | Some w \<Rightarrow> w)
      in d\<lparr>db_due_at := (db_due_at d)(oid \<mapsto> now + effective)\<rparr>)"

definition is_scheduled :: "operator_id \<Rightarrow> debounce_controller \<Rightarrow> bool" where
  "is_scheduled oid d \<longleftrightarrow> db_due_at d oid \<noteq> None"

definition is_due :: "seconds \<Rightarrow> operator_id \<Rightarrow> debounce_controller \<Rightarrow> bool" where
  "is_due now oid d = (case db_due_at d oid of None \<Rightarrow> False | Some due \<Rightarrow> due \<le> now)"

definition debounce_clear :: "operator_id \<Rightarrow> debounce_controller \<Rightarrow> debounce_controller" where
  "debounce_clear oid d = d\<lparr>db_due_at := (db_due_at d)(oid := None)\<rparr>"

section \<open>Completion conditions\<close>

text \<open>
  A custom condition is opaque: it is its qualified name, and what it decides is the argument
  \<open>custom\<close> of the check.
\<close>

datatype completion_condition =
    TypePresent pyclass
  | AllOf "completion_condition list"
  | AnyOf "completion_condition list"
  | CustomCondition string

primrec is_satisfied :: "(string \<Rightarrow> dp_view \<Rightarrow> bool) \<Rightarrow> completion_condition \<Rightarrow> dp_view \<Rightarrow> bool" where
  "is_satisfied custom (TypePresent t) v = (of_type v t \<noteq> [])"
| "is_satisfied custom (AllOf cs) v = list_all (\<lambda>f. f v) (map (is_satisfied custom) cs)"
| "is_satisfied custom (AnyOf cs) v = list_ex (\<lambda>f. f v) (map (is_satisfied custom) cs)"
| "is_satisfied custom (CustomCondition n) v = custom n v"

primrec join_comma :: "string list \<Rightarrow> string" where
  "join_comma [] = []"
| "join_comma (x # xs) = (if xs = [] then x else x @ '', '' @ join_comma xs)"

primrec describe_condition :: "completion_condition \<Rightarrow> string" where
  "describe_condition (TypePresent t) = ''TypePresent('' @ cls_name t @ '')''"
| "describe_condition (AllOf cs) = ''AllOf('' @ join_comma (map describe_condition cs) @ '')''"
| "describe_condition (AnyOf cs) = ''AnyOf('' @ join_comma (map describe_condition cs) @ '')''"
| "describe_condition (CustomCondition n) = n"

definition union_known :: "pyclass list option list \<Rightarrow> pyclass list option" where
  "union_known rs = (if None \<in> set rs then None else Some (remdups (concat (map the rs))))"

primrec condition_types :: "completion_condition \<Rightarrow> pyclass list option" where
  "condition_types (TypePresent t) = Some [t]"
| "condition_types (AllOf cs) = union_known (map condition_types cs)"
| "condition_types (AnyOf cs) = union_known (map condition_types cs)"
| "condition_types (CustomCondition n) = None"

definition referenced_types :: "completion_condition option \<Rightarrow> pyclass list option" where
  "referenced_types c = (case c of None \<Rightarrow> Some [] | Some x \<Rightarrow> condition_types x)"

text \<open>The public parameter: a class (is it a DataPoint class?), a condition, or something else.\<close>

datatype completion_item = ItemClass pyclass bool | ItemCondition completion_condition | ItemOther

definition normalize_item :: "completion_item \<Rightarrow> orca_error + completion_condition" where
  "normalize_item item =
     (case item of
        ItemClass t is_data_point \<Rightarrow> if is_data_point then Inr (TypePresent t) else Inl InvalidCompletionConditionError
      | ItemCondition c \<Rightarrow> Inr c
      | ItemOther \<Rightarrow> Inl InvalidCompletionConditionError)"

definition normalize_completion :: "completion_item option \<Rightarrow> orca_error + completion_condition option" where
  "normalize_completion item =
     (case item of None \<Rightarrow> Inr None
      | Some i \<Rightarrow> (case normalize_item i of Inl e \<Rightarrow> Inl e | Inr c \<Rightarrow> Inr (Some c)))"

section \<open>Pruning\<close>

text \<open>
  \<^verbatim>\<open>_prune_to_consumed_closure\<close>: the operators that will gather, given the configured ones and
  the aggregators. \<open>gathering\<close> is the list before pruning.
\<close>

definition prune_to_consumed_closure ::
  "dp_registry \<Rightarrow> operator_class list \<Rightarrow> operator_class list \<Rightarrow> capability_class list \<Rightarrow>
     completion_condition option \<Rightarrow> operator_class list" where
  "prune_to_consumed_closure reg gathering aggregators caps completes_when =
     (let declared = remdups (concat (map op_consumes aggregators)) in
      if declared = [] then gathering
      else case referenced_types completes_when of
        None \<Rightarrow> gathering
      | Some completion_types \<Rightarrow>
          let gate_inputs = concat (map op_depends_on aggregators);
              sinks = declared @ gate_inputs @ completion_types;
              runnable = filter (\<lambda>x. \<not> is_aggregator x) gathering;
              kept = backward_reachable reg runnable caps sinks
          in filter (\<lambda>x. is_aggregator x \<or> OpNode x \<in> set kept) gathering)"

section \<open>Readiness and the fixpoint\<close>

lemma sort_key_Nil_iff [simp]: "sort_key f xs = [] \<longleftrightarrow> xs = []"
  by (metis length_0_conv length_sort)

lemma unsatisfied_Nil: "unsatisfied required present = [] \<longleftrightarrow> (\<forall>t \<in> set required. \<exists>p \<in> set present. issubclass p t)"
  by (simp add: unsatisfied_def filter_empty_conv)

lemma is_ready_iff: "is_ready x present avail \<longleftrightarrow> admits avail present x"
  by (simp add: is_ready_def gap_is_ready_def readiness_gap_of_def unsatisfied_Nil admits_def deps_reachable_def
      caps_available_def)

lemma is_ready_mono: "is_ready x present avail \<Longrightarrow> set present \<subseteq> set present' \<Longrightarrow> is_ready x present' avail"
  unfolding is_ready_iff admits_def deps_reachable_def by blast

interpretation quiescence: admission "admits avail" "\<lambda>x producible. producible @ effective_produces reg x" set
    "\<lambda>x. set (effective_produces reg x)"
    "\<lambda>A x. (\<forall>t \<in> set (op_depends_on x). \<exists>p \<in> A. issubclass p t) \<and> caps_available x avail" for avail reg
  by unfold_locales (auto simp: admits_def deps_reachable_def, blast)

lemma reachable_loop:
  obtains s where "admit_loop (admits avail) (\<lambda>x producible. producible @ effective_produces reg x) pending [] present =
    (reachable_pending reg pending present avail, s)"
  by (metis fst_conv prod.exhaust_sel reachable_pending_def)

lemma reachable_pending_closed:
  assumes "x \<in> set pending" and "caps_available x avail"
    and "\<forall>t \<in> set (op_depends_on x). \<exists>p \<in> set present \<union> (\<Union>y \<in> set (reachable_pending reg pending present avail).
      set (effective_produces reg y)). issubclass p t"
  shows "x \<in> set (reachable_pending reg pending present avail)"
proof -
  obtain s where l: "admit_loop (admits avail) (\<lambda>x producible. producible @ effective_produces reg x) pending [] present =
    (reachable_pending reg pending present avail, s)" by (rule reachable_loop)
  show ?thesis by (rule quiescence.loop_closed [OF l assms(1)]) (use assms(2,3) in blast)
qed

lemma reachable_pending_least:
  assumes "\<And>x. x \<in> set pending \<Longrightarrow> caps_available x avail \<Longrightarrow>
     \<forall>t \<in> set (op_depends_on x). \<exists>p \<in> set present \<union> (\<Union>y \<in> C. set (effective_produces reg y)). issubclass p t \<Longrightarrow> x \<in> C"
  shows "set (reachable_pending reg pending present avail) \<subseteq> C"
proof -
  obtain s where l: "admit_loop (admits avail) (\<lambda>x producible. producible @ effective_produces reg x) pending [] present =
    (reachable_pending reg pending present avail, s)" by (rule reachable_loop)
  show ?thesis by (rule quiescence.loop_least [OF l]) (use assms in blast)
qed

lemma reachable_pending_subset: "set (reachable_pending reg pending present avail) \<subseteq> set pending"
proof -
  obtain s where l: "admit_loop (admits avail) (\<lambda>x producible. producible @ effective_produces reg x) pending [] present =
    (reachable_pending reg pending present avail, s)" by (rule reachable_loop)
  show ?thesis by (rule quiescence.loop_subset [OF l])
qed

section \<open>Gathering as an execution\<close>

text \<open>
  The types that can be present when pending operators run one after the other, each ready when
  it runs and each emitting any of the types it may produce.
\<close>

inductive gathering_run :: "dp_registry \<Rightarrow> operator_class list \<Rightarrow> pyclass list \<Rightarrow> pyclass list \<Rightarrow> pyclass list \<Rightarrow> bool"
  for reg pending avail present where
  start: "gathering_run reg pending avail present present"
| emit: "gathering_run reg pending avail present ps \<Longrightarrow> x \<in> set pending \<Longrightarrow> is_ready x ps avail \<Longrightarrow>
    set qs \<subseteq> set (effective_produces reg x) \<Longrightarrow> gathering_run reg pending avail present (ps @ qs)"

inductive_simps gathering_run_any: "gathering_run reg pending avail present ps"

lemma gathering_run_present: "gathering_run reg pending avail present ps \<Longrightarrow> set present \<subseteq> set ps"
  by (induction rule: gathering_run.induct) auto

lemma gathering_run_union:
  assumes "gathering_run reg pending avail present qs" and "gathering_run reg pending avail present ps"
  shows "\<exists>rs. gathering_run reg pending avail present rs \<and> set rs = set ps \<union> set qs"
  using assms(1)
proof (induction rule: gathering_run.induct)
  case start
  then show ?case using assms(2) gathering_run_present [OF assms(2)] by auto
next
  case (emit qs x ns)
  then obtain rs where rs: "gathering_run reg pending avail present rs" "set rs = set ps \<union> set qs" by blast
  have "is_ready x rs avail" by (rule is_ready_mono [OF emit.hyps(3)]) (use rs(2) in auto)
  from gathering_run.emit [OF rs(1) emit.hyps(2) this emit.hyps(4)] rs(2) show ?case by (intro exI [of _ "rs @ ns"]) auto
qed

lemma gathering_run_all:
  assumes "\<forall>y \<in> set ys. y \<in> set pending \<and> (\<exists>ps. gathering_run reg pending avail present ps \<and> is_ready y ps avail)"
  shows "\<exists>rs. gathering_run reg pending avail present rs \<and> (\<Union>y \<in> set ys. set (effective_produces reg y)) \<subseteq> set rs"
  using assms
proof (induction ys)
  case Nil
  then show ?case by (auto intro: gathering_run.start)
next
  case (Cons y ys)
  then obtain rs where rs: "gathering_run reg pending avail present rs"
    "(\<Union>y \<in> set ys. set (effective_produces reg y)) \<subseteq> set rs" by auto
  from Cons.prems obtain ps where "gathering_run reg pending avail present ps" "is_ready y ps avail" "y \<in> set pending"
    by auto
  then have "gathering_run reg pending avail present (ps @ effective_produces reg y)"
    by (intro gathering_run.emit) auto
  from gathering_run_union [OF this rs(1)] obtain us
    where "gathering_run reg pending avail present us" "set us = set rs \<union> set (ps @ effective_produces reg y)" by blast
  with rs(2) show ?case by auto
qed

lemma ready_reachable:
  assumes "x \<in> set pending" and "is_ready x ps avail"
    and "set ps \<subseteq> set present \<union> (\<Union>y \<in> set (reachable_pending reg pending present avail). set (effective_produces reg y))"
  shows "x \<in> set (reachable_pending reg pending present avail)"
proof (rule reachable_pending_closed [OF assms(1)])
  from assms(2) have r: "caps_available x avail" "\<forall>t \<in> set (op_depends_on x). \<exists>p \<in> set ps. issubclass p t"
    by (simp_all add: is_ready_iff admits_def deps_reachable_def)
  then show "caps_available x avail" by simp
  show "\<forall>t \<in> set (op_depends_on x). \<exists>p \<in> set present \<union>
      (\<Union>y \<in> set (reachable_pending reg pending present avail). set (effective_produces reg y)). issubclass p t"
  proof
    fix t
    assume "t \<in> set (op_depends_on x)"
    with r(2) obtain p where "p \<in> set ps" "issubclass p t" by blast
    with subsetD [OF assms(3)] show "\<exists>p \<in> set present \<union>
      (\<Union>y \<in> set (reachable_pending reg pending present avail). set (effective_produces reg y)). issubclass p t"
      by (intro bexI [of _ p])
  qed
qed

lemma gathering_run_sound:
  assumes "gathering_run reg pending avail present ps"
  shows "set ps \<subseteq> set present \<union> (\<Union>y \<in> set (reachable_pending reg pending present avail). set (effective_produces reg y))"
  using assms
proof (induction rule: gathering_run.induct)
  case start
  then show ?case by blast
next
  case (emit ps x qs)
  have "x \<in> set (reachable_pending reg pending present avail)"
    by (rule ready_reachable [OF emit.hyps(2,3) emit.IH])
  with emit.IH emit.hyps(4) show ?case by auto
qed

lemma reachable_pending_runs:
  "x \<in> set (reachable_pending reg pending present avail) \<longleftrightarrow>
     x \<in> set pending \<and> (\<exists>ps. gathering_run reg pending avail present ps \<and> is_ready x ps avail)"
proof
  let ?C = "{x \<in> set pending. \<exists>ps. gathering_run reg pending avail present ps \<and> is_ready x ps avail}"
  have "set (reachable_pending reg pending present avail) \<subseteq> ?C"
  proof (rule reachable_pending_least)
    fix x
    assume x: "x \<in> set pending" "caps_available x avail"
      "\<forall>t \<in> set (op_depends_on x). \<exists>p \<in> set present \<union> (\<Union>y \<in> ?C. set (effective_produces reg y)). issubclass p t"
    have "finite ?C" by simp
    from finite_list [OF this] obtain ys where ys: "set ys = ?C" by (elim exE)
    then have "\<forall>y \<in> set ys. y \<in> set pending \<and> (\<exists>ps. gathering_run reg pending avail present ps \<and> is_ready y ps avail)"
      by blast
    from gathering_run_all [OF this] obtain rs where rs: "gathering_run reg pending avail present rs"
      "(\<Union>y \<in> set ys. set (effective_produces reg y)) \<subseteq> set rs" by (elim exE conjE)
    have types: "set present \<union> (\<Union>y \<in> ?C. set (effective_produces reg y)) \<subseteq> set rs"
      using rs(2) gathering_run_present [OF rs(1)] unfolding ys by blast
    have "deps_reachable x rs"
      unfolding deps_reachable_def
    proof
      fix t
      assume t: "t \<in> set (op_depends_on x)"
      from bspec [OF x(3) t] obtain p where "p \<in> set present \<union> (\<Union>y \<in> ?C. set (effective_produces reg y))" "issubclass p t"
        by (elim bexE)
      with types show "\<exists>p \<in> set rs. issubclass p t" by (intro bexI [of _ p] subsetD [OF types])
    qed
    with x(2) have "is_ready x rs avail" by (simp add: is_ready_iff admits_def)
    with x(1) rs(1) show "x \<in> ?C" by blast
  qed
  then show "x \<in> set (reachable_pending reg pending present avail) \<Longrightarrow>
     x \<in> set pending \<and> (\<exists>ps. gathering_run reg pending avail present ps \<and> is_ready x ps avail)" by blast
next
  assume "x \<in> set pending \<and> (\<exists>ps. gathering_run reg pending avail present ps \<and> is_ready x ps avail)"
  then obtain ps where x: "x \<in> set pending" and ps: "gathering_run reg pending avail present ps" "is_ready x ps avail"
    by blast
  show "x \<in> set (reachable_pending reg pending present avail)"
    by (rule ready_reachable [OF x ps(2) gathering_run_sound [OF ps(1)]])
qed

section \<open>The reader interface\<close>

text \<open>
  What the delta relies on: in a good state the view is readable, a change set holds only data
  of the view, no data point is both added and updated, and nothing changed since the current
  revision.
\<close>

locale delta_reader =
  fixes ok :: "'s \<Rightarrow> bool"
    and view :: "'s \<Rightarrow> orca_error + dp_view"
    and changes :: "'s \<Rightarrow> revision \<Rightarrow> orca_error + change_set"
    and current :: "'s \<Rightarrow> revision"
  assumes view_readable: "ok s \<Longrightarrow> \<exists>v. view s = Inr v"
    and changes_in_view: "ok s \<Longrightarrow> view s = Inr v \<Longrightarrow> changes s r = Inr c \<Longrightarrow>
      set (cs_added c) \<union> set (cs_updated c) \<subseteq> set v"
    and changes_disjoint: "ok s \<Longrightarrow> changes s r = Inr c \<Longrightarrow> set (cs_added c) \<inter> set (cs_updated c) = {}"
    and caught_up: "ok s \<Longrightarrow> changes s (current s) = Inr \<lparr>cs_added = [], cs_updated = []\<rparr>"
begin

lemma first_delta:
  assumes "ok s" and "view s = Inr v"
  shows "operator_delta (view s) (changes s) None avail prev =
    Inr \<lparr>dt_added = v, dt_updated = [], dt_newly_available_caps = filter (\<lambda>c. c \<notin> set prev) avail,
         dt_is_first_invocation = True\<rparr>"
  using assms by (simp add: operator_delta_def compute_delta_def)

lemma delta_in_view:
  assumes "ok s" and "view s = Inr v" and "operator_delta (view s) (changes s) w avail prev = Inr d"
  shows "set (dt_added d) \<union> set (dt_updated d) \<subseteq> set v \<and> set (dt_added d) \<inter> set (dt_updated d) = {}"
proof (cases w)
  case None
  with assms(3) first_delta [OF assms(1,2), of avail prev]
  have "d = \<lparr>dt_added = v, dt_updated = [], dt_newly_available_caps = filter (\<lambda>c. c \<notin> set prev) avail,
         dt_is_first_invocation = True\<rparr>" by simp
  then show ?thesis by simp
next
  case (Some r)
  with assms(3) obtain c where "changes s r = Inr c" "dt_added d = cs_added c" "dt_updated d = cs_updated c"
    by (auto simp: operator_delta_def compute_delta_def split: sum.splits)
  with changes_in_view [OF assms(1,2)] changes_disjoint [OF assms(1)] show ?thesis by simp
qed

lemma no_delta_when_caught_up:
  assumes "ok s"
  shows "operator_delta (view s) (changes s) (Some (current s)) avail prev =
    Inr \<lparr>dt_added = [], dt_updated = [], dt_newly_available_caps = filter (\<lambda>c. c \<notin> set prev) avail,
         dt_is_first_invocation = False\<rparr>"
  using caught_up [OF assms] by (simp add: operator_delta_def compute_delta_def)

end

lemma store_change_set_in_snapshot:
  "set (cs_added (store_change_set_since s r)) \<union> set (cs_updated (store_change_set_since s r)) \<subseteq> set (store_snapshot s)"
  by (auto simp: store_change_set_since_def store_snapshot_def)

lemma store_change_set_disjoint:
  assumes "store_inv s"
  shows "set (cs_added (store_change_set_since s r)) \<inter> set (cs_updated (store_change_set_since s r)) = {}"
  using change_set_members [OF assms] by fastforce

lemma store_change_set_current:
  assumes "store_inv s"
  shows "store_change_set_since s (st_revision s) = \<lparr>cs_added = [], cs_updated = []\<rparr>"
proof -
  have "\<not> st_revision s < en_added (snd p)" "\<not> st_revision s < en_updated (snd p)" if "p \<in> set (st_entries s)" for p
    using mirror_ok_keys_entry(2) [OF assms that] by (simp_all add: entry_ok_def)
  then show ?thesis by (simp add: store_change_set_since_def filter_empty_conv)
qed

interpretation store_reader: delta_reader store_inv "\<lambda>s. Inr (store_snapshot s)" "\<lambda>s r. Inr (store_change_set_since s r)" st_revision
proof (unfold_locales, goal_cases)
  case (1 s)
  show ?case by simp
next
  case (2 s v r c)
  with store_change_set_in_snapshot [of s r] show ?case by simp
next
  case (3 s r c)
  with store_change_set_disjoint [of s r] show ?case by simp
next
  case (4 s)
  with store_change_set_current [of s] show ?case by simp
qed

lemma mirror_changes_store:
  assumes "mirror_ok m s" and "store_inv s" and "mirror_change_set_since m (mi_session m) r = Inr c"
  shows "c = store_change_set_since s r"
proof (cases "mi_rehydrated_at m \<le> r \<or> mi_baselines m r \<noteq> None")
  case True
  with mirror_changes [OF assms(1,2) True] assms(3) show ?thesis by simp
next
  case False
  with assms(3) show ?thesis
    by (auto simp: mirror_change_set_since_def mirror_guard_read_def baselined_change_set_def split: if_splits)
qed

interpretation mirror_reader: delta_reader "\<lambda>(m, s). mirror_ok m s \<and> store_inv s"
    "\<lambda>(m, s). mirror_snapshot m (mi_session m)" "\<lambda>(m, s). mirror_change_set_since m (mi_session m)" "\<lambda>(m, s). mi_revision m"
proof (unfold_locales, goal_cases)
  case (1 w)
  then show ?case using mirror_reads(1) by (cases w) auto
next
  case (2 w v r c)
  then obtain m s where w: "w = (m, s)" "mirror_ok m s" "store_inv s" by (cases w) auto
  with 2 mirror_reads(1) [OF w(2)] mirror_changes_store [OF w(2,3)] store_change_set_in_snapshot [of s r]
  show ?case by simp
next
  case (3 w r c)
  then obtain m s where w: "w = (m, s)" "mirror_ok m s" "store_inv s" by (cases w) auto
  with 3 mirror_changes_store [OF w(2,3)] store_change_set_disjoint [OF w(3), of r] show ?case by simp
next
  case (4 w)
  then obtain m s where w: "w = (m, s)" "mirror_ok m s" "store_inv s" by (cases w) auto
  then have "mi_rehydrated_at m \<le> mi_revision m" "mi_revision m = st_revision s" by (simp_all add: mirror_ok_def)
  with w mirror_changes [OF w(2,3), of "mi_revision m"] store_change_set_current [OF w(3)] show ?case by simp
qed

section \<open>Completion conditions\<close>

lemma union_known_member: "union_known rs = Some ts \<Longrightarrow> r \<in> set rs \<Longrightarrow> \<exists>us. r = Some us \<and> set us \<subseteq> set ts"
  by (cases r) (force simp: union_known_def split: if_splits)+

lemma condition_types_decide:
  assumes "condition_types c = Some ts" and "\<forall>t \<in> set ts. of_type v t = [] \<longleftrightarrow> of_type w t = []"
  shows "is_satisfied custom c v \<longleftrightarrow> is_satisfied custom' c w"
  using assms
proof (induction c arbitrary: ts)
  case (AllOf cs)
  have "is_satisfied custom x v \<longleftrightarrow> is_satisfied custom' x w" if x: "x \<in> set cs" for x
  proof -
    from AllOf.prems(1) x union_known_member [of "map condition_types cs" ts "condition_types x"]
    obtain us where "condition_types x = Some us" "set us \<subseteq> set ts" by auto
    with AllOf.IH [OF x] AllOf.prems(2) show ?thesis by blast
  qed
  then show ?case by (simp add: list_all_iff)
next
  case (AnyOf cs)
  have "is_satisfied custom x v \<longleftrightarrow> is_satisfied custom' x w" if x: "x \<in> set cs" for x
  proof -
    from AnyOf.prems(1) x union_known_member [of "map condition_types cs" ts "condition_types x"]
    obtain us where "condition_types x = Some us" "set us \<subseteq> set ts" by auto
    with AnyOf.IH [OF x] AnyOf.prems(2) show ?thesis by blast
  qed
  then show ?case by (simp add: list_ex_iff)
qed simp_all

lemma is_satisfied_mono:
  assumes "condition_types c = Some ts" and "set v \<subseteq> set w" and "is_satisfied custom c v"
  shows "is_satisfied custom c w"
  using assms(1,3)
proof (induction c arbitrary: ts)
  case (TypePresent t)
  with assms(2) show ?case by (fastforce simp: of_type_def filter_empty_conv)
next
  case (AllOf cs)
  have "is_satisfied custom x w" if x: "x \<in> set cs" for x
  proof -
    from AllOf.prems(1) x union_known_member [of "map condition_types cs" ts "condition_types x"]
    obtain us where "condition_types x = Some us" by auto
    with AllOf.IH [OF x] AllOf.prems(2) x show ?thesis by (auto simp: list_all_iff)
  qed
  then show ?case by (simp add: list_all_iff)
next
  case (AnyOf cs)
  from AnyOf.prems(2) obtain x where x: "x \<in> set cs" "is_satisfied custom x v" by (auto simp: list_ex_iff)
  from AnyOf.prems(1) x(1) union_known_member [of "map condition_types cs" ts "condition_types x"]
  obtain us where "condition_types x = Some us" by auto
  with AnyOf.IH [OF x(1)] x show ?case by (auto simp: list_ex_iff)
qed simp

section \<open>Pruning\<close>

text \<open>
  The orchestrator's constructor: interim aggregators gather too, every aggregator finalises, and
  the gathering operators are pruned.
\<close>

definition gathering_of :: "operator_class list \<Rightarrow> operator_class list" where
  "gathering_of ops = filter (\<lambda>x. \<not> is_aggregator x \<or> interim_refresh x) ops"

definition aggregators_of :: "operator_class list \<Rightarrow> operator_class list" where
  "aggregators_of ops = filter is_aggregator ops"

definition pruned_gathering ::
  "dp_registry \<Rightarrow> operator_class list \<Rightarrow> capability_class list \<Rightarrow> completion_condition option \<Rightarrow> operator_class list" where
  "pruned_gathering reg ops caps completes_when =
     prune_to_consumed_closure reg (gathering_of ops) (aggregators_of ops) caps completes_when"

definition prune_sinks :: "operator_class list \<Rightarrow> pyclass list \<Rightarrow> pyclass list" where
  "prune_sinks ops completion_types =
     remdups (concat (map op_consumes (aggregators_of ops))) @ concat (map op_depends_on (aggregators_of ops)) @ completion_types"

lemma pruned_gathering_cases:
  "pruned_gathering reg ops caps cw = gathering_of ops \<or>
   (\<exists>ts. referenced_types cw = Some ts \<and> pruned_gathering reg ops caps cw =
      filter (\<lambda>x. is_aggregator x \<or>
        x \<in> set (kept_operators reg (filter (\<lambda>x. \<not> is_aggregator x) (gathering_of ops)) (prune_sinks ops ts))) (gathering_of ops))"
  by (auto simp: pruned_gathering_def prune_to_consumed_closure_def backward_reachable_def prune_sinks_def Let_def
      image_iff split: option.splits)

lemma pruned_needs_kept:
  assumes g: "x \<in> set (pruned_gathering reg ops caps cw)" and t: "t \<in> set (op_depends_on x)"
    and y: "y \<in> set (gathering_of ops)" and p: "p \<in> set (effective_produces reg y)" "issubclass p t"
  shows "y \<in> set (pruned_gathering reg ops caps cw)"
proof -
  let ?run = "filter (\<lambda>x. \<not> is_aggregator x) (gathering_of ops)"
  consider "pruned_gathering reg ops caps cw = gathering_of ops"
    | ts where "pruned_gathering reg ops caps cw =
        filter (\<lambda>x. is_aggregator x \<or> x \<in> set (kept_operators reg ?run (prune_sinks ops ts))) (gathering_of ops)"
    using pruned_gathering_cases [of reg ops caps cw] by blast
  then show ?thesis
  proof cases
    case 1
    with y show ?thesis by simp
  next
    case 2
    let ?K = "kept_operators reg ?run (prune_sinks ops ts)"
    have "t \<in> needed_types (prune_sinks ops ts) ?K"
    proof (cases "is_aggregator x")
      case True
      with g 2 have "x \<in> set (aggregators_of ops)" by (auto simp: gathering_of_def aggregators_of_def)
      with t show ?thesis by (auto simp: needed_types_def prune_sinks_def)
    next
      case False
      with g 2 have "x \<in> set ?K" by simp
      with t show ?thesis by (auto simp: needed_types_def)
    qed
    with kept_operators_closed [of y ?run p reg t] y p have "is_aggregator y \<or> y \<in> set ?K" by auto
    with 2 y show ?thesis by simp
  qed
qed

lemma pruned_gathering_subset: "set (pruned_gathering reg ops caps cw) \<subseteq> set (gathering_of ops)"
  using pruned_gathering_cases [of reg ops caps cw] by auto

lemma pruning_keeps_reachable:
  assumes x: "x \<in> set (pruned_gathering reg ops caps cw)"
    and r: "x \<in> set (reachable_pending reg (gathering_of ops) present avail)"
  shows "x \<in> set (reachable_pending reg (pruned_gathering reg ops caps cw) present avail)"
proof -
  let ?G = "pruned_gathering reg ops caps cw"
  let ?R = "set (reachable_pending reg ?G present avail)"
  let ?C = "{z. z \<in> set (gathering_of ops) \<and> (z \<in> set ?G \<longrightarrow> z \<in> ?R)}"
  have "set (reachable_pending reg (gathering_of ops) present avail) \<subseteq> ?C"
  proof (rule reachable_pending_least)
    fix z
    assume z: "z \<in> set (gathering_of ops)" "caps_available z avail"
      "\<forall>t \<in> set (op_depends_on z). \<exists>p \<in> set present \<union> (\<Union>y \<in> ?C. set (effective_produces reg y)). issubclass p t"
    have "z \<in> ?R" if g: "z \<in> set ?G"
    proof (rule reachable_pending_closed [OF g z(2)], rule ballI)
      fix t
      assume t: "t \<in> set (op_depends_on z)"
      with z(3) obtain p where p: "issubclass p t"
        "p \<in> set present \<or> (\<exists>y. y \<in> ?C \<and> p \<in> set (effective_produces reg y))" by blast
      from p(2) show "\<exists>p \<in> set present \<union> (\<Union>y \<in> ?R. set (effective_produces reg y)). issubclass p t"
      proof
        assume "p \<in> set present"
        with p(1) show ?thesis by blast
      next
        assume "\<exists>y. y \<in> ?C \<and> p \<in> set (effective_produces reg y)"
        then obtain y where y: "y \<in> ?C" "p \<in> set (effective_produces reg y)" by blast
        with pruned_needs_kept [OF g t _ _ p(1)] have "y \<in> ?R" by blast
        with y(2) p(1) show ?thesis by blast
      qed
    qed
    with z(1) show "z \<in> ?C" by blast
  qed
  with x r show ?thesis by blast
qed

section \<open>Properties\<close>

text \<open>
  Also: the quiescence fixpoint is exact: it returns the pending operators that are ready in some
  state gathering can reach, where pending operators run in any order, each when it is ready, and
  each emits any of the types it may produce.
\<close>

theorem reachable_pending_exact:
  "x \<in> set (reachable_pending reg pending present avail) \<longleftrightarrow>
     x \<in> set pending \<and> (\<exists>ps. gathering_run reg pending avail present ps \<and> is_ready x ps avail)"
  by (rule reachable_pending_runs)

text \<open>
  Also: gathering is quiescent exactly when no pending operator is ready now: whenever the
  fixpoint admits an operator at all, some pending operator can run immediately.
\<close>

theorem quiescent_iff_none_ready:
  "is_quiescent reg pending present avail \<longleftrightarrow> ready_operators pending present avail [] = []"
proof
  assume "is_quiescent reg pending present avail"
  then have none: "x \<notin> set (reachable_pending reg pending present avail)" for x by (simp add: is_quiescent_def)
  have "\<not> is_ready x present avail" if "x \<in> set pending" for x
    using none [of x] reachable_pending_runs [of x reg pending present avail] that gathering_run.start by blast
  then show "ready_operators pending present avail [] = []" by (simp add: ready_operators_def filter_empty_conv)
next
  assume r: "ready_operators pending present avail [] = []"
  have "ps = present" if "gathering_run reg pending avail present ps" for ps
    using that
  proof (induction rule: gathering_run.induct)
    case (emit ps x qs)
    with r show ?case by (auto simp: ready_operators_def filter_empty_conv)
  qed simp
  with r have "x \<notin> set (reachable_pending reg pending present avail)" for x
    using reachable_pending_runs [of x reg pending present avail]
    by (auto simp: ready_operators_def filter_empty_conv)
  then have "set (reachable_pending reg pending present avail) = {}" by (metis equals0I)
  then show "is_quiescent reg pending present avail" by (simp add: is_quiescent_def)
qed

text \<open>
  C11: with the capabilities that are available fixed, pruning is safe: an operator that survives
  pruning and could become ready among all gathering operators can still become ready among the
  survivors alone.
\<close>

theorem pruning_preserves_readiness:
  assumes "x \<in> set (pruned_gathering reg ops caps completes_when)"
    and "gathering_run reg (gathering_of ops) avail present ps" and "is_ready x ps avail"
  shows "\<exists>qs. gathering_run reg (pruned_gathering reg ops caps completes_when) avail present qs \<and> is_ready x qs avail"
proof -
  have "x \<in> set (gathering_of ops)" using assms(1) pruned_gathering_subset by blast
  with assms(2,3) have "x \<in> set (reachable_pending reg (gathering_of ops) present avail)"
    unfolding reachable_pending_runs by blast
  from pruning_keeps_reachable [OF assms(1) this] show ?thesis unfolding reachable_pending_runs by blast
qed

definition demo_aggregator :: operator_class where
  "demo_aggregator = (sample_operator ''agg'' [PyClass ''S'' []] [] [])\<lparr>is_aggregator := True, op_consumes := [PyClass ''S'' []]\<rparr>"

definition demo_seed :: operator_class where
  "demo_seed = sample_operator ''seed'' [] [PyClass ''D'' []] []"

definition demo_worker :: operator_class where
  "demo_worker = sample_operator ''worker'' [PyClass ''D'' []] [PyClass ''S'' []] []"

definition demo_noise :: operator_class where
  "demo_noise = sample_operator ''noise'' [] [PyClass ''N'' []] []"

lemmas demo_defs = demo_aggregator_def demo_seed_def demo_worker_def demo_noise_def sample_operator_def

lemma demo_pruned:
  "pruned_gathering empty_registry [demo_seed, demo_noise, demo_worker, demo_aggregator] [] None = [demo_seed, demo_worker]"
  by code_simp

theorem pruning_preserves_readiness_witness:
  "\<exists>qs. gathering_run empty_registry (pruned_gathering empty_registry [demo_seed, demo_noise, demo_worker, demo_aggregator] [] None)
     [] [] qs \<and> is_ready demo_worker qs []"
proof (rule pruning_preserves_readiness)
  show "demo_worker \<in> set (pruned_gathering empty_registry [demo_seed, demo_noise, demo_worker, demo_aggregator] [] None)"
    by (simp add: demo_pruned)
  show "gathering_run empty_registry (gathering_of [demo_seed, demo_noise, demo_worker, demo_aggregator]) [] [] ([] @ [PyClass ''D'' []])"
    by (rule gathering_run.emit [OF gathering_run.start, of demo_seed])
      (simp_all add: gathering_of_def demo_defs is_ready_def gap_is_ready_def readiness_gap_of_def unsatisfied_def
        effective_produces_def empty_registry_def)
  show "is_ready demo_worker ([] @ [PyClass ''D'' []]) []"
    by (simp add: is_ready_iff admits_def deps_reachable_def caps_available_def demo_defs)
qed

text \<open>
  Also: what an operator is told through the mirror: on its first invocation everything in the
  session, later only data of the session, each data point as added or as updated and never as
  both, and nothing when its watermark is the current revision.
\<close>

theorem mirror_operator_delta:
  assumes "mirror_ok m s" and "store_inv s"
    and "operator_delta (mirror_snapshot m (mi_session m)) (mirror_change_set_since m (mi_session m)) w avail prev = Inr d"
  shows "set (dt_added d) \<union> set (dt_updated d) \<subseteq> set (store_snapshot s) \<and> set (dt_added d) \<inter> set (dt_updated d) = {} \<and>
     (w = None \<longrightarrow> dt_added d = store_snapshot s \<and> dt_is_first_invocation d) \<and>
     (w = Some (mi_revision m) \<longrightarrow> dt_added d = [] \<and> dt_updated d = [])"
proof -
  have ok: "(case (m, s) of (m, s) \<Rightarrow> mirror_ok m s \<and> store_inv s)" using assms(1,2) by simp
  have v: "(case (m, s) of (m, s) \<Rightarrow> mirror_snapshot m (mi_session m)) = Inr (store_snapshot s)"
    using mirror_reads(1) [OF assms(1)] by simp
  from mirror_reader.delta_in_view [OF ok v, of w avail prev d] mirror_reader.first_delta [OF ok v, of avail prev]
    mirror_reader.no_delta_when_caught_up [OF ok, of avail prev] assms(3)
  show ?thesis by auto
qed

theorem mirror_operator_delta_witness:
  "\<exists>d. operator_delta (mirror_snapshot sample_mirror (mi_session sample_mirror))
     (mirror_change_set_since sample_mirror (mi_session sample_mirror)) None [] [] = Inr d \<and> dt_added d = []"
proof -
  have "operator_delta (mirror_snapshot sample_mirror (mi_session sample_mirror))
      (mirror_change_set_since sample_mirror (mi_session sample_mirror)) None [] [] =
    Inr (compute_delta \<lparr>cs_added = [], cs_updated = []\<rparr> [] [] [] True)"
    using mirror_reads(1) [OF sample_mirror_ok] by (simp add: operator_delta_def store_snapshot_def empty_session_def)
  from this mirror_operator_delta [OF sample_mirror_ok store_inv_empty this] show ?thesis
    by (simp add: store_snapshot_def empty_session_def)
qed

text \<open>
  Also: a completion condition without opaque parts depends only on which of its referenced types
  are present (whatever custom conditions mean elsewhere), and once satisfied it stays satisfied
  as data is added.
\<close>

theorem completion_by_referenced_types:
  assumes "referenced_types (Some c) = Some ts"
  shows "((\<forall>t \<in> set ts. of_type v t = [] \<longleftrightarrow> of_type w t = []) \<longrightarrow> is_satisfied custom c v = is_satisfied custom' c w) \<and>
     (set v \<subseteq> set w \<and> is_satisfied custom c v \<longrightarrow> is_satisfied custom c w)"
  using assms condition_types_decide [of c ts v w custom custom'] is_satisfied_mono [of c ts v w custom]
  by (simp add: referenced_types_def)

theorem completion_by_referenced_types_witness:
  "is_satisfied (\<lambda>n v. False) (AllOf [TypePresent (PyClass ''Fact'' []), AnyOf [TypePresent (PyClass ''Fact'' [])]])
     [sample_dp ''a'' 1, sample_dp ''b'' 2]"
proof -
  let ?c = "AllOf [TypePresent (PyClass ''Fact'' []), AnyOf [TypePresent (PyClass ''Fact'' [])]]"
  have r: "referenced_types (Some ?c) = Some [PyClass ''Fact'' []]"
    by (simp add: referenced_types_def union_known_def)
  have "is_satisfied (\<lambda>n v. False) ?c [sample_dp ''a'' 1]"
    by (simp add: of_type_def issubclass_def sample_class_def)
  with completion_by_referenced_types [OF r, of "[sample_dp ''a'' 1]" "[sample_dp ''a'' 1, sample_dp ''b'' 2]"]
  show ?thesis by auto
qed

end
