(* ===== verification/Capabilities.thy ===== *)
theory Capabilities
  imports Scheduling
begin

text \<open>
  Capability availability and activation, \<^verbatim>\<open>orcastork/capabilities/availability.py\<close>, with the
  in-memory catalog \<^verbatim>\<open>orcastork/adapters/memory/catalog.py\<close>. Whether the author's
  \<^verbatim>\<open>activate\<close> succeeds is an argument of a refresh, as are the current time and the draws of
  the backoff schedule.
\<close>

section \<open>The catalog\<close>

record capability_catalog =
  cat_permitted :: "namespace_id \<rightharpoonup> capability_id list"
  cat_preferred :: "namespace_id \<rightharpoonup> capability_id list"
  cat_permitted_operators :: "namespace_id \<rightharpoonup> operator_id list"

definition permitted_capabilities :: "capability_catalog \<Rightarrow> namespace_id \<Rightarrow> capability_id list" where
  "permitted_capabilities cat ns = (case cat_permitted cat ns of None \<Rightarrow> [] | Some cs \<Rightarrow> cs)"

definition preferred_order :: "capability_catalog \<Rightarrow> namespace_id \<Rightarrow> capability_id list" where
  "preferred_order cat ns = (case cat_preferred cat ns of None \<Rightarrow> [] | Some cs \<Rightarrow> cs)"

definition permitted_operators :: "capability_catalog \<Rightarrow> namespace_id \<Rightarrow> operator_id list option" where
  "permitted_operators cat ns = cat_permitted_operators cat ns"

section \<open>Availability\<close>

definition deps_present :: "pyclass list \<Rightarrow> pyclass list \<Rightarrow> bool" where
  "deps_present depends_on present \<longleftrightarrow> (\<forall>t \<in> set depends_on. \<exists>p \<in> set present. issubclass p t)"

definition provides :: "capability_registry \<Rightarrow> capability_id \<Rightarrow> pyclass \<Rightarrow> bool" where
  "provides registered cid t = (case map_of registered cid of None \<Rightarrow> False | Some c \<Rightarrow> issubclass (cap_class c) t)"

definition requires_available :: "pyclass list \<Rightarrow> capability_id list \<Rightarrow> capability_registry \<Rightarrow> bool" where
  "requires_available reqs available registered \<longleftrightarrow> (\<forall>t \<in> set reqs. \<exists>a \<in> set available. provides registered a t)"

definition capability_admissible ::
  "capability_registry \<Rightarrow> capability_id list \<Rightarrow> pyclass list \<Rightarrow> capability_id list \<Rightarrow> capability_id \<times> capability_class \<Rightarrow> bool" where
  "capability_admissible registered permitted present available x \<longleftrightarrow>
     fst x \<in> set permitted \<and> deps_present (cap_depends_on (snd x)) present \<and>
     requires_available (cap_requires (snd x)) available registered"

definition compute_available ::
  "capability_registry \<Rightarrow> capability_id list \<Rightarrow> pyclass list \<Rightarrow> capability_id list" where
  "compute_available registered permitted present =
     snd (admit_loop (capability_admissible registered permitted present) (\<lambda>x available. available @ [fst x]) registered [] [])"

section \<open>Activation\<close>

record activation_failure =
  af_attempts :: int
  af_next_attempt_at :: "seconds option"

record activator =
  av_activated :: "(capability_id \<times> capability_class) list"
  av_failures :: "capability_id \<rightharpoonup> activation_failure"
  av_terminal_log :: "capability_id list"

definition new_activator :: activator where
  "new_activator = \<lparr>av_activated = [], av_failures = Map.empty, av_terminal_log = []\<rparr>"

definition may_attempt :: "activator \<Rightarrow> capability_id \<Rightarrow> seconds \<Rightarrow> bool" where
  "may_attempt a cid now =
     (case av_failures a cid of
        None \<Rightarrow> True
      | Some f \<Rightarrow> (case af_next_attempt_at f of None \<Rightarrow> False | Some t \<Rightarrow> t \<le> now))"

text \<open>
  \<^verbatim>\<open>_record_failure\<close>. The terminal notification is the log; \<open>delays cid\<close> is the backoff schedule
  seeded on the capability id.
\<close>

definition record_failure ::
  "retry_policy \<Rightarrow> (capability_id \<Rightarrow> real list) \<Rightarrow> seconds \<Rightarrow> capability_id \<Rightarrow> activator \<Rightarrow> activator" where
  "record_failure p delays now cid a =
     (let attempts = (case av_failures a cid of None \<Rightarrow> 1 | Some f \<Rightarrow> af_attempts f + 1) in
      if max_attempts p \<le> attempts then
        a\<lparr>av_failures := (av_failures a)(cid \<mapsto> \<lparr>af_attempts = attempts, af_next_attempt_at = None\<rparr>),
          av_terminal_log := av_terminal_log a @ [cid]\<rparr>
      else
        a\<lparr>av_failures := (av_failures a)(cid \<mapsto>
           \<lparr>af_attempts = attempts, af_next_attempt_at = Some (now + delays cid ! nat (attempts - 1))\<rparr>)\<rparr>)"

text \<open>One attempt of the inner loop of \<^verbatim>\<open>refresh\<close>.\<close>

definition activate_one ::
  "capability_registry \<Rightarrow> retry_policy \<Rightarrow> (capability_id \<Rightarrow> real list) \<Rightarrow> seconds \<Rightarrow> (capability_id \<Rightarrow> bool) \<Rightarrow>
     capability_id \<Rightarrow> activator \<Rightarrow> activator" where
  "activate_one registered p delays now succeeds cid a =
     (if succeeds cid then
        (case map_of registered cid of
           None \<Rightarrow> a
         | Some c \<Rightarrow> a\<lparr>av_failures := (av_failures a)(cid := None), av_activated := AList.update cid c (av_activated a)\<rparr>)
      else record_failure p delays now cid a)"

definition activation_ready :: "capability_registry \<Rightarrow> activator \<Rightarrow> capability_id list \<Rightarrow> capability_id list" where
  "activation_ready registered a pending =
     filter (\<lambda>cid. case map_of registered cid of None \<Rightarrow> False
        | Some c \<Rightarrow> requires_available (cap_requires c) (map fst (av_activated a)) registered) pending"

function activate_rounds ::
  "capability_registry \<Rightarrow> retry_policy \<Rightarrow> (capability_id \<Rightarrow> real list) \<Rightarrow> seconds \<Rightarrow> (capability_id \<Rightarrow> bool) \<Rightarrow>
     capability_id list \<Rightarrow> activator \<Rightarrow> activator" where
  "activate_rounds registered p delays now succeeds pending a =
     (let ready = activation_ready registered a pending in
      if ready = [] then a
      else activate_rounds registered p delays now succeeds (filter (\<lambda>cid. cid \<notin> set ready) pending)
             (fold (activate_one registered p delays now succeeds) ready a))"
  by pat_completeness auto
termination
proof (relation "measure (\<lambda>(r, p, d, n, s, pending, a). length pending)", goal_cases)
  case 1
  show ?case by simp
next
  case (2 registered p delays now succeeds pending a ready)
  then have sub: "set ready \<subseteq> set pending" and "ready \<noteq> []" by (auto simp: activation_ready_def)
  then obtain c where "c \<in> set ready" by (meson list.set_sel(1))
  with sub have "c \<in> set pending" "c \<in> set ready" by auto
  then have "length (filter (\<lambda>cid. cid \<notin> set ready) pending) < length pending"
    by (intro length_filter_less) auto
  then show ?case by simp
qed

declare activate_rounds.simps [simp del]

definition refresh ::
  "capability_registry \<Rightarrow> capability_catalog \<Rightarrow> namespace_id \<Rightarrow> retry_policy \<Rightarrow> (capability_id \<Rightarrow> real list) \<Rightarrow>
     seconds \<Rightarrow> (capability_id \<Rightarrow> bool) \<Rightarrow> dp_view \<Rightarrow> activator \<Rightarrow> capability_view \<times> activator" where
  "refresh registered cat ns p delays now succeeds view a =
     (let available = compute_available registered (permitted_capabilities cat ns) (present_types view);
          pending = filter (\<lambda>cid. cid \<notin> set (map fst (av_activated a)) \<and> may_attempt a cid now) available;
          a' = activate_rounds registered p delays now succeeds pending a
      in (\<lparr>cv_available = concat (map (\<lambda>cid. case map_of (av_activated a') cid of None \<Rightarrow> [] | Some c \<Rightarrow> [(cid, c)]) available),
           cv_preference = preferred_order cat ns\<rparr>, a'))"

section \<open>Availability as a least fixpoint\<close>

interpretation availability: admission "capability_admissible registered permitted present" "\<lambda>x available. available @ [fst x]"
    set "\<lambda>x. {fst x}"
    "\<lambda>A x. fst x \<in> set permitted \<and> deps_present (cap_depends_on (snd x)) present \<and>
       (\<forall>t \<in> set (cap_requires (snd x)). \<exists>a \<in> A. provides registered a t)" for registered permitted present
  by unfold_locales (auto simp: capability_admissible_def requires_available_def, blast)

definition may_be_available ::
  "capability_registry \<Rightarrow> capability_id list \<Rightarrow> pyclass list \<Rightarrow> capability_id set \<Rightarrow> capability_id \<times> capability_class \<Rightarrow> bool" where
  "may_be_available registered permitted present A x \<longleftrightarrow>
     fst x \<in> set permitted \<and> deps_present (cap_depends_on (snd x)) present \<and>
     (\<forall>t \<in> set (cap_requires (snd x)). \<exists>a \<in> A. provides registered a t)"

lemma compute_available_loop:
  obtains R where "admit_loop (capability_admissible registered permitted present) (\<lambda>x available. available @ [fst x]) registered [] [] =
      (R, compute_available registered permitted present)"
    and "set (compute_available registered permitted present) = fst ` set R"
proof -
  obtain R s where l: "admit_loop (capability_admissible registered permitted present) (\<lambda>x available. available @ [fst x]) registered [] [] = (R, s)"
    by fastforce
  then have s: "s = compute_available registered permitted present" by (simp add: compute_available_def)
  from availability.loop_known [OF l] have "set s = fst ` set R" by auto
  with that l s show ?thesis by simp
qed

lemma compute_available_subset: "set (compute_available registered permitted present) \<subseteq> fst ` set registered"
proof -
  obtain R where l: "admit_loop (capability_admissible registered permitted present) (\<lambda>x available. available @ [fst x]) registered [] [] =
      (R, compute_available registered permitted present)" "set (compute_available registered permitted present) = fst ` set R"
    by (rule compute_available_loop)
  with availability.loop_subset [OF l(1)] show ?thesis by auto
qed

lemma compute_available_closed:
  assumes "x \<in> set registered"
    and "may_be_available registered permitted present (set (compute_available registered permitted present)) x"
  shows "fst x \<in> set (compute_available registered permitted present)"
proof -
  obtain R where l: "admit_loop (capability_admissible registered permitted present) (\<lambda>x available. available @ [fst x]) registered [] [] =
      (R, compute_available registered permitted present)" "set (compute_available registered permitted present) = fst ` set R"
    by (rule compute_available_loop)
  have "(\<Union>y \<in> set R. {fst y}) = fst ` set R" by auto
  then have "x \<in> set R"
    using availability.loop_closed [OF l(1) assms(1)] assms(2) l(2) by (simp add: may_be_available_def)
  with l(2) show ?thesis by simp
qed

lemma compute_available_least:
  assumes "\<And>x. x \<in> set registered \<Longrightarrow> may_be_available registered permitted present A x \<Longrightarrow> fst x \<in> A"
  shows "set (compute_available registered permitted present) \<subseteq> A"
proof -
  obtain R where l: "admit_loop (capability_admissible registered permitted present) (\<lambda>x available. available @ [fst x]) registered [] [] =
      (R, compute_available registered permitted present)" "set (compute_available registered permitted present) = fst ` set R"
    by (rule compute_available_loop)
  let ?K = "{x :: capability_id \<times> capability_class. fst x \<in> A}"
  have sub: "set [] \<union> (\<Union>y \<in> ?K. {fst y}) \<subseteq> A" by auto
  have "set R \<subseteq> ?K"
  proof (rule availability.loop_least [OF l(1)])
    fix x
    assume x: "x \<in> set registered" and e: "fst x \<in> set permitted \<and> deps_present (cap_depends_on (snd x)) present \<and>
       (\<forall>t \<in> set (cap_requires (snd x)). \<exists>a \<in> set [] \<union> (\<Union>y \<in> ?K. {fst y}). provides registered a t)"
    have "may_be_available registered permitted present A x"
      unfolding may_be_available_def
    proof (intro conjI ballI)
      fix t
      assume "t \<in> set (cap_requires (snd x))"
      from bspec [OF conjunct2 [OF conjunct2 [OF e]] this]
      obtain a where a: "a \<in> set [] \<union> (\<Union>y \<in> ?K. {fst y})" "provides registered a t" by (rule bexE) (rule that)
      from subsetD [OF sub a(1)] a(2) show "\<exists>a \<in> A. provides registered a t" by (intro bexI)
    next
      show "fst x \<in> set permitted" by (rule conjunct1 [OF e])
      show "deps_present (cap_depends_on (snd x)) present" by (rule conjunct1 [OF conjunct2 [OF e]])
    qed
    with assms [OF x] show "x \<in> ?K" by simp
  qed
  with l(2) show ?thesis by auto
qed

lemma compute_available_satisfied:
  assumes "cid \<in> set (compute_available registered permitted present)"
  shows "\<exists>c. (cid, c) \<in> set registered \<and>
     may_be_available registered permitted present (set (compute_available registered permitted present)) (cid, c)"
proof -
  let ?S = "set (compute_available registered permitted present)"
  let ?A = "{i \<in> ?S. \<exists>c. (i, c) \<in> set registered \<and> may_be_available registered permitted present ?S (i, c)}"
  have "?S \<subseteq> ?A"
  proof (rule compute_available_least)
    fix x
    assume x: "x \<in> set registered" "may_be_available registered permitted present ?A x"
    then have m: "may_be_available registered permitted present ?S x" unfolding may_be_available_def by blast
    with compute_available_closed [OF x(1) m] x(1) show "fst x \<in> ?A" by (cases x) auto
  qed
  with assms show ?thesis by blast
qed

section \<open>The activator's invariant\<close>

text \<open>
  Each capability failed at most \<open>max_attempts\<close> times; it is terminal exactly at that number, and
  exactly then it was reported, once.
\<close>

definition failures_ok :: "retry_policy \<Rightarrow> activation_failure option \<Rightarrow> nat \<Rightarrow> bool" where
  "failures_ok p f reports \<longleftrightarrow>
     (case f of
        None \<Rightarrow> reports = 0
      | Some f \<Rightarrow> 1 \<le> af_attempts f \<and> af_attempts f \<le> max_attempts p \<and>
          (af_next_attempt_at f = None \<longleftrightarrow> af_attempts f = max_attempts p) \<and>
          reports = (if af_next_attempt_at f = None then 1 else 0))"

definition activator_inv :: "retry_policy \<Rightarrow> activator \<Rightarrow> bool" where
  "activator_inv p a \<longleftrightarrow> (\<forall>cid. failures_ok p (av_failures a cid) (count_list (av_terminal_log a) cid))"

definition attemptable :: "activator \<Rightarrow> capability_id \<Rightarrow> bool" where
  "attemptable a cid \<longleftrightarrow> (case av_failures a cid of None \<Rightarrow> True | Some f \<Rightarrow> af_next_attempt_at f \<noteq> None)"

lemma may_attempt_attemptable: "may_attempt a cid now \<Longrightarrow> attemptable a cid"
  by (auto simp: may_attempt_def attemptable_def split: option.splits)

lemma record_failure_inv:
  assumes inv: "activator_inv p a" and ok: "attemptable a cid" and p: "1 \<le> max_attempts p"
  shows "activator_inv p (record_failure p delays now cid a)"
  unfolding activator_inv_def
proof
  fix x
  have ix: "failures_ok p (av_failures a x) (count_list (av_terminal_log a) x)"
    using inv by (simp add: activator_inv_def)
  show "failures_ok p (av_failures (record_failure p delays now cid a) x)
      (count_list (av_terminal_log (record_failure p delays now cid a)) x)"
  proof (cases "x = cid")
    case False
    with ix show ?thesis by (simp add: record_failure_def Let_def)
  next
    case True
    with ix ok p show ?thesis
      by (cases "av_failures a cid") (auto simp: record_failure_def attemptable_def failures_ok_def Let_def)
  qed
qed

lemma activate_one_inv:
  assumes "activator_inv p a" and "attemptable a cid" and "1 \<le> max_attempts p"
  shows "activator_inv p (activate_one registered p delays now succeeds cid a)"
proof (cases "succeeds cid")
  case False
  with record_failure_inv [OF assms] show ?thesis by (simp add: activate_one_def)
next
  case True
  have ok: "failures_ok p (av_failures a x) (count_list (av_terminal_log a) x)" for x
    using assms(1) by (simp add: activator_inv_def)
  have "failures_ok p None (count_list (av_terminal_log a) cid)"
    using ok [of cid] assms(2) by (auto simp: failures_ok_def attemptable_def split: option.splits)
  with True ok show ?thesis by (simp add: activate_one_def activator_inv_def split: option.split)
qed

lemma activate_one_others:
  assumes "x \<noteq> cid"
  shows "attemptable (activate_one registered p delays now succeeds cid a) x = attemptable a x"
  using assms by (auto simp: activate_one_def record_failure_def attemptable_def Let_def split: option.splits)

lemma activate_fold_inv:
  "activator_inv p a \<Longrightarrow> 1 \<le> max_attempts p \<Longrightarrow> distinct cids \<Longrightarrow> \<forall>cid \<in> set cids. attemptable a cid \<Longrightarrow>
     activator_inv p (fold (activate_one registered p delays now succeeds) cids a) \<and>
     (\<forall>x. x \<notin> set cids \<longrightarrow> attemptable (fold (activate_one registered p delays now succeeds) cids a) x = attemptable a x)"
proof (induction cids arbitrary: a)
  case (Cons cid cids)
  let ?a = "activate_one registered p delays now succeeds cid a"
  have "activator_inv p ?a" by (rule activate_one_inv [OF Cons.prems(1)]) (use Cons.prems in auto)
  moreover have "\<forall>x \<in> set cids. attemptable ?a x" using Cons.prems(3,4) activate_one_others by (metis distinct.simps(2) list.set_intros(2))
  ultimately show ?case using Cons.IH [of ?a] Cons.prems(2,3) activate_one_others by auto
qed simp

lemma activate_rounds_inv:
  "activator_inv p a \<Longrightarrow> 1 \<le> max_attempts p \<Longrightarrow> distinct pending \<Longrightarrow> \<forall>cid \<in> set pending. attemptable a cid \<Longrightarrow>
     activator_inv p (activate_rounds registered p delays now succeeds pending a)"
proof (induction registered p delays now succeeds pending a rule: activate_rounds.induct)
  case (1 registered p delays now succeeds pending a)
  let ?ready = "activation_ready registered a pending"
  show ?case
  proof (cases "?ready = []")
    case True
    with "1.prems"(1) show ?thesis by (simp add: activate_rounds.simps [of registered p delays now succeeds pending a])
  next
    case False
    have r: "distinct ?ready" "set ?ready \<subseteq> set pending" using "1.prems"(3) by (auto simp: activation_ready_def)
    with "1.prems" have "\<forall>cid \<in> set ?ready. attemptable a cid" by blast
    note f = activate_fold_inv [OF "1.prems"(1,2) r(1) this, of registered delays now succeeds]
    have "activator_inv p (activate_rounds registered p delays now succeeds (filter (\<lambda>cid. cid \<notin> set ?ready) pending)
        (fold (activate_one registered p delays now succeeds) ?ready a))"
      by (rule "1.IH" [OF refl False]) (use f "1.prems" in auto)
    with False show ?thesis by (simp add: activate_rounds.simps [of registered p delays now succeeds pending a] Let_def)
  qed
qed


section \<open>Availability and activation, stated without the loops\<close>

text \<open>The specification: a capability is earned when every requirement is met by an earned one.\<close>

inductive earned :: "capability_registry \<Rightarrow> capability_id list \<Rightarrow> pyclass list \<Rightarrow> capability_id \<Rightarrow> bool"
  for registered permitted present where
  earned: "(cid, c) \<in> set registered \<Longrightarrow> cid \<in> set permitted \<Longrightarrow> deps_present (cap_depends_on c) present \<Longrightarrow>
     \<forall>t \<in> set (cap_requires c). \<exists>a. earned registered permitted present a \<and> provides registered a t \<Longrightarrow>
     earned registered permitted present cid"

lemma earned_available:
  "earned registered permitted present cid \<Longrightarrow> cid \<in> set (compute_available registered permitted present)"
proof (induction rule: earned.induct)
  case (earned cid c)
  then have "may_be_available registered permitted present (set (compute_available registered permitted present)) (cid, c)"
    by (auto simp: may_be_available_def)
  from compute_available_closed [OF earned(1) this] show ?case by simp
qed

lemma available_earned:
  assumes "cid \<in> set (compute_available registered permitted present)"
  shows "earned registered permitted present cid"
proof -
  have "set (compute_available registered permitted present) \<subseteq> Collect (earned registered permitted present)"
  proof (rule compute_available_least)
    fix x
    assume "x \<in> set registered" "may_be_available registered permitted present (Collect (earned registered permitted present)) x"
    then show "fst x \<in> Collect (earned registered permitted present)"
      by (cases x) (auto simp: may_be_available_def intro!: earned.earned)
  qed
  with assms show ?thesis by blast
qed

text \<open>
  Also: the availability loop computes the least fixpoint of the rule it iterates, whatever the order
  of the registry: a capability is available exactly when it is registered and permitted, each data
  type it depends on has an instance in the session, and each capability it requires is provided by
  another available capability; capabilities that only require one another are never available.
\<close>

theorem compute_available_exact:
  "(cid \<in> set (compute_available registered permitted present)) = earned registered permitted present cid"
  by (rule iffI) (rule available_earned, assumption, rule earned_available)

lemma earned_mono:
  "earned registered permitted present cid \<Longrightarrow> set permitted \<subseteq> set permitted' \<Longrightarrow> set present \<subseteq> set present' \<Longrightarrow>
     earned registered permitted' present' cid"
proof (induction rule: earned.induct)
  case (earned cid c)
  show ?case
  proof (rule earned.earned [OF earned.hyps(1)])
    show "cid \<in> set permitted'" using earned by blast
    show "deps_present (cap_depends_on c) present'"
      using earned.hyps(3) earned.prems(2) unfolding deps_present_def by (meson subsetD)
    show "\<forall>t \<in> set (cap_requires c). \<exists>a. earned registered permitted' present' a \<and> provides registered a t" using earned by blast
  qed
qed

text \<open>
  Also: availability only grows: new data in the session or a wider permission never takes a
  capability away.
\<close>

theorem availability_monotone:
  assumes "set permitted \<subseteq> set permitted'" and "set present \<subseteq> set present'"
  shows "set (compute_available registered permitted present) \<subseteq> set (compute_available registered permitted' present')"
proof
  fix cid
  assume "cid \<in> set (compute_available registered permitted present)"
  then have "earned registered permitted present cid" by (rule available_earned)
  from earned_mono [OF this assms] show "cid \<in> set (compute_available registered permitted' present')" by (rule earned_available)
qed


definition demo_capability :: capability_class where
  "demo_capability = \<lparr>cap_class = PyClass ''K'' [], cap_id = ''k'', cap_depends_on = [PyClass ''D'' []], cap_requires = []\<rparr>"

theorem availability_monotone_witness:
  "set (compute_available [(''k'', demo_capability)] [''k''] [PyClass ''D'' []])
   \<subseteq> set (compute_available [(''k'', demo_capability)] [''k'', ''l''] [PyClass ''E'' [], PyClass ''D'' []])"
  by (rule availability_monotone) simp_all

section \<open>Histories of refreshes\<close>

lemma compute_available_distinct:
  assumes "distinct (map fst registered)"
  shows "distinct (compute_available registered permitted present)"
proof -
  let ?P = "\<lambda>acc available. set acc \<subseteq> set registered \<and> distinct (map fst acc) \<and> available = map fst acc"
  obtain R where l: "admit_loop (capability_admissible registered permitted present) (\<lambda>x available. available @ [fst x]) registered [] [] =
      (R, compute_available registered permitted present)"
    by (rule compute_available_loop)
  have "?P R (compute_available registered permitted present)"
  proof (rule admit_loop_invariant [where P = ?P, OF _ _ l])
    fix acc :: "(capability_id \<times> capability_class) list" and s x
    assume acc: "?P acc s" and x: "x \<in> set registered" "x \<notin> set acc"
    have "fst x \<notin> fst ` set acc"
    proof
      assume "fst x \<in> fst ` set acc"
      then obtain y where y: "y \<in> set acc" "fst x = fst y" by (elim imageE)
      with acc have "y \<in> set registered" by blast
      with assms x(1) y(2) have "x = y" by (metis eq_key_imp_eq_value prod.collapse)
      with x y show False by simp
    qed
    with acc x(1) show "?P (acc @ [x]) (s @ [fst x])" by simp
  qed simp
  then show ?thesis by simp
qed

text \<open>A history of one activator: each refresh with its time, backoff draws, outcomes and view.\<close>

type_synonym refresh_event = "seconds \<times> (capability_id \<Rightarrow> real list) \<times> (capability_id \<Rightarrow> bool) \<times> dp_view"

primrec refreshes ::
  "capability_registry \<Rightarrow> capability_catalog \<Rightarrow> namespace_id \<Rightarrow> retry_policy \<Rightarrow> refresh_event list \<Rightarrow> activator \<Rightarrow> activator" where
  "refreshes registered cat ns p [] a = a"
| "refreshes registered cat ns p (r # rs) a =
     (case r of (now, delays, succeeds, view) \<Rightarrow>
        refreshes registered cat ns p rs (snd (refresh registered cat ns p delays now succeeds view a)))"

lemma refresh_inv:
  assumes "distinct (map fst registered)" and "1 \<le> max_attempts p" and "activator_inv p a"
  shows "activator_inv p (snd (refresh registered cat ns p delays now succeeds view a))"
  unfolding refresh_def Let_def snd_conv
  by (rule activate_rounds_inv [OF assms(3,2)])
    (auto simp: compute_available_distinct [OF assms(1)] may_attempt_attemptable)

lemma refreshes_inv:
  "distinct (map fst registered) \<Longrightarrow> 1 \<le> max_attempts p \<Longrightarrow> activator_inv p a \<Longrightarrow>
     activator_inv p (refreshes registered cat ns p rs a)"
  by (induction rs arbitrary: a) (auto simp: refresh_inv split: prod.split)

lemma new_activator_inv: "activator_inv p new_activator"
  by (simp add: activator_inv_def new_activator_def failures_ok_def)

text \<open>
  Also: over any history of refreshes, an activation is attempted at most \<open>max_attempts\<close> times in a
  row, the terminal failure is reported at most once, and a capability reported as failed is never
  attempted again, at any later time.
\<close>

theorem activation_attempts_bounded:
  assumes "distinct (map fst registered)" and "1 \<le> max_attempts p"
    and "a = refreshes registered cat ns p rs new_activator"
  shows "case_option 0 af_attempts (av_failures a cid) \<le> max_attempts p \<and>
     count_list (av_terminal_log a) cid \<le> 1 \<and> (may_attempt a cid now \<longrightarrow> cid \<notin> set (av_terminal_log a))"
proof -
  have "activator_inv p a" unfolding assms(3) by (intro refreshes_inv assms new_activator_inv)
  then have ok: "failures_ok p (av_failures a cid) (count_list (av_terminal_log a) cid)" by (simp add: activator_inv_def)
  with assms(2) show ?thesis
    by (cases "av_failures a cid") (auto simp: failures_ok_def may_attempt_def count_list_0_iff split: option.splits if_splits)
qed

definition demo_catalog :: capability_catalog where
  "demo_catalog = \<lparr>cat_permitted = [''ns'' \<mapsto> [''k'']], cat_preferred = Map.empty, cat_permitted_operators = Map.empty\<rparr>"

definition demo_policy :: retry_policy where
  "demo_policy = \<lparr>max_attempts = 2, base_delay = 1, jitter = 0\<rparr>"

theorem activation_attempts_bounded_witness:
  "count_list (av_terminal_log (refreshes [(''k'', demo_capability)] demo_catalog ''ns'' demo_policy
     [(0, \<lambda>_. [5], \<lambda>_. False, [sample_dp ''v'' 1]), (9, \<lambda>_. [5], \<lambda>_. False, [sample_dp ''v'' 1])] new_activator)) ''k'' \<le> 1"
  by (rule activation_attempts_bounded [THEN conjunct2, THEN conjunct1, OF _ _ refl]) (simp_all add: demo_policy_def)

section \<open>Pruning forgets what a capability depends on\<close>

text \<open>
  The flow of this section: \<^verbatim>\<open>seed\<close> produces \<open>D\<close>, the capability \<open>K\<close> becomes available once
  a \<open>D\<close> is present, \<^verbatim>\<open>lookup\<close> requires \<open>K\<close> and produces the \<open>S\<close> the aggregator consumes.
\<close>

definition demo_lookup :: operator_class where
  "demo_lookup = (sample_operator ''lookup'' [] [PyClass ''S'' []] [])\<lparr>op_requires := [PyClass ''K'' []]\<rparr>"

definition demo_flow :: "operator_class list" where
  "demo_flow = [demo_seed, demo_lookup, demo_aggregator]"

text \<open>
  Also: pruning to what the aggregators consume drops an operator that a capability needs: in the flow
  above it keeps only \<^verbatim>\<open>lookup\<close>, so \<open>K\<close> never becomes available and the pruned flow is quiescent
  with nothing done, while the unpruned flow runs \<^verbatim>\<open>seed\<close>, then makes \<open>K\<close> available, then runs
  \<^verbatim>\<open>lookup\<close>.
\<close>

theorem pruning_starves_capability:
  "pruned_gathering empty_registry demo_flow [demo_capability] None = [demo_lookup] \<and>
   compute_available [(''k'', demo_capability)] [''k''] [] = [] \<and>
   is_quiescent empty_registry [demo_lookup] [] [] \<and>
   is_ready demo_seed [] [] \<and>
   compute_available [(''k'', demo_capability)] [''k''] [PyClass ''D'' []] = [''k''] \<and>
   is_ready demo_lookup [PyClass ''D'' []] [PyClass ''K'' []]"
  by code_simp

end
