(* ===== verification/Effects.thy ===== *)
theory Effects
  imports Session_Store
begin

text \<open>
  The guard for operator side effects, \<^verbatim>\<open>orcastork/operators/effects.py\<close>, over the store's
  effect marks. An attempt enters the guard, runs its body when it acquired the claim, and leaves
  it by a clean exit, an exception, or a crash that runs neither the commit nor the revert.
\<close>

declare map_of_eq_Some_iff [simp del] Some_eq_map_of_iff [simp del]

section \<open>The guard\<close>

datatype effect_recovery = RERUN | SKIP

definition effect_name :: "operator_id \<Rightarrow> string \<Rightarrow> string" where
  "effect_name oid key = oid @ '':'' @ key"

definition effect_recover :: "string \<Rightarrow> effect_recovery \<Rightarrow> epoch \<Rightarrow> (session_state, bool) op" where
  "effect_recover k on_unknown e =
     (case on_unknown of
        SKIP \<Rightarrow> returnE False
      | RERUN \<Rightarrow> bindE (claim_effect k True e) (\<lambda>reclaim. returnE (reclaim = ACQUIRED)))"

definition effect_enter :: "string \<Rightarrow> effect_recovery \<Rightarrow> epoch \<Rightarrow> (session_state, bool) op" where
  "effect_enter k on_unknown e = bindE (claim_effect k False e) (\<lambda>claim.
     case claim of
       ACQUIRED \<Rightarrow> returnE True
     | ALREADY_COMMITTED \<Rightarrow> returnE False
     | PENDING_SAME_EPOCH \<Rightarrow> returnE False
     | PENDING_STALE_EPOCH \<Rightarrow> effect_recover k on_unknown e)"

datatype effect_exit = CleanExit | BodyRaised | Crashed

text \<open>
  The exit of an acquired attempt. A failing commit or revert is logged and swallowed, so it
  only shows in the state.
\<close>

definition effect_leave :: "string \<Rightarrow> epoch \<Rightarrow> effect_exit \<Rightarrow> session_state \<Rightarrow> session_state" where
  "effect_leave k e x s =
     (case x of
        CleanExit \<Rightarrow> snd (commit_effect k e s)
      | BodyRaised \<Rightarrow> snd (revert_effect k e s)
      | Crashed \<Rightarrow> s)"

definition effect_once ::
  "operator_id \<Rightarrow> string \<Rightarrow> effect_recovery \<Rightarrow> epoch \<Rightarrow> effect_exit \<Rightarrow> (session_state, bool) op" where
  "effect_once oid key on_unknown e x s =
     (case effect_enter (effect_name oid key) on_unknown e s of
        (Inl err, s') \<Rightarrow> (Inl err, s')
      | (Inr False, s') \<Rightarrow> (Inr False, s')
      | (Inr True, s') \<Rightarrow> (Inr True, effect_leave (effect_name oid key) e x s'))"

section \<open>Runs of attempts among other store traffic\<close>

datatype effect_event =
    EAttempt effect_recovery epoch effect_exit
  | EStore epoch store_op

text \<open>One event: whether it ran the body, whether that body finished cleanly, and the state.\<close>

definition effect_step ::
  "operator_id \<Rightarrow> string \<Rightarrow> effect_event \<Rightarrow> session_state \<Rightarrow> (bool \<times> bool) \<times> session_state" where
  "effect_step oid key ev s =
     (case ev of
        EAttempt pol e x \<Rightarrow>
          (case effect_once oid key pol e x s of (r, s') \<Rightarrow> ((r = Inr True, r = Inr True \<and> x = CleanExit), s'))
      | EStore e y \<Rightarrow> ((False, False), snd (store_act e y s)))"

primrec effect_log :: "operator_id \<Rightarrow> string \<Rightarrow> effect_event list \<Rightarrow> session_state \<Rightarrow> (bool \<times> bool) list" where
  "effect_log oid key [] s = []"
| "effect_log oid key (ev # evs) s =
     (case effect_step oid key ev s of (b, s') \<Rightarrow> b # effect_log oid key evs s')"

lemmas effect_defs = effect_enter_def effect_recover_def effect_leave_def claim_effect_def commit_effect_def
  revert_effect_def store_guard_epoch_def returnE_def bindE_def

section \<open>The mark of one effect\<close>

lemma store_act_committed:
  "st_effects s k = Some effect_committed \<Longrightarrow> st_effects (snd (store_act e y s)) k = Some effect_committed"
  by (cases y) (auto simp: store_op_defs Let_def split: option.splits prod.splits)

lemma effect_enter_committed:
  "st_effects s k = Some effect_committed \<Longrightarrow>
     fst (effect_enter k pol e s) \<noteq> Inr True \<and> st_effects (snd (effect_enter k pol e s)) = st_effects s"
  by (auto simp: effect_defs split: effect_recovery.splits)

lemma effect_enter_acquired:
  "effect_enter k pol e s = (Inr True, s') \<Longrightarrow>
     st_effects s' k = Some (effect_pending_state e) \<and> st_max_epoch s' = e \<and> st_effects s k \<noteq> Some effect_committed"
  by (auto simp: effect_defs split: option.splits if_splits effect_recovery.splits)

lemma effect_step_committed:
  assumes "st_effects s (effect_name oid key) = Some effect_committed"
  shows "\<not> fst (fst (effect_step oid key ev s)) \<and>
     st_effects (snd (effect_step oid key ev s)) (effect_name oid key) = Some effect_committed"
proof (cases ev)
  case (EAttempt pol e x)
  obtain r t where en: "effect_enter (effect_name oid key) pol e s = (r, t)" by fastforce
  with effect_enter_committed [OF assms, of pol e] assms have "r \<noteq> Inr True" "st_effects t (effect_name oid key) = Some effect_committed"
    by auto
  with EAttempt en show ?thesis
    by (auto simp: effect_step_def effect_once_def split: sum.splits bool.splits)
next
  case (EStore e y)
  with assms store_act_committed show ?thesis by (simp add: effect_step_def)
qed

lemma effect_step_clean:
  assumes "effect_step oid key ev s = ((fired, True), s')"
  shows "st_effects s' (effect_name oid key) = Some effect_committed"
proof -
  from assms obtain pol e where ev: "ev = EAttempt pol e CleanExit"
    and once: "effect_once oid key pol e CleanExit s = (Inr True, s')"
    by (auto simp: effect_step_def split: effect_event.splits prod.splits)
  from once obtain t where en: "effect_enter (effect_name oid key) pol e s = (Inr True, t)"
    and s': "s' = effect_leave (effect_name oid key) e CleanExit t"
    by (auto simp: effect_once_def split: prod.splits sum.splits bool.splits)
  from effect_enter_acquired [OF en] s' show ?thesis by (simp add: effect_defs)
qed

lemma effect_log_committed:
  "st_effects s (effect_name oid key) = Some effect_committed \<Longrightarrow> b \<in> set (effect_log oid key evs s) \<Longrightarrow> \<not> fst b"
proof (induction evs arbitrary: s)
  case (Cons ev evs)
  obtain c t where st: "effect_step oid key ev s = (c, t)" by fastforce
  with effect_step_committed [OF Cons.prems(1), of ev] have "\<not> fst c"
    "st_effects t (effect_name oid key) = Some effect_committed" by auto
  with Cons.IH [of t] Cons.prems(2) st show ?case by auto
qed simp

section \<open>Within one epoch\<close>

text \<open>Epoch \<open>e\<close> holds or has settled the claim, or is fenced.\<close>

definition effect_taken :: "string \<Rightarrow> epoch \<Rightarrow> session_state \<Rightarrow> bool" where
  "effect_taken k e s \<longleftrightarrow> e < st_max_epoch s \<or>
     (st_max_epoch s = e \<and> st_effects s k \<in> {Some (effect_pending_state e), Some effect_committed})"

lemma effect_taken_step:
  assumes "effect_taken k e s" and "(e', y) \<noteq> (e, ORevert k)"
  shows "effect_taken k e (snd (store_act e' y s))"
proof (cases "e < st_max_epoch s \<or> e' \<noteq> e")
  case True
  show ?thesis
  proof (cases "e' < st_max_epoch s")
    case True
    with assms(1) show ?thesis by (simp add: store_act_stale)
  next
    case False
    then have "st_max_epoch (snd (store_act e' y s)) = e'" by (simp add: store_act_fresh)
    with False True \<open>e < st_max_epoch s \<or> e' \<noteq> e\<close> assms(1) show ?thesis by (auto simp: effect_taken_def)
  qed
next
  case False
  with assms have "e' = e" "st_max_epoch s = e"
    "st_effects s k = Some (effect_pending_state e) \<or> st_effects s k = Some effect_committed" "y \<noteq> ORevert k"
    by (auto simp: effect_taken_def)
  then show ?thesis
    by (cases y) (auto simp: effect_taken_def store_op_defs Let_def split: option.splits prod.splits)
qed

lemma effect_taken_run:
  "effect_taken k e s \<Longrightarrow> (e, ORevert k) \<notin> set ps \<Longrightarrow> effect_taken k e (guarded_run store_act ps s)"
proof (induction ps arbitrary: s)
  case (Cons p ps)
  have "effect_taken k e (snd (store_act (fst p) (snd p) s))"
    by (rule effect_taken_step [OF Cons.prems(1)]) (use Cons.prems(2) in auto)
  with Cons show ?case by simp
qed simp

lemma effect_taken_enter: "effect_taken k e s \<Longrightarrow> e' \<le> e \<Longrightarrow> fst (effect_enter k pol e' s) \<noteq> Inr True"
  by (auto simp: effect_taken_def effect_defs split: effect_recovery.splits)

section \<open>Properties\<close>


text \<open>
  Also: within an epoch the claim is exclusive. Once an attempt acquired an effect at epoch \<open>e\<close>, no
  attempt at \<open>e\<close> or a lower epoch runs the body again, whatever store operations happen in
  between, unless the failed attempt's own revert released the claim.
\<close>

theorem effect_exclusive_in_epoch:
  assumes "effect_enter k pol e s = (Inr True, s')" and "(e, ORevert k) \<notin> set ps" and "e' \<le> e"
  shows "fst (effect_enter k pol' e' (guarded_run store_act ps s')) \<noteq> Inr True"
proof (rule effect_taken_enter [OF effect_taken_run assms(3)])
  from effect_enter_acquired [OF assms(1)] show "effect_taken k e s'" by (simp add: effect_taken_def)
qed (rule assms(2))

theorem effect_exclusive_in_epoch_witness:
  "fst (effect_enter ''op:mail'' RERUN 2 (guarded_run store_act [(2, ODeadline 5), (1, ORevert ''op:mail'')]
     (snd (effect_enter ''op:mail'' RERUN 2 empty_session)))) \<noteq> Inr True"
  by (rule effect_exclusive_in_epoch [where s = empty_session and pol = RERUN and e = 2])
    (auto simp: effect_defs empty_session_def)

text \<open>
  Also: a failed attempt is re-run: when the body of an acquired attempt raised, the next attempt,
  in the same or a later epoch and under either policy, acquires the effect again.
\<close>

theorem effect_failed_attempt_reruns:
  assumes "effect_once oid key pol e BodyRaised s = (Inr True, s')" and "e \<le> e'"
  shows "fst (effect_once oid key pol' e' x s') = Inr True"
proof -
  let ?k = "effect_name oid key"
  from assms(1) obtain t where en: "effect_enter ?k pol e s = (Inr True, t)"
    and s': "s' = effect_leave ?k e BodyRaised t"
    by (auto simp: effect_once_def split: prod.splits sum.splits bool.splits)
  from effect_enter_acquired [OF en] s' have "st_effects s' ?k = None" "st_max_epoch s' = e"
    by (auto simp: effect_defs)
  with assms(2) show ?thesis by (simp add: effect_once_def effect_defs)
qed

theorem effect_failed_attempt_reruns_witness:
  "fst (effect_once ''op'' ''mail'' SKIP 3 CleanExit (snd (effect_once ''op'' ''mail'' RERUN 2 BodyRaised empty_session))) = Inr True"
  by (rule effect_failed_attempt_reruns [where s = empty_session and pol = RERUN and e = 2])
    (simp_all add: effect_once_def effect_defs empty_session_def)

text \<open>
  Also: recovery of a crash in mid-effect. A later epoch finding the mark of a crashed predecessor
  re-runs the effect under \<open>RERUN\<close> and owns it then, and skips it under \<open>SKIP\<close>, leaving the
  predecessor's mark in place for the next resume to decide.
\<close>

theorem effect_crash_recovery:
  assumes "effect_once oid key pol e Crashed s = (Inr True, s')" and "e < e'"
  shows "fst (effect_once oid key RERUN e' x s') = Inr True \<and>
     fst (effect_once oid key SKIP e' x s') = Inr False \<and>
     get_effect_state (snd (effect_once oid key SKIP e' x s')) (effect_name oid key) = Some (effect_pending_state e)"
proof -
  let ?k = "effect_name oid key"
  from assms(1) obtain t where en: "effect_enter ?k pol e s = (Inr True, t)"
    and s': "s' = effect_leave ?k e Crashed t"
    by (auto simp: effect_once_def split: prod.splits sum.splits bool.splits)
  from effect_enter_acquired [OF en] s' have "st_effects s' ?k = Some (effect_pending_state e)" "st_max_epoch s' = e"
    by (auto simp: effect_defs)
  with assms(2) show ?thesis by (simp add: effect_once_def effect_defs get_effect_state_def)
qed

theorem effect_crash_recovery_witness:
  "fst (effect_once ''op'' ''mail'' SKIP 3 CleanExit (snd (effect_once ''op'' ''mail'' RERUN 2 Crashed empty_session))) = Inr False"
  using effect_crash_recovery [of "''op''" "''mail''" RERUN 2 empty_session "snd (effect_once ''op'' ''mail'' RERUN 2 Crashed empty_session)" 3 CleanExit]
  by (simp add: effect_once_def effect_defs empty_session_def)

end
