(* ===== verification/Gather.thy ===== *)
theory Gather
  imports Merge_Point Capabilities Effects
begin

text \<open>
  The gathering loop of \<^verbatim>\<open>orcastork/orchestrator/orchestrator.py\<close>: budget and lease
  (\<^verbatim>\<open>_remaining_session_budget\<close>, \<^verbatim>\<open>_renew_lease_if_due\<close>), the planner (\<^verbatim>\<open>_plan\<close>,
  \<^verbatim>\<open>_has_relevant_new_data\<close>, \<^verbatim>\<open>_delta_for\<close>), what happens when a run ends (\<^verbatim>\<open>_record_completion\<close>,
  \<^verbatim>\<open>_maybe_schedule_retry\<close>, \<^verbatim>\<open>_consume_batch\<close>), the wait for input (\<^verbatim>\<open>_wait_for_inbox\<close>) and one pass
  of the loop of \<^verbatim>\<open>_gather\<close> up to what it decides to wait for. The operators' own work is author
  code: a run is the signals it puts on the queue, in the order the loop takes them off.

  Wall-clock instants count microseconds, the resolution of Python's \<^verbatim>\<open>datetime\<close>; monotonic
  times and durations are reals in seconds.
\<close>

section \<open>State\<close>

record gather_config =
  gc_run :: run_config
  gc_registry :: dp_registry
  gc_completes_when :: "completion_condition option"
  gc_custom :: "string \<Rightarrow> dp_view \<Rightarrow> bool"
  gc_operation_timeout :: seconds
  gc_session_deadline :: int
  gc_park_after :: "seconds option"
  gc_renew_interval :: seconds
  gc_lock_ttl :: seconds
  gc_capability_registry :: capability_registry
  gc_catalog :: capability_catalog
  gc_uniform :: "operator_id \<Rightarrow> nat \<Rightarrow> real \<Rightarrow> real \<Rightarrow> real"
  gc_activation_delays :: "capability_id \<Rightarrow> real list"

record gather_state =
  g_orch :: orch
  g_gathering :: "operator_class list"
  g_aggregators :: "operator_class list"
  g_runs :: "operator_id \<rightharpoonup> int"
  g_failed :: "operator_id \<rightharpoonup> int"
  g_prev_caps :: "operator_id \<rightharpoonup> capability_id list"
  g_watermarks :: "operator_id \<rightharpoonup> revision"
  g_activated_seen :: "capability_id list"
  g_activator :: activator
  g_breaker :: circuit_breaker
  g_debounce :: debounce_controller
  g_retries :: debounce_controller
  g_running :: "(operator_id \<times> revision) list"
  g_fresh_deadline :: bool
  g_dead_letters :: "(operator_id \<times> string) list"
  g_last_renew :: seconds
  g_deadline :: seconds

definition on_orch :: "(orch, 'r) op \<Rightarrow> (gather_state, 'r) op" where
  "on_orch f g = (case f (g_orch g) of (r, w) \<Rightarrow> (r, g\<lparr>g_orch := w\<rparr>))"

definition on_store :: "(session_state, 'r) op \<Rightarrow> (orch, 'r) op" where
  "on_store f w = (case f (w_store w) of (r, s) \<Rightarrow> (r, w\<lparr>w_store := s\<rparr>))"

definition on_lease :: "(lock_state, 'r) op \<Rightarrow> (orch, 'r) op" where
  "on_lease f w = (case f (w_lock w) of (r, l) \<Rightarrow> (r, w\<lparr>w_lock := l\<rparr>))"

abbreviation mono_now :: "gather_state \<Rightarrow> seconds" where
  "mono_now g \<equiv> w_mono (g_orch g)"

section \<open>Budget, lease, timeout\<close>

definition timeout_for :: "gather_config \<Rightarrow> operator_class \<Rightarrow> seconds" where
  "timeout_for c x = (case op_timeout (op_policy x) of None \<Rightarrow> gc_operation_timeout c | Some t \<Rightarrow> t)"

definition renew_lease_if_due :: "gather_config \<Rightarrow> epoch \<Rightarrow> seconds \<Rightarrow> (orch, seconds) op" where
  "renew_lease_if_due c e last_renew w =
     (if w_mono w - last_renew < gc_renew_interval c then (Inr last_renew, w)
      else bindE (port (on_lease (lock_renew (gc_lock_ttl c) (w_mono w) e))) (\<lambda>_. returnE (w_mono w)) w)"

definition park_at :: "gather_config \<Rightarrow> orch \<Rightarrow> seconds option" where
  "park_at c w = (case gc_park_after c of None \<Rightarrow> None | Some d \<Rightarrow> Some (w_mono w + d))"

definition in_seconds :: "int \<Rightarrow> seconds" where
  "in_seconds micros = real_of_int micros / 1000000"

definition remaining_session_budget :: "gather_config \<Rightarrow> epoch \<Rightarrow> (gather_state, seconds) op" where
  "remaining_session_budget c e g =
     bindE (on_orch (port (\<lambda>w. (Inr (st_deadline (w_store w)), w)))) (\<lambda>stored g.
       case stored of
         Some deadline \<Rightarrow>
           if g_fresh_deadline g then
             bindE (on_orch (port (on_store (store_set_deadline (w_now (g_orch g) + gc_session_deadline c) e))))
               (\<lambda>_. returnE (in_seconds (gc_session_deadline c))) g
           else (Inr (in_seconds (deadline - w_now (g_orch g))), g)
       | None \<Rightarrow>
           bindE (on_orch (port (on_store (store_set_deadline (w_now (g_orch g) + gc_session_deadline c) e))))
             (\<lambda>_. returnE (in_seconds (gc_session_deadline c))) g) g"

section \<open>When a run ends\<close>

datatype signal =
    Emitted operator_id data_point
  | Completed operator_id "orca_error option" seconds

definition audit_operator_run ::
  "gather_config \<Rightarrow> epoch \<Rightarrow> operator_id \<Rightarrow> operator_outcome \<Rightarrow> int \<Rightarrow> int \<Rightarrow> seconds option \<Rightarrow> string option \<Rightarrow> (orch, unit) op" where
  "audit_operator_run c e oid outcome run_count attempt run_seconds err w =
     port (on_audit (audit_append ((audit_row e (w_now w) OPERATOR_INVOKED)\<lparr>ae_operator_id := Some oid,
       ae_operator := Some \<lparr>oa_outcome = outcome, oa_run_count = run_count, oa_attempt = attempt,
         oa_run_seconds = run_seconds, oa_error = err\<rparr>\<rparr>))) w"

definition advance_watermark :: "operator_id \<Rightarrow> revision \<Rightarrow> epoch \<Rightarrow> (gather_state, unit) op" where
  "advance_watermark oid rv e =
     bindE (on_orch (port (on_store (store_set_watermark oid rv e)))) (\<lambda>_ g.
       (Inr (), g\<lparr>g_watermarks := (g_watermarks g)(oid \<mapsto> rv)\<rparr>))"

definition count_of :: "(operator_id \<rightharpoonup> int) \<Rightarrow> operator_id \<Rightarrow> int" where
  "count_of m oid = (case m oid of None \<Rightarrow> 0 | Some n \<Rightarrow> n)"

definition maybe_schedule_retry :: "gather_config \<Rightarrow> operator_id \<Rightarrow> gather_state \<Rightarrow> bool \<times> gather_state" where
  "maybe_schedule_retry c oid g =
     (case (case operator_by_id (gc_run c) oid of None \<Rightarrow> None | Some x \<Rightarrow> op_retry (op_policy x)) of
        None \<Rightarrow> (False, g)
      | Some policy \<Rightarrow>
          let failed = count_of (g_failed g) oid in
          if max_attempts policy \<le> failed \<or> is_tripped oid (g_breaker g) then (False, g)
          else (True, g\<lparr>g_retries := debounce_schedule (mono_now g) oid
                 (Some (backoff_delays (gc_uniform c oid) policy ! nat (failed - 1))) (g_retries g)\<rparr>))"

text \<open>The bookkeeping of \<^verbatim>\<open>_record_completion\<close> before its first call through a port.\<close>

definition note_completion :: "gather_config \<Rightarrow> operator_id \<Rightarrow> bool \<Rightarrow> gather_state \<Rightarrow> bool \<times> gather_state" where
  "note_completion c oid ok g =
     (let g1 = g\<lparr>g_running := AList.delete oid (g_running g), g_runs := (g_runs g)(oid \<mapsto> count_of (g_runs g) oid + 1),
                 g_breaker := record_run oid (g_breaker g)\<rparr> in
      if ok then (False, g1\<lparr>g_failed := (g_failed g1)(oid := None)\<rparr>)
      else (case maybe_schedule_retry c oid (g1\<lparr>g_failed := (g_failed g1)(oid \<mapsto> count_of (g_failed g1) oid + 1)\<rparr>) of
              (True, g2) \<Rightarrow> (True, g2)
            | (False, g2) \<Rightarrow> (False, g2\<lparr>g_failed := (g_failed g2)(oid := None)\<rparr>)))"

definition record_completion ::
  "gather_config \<Rightarrow> epoch \<Rightarrow> operator_id \<times> orca_error option \<times> seconds \<Rightarrow> (gather_state, unit) op" where
  "record_completion c e x g =
     (case x of (oid, err, run_seconds) \<Rightarrow>
       case map_of (g_running g) oid of
         None \<Rightarrow> (Inl (OtherError ''KeyError''), g)
       | Some observed \<Rightarrow>
           let attempt = count_of (g_failed g) oid + 1;
               (retrying, g1) = note_completion c oid (err = None) g
           in bindE (on_orch (audit_operator_run c e oid (if err = None then SUCCEEDED else FAILED) (count_of (g_runs g1) oid)
                  attempt (Some run_seconds) (map_option (rc_error_text (gc_run c)) err)))
                (\<lambda>_. if retrying then returnE () else advance_watermark oid observed e) g1)"

fun emitted_signals :: "signal list \<Rightarrow> emitted list" where
  "emitted_signals [] = []"
| "emitted_signals (Emitted oid d # ss) = (Some oid, d) # emitted_signals ss"
| "emitted_signals (Completed oid err t # ss) = emitted_signals ss"

fun completed_signals :: "signal list \<Rightarrow> (operator_id \<times> orca_error option \<times> seconds) list" where
  "completed_signals [] = []"
| "completed_signals (Emitted oid d # ss) = completed_signals ss"
| "completed_signals (Completed oid err t # ss) = (oid, err, t) # completed_signals ss"

definition consume_batch :: "gather_config \<Rightarrow> epoch \<Rightarrow> signal list \<Rightarrow> (gather_state, unit) op" where
  "consume_batch c e signals =
     bindE (on_orch (merge_emissions (gc_run c) e (emitted_signals signals))) (\<lambda>_.
       forE (record_completion c e) (completed_signals signals))"

section \<open>The planner\<close>

definition has_relevant_new_data :: "operator_class \<Rightarrow> invocation_delta \<Rightarrow> bool" where
  "has_relevant_new_data x delta \<longleftrightarrow>
     dt_newly_available_caps delta \<noteq> [] \<or>
     (\<exists>d \<in> set (if rerun_on (op_policy x) = ADDED_ONLY then dt_added delta else dt_added delta @ dt_updated delta).
        \<exists>t \<in> set (op_depends_on x @ op_uses x). issubclass (dp_pyclass d) t)"

definition delta_for :: "gather_config \<Rightarrow> operator_class \<Rightarrow> capability_view \<Rightarrow> gather_state \<Rightarrow> orca_error + invocation_delta" where
  "delta_for c x caps g =
     operator_delta (mirror_snapshot (or_mirror (g_orch g)) (rc_session (gc_run c)))
       (mirror_change_set_since (or_mirror (g_orch g)) (rc_session (gc_run c)))
       (g_watermarks g (op_id x)) (map fst (cv_available caps))
       (case g_prev_caps g (op_id x) of None \<Rightarrow> [] | Some cs \<Rightarrow> cs)"

record runnable =
  ru_operator :: operator_class
  ru_delta :: invocation_delta
  ru_is_rerun :: bool
  ru_is_retry :: bool

record gather_plan =
  gp_runnable :: "runnable list"
  gp_not_yet_run :: "operator_class list"
  gp_soonest_due :: "seconds option"

definition sooner :: "seconds option \<Rightarrow> seconds option \<Rightarrow> seconds option" where
  "sooner a b = (case (a, b) of (None, _) \<Rightarrow> b | (_, None) \<Rightarrow> a | (Some x, Some y) \<Rightarrow> Some (min x y))"

definition has_run :: "operator_class \<Rightarrow> gather_state \<Rightarrow> bool" where
  "has_run x g \<longleftrightarrow> g_runs g (op_id x) \<noteq> None \<or> g_watermarks g (op_id x) \<noteq> None"

text \<open>One operator of the planning loop; the loop only changes the debounce windows of the state.\<close>

definition plan_ready ::
  "gather_config \<Rightarrow> capability_view \<Rightarrow> bool \<Rightarrow> operator_class \<Rightarrow> gather_plan \<times> gather_state \<Rightarrow>
     orca_error + gather_plan \<times> gather_state" where
  "plan_ready c caps completion_satisfied x st =
     (let p = fst st; g = snd st; oid = op_id x; now = mono_now g in
      if is_scheduled oid (g_retries g) then
        (if is_due now oid (g_retries g) then
           (case delta_for c x caps g of Inl err \<Rightarrow> Inl err
            | Inr delta \<Rightarrow> Inr (p\<lparr>gp_runnable := gp_runnable p @
                [\<lparr>ru_operator = x, ru_delta = delta, ru_is_rerun = False, ru_is_retry = True\<rparr>]\<rparr>, g))
         else Inr (p\<lparr>gp_soonest_due := sooner (gp_soonest_due p) (db_due_at (g_retries g) oid)\<rparr>, g))
      else if \<not> has_run x g then
        (case delta_for c x caps g of Inl err \<Rightarrow> Inl err
         | Inr delta \<Rightarrow> Inr (p\<lparr>gp_runnable := gp_runnable p @
             [\<lparr>ru_operator = x, ru_delta = delta, ru_is_rerun = False, ru_is_retry = False\<rparr>]\<rparr>, g))
      else if \<not> rerun_on_new_data (op_policy x) then Inr (p, g)
      else (case delta_for c x caps g of Inl err \<Rightarrow> Inl err
        | Inr delta \<Rightarrow>
            if \<not> rerun_eligible (op_policy x) (has_relevant_new_data x delta) then Inr (p, g)
            else let g1 = (if is_scheduled oid (g_debounce g) then g
                           else g\<lparr>g_debounce := debounce_schedule now oid (debounce (op_policy x)) (g_debounce g)\<rparr>) in
              if is_due now oid (g_debounce g1) then
                Inr (p\<lparr>gp_runnable := gp_runnable p @
                  [\<lparr>ru_operator = x, ru_delta = delta, ru_is_rerun = True, ru_is_retry = False\<rparr>]\<rparr>, g1)
              else if \<not> window_defers_to_finalize x completion_satisfied then
                Inr (p\<lparr>gp_soonest_due := sooner (gp_soonest_due p) (db_due_at (g_debounce g1) oid)\<rparr>, g1)
              else Inr (p, g1)))"

definition plan_one ::
  "gather_config \<Rightarrow> dp_view \<Rightarrow> capability_view \<Rightarrow> bool \<Rightarrow> operator_class \<Rightarrow> gather_plan \<times> gather_state \<Rightarrow>
     orca_error + gather_plan \<times> gather_state" where
  "plan_one c view caps completion_satisfied x st =
     (let p = fst st; g = snd st in
      if op_id x \<in> fst ` set (g_running g) \<or> is_tripped (op_id x) (g_breaker g) then Inr st
      else let p1 = (if has_run x g then p else p\<lparr>gp_not_yet_run := gp_not_yet_run p @ [x]\<rparr>) in
        if \<not> is_ready x (present_types view) (available_types caps) then Inr (p1, g)
        else plan_ready c caps completion_satisfied x (p1, g))"

fun plan_loop ::
  "gather_config \<Rightarrow> dp_view \<Rightarrow> capability_view \<Rightarrow> bool \<Rightarrow> operator_class list \<Rightarrow> gather_plan \<times> gather_state \<Rightarrow>
     orca_error + gather_plan \<times> gather_state" where
  "plan_loop c view caps completion_satisfied [] st = Inr st"
| "plan_loop c view caps completion_satisfied (x # xs) st =
     (case plan_one c view caps completion_satisfied x st of
        Inl err \<Rightarrow> Inl err
      | Inr st' \<Rightarrow> plan_loop c view caps completion_satisfied xs st')"

definition empty_plan :: gather_plan where
  "empty_plan = \<lparr>gp_runnable = [], gp_not_yet_run = [], gp_soonest_due = None\<rparr>"

definition make_plan ::
  "gather_config \<Rightarrow> dp_view \<Rightarrow> capability_view \<Rightarrow> bool \<Rightarrow> gather_state \<Rightarrow> orca_error + gather_plan \<times> gather_state" where
  "make_plan c view caps completion_satisfied g = plan_loop c view caps completion_satisfied (g_gathering g) (empty_plan, g)"

definition next_due_in :: "gather_plan \<Rightarrow> gather_state \<Rightarrow> seconds option" where
  "next_due_in p g = (case gp_soonest_due p of None \<Rightarrow> None | Some due \<Rightarrow> Some (max 0 (due - mono_now g)))"


section \<open>Capabilities of a pass\<close>

text \<open>
  \<open>activation cid\<close> is what activating \<open>cid\<close> does in this refresh: nothing, or the text of the
  error it raises. The code appends a terminal failure's row in the middle of the refresh and
  the rows of the activated capabilities, an unordered set, after it.
\<close>

definition audit_terminal_activation_failure :: "epoch \<Rightarrow> capability_id \<Rightarrow> string \<Rightarrow> (orch, unit) op" where
  "audit_terminal_activation_failure e cid err w =
     port (on_audit (audit_append ((audit_row e (w_now w) CAPABILITY_ACTIVATION_FAILED)\<lparr>ae_capability :=
       Some \<lparr>ca_capability = cid, ca_action = None, ca_parameters = [], ca_error = Some err\<rparr>\<rparr>))) w"

definition audit_capability :: "epoch \<Rightarrow> capability_id \<Rightarrow> (orch, unit) op" where
  "audit_capability e cid w =
     port (on_audit (audit_append ((audit_row e (w_now w) CAPABILITY_ACTIVATED)\<lparr>ae_capability :=
       Some \<lparr>ca_capability = cid, ca_action = None, ca_parameters = [], ca_error = None\<rparr>\<rparr>))) w"

definition refresh_capabilities ::
  "gather_config \<Rightarrow> epoch \<Rightarrow> (capability_id \<Rightarrow> string option) \<Rightarrow> dp_view \<Rightarrow> (gather_state, capability_view) op" where
  "refresh_capabilities c e activation view g =
     (let (caps, a) = refresh (gc_capability_registry c) (gc_catalog c) (rc_namespace (gc_run c)) (rc_retry_policy (gc_run c))
            (gc_activation_delays c) (mono_now g) (\<lambda>cid. activation cid = None) view (g_activator g);
          failed = drop (length (av_terminal_log (g_activator g))) (av_terminal_log a);
          fresh = filter (\<lambda>cid. cid \<notin> set (g_activated_seen g)) (map fst (av_activated a))
      in bindE (on_orch (forE (\<lambda>cid. audit_terminal_activation_failure e cid
              (case activation cid of None \<Rightarrow> '''' | Some err \<Rightarrow> err)) failed)) (\<lambda>_.
         bindE (on_orch (forE (audit_capability e) fresh)) (\<lambda>_ g.
           (Inr caps, g\<lparr>g_activated_seen := g_activated_seen g @ fresh\<rparr>))) (g\<lparr>g_activator := a\<rparr>))"

section \<open>One pass of the loop\<close>

text \<open>
  A pass ends with what the loop does next: it waits for the signals of the running operators,
  sleeps up to the soonest armed window, stops as quiescent, or waits on the inbox; or it does not
  begin, because the deadline has passed.
\<close>

datatype decision = DeadlineHit | AwaitSignals | SleepFor seconds | Quiescent | AwaitInbox "seconds option"

definition completion_satisfied :: "gather_config \<Rightarrow> dp_view \<Rightarrow> bool" where
  "completion_satisfied c view =
     (case gc_completes_when c of None \<Rightarrow> True | Some cond \<Rightarrow> is_satisfied (gc_custom c) cond view)"

definition launch_one :: "capability_view \<Rightarrow> revision \<Rightarrow> runnable \<Rightarrow> gather_state \<Rightarrow> gather_state" where
  "launch_one caps observed r g =
     (let oid = op_id (ru_operator r);
          g1 = g\<lparr>g_prev_caps := (g_prev_caps g)(oid \<mapsto> map fst (cv_available caps)),
                 g_running := AList.update oid observed (g_running g)\<rparr>
      in if ru_is_retry r then g1\<lparr>g_retries := debounce_clear oid (g_retries g1)\<rparr>
         else if ru_is_rerun r then g1\<lparr>g_debounce := debounce_clear oid (g_debounce g1)\<rparr>
         else g1)"

definition decide :: "gather_config \<Rightarrow> gather_plan \<Rightarrow> bool \<Rightarrow> gather_state \<Rightarrow> decision" where
  "decide c p satisfied g =
     (if g_running g \<noteq> [] then AwaitSignals
      else case next_due_in p g of
             Some d \<Rightarrow> SleepFor d
           | None \<Rightarrow> if satisfied then Quiescent else AwaitInbox (park_at c (g_orch g)))"

text \<open>The operators \<^verbatim>\<open>_warn_if_stalled\<close> would name in its warning.\<close>

definition warn_if_stalled :: "gather_config \<Rightarrow> gather_plan \<Rightarrow> dp_view \<Rightarrow> capability_view \<Rightarrow> operator_id list" where
  "warn_if_stalled c p view caps =
     map op_id (reachable_pending (gc_registry c) (gp_not_yet_run p) (present_types view) (available_types caps))"

definition plan_and_launch ::
  "gather_config \<Rightarrow> epoch \<Rightarrow> (capability_id \<Rightarrow> string option) \<Rightarrow>
     (gather_state, decision \<times> gather_plan \<times> dp_view \<times> capability_view) op" where
  "plan_and_launch c e activation g =
     (case mirror_snapshot (or_mirror (g_orch g)) (rc_session (gc_run c)) of
        Inl err \<Rightarrow> (Inl err, g)
      | Inr view \<Rightarrow>
          (case mirror_get_revision (or_mirror (g_orch g)) (rc_session (gc_run c)) of
             Inl err \<Rightarrow> (Inl err, g)
           | Inr observed \<Rightarrow>
               bindE (refresh_capabilities c e activation view) (\<lambda>caps g.
                 case make_plan c view caps (completion_satisfied c view) g of
                   Inl err \<Rightarrow> (Inl err, g)
                 | Inr (p, g1) \<Rightarrow>
                     let g2 = fold (launch_one caps observed) (gp_runnable p) g1
                     in (Inr (decide c p (completion_satisfied c view) g2, p, view, caps), g2)) g))"

definition renew_in_loop :: "gather_config \<Rightarrow> epoch \<Rightarrow> (gather_state, unit) op" where
  "renew_in_loop c e g =
     bindE (on_orch (renew_lease_if_due c e (g_last_renew g))) (\<lambda>t g. (Inr (), g\<lparr>g_last_renew := t\<rparr>)) g"

definition gather_pass :: "gather_config \<Rightarrow> epoch \<Rightarrow> (capability_id \<Rightarrow> string option) \<Rightarrow> (gather_state, decision) op" where
  "gather_pass c e activation g =
     (if \<not> mono_now g < g_deadline g then (Inr DeadlineHit, g)
      else bindE (renew_in_loop c e) (\<lambda>_. bindE (on_orch (drain_inbox (gc_run c) e)) (\<lambda>_.
             bindE (plan_and_launch c e activation) (\<lambda>x. returnE (fst x)))) g)"

section \<open>Before and after the loop\<close>

definition load_watermarks :: "operator_class list \<Rightarrow> (gather_state, unit) op" where
  "load_watermarks xs =
     forE (\<lambda>x g. bindE (on_orch (port (\<lambda>w. (Inr (store_get_watermark (w_store w) (op_id x)), w)))) (\<lambda>mark g.
       (Inr (), g\<lparr>g_watermarks := (g_watermarks g)(op_id x := mark)\<rparr>)) g) xs"

definition prime_baseline :: "revision \<Rightarrow> (orch, unit) op" where
  "prime_baseline rv = port (\<lambda>w. case prime_change_baseline rv (or_mirror w, w_store w) of
     (r, (m, s)) \<Rightarrow> (r, w\<lparr>or_mirror := m, w_store := s\<rparr>))"

definition known_watermarks :: "gather_state \<Rightarrow> revision list" where
  "known_watermarks g =
     sort (remdups (concat (map (\<lambda>x. case g_watermarks g (op_id x) of None \<Rightarrow> [] | Some rv \<Rightarrow> [rv]) (g_gathering g))))"

definition no_windows :: debounce_controller where
  "no_windows = \<lparr>db_default_window = 0, db_due_at = Map.empty\<rparr>"

definition gather_start :: "gather_config \<Rightarrow> epoch \<Rightarrow> (gather_state, unit) op" where
  "gather_start c e g =
     (let started = mono_now g in
      bindE (remaining_session_budget c e) (\<lambda>budget g.
        bindE (load_watermarks (g_gathering g)) (\<lambda>_ g.
          on_orch (forE prime_baseline (known_watermarks g)) g)
        (g\<lparr>g_deadline := started + budget, g_running := [], g_last_renew := mono_now g, g_watermarks := Map.empty\<rparr>))
      (g\<lparr>g_debounce := no_windows, g_retries := no_windows\<rparr>))"

text \<open>
  \<open>queued\<close> is what was on the queue when the loop stopped, \<open>late\<close> what the tasks put on it while
  they were cancelled.
\<close>

definition drain_remaining :: "gather_config \<Rightarrow> epoch \<Rightarrow> signal list \<Rightarrow> signal list \<Rightarrow> (gather_state, unit) op" where
  "drain_remaining c e queued late =
     bindE (on_orch (merge_emissions (gc_run c) e (emitted_signals queued))) (\<lambda>_.
       on_orch (merge_emissions (gc_run c) e (emitted_signals late)))"

end
