(* ===== verification/Merge_Frame.thy ===== *)
theory Merge_Frame
  imports Merge_Point
begin

text \<open>
  What the merge point keeps: a property of the orchestrator's state that no audit row, archive row,
  inbox change, counter or injected failure can break, and that a write through the mirror keeps, is
  kept by every operation of the merge point, whether it returns or raises. The locale states this
  once; it is used here for the revisions, which only grow.
\<close>

lemma triple_keepI: "(\<And>w r w'. I w \<Longrightarrow> f w = (r, w') \<Longrightarrow> I w') \<Longrightarrow> triple I f (\<lambda>_. I) I"
  by (rule tripleI) blast+

lemma triple_keepD: "triple I f (\<lambda>_. I) I \<Longrightarrow> I w \<Longrightarrow> f w = (r, w') \<Longrightarrow> I w'"
  by (cases r) (auto dest: triple_InrD triple_InlD)

locale merge_frame =
  fixes I :: "orch \<Rightarrow> bool"
  assumes faults_keep: "I w \<Longrightarrow> I (w\<lparr>w_faults := fs\<rparr>)"
    and audit_keeps: "I w \<Longrightarrow> I (w\<lparr>w_audit := a\<rparr>)"
    and archive_keeps: "I w \<Longrightarrow> I (w\<lparr>w_archive := ar\<rparr>)"
    and inbox_keeps: "I w \<Longrightarrow> I (w\<lparr>w_inbox := b\<rparr>)"
    and counters_keep: "I w \<Longrightarrow> same_base w w' \<Longrightarrow> I w'"
    and write_keeps: "I w \<Longrightarrow> mirror_write ds e (or_mirror w, w_store w) = (r, (m, s)) \<Longrightarrow> I (w\<lparr>or_mirror := m, w_store := s\<rparr>)"
begin

lemma keep_port: "triple I f (\<lambda>_. I) I \<Longrightarrow> triple I (port f) (\<lambda>_. I) I"
  by (rule triple_port) (auto intro: faults_keep)

lemma keep_on_inbox: "triple I (port (on_inbox f)) (\<lambda>_. I) I"
  by (rule keep_port, rule tripleI) (auto simp: on_inbox_def intro: inbox_keeps split: prod.splits)

lemma keep_on_audit: "triple I (port (on_audit f)) (\<lambda>_. I) I"
  by (rule triple_on_audit) (auto intro: audit_keeps faults_keep)

lemma keep_append_audits: "triple I (append_audit_entries es) (\<lambda>_. I) I"
  by (rule triple_append_audits) (auto intro: audit_keeps faults_keep)

lemma keep_archive_entries: "triple I (archive_entries c es) (\<lambda>_. I) I"
  by (rule triple_archive_entries) (auto intro: archive_keeps faults_keep)

lemma keep_bookkeeping: "triple I (merge_bookkeeping c e emitted outcomes) (\<lambda>_. I) I"
proof -
  have step: "case r of Inl _ \<Rightarrow> I w' | Inr _ \<Rightarrow> I w'" if w: "I w" and m: "merge_bookkeeping c e emitted outcomes w = (r, w')" for w r w'
  proof -
    obtain b w1 where f: "fold (bookkeep_one c e) (zip emitted outcomes) (\<lparr>bo_audit = [], bo_archive = []\<rparr>, w) = (b, w1)"
      by (cases "fold (bookkeep_one c e) (zip emitted outcomes) (\<lparr>bo_audit = [], bo_archive = []\<rparr>, w)")
    with bookkeep_fold_frame [of w c e "zip emitted outcomes" "\<lparr>bo_audit = [], bo_archive = []\<rparr>"] have "same_base w w1" by simp
    with w have w1: "I w1" by (rule counters_keep)
    have t: "triple I (bindE (append_audit_entries (bo_audit b)) (\<lambda>_. archive_entries c (bo_archive b))) (\<lambda>_. I) I"
      by (rule triple_bindE [OF keep_append_audits keep_archive_entries])
    from m f have "bindE (append_audit_entries (bo_audit b)) (\<lambda>_. archive_entries c (bo_archive b)) w1 = (r, w')"
      by (simp add: merge_bookkeeping_def)
    with triple_InrD [OF t w1] triple_InlD [OF t w1] show ?thesis by (cases r) auto
  qed
  show ?thesis unfolding triple_def using step by blast
qed

lemma keep_write: "triple I (write_through ds e) (\<lambda>_. I) I"
  unfolding write_through_def
  by (rule keep_port, rule tripleI) (auto intro: write_keeps split: prod.splits)

lemma keep_merge: "triple I (merge_emissions c e emitted) (\<lambda>_. I) I"
proof (cases "emitted = []")
  case False
  have "triple I (bindE (write_through (map snd emitted) e) (\<lambda>(rv, outcomes). merge_bookkeeping c e emitted outcomes)) (\<lambda>_. I) I"
    by (rule triple_bindE [OF keep_write]) (auto intro: keep_bookkeeping)
  with False show ?thesis by (simp add: merge_emissions_def)
qed (auto simp: merge_emissions_def)

lemma keep_apply: "triple I (apply_inbox_data_points c e ds) (\<lambda>_. I) I"
  unfolding apply_inbox_data_points_def
  by (rule triple_bindE [OF keep_write])
    (auto intro!: triple_catchE [where ?E1.0 = I] keep_bookkeeping triple_raiseE triple_returnE)

lemma keep_quarantine: "triple I (quarantine_inbox_entry c e i reason n) (\<lambda>_. I) I"
  unfolding quarantine_inbox_entry_def
proof (rule triple_bindE [OF keep_on_inbox])
  show "triple I (\<lambda>w. port (on_audit (audit_append ((audit_row e (w_now w) INBOX_ENTRY_QUARANTINED)\<lparr>ae_inbox :=
         Some \<lparr>ia_entry = i, ia_reason = reason, ia_delivery_count = n\<rparr>\<rparr>))) w) (\<lambda>_. I) I" for x :: unit
    unfolding triple_def using keep_on_audit unfolding triple_def by blast
qed

lemma keep_apply_entry: "triple I (apply_inbox_entry c e x) (\<lambda>_. I) I"
proof (rule triple_keepI)
  fix w r w'
  assume w: "I w" and a: "apply_inbox_entry c e x w = (r, w')"
  obtain i d n where x: "x = (i, d, n)" by (cases x) auto
  obtain r1 w1 where p: "apply_inbox_data_points c e [d] w = (r1, w1)" by (cases "apply_inbox_data_points c e [d] w")
  note w1 = triple_keepD [OF keep_apply w p]
  note q = triple_keepD [OF keep_quarantine w1] and k = triple_keepD [OF keep_on_inbox w1]
  show "I w'"
  proof (cases r1)
    case (Inl err)
    with a p x have "(r, w') = (if err = StaleEpochError then (Inl err, w1)
        else if rc_max_inbox_deliveries c \<le> n then quarantine_inbox_entry c e i (rc_error_text c err) n w1 else (Inr (), w1))"
      by (simp add: apply_inbox_entry_def)
    with w1 show ?thesis by (auto split: if_splits dest: q [OF sym])
  next
    case (Inr u)
    with a p x have "port (on_inbox (inbox_ack i e)) w1 = (r, w')" by (simp add: apply_inbox_entry_def)
    then show ?thesis by (rule k)
  qed
qed

lemma keep_apply_valid: "triple I (apply_valid_entries c e valid) (\<lambda>_. I) I"
proof (cases "length valid \<le> 1")
  case True
  then have "apply_valid_entries c e valid = forE (apply_inbox_entry c e) valid" by (simp add: apply_valid_entries_def)
  then show ?thesis using triple_forE [OF keep_apply_entry] by simp
next
  case False
  let ?ds = "map (\<lambda>x. fst (snd x)) valid"
  show ?thesis
  proof (rule triple_keepI)
    fix w r w'
    assume w: "I w" and a: "apply_valid_entries c e valid w = (r, w')"
    obtain r1 w1 where p: "apply_inbox_data_points c e ?ds w = (r1, w1)" by (cases "apply_inbox_data_points c e ?ds w")
    note w1 = triple_keepD [OF keep_apply w p]
    have acks: "forE (\<lambda>x. port (on_inbox (inbox_ack (fst x) e))) valid w1 = (r, w') \<Longrightarrow> I w'"
      by (rule triple_keepD [OF triple_forE [OF keep_on_inbox] w1])
    have each: "forE (apply_inbox_entry c e) valid w1 = (r, w') \<Longrightarrow> I w'"
      by (rule triple_keepD [OF triple_forE [OF keep_apply_entry] w1])
    show "I w'"
    proof (cases r1)
      case (Inl err)
      with a p False w1 each show ?thesis by (cases "err = StaleEpochError") (simp_all add: apply_valid_entries_def)
    next
      case (Inr u)
      with a p False acks show ?thesis by (simp add: apply_valid_entries_def)
    qed
  qed
qed

lemma keep_drain: "triple I (drain_inbox c e) (\<lambda>_. I) I"
  unfolding drain_inbox_def
  by (intro triple_bindE [OF keep_on_inbox] triple_bindE [where Q = "\<lambda>_. I"] triple_forE keep_apply_valid)
    (auto intro: keep_quarantine)

lemma keep_coalesced: "triple I (append_coalesced_audits e) (\<lambda>_. I) I"
proof (rule triple_keepI)
  fix w r w'
  assume w: "I w" and a: "append_coalesced_audits e w = (r, w')"
  let ?es = "coalesced_rows e (w_now w) ''merged'' (or_coalesced w) @ coalesced_rows e (w_now w) ''re-observed'' (or_reobserved w)"
  have "I (w\<lparr>or_coalesced := [], or_reobserved := []\<rparr>)"
    by (rule counters_keep [OF w], rule same_baseI [where u = "or_undeclared w"]) simp
  note k = triple_keepD [OF keep_append_audits this]
  from a have "(if ?es = [] then (Inr (), w) else append_audit_entries ?es (w\<lparr>or_coalesced := [], or_reobserved := []\<rparr>)) = (r, w')"
    by (simp only: append_coalesced_audits_def Let_def)
  with w show "I w'" by (auto split: if_splits dest: k)
qed

end

section \<open>Revisions only grow\<close>

definition revision_floor :: "revision \<Rightarrow> orch \<Rightarrow> bool" where
  "revision_floor r w \<longleftrightarrow> r \<le> mi_revision (or_mirror w) \<and> mi_revision (or_mirror w) \<le> st_revision (w_store w)"

lemma store_apply_revision:
  assumes "store_apply_resolved added updated e s = (r, s')"
  shows "st_revision s \<le> st_revision s'" and "r = Inr rv \<Longrightarrow> rv = st_revision s'"
  using assms by (auto simp: store_apply_resolved_def store_guard_epoch_def bindE_def Let_def split: if_splits)

lemma mirror_write_revision:
  assumes w: "mirror_write ds e (m, s) = (r, (m', s'))" and le: "mi_revision m \<le> st_revision s"
  shows "mi_revision m \<le> mi_revision m' \<and> mi_revision m' \<le> st_revision s'"
proof (cases "mi_hydrated m")
  case False
  with w le show ?thesis by (simp add: mirror_write_def)
next
  case True
  let ?a = "map snd (res_added (mirror_resolve m ds))" and ?u = "map snd (res_updated (mirror_resolve m ds))"
  obtain x s1 where a: "store_apply_resolved ?a ?u e s = (x, s1)" by (cases "store_apply_resolved ?a ?u e s")
  note rv = store_apply_revision [OF a]
  show ?thesis
  proof (cases x)
    case (Inl err)
    with w True a have "m' = m" "s' = s1" by (simp_all add: mirror_write_def Let_def)
    with rv(1) le show ?thesis by simp
  next
    case (Inr v)
    with w True a have "m' = mirror_apply m (mirror_resolve m ds) v" "s' = s1" by (simp_all add: mirror_write_def Let_def)
    with rv(1) rv(2) [OF Inr] le show ?thesis by (simp add: mirror_apply_def Let_def)
  qed
qed

interpretation revisions: merge_frame "revision_floor r" for r
proof
  show "revision_floor r w \<Longrightarrow> same_base w w' \<Longrightarrow> revision_floor r w'" for w w'
    by (simp add: revision_floor_def same_baseD)
  show "revision_floor r w \<Longrightarrow> mirror_write ds e (or_mirror w, w_store w) = (x, (m, s)) \<Longrightarrow>
      revision_floor r (w\<lparr>or_mirror := m, w_store := s\<rparr>)" for w ds e x m s
    using mirror_write_revision [of ds e "or_mirror w" "w_store w" x m s] by (auto simp: revision_floor_def)
qed (simp_all add: revision_floor_def)

end
