(* ===== verification/Planner.thy ===== *)
theory Planner
  imports Gather Merge_Frame
begin

text \<open>
  What the planner of the gathering loop decides, without its loop: which operators a pass launches,
  which it leaves, and why a pass that reports quiescence has nothing left to do.
\<close>

section \<open>One operator\<close>

definition idle :: "gather_state \<Rightarrow> operator_class \<Rightarrow> bool" where
  "idle g x \<longleftrightarrow> op_id x \<notin> fst ` set (g_running g) \<and> \<not> is_tripped (op_id x) (g_breaker g)"

definition ready_now :: "dp_view \<Rightarrow> capability_view \<Rightarrow> operator_class \<Rightarrow> bool" where
  "ready_now view caps x \<longleftrightarrow> is_ready x (present_types view) (available_types caps)"

text \<open>The instant an eligible rerun comes due: its armed window, or one armed now.\<close>

definition rerun_due_at :: "gather_state \<Rightarrow> operator_class \<Rightarrow> seconds" where
  "rerun_due_at g x =
     (case db_due_at (g_debounce g) (op_id x) of
        Some due \<Rightarrow> due
      | None \<Rightarrow> mono_now g + (case debounce (op_policy x) of None \<Rightarrow> db_default_window (g_debounce g) | Some w \<Rightarrow> w))"

definition launch_due :: "gather_config \<Rightarrow> dp_view \<Rightarrow> capability_view \<Rightarrow> gather_state \<Rightarrow> operator_class \<Rightarrow> bool" where
  "launch_due c view caps g x \<longleftrightarrow> idle g x \<and> ready_now view caps x \<and>
     (case db_due_at (g_retries g) (op_id x) of
        Some due \<Rightarrow> due \<le> mono_now g
      | None \<Rightarrow> \<not> has_run x g \<or>
          (rerun_on_new_data (op_policy x) \<and>
           (case delta_for c x caps g of Inl _ \<Rightarrow> False | Inr delta \<Rightarrow> has_relevant_new_data x delta) \<and>
           rerun_due_at g x \<le> mono_now g))"

text \<open>What the planner needs of the debounce windows stays as it was for the operators still to come.\<close>

definition same_but_windows :: "operator_id set \<Rightarrow> gather_state \<Rightarrow> gather_state \<Rightarrow> bool" where
  "same_but_windows A g g' \<longleftrightarrow> (\<exists>d. g' = g\<lparr>g_debounce := d\<rparr> \<and> db_default_window d = db_default_window (g_debounce g) \<and>
     (\<forall>oid. oid \<notin> A \<longrightarrow> db_due_at d oid = db_due_at (g_debounce g) oid))"

lemma same_but_windows_refl: "same_but_windows A g g"
  unfolding same_but_windows_def by (rule exI [of _ "g_debounce g"]) simp

lemma same_but_windows_trans:
  "same_but_windows A g1 g2 \<Longrightarrow> same_but_windows B g2 g3 \<Longrightarrow> same_but_windows (A \<union> B) g1 g3"
  unfolding same_but_windows_def by (elim exE conjE) (rule exI, auto)

lemma same_but_windowsD:
  assumes "same_but_windows A g g'"
  shows "g_orch g' = g_orch g" "g_running g' = g_running g" "g_breaker g' = g_breaker g" "g_retries g' = g_retries g"
    "g_runs g' = g_runs g" "g_watermarks g' = g_watermarks g" "g_prev_caps g' = g_prev_caps g" "g_gathering g' = g_gathering g"
  using assms by (auto simp: same_but_windows_def)

lemma same_launch:
  assumes s: "same_but_windows A g g'" and x: "op_id x \<notin> A"
  shows "idle g' x = idle g x" "has_run x g' = has_run x g" "delta_for c x caps g' = delta_for c x caps g"
    "rerun_due_at g' x = rerun_due_at g x" "launch_due c view caps g' x = launch_due c view caps g x"
proof -
  note d = same_but_windowsD [OF s]
  show i: "idle g' x = idle g x" by (simp add: idle_def d)
  show h: "has_run x g' = has_run x g" by (simp add: has_run_def d)
  show l: "delta_for c x caps g' = delta_for c x caps g" by (simp add: delta_for_def d)
  show r: "rerun_due_at g' x = rerun_due_at g x" using s x
    by (auto simp: rerun_due_at_def same_but_windows_def split: option.split)
  show "launch_due c view caps g' x = launch_due c view caps g x" 
    by (simp add: launch_due_def i h l r d split: option.split)
qed

definition armed_later :: "gather_state \<Rightarrow> operator_id \<Rightarrow> bool" where
  "armed_later g oid \<longleftrightarrow> (case db_due_at (g_retries g) oid of None \<Rightarrow> False | Some due \<Rightarrow> mono_now g < due)"

definition launch_ok :: "gather_config \<Rightarrow> capability_view \<Rightarrow> gather_state \<Rightarrow> runnable \<Rightarrow> bool" where
  "launch_ok c caps g r \<longleftrightarrow> delta_for c (ru_operator r) caps g = Inr (ru_delta r) \<and>
     ru_is_retry r = is_scheduled (op_id (ru_operator r)) (g_retries g) \<and>
     ru_is_rerun r = (\<not> ru_is_retry r \<and> has_run (ru_operator r) g)"

lemmas window_simps = is_scheduled_def is_due_def debounce_schedule_def

lemma sooner_None: "sooner a b = None \<longleftrightarrow> a = None \<and> b = None"
  by (auto simp: sooner_def split: option.splits)

lemma sooner_Some [simp]: "\<exists>y. sooner a (Some b) = Some y"
  by (simp add: sooner_def split: option.split)

text \<open>The effect of one iteration on the plan.\<close>

definition plan_step ::
  "gather_config \<Rightarrow> dp_view \<Rightarrow> capability_view \<Rightarrow> operator_class \<Rightarrow> gather_plan \<times> gather_state \<Rightarrow> gather_plan \<times> gather_state \<Rightarrow> bool" where
  "plan_step c view caps x st st' \<longleftrightarrow> same_but_windows {op_id x} (snd st) (snd st') \<and>
     (\<exists>rs. gp_runnable (fst st') = gp_runnable (fst st) @ rs \<and>
        map ru_operator rs = (if launch_due c view caps (snd st) x then [x] else []) \<and>
        (\<forall>r \<in> set rs. launch_ok c caps (snd st) r)) \<and>
     gp_not_yet_run (fst st') = gp_not_yet_run (fst st) @ (if idle (snd st) x \<and> \<not> has_run x (snd st) then [x] else []) \<and>
     (gp_soonest_due (fst st') = None \<longrightarrow> gp_soonest_due (fst st) = None \<and>
        \<not> (idle (snd st) x \<and> ready_now view caps x \<and> armed_later (snd st) (op_id x)))"

lemma plan_ready_step:
  assumes p: "plan_ready c caps sat x (p, g) = Inr (p', g')" and i: "idle g x" and r: "ready_now view caps x"
  shows "same_but_windows {op_id x} g g' \<and>
     (\<exists>rs. gp_runnable p' = gp_runnable p @ rs \<and> map ru_operator rs = (if launch_due c view caps g x then [x] else []) \<and>
        (\<forall>r \<in> set rs. launch_ok c caps g r)) \<and> gp_not_yet_run p' = gp_not_yet_run p \<and>
     (gp_soonest_due p' = None \<longrightarrow> gp_soonest_due p = None \<and> \<not> armed_later g (op_id x))"
proof (cases "db_due_at (g_retries g) (op_id x)")
  case (Some due)
  then show ?thesis
  proof (cases "due \<le> mono_now g")
    case True
    with Some p i r show ?thesis
      by (auto simp: plan_ready_def window_simps launch_due_def launch_ok_def armed_later_def same_but_windows_refl split: sum.splits)
  next
    case False
    with Some p i r show ?thesis
      by (auto simp: plan_ready_def window_simps launch_due_def armed_later_def same_but_windows_refl sooner_None)
  qed
next
  case None
  note n = None
  show ?thesis
  proof (cases "has_run x g \<and> rerun_on_new_data (op_policy x)")
    case False
    with n p i r show ?thesis
      by (auto simp: plan_ready_def window_simps launch_due_def launch_ok_def armed_later_def same_but_windows_refl split: sum.splits if_splits)
  next
    case True
    then obtain delta where delta: "delta_for c x caps g = Inr delta"
      using p n by (cases "delta_for c x caps g") (simp_all add: plan_ready_def window_simps)
    show ?thesis
    proof (cases "has_relevant_new_data x delta")
      case False
      with True delta n p i r show ?thesis
        by (auto simp: plan_ready_def window_simps launch_due_def armed_later_def same_but_windows_refl rerun_eligible_def)
    next
      case relevant: True
      define g1 where "g1 = (if is_scheduled (op_id x) (g_debounce g) then g
        else g\<lparr>g_debounce := debounce_schedule (mono_now g) (op_id x) (debounce (op_policy x)) (g_debounce g)\<rparr>)"
      have s: "same_but_windows {op_id x} g g1"
      proof (cases "is_scheduled (op_id x) (g_debounce g)")
        case False
        then show ?thesis unfolding same_but_windows_def g1_def
          by (intro exI [of _ "debounce_schedule (mono_now g) (op_id x) (debounce (op_policy x)) (g_debounce g)"])
            (simp add: debounce_schedule_def Let_def)
      qed (simp add: g1_def same_but_windows_refl)
      have due: "is_due (mono_now g) (op_id x) (g_debounce g1) \<longleftrightarrow> rerun_due_at g x \<le> mono_now g"
        by (auto simp: g1_def window_simps rerun_due_at_def Let_def split: option.split)
      have l: "launch_due c view caps g x \<longleftrightarrow> rerun_due_at g x \<le> mono_now g"
        using True delta n i r relevant by (simp add: launch_due_def)
      have res: "(p', g') = (if is_due (mono_now g) (op_id x) (g_debounce g1)
          then (p\<lparr>gp_runnable := gp_runnable p @ [\<lparr>ru_operator = x, ru_delta = delta, ru_is_rerun = True, ru_is_retry = False\<rparr>]\<rparr>, g1)
          else if \<not> window_defers_to_finalize x sat
            then (p\<lparr>gp_soonest_due := sooner (gp_soonest_due p) (db_due_at (g_debounce g1) (op_id x))\<rparr>, g1) else (p, g1))"
      proof -
        have "plan_ready c caps sat x (p, g) = (if is_due (mono_now g) (op_id x) (g_debounce g1)
          then Inr (p\<lparr>gp_runnable := gp_runnable p @ [\<lparr>ru_operator = x, ru_delta = delta, ru_is_rerun = True, ru_is_retry = False\<rparr>]\<rparr>, g1)
          else if \<not> window_defers_to_finalize x sat
            then Inr (p\<lparr>gp_soonest_due := sooner (gp_soonest_due p) (db_due_at (g_debounce g1) (op_id x))\<rparr>, g1) else Inr (p, g1))"
          using n True delta relevant by (simp add: plan_ready_def is_scheduled_def [of _ "g_retries g"] rerun_eligible_def flip: g1_def)
        with p show ?thesis by (auto split: if_splits)
      qed
      show ?thesis
        using res s due l n True delta
        by (auto simp: armed_later_def launch_ok_def is_scheduled_def sooner_None split: if_splits)
    qed
  qed
qed

lemma plan_one_step:
  assumes "plan_one c view caps sat x (p, g) = Inr (p', g')"
  shows "plan_step c view caps x (p, g) (p', g')"
proof (cases "idle g x")
  case False
  with assms have "p' = p" "g' = g" by (auto simp: plan_one_def idle_def Let_def)
  with False show ?thesis by (simp add: plan_step_def launch_due_def same_but_windows_refl)
next
  case i: True
  define p1 where "p1 = (if has_run x g then p else p\<lparr>gp_not_yet_run := gp_not_yet_run p @ [x]\<rparr>)"
  have p1: "gp_runnable p1 = gp_runnable p" "gp_soonest_due p1 = gp_soonest_due p"
    "gp_not_yet_run p1 = gp_not_yet_run p @ (if has_run x g then [] else [x])" by (simp_all add: p1_def)
  have i': "\<not> (op_id x \<in> fst ` set (g_running g) \<or> is_tripped (op_id x) (g_breaker g))" using i by (auto simp: idle_def)
  show ?thesis
  proof (cases "ready_now view caps x")
    case False
    with assms i' have "p' = p1" "g' = g" by (auto simp: plan_one_def Let_def p1_def ready_now_def)
    with False i p1 show ?thesis by (simp add: plan_step_def launch_due_def same_but_windows_refl)
  next
    case True
    with assms i' have "plan_ready c caps sat x (p1, g) = Inr (p', g')"
      by (simp add: plan_one_def Let_def p1_def ready_now_def)
    from plan_ready_step [OF this i True] i p1 True show ?thesis by (simp add: plan_step_def)
  qed
qed

section \<open>The whole plan\<close>

lemma plan_loop_spec:
  assumes "plan_loop c view caps sat xs (p, g) = Inr (p', g')" and "distinct (map op_id xs)"
  shows "same_but_windows (op_id ` set xs) g g' \<and>
     (\<exists>rs. gp_runnable p' = gp_runnable p @ rs \<and> map ru_operator rs = filter (launch_due c view caps g) xs \<and>
        (\<forall>r \<in> set rs. launch_ok c caps g r)) \<and>
     gp_not_yet_run p' = gp_not_yet_run p @ filter (\<lambda>x. idle g x \<and> \<not> has_run x g) xs \<and>
     (gp_soonest_due p' = None \<longrightarrow> gp_soonest_due p = None \<and>
        (\<forall>x \<in> set xs. \<not> (idle g x \<and> ready_now view caps x \<and> armed_later g (op_id x))))"
  using assms
proof (induction xs arbitrary: p g)
  case Nil
  then show ?case by (simp add: same_but_windows_refl)
next
  case (Cons x xs)
  from Cons.prems(1) obtain p1 g1 where one: "plan_one c view caps sat x (p, g) = Inr (p1, g1)"
    and rest: "plan_loop c view caps sat xs (p1, g1) = Inr (p', g')" by (auto split: sum.splits)
  note st = plan_one_step [OF one, unfolded plan_step_def fst_conv snd_conv]
  then have s: "same_but_windows {op_id x} g g1" by blast
  have new: "y \<in> set xs \<Longrightarrow> op_id y \<notin> {op_id x}" for y using Cons.prems(2) by (auto simp: image_iff)
  note same = same_launch [OF s new]
  have al: "armed_later g1 oid = armed_later g oid" for oid by (simp add: armed_later_def same_but_windowsD [OF s] split: option.split)
  have lo: "launch_ok c caps g1 r = launch_ok c caps g r" for r
    by (simp add: launch_ok_def delta_for_def has_run_def same_but_windowsD [OF s])
  from Cons.IH [OF rest] Cons.prems(2) obtain rs where ih: "same_but_windows (op_id ` set xs) g1 g'"
    "gp_runnable p' = gp_runnable p1 @ rs" "map ru_operator rs = filter (launch_due c view caps g1) xs"
    "\<forall>r \<in> set rs. launch_ok c caps g1 r"
    "gp_not_yet_run p' = gp_not_yet_run p1 @ filter (\<lambda>x. idle g1 x \<and> \<not> has_run x g1) xs"
    "gp_soonest_due p' = None \<longrightarrow> gp_soonest_due p1 = None \<and>
        (\<forall>x \<in> set xs. \<not> (idle g1 x \<and> ready_now view caps x \<and> armed_later g1 (op_id x)))" by auto
  have f: "filter (launch_due c view caps g1) xs = filter (launch_due c view caps g) xs"
    "filter (\<lambda>x. idle g1 x \<and> \<not> has_run x g1) xs = filter (\<lambda>x. idle g x \<and> \<not> has_run x g) xs"
    by (rule filter_cong; simp add: same)+
  from st obtain rs1 where one': "gp_runnable p1 = gp_runnable p @ rs1"
    "map ru_operator rs1 = (if launch_due c view caps g x then [x] else [])" "\<forall>r \<in> set rs1. launch_ok c caps g r" by blast
  have "same_but_windows (op_id ` set (x # xs)) g g'" using same_but_windows_trans [OF s ih(1)] by simp
  moreover have "gp_runnable p' = gp_runnable p @ (rs1 @ rs) \<and> map ru_operator (rs1 @ rs) = filter (launch_due c view caps g) (x # xs) \<and>
      (\<forall>r \<in> set (rs1 @ rs). launch_ok c caps g r)"
    using one' ih(2,3,4) f(1) lo by auto
  moreover have "gp_not_yet_run p' = gp_not_yet_run p @ filter (\<lambda>x. idle g x \<and> \<not> has_run x g) (x # xs)"
    using st ih(5) f(2) by simp
  moreover have "gp_soonest_due p' = None \<longrightarrow> gp_soonest_due p = None \<and>
        (\<forall>x \<in> set (x # xs). \<not> (idle g x \<and> ready_now view caps x \<and> armed_later g (op_id x)))"
    using st ih(6) same(1) al by auto
  ultimately show ?case by blast
qed

lemmas make_plan_spec = plan_loop_spec [of c view caps sat "g_gathering g" empty_plan g p g' for c view caps sat g p g',
    folded make_plan_def, unfolded empty_plan_def gather_plan.simps append_Nil]

section \<open>Properties\<close>

text \<open>
  C14: what a pass launches. The planner launches, in registration order and each at most once, the
  operators that are idle, not tripped and ready, and have a retry that is due, or have never run and
  have no armed retry, or are rerun-eligible with relevant new data and a window that is due. Each run
  is given its own delta and is marked a retry or a rerun exactly when it is one.
\<close>

theorem plan_exact:
  assumes "make_plan c view caps sat g = Inr (p, g')" and "distinct (map op_id (g_gathering g))"
  shows "map ru_operator (gp_runnable p) = filter (launch_due c view caps g) (g_gathering g) \<and>
     (\<forall>r \<in> set (gp_runnable p). delta_for c (ru_operator r) caps g = Inr (ru_delta r) \<and>
        ru_is_retry r = is_scheduled (op_id (ru_operator r)) (g_retries g) \<and>
        ru_is_rerun r = (\<not> ru_is_retry r \<and> has_run (ru_operator r) g))"
  using make_plan_spec [OF assms] by (auto simp: launch_ok_def)

lemma decide_Quiescent:
  assumes "decide c p sat g = Quiescent"
  shows "g_running g = []" "sat" "gp_soonest_due p = None"
  using assms by (auto simp: decide_def next_due_in_def split: if_splits option.splits)

lemma launch_one_running: "g_running (launch_one caps rv r g) \<noteq> []"
  by (cases "g_running g") (simp_all add: launch_one_def Let_def)

lemma launches_running: "g_running (fold (launch_one caps rv) rs g) = [] \<Longrightarrow> rs = [] \<and> g_running g = []"
proof (induction rs arbitrary: g)
  case (Cons r rs)
  then have "g_running (launch_one caps rv r g) = []" by simp
  with launch_one_running show ?case by blast
qed simp

lemma quiescent_plan:
  assumes p: "make_plan c view caps sat g = Inr (p, g')" and d: "distinct (map op_id (g_gathering g))"
    and q: "decide c p sat (fold (launch_one caps rv) (gp_runnable p) g') = Quiescent"
  shows "g_running g = []" "\<forall>x \<in> set (gp_not_yet_run p). \<not> ready_now view caps x"
    "\<forall>x \<in> set (g_gathering g). \<not> launch_due c view caps g x \<and> \<not> (idle g x \<and> ready_now view caps x \<and> armed_later g (op_id x))"
proof -
  note spec = make_plan_spec [OF p d]
  have run: "gp_runnable p = []" "g_running g' = []" using launches_running [OF decide_Quiescent(1) [OF q]] by simp_all
  from spec run(2) show "g_running g = []" using same_but_windowsD(2) by metis
  from spec run(1) have "filter (launch_due c view caps g) (g_gathering g) = []" by simp
  then have none: "\<forall>x \<in> set (g_gathering g). \<not> launch_due c view caps g x" by (simp add: filter_empty_conv)
  with spec decide_Quiescent(3) [OF q]
  show n: "\<forall>x \<in> set (g_gathering g). \<not> launch_due c view caps g x \<and> \<not> (idle g x \<and> ready_now view caps x \<and> armed_later g (op_id x))"
    by simp
  show "\<forall>x \<in> set (gp_not_yet_run p). \<not> ready_now view caps x"
  proof
    fix x
    assume "x \<in> set (gp_not_yet_run p)"
    with spec have x: "x \<in> set (g_gathering g)" "idle g x" "\<not> has_run x g" by auto
    show "\<not> ready_now view caps x"
    proof
      assume r: "ready_now view caps x"
      with n x have "\<not> armed_later g (op_id x)" by blast
      with r x have "launch_due c view caps g x"
        by (simp add: launch_due_def armed_later_def not_less split: option.splits)
      with n x(1) show False by blast
    qed
  qed
qed

lemma plan_and_launch_parts:
  assumes "plan_and_launch c e activation g = (Inr (d, p, view, caps), g')"
  obtains observed g0 g1 where "refresh_capabilities c e activation view g = (Inr caps, g0)"
    and "mirror_snapshot (or_mirror (g_orch g)) (rc_session (gc_run c)) = Inr view"
    and "mirror_get_revision (or_mirror (g_orch g)) (rc_session (gc_run c)) = Inr observed"
    and "make_plan c view caps (completion_satisfied c view) g0 = Inr (p, g1)"
    and "g' = fold (launch_one caps observed) (gp_runnable p) g1" and "d = decide c p (completion_satisfied c view) g'"
  using assms unfolding plan_and_launch_def
  by (auto simp: Let_def bindE_def split: sum.splits prod.splits)

section \<open>What a refresh of the capabilities keeps\<close>

definition orch_free :: "(gather_state \<Rightarrow> bool) \<Rightarrow> bool" where
  "orch_free K \<longleftrightarrow> (\<forall>g w. K g \<longrightarrow> K (g\<lparr>g_orch := w\<rparr>))"

lemma triple_on_orch:
  assumes "triple I f (\<lambda>_. I) I" and "orch_free K"
  shows "triple (\<lambda>g. I (g_orch g) \<and> K g) (on_orch f) (\<lambda>_ g. I (g_orch g) \<and> K g) (\<lambda>g. I (g_orch g) \<and> K g)"
proof (rule triple_keepI)
  fix g r g'
  assume g: "I (g_orch g) \<and> K g" and f: "on_orch f g = (r, g')"
  then obtain w where w: "f (g_orch g) = (r, w)" and g': "g' = g\<lparr>g_orch := w\<rparr>" by (auto simp: on_orch_def split: prod.splits)
  from triple_keepD [OF assms(1) conjunct1 [OF g] w] g g' assms(2) show "I (g_orch g') \<and> K g'" by (simp add: orch_free_def)
qed

lemma refresh_keeps:
  assumes I: "merge_frame I" and K: "orch_free K"
    and act: "\<And>g a. K g \<Longrightarrow> K (g\<lparr>g_activator := a\<rparr>)" and seen: "\<And>g xs. K g \<Longrightarrow> K (g\<lparr>g_activated_seen := xs\<rparr>)"
  shows "triple (\<lambda>g. I (g_orch g) \<and> K g) (refresh_capabilities c e activation view)
     (\<lambda>_ g. I (g_orch g) \<and> K g) (\<lambda>g. I (g_orch g) \<and> K g)"
proof (rule triple_keepI)
  let ?J = "\<lambda>g. I (g_orch g) \<and> K g"
  fix g r g'
  assume J: "?J g" and f: "refresh_capabilities c e activation view g = (r, g')"
  note audit = merge_frame.keep_on_audit [OF I]
  have 1: "triple I (forE (\<lambda>cid. audit_terminal_activation_failure e cid (h cid)) xs) (\<lambda>_. I) I" for h xs
    by (intro triple_forE triple_keepI) (auto simp: audit_terminal_activation_failure_def intro: triple_keepD [OF audit])
  have 2: "triple I (forE (audit_capability e) xs) (\<lambda>_. I) I" for xs
    by (intro triple_forE triple_keepI) (auto simp: audit_capability_def intro: triple_keepD [OF audit])
  obtain caps a where rf: "refresh (gc_capability_registry c) (gc_catalog c) (rc_namespace (gc_run c)) (rc_retry_policy (gc_run c))
      (gc_activation_delays c) (mono_now g) (\<lambda>cid. activation cid = None) view (g_activator g) = (caps, a)" by force
  let ?m = "\<lambda>failed fresh. bindE (on_orch (forE (\<lambda>cid. audit_terminal_activation_failure e cid
              (case activation cid of None \<Rightarrow> '''' | Some err \<Rightarrow> err)) failed)) (\<lambda>_.
         bindE (on_orch (forE (audit_capability e) fresh)) (\<lambda>_ g.
           (Inr caps, g\<lparr>g_activated_seen := g_activated_seen g @ fresh\<rparr>)))"
  have t: "triple ?J (?m failed fresh) (\<lambda>_. ?J) ?J" for failed fresh
  proof (rule triple_bindE [OF triple_on_orch [OF 1 K]])
    show "triple ?J (bindE (on_orch (forE (audit_capability e) fresh)) (\<lambda>_ g.
        (Inr caps, g\<lparr>g_activated_seen := g_activated_seen g @ fresh\<rparr>))) (\<lambda>_. ?J) ?J" for u :: unit
    proof (rule triple_bindE [OF triple_on_orch [OF 2 K]])
      show "triple ?J (\<lambda>g. (Inr caps, g\<lparr>g_activated_seen := g_activated_seen g @ fresh\<rparr>)) (\<lambda>_. ?J) ?J" for u :: unit
        by (rule triple_keepI) (auto simp: seen)
    qed
  qed
  have m: "?m (drop (length (av_terminal_log (g_activator g))) (av_terminal_log a))
      (filter (\<lambda>cid. cid \<notin> set (g_activated_seen g)) (map fst (av_activated a))) (g\<lparr>g_activator := a\<rparr>) = (r, g')"
    using f unfolding refresh_capabilities_def rf Let_def prod.case .
  show "?J g'" by (rule triple_keepD [OF t _ m]) (use J act in simp)
qed

lemma refresh_gathering:
  assumes "refresh_capabilities c e activation view g = (r, g')"
  shows "g_gathering g' = g_gathering g"
proof -
  have "merge_frame (\<lambda>_. True)" by unfold_locales simp_all
  from triple_keepD [OF refresh_keeps [OF this, where K = "\<lambda>h. g_gathering h = g_gathering g"] _ assms]
  show ?thesis by (simp add: orch_free_def)
qed

section \<open>Quiescence\<close>

text \<open>
  C15: quiescence is genuine. When a pass stops the loop as quiescent, the declared completion
  condition holds, nothing is running, and no operator that never ran can become ready any more in any
  continuation in which ready operators emit what they declare: the warning about stalled operators
  that the code emits at this point never has an operator to name.
\<close>

theorem quiescence_is_genuine:
  assumes "plan_and_launch c e activation g = (Inr (Quiescent, p, view, caps), g')" and "distinct (map op_id (g_gathering g))"
  shows "g_running g' = [] \<and> completion_satisfied c view \<and> warn_if_stalled c p view caps = []"
proof -
  obtain observed g0 g1 where f: "refresh_capabilities c e activation view g = (Inr caps, g0)"
    "make_plan c view caps (completion_satisfied c view) g0 = Inr (p, g1)"
    "g' = fold (launch_one caps observed) (gp_runnable p) g1" "Quiescent = decide c p (completion_satisfied c view) g'"
    by (rule plan_and_launch_parts [OF assms(1)])
  have d: "distinct (map op_id (g_gathering g0))" using refresh_gathering [OF f(1)] assms(2) by simp
  note q = f(4) [unfolded f(3), symmetric]
  have "\<forall>x \<in> set (gp_not_yet_run p). \<not> ready_now view caps x" by (rule quiescent_plan(2) [OF f(2) d q])
  then have "is_quiescent (gc_registry c) (gp_not_yet_run p) (present_types view) (available_types caps)"
    by (simp add: quiescent_iff_none_ready ready_operators_def filter_empty_conv ready_now_def)
  then have "warn_if_stalled c p view caps = []" by (simp add: warn_if_stalled_def is_quiescent_def)
  with decide_Quiescent [OF q] show ?thesis by (simp add: f(3))
qed

section \<open>A concrete pass\<close>

definition demo_gather_config :: gather_config where
  "demo_gather_config = \<lparr>gc_run = demo_config, gc_registry = empty_registry, gc_completes_when = None, gc_custom = (\<lambda>_ _. False),
     gc_operation_timeout = 30, gc_session_deadline = 300000000, gc_park_after = Some 60, gc_renew_interval = 10, gc_lock_ttl = 30,
     gc_capability_registry = [], gc_catalog = demo_catalog,
     gc_uniform = (\<lambda>_ _ _ _. 0), gc_activation_delays = (\<lambda>_. [])\<rparr>"

definition demo_gather :: "operator_class list \<Rightarrow> gather_state" where
  "demo_gather ops = \<lparr>g_orch = demo_orch\<lparr>w_faults := [], w_inbox := new_inbox\<rparr>, g_gathering = ops, g_aggregators = [], g_runs = Map.empty,
     g_failed = Map.empty, g_prev_caps = Map.empty, g_watermarks = Map.empty, g_activated_seen = [], g_activator = new_activator,
     g_breaker = new_breaker Map.empty, g_debounce = no_windows, g_retries = no_windows, g_running = [], g_fresh_deadline = False,
     g_dead_letters = [], g_last_renew = 0, g_deadline = 300\<rparr>"

definition demo_source :: operator_class where
  "demo_source = sample_operator ''source'' [] [PyClass ''Lead'' []] []"

definition demo_sink :: operator_class where
  "demo_sink = sample_operator ''sink'' [PyClass ''Score'' []] [] []"

definition no_capabilities :: capability_view where
  "no_capabilities = \<lparr>cv_available = [], cv_preference = []\<rparr>"

lemmas demo_gather_defs = demo_gather_config_def demo_gather_def demo_source_def demo_sink_def sample_operator_def demo_orch_def
  demo_config_def no_capabilities_def

lemma demo_view: "mirror_snapshot sample_mirror ''s'' = Inr []" "mirror_get_revision sample_mirror ''s'' = Inr 0"
  by (simp_all add: sample_mirror_def mirror_rehydrate_def new_mirror_def mirror_snapshot_def mirror_get_revision_def mirror_guard_read_def
      empty_session_def store_snapshot_def)

lemma compute_available_none [simp]: "compute_available [] permitted present = []"
proof -
  have "\<not> earned [] permitted present cid" for cid by (auto elim: earned.cases)
  then have "cid \<notin> set (compute_available [] permitted present)" for cid using available_earned [of cid "[]" permitted present] by blast
  then show ?thesis by (metis list.set_intros(1) neq_Nil_conv)
qed

lemma demo_refresh:
  "refresh_capabilities demo_gather_config e activation [] (demo_gather ops) = (Inr no_capabilities, demo_gather ops)"
  by (simp add: refresh_capabilities_def refresh_def demo_gather_defs activate_rounds.simps activation_ready_def new_activator_def
      preferred_order_def demo_catalog_def on_orch_def bindE_def returnE_def)

lemma demo_delta: "delta_for demo_gather_config x no_capabilities (demo_gather ops) =
    Inr \<lparr>dt_added = [], dt_updated = [], dt_newly_available_caps = [], dt_is_first_invocation = True\<rparr>"
  by (simp add: delta_for_def operator_delta_def demo_gather_def demo_orch_def demo_gather_config_def demo_config_def demo_view
      compute_delta_def no_capabilities_def)

lemma demo_readiness:
  "ready_now [] no_capabilities demo_source" "\<not> ready_now [] no_capabilities demo_sink"
  "\<not> has_run x (demo_gather ops)" "idle (demo_gather ops) x"
  by (simp_all add: ready_now_def is_ready_iff admits_def deps_reachable_def caps_available_def present_types_def demo_source_def
      demo_sink_def sample_operator_def has_run_def idle_def demo_gather_def is_tripped_def new_breaker_def)

lemma demo_plan_source:
  "plan_one demo_gather_config [] no_capabilities sat demo_source (p, demo_gather ops) =
     Inr (p\<lparr>gp_not_yet_run := gp_not_yet_run p @ [demo_source], gp_runnable := gp_runnable p @
       [\<lparr>ru_operator = demo_source, ru_delta = \<lparr>dt_added = [], dt_updated = [], dt_newly_available_caps = [],
         dt_is_first_invocation = True\<rparr>, ru_is_rerun = False, ru_is_retry = False\<rparr>]\<rparr>, demo_gather ops)"
  using demo_readiness(1) demo_readiness(3,4) [where x = demo_source and ops = ops]
  by (simp add: plan_one_def Let_def idle_def ready_now_def plan_ready_def demo_delta)
    (simp add: demo_gather_def no_windows_def is_scheduled_def)

lemma demo_plan_sink:
  "plan_one demo_gather_config [] no_capabilities sat demo_sink (p, demo_gather ops) =
     Inr (p\<lparr>gp_not_yet_run := gp_not_yet_run p @ [demo_sink]\<rparr>, demo_gather ops)"
  using demo_readiness(2) demo_readiness(3,4) [where x = demo_sink and ops = ops]
  by (simp add: plan_one_def Let_def idle_def ready_now_def)

theorem plan_exact_witness:
  "map ru_operator (gp_runnable (fst (projr (make_plan demo_gather_config [] no_capabilities True (demo_gather [demo_source, demo_sink]))))) =
     [demo_source]"
proof -
  let ?g = "demo_gather [demo_source, demo_sink]"
  have o: "g_gathering ?g = [demo_source, demo_sink]" by (simp add: demo_gather_def)
  have d: "distinct (map op_id (g_gathering ?g))" unfolding o by (simp add: demo_source_def demo_sink_def sample_operator_def)
  obtain p where p: "make_plan demo_gather_config [] no_capabilities True ?g = Inr (p, ?g)"
    by (simp add: make_plan_def o demo_plan_source demo_plan_sink)
  have "map ru_operator (gp_runnable p) = filter (launch_due demo_gather_config [] no_capabilities ?g) [demo_source, demo_sink]"
    using plan_exact [OF p d] by (simp only: o)
  also have "\<dots> = [demo_source]"
    using demo_readiness by (simp add: launch_due_def) (simp add: demo_gather_def no_windows_def)
  finally show ?thesis by (simp add: p)
qed

theorem quiescence_is_genuine_witness:
  "warn_if_stalled demo_gather_config (fst (snd (projr (fst (plan_and_launch demo_gather_config 1 (\<lambda>_. None) (demo_gather [demo_sink]))))))
     [] no_capabilities = []"
proof -
  let ?g = "demo_gather [demo_sink]"
  let ?p = "\<lparr>gp_runnable = [], gp_not_yet_run = [demo_sink], gp_soonest_due = None\<rparr>"
  have o: "g_gathering ?g = [demo_sink]" "g_running ?g = []" "or_mirror (g_orch ?g) = sample_mirror"
    by (simp_all add: demo_gather_def demo_orch_def)
  have c: "rc_session (gc_run demo_gather_config) = ''s''" "completion_satisfied demo_gather_config []"
    by (simp_all add: demo_gather_config_def demo_config_def completion_satisfied_def)
  have p: "make_plan demo_gather_config [] no_capabilities True ?g = Inr (?p, ?g)"
    by (simp add: make_plan_def o demo_plan_sink empty_plan_def)
  have "plan_and_launch demo_gather_config 1 (\<lambda>_. None) ?g = (Inr (Quiescent, ?p, [], no_capabilities), ?g)"
    by (simp add: plan_and_launch_def o c demo_view demo_refresh p decide_def next_due_in_def)
  from quiescence_is_genuine [OF this] this show ?thesis by (simp add: o)
qed

end
