(* ===== verification/Gather_Loop.thy ===== *)
theory Gather_Loop
  imports Planner
begin

text \<open>
  The gathering loop around the planner: the wait on the inbox (\<^verbatim>\<open>_wait_for_inbox\<close>), which must
  end and must not lose the lease, and the loop of \<^verbatim>\<open>_gather\<close> as a state machine whose environment
  (time, deliveries, other pods, the operators' own work) moves whenever the loop is suspended.
\<close>

section \<open>The wait on the inbox\<close>

record inbox_wait =
  iw_last_renew :: seconds
  iw_parked :: bool

definition reached :: "seconds option \<Rightarrow> seconds \<Rightarrow> bool" where
  "reached t now = (case t of None \<Rightarrow> False | Some x \<Rightarrow> x \<le> now)"

definition sleep_until :: "seconds \<Rightarrow> orch \<Rightarrow> orch" where
  "sleep_until t w = w\<lparr>w_mono := t, w_now := w_now w + \<lfloor>(t - w_mono w) * 1000000\<rfloor>\<rparr>"

definition wait_bound :: "gather_config \<Rightarrow> seconds \<Rightarrow> seconds option \<Rightarrow> seconds \<Rightarrow> seconds \<Rightarrow> seconds" where
  "wait_bound c deadline park last_renew now =
     (let bound = min (max (gc_renew_interval c - (now - last_renew)) 0) (deadline - now)
      in case park of None \<Rightarrow> bound | Some p \<Rightarrow> min bound (p - now))"

text \<open>
  The subscription ends at the time \<open>fst\<close> of \<open>arrival\<close>, if ever, with the error \<open>snd\<close> if the adapter
  raised; \<open>finished\<close> is \<^verbatim>\<open>waiter.done()\<close>, false at first since the task has not run yet. The loop may
  run for ever (a renewal interval of 0 never lets time pass), which is \<open>None\<close>.
\<close>

partial_function (option) wait_loop ::
  "gather_config \<Rightarrow> epoch \<Rightarrow> seconds \<Rightarrow> seconds option \<Rightarrow> (seconds \<times> orca_error option) option \<Rightarrow> bool \<Rightarrow> seconds \<Rightarrow>
     orch \<Rightarrow> ((orca_error + inbox_wait) \<times> orch) option" where
  "wait_loop c e deadline park arrival finished last_renew w =
     (if finished then
        Some (case (case arrival of None \<Rightarrow> None | Some a \<Rightarrow> snd a) of
            None \<Rightarrow> Inr \<lparr>iw_last_renew = last_renew, iw_parked = False\<rparr>
          | Some err \<Rightarrow> Inl err, w)
      else if deadline \<le> w_mono w then Some (Inr \<lparr>iw_last_renew = last_renew, iw_parked = False\<rparr>, w)
      else if reached park (w_mono w) then Some (Inr \<lparr>iw_last_renew = last_renew, iw_parked = True\<rparr>, w)
      else
        (let timer = w_mono w + wait_bound c deadline park last_renew (w_mono w);
             wake = (case arrival of None \<Rightarrow> timer | Some a \<Rightarrow> max (w_mono w) (min (fst a) timer));
             (r, w1) = renew_lease_if_due c e last_renew (sleep_until wake w)
         in case r of
              Inl err \<Rightarrow> Some (Inl err, w1)
            | Inr t \<Rightarrow> wait_loop c e deadline park arrival (reached (map_option fst arrival) wake) t w1))"

definition wait_for_inbox ::
  "gather_config \<Rightarrow> epoch \<Rightarrow> seconds \<Rightarrow> seconds option \<Rightarrow> (seconds \<times> orca_error option) option \<Rightarrow> seconds \<Rightarrow>
     orch \<Rightarrow> ((orca_error + inbox_wait) \<times> orch) option" where
  "wait_for_inbox c e deadline park arrival last_renew w = wait_loop c e deadline park arrival False last_renew w"

section \<open>The wait ends\<close>

definition earliest :: "seconds \<Rightarrow> seconds option \<Rightarrow> seconds option \<Rightarrow> seconds" where
  "earliest deadline park arrival =
     (let t = (case park of None \<Rightarrow> deadline | Some p \<Rightarrow> min deadline p)
      in case arrival of None \<Rightarrow> t | Some a \<Rightarrow> min t a)"

text \<open>The lease as the loop keeps it: held by \<open>e\<close>, and not to expire before the next renewal is due.\<close>

definition lease_kept :: "gather_config \<Rightarrow> epoch \<Rightarrow> seconds \<Rightarrow> orch \<Rightarrow> bool" where
  "lease_kept c e last_renew w \<longleftrightarrow> w_faults w = [] \<and> last_renew \<le> w_mono w \<and> w_mono w \<le> last_renew + gc_renew_interval c \<and>
     (\<exists>l. lk_lease (w_lock w) = Some l \<and> ls_epoch l = e \<and> last_renew + gc_lock_ttl c \<le> ls_expires_at l)"

lemma lease_kept_live: "lease_kept c e t w \<Longrightarrow> gc_renew_interval c < gc_lock_ttl c \<Longrightarrow> is_live (w_mono w) (w_lock w)"
  by (auto simp: lease_kept_def is_live_def)

lemma renew_keeps_lease:
  assumes k: "lease_kept c e last_renew w" and i: "0 < gc_renew_interval c" "gc_renew_interval c < gc_lock_ttl c"
    and t: "w_mono w \<le> t" "t \<le> last_renew + gc_renew_interval c"
  shows "\<exists>w1. renew_lease_if_due c e last_renew (sleep_until t w) =
      (Inr (if t = last_renew + gc_renew_interval c then t else last_renew), w1) \<and>
    w_mono w1 = t \<and> lease_kept c e (if t = last_renew + gc_renew_interval c then t else last_renew) w1"
proof -
  from k obtain l where l: "lk_lease (w_lock w) = Some l" "ls_epoch l = e" "last_renew + gc_lock_ttl c \<le> ls_expires_at l"
    and w: "w_faults w = []" "last_renew \<le> w_mono w" by (auto simp: lease_kept_def)
  show ?thesis
  proof (cases "t = last_renew + gc_renew_interval c")
    case False
    with t w l i show ?thesis by (simp add: renew_lease_if_due_def sleep_until_def lease_kept_def)
  next
    case True
    then have "t < ls_expires_at l" using i l(3) by simp
    with True w l i t show ?thesis
      by (simp add: renew_lease_if_due_def sleep_until_def lease_kept_def port_def on_lease_def lock_renew_def is_live_def bindE_def returnE_def)
  qed
qed

lemmas wait_once = wait_loop.simps [of c e deadline park arrival finished last_renew w] for c e deadline park arrival finished last_renew w

definition wait_result ::
  "gather_config \<Rightarrow> epoch \<Rightarrow> seconds \<Rightarrow> seconds option \<Rightarrow> seconds option \<Rightarrow> orch \<Rightarrow> ((orca_error + inbox_wait) \<times> orch) option \<Rightarrow> bool" where
  "wait_result c e deadline park arrival w res \<longleftrightarrow> (\<exists>t parked w'.
     res = Some (Inr \<lparr>iw_last_renew = t, iw_parked = parked\<rparr>, w') \<and> w_mono w' = max (w_mono w) (earliest deadline park arrival) \<and>
     lease_kept c e t w' \<and>
     (parked \<longleftrightarrow> \<not> reached arrival (w_mono w') \<and> w_mono w' < deadline \<and> reached park (w_mono w')))"

lemma earliest_le: "earliest deadline park arrival \<le> deadline"
  "park = Some p \<Longrightarrow> earliest deadline park arrival \<le> p" "arrival = Some a \<Longrightarrow> earliest deadline park arrival \<le> a"
  by (auto simp: earliest_def Let_def split: option.split)

lemma reached_Some: "reached t now \<longleftrightarrow> (\<exists>x. t = Some x \<and> x \<le> now)"
  by (simp add: reached_def split: option.split)

lemma earliest_greater:
  "\<not> deadline \<le> t \<Longrightarrow> \<not> reached park t \<Longrightarrow> \<not> reached arrival t \<Longrightarrow> t < earliest deadline park arrival"
  by (auto simp: earliest_def reached_def Let_def split: option.split)

lemma wait_stops:
  assumes k: "lease_kept c e last_renew w" and a: "arrival = map_option fst full" "\<forall>x. full = Some x \<longrightarrow> snd x = None"
    and stop: "reached arrival (w_mono w) \<or> deadline \<le> w_mono w \<or> reached park (w_mono w)"
  shows "wait_result c e deadline park arrival w (wait_loop c e deadline park full (reached arrival (w_mono w)) last_renew w)"
proof -
  have "earliest deadline park arrival \<le> w_mono w"
    using stop earliest_le [where deadline = deadline and park = park and arrival = arrival] by (auto simp: reached_Some intro: order_trans)
  then have m: "max (w_mono w) (earliest deadline park arrival) = w_mono w" by simp
  show ?thesis
  proof (cases "reached arrival (w_mono w)")
    case True
    then obtain x where "full = Some x" using a(1) by (auto simp: reached_def split: option.splits)
    with True a k m show ?thesis by (auto simp: wait_result_def wait_once)
  next
    case False
    with stop k m show ?thesis by (auto simp: wait_result_def wait_once)
  qed
qed

lemma wait_loop_ends:
  assumes i: "0 < gc_renew_interval c" "gc_renew_interval c < gc_lock_ttl c"
    and a: "arrival = map_option fst full" "\<forall>x. full = Some x \<longrightarrow> snd x = None"
  shows "lease_kept c e last_renew w \<Longrightarrow> deadline < last_renew + real n * gc_renew_interval c \<Longrightarrow>
     wait_result c e deadline park arrival w (wait_loop c e deadline park full (reached arrival (w_mono w)) last_renew w)"
proof (induction n arbitrary: last_renew w)
  case 0
  then have "deadline \<le> w_mono w" by (simp add: lease_kept_def)
  with 0 a show ?case by (intro wait_stops) auto
next
  case (Suc n)
  let ?now = "w_mono w"
  show ?case
  proof (cases "reached arrival ?now \<or> deadline \<le> ?now \<or> reached park ?now")
    case True
    with Suc.prems a show ?thesis by (intro wait_stops) auto
  next
    case False
    let ?b = "?now + wait_bound c deadline park last_renew ?now"
    define wake where "wake = (case full of None \<Rightarrow> ?b | Some x \<Rightarrow> max ?now (min (fst x) ?b))"
    have now: "last_renew \<le> ?now" "?now \<le> last_renew + gc_renew_interval c" using Suc.prems(1) by (simp_all add: lease_kept_def)
    have b: "?now \<le> ?b" "?b \<le> last_renew + gc_renew_interval c" "?b \<le> deadline" "park = Some p \<Longrightarrow> ?b \<le> p" for p
      using False now by (auto simp: wait_bound_def reached_def Let_def split: option.split)
    have b': "?b = last_renew + gc_renew_interval c \<or> ?b = deadline \<or> (\<exists>p. park = Some p \<and> ?b = p)"
      using now by (auto simp: wait_bound_def Let_def min_def max_def split: option.split)
    have wake: "?now \<le> wake" "wake \<le> ?b" and wake': "wake = ?b \<or> reached arrival wake"
      using b(1) a(1) by (auto simp: wake_def reached_def min_def max_def split: option.split)
    have early: "wake \<le> earliest deadline park arrival"
    proof -
      have "wake \<le> x" if "arrival = Some x" for x
        using False that a(1) by (auto simp: wake_def reached_def)
      with wake(2) b(3,4) show ?thesis by (fastforce simp: earliest_def Let_def split: option.split)
    qed
    let ?t = "if wake = last_renew + gc_renew_interval c then wake else last_renew"
    obtain w1 where r: "renew_lease_if_due c e last_renew (sleep_until wake w) = (Inr ?t, w1)"
      and w1: "w_mono w1 = wake" "lease_kept c e ?t w1"
      using renew_keeps_lease [OF Suc.prems(1) i wake(1)] wake(2) b(2) by (metis order_trans)
    have eq: "wait_loop c e deadline park full (reached arrival ?now) last_renew w =
        wait_loop c e deadline park full (reached arrival (w_mono w1)) ?t w1"
      using False r a(1) by (subst wait_once) (simp add: Let_def w1(1) flip: wake_def)
    have "wait_result c e deadline park arrival w1 (wait_loop c e deadline park full (reached arrival (w_mono w1)) ?t w1)"
    proof (cases "wake = last_renew + gc_renew_interval c")
      case True
      with Suc.prems(2) have "deadline < ?t + real n * gc_renew_interval c" by (simp add: algebra_simps)
      with w1(2) show ?thesis by (rule Suc.IH)
    next
      case False
      with wake' b' w1(1) have "reached arrival (w_mono w1) \<or> deadline \<le> w_mono w1 \<or> reached park (w_mono w1)"
        by (auto simp: reached_Some)
      with w1(2) a show ?thesis by (intro wait_stops)
    qed
    moreover have "max (w_mono w1) (earliest deadline park arrival) = max ?now (earliest deadline park arrival)"
      using early wake(1) w1(1) by simp
    ultimately show ?thesis by (simp add: eq wait_result_def)
  qed
qed

text \<open>
  Also: a wait on the inbox always ends, at the earliest of the arrival, the end of the idle window
  and the session deadline, and never loses the lease: with a renewal interval shorter than the
  lock's time to live, no failing port call, a wait that begins within the interval returns exactly
  then, the lease still live and held by this epoch, and reports a park exactly when the idle window
  ended first (an arrival at the same instant wins, and so does the deadline).
\<close>

theorem wait_ends_at_earliest:
  assumes i: "0 < gc_renew_interval c" "gc_renew_interval c < gc_lock_ttl c" and k: "lease_kept c e last_renew w"
    and d: "w_mono w < deadline" and p: "\<not> reached park (w_mono w)"
    and a: "\<forall>x. full = Some x \<longrightarrow> snd x = None" and end_at: "t = max (w_mono w) (earliest deadline park (map_option fst full))"
  shows "\<exists>r w'. wait_for_inbox c e deadline park full last_renew w = Some (Inr r, w') \<and> w_mono w' = t \<and>
     is_live t (w_lock w') \<and> map_option ls_epoch (lk_lease (w_lock w')) = Some e \<and>
     (iw_parked r \<longleftrightarrow> reached park t \<and> t < deadline \<and> \<not> reached (map_option fst full) t)"
proof -
  let ?arr = "map_option fst full"
  obtain n where n: "deadline < last_renew + real n * gc_renew_interval c"
  proof -
    from reals_Archimedean3 [OF i(1)] obtain n where "deadline - last_renew < real n * gc_renew_interval c" by blast
    then show thesis by (intro that [of n]) simp
  qed
  have conclude: "?thesis" if r: "wait_result c e deadline park ?arr w (wait_for_inbox c e deadline park full last_renew w)"
  proof -
    from r obtain u parked w' where x: "wait_for_inbox c e deadline park full last_renew w =
        Some (Inr \<lparr>iw_last_renew = u, iw_parked = parked\<rparr>, w')" "w_mono w' = t" "lease_kept c e u w'"
        "parked \<longleftrightarrow> \<not> reached ?arr t \<and> t < deadline \<and> reached park t"
      by (auto simp: wait_result_def end_at)
    from lease_kept_live [OF x(3) i(2)] x(2) have "is_live t (w_lock w')" by simp
    moreover have "map_option ls_epoch (lk_lease (w_lock w')) = Some e" using x(3) by (auto simp: lease_kept_def)
    ultimately show ?thesis using x by (intro exI [of _ "\<lparr>iw_last_renew = u, iw_parked = parked\<rparr>"] exI [of _ w']) auto
  qed
  show ?thesis
  proof (cases "reached ?arr (w_mono w)")
    case False
    with wait_loop_ends [OF i refl a k n, of park] show ?thesis by (intro conclude) (simp add: wait_for_inbox_def)
  next
    case True
    then obtain x where x: "full = Some x" "fst x \<le> w_mono w" by (auto simp: reached_Some)
    have le: "w_mono w \<le> last_renew + gc_renew_interval c" using k by (simp add: lease_kept_def)
    have b: "w_mono w \<le> w_mono w + wait_bound c deadline park last_renew (w_mono w)"
      using le d p by (auto simp: wait_bound_def reached_def Let_def split: option.split)
    let ?u = "if w_mono w = last_renew + gc_renew_interval c then w_mono w else last_renew"
    obtain w1 where r: "renew_lease_if_due c e last_renew (sleep_until (w_mono w) w) = (Inr ?u, w1)"
      "w_mono w1 = w_mono w" "lease_kept c e ?u w1" using renew_keeps_lease [OF k i order_refl le] by blast
    have "max (w_mono w) (min (fst x) (w_mono w + wait_bound c deadline park last_renew (w_mono w))) = w_mono w" using x(2) b by simp
    then have "wait_for_inbox c e deadline park full last_renew w = wait_loop c e deadline park full True ?u w1"
      using d p r(1) x True unfolding wait_for_inbox_def by (subst wait_once) (simp add: not_le)
    also have "\<dots> = wait_loop c e deadline park full (reached ?arr (w_mono w1)) ?u w1" using True r(2) by simp
    finally have eq: "wait_for_inbox c e deadline park full last_renew w = wait_loop c e deadline park full (reached ?arr (w_mono w1)) ?u w1" .
    have "wait_result c e deadline park ?arr w1 (wait_loop c e deadline park full (reached ?arr (w_mono w1)) ?u w1)"
      by (rule wait_stops [OF r(3) refl a]) (use True r(2) in simp)
    with r(2) eq show ?thesis by (intro conclude) (simp add: wait_result_def)
  qed
qed

definition demo_holder :: orch where
  "demo_holder = demo_orch\<lparr>w_faults := [], w_lock := \<lparr>lk_counter = 1, lk_lease = Some \<lparr>ls_epoch = 1, ls_expires_at = 30\<rparr>, lk_complete = False\<rparr>\<rparr>"

theorem wait_ends_at_earliest_witness:
  "\<exists>r w'. wait_for_inbox demo_gather_config 1 300 (Some 60) (Some (25, None)) 0 demo_holder = Some (Inr r, w') \<and>
     w_mono w' = 25 \<and> is_live 25 (w_lock w') \<and> \<not> iw_parked r"
proof -
  have k: "lease_kept demo_gather_config 1 0 demo_holder"
    by (simp add: lease_kept_def demo_gather_config_def demo_holder_def demo_orch_def)
  have m: "w_mono demo_holder = 0" by (simp add: demo_holder_def demo_orch_def)
  from wait_ends_at_earliest [OF _ _ k, of 300 "Some 60" "Some (25, None)" 25] show ?thesis
    by (auto simp: demo_gather_config_def m reached_def earliest_def)
qed

section \<open>The loop as a state machine\<close>

datatype gather_phase =
    Planning
  | Waiting decision
  | Draining "orca_error + bool"
  | Finished "orca_error + bool"

text \<open>
  While the loop is suspended time passes and everything behind the ports may change (deliveries,
  other pods, effects of the running operators, failures to come); what the orchestrator holds does
  not, and the store's revision does not go back.
\<close>

definition suspended :: "orch \<Rightarrow> orch \<Rightarrow> bool" where
  "suspended w w' \<longleftrightarrow> or_mirror w' = or_mirror w \<and> or_cipher w' = or_cipher w \<and> or_coalesced w' = or_coalesced w \<and>
     or_reobserved w' = or_reobserved w \<and> or_undeclared w' = or_undeclared w \<and> w_mono w \<le> w_mono w' \<and>
     st_revision (w_store w) \<le> st_revision (w_store w')"

definition after_pass :: "orca_error + decision \<Rightarrow> gather_phase" where
  "after_pass r = (case r of
      Inl err \<Rightarrow> Draining (Inl err)
    | Inr d \<Rightarrow> (case d of DeadlineHit \<Rightarrow> Draining (Inr False) | Quiescent \<Rightarrow> Draining (Inr False) | _ \<Rightarrow> Waiting d))"

inductive gather_step :: "gather_config \<Rightarrow> epoch \<Rightarrow> gather_phase \<times> gather_state \<Rightarrow> gather_phase \<times> gather_state \<Rightarrow> bool" for c e where
  pass: "gather_pass c e activation g = (r, g') \<Longrightarrow> gather_step c e (Planning, g) (after_pass r, g')"
| signals: "suspended (g_orch g) w \<Longrightarrow> batch \<noteq> [] \<Longrightarrow> consume_batch c e batch (g\<lparr>g_orch := w\<rparr>) = (r, g') \<Longrightarrow>
    gather_step c e (Waiting AwaitSignals, g) (case r of Inl err \<Rightarrow> Draining (Inl err) | Inr _ \<Rightarrow> Planning, g')"
| slept: "suspended (g_orch g) w \<Longrightarrow> mono_now g + d \<le> w_mono w \<Longrightarrow>
    gather_step c e (Waiting (SleepFor d), g) (Planning, g\<lparr>g_orch := w\<rparr>)"
| waited: "suspended (g_orch g) w \<Longrightarrow> wait_for_inbox c e (g_deadline g) park arrival (g_last_renew g) w = Some (Inr x, w1) \<Longrightarrow>
    suspended w1 w2 \<Longrightarrow> gather_step c e (Waiting (AwaitInbox park), g)
      (if iw_parked x then Draining (Inr True) else Planning, g\<lparr>g_orch := w2, g_last_renew := iw_last_renew x\<rparr>)"
| wait_raised: "suspended (g_orch g) w \<Longrightarrow> wait_for_inbox c e (g_deadline g) park arrival (g_last_renew g) w = Some (Inl err, w1) \<Longrightarrow>
    gather_step c e (Waiting (AwaitInbox park), g) (Draining (Inl err), g\<lparr>g_orch := w1\<rparr>)"
| drained: "suspended (g_orch g) w \<Longrightarrow> drain_remaining c e queued late (g\<lparr>g_orch := w\<rparr>) = (r', g') \<Longrightarrow>
    gather_step c e (Draining r, g) (Finished (case r' of Inl err \<Rightarrow> Inl err | Inr _ \<Rightarrow> r), g')"

inductive_cases planning_step: "gather_step c e (Planning, g) s"
inductive_cases finished_step: "gather_step c e (Finished r, g) s"

definition gather_reach :: "gather_config \<Rightarrow> epoch \<Rightarrow> gather_state \<Rightarrow> gather_phase \<Rightarrow> gather_state \<Rightarrow> bool" where
  "gather_reach c e g0 ph g \<longleftrightarrow> (gather_step c e)\<^sup>*\<^sup>* (Planning, g0) (ph, g)"

section \<open>What the loop keeps\<close>

definition breaker_ok :: "circuit_breaker \<Rightarrow> bool" where
  "breaker_ok b \<longleftrightarrow> (\<forall>oid cap. cb_caps b oid = Some cap \<longrightarrow> breaker_runs oid b \<le> max 0 cap)"

definition failure_ok :: "gather_config \<Rightarrow> operator_id \<Rightarrow> int option \<Rightarrow> bool" where
  "failure_ok c oid n = (case n of None \<Rightarrow> True
     | Some k \<Rightarrow> (case operator_by_id (gc_run c) oid of None \<Rightarrow> False
         | Some x \<Rightarrow> (case op_retry (op_policy x) of None \<Rightarrow> False | Some p \<Rightarrow> 1 \<le> k \<and> k < max_attempts p)))"

definition books_ok :: "gather_config \<Rightarrow> revision \<Rightarrow> gather_state \<Rightarrow> bool" where
  "books_ok c r g \<longleftrightarrow> distinct (map fst (g_running g)) \<and>
     (\<forall>x \<in> set (g_running g). snd x \<le> r \<and> \<not> is_tripped (fst x) (g_breaker g)) \<and> breaker_ok (g_breaker g) \<and>
     (\<forall>oid. failure_ok c oid (g_failed g oid)) \<and> (\<forall>oid rv. g_watermarks g oid = Some rv \<longrightarrow> rv \<le> r) \<and>
     distinct (map op_id (g_gathering g))"

definition gather_inv :: "gather_config \<Rightarrow> gather_state \<Rightarrow> bool" where
  "gather_inv c g \<longleftrightarrow> (\<exists>r. revision_floor r (g_orch g) \<and> books_ok c r g)"

abbreviation keeps :: "gather_config \<Rightarrow> revision \<Rightarrow> (gather_state, 'r) op \<Rightarrow> bool" where
  "keeps c r f \<equiv> triple (\<lambda>g. revision_floor r (g_orch g) \<and> books_ok c r g) f
     (\<lambda>_ g. revision_floor r (g_orch g) \<and> books_ok c r g) (\<lambda>g. revision_floor r (g_orch g) \<and> books_ok c r g)"

lemma books_ok_mono: "books_ok c r g \<Longrightarrow> r \<le> r' \<Longrightarrow> books_ok c r' g"
  by (fastforce simp: books_ok_def)

lemma books_orch_free: "orch_free (books_ok c r)"
  by (simp add: orch_free_def books_ok_def)

lemma books_frames [simp]:
  "books_ok c r (g\<lparr>g_orch := w\<rparr>) = books_ok c r g" "books_ok c r (g\<lparr>g_activator := a\<rparr>) = books_ok c r g"
  "books_ok c r (g\<lparr>g_activated_seen := xs\<rparr>) = books_ok c r g" "books_ok c r (g\<lparr>g_last_renew := t\<rparr>) = books_ok c r g"
  "books_ok c r (g\<lparr>g_debounce := d\<rparr>) = books_ok c r g" "books_ok c r (g\<lparr>g_retries := d\<rparr>) = books_ok c r g"
  "books_ok c r (g\<lparr>g_prev_caps := pc\<rparr>) = books_ok c r g" "books_ok c r (g\<lparr>g_runs := rs\<rparr>) = books_ok c r g"
  by (simp_all add: books_ok_def)

lemma floor_current: "revision_floor r w \<Longrightarrow> revision_floor (mi_revision (or_mirror w)) w"
  by (simp add: revision_floor_def)

lemma floor_suspended: "revision_floor r w \<Longrightarrow> suspended w w' \<Longrightarrow> revision_floor r w'"
  by (simp add: revision_floor_def suspended_def)

lemmas keeps_on_orch = triple_on_orch [OF _ books_orch_free]

lemma keeps_store:
  assumes "\<And>s x s'. f s = (x, s') \<Longrightarrow> st_revision s' = st_revision s"
  shows "triple (revision_floor r) (port (on_store f)) (\<lambda>_. revision_floor r) (revision_floor r)"
  by (rule revisions.keep_port, rule triple_keepI) (auto simp: on_store_def revision_floor_def split: prod.splits dest!: assms)

lemma keeps_lease: "triple (revision_floor r) (port (on_lease f)) (\<lambda>_. revision_floor r) (revision_floor r)"
  by (rule revisions.keep_port, rule triple_keepI) (auto simp: on_lease_def revision_floor_def split: prod.splits)

lemma keeps_renew: "triple (revision_floor r) (renew_lease_if_due c e t) (\<lambda>_. revision_floor r) (revision_floor r)"
proof (rule triple_keepI)
  fix w x w'
  assume w: "revision_floor r w" and f: "renew_lease_if_due c e t w = (x, w')"
  show "revision_floor r w'"
  proof (cases "w_mono w - t < gc_renew_interval c")
    case True
    with f w show ?thesis by (simp add: renew_lease_if_due_def)
  next
    case False
    have "triple (revision_floor r) (bindE (port (on_lease (lock_renew (gc_lock_ttl c) (w_mono w) e))) (\<lambda>_. returnE (w_mono w)))
        (\<lambda>_. revision_floor r) (revision_floor r)"
      by (rule triple_bindE [OF keeps_lease]) (auto intro: triple_returnE)
    from triple_keepD [OF this w] f False show ?thesis by (simp add: renew_lease_if_due_def)
  qed
qed

lemma tripped_other: "oid \<noteq> x \<Longrightarrow> is_tripped oid (record_run x b) = is_tripped oid b"
  by (simp add: is_tripped_def record_run_def breaker_runs_def split: option.split)

lemma breaker_records:
  assumes "breaker_ok b" and "\<not> is_tripped x b"
  shows "breaker_ok (record_run x b)"
  using assms by (auto simp: breaker_ok_def is_tripped_def record_run_def breaker_runs_def split: option.splits)

lemma map_of_mem: "map_of xs k = Some v \<Longrightarrow> (k, v) \<in> set xs"
  by (rule map_of_SomeD)

lemma books_completed:
  assumes b: "books_ok c r g" and o: "map_of (g_running g) oid = Some rv" and f: "\<And>x. failure_ok c x (f x)"
    and g': "g' = g\<lparr>g_running := AList.delete oid (g_running g), g_runs := rs, g_breaker := record_run oid (g_breaker g),
      g_failed := f, g_retries := d\<rparr>"
  shows "books_ok c r g'"
proof -
  note old = b [unfolded books_ok_def]
  have r: "set (g_running g') \<subseteq> set (g_running g)" "oid \<notin> fst ` set (g_running g')" "distinct (map fst (g_running g'))"
    using old unfolding g' by (auto simp: AList.delete_eq distinct_map inj_on_def intro: distinct_filter)
  have "snd x \<le> r \<and> \<not> is_tripped (fst x) (g_breaker g')" if x: "x \<in> set (g_running g')" for x
  proof -
    have "fst x \<noteq> oid" using r(2) x by blast
    moreover have "x \<in> set (g_running g)" using r(1) x by blast
    ultimately show ?thesis using old tripped_other by (simp add: g')
  qed
  moreover have "breaker_ok (g_breaker g')"
  proof -
    from map_of_mem [OF o] old have "\<not> is_tripped oid (g_breaker g)" by force
    with old show ?thesis unfolding g' by (simp add: breaker_records)
  qed
  ultimately show ?thesis using old r(3) f by (simp add: books_ok_def g')
qed

lemma maybe_retry_shape:
  "maybe_schedule_retry c oid g = (b, g') \<Longrightarrow> \<exists>d. g' = g\<lparr>g_retries := d\<rparr>"
  by (auto simp: maybe_schedule_retry_def Let_def split: option.splits if_splits intro: exI [of _ "g_retries g"])

lemma maybe_retry_within:
  assumes "maybe_schedule_retry c oid g = (True, g')" and "g_failed g oid = Some n" and "1 \<le> n"
  shows "failure_ok c oid (Some n)"
  using assms by (auto simp: maybe_schedule_retry_def failure_ok_def count_of_def Let_def split: option.splits if_splits)

lemma note_completion_books:
  assumes b: "books_ok c r g" and o: "map_of (g_running g) oid = Some rv" and n: "note_completion c oid ok g = (retrying, g')"
  shows "books_ok c r g'" "g_orch g' = g_orch g" "g_watermarks g' = g_watermarks g"
proof -
  let ?g1 = "g\<lparr>g_running := AList.delete oid (g_running g), g_runs := (g_runs g)(oid \<mapsto> count_of (g_runs g) oid + 1),
                 g_breaker := record_run oid (g_breaker g)\<rparr>"
  have old: "failure_ok c x (g_failed g x)" for x using b by (simp add: books_ok_def)
  have none: "failure_ok c x None" for x by (simp add: failure_ok_def)
  have pos: "1 \<le> count_of (g_failed g) oid + 1"
    using old [of oid] by (auto simp: failure_ok_def count_of_def split: option.splits)
  have "\<exists>f d. (\<forall>x. failure_ok c x (f x)) \<and> g' = ?g1\<lparr>g_failed := f, g_retries := d\<rparr>"
  proof (cases ok)
    case True
    with n have "g' = ?g1\<lparr>g_failed := (g_failed g)(oid := None), g_retries := g_retries g\<rparr>" by (auto simp: note_completion_def Let_def)
    then show ?thesis using old none by (metis fun_upd_apply)
  next
    case False
    let ?g2 = "?g1\<lparr>g_failed := (g_failed g)(oid \<mapsto> count_of (g_failed g) oid + 1)\<rparr>"
    obtain b g3 where m: "maybe_schedule_retry c oid ?g2 = (b, g3)" by (cases "maybe_schedule_retry c oid ?g2")
    from maybe_retry_shape [OF m] obtain d where g3: "g3 = ?g2\<lparr>g_retries := d\<rparr>" by blast
    show ?thesis
    proof (cases b)
      case True
      with n m False have "g' = ?g1\<lparr>g_failed := (g_failed g)(oid \<mapsto> count_of (g_failed g) oid + 1), g_retries := d\<rparr>"
        by (simp add: note_completion_def Let_def g3)
      moreover have "failure_ok c oid (Some (count_of (g_failed g) oid + 1))"
        using m True pos by (intro maybe_retry_within [of c oid ?g2 g3]) simp_all
      ultimately show ?thesis using old by (metis fun_upd_apply)
    next
      case nb: False
      with n m False have "g' = ?g1\<lparr>g_failed := (g_failed g)(oid := None), g_retries := d\<rparr>"
        by (auto simp: note_completion_def Let_def g3)
      then show ?thesis using old none by (metis fun_upd_apply)
    qed
  qed
  then obtain f d where f: "\<forall>x. failure_ok c x (f x)" "g' = ?g1\<lparr>g_failed := f, g_retries := d\<rparr>" by blast
  show "books_ok c r g'" by (rule books_completed [OF b o]) (use f in simp_all)
  show "g_orch g' = g_orch g" "g_watermarks g' = g_watermarks g" using f(2) by simp_all
qed

lemma set_watermark_revision: "store_set_watermark oid rv e s = (x, s') \<Longrightarrow> st_revision s' = st_revision s"
  by (auto simp: store_set_watermark_def store_guard_epoch_def bindE_def split: if_splits)

lemma set_deadline_revision: "store_set_deadline t e s = (x, s') \<Longrightarrow> st_revision s' = st_revision s"
  by (auto simp: store_set_deadline_def store_guard_epoch_def bindE_def split: if_splits)

lemma keeps_advance:
  assumes "rv \<le> r"
  shows "keeps c r (advance_watermark oid rv e)"
  unfolding advance_watermark_def
proof (rule triple_bindE [OF keeps_on_orch])
  show "triple (revision_floor r) (port (on_store (store_set_watermark oid rv e))) (\<lambda>_. revision_floor r) (revision_floor r)"
    by (rule keeps_store) (rule set_watermark_revision)
  show "keeps c r (\<lambda>g. (Inr (), g\<lparr>g_watermarks := (g_watermarks g)(oid \<mapsto> rv)\<rparr>))" for u :: unit
    by (rule triple_keepI) (use assms in \<open>auto simp: books_ok_def\<close>)
qed

lemma keeps_audit_run: "triple (revision_floor r) (audit_operator_run c e oid outcome n k t err) (\<lambda>_. revision_floor r) (revision_floor r)"
  by (rule triple_keepI) (auto simp: audit_operator_run_def intro: triple_keepD [OF revisions.keep_on_audit])

lemma keeps_completion: "keeps c r (record_completion c e x)"
proof (rule triple_keepI)
  fix g y g'
  assume g: "revision_floor r (g_orch g) \<and> books_ok c r g" and f: "record_completion c e x g = (y, g')"
  obtain oid err t where x: "x = (oid, err, t)" by (cases x) auto
  show "revision_floor r (g_orch g') \<and> books_ok c r g'"
  proof (cases "map_of (g_running g) oid")
    case None
    with f g x show ?thesis by (simp add: record_completion_def)
  next
    case (Some observed)
    obtain retrying g1 where n: "note_completion c oid (err = None) g = (retrying, g1)" by (cases "note_completion c oid (err = None) g")
    from note_completion_books [OF conjunct2 [OF g] Some n] g have g1: "revision_floor r (g_orch g1) \<and> books_ok c r g1" by simp
    have le: "observed \<le> r" using map_of_mem [OF Some] g by (force simp: books_ok_def)
    have step: "keeps c r (bindE (on_orch (audit_operator_run c e oid outcome k m t' msg))
        (\<lambda>_. if retrying then returnE () else advance_watermark oid observed e))" for outcome k m t' msg
      by (rule triple_bindE [OF keeps_on_orch [OF keeps_audit_run]]) (auto intro: keeps_advance [OF le] triple_returnE)
    from f x Some n show ?thesis by (intro triple_keepD [OF step g1]) (simp add: record_completion_def Let_def)
  qed
qed

lemma keeps_batch: "keeps c r (consume_batch c e batch)"
  unfolding consume_batch_def
  by (rule triple_bindE [OF keeps_on_orch [OF revisions.keep_merge]]) (rule triple_forE [OF keeps_completion])

lemma keeps_drain_remaining: "keeps c r (drain_remaining c e queued late)"
  unfolding drain_remaining_def
  by (rule triple_bindE [OF keeps_on_orch [OF revisions.keep_merge]]) (rule keeps_on_orch [OF revisions.keep_merge])

section \<open>A pass keeps the books\<close>

lemma launch_one_books:
  assumes "books_ok c r g" and "rv \<le> r" and "\<not> is_tripped (op_id (ru_operator ru)) (g_breaker g)"
  shows "books_ok c r (launch_one caps rv ru g)" "g_orch (launch_one caps rv ru g) = g_orch g"
    "g_breaker (launch_one caps rv ru g) = g_breaker g"
proof -
  let ?run = "AList.update (op_id (ru_operator ru)) rv (g_running g)"
  have "x = (op_id (ru_operator ru), rv) \<or> x \<in> set (g_running g)" if "x \<in> set ?run" for x
    using that assms(1) set_update_distinct [of "g_running g" "op_id (ru_operator ru)" rv] by (auto simp: books_ok_def)
  then have "snd x \<le> r \<and> \<not> is_tripped (fst x) (g_breaker g)" if "x \<in> set ?run" for x
    using assms that unfolding books_ok_def by fastforce
  moreover have "distinct (map fst ?run)" using assms(1) by (simp add: books_ok_def)
  ultimately show "books_ok c r (launch_one caps rv ru g)"
    using assms(1) by (simp add: launch_one_def Let_def books_ok_def)
  show "g_orch (launch_one caps rv ru g) = g_orch g" "g_breaker (launch_one caps rv ru g) = g_breaker g"
    by (simp_all add: launch_one_def Let_def)
qed

lemma launches_books:
  assumes "books_ok c r g" and "rv \<le> r" and "\<forall>ru \<in> set rs. \<not> is_tripped (op_id (ru_operator ru)) (g_breaker g)"
  shows "books_ok c r (fold (launch_one caps rv) rs g) \<and> g_orch (fold (launch_one caps rv) rs g) = g_orch g"
  using assms
proof (induction rs arbitrary: g)
  case (Cons ru rs)
  then have "\<not> is_tripped (op_id (ru_operator ru)) (g_breaker g)" by simp
  note l = launch_one_books [OF Cons.prems(1,2) this, of caps]
  from Cons.IH [OF l(1) Cons.prems(2)] Cons.prems(3) l show ?case by simp
qed simp

lemma plan_books:
  assumes b: "books_ok c r g" and p: "make_plan c view caps sat g = Inr (p, g')"
  shows "books_ok c r g'" "g_orch g' = g_orch g" "\<forall>ru \<in> set (gp_runnable p). \<not> is_tripped (op_id (ru_operator ru)) (g_breaker g')"
proof -
  note spec = make_plan_spec [OF p]
  have d: "distinct (map op_id (g_gathering g))" using b by (simp add: books_ok_def)
  from spec [OF d] obtain rs where s: "same_but_windows (op_id ` set (g_gathering g)) g g'"
    and rs: "map ru_operator (gp_runnable p) = filter (launch_due c view caps g) (g_gathering g)" by auto
  from s b show "books_ok c r g'" "g_orch g' = g_orch g" by (auto simp: same_but_windows_def)
  have "\<not> is_tripped (op_id x) (g_breaker g)" if "x \<in> set (map ru_operator (gp_runnable p))" for x
    using that by (auto simp: rs launch_due_def idle_def)
  then show "\<forall>ru \<in> set (gp_runnable p). \<not> is_tripped (op_id (ru_operator ru)) (g_breaker g')"
    by (simp add: same_but_windowsD [OF s])
qed

lemma merge_frame_revisions: "merge_frame (revision_floor r)"
  by (rule revisions.merge_frame_axioms)

lemmas keeps_refresh = refresh_keeps [OF merge_frame_revisions books_orch_free]

lemma pass_inv:
  assumes inv: "gather_inv c g" and f: "plan_and_launch c e activation g = (x, g')"
  shows "gather_inv c g'"
proof (cases "mirror_snapshot (or_mirror (g_orch g)) (rc_session (gc_run c))")
  case (Inl err)
  with f inv show ?thesis by (simp add: plan_and_launch_def)
next
  case (Inr view)
  show ?thesis
  proof (cases "mirror_get_revision (or_mirror (g_orch g)) (rc_session (gc_run c))")
    case (Inl err)
    with f inv Inr show ?thesis by (simp add: plan_and_launch_def)
  next
    case observed: (Inr rv)
    then have rv: "rv = mi_revision (or_mirror (g_orch g))" by (simp add: mirror_get_revision_def split: sum.splits)
    from inv obtain r where r: "revision_floor r (g_orch g)" "books_ok c r g" by (auto simp: gather_inv_def)
    have le: "r \<le> rv" using r(1) by (simp add: rv revision_floor_def)
    have start: "revision_floor rv (g_orch g) \<and> books_ok c rv g"
      using floor_current [OF r(1)] books_ok_mono [OF r(2) le] by (simp add: rv)
    obtain y g1 where rf: "refresh_capabilities c e activation view g = (y, g1)" by (cases "refresh_capabilities c e activation view g")
    have g1: "revision_floor rv (g_orch g1) \<and> books_ok c rv g1" by (rule triple_keepD [OF keeps_refresh start rf]) simp_all
    show ?thesis
    proof (cases y)
      case (Inl err)
      with f Inr observed rf have "g' = g1" by (simp add: plan_and_launch_def)
      with g1 show ?thesis by (auto simp: gather_inv_def)
    next
      case caps: (Inr caps)
      show ?thesis
      proof (cases "make_plan c view caps (completion_satisfied c view) g1")
        case (Inl err)
        with f Inr observed rf caps have "g' = g1" by (simp add: plan_and_launch_def)
        with g1 show ?thesis by (auto simp: gather_inv_def)
      next
        case plan: (Inr pg)
        obtain p g2 where pg: "pg = (p, g2)" by (cases pg)
        note b = plan_books [OF conjunct2 [OF g1] plan [unfolded pg]]
        from f Inr observed rf caps plan pg have g': "g' = fold (launch_one caps rv) (gp_runnable p) g2"
          by (simp add: plan_and_launch_def Let_def)
        from launches_books [OF b(1) order_refl b(3), of caps] b(2) g1 show ?thesis by (auto simp: gather_inv_def g')
      qed
    qed
  qed
qed

lemma gather_invI: "revision_floor r (g_orch g) \<and> books_ok c r g \<Longrightarrow> gather_inv c g"
  by (auto simp: gather_inv_def)

lemma keeps_inv:
  assumes "\<And>r. keeps c r f" and "gather_inv c g" and "f g = (x, g')"
  shows "gather_inv c g'"
  using assms(2) triple_keepD [OF assms(1) _ assms(3)] by (auto simp: gather_inv_def)

lemma keeps_renew_in_loop: "keeps c r (renew_in_loop c e)"
proof (rule triple_keepI)
  fix g x g'
  assume g: "revision_floor r (g_orch g) \<and> books_ok c r g" and f: "renew_in_loop c e g = (x, g')"
  have "keeps c r (bindE (on_orch (renew_lease_if_due c e t)) (\<lambda>u g. (Inr (), g\<lparr>g_last_renew := u\<rparr>)))" for t
    by (rule triple_bindE [OF keeps_on_orch [OF keeps_renew]], rule triple_keepI) auto
  from triple_keepD [OF this g] f show "revision_floor r (g_orch g') \<and> books_ok c r g'" by (simp add: renew_in_loop_def)
qed

lemma gather_pass_inv:
  assumes inv: "gather_inv c g" and f: "gather_pass c e activation g = (x, g')"
  shows "gather_inv c g'"
proof (cases "mono_now g < g_deadline g")
  case False
  with f inv show ?thesis by (simp add: gather_pass_def)
next
  case True
  obtain x1 g1 where 1: "renew_in_loop c e g = (x1, g1)" by (cases "renew_in_loop c e g")
  obtain x2 g2 where 2: "on_orch (drain_inbox (gc_run c) e) g1 = (x2, g2)" by (cases "on_orch (drain_inbox (gc_run c) e) g1")
  obtain x3 g3 where 3: "plan_and_launch c e activation g2 = (x3, g3)" by (cases "plan_and_launch c e activation g2")
  have i1: "gather_inv c g1" by (rule keeps_inv [OF keeps_renew_in_loop inv 1])
  have i2: "gather_inv c g2" by (rule keeps_inv [OF keeps_on_orch [OF revisions.keep_drain] i1 2])
  have i3: "gather_inv c g3" by (rule pass_inv [OF i2 3])
  have "g' = g1 \<or> g' = g2 \<or> g' = g3"
    using f True 1 2 3 by (cases x1; cases x2; cases x3) (auto simp: gather_pass_def returnE_def bindE_def)
  with i1 i2 i3 show ?thesis by blast
qed

lemma suspended_inv:
  assumes "gather_inv c g" and "suspended (g_orch g) w"
  shows "gather_inv c (g\<lparr>g_orch := w\<rparr>)"
  using assms floor_suspended by (fastforce simp: gather_inv_def)

lemma sleep_floor: "revision_floor r w \<Longrightarrow> revision_floor r (sleep_until t w)"
  by (simp add: revision_floor_def sleep_until_def)

lemma wait_floor:
  assumes "wait_loop c e deadline park full fin t w = Some y"
  shows "revision_floor r w \<longrightarrow> revision_floor r (snd y)"
proof (rule wait_loop.raw_induct [where P = "\<lambda>c e deadline park full fin t w y. revision_floor r w \<longrightarrow> revision_floor r (snd y)", OF _ assms])
  fix loop :: "gather_config \<Rightarrow> epoch \<Rightarrow> seconds \<Rightarrow> seconds option \<Rightarrow> (seconds \<times> orca_error option) option \<Rightarrow> bool \<Rightarrow> seconds \<Rightarrow>
     orch \<Rightarrow> ((orca_error + inbox_wait) \<times> orch) option"
  fix c e deadline park full fin t w y
  assume ih: "\<And>c e deadline park full fin t w y. loop c e deadline park full fin t w = Some y \<Longrightarrow> revision_floor r w \<longrightarrow> revision_floor r (snd y)"
    and step: "(if fin then
        Some (case (case full of None \<Rightarrow> None | Some a \<Rightarrow> snd a) of
            None \<Rightarrow> Inr \<lparr>iw_last_renew = t, iw_parked = False\<rparr>
          | Some err \<Rightarrow> Inl err, w)
      else if deadline \<le> w_mono w then Some (Inr \<lparr>iw_last_renew = t, iw_parked = False\<rparr>, w)
      else if reached park (w_mono w) then Some (Inr \<lparr>iw_last_renew = t, iw_parked = True\<rparr>, w)
      else
        (let timer = w_mono w + wait_bound c deadline park t (w_mono w);
             wake = (case full of None \<Rightarrow> timer | Some a \<Rightarrow> max (w_mono w) (min (fst a) timer));
             (r, w1) = renew_lease_if_due c e t (sleep_until wake w)
         in case r of
              Inl err \<Rightarrow> Some (Inl err, w1)
            | Inr t \<Rightarrow> loop c e deadline park full (reached (map_option fst full) wake) t w1)) = Some y"
  show "revision_floor r w \<longrightarrow> revision_floor r (snd y)"
  proof
    assume w: "revision_floor r w"
    define wake where "wake = (case full of None \<Rightarrow> w_mono w + wait_bound c deadline park t (w_mono w)
       | Some a \<Rightarrow> max (w_mono w) (min (fst a) (w_mono w + wait_bound c deadline park t (w_mono w))))"
    obtain x w1 where x: "renew_lease_if_due c e t (sleep_until wake w) = (x, w1)" by (cases "renew_lease_if_due c e t (sleep_until wake w)")
    have w1: "revision_floor r w1" by (rule triple_keepD [OF keeps_renew sleep_floor [OF w] x])
    show "revision_floor r (snd y)"
    proof (cases "fin \<or> deadline \<le> w_mono w \<or> reached park (w_mono w)")
      case True
      with step w show ?thesis by (auto split: if_splits)
    next
      case False
      with step x [unfolded wake_def] have s: "(case x of Inl err \<Rightarrow> Some (Inl err, w1)
          | Inr u \<Rightarrow> loop c e deadline park full (reached (map_option fst full) wake) u w1) = Some y"
        unfolding wake_def by (simp add: Let_def)
      show ?thesis
      proof (cases x)
        case (Inl err)
        with s w1 show ?thesis by auto
      next
        case (Inr u)
        with s have "loop c e deadline park full (reached (map_option fst full) wake) u w1 = Some y" by simp
        from ih [OF this] w1 show ?thesis by simp
      qed
    qed
  qed
qed

lemma gather_step_inv: "gather_step c e s s' \<Longrightarrow> gather_inv c (snd s) \<Longrightarrow> gather_inv c (snd s')"
proof (induction rule: gather_step.induct)
  case (pass activation g r g')
  then show ?case using gather_pass_inv by simp
next
  case (signals g w batch r g')
  then show ?case using keeps_inv [OF keeps_batch suspended_inv] by auto
next
  case (slept g w d)
  then show ?case using suspended_inv by auto
next
  case (waited g w park arrival x w1 w2)
  then obtain r where r: "revision_floor r (g_orch g)" "books_ok c r g" by (auto simp: gather_inv_def)
  have "revision_floor r w1" using wait_floor [OF waited(2) [unfolded wait_for_inbox_def], of r] floor_suspended [OF r(1) waited(1)] by simp
  then have "revision_floor r w2" using floor_suspended waited(3) by blast
  with r(2) show ?case by (auto intro: gather_invI)
next
  case (wait_raised g w park arrival err w1)
  then obtain r where r: "revision_floor r (g_orch g)" "books_ok c r g" by (auto simp: gather_inv_def)
  have "revision_floor r w1" using wait_floor [OF wait_raised(2) [unfolded wait_for_inbox_def], of r] floor_suspended [OF r(1) wait_raised(1)] by simp
  with r(2) show ?case by (auto intro: gather_invI)
next
  case (drained g w queued late r' g' r)
  then show ?case using keeps_inv [OF keeps_drain_remaining suspended_inv] by auto
qed

lemma gather_reach_inv:
  assumes "gather_reach c e g0 ph g" and "gather_inv c g0"
  shows "gather_inv c g"
proof -
  have "gather_inv c (snd s')" if "(gather_step c e)\<^sup>*\<^sup>* (Planning, g0) s'" for s'
    using that assms(2) by (induction rule: rtranclp_induct) (auto dest: gather_step_inv)
  with assms(1) show ?thesis by (fastforce simp: gather_reach_def)
qed

section \<open>The loop begins with its books in order\<close>

definition marks_behind :: "revision \<Rightarrow> orch \<Rightarrow> bool" where
  "marks_behind r w \<longleftrightarrow> revision_floor r w \<and> (\<forall>oid rv. st_watermarks (w_store w) oid = Some rv \<longrightarrow> rv \<le> r)"

definition may_start :: "gather_config \<Rightarrow> gather_state \<Rightarrow> bool" where
  "may_start c g \<longleftrightarrow> (\<exists>r. marks_behind r (g_orch g)) \<and> breaker_ok (g_breaker g) \<and>
     (\<forall>oid. failure_ok c oid (g_failed g oid)) \<and> distinct (map op_id (g_gathering g))"

definition tables_ok :: "gather_config \<Rightarrow> gather_state \<Rightarrow> bool" where
  "tables_ok c g \<longleftrightarrow> breaker_ok (g_breaker g) \<and> (\<forall>oid. failure_ok c oid (g_failed g oid)) \<and> distinct (map op_id (g_gathering g))"

lemma tables_orch_free: "orch_free (tables_ok c)"
  by (simp add: orch_free_def tables_ok_def)

lemma marks_port: "triple (marks_behind r) f (\<lambda>_. marks_behind r) (marks_behind r) \<Longrightarrow> triple (marks_behind r) (port f) (\<lambda>_. marks_behind r) (marks_behind r)"
  by (rule triple_port) (auto simp: marks_behind_def revision_floor_def)

lemma marks_deadline: "triple (marks_behind r) (port (on_store (store_set_deadline t e))) (\<lambda>_. marks_behind r) (marks_behind r)"
  by (rule marks_port, rule triple_keepI)
    (auto simp: marks_behind_def revision_floor_def on_store_def store_set_deadline_def store_guard_epoch_def bindE_def split: if_splits)

lemma marks_read: "triple (marks_behind r) (port (\<lambda>w. (x w, w))) (\<lambda>_. marks_behind r) (marks_behind r)"
  by (rule marks_port, rule triple_keepI) auto

lemmas started_on_orch = triple_on_orch [OF _ tables_orch_free]

lemma budget_keeps:
  "triple (\<lambda>g. marks_behind r (g_orch g) \<and> tables_ok c g) (remaining_session_budget c e)
     (\<lambda>_ g. marks_behind r (g_orch g) \<and> tables_ok c g) (\<lambda>g. marks_behind r (g_orch g) \<and> tables_ok c g)"
proof (rule triple_keepI)
  let ?J = "\<lambda>g. marks_behind r (g_orch g) \<and> tables_ok c g"
  fix g x g'
  assume g: "?J g" and f: "remaining_session_budget c e g = (x, g')"
  have set_it: "?J g1" if g: "?J g" and f: "bindE (on_orch (port (on_store (store_set_deadline (w_now (g_orch g) + gc_session_deadline c) e))))
       (\<lambda>_. returnE (in_seconds (gc_session_deadline c))) g = (y, g1)" for g y g1
  proof -
    have "triple ?J (bindE (on_orch (port (on_store (store_set_deadline t e)))) (\<lambda>_. returnE d)) (\<lambda>_. ?J) ?J" for t and d :: seconds
      by (rule triple_bindE [OF started_on_orch [OF marks_deadline]]) (auto intro: triple_returnE)
    from triple_keepD [OF this g f] show "?J g1" .
  qed
  have "triple ?J (remaining_session_budget c e) (\<lambda>_. ?J) ?J"
    unfolding remaining_session_budget_def
  proof (rule triple_bindE [OF started_on_orch [OF marks_read]])
    fix stored :: "int option"
    let ?f = "\<lambda>g. case stored of
         Some deadline \<Rightarrow>
           if g_fresh_deadline g then
             bindE (on_orch (port (on_store (store_set_deadline (w_now (g_orch g) + gc_session_deadline c) e))))
               (\<lambda>_. returnE (in_seconds (gc_session_deadline c))) g
           else (Inr (in_seconds (deadline - w_now (g_orch g))), g)
       | None \<Rightarrow>
           bindE (on_orch (port (on_store (store_set_deadline (w_now (g_orch g) + gc_session_deadline c) e))))
             (\<lambda>_. returnE (in_seconds (gc_session_deadline c))) g"
    show "triple ?J ?f (\<lambda>_. ?J) ?J"
    proof (rule triple_keepI)
      fix g y g1
      assume g: "?J g" and f: "?f g = (y, g1)"
      show "?J g1"
      proof (cases "stored = None \<or> g_fresh_deadline g")
        case True
        with f have "bindE (on_orch (port (on_store (store_set_deadline (w_now (g_orch g) + gc_session_deadline c) e))))
           (\<lambda>_. returnE (in_seconds (gc_session_deadline c))) g = (y, g1)" by (cases stored) auto
        with g show ?thesis by (rule set_it)
      next
        case False
        with f g show ?thesis by auto
      qed
    qed
  qed
  from triple_keepD [OF this g f] show "?J g'" .
qed

definition starting :: "gather_config \<Rightarrow> revision \<Rightarrow> gather_state \<Rightarrow> bool" where
  "starting c r g \<longleftrightarrow> tables_ok c g \<and> g_running g = [] \<and> (\<forall>oid rv. g_watermarks g oid = Some rv \<longrightarrow> rv \<le> r)"

lemma starting_orch_free: "orch_free (starting c r)"
  by (simp add: orch_free_def starting_def tables_ok_def)

lemma marks_prime: "triple (marks_behind r) (prime_baseline rv) (\<lambda>_. marks_behind r) (marks_behind r)"
  unfolding prime_baseline_def
  by (rule marks_port, rule triple_keepI)
    (auto simp: marks_behind_def revision_floor_def prime_change_baseline_def split: prod.splits if_splits)

lemma load_keeps:
  "triple (\<lambda>g. marks_behind r (g_orch g) \<and> starting c r g) (load_watermarks xs)
     (\<lambda>_ g. marks_behind r (g_orch g) \<and> starting c r g) (\<lambda>g. marks_behind r (g_orch g) \<and> starting c r g)"
  unfolding load_watermarks_def
proof (rule triple_forE, rule triple_keepI)
  let ?J = "\<lambda>g. marks_behind r (g_orch g) \<and> starting c r g"
  fix x g y g'
  let ?read = "on_orch (port (\<lambda>w. (Inr (store_get_watermark (w_store w) (op_id x)), w)))"
  assume g: "?J g" and f: "bindE ?read (\<lambda>mark g. (Inr (), g\<lparr>g_watermarks := (g_watermarks g)(op_id x := mark)\<rparr>)) g = (y, g')"
  obtain z g1 where r: "?read g = (z, g1)" by (cases "?read g")
  have g1: "?J g1" by (rule triple_keepD [OF triple_on_orch [OF marks_read starting_orch_free] g r])
  have "store_get_watermark (w_store (g_orch g)) (op_id x) = mark" if "z = Inr mark" for mark
    using r that by (auto simp: on_orch_def port_def split: list.splits option.splits prod.splits)
  then have "rv \<le> r" if "z = Inr (Some rv)" for rv
    using g that by (auto simp: marks_behind_def store_get_watermark_def)
  with f r g1 show "?J g'" by (cases z) (auto simp: starting_def tables_ok_def split: if_splits)
qed

lemma gather_start_inv:
  assumes s: "may_start c g" and f: "gather_start c e g = (Inr (), g0)"
  shows "gather_inv c g0"
proof -
  from s obtain r where r: "marks_behind r (g_orch g)" and t: "tables_ok c g" by (auto simp: may_start_def tables_ok_def)
  let ?g = "g\<lparr>g_debounce := no_windows, g_retries := no_windows\<rparr>"
  have g: "marks_behind r (g_orch ?g) \<and> tables_ok c ?g" using r t by (simp add: tables_ok_def)
  obtain budget g1 where b: "remaining_session_budget c e ?g = (Inr budget, g1)"
    using f by (cases "remaining_session_budget c e ?g"; cases "fst (remaining_session_budget c e ?g)") (auto simp: gather_start_def Let_def)
  from triple_keepD [OF budget_keeps g b] have g1: "marks_behind r (g_orch g1) \<and> tables_ok c g1" .
  let ?g2 = "g1\<lparr>g_deadline := mono_now g + budget, g_running := [], g_last_renew := mono_now g1, g_watermarks := Map.empty\<rparr>"
  have g2: "marks_behind r (g_orch ?g2) \<and> starting c r ?g2" using g1 by (simp add: starting_def tables_ok_def)
  let ?rest = "bindE (load_watermarks (g_gathering g1)) (\<lambda>_ g. on_orch (forE prime_baseline (known_watermarks g)) g)"
  have rest: "?rest ?g2 = (Inr (), g0)" using f b by (simp add: gather_start_def Let_def)
  let ?J = "\<lambda>g. marks_behind r (g_orch g) \<and> starting c r g"
  have prime: "triple ?J (\<lambda>g. on_orch (forE prime_baseline (known_watermarks g)) g) (\<lambda>_. ?J) ?J" for u :: unit
  proof (rule triple_keepI)
    fix g x g'
    assume g: "?J g" and f: "on_orch (forE prime_baseline (known_watermarks g)) g = (x, g')"
    show "?J g'" by (rule triple_keepD [OF triple_on_orch [OF triple_forE [OF marks_prime] starting_orch_free] g f])
  qed
  have "triple ?J ?rest (\<lambda>_. ?J) ?J" by (rule triple_bindE [OF load_keeps prime])
  from triple_keepD [OF this g2 rest] have "?J g0" .
  then show ?thesis by (intro gather_invI [of r]) (simp add: marks_behind_def starting_def tables_ok_def books_ok_def)
qed

section \<open>Properties\<close>

text \<open>
  C16: one instance each, and a bounded number of runs. In every state the gathering loop can reach,
  whatever time, the other pods and the operators do while it is suspended and whatever fails, no
  operator runs twice at once, and the finished runs of an operator on a declared cycle together with
  the one in flight never exceed its \<open>max_cycles\<close>.
\<close>

theorem gather_cycle_budget:
  assumes "may_start c g" and "gather_start c e g = (Inr (), g0)" and "gather_reach c e g0 ph g'"
    and "cb_caps (g_breaker g') oid = Some cap"
  shows "distinct (map fst (g_running g')) \<and>
     breaker_runs oid (g_breaker g') + (if oid \<in> fst ` set (g_running g') then 1 else 0) \<le> max 0 cap"
proof -
  from gather_reach_inv [OF assms(3) gather_start_inv [OF assms(1,2)]]
  obtain r where b: "books_ok c r g'" by (auto simp: gather_inv_def)
  then have "breaker_runs oid (g_breaker g') \<le> max 0 cap" using assms(4) by (simp add: books_ok_def breaker_ok_def)
  moreover have "breaker_runs oid (g_breaker g') < cap" if "oid \<in> fst ` set (g_running g')"
    using b that assms(4) by (auto simp: books_ok_def is_tripped_def)
  ultimately have "breaker_runs oid (g_breaker g') + (if oid \<in> fst ` set (g_running g') then 1 else 0) \<le> max 0 cap" by force
  with b show ?thesis by (simp add: books_ok_def)
qed

text \<open>
  Also: nothing is marked as seen before it was. In every state the loop can reach, the watermark of an
  operator, and the revision a running operator will leave as its watermark, is at most the revision
  of the mirror, so what is merged later lies beyond it; and an operator with failed attempts on
  record has a retry policy with an attempt left.
\<close>

theorem gather_watermarks_behind:
  assumes "may_start c g" and "gather_start c e g = (Inr (), g0)" and "gather_reach c e g0 ph g'"
  shows "(\<forall>oid rv. g_watermarks g' oid = Some rv \<or> (oid, rv) \<in> set (g_running g') \<longrightarrow> rv \<le> mi_revision (or_mirror (g_orch g'))) \<and>
     (\<forall>oid n. g_failed g' oid = Some n \<longrightarrow> (\<exists>x p. operator_by_id (gc_run c) oid = Some x \<and> op_retry (op_policy x) = Some p \<and>
        1 \<le> n \<and> n < max_attempts p))"
proof -
  from gather_reach_inv [OF assms(3) gather_start_inv [OF assms(1,2)]]
  obtain r where r: "revision_floor r (g_orch g')" and b: "books_ok c r g'" by (auto simp: gather_inv_def)
  have "rv \<le> r" if "g_watermarks g' oid = Some rv \<or> (oid, rv) \<in> set (g_running g')" for oid rv
    using b that by (fastforce simp: books_ok_def)
  with r have 1: "rv \<le> mi_revision (or_mirror (g_orch g'))"
    if "g_watermarks g' oid = Some rv \<or> (oid, rv) \<in> set (g_running g')" for oid rv
    using that by (fastforce simp: revision_floor_def)
  have "failure_ok c oid (g_failed g' oid)" for oid using b by (simp add: books_ok_def)
  then have 2: "\<exists>x p. operator_by_id (gc_run c) oid = Some x \<and> op_retry (op_policy x) = Some p \<and> 1 \<le> n \<and> n < max_attempts p"
    if "g_failed g' oid = Some n" for oid n
    using that by (fastforce simp: failure_ok_def split: option.splits)
  from 1 2 show ?thesis by blast
qed

section \<open>A concrete run\<close>

definition demo_capped :: gather_state where
  "demo_capped = (demo_gather [demo_source])\<lparr>g_breaker := new_breaker [''source'' \<mapsto> 2]\<rparr>"

definition demo_started :: gather_state where
  "demo_started = demo_capped\<lparr>g_orch := (g_orch demo_capped)\<lparr>w_store := empty_session\<lparr>st_max_epoch := 1, st_deadline := Some 300000000\<rparr>\<rparr>\<rparr>"

lemma demo_start: "gather_start demo_gather_config 1 demo_capped = (Inr (), demo_started)"
  by (simp add: gather_start_def Let_def remaining_session_budget_def demo_capped_def demo_started_def demo_gather_defs on_orch_def port_def
     on_store_def bindE_def returnE_def store_set_deadline_def store_guard_epoch_def empty_session_def load_watermarks_def
     store_get_watermark_def known_watermarks_def in_seconds_def fun_upd_idem no_windows_def)

lemma demo_may_start: "may_start demo_gather_config demo_capped"
  by (auto simp: may_start_def demo_capped_def demo_gather_defs marks_behind_def revision_floor_def empty_session_def breaker_ok_def
    new_breaker_def breaker_runs_def failure_ok_def sample_mirror_def mirror_rehydrate_def new_mirror_def intro!: exI [of _ 0])

definition demo_launched :: gather_state where
  "demo_launched = demo_started\<lparr>g_prev_caps := [''source'' \<mapsto> []], g_running := [(''source'', 0)]\<rparr>"

lemma demo_drain: "on_orch (drain_inbox demo_config 1) demo_started = (Inr (), demo_started)"
  by (simp add: on_orch_def drain_inbox_def demo_started_def demo_capped_def demo_gather_defs port_def on_inbox_def inbox_reclaim_def
     inbox_consume_def new_inbox_def bindE_def returnE_def apply_valid_entries_def)

lemma demo_renew: "renew_in_loop demo_gather_config 1 demo_started = (Inr (), demo_started)"
  by (simp add: renew_in_loop_def renew_lease_if_due_def on_orch_def demo_started_def demo_capped_def demo_gather_defs bindE_def)

lemma demo_pass: "gather_pass demo_gather_config 1 (\<lambda>_. None) demo_started = (Inr AwaitSignals, demo_launched)"
proof -
  have r: "refresh_capabilities demo_gather_config 1 (\<lambda>_. None) [] demo_started = (Inr no_capabilities, demo_started)"
  by (simp add: refresh_capabilities_def refresh_def demo_started_def demo_capped_def demo_gather_defs activate_rounds.simps activation_ready_def new_activator_def
      preferred_order_def demo_catalog_def on_orch_def bindE_def returnE_def)
  have "gc_run demo_gather_config = demo_config" by (simp add: demo_gather_config_def)
  note this [simp]
  have d: "delta_for demo_gather_config x no_capabilities demo_started =
    Inr \<lparr>dt_added = [], dt_updated = [], dt_newly_available_caps = [], dt_is_first_invocation = True\<rparr>" for x
  by (simp add: delta_for_def operator_delta_def demo_started_def demo_capped_def demo_gather_def demo_orch_def demo_gather_config_def demo_config_def demo_view
      compute_delta_def no_capabilities_def)
  have p: "plan_one demo_gather_config [] no_capabilities sat demo_source (p, demo_started) =
     Inr (p\<lparr>gp_not_yet_run := gp_not_yet_run p @ [demo_source], gp_runnable := gp_runnable p @
       [\<lparr>ru_operator = demo_source, ru_delta = \<lparr>dt_added = [], dt_updated = [], dt_newly_available_caps = [],
         dt_is_first_invocation = True\<rparr>, ru_is_rerun = False, ru_is_retry = False\<rparr>]\<rparr>, demo_started)" for p sat
    using demo_readiness(1) 
    by (simp add: plan_one_def Let_def ready_now_def plan_ready_def d)
      (simp add: demo_started_def demo_capped_def demo_gather_def no_windows_def is_scheduled_def has_run_def is_tripped_def new_breaker_def breaker_runs_def demo_source_def sample_operator_def)
  have g: "g_gathering demo_started = [demo_source]" "or_mirror (g_orch demo_started) = sample_mirror" "mono_now demo_started < g_deadline demo_started"
    by (simp_all add: demo_started_def demo_capped_def demo_gather_def demo_orch_def)
  have "plan_and_launch demo_gather_config 1 (\<lambda>_. None) demo_started =
    (Inr (AwaitSignals, \<lparr>gp_runnable = [\<lparr>ru_operator = demo_source, ru_delta = \<lparr>dt_added = [], dt_updated = [], dt_newly_available_caps = [],
         dt_is_first_invocation = True\<rparr>, ru_is_rerun = False, ru_is_retry = False\<rparr>], gp_not_yet_run = [demo_source], gp_soonest_due = None\<rparr>, [], no_capabilities), demo_launched)"
   by (simp add: plan_and_launch_def g demo_view r make_plan_def p empty_plan_def demo_config_def)
    (simp add: decide_def launch_one_def Let_def demo_launched_def demo_started_def demo_capped_def demo_gather_def demo_source_def sample_operator_def no_capabilities_def)
  then show ?thesis using g(3) by (simp add: gather_pass_def demo_renew demo_drain returnE_def)
qed

theorem gather_cycle_budget_witness:
  "\<exists>g0 ph. gather_start demo_gather_config 1 demo_capped = (Inr (), g0) \<and> gather_reach demo_gather_config 1 g0 ph demo_launched \<and>
     breaker_runs ''source'' (g_breaker demo_launched) + 1 \<le> 2 \<and> ''source'' \<in> fst ` set (g_running demo_launched)"
proof -
  have "gather_step demo_gather_config 1 (Planning, demo_started) (after_pass (Inr AwaitSignals), demo_launched)"
    by (rule gather_step.pass [OF demo_pass])
  then have r: "gather_reach demo_gather_config 1 demo_started (Waiting AwaitSignals) demo_launched"
    by (simp add: gather_reach_def after_pass_def)
  have cap: "cb_caps (g_breaker demo_launched) ''source'' = Some 2"
    by (simp add: demo_launched_def demo_started_def demo_capped_def new_breaker_def)
  have run: "''source'' \<in> fst ` set (g_running demo_launched)" by (simp add: demo_launched_def)
  from gather_cycle_budget [OF demo_may_start demo_start r cap] demo_start r run show ?thesis by auto
qed

theorem gather_watermarks_behind_witness:
  "\<exists>g0 ph. gather_start demo_gather_config 1 demo_capped = (Inr (), g0) \<and> gather_reach demo_gather_config 1 g0 ph demo_launched \<and>
     (''source'', 0) \<in> set (g_running demo_launched) \<and> 0 \<le> mi_revision (or_mirror (g_orch demo_launched))"
proof -
  have "gather_step demo_gather_config 1 (Planning, demo_started) (after_pass (Inr AwaitSignals), demo_launched)"
    by (rule gather_step.pass [OF demo_pass])
  then have r: "gather_reach demo_gather_config 1 demo_started (Waiting AwaitSignals) demo_launched"
    by (simp add: gather_reach_def after_pass_def)
  have run: "(''source'', 0) \<in> set (g_running demo_launched)" by (simp add: demo_launched_def)
  from gather_watermarks_behind [OF demo_may_start demo_start r] demo_start r run show ?thesis by blast
qed

end
