(* ===== verification/Aggregation_Phase.thy ===== *)
theory Aggregation_Phase
  imports Gather_Loop Retry Durable
begin

text \<open>
  The aggregation phase of \<^verbatim>\<open>orcastork/orchestrator/orchestrator.py\<close>: \<^verbatim>\<open>_aggregate\<close>,
  \<^verbatim>\<open>_report_skipped_aggregator\<close> and \<^verbatim>\<open>_run_aggregator\<close> on the retry loop of \<open>Retry\<close>. What an
  attempt of an aggregator does is author code, the parameter \<open>drive\<close>; an attempt that runs into its
  timeout is one that raises. The launched aggregators run as concurrent tasks in the code; here they
  run one after the other in launch order, each to its own disposition, and share only the lists the
  code says they share.
\<close>

section \<open>Skipping an aggregator\<close>

fun join_names :: "string list \<Rightarrow> string" where
  "join_names [] = ''''"
| "join_names [n] = n"
| "join_names (n # m # ns) = n @ '', '' @ join_names (m # ns)"

definition report_skipped_aggregator ::
  "gather_config \<Rightarrow> epoch \<Rightarrow> pyclass list \<Rightarrow> pyclass list \<Rightarrow> operator_class \<Rightarrow> (orch, unit) op" where
  "report_skipped_aggregator c e present avail x =
     audit_operator_run c e (op_id x) SKIPPED 0 1 None
       (Some (''dependencies never materialized: '' @
          join_names (map cls_name (unsatisfied (op_depends_on x) present) @ map cls_name (unsatisfied (op_requires x) avail))))"

section \<open>Running an aggregator\<close>

type_synonym author_code = "operator_class \<Rightarrow> invocation_delta \<Rightarrow> (orch, unit) op"

definition on_durable :: "(durable_state, 'r) op \<Rightarrow> (orch, 'r) op" where
  "on_durable f w = (case f (w_durable w) of (r, d) \<Rightarrow> (r, w\<lparr>w_durable := d\<rparr>))"

text \<open>The state of the retry loop carries \<^verbatim>\<open>last_run_seconds\<close> from an attempt to its hook.\<close>

definition attempt_aggregator :: "(orch, unit) op \<Rightarrow> (gather_state \<times> seconds, unit) op" where
  "attempt_aggregator act st =
     (case act (g_orch (fst st)) of (r, w) \<Rightarrow> (r, ((fst st)\<lparr>g_orch := w\<rparr>, w_mono w - mono_now (fst st))))"

definition renew_now :: "gather_config \<Rightarrow> epoch \<Rightarrow> (orch, unit) op" where
  "renew_now c e w = port (on_lease (lock_renew (gc_lock_ttl c) (w_mono w) e)) w"

definition after_attempt ::
  "gather_config \<Rightarrow> epoch \<Rightarrow> operator_class \<Rightarrow> nat \<Rightarrow> orca_error option \<Rightarrow> (gather_state \<times> seconds, unit) op" where
  "after_attempt c e x n err st =
     (case bindE (on_orch (audit_operator_run c e (op_id x) (if err = None then SUCCEEDED else FAILED) 1 (int n) (Some (snd st))
              (map_option (rc_error_text (gc_run c)) err)))
            (\<lambda>_. on_orch (renew_now c e)) (fst st) of
        (r, g) \<Rightarrow> (r, (g, snd st)))"

definition backoff_sleep :: "real \<Rightarrow> (gather_state \<times> seconds, unit) op" where
  "backoff_sleep d st = (Inr (), ((fst st)\<lparr>g_orch := sleep_until (mono_now (fst st) + d) (g_orch (fst st))\<rparr>, snd st))"

definition contribute :: "gather_config \<Rightarrow> epoch \<Rightarrow> operator_id \<Rightarrow> (gather_state, unit) op" where
  "contribute c e oid =
     bindE (on_orch (port (on_durable (mark_contribution (rc_session (gc_run c)) oid e)))) (\<lambda>_ g.
       (Inr (), g\<lparr>g_runs := (g_runs g)(oid \<mapsto> count_of (g_runs g) oid + 1)\<rparr>))"

definition dead_letter :: "gather_config \<Rightarrow> epoch \<Rightarrow> operator_id \<Rightarrow> (gather_state, unit) op" where
  "dead_letter c e oid g =
     (let reason = rc_error_text (gc_run c) AggregatorDeadLetteredError in
      on_orch (audit_operator_run c e oid DEAD_LETTERED 1 (max_attempts (rc_retry_policy (gc_run c))) None (Some reason))
        (g\<lparr>g_dead_letters := g_dead_letters g @ [(oid, reason)]\<rparr>))"

definition run_aggregator ::
  "gather_config \<Rightarrow> epoch \<Rightarrow> author_code \<Rightarrow> capability_view \<Rightarrow> operator_class \<Rightarrow> (gather_state, unit) op" where
  "run_aggregator c e drive caps x g =
     (case operator_delta (mirror_snapshot (or_mirror (g_orch g)) (rc_session (gc_run c)))
             (mirror_change_set_since (or_mirror (g_orch g)) (rc_session (gc_run c))) None (map fst (cv_available caps)) [] of
        Inl err \<Rightarrow> (Inl err, g)
      | Inr delta \<Rightarrow>
          (case run_with_retry (gc_uniform c (op_id x)) (rc_retry_policy (gc_run c)) (attempt_aggregator (drive x delta))
                  (after_attempt c e x) backoff_sleep (g, 0) of
             (Inr _, st) \<Rightarrow> contribute c e (op_id x) (fst st)
           | (Inl err, st) \<Rightarrow>
               if err = AggregatorDeadLetteredError then dead_letter c e (op_id x) (fst st) else (Inl err, fst st)))"

section \<open>The phase\<close>

fun select_aggregators ::
  "gather_config \<Rightarrow> epoch \<Rightarrow> pyclass list \<Rightarrow> pyclass list \<Rightarrow> operator_class list \<Rightarrow> (gather_state, operator_class list) op" where
  "select_aggregators c e present avail [] = returnE []"
| "select_aggregators c e present avail (x # xs) =
     (if \<not> is_ready x present avail then
        bindE (on_orch (report_skipped_aggregator c e present avail x)) (\<lambda>_. select_aggregators c e present avail xs)
      else
        bindE (on_orch (port (\<lambda>w. (Inr (is_contribution_marked (rc_session (gc_run c)) (op_id x) (w_durable w)), w)))) (\<lambda>marked.
        bindE (select_aggregators c e present avail xs) (\<lambda>ys. returnE (if marked then ys else x # ys))))"

text \<open>Every launched aggregator runs to its own disposition; the failures are collected in order.\<close>

fun run_aggregators ::
  "gather_config \<Rightarrow> epoch \<Rightarrow> author_code \<Rightarrow> capability_view \<Rightarrow> operator_class list \<Rightarrow> gather_state \<Rightarrow> orca_error list \<times> gather_state" where
  "run_aggregators c e drive caps [] g = ([], g)"
| "run_aggregators c e drive caps (x # xs) g =
     (case run_aggregator c e drive caps x g of
        (r, g1) \<Rightarrow> (case run_aggregators c e drive caps xs g1 of
          (errs, g2) \<Rightarrow> (case r of Inl err \<Rightarrow> err # errs | Inr _ \<Rightarrow> errs, g2)))"

definition raise_first :: "orca_error list \<Rightarrow> gather_state \<Rightarrow> (orca_error + unit) \<times> gather_state" where
  "raise_first errs g = (if errs = [] then Inr () else if StaleEpochError \<in> set errs then Inl StaleEpochError else Inl (hd errs), g)"

definition aggregate ::
  "gather_config \<Rightarrow> epoch \<Rightarrow> (capability_id \<Rightarrow> string option) \<Rightarrow> author_code \<Rightarrow> (gather_state, unit) op" where
  "aggregate c e activation drive =
     bindE (on_orch (renew_now c e)) (\<lambda>_ g.
       (case mirror_snapshot (or_mirror (g_orch g)) (rc_session (gc_run c)) of
          Inl err \<Rightarrow> (Inl err, g)
        | Inr view \<Rightarrow>
            bindE (refresh_capabilities c e activation view) (\<lambda>caps.
            bindE (\<lambda>g. select_aggregators c e (present_types view) (available_types caps) (g_aggregators g) g) (\<lambda>xs g.
              case run_aggregators c e drive caps xs g of (errs, g1) \<Rightarrow> raise_first errs g1)) g))"

section \<open>What the phase keeps\<close>

text \<open>
  A property of the loop's state that no audit row, contribution mark, dead letter, lease renewal,
  counter, clock step or injected failure can break is kept by the whole phase, if the author's code
  keeps it.
\<close>

lemma retry_loop_keeps:
  assumes act: "\<And>st. J (fst st) \<Longrightarrow> J (fst (snd (act st)))" and hook: "\<And>n err st. J (fst st) \<Longrightarrow> J (fst (snd (hook n err st)))"
    and sleep: "\<And>d st. J (fst st) \<Longrightarrow> J (fst (snd (sleep d st)))"
  shows "J (fst st) \<Longrightarrow> J (fst (snd (retry_loop act hook sleep delays todo n st)))"
proof (induction todo arbitrary: n st)
  case (Suc todo)
  obtain r1 s1 where a: "act st = (r1, s1)" by (cases "act st")
  let ?err = "case r1 of Inl x \<Rightarrow> Some x | Inr _ \<Rightarrow> None"
  obtain r2 s2 where h: "hook (n + 1) ?err s1 = (r2, s2)" by (cases "hook (n + 1) ?err s1")
  obtain r3 s3 where z: "sleep (delays ! n) s2 = (r3, s3)" by (cases "sleep (delays ! n) s2")
  have 1: "J (fst s1)" using act [OF Suc.prems] a by simp
  have 2: "J (fst s2)" using hook [OF 1, of "n + 1" ?err] h by simp
  have 3: "J (fst s3)" using sleep [OF 2, of "delays ! n"] z by simp
  show ?case
  proof (cases r1)
    case (Inr u)
    with a h 2 show ?thesis by (cases r2) simp_all
  next
    case (Inl x)
    with a h z 2 3 Suc.IH [OF 2] Suc.IH [OF 3] show ?thesis by (cases r2; cases r3) simp_all
  qed
qed simp

locale aggregation_frame =
  fixes J :: "gather_state \<Rightarrow> bool"
  assumes faults_keep: "J g \<Longrightarrow> J (g\<lparr>g_orch := (g_orch g)\<lparr>w_faults := fs\<rparr>\<rparr>)"
    and row_keeps: "J g \<Longrightarrow> J (g\<lparr>g_orch := (g_orch g)\<lparr>w_audit := snd (audit_append entry (w_audit (g_orch g)))\<rparr>\<rparr>)"
    and renew_keeps: "J g \<Longrightarrow> J (g\<lparr>g_orch := (g_orch g)\<lparr>w_lock := snd (lock_renew ttl t e (w_lock (g_orch g)))\<rparr>\<rparr>)"
    and mark_keeps: "J g \<Longrightarrow> J (g\<lparr>g_orch := (g_orch g)\<lparr>w_durable := snd (mark_contribution sid oid e (w_durable (g_orch g)))\<rparr>\<rparr>)"
    and clock_keeps: "J g \<Longrightarrow> J (g\<lparr>g_orch := (g_orch g)\<lparr>w_mono := t, w_now := u\<rparr>\<rparr>)"
    and tables_keep: "J g \<Longrightarrow> J (g\<lparr>g_activator := a, g_activated_seen := cs, g_runs := rs\<rparr>)"
    and letter_keeps: "J g \<Longrightarrow> J (g\<lparr>g_dead_letters := g_dead_letters g @ [dl]\<rparr>)"
begin

abbreviation keep :: "(gather_state, 'r) op \<Rightarrow> bool" where
  "keep f \<equiv> triple J f (\<lambda>_. J) J"

lemma keep_snd: "keep f \<Longrightarrow> J g \<Longrightarrow> J (snd (f g))"
  by (metis prod.collapse triple_keepD)

lemma keep_bind: "keep m \<Longrightarrow> (\<And>x. keep (f x)) \<Longrightarrow> keep (bindE m f)"
  by (rule triple_bindE)

lemma keep_port:
  assumes "\<And>g. J g \<Longrightarrow> J (g\<lparr>g_orch := snd (m (g_orch g))\<rparr>)"
  shows "keep (on_orch (port m))"
proof (rule triple_keepI)
  fix g r g'
  assume g: "J g" and p: "on_orch (port m) g = (r, g')"
  have f: "J (g\<lparr>g_orch := snd (m ((g_orch g)\<lparr>w_faults := fs\<rparr>))\<rparr>)" for fs
    using assms [OF faults_keep [OF g, of fs]] by simp
  show "J g'"
  proof (cases "w_faults (g_orch g)")
    case Nil
    with p have "g' = g\<lparr>g_orch := snd (m (g_orch g))\<rparr>" by (auto simp: on_orch_def port_def split: prod.splits)
    with assms [OF g] show ?thesis by simp
  next
    case (Cons x fs)
    show ?thesis
    proof (cases x)
      case None
      with Cons p have "g' = g\<lparr>g_orch := snd (m ((g_orch g)\<lparr>w_faults := fs\<rparr>))\<rparr>" by (auto simp: on_orch_def port_def split: prod.splits)
      with f show ?thesis by simp
    next
      case (Some err)
      with Cons p have "g' = g\<lparr>g_orch := (g_orch g)\<lparr>w_faults := fs\<rparr>\<rparr>" by (auto simp: on_orch_def port_def)
      with faults_keep [OF g] show ?thesis by simp
    qed
  qed
qed

lemma keep_at:
  assumes "\<And>w. keep (on_orch (f w))"
  shows "keep (on_orch (\<lambda>w. f w w))"
proof (rule triple_keepI)
  fix g r g'
  assume "J g" and p: "on_orch (\<lambda>w. f w w) g = (r, g')"
  from p have "on_orch (f (g_orch g)) g = (r, g')" by (simp add: on_orch_def)
  with assms \<open>J g\<close> show "J g'" by (rule triple_keepD)
qed

lemma keep_read: "keep (on_orch (port (\<lambda>w. (f w, w))))"
  by (rule keep_port) simp

lemma keep_row: "keep (on_orch (port (on_audit (audit_append entry))))"
proof (rule keep_port)
  fix g
  assume "J g"
  from row_keeps [OF this] show "J (g\<lparr>g_orch := snd (on_audit (audit_append entry) (g_orch g))\<rparr>)"
    by (simp add: on_audit_def case_prod_beta)
qed

lemma keep_row_now: "keep (on_orch (\<lambda>w. port (on_audit (audit_append (entry (w_now w)))) w))"
  using keep_at [where f = "\<lambda>w. port (on_audit (audit_append (entry (w_now w))))"] keep_row by simp

lemma keep_renew: "keep (on_orch (renew_now c e))"
proof -
  have "keep (on_orch (port (on_lease (lock_renew ttl t e))))" for ttl t
  proof (rule keep_port)
    fix g
    assume "J g"
    from renew_keeps [OF this] show "J (g\<lparr>g_orch := snd (on_lease (lock_renew ttl t e) (g_orch g))\<rparr>)"
      by (simp add: on_lease_def case_prod_beta)
  qed
  with keep_at [where f = "\<lambda>w. port (on_lease (lock_renew (gc_lock_ttl c) (w_mono w) e))"] show ?thesis
    by (simp add: renew_now_def [abs_def])
qed

lemma keep_audit_run: "keep (on_orch (audit_operator_run c e oid outcome n k t err))"
  unfolding audit_operator_run_def [abs_def] by (rule keep_row_now)

lemma keep_forE: "(\<And>x. keep (on_orch (f x))) \<Longrightarrow> keep (on_orch (forE f xs))"
proof (induction xs)
  case (Cons x xs)
  have "on_orch (forE f (x # xs)) = bindE (on_orch (f x)) (\<lambda>_. on_orch (forE f xs))"
    by (rule ext) (simp add: on_orch_def bindE_def split: prod.splits sum.splits)
  with Cons show ?case by (simp add: keep_bind)
qed (simp add: on_orch_def returnE_def triple_def)

lemma keep_refresh: "keep (refresh_capabilities c e activation view)"
proof (rule triple_keepI)
  fix g r g'
  assume g: "J g" and rc: "refresh_capabilities c e activation view g = (r, g')"
  obtain caps a where rf: "refresh (gc_capability_registry c) (gc_catalog c) (rc_namespace (gc_run c)) (rc_retry_policy (gc_run c))
      (gc_activation_delays c) (mono_now g) (\<lambda>cid. activation cid = None) view (g_activator g) = (caps, a)" by force
  let ?failed = "drop (length (av_terminal_log (g_activator g))) (av_terminal_log a)"
  let ?fresh = "filter (\<lambda>cid. cid \<notin> set (g_activated_seen g)) (map fst (av_activated a))"
  let ?m = "bindE (on_orch (forE (\<lambda>cid. audit_terminal_activation_failure e cid
              (case activation cid of None \<Rightarrow> '''' | Some err \<Rightarrow> err)) ?failed)) (\<lambda>_.
         bindE (on_orch (forE (audit_capability e) ?fresh)) (\<lambda>_ g.
           (Inr caps, g\<lparr>g_activated_seen := g_activated_seen g @ ?fresh\<rparr>)))"
  have table: "J (h\<lparr>g_activator := a'\<rparr>)" "J (h\<lparr>g_activated_seen := cs\<rparr>)" if "J h" for h a' cs
    using tables_keep [OF that, where a = a' and cs = "g_activated_seen h" and rs = "g_runs h"]
      tables_keep [OF that, where a = "g_activator h" and cs = cs and rs = "g_runs h"] by simp_all
  have 1: "keep (on_orch (audit_terminal_activation_failure e cid err))" for cid err
    unfolding audit_terminal_activation_failure_def [abs_def] by (rule keep_row_now)
  have 2: "keep (on_orch (audit_capability e cid))" for cid
    unfolding audit_capability_def [abs_def] by (rule keep_row_now)
  have 3: "keep (\<lambda>g. (Inr caps, g\<lparr>g_activated_seen := g_activated_seen g @ ?fresh\<rparr>))"
    using table(2) by (simp add: triple_def)
  have "keep ?m" by (intro keep_bind keep_forE 1 2 3)
  moreover note table(1) [OF g]
  moreover have "?m (g\<lparr>g_activator := a\<rparr>) = (r, g')" using rc unfolding refresh_capabilities_def rf Let_def prod.case .
  ultimately show "J g'" by (rule triple_keepD)
qed

lemma keep_contribute: "keep (contribute c e oid)"
  unfolding contribute_def
proof (rule keep_bind)
  show "keep (on_orch (port (on_durable (mark_contribution (rc_session (gc_run c)) oid e))))"
  proof (rule keep_port)
    fix g
    assume "J g"
    from mark_keeps [OF this]
    show "J (g\<lparr>g_orch := snd (on_durable (mark_contribution (rc_session (gc_run c)) oid e) (g_orch g))\<rparr>)"
      by (simp add: on_durable_def case_prod_beta)
  qed
  have "J (g\<lparr>g_runs := rs\<rparr>)" if "J g" for g rs
    using tables_keep [OF that, where a = "g_activator g" and cs = "g_activated_seen g" and rs = rs] by simp
  then show "keep (\<lambda>g. (Inr (), g\<lparr>g_runs := (g_runs g)(oid \<mapsto> count_of (g_runs g) oid + 1)\<rparr>))" for u :: unit
    by (simp add: triple_def)
qed

lemma keep_dead_letter: "keep (dead_letter c e oid)"
proof (rule triple_keepI)
  fix g r g'
  assume "J g" and d: "dead_letter c e oid g = (r, g')"
  note k = triple_keepD [OF keep_audit_run letter_keeps [OF this(1)]]
  from d show "J g'" unfolding dead_letter_def Let_def by (rule k)
qed

lemma keep_after_attempt:
  assumes "J (fst st)"
  shows "J (fst (snd (after_attempt c e x n err st)))"
proof -
  let ?F = "bindE (on_orch (audit_operator_run c e (op_id x) (if err = None then SUCCEEDED else FAILED) 1 (int n) (Some (snd st))
              (map_option (rc_error_text (gc_run c)) err))) (\<lambda>_. on_orch (renew_now c e))"
  have "keep ?F" by (intro keep_bind keep_audit_run keep_renew)
  from keep_snd [OF this assms] show ?thesis by (simp add: after_attempt_def case_prod_beta)
qed

lemma keep_run_aggregator:
  assumes author: "\<And>x delta. keep (on_orch (drive x delta))"
  shows "keep (run_aggregator c e drive caps x)"
proof (rule triple_keepI)
  fix g r g'
  assume g: "J g" and ra: "run_aggregator c e drive caps x g = (r, g')"
  let ?delta = "operator_delta (mirror_snapshot (or_mirror (g_orch g)) (rc_session (gc_run c)))
             (mirror_change_set_since (or_mirror (g_orch g)) (rc_session (gc_run c))) None (map fst (cv_available caps)) []"
  show "J g'"
  proof (cases ?delta)
    case (Inl err)
    with ra g show ?thesis by (simp add: run_aggregator_def)
  next
    case (Inr delta)
    let ?retry = "run_with_retry (gc_uniform c (op_id x)) (rc_retry_policy (gc_run c)) (attempt_aggregator (drive x delta))
                  (after_attempt c e x) backoff_sleep (g, 0)"
    obtain r1 st where r: "?retry = (r1, st)" by (cases ?retry)
    have "J (fst (snd ?retry))" unfolding run_with_retry_def
    proof (rule retry_loop_keeps)
      show "J (fst (snd (attempt_aggregator (drive x delta) st)))" if "J (fst st)" for st
        using keep_snd [OF author that] by (simp add: attempt_aggregator_def on_orch_def case_prod_beta)
      show "J (fst (snd (backoff_sleep d st)))" if "J (fst st)" for d st
        using clock_keeps [OF that] by (simp add: backoff_sleep_def sleep_until_def)
    qed (use g in \<open>simp_all add: keep_after_attempt\<close>)
    then have st: "J (fst st)" by (simp add: r)
    note cd = triple_keepD [OF keep_contribute st] triple_keepD [OF keep_dead_letter st]
    show ?thesis
    proof (cases r1)
      case (Inr u)
      with ra \<open>?delta = Inr delta\<close> r have "contribute c e (op_id x) (fst st) = (r, g')" by (simp add: run_aggregator_def)
      then show ?thesis by (rule cd)
    next
      case (Inl err)
      with ra \<open>?delta = Inr delta\<close> r st show ?thesis
        by (cases "err = AggregatorDeadLetteredError") (auto simp: run_aggregator_def dest: cd)
    qed
  qed
qed

lemma keep_select: "keep (select_aggregators c e present avail xs)"
proof (induction xs)
  case (Cons x xs)
  have "keep (on_orch (report_skipped_aggregator c e present avail x))"
    unfolding report_skipped_aggregator_def by (rule keep_audit_run)
  then have "keep (bindE (on_orch (report_skipped_aggregator c e present avail x)) (\<lambda>_. select_aggregators c e present avail xs))"
    using Cons by (rule keep_bind)
  moreover have "keep (bindE (on_orch (port (\<lambda>w. (Inr (is_contribution_marked (rc_session (gc_run c)) (op_id x) (w_durable w)), w)))) (\<lambda>marked.
      bindE (select_aggregators c e present avail xs) (\<lambda>ys. returnE (if marked then ys else x # ys))))"
    by (intro keep_bind keep_read Cons triple_returnE)
  ultimately show ?case by simp
qed auto

lemma keep_run_aggregators:
  assumes "\<And>x delta. keep (on_orch (drive x delta))"
  shows "J g \<Longrightarrow> J (snd (run_aggregators c e drive caps xs g))"
proof (induction xs arbitrary: g)
  case (Cons x xs)
  obtain r g1 where 1: "run_aggregator c e drive caps x g = (r, g1)" by (cases "run_aggregator c e drive caps x g")
  with Cons.IH [OF triple_keepD [OF keep_run_aggregator [OF assms] Cons.prems 1]] show ?case by (simp add: case_prod_beta)
qed simp

lemma keep_aggregate:
  assumes "\<And>x delta. keep (on_orch (drive x delta))"
  shows "keep (aggregate c e activation drive)"
  unfolding aggregate_def
proof (rule keep_bind [OF keep_renew])
  let ?rest = "\<lambda>view. bindE (refresh_capabilities c e activation view) (\<lambda>caps.
            bindE (\<lambda>g. select_aggregators c e (present_types view) (available_types caps) (g_aggregators g) g) (\<lambda>xs g.
              case run_aggregators c e drive caps xs g of (errs, g1) \<Rightarrow> raise_first errs g1))"
  have select: "keep (\<lambda>g. select_aggregators c e present avail (g_aggregators g) g)" for present avail
    by (rule triple_keepI) (rule triple_keepD [OF keep_select])
  have launch: "keep (\<lambda>g. case run_aggregators c e drive caps xs g of (errs, g1) \<Rightarrow> raise_first errs g1)" for caps xs
  proof (rule triple_keepI)
    fix g r g'
    assume "J g" and ra: "(case run_aggregators c e drive caps xs g of (errs, g1) \<Rightarrow> raise_first errs g1) = (r, g')"
    then have "J (snd (run_aggregators c e drive caps xs g))" by (intro keep_run_aggregators assms)
    with ra show "J g'" by (auto simp: raise_first_def split: prod.splits)
  qed
  have rest: "keep (?rest view)" for view by (intro keep_bind keep_refresh select launch)
  show "keep (\<lambda>g. case mirror_snapshot (or_mirror (g_orch g)) (rc_session (gc_run c)) of
          Inl err \<Rightarrow> (Inl err, g) | Inr view \<Rightarrow> ?rest view g)" for u :: unit
  proof (rule triple_keepI)
    fix g r g'
    assume g: "J g" and m: "(case mirror_snapshot (or_mirror (g_orch g)) (rc_session (gc_run c)) of
          Inl err \<Rightarrow> (Inl err, g) | Inr view \<Rightarrow> ?rest view g) = (r, g')"
    show "J g'"
    proof (cases "mirror_snapshot (or_mirror (g_orch g)) (rc_session (gc_run c))")
      case (Inr view)
      with m have "?rest view g = (r, g')" by simp
      with rest g show ?thesis by (rule triple_keepD)
    qed (use m g in simp)
  qed
qed

end

section \<open>What only grows\<close>

text \<open>
  The contribution marks, the audit trail and the list of dead letters: no operation of the phase
  takes anything away from them. The author's code of an aggregator can do anything but that.
\<close>

definition grew :: "gather_state \<Rightarrow> gather_state \<Rightarrow> bool" where
  "grew g g' \<longleftrightarrow> set (du_contributions (w_durable (g_orch g))) \<subseteq> set (du_contributions (w_durable (g_orch g'))) \<and>
     set (au_committed (w_audit (g_orch g))) \<subseteq> set (au_committed (w_audit (g_orch g'))) \<and>
     set (g_dead_letters g) \<subseteq> set (g_dead_letters g') \<and> g_aggregators g' = g_aggregators g"

definition orch_grew :: "orch \<Rightarrow> orch \<Rightarrow> bool" where
  "orch_grew w w' \<longleftrightarrow> set (du_contributions (w_durable w)) \<subseteq> set (du_contributions (w_durable w')) \<and>
     set (au_committed (w_audit w)) \<subseteq> set (au_committed (w_audit w'))"

definition author_grows :: "author_code \<Rightarrow> bool" where
  "author_grows drive \<longleftrightarrow> (\<forall>x delta w. orch_grew w (snd (drive x delta w)))"

lemma grew_refl [simp]: "grew g g"
  by (simp add: grew_def)

lemma grew_trans: "grew g1 g2 \<Longrightarrow> grew g2 g3 \<Longrightarrow> grew g1 g3"
  by (auto simp: grew_def)

interpretation growing: aggregation_frame "grew g0" for g0
  by unfold_locales (auto simp: grew_def audit_append_def mark_contribution_def durable_guard_epoch_def bindE_def split: if_splits)

lemma author_keeps:
  assumes "author_grows drive"
  shows "growing.keep g0 (on_orch (drive x delta))"
proof (rule triple_keepI)
  fix g r g'
  assume g: "grew g0 g" and d: "on_orch (drive x delta) g = (r, g')"
  have "orch_grew (g_orch g) (snd (drive x delta (g_orch g)))" using assms by (simp add: author_grows_def)
  with g d show "grew g0 g'" by (auto simp: orch_grew_def grew_def on_orch_def split: prod.splits)
qed

lemma growingD: "growing.keep g f \<Longrightarrow> f g = (r, g') \<Longrightarrow> grew g g'"
  using triple_keepD [where I = "grew g" and f = f and w = g and r = r and w' = g'] by simp

section \<open>Every aggregator is accounted for\<close>

definition skipped_in_trail :: "epoch \<Rightarrow> operator_id \<Rightarrow> audit_state \<Rightarrow> bool" where
  "skipped_in_trail e oid a \<longleftrightarrow> (\<exists>row \<in> set (au_committed a). ae_epoch row = e \<and> ae_operator_id row = Some oid \<and>
     map_option oa_outcome (ae_operator row) = Some SKIPPED)"

definition accounted_for :: "gather_config \<Rightarrow> epoch \<Rightarrow> gather_state \<Rightarrow> operator_class \<Rightarrow> bool" where
  "accounted_for c e g x \<longleftrightarrow> is_contribution_marked (rc_session (gc_run c)) (op_id x) (w_durable (g_orch g)) \<or>
     op_id x \<in> fst ` set (g_dead_letters g) \<or> skipped_in_trail e (op_id x) (w_audit (g_orch g))"

lemma accounted_mono: "accounted_for c e g x \<Longrightarrow> grew g g' \<Longrightarrow> accounted_for c e g' x"
  by (auto simp: accounted_for_def grew_def is_contribution_marked_def skipped_in_trail_def)

lemma audit_run_trail:
  assumes "audit_operator_run c e oid outcome n k t err w = (Inr (), w')"
  shows "\<exists>row \<in> set (au_committed (w_audit w')). ae_epoch row = e \<and> ae_operator_id row = Some oid \<and>
     map_option oa_outcome (ae_operator row) = Some outcome"
  using assms
  by (auto simp: audit_operator_run_def port_def on_audit_def audit_append_def audit_row_def split: list.splits option.splits if_splits)

lemma skipped_accounted:
  assumes "on_orch (report_skipped_aggregator c e present avail x) g = (Inr (), g')"
  shows "accounted_for c e g' x"
  using assms audit_run_trail
  by (auto simp: report_skipped_aggregator_def on_orch_def accounted_for_def skipped_in_trail_def split: prod.splits)

lemma contribute_accounted:
  assumes "contribute c e (op_id x) g = (Inr (), g')"
  shows "accounted_for c e g' x"
  using assms
  by (auto simp: contribute_def bindE_def on_orch_def port_def on_durable_def mark_contribution_def durable_guard_epoch_def
      accounted_for_def is_contribution_marked_def split: prod.splits sum.splits list.splits option.splits if_splits)

lemma dead_letter_accounted:
  assumes "dead_letter c e (op_id x) g = (r, g')"
  shows "accounted_for c e g' x"
  using assms
  by (auto simp: dead_letter_def Let_def on_orch_def accounted_for_def split: prod.splits)

lemma run_aggregator_accounted:
  assumes "run_aggregator c e drive caps x g = (Inr (), g')"
  shows "accounted_for c e g' x"
proof -
  obtain delta where d: "operator_delta (mirror_snapshot (or_mirror (g_orch g)) (rc_session (gc_run c)))
             (mirror_change_set_since (or_mirror (g_orch g)) (rc_session (gc_run c))) None (map fst (cv_available caps)) [] = Inr delta"
    using assms by (auto simp: run_aggregator_def split: sum.splits)
  let ?retry = "run_with_retry (gc_uniform c (op_id x)) (rc_retry_policy (gc_run c)) (attempt_aggregator (drive x delta))
                  (after_attempt c e x) backoff_sleep (g, 0)"
  obtain r st where r: "?retry = (r, st)" by (cases ?retry)
  show ?thesis
  proof (cases r)
    case (Inl err)
    with assms d r have "err = AggregatorDeadLetteredError" "dead_letter c e (op_id x) (fst st) = (Inr (), g')"
      by (simp_all add: run_aggregator_def split: if_splits)
    with dead_letter_accounted show ?thesis by blast
  next
    case (Inr u)
    with assms d r have "contribute c e (op_id x) (fst st) = (Inr (), g')" by (simp add: run_aggregator_def)
    with contribute_accounted show ?thesis by blast
  qed
qed

lemma run_aggregators_accounted:
  assumes "author_grows drive"
  shows "run_aggregators c e drive caps xs g = ([], g') \<Longrightarrow> grew g g' \<and> (\<forall>x \<in> set xs. accounted_for c e g' x)"
proof (induction xs arbitrary: g)
  case (Cons x xs)
  obtain r g1 where 1: "run_aggregator c e drive caps x g = (r, g1)" by (cases "run_aggregator c e drive caps x g")
  with Cons.prems have r: "r = Inr ()" and rest: "run_aggregators c e drive caps xs g1 = ([], g')"
    by (auto split: prod.splits sum.splits)
  from Cons.IH [OF rest] have ih: "grew g1 g'" "\<forall>x \<in> set xs. accounted_for c e g' x" by simp_all
  have "grew g g1" by (rule growingD [OF growing.keep_run_aggregator [OF author_keeps [OF assms]] 1])
  moreover have "accounted_for c e g' x" by (rule accounted_mono [OF run_aggregator_accounted [OF 1 [unfolded r]] ih(1)])
  ultimately show ?case using grew_trans [OF _ ih(1)] ih(2) by auto
qed simp

lemma select_accounted:
  "select_aggregators c e present avail xs g = (Inr ys, g') \<Longrightarrow> x \<in> set xs \<Longrightarrow> x \<in> set ys \<or> accounted_for c e g' x"
proof (induction xs arbitrary: g ys)
  case (Cons z zs)
  let ?read = "on_orch (port (\<lambda>w. (Inr (is_contribution_marked (rc_session (gc_run c)) (op_id z) (w_durable w)), w)))"
  show ?case
  proof (cases "is_ready z present avail")
    case False
    with Cons.prems(1) obtain u g1 where 1: "on_orch (report_skipped_aggregator c e present avail z) g = (Inr u, g1)"
      and 2: "select_aggregators c e present avail zs g1 = (Inr ys, g')" by (auto elim: bindE_InrD)
    have "accounted_for c e g' z"
      by (rule accounted_mono [OF skipped_accounted growingD [OF growing.keep_select 2]]) (use 1 in simp)
    with Cons.IH [OF 2] Cons.prems(2) show ?thesis by auto
  next
    case True
    with Cons.prems(1) obtain marked g1 where 1: "?read g = (Inr marked, g1)"
      and 2: "bindE (select_aggregators c e present avail zs) (\<lambda>ys. returnE (if marked then ys else z # ys)) g1 = (Inr ys, g')"
      by (auto elim: bindE_InrD)
    from 2 obtain zs' where 3: "select_aggregators c e present avail zs g1 = (Inr zs', g')" and ys: "ys = (if marked then zs' else z # zs')"
      by (auto simp: returnE_def elim!: bindE_InrD)
    have "accounted_for c e g1 z" if marked
      using 1 that by (auto simp: on_orch_def port_def accounted_for_def split: prod.splits list.splits option.splits)
    then have "accounted_for c e g' z" if marked using that accounted_mono growingD [OF growing.keep_select 3] by blast
    with Cons.IH [OF 3] Cons.prems(2) ys show ?thesis by auto
  qed
qed simp

lemma growing_aggregate_parts:
  assumes "aggregate c e activation drive g = (Inr (), g')"
  obtains view caps g1 g2 g3 xs where "grew g g1" "refresh_capabilities c e activation view g1 = (Inr caps, g2)"
    "select_aggregators c e (present_types view) (available_types caps) (g_aggregators g2) g2 = (Inr xs, g3)"
    "run_aggregators c e drive caps xs g3 = ([], g')"
proof -
  obtain u g1 where 1: "on_orch (renew_now c e) g = (Inr u, g1)" and
    2: "(case mirror_snapshot (or_mirror (g_orch g1)) (rc_session (gc_run c)) of
          Inl err \<Rightarrow> (Inl err, g1)
        | Inr view \<Rightarrow>
            bindE (refresh_capabilities c e activation view) (\<lambda>caps.
            bindE (\<lambda>g. select_aggregators c e (present_types view) (available_types caps) (g_aggregators g) g) (\<lambda>xs g.
              case run_aggregators c e drive caps xs g of (errs, g1) \<Rightarrow> raise_first errs g1)) g1) = (Inr (), g')"
    using assms unfolding aggregate_def by (rule bindE_InrD)
  obtain view where view: "mirror_snapshot (or_mirror (g_orch g1)) (rc_session (gc_run c)) = Inr view"
    using 2 by (cases "mirror_snapshot (or_mirror (g_orch g1)) (rc_session (gc_run c))") simp_all
  obtain caps g2 where 3: "refresh_capabilities c e activation view g1 = (Inr caps, g2)" and
    4: "bindE (\<lambda>g. select_aggregators c e (present_types view) (available_types caps) (g_aggregators g) g) (\<lambda>xs g.
              case run_aggregators c e drive caps xs g of (errs, g1) \<Rightarrow> raise_first errs g1) g2 = (Inr (), g')"
    using 2 unfolding view sum.case by (rule bindE_InrD)
  obtain xs g3 where 5: "select_aggregators c e (present_types view) (available_types caps) (g_aggregators g2) g2 = (Inr xs, g3)"
    and 6: "(case run_aggregators c e drive caps xs g3 of (errs, g1) \<Rightarrow> raise_first errs g1) = (Inr (), g')"
    using 4 by (rule bindE_InrD)
  from 6 have "run_aggregators c e drive caps xs g3 = ([], g')" by (auto simp: raise_first_def split: prod.splits if_splits)
  moreover have "grew g g1" by (rule growingD [OF growing.keep_renew 1])
  ultimately show thesis using that 3 5 by blast
qed

lemma aggregate_accounted:
  assumes "author_grows drive" and "aggregate c e activation drive g = (Inr (), g')" and "x \<in> set (g_aggregators g)"
  shows "accounted_for c e g' x"
proof -
  obtain view caps g1 g2 g3 xs where p: "grew g g1" "refresh_capabilities c e activation view g1 = (Inr caps, g2)"
    "select_aggregators c e (present_types view) (available_types caps) (g_aggregators g2) g2 = (Inr xs, g3)"
    "run_aggregators c e drive caps xs g3 = ([], g')" by (rule growing_aggregate_parts [OF assms(2)])
  have "g_aggregators g2 = g_aggregators g" using p(1) growingD [OF growing.keep_refresh p(2)] by (simp add: grew_def)
  with select_accounted [OF p(3)] assms(3) have "x \<in> set xs \<or> accounted_for c e g3 x" by simp
  moreover note run_aggregators_accounted [OF assms(1) p(4)]
  ultimately show ?thesis using accounted_mono by blast
qed


text \<open>
  C17: no aggregator is lost. When the aggregation phase returns, every aggregator of the run has its
  contribution marked, or is among the dead letters, or has a row in the audit trail of this epoch
  that says it was skipped; whatever the aggregators do, except taking such records back, and
  whichever port calls fail on the way.
\<close>

theorem aggregate_accounts:
  assumes "author_grows drive" and "aggregate c e activation drive g = (Inr (), g')" and "x \<in> set (g_aggregators g)"
  shows "is_contribution_marked (rc_session (gc_run c)) (op_id x) (w_durable (g_orch g')) \<or>
     op_id x \<in> fst ` set (g_dead_letters g') \<or> skipped_in_trail e (op_id x) (w_audit (g_orch g'))"
  using aggregate_accounted [OF assms] by (simp add: accounted_for_def)

section \<open>A concrete phase\<close>

definition demo_aggregation :: gather_state where
  "demo_aggregation = (demo_gather [])\<lparr>g_orch := demo_holder\<lparr>w_inbox := new_inbox\<rparr>, g_aggregators := [demo_source, demo_sink]\<rparr>"

definition demo_skipped :: gather_state where
  "demo_skipped = snd (on_orch (report_skipped_aggregator demo_gather_config 1 [] [] demo_sink) demo_aggregation)"

lemmas demo_phase_defs = demo_aggregation_def demo_gather_def demo_orch_def demo_gather_config_def demo_config_def demo_holder_def
  new_durable_def new_audit_def on_orch_def port_def on_lease_def lock_renew_def is_live_def renew_now_def bindE_def returnE_def

lemmas demo_trail_defs = report_skipped_aggregator_def audit_operator_run_def on_audit_def audit_append_def audit_row_def

lemma demo_aggregation_parts:
  "on_orch (renew_now demo_gather_config 1) demo_aggregation = (Inr (), demo_aggregation)"
  "mirror_snapshot (or_mirror (g_orch demo_aggregation)) (rc_session (gc_run demo_gather_config)) = Inr []"
  "g_aggregators demo_aggregation = [demo_source, demo_sink]"
  by (simp_all add: demo_phase_defs demo_view [simplified])

lemma demo_aggregation_refresh:
  "refresh_capabilities demo_gather_config 1 activation [] demo_aggregation = (Inr no_capabilities, demo_aggregation)"
  by (simp add: refresh_capabilities_def refresh_def demo_phase_defs no_capabilities_def activate_rounds.simps activation_ready_def
     new_activator_def preferred_order_def demo_catalog_def)

lemma available_no_capabilities: "available_types no_capabilities = []"
  by (simp add: no_capabilities_def available_types_def)

lemma demo_select: "select_aggregators demo_gather_config 1 [] [] [demo_source, demo_sink] demo_aggregation = (Inr [demo_source], demo_skipped)"
proof -
  have "is_ready demo_source [] []" "\<not> is_ready demo_sink [] []"
    by (simp_all add: is_ready_iff admits_def deps_reachable_def caps_available_def demo_source_def demo_sink_def sample_operator_def)
  then show ?thesis by (simp add: demo_skipped_def demo_phase_defs demo_trail_defs is_contribution_marked_def)
qed

lemma demo_run: "\<exists>g. run_aggregator demo_gather_config 1 (\<lambda>_ _. returnE ()) no_capabilities demo_source demo_skipped = (Inr (), g)"
  by (simp add: demo_phase_defs demo_trail_defs demo_skipped_def run_aggregator_def demo_view [simplified] operator_delta_def
     compute_delta_def no_capabilities_def run_with_retry_def attempt_aggregator_def after_attempt_def contribute_def on_durable_def
     mark_contribution_def durable_guard_epoch_def scope_epoch_def)

theorem aggregate_accounts_witness:
  "\<exists>g. aggregate demo_gather_config 1 (\<lambda>_. None) (\<lambda>_ _. returnE ()) demo_aggregation = (Inr (), g) \<and>
     (is_contribution_marked ''s'' ''source'' (w_durable (g_orch g)) \<or> ''source'' \<in> fst ` set (g_dead_letters g) \<or>
      skipped_in_trail 1 ''source'' (w_audit (g_orch g)))"
proof -
  obtain g where "run_aggregator demo_gather_config 1 (\<lambda>_ _. returnE ()) no_capabilities demo_source demo_skipped = (Inr (), g)"
    using demo_run by blast
  then have a: "aggregate demo_gather_config 1 (\<lambda>_. None) (\<lambda>_ _. returnE ()) demo_aggregation = (Inr (), g)"
    by (simp add: aggregate_def demo_aggregation_parts demo_aggregation_refresh demo_select present_types_def available_no_capabilities
      raise_first_def bindE_def del: select_aggregators.simps)
  have o: "op_id demo_source = ''source''" "rc_session (gc_run demo_gather_config) = ''s''"
    by (simp_all add: demo_source_def sample_operator_def demo_gather_config_def demo_config_def)
  have n: "author_grows (\<lambda>_ _. returnE ())" by (simp add: author_grows_def orch_grew_def returnE_def)
  have "demo_source \<in> set (g_aggregators demo_aggregation)" by (simp add: demo_aggregation_parts)
  from aggregate_accounts [OF n a this] a show ?thesis unfolding o by blast
qed

end
