(* ===== verification/Cycles.thy ===== *)
theory Cycles
  imports Dependency_Graph
begin

text \<open>
  Cycle detection and the bounded-cycle rule, \<^verbatim>\<open>orcastork/graph/cycles.py\<close>: Tarjan's algorithm
  with the closure's variables as an explicit state, the deploy-time check that rejects an unbounded
  cycle, and the circuit breaker the orchestrator builds from the same cycles.

  The recursion of \<^verbatim>\<open>strongconnect\<close> carries fuel, one unit for each level of the call stack; the
  first section shows that the number of nodes is always enough. Python's sets of successors have no
  order; here they are lists, and the lemmas hold for every order.
\<close>

section \<open>Tarjan's algorithm\<close>

record tarjan =
  tj_counter :: int
  tj_indices :: "node \<rightharpoonup> int"
  tj_lowlinks :: "node \<rightharpoonup> int"
  tj_stack :: "node list"
  tj_on_stack :: "node list"
  tj_cycles :: "node list list"

definition new_tarjan :: tarjan where
  "new_tarjan = \<lparr>tj_counter = 0, tj_indices = Map.empty, tj_lowlinks = Map.empty, tj_stack = [], tj_on_stack = [], tj_cycles = []\<rparr>"

definition successors_of :: "graph_edges \<Rightarrow> node \<Rightarrow> node list" where
  "successors_of g n = (case map_of g n of None \<Rightarrow> [] | Some ys \<Rightarrow> ys)"

definition number_of :: "(node \<rightharpoonup> int) \<Rightarrow> node \<Rightarrow> int" where
  "number_of m n = (case m n of None \<Rightarrow> 0 | Some i \<Rightarrow> i)"

definition visit :: "node \<Rightarrow> tarjan \<Rightarrow> tarjan" where
  "visit n s = s\<lparr>tj_indices := (tj_indices s)(n \<mapsto> tj_counter s), tj_lowlinks := (tj_lowlinks s)(n \<mapsto> tj_counter s),
     tj_counter := tj_counter s + 1, tj_stack := n # tj_stack s, tj_on_stack := n # tj_on_stack s\<rparr>"

definition lower :: "node \<Rightarrow> int \<Rightarrow> tarjan \<Rightarrow> tarjan" where
  "lower n i s = s\<lparr>tj_lowlinks := (tj_lowlinks s)(n \<mapsto> min (number_of (tj_lowlinks s) n) i)\<rparr>"

text \<open>The top of the stack is the head of the list.\<close>

definition pop_component :: "graph_edges \<Rightarrow> node \<Rightarrow> tarjan \<Rightarrow> tarjan" where
  "pop_component g n s =
     (let component = takeWhile (\<lambda>m. m \<noteq> n) (tj_stack s) @ [n];
          s1 = s\<lparr>tj_stack := tl (dropWhile (\<lambda>m. m \<noteq> n) (tj_stack s)),
                 tj_on_stack := filter (\<lambda>m. m \<notin> set component) (tj_on_stack s)\<rparr>
      in if 1 < length component \<or> n \<in> set (successors_of g n) then s1\<lparr>tj_cycles := tj_cycles s1 @ [component]\<rparr> else s1)"

fun strongconnect :: "nat \<Rightarrow> graph_edges \<Rightarrow> node \<Rightarrow> tarjan \<Rightarrow> tarjan option"
  and connect_successors :: "nat \<Rightarrow> graph_edges \<Rightarrow> node \<Rightarrow> node list \<Rightarrow> tarjan \<Rightarrow> tarjan option" where
  "strongconnect 0 g n s = None"
| "strongconnect (Suc fuel) g n s =
     (case connect_successors fuel g n (successors_of g n) (visit n s) of
        None \<Rightarrow> None
      | Some s1 \<Rightarrow> Some (if number_of (tj_lowlinks s1) n = number_of (tj_indices s1) n then pop_component g n s1 else s1))"
| "connect_successors fuel g n [] s = Some s"
| "connect_successors fuel g n (m # ms) s =
     (if tj_indices s m = None then
        (case strongconnect fuel g m s of
           None \<Rightarrow> None
         | Some s1 \<Rightarrow> connect_successors fuel g n ms (lower n (number_of (tj_lowlinks s1) m) s1))
      else if m \<in> set (tj_on_stack s) then connect_successors fuel g n ms (lower n (number_of (tj_indices s) m) s)
      else connect_successors fuel g n ms s)"

definition graph_nodes :: "graph_edges \<Rightarrow> node list" where
  "graph_nodes g = remdups (map fst g @ concat (map snd g))"

fun connect_all :: "graph_edges \<Rightarrow> node list \<Rightarrow> tarjan \<Rightarrow> tarjan option" where
  "connect_all g [] s = Some s"
| "connect_all g (n # ns) s =
     (if tj_indices s n \<noteq> None then connect_all g ns s
      else case strongconnect (length (graph_nodes g)) g n s of None \<Rightarrow> None | Some s1 \<Rightarrow> connect_all g ns s1)"

definition find_cycles :: "graph_edges \<Rightarrow> node list list" where
  "find_cycles g = (case connect_all g (map fst g) new_tarjan of None \<Rightarrow> [] | Some s \<Rightarrow> tj_cycles s)"

section \<open>The bounded-cycle rule\<close>

fun operators_on :: "node list \<Rightarrow> operator_class list" where
  "operators_on [] = []"
| "operators_on (OpNode x # ns) = x # operators_on ns"
| "operators_on (CapNode c # ns) = operators_on ns"

fun validate_cycles :: "node list list \<Rightarrow> orca_error + unit" where
  "validate_cycles [] = Inr ()"
| "validate_cycles (cycle # cycles) =
     (if operators_on cycle = [] then Inl UnboundedCycleError
      else if (\<exists>x \<in> set (operators_on cycle). max_cycles (op_policy x) = None) then Inl UnboundedCycleError
      else validate_cycles cycles)"

definition validate_acyclic_or_bounded :: "graph_edges \<Rightarrow> orca_error + unit" where
  "validate_acyclic_or_bounded g = validate_cycles (find_cycles g)"

definition cycle_caps :: "node list list \<Rightarrow> operator_id \<rightharpoonup> int" where
  "cycle_caps cycles = foldl (\<lambda>caps x. case max_cycles (op_policy x) of None \<Rightarrow> caps | Some k \<Rightarrow> caps(op_id x \<mapsto> k))
     Map.empty (concat (map operators_on cycles))"

definition build_circuit_breaker :: "dp_registry \<Rightarrow> operator_class list \<Rightarrow> capability_class list \<Rightarrow> circuit_breaker" where
  "build_circuit_breaker reg gathering caps = new_breaker (cycle_caps (find_cycles (build_graph reg gathering caps)))"

section \<open>The recursion ends\<close>

definition unvisited :: "graph_edges \<Rightarrow> tarjan \<Rightarrow> node set" where
  "unvisited g s = {n \<in> set (graph_nodes g). tj_indices s n = None}"

definition closed_in :: "graph_edges \<Rightarrow> node \<Rightarrow> bool" where
  "closed_in g n \<longleftrightarrow> n \<in> set (graph_nodes g)"

lemma successors_closed:
  assumes "m \<in> set (successors_of g n)"
  shows "closed_in g m"
proof -
  from assms obtain ys where ys: "map_of g n = Some ys" "m \<in> set ys"
    by (cases "map_of g n") (simp_all add: successors_of_def)
  from map_of_SomeD [OF ys(1)] ys(2) show ?thesis by (force simp: closed_in_def graph_nodes_def)
qed

lemma frames [simp]:
  "tj_indices (lower n i s) = tj_indices s" "tj_indices (pop_component g n s) = tj_indices s"
  by (simp_all add: lower_def pop_component_def Let_def)

lemma unvisited_visit: "closed_in g n \<Longrightarrow> tj_indices s n = None \<Longrightarrow> card (unvisited g (visit n s)) < card (unvisited g s)"
  by (rule psubset_card_mono) (auto simp: unvisited_def visit_def closed_in_def)

lemma unvisited_mono:
  assumes "dom (tj_indices s) \<subseteq> dom (tj_indices s1)"
  shows "card (unvisited g s1) \<le> card (unvisited g s)"
  by (rule card_mono) (use assms in \<open>auto simp: unvisited_def\<close>)

lemma connect_total:
  "closed_in g n \<Longrightarrow> tj_indices s n = None \<Longrightarrow> card (unvisited g s) \<le> fuel \<Longrightarrow>
     \<exists>s1. strongconnect fuel g n s = Some s1 \<and> insert n (dom (tj_indices s)) \<subseteq> dom (tj_indices s1)"
  "(\<forall>m \<in> set ms. closed_in g m) \<Longrightarrow> card (unvisited g s) \<le> fuel \<Longrightarrow>
     \<exists>s1. connect_successors fuel g n ms s = Some s1 \<and> dom (tj_indices s) \<subseteq> dom (tj_indices s1)"
proof (induction fuel g n s and fuel g n ms s rule: strongconnect_connect_successors.induct)
  case (1 g n s)
  then have "n \<in> unvisited g s" "finite (unvisited g s)" by (simp_all add: unvisited_def closed_in_def)
  with 1(3) show ?case by auto
next
  case (2 fuel g n s)
  have "card (unvisited g (visit n s)) \<le> fuel" using unvisited_visit [OF 2(2,3)] 2(4) by simp
  from 2(1) [OF _ this] successors_closed obtain s1 where
    "connect_successors fuel g n (successors_of g n) (visit n s) = Some s1" "dom (tj_indices (visit n s)) \<subseteq> dom (tj_indices s1)" by blast
  then show ?case by (auto simp: visit_def)
next
  case (3 fuel g n s)
  then show ?case by simp
next
  case (4 fuel g n m ms s)
  have m: "closed_in g m" "\<forall>m \<in> set ms. closed_in g m" using 4(5) by simp_all
  show ?case
  proof (cases "tj_indices s m")
    case None
    from 4(1) [OF None m(1) None 4(6)] obtain s1 where s1: "strongconnect fuel g m s = Some s1"
      "insert m (dom (tj_indices s)) \<subseteq> dom (tj_indices s1)" by blast
    then have "card (unvisited g (lower n (number_of (tj_lowlinks s1) m) s1)) \<le> fuel"
      using unvisited_mono [of s s1 g] 4(6) by (simp add: unvisited_def)
    from 4(2) [OF None s1(1) m(2) this] s1 None show ?thesis by auto
  next
    case (Some i)
    show ?thesis
    proof (cases "m \<in> set (tj_on_stack s)")
      case True
      have "card (unvisited g (lower n (number_of (tj_indices s) m) s)) \<le> fuel" using 4(6) by (simp add: unvisited_def)
      from 4(3) [OF _ True m(2) this] Some True show ?thesis by auto
    next
      case False
      from 4(4) [OF _ False m(2) 4(6)] Some False show ?thesis by auto
    qed
  qed
qed

lemma unvisited_bound: "card (unvisited g s) \<le> length (graph_nodes g)"
proof -
  have "card (unvisited g s) \<le> card (set (graph_nodes g))" by (rule card_mono) (auto simp: unvisited_def)
  also have "\<dots> \<le> length (graph_nodes g)" by (rule card_length)
  finally show ?thesis .
qed

lemma connect_all_total: "\<forall>n \<in> set ns. closed_in g n \<Longrightarrow> \<exists>s1. connect_all g ns s = Some s1 \<and> set ns \<union> dom (tj_indices s) \<subseteq> dom (tj_indices s1)"
proof (induction ns arbitrary: s)
  case (Cons n ns)
  show ?case
  proof (cases "tj_indices s n")
    case None
    have "closed_in g n" using Cons.prems by simp
    from connect_total(1) [OF this None unvisited_bound] obtain s1 where
      s1: "strongconnect (length (graph_nodes g)) g n s = Some s1" "insert n (dom (tj_indices s)) \<subseteq> dom (tj_indices s1)" by blast
    from Cons.IH [of s1] Cons.prems obtain s2 where "connect_all g ns s1 = Some s2" "set ns \<union> dom (tj_indices s1) \<subseteq> dom (tj_indices s2)"
      by auto
    moreover from s1 None this(1) have "connect_all g (n # ns) s = Some s2" by simp
    ultimately show ?thesis using s1(2) by (intro exI [of _ s2] conjI) (simp_all, blast)
  next
    case (Some i)
    from Cons.IH [of s] Cons.prems obtain s1 where r: "connect_all g ns s = Some s1" "set ns \<union> dom (tj_indices s) \<subseteq> dom (tj_indices s1)"
      by auto
    from Some have "n \<in> dom (tj_indices s)" by blast
    with r Some show ?thesis by (intro exI [of _ s1] conjI) (simp_all, blast)
  qed
qed simp

text \<open>
  C18: cycle detection terminates with every node examined: the recursion never runs out of the fuel,
  whatever the graph, so its result is that of the code.
\<close>

theorem find_cycles_terminates:
  "\<exists>s. connect_all g (map fst g) new_tarjan = Some s \<and> find_cycles g = tj_cycles s \<and> fst ` set g \<subseteq> dom (tj_indices s)"
proof -
  have "\<forall>n \<in> set (map fst g). closed_in g n" by (simp add: closed_in_def graph_nodes_def)
  from connect_all_total [OF this, of new_tarjan] show ?thesis by (auto simp: find_cycles_def)
qed

section \<open>What an accepted graph gives the run\<close>

lemma validate_cycles_Inr:
  "validate_cycles cycles = Inr () \<longleftrightarrow>
     (\<forall>cycle \<in> set cycles. operators_on cycle \<noteq> [] \<and> (\<forall>x \<in> set (operators_on cycle). max_cycles (op_policy x) \<noteq> None))"
  by (induction cycles) auto

lemma caps_fold:
  assumes "caps oid \<noteq> None \<or> (\<exists>x \<in> set xs. op_id x = oid \<and> max_cycles (op_policy x) \<noteq> None)"
  shows "foldl (\<lambda>caps x. case max_cycles (op_policy x) of None \<Rightarrow> caps | Some k \<Rightarrow> caps(op_id x \<mapsto> k)) caps xs oid \<noteq> None"
  using assms
proof (induction xs arbitrary: caps)
  case (Cons y ys)
  show ?case unfolding foldl_Cons
    by (rule Cons.IH) (use Cons.prems in \<open>auto split: option.split\<close>)
qed simp


text \<open>A loop of two capped operators, and one without a cap.\<close>

definition demo_ping :: "int option \<Rightarrow> operator_class" where
  "demo_ping k = (sample_operator ''ping'' [PyClass ''Pong'' []] [PyClass ''Ping'' []] [])
     \<lparr>op_policy := \<lparr>rerun_on_new_data = True, rerun_on = ADDED_OR_UPDATED, debounce = None, max_cycles = k, op_timeout = None, op_retry = None\<rparr>\<rparr>"

definition demo_pong :: operator_class where
  "demo_pong = (sample_operator ''pong'' [PyClass ''Ping'' []] [PyClass ''Pong'' []] [])
     \<lparr>op_policy := \<lparr>rerun_on_new_data = True, rerun_on = ADDED_OR_UPDATED, debounce = None, max_cycles = Some 3, op_timeout = None, op_retry = None\<rparr>\<rparr>"

lemma demo_ping_graph:
  "build_graph empty_registry [demo_ping k, demo_pong] [] = [(OpNode (demo_ping k), [OpNode demo_pong]), (OpNode demo_pong, [OpNode (demo_ping k)])]"
  by (simp add: build_graph_def data_edges_def requirement_edges_def add_edge_def demo_ping_def demo_pong_def sample_operator_def
      effective_produces_def empty_registry_def feeds_type_def issubclass_def)

lemma demo_distinct [simp]: "demo_ping k \<noteq> demo_pong" "demo_pong \<noteq> demo_ping k"
  by (auto simp: demo_ping_def demo_pong_def sample_operator_def)

lemma demo_cycles:
  "find_cycles (build_graph empty_registry [demo_ping k, demo_pong] []) = [[OpNode demo_pong, OpNode (demo_ping k)]]"
  by (simp add: demo_ping_graph find_cycles_def graph_nodes_def successors_of_def visit_def lower_def number_of_def pop_component_def
      new_tarjan_def)

lemma demo_caps: "max_cycles (op_policy (demo_ping k)) = k" "max_cycles (op_policy demo_pong) = Some 3"
  by (simp_all add: demo_ping_def demo_pong_def sample_operator_def)


end
