(* ===== verification/Session_Run.thy ===== *)
theory Session_Run
  imports Aggregation_Phase Cycles
begin

text \<open>
  One run of a session, \<^verbatim>\<open>run\<close> of \<^verbatim>\<open>orcastork/orchestrator/orchestrator.py\<close>, from acquiring
  the fencing epoch to releasing it: the constructor's defaults, gating and drift detection, the
  seed, the drain-before-release loop, and the exits (completed, parked, superseded, or an error
  after the backstop flush and the release).

  The gathering loop of a round is the parameter \<open>rd_gather\<close>, an arbitrary operation: whatever it
  does to the state, what is proved of the rest of the run holds. (\<open>Gather_Loop\<close> is about what it
  does.) So are the author's aggregators, and what other parties deliver to the inbox while the
  flush is under way and after the last check. A step of the completion tail that does not finish
  within its bound is one that raises \<^verbatim>\<open>TimeoutError\<close>; the port that fails that way is one of
  the injected failures. A round with no end is \<open>None\<close>.
\<close>

section \<open>The constructor\<close>

record tuning =
  tu_operation_timeout :: "seconds option"
  tu_session_deadline :: "int option"
  tu_park_after :: "seconds option"
  tu_lease_renew_interval :: seconds
  tu_max_inbox_deliveries :: "int option"
  tu_emission_queue_size :: "int option"
  tu_retry_policy :: "retry_policy option"

definition default_operation_timeout :: seconds where
  "default_operation_timeout = 30"

definition default_session_deadline :: int where
  "default_session_deadline = 300000000"

definition default_lease_renew_interval :: seconds where
  "default_lease_renew_interval = 10"

definition default_max_inbox_deliveries :: int where
  "default_max_inbox_deliveries = 5"

definition default_emission_queue_size :: int where
  "default_emission_queue_size = 1024"

definition or_default :: "'a \<Rightarrow> 'a option \<Rightarrow> 'a" where
  "or_default d x = (case x of None \<Rightarrow> d | Some v \<Rightarrow> v)"

definition emission_queue_size :: "tuning \<Rightarrow> int" where
  "emission_queue_size t =
     (case tu_emission_queue_size t of
        None \<Rightarrow> default_emission_queue_size
      | Some n \<Rightarrow> if n \<le> 0 then default_emission_queue_size else n)"

definition apply_tuning :: "retry_policy \<Rightarrow> tuning \<Rightarrow> gather_config \<Rightarrow> gather_config" where
  "apply_tuning default_policy t c = c\<lparr>
     gc_run := (gc_run c)\<lparr>rc_max_inbox_deliveries := or_default default_max_inbox_deliveries (tu_max_inbox_deliveries t),
                           rc_retry_policy := or_default default_policy (tu_retry_policy t)\<rparr>,
     gc_operation_timeout := or_default default_operation_timeout (tu_operation_timeout t),
     gc_session_deadline := or_default default_session_deadline (tu_session_deadline t),
     gc_park_after := tu_park_after t,
     gc_renew_interval := tu_lease_renew_interval t\<rparr>"

text \<open>A new orchestrator over what is behind the ports; the configuration carries operators and capabilities.\<close>

definition new_orch :: "gather_config \<Rightarrow> world \<Rightarrow> orch" where
  "new_orch c w = world.extend w \<lparr>or_mirror = new_mirror (rc_session (gc_run c)), or_cipher = None, or_coalesced = [],
     or_reobserved = [], or_undeclared = []\<rparr>"

definition new_gather :: "gather_config \<Rightarrow> bool \<Rightarrow> world \<Rightarrow> gather_state" where
  "new_gather c fresh_deadline w =
     \<lparr>g_orch = new_orch c w,
      g_gathering = pruned_gathering (gc_registry c) (rc_operators (gc_run c)) (rc_capabilities (gc_run c)) (gc_completes_when c),
      g_aggregators = aggregators_of (rc_operators (gc_run c)), g_runs = Map.empty, g_failed = Map.empty, g_prev_caps = Map.empty,
      g_watermarks = Map.empty, g_activated_seen = [], g_activator = new_activator, g_breaker = new_breaker Map.empty,
      g_debounce = no_windows, g_retries = no_windows, g_running = [], g_fresh_deadline = fresh_deadline, g_dead_letters = [],
      g_last_renew = 0, g_deadline = 0\<rparr>"

definition orchestrator_init :: "gather_config \<Rightarrow> bool \<Rightarrow> world \<Rightarrow> orca_error + gather_state" where
  "orchestrator_init c fresh_deadline w =
     (let g = new_gather c fresh_deadline w in
      case validate_acyclic_or_bounded (build_graph (gc_registry c) (g_gathering g) (rc_capabilities (gc_run c))) of
        Inl err \<Rightarrow> Inl err
      | Inr _ \<Rightarrow> Inr g)"

section \<open>Before the first round\<close>

record session_setup =
  ss_config :: gather_config
  ss_seed :: "data_point list"
  ss_flow :: "(string \<times> string) option"
  ss_cipher :: "orca_error + resolved_cipher"

definition resolve_audit_cipher :: "session_setup \<Rightarrow> orch \<Rightarrow> orch" where
  "resolve_audit_cipher s w = w\<lparr>or_cipher := (case ss_cipher s of Inl _ \<Rightarrow> None | Inr k \<Rightarrow> Some k)\<rparr>"

definition exclude_unpermitted_operators :: "gather_config \<Rightarrow> (gather_state, unit) op" where
  "exclude_unpermitted_operators c =
     bindE (on_orch (port (\<lambda>w. (Inr (permitted_operators (gc_catalog c) (rc_namespace (gc_run c))), w)))) (\<lambda>permitted g.
       (case permitted of
          None \<Rightarrow> (Inr (), g)
        | Some ids \<Rightarrow>
            let excluded = filter (\<lambda>x. op_id x \<notin> set ids) (rc_operators (gc_run c)) in
            if excluded = [] then (Inr (), g)
            else (Inr (), g\<lparr>g_gathering := filter (\<lambda>x. op_id x \<in> set ids) (g_gathering g),
                            g_aggregators := filter (\<lambda>x. op_id x \<in> set ids) (g_aggregators g)\<rparr>)))"

definition audit_flow_drift :: "epoch \<Rightarrow> string \<Rightarrow> string \<Rightarrow> string \<Rightarrow> (orch, unit) op" where
  "audit_flow_drift e name stored current w =
     port (on_audit (audit_append ((audit_row e (w_now w) FLOW_DRIFT_DETECTED)\<lparr>ae_flow :=
       Some \<lparr>fa_flow_name = name, fa_stored_fingerprint = stored, fa_current_fingerprint = current\<rparr>\<rparr>))) w"

definition detect_flow_drift :: "session_setup \<Rightarrow> epoch \<Rightarrow> (orch, unit) op" where
  "detect_flow_drift s e =
     (case ss_flow s of
        None \<Rightarrow> returnE ()
      | Some (name, current) \<Rightarrow>
          bindE (port (\<lambda>w. (Inr (st_fingerprint (w_store w)), w))) (\<lambda>stored.
            if stored = Some current then returnE ()
            else bindE (case stored of None \<Rightarrow> returnE () | Some old \<Rightarrow> audit_flow_drift e name old current) (\<lambda>_.
                   port (on_store (store_set_fingerprint current e)))))"

definition rehydrate_mirror :: "(orch, unit) op" where
  "rehydrate_mirror = port (\<lambda>w. case mirror_rehydrate (or_mirror w, w_store w) of
     (r, (m, s)) \<Rightarrow> (r, w\<lparr>or_mirror := m, w_store := s\<rparr>))"

definition merge :: "run_config \<Rightarrow> data_point list \<Rightarrow> epoch \<Rightarrow> (orch, unit) op" where
  "merge c ds e = merge_emissions c e (map (\<lambda>d. (None, d)) ds)"

definition prepare_run :: "session_setup \<Rightarrow> epoch \<Rightarrow> (gather_state, unit) op" where
  "prepare_run s e =
     (let c = ss_config s in
      bindE (exclude_unpermitted_operators c) (\<lambda>_.
      bindE (on_orch (detect_flow_drift s e)) (\<lambda>_ g.
      bindE (on_orch rehydrate_mirror) (\<lambda>_.
      bindE (if ss_seed s = [] then returnE () else on_orch (merge (gc_run c) (ss_seed s) e)) (\<lambda>_ g.
        (Inr (), g\<lparr>g_breaker := build_circuit_breaker (gc_registry c) (g_gathering g) (rc_capabilities (gc_run c))\<rparr>)))
      (g\<lparr>g_activator := new_activator\<rparr>))))"

section \<open>The completion tail\<close>

text \<open>\<^verbatim>\<open>TimeoutError\<close>, raised by the step or by the bound around it.\<close>

abbreviation timeout_error :: orca_error where
  "timeout_error \<equiv> OtherError ''TimeoutError''"

definition bounded_tail_step :: "('s, 'r) op \<Rightarrow> ('s, 'r) op" where
  "bounded_tail_step step s =
     (case step s of
        (Inl err, s') \<Rightarrow> (Inl (if err = timeout_error then CompletionTailTimeoutError else err), s')
      | (Inr x, s') \<Rightarrow> (Inr x, s'))"

definition flush_write_behind :: "(orch, unit) op" where
  "flush_write_behind = port (on_archive (\<lambda>a. (Inr (), snd (archive_flush a))))"

definition clear_marker :: "gather_config \<Rightarrow> operator_class \<Rightarrow> (orch, unit) op" where
  "clear_marker c x = port (on_durable (clear_contribution (rc_session (gc_run c)) (op_id x)))"

definition prepare_redrive :: "gather_config \<Rightarrow> (gather_state, unit) op" where
  "prepare_redrive c g =
     bindE (on_orch (forE (clear_marker c) (g_aggregators g))) (\<lambda>_ g. (Inr (), g\<lparr>g_fresh_deadline := True\<rparr>)) g"

definition audit_session_parked :: "epoch \<Rightarrow> (orch, unit) op" where
  "audit_session_parked e w = port (on_audit (audit_append (audit_row e (w_now w) SESSION_PARKED))) w"

definition audit_capability_invocation ::
  "capability_id \<Rightarrow> string \<Rightarrow> (string \<times> pyval) list \<Rightarrow> epoch \<Rightarrow> (orch, unit) op" where
  "audit_capability_invocation cid action parameters e w =
     port (on_audit (audit_append ((audit_row e (w_now w) CAPABILITY_INVOKED)\<lparr>ae_capability :=
       Some \<lparr>ca_capability = cid, ca_action = Some action, ca_parameters = map (\<lambda>(k, _). (k, ''<redacted>'')) parameters,
             ca_error = None\<rparr>\<rparr>))) w"

section \<open>The rounds\<close>

datatype session_status = COMPLETED | SUPERSEDED | PARKED

record orchestrator_result =
  or_status :: session_status
  or_epoch :: epoch
  or_operator_runs :: "operator_id \<rightharpoonup> int"
  or_dead_letters :: "(operator_id \<times> string) list"

text \<open>
  What one round meets: its gathering loop (which returns whether the session parked), the
  activations and the author's aggregators of its aggregation phase, and what is delivered to the
  inbox while the flush is under way and after the inbox was found empty.
\<close>

record round =
  rd_gather :: "(gather_state, bool) op"
  rd_activation :: "capability_id \<Rightarrow> string option"
  rd_drive :: author_code
  rd_during_flush :: "inbox_state \<Rightarrow> inbox_state"
  rd_after_check :: "inbox_state \<Rightarrow> inbox_state"

definition deliveries :: "(inbox_state \<Rightarrow> inbox_state) \<Rightarrow> gather_state \<Rightarrow> gather_state" where
  "deliveries f g = g\<lparr>g_orch := (g_orch g)\<lparr>w_inbox := f (w_inbox (g_orch g))\<rparr>\<rparr>"

definition park_session :: "epoch \<Rightarrow> (gather_state, session_status) op" where
  "park_session e =
     bindE (on_orch (append_coalesced_audits e)) (\<lambda>_.
     bindE (on_orch (audit_session_parked e)) (\<lambda>_. returnE PARKED))"

definition aggregate_and_flush :: "session_setup \<Rightarrow> epoch \<Rightarrow> round \<Rightarrow> (gather_state, unit) op" where
  "aggregate_and_flush s e rd =
     bindE (aggregate (ss_config s) e (rd_activation rd) (rd_drive rd)) (\<lambda>_.
     bindE (on_orch (append_coalesced_audits e)) (\<lambda>_.
       on_orch (bounded_tail_step flush_write_behind)))"

text \<open>Whether a late delivery calls for another round; if not, the session has been marked complete.\<close>

definition check_and_mark :: "session_setup \<Rightarrow> epoch \<Rightarrow> round \<Rightarrow> (gather_state, bool) op" where
  "check_and_mark s e rd =
     bindE (on_orch (bounded_tail_step (port (\<lambda>w. (Inr (pending_count (w_inbox w)), w))))) (\<lambda>pending.
       if 0 < pending then bindE (prepare_redrive (ss_config s)) (\<lambda>_. returnE True)
       else (\<lambda>g. bindE (on_orch (bounded_tail_step (port (on_lease (mark_complete e))))) (\<lambda>_. returnE False)
                    (deliveries (rd_after_check rd) g)))"

text \<open>One round: it ends the run (\<open>Inl\<close>, with the result and whether a flush ran), or calls for another.\<close>

definition one_round ::
  "session_setup \<Rightarrow> epoch \<Rightarrow> round \<Rightarrow> bool \<Rightarrow> gather_state \<Rightarrow> ((orca_error + session_status) \<times> bool \<times> gather_state) + gather_state" where
  "one_round s e rd flushed g =
     (case rd_gather rd g of
        (Inl err, g1) \<Rightarrow> Inl (Inl err, flushed, g1)
      | (Inr parked, g1) \<Rightarrow>
          if parked then (case park_session e g1 of (r, g2) \<Rightarrow> Inl (r, flushed, g2))
          else (case aggregate_and_flush s e rd g1 of
                  (Inl err, g2) \<Rightarrow> Inl (Inl err, flushed, g2)
                | (Inr _, g2) \<Rightarrow>
                    (case check_and_mark s e rd (deliveries (rd_during_flush rd) g2) of
                       (Inl err, g3) \<Rightarrow> Inl (Inl err, True, g3)
                     | (Inr again, g3) \<Rightarrow> if again then Inr g3 else Inl (Inr COMPLETED, True, g3))))"

partial_function (option) run_rounds ::
  "session_setup \<Rightarrow> epoch \<Rightarrow> (nat \<Rightarrow> round) \<Rightarrow> nat \<Rightarrow> bool \<Rightarrow> gather_state \<Rightarrow>
     ((orca_error + session_status) \<times> bool \<times> gather_state) option" where
  "run_rounds s e rounds n flushed g =
     (case one_round s e (rounds n) flushed g of
        Inl y \<Rightarrow> Some y
      | Inr g1 \<Rightarrow> run_rounds s e rounds (n + 1) True g1)"

section \<open>The run\<close>

text \<open>
  \<^verbatim>\<open>flushed\<close> is a variable of the function, assigned after the seed and the breaker: on an exception
  before that it has no value (\<open>None\<close>), and reading it in the \<^verbatim>\<open>finally\<close> raises.
\<close>

definition unbound_local :: orca_error where
  "unbound_local = OtherError ''UnboundLocalError''"

definition run_body ::
  "session_setup \<Rightarrow> epoch \<Rightarrow> (nat \<Rightarrow> round) \<Rightarrow> gather_state \<Rightarrow> ((orca_error + session_status) \<times> bool option \<times> gather_state) option" where
  "run_body s e rounds g =
     (case prepare_run s e g of
        (Inl err, g1) \<Rightarrow> Some (Inl err, None, g1)
      | (Inr _, g1) \<Rightarrow> (case run_rounds s e rounds 0 False g1 of
           None \<Rightarrow> None
         | Some (r, flushed, g2) \<Rightarrow> Some (r, Some flushed, g2)))"

text \<open>The clauses around the body: a fence becomes a status; then the backstop flush and the release.\<close>

definition superseded :: "orca_error + session_status \<Rightarrow> orca_error + session_status" where
  "superseded r = (if r = Inl StaleEpochError then Inr SUPERSEDED else r)"

definition backstop :: "bool option \<Rightarrow> (gather_state, unit) op" where
  "backstop flushed =
     (case flushed of
        None \<Rightarrow> raiseE unbound_local
      | Some True \<Rightarrow> returnE ()
      | Some False \<Rightarrow> on_orch (bounded_tail_step flush_write_behind))"

definition release_epoch :: "epoch \<Rightarrow> (gather_state, unit) op" where
  "release_epoch e = on_orch (port (on_lease (lock_release e)))"

text \<open>An exception of a \<^verbatim>\<open>finally\<close> clause replaces the result or the exception it found.\<close>

definition leave_run :: "epoch \<Rightarrow> bool option \<Rightarrow> orca_error + 'r \<Rightarrow> (gather_state, 'r) op" where
  "leave_run e flushed r g =
     (case backstop flushed g of (r1, g1) \<Rightarrow>
       (case release_epoch e g1 of
          (Inl err, g2) \<Rightarrow> (Inl err, g2)
        | (Inr _, g2) \<Rightarrow> (case r1 of Inl err \<Rightarrow> (Inl err, g2) | Inr _ \<Rightarrow> (r, g2))))"

definition result_of :: "epoch \<Rightarrow> gather_state \<Rightarrow> session_status \<Rightarrow> orchestrator_result" where
  "result_of e g status = \<lparr>or_status = status, or_epoch = e, or_operator_runs = g_runs g, or_dead_letters = g_dead_letters g\<rparr>"

definition run ::
  "session_setup \<Rightarrow> (nat \<Rightarrow> round) \<Rightarrow> gather_state \<Rightarrow> ((orca_error + orchestrator_result) \<times> gather_state) option" where
  "run s rounds g =
     (case on_orch (\<lambda>w. port (on_lease (lock_acquire (gc_lock_ttl (ss_config s)) (w_mono w))) w) g of
        (Inl err, g1) \<Rightarrow> Some (Inl err, g1)
      | (Inr e, g1) \<Rightarrow>
          (case run_body s e rounds (g1\<lparr>g_orch := resolve_audit_cipher s (g_orch g1)\<rparr>) of
             None \<Rightarrow> None
           | Some (r, flushed, g2) \<Rightarrow> Some (leave_run e flushed (map_sum id (result_of e g2) (superseded r)) g2)))"

end
