(* ===== verification/Session_Outcome.thy ===== *)
theory Session_Outcome
  imports Session_Run
begin

text \<open>
  How a run ends, over the definitions of \<open>Session_Run\<close>: what each status promises, that a run holds no
  lease when it returns, that only completion sets the completion mark, that the rounds end once
  deliveries stop, and what the exits do when a higher epoch has taken over. The locale \<open>run_frame\<close>
  extends \<open>aggregation_frame\<close> by the steps of the completion tail.
\<close>

section \<open>Leaving the run\<close>

lemma on_orch_port_Inr:
  assumes "on_orch (port m) g = (Inr x, g')"
  obtains fs w where "m ((g_orch g)\<lparr>w_faults := fs\<rparr>) = (Inr x, w)" and "g' = g\<lparr>g_orch := w\<rparr>"
proof (cases "w_faults (g_orch g)")
  case Nil
  then have "(g_orch g)\<lparr>w_faults := []\<rparr> = g_orch g" by simp
  with Nil assms that [of "[]" "g_orch g'"] show ?thesis by (auto simp: on_orch_def port_def split: prod.splits)
next
  case (Cons f fs)
  with assms that [of fs "g_orch g'"] show ?thesis by (auto simp: on_orch_def port_def split: prod.splits option.splits)
qed

lemma bounded_Inr [simp]: "bounded_tail_step m s = (Inr x, s') \<longleftrightarrow> m s = (Inr x, s')"
  by (auto simp: bounded_tail_step_def split: prod.splits sum.splits)

lemma flush_Inr:
  assumes "on_orch (bounded_tail_step flush_write_behind) g = (Inr (), g')"
  obtains fs where "g' = g\<lparr>g_orch := (g_orch g)\<lparr>w_faults := fs, w_archive := snd (archive_flush (w_archive (g_orch g)))\<rparr>\<rparr>"
proof -
  from assms have "on_orch flush_write_behind g = (Inr (), g')"
    by (auto simp: on_orch_def split: prod.splits)
  then show ?thesis unfolding flush_write_behind_def
    by (rule on_orch_port_Inr) (use that in \<open>auto simp: on_archive_def\<close>)
qed

text \<open>What the exit did when it did not raise: at most the flush, and the release.\<close>

definition without_lease :: "epoch \<Rightarrow> lock_state \<Rightarrow> lock_state" where
  "without_lease e l = snd (lock_release e l)"

lemma release_Inr:
  assumes "release_epoch e g = (Inr (), g')"
  obtains fs where "g' = g\<lparr>g_orch := (g_orch g)\<lparr>w_faults := fs, w_lock := without_lease e (w_lock (g_orch g))\<rparr>\<rparr>"
  using assms unfolding release_epoch_def
  by (rule on_orch_port_Inr) (use that in \<open>auto simp: on_lease_def without_lease_def split: prod.splits\<close>)

lemma leave_Inr:
  assumes "leave_run e flushed r g = (Inr x, g')"
  obtains fs ar where "r = Inr x" and "flushed = Some True \<and> ar = w_archive (g_orch g) \<or>
      flushed = Some False \<and> ar = snd (archive_flush (w_archive (g_orch g)))"
    and "g' = g\<lparr>g_orch := (g_orch g)\<lparr>w_faults := fs, w_archive := ar, w_lock := without_lease e (w_lock (g_orch g))\<rparr>\<rparr>"
proof -
  obtain r1 g1 where b: "backstop flushed g = (r1, g1)" by (cases "backstop flushed g")
  obtain r2 g2 where l: "release_epoch e g1 = (r2, g2)" by (cases "release_epoch e g1")
  from assms b l have r: "r = Inr x" "r1 = Inr ()" "r2 = Inr ()" "g2 = g'"
    by (auto simp: leave_run_def split: sum.splits)
  with l obtain fs where g': "g' = g1\<lparr>g_orch := (g_orch g1)\<lparr>w_faults := fs, w_lock := without_lease e (w_lock (g_orch g1))\<rparr>\<rparr>"
    by (auto elim: release_Inr)
  show ?thesis
  proof (cases flushed)
    case None
    with b r show ?thesis by (simp add: backstop_def raiseE_def)
  next
    case (Some done')
    show ?thesis
    proof (cases done')
      case True
      with b r Some have "g1 = g" by (simp add: backstop_def returnE_def)
      with g' r Some True that [of "w_archive (g_orch g)" fs] show ?thesis by simp
    next
      case False
      with b r Some have "on_orch (bounded_tail_step flush_write_behind) g = (Inr (), g1)" by (simp add: backstop_def)
      then obtain fs1 where "g1 = g\<lparr>g_orch := (g_orch g)\<lparr>w_faults := fs1, w_archive := snd (archive_flush (w_archive (g_orch g)))\<rparr>\<rparr>"
        by (rule flush_Inr)
      with g' r Some False that [of "snd (archive_flush (w_archive (g_orch g)))" fs] show ?thesis by simp
    qed
  qed
qed

lemma run_Inr:
  assumes "run s rounds g = Some (Inr res, g')"
  obtains e g0 r flushed g1 status where "run_body s e rounds g0 = Some (r, flushed, g1)"
    and "superseded r = Inr status" and "res = result_of e g1 status"
    and "leave_run e flushed (Inr res) g1 = (Inr res, g')"
proof -
  obtain x ga where acq: "on_orch (\<lambda>w. port (on_lease (lock_acquire (gc_lock_ttl (ss_config s)) (w_mono w))) w) g = (x, ga)"
    by (cases "on_orch (\<lambda>w. port (on_lease (lock_acquire (gc_lock_ttl (ss_config s)) (w_mono w))) w) g")
  with assms obtain e where x: "x = Inr e" by (cases x) (simp_all add: run_def)
  let ?g0 = "ga\<lparr>g_orch := resolve_audit_cipher s (g_orch ga)\<rparr>"
  from assms acq x obtain r flushed g1 where b: "run_body s e rounds ?g0 = Some (r, flushed, g1)"
    and l: "leave_run e flushed (map_sum id (result_of e g1) (superseded r)) g1 = (Inr res, g')"
    by (auto simp: run_def split: option.splits prod.splits)
  from l have m: "map_sum id (result_of e g1) (superseded r) = Inr res" by (rule leave_Inr)
  then obtain status where "superseded r = Inr status" "res = result_of e g1 status" by (cases "superseded r") auto
  with that [OF b] l m show ?thesis by simp
qed

text \<open>
  C21: a run that returns holds nothing. Whatever happened in it (completion, park, or a higher epoch
  that took over), if \<^verbatim>\<open>run\<close> returns a result then no lease of the epoch it minted is left.
\<close>

theorem run_releases:
  assumes "run s rounds g = Some (Inr res, g')"
  shows "\<not> (\<exists>l. lk_lease (w_lock (g_orch g')) = Some l \<and> ls_epoch l = or_epoch res)"
proof -
  obtain e g1 r flushed where "res = result_of e g1 r" "leave_run e flushed (Inr res) g1 = (Inr res, g')"
    using assms by (rule run_Inr)
  then show ?thesis by (auto simp: without_lease_def lock_release_def result_of_def elim!: leave_Inr split: option.splits if_splits)
qed


section \<open>How the rounds end\<close>

text \<open>A property of the state at the start of a round that redriven rounds keep holds at the last round.\<close>

lemma run_rounds_ends:
  assumes "run_rounds s e rounds n flushed g = Some y" and "I n flushed g"
    and step: "\<And>n fl g g1. I n fl g \<Longrightarrow> one_round s e (rounds n) fl g = Inr g1 \<Longrightarrow> I (n + 1) True g1"
  obtains m fl g0 where "I m fl g0" and "one_round s e (rounds m) fl g0 = Inl y"
proof -
  let ?P = "\<lambda>s' e' rounds' n flushed g y. s' = s \<and> e' = e \<and> rounds' = rounds \<and> I n flushed g \<longrightarrow>
    (\<exists>m fl g0. I m fl g0 \<and> one_round s e (rounds m) fl g0 = Inl y)"
  have "?P s e rounds n flushed g y"
    by (rule run_rounds.raw_induct [where P = ?P, OF _ assms(1)]) (auto split: sum.splits dest: step)
  with assms(2) that show ?thesis by blast
qed

text \<open>What a completed round did.\<close>

lemma round_completed:
  assumes "one_round s e rd flushed g = Inl (Inr COMPLETED, flushed', g')"
  obtains g1 g2 fs w where "rd_gather rd g = (Inr False, g1)" and "aggregate_and_flush s e rd g1 = (Inr (), g2)" and "flushed'"
    and "ib_messages (rd_during_flush rd (w_inbox (g_orch g2))) = []"
    and "g' = g2\<lparr>g_orch := (g_orch g2)\<lparr>w_faults := fs, w_inbox := rd_after_check rd (rd_during_flush rd (w_inbox (g_orch g2))),
                                        w_lock := (w_lock (g_orch g2))\<lparr>lk_complete := True\<rparr>\<rparr>\<rparr>"
    and "lk_counter (w_lock (g_orch g2)) \<le> e"
proof -
  have np: "park_session e h \<noteq> (Inr COMPLETED, h')" for h h'
    by (auto simp: park_session_def bindE_def returnE_def split: prod.splits sum.splits)
  with assms obtain g1 g2 g3 where g: "rd_gather rd g = (Inr False, g1)" "aggregate_and_flush s e rd g1 = (Inr (), g2)" flushed'
    and cm: "check_and_mark s e rd (deliveries (rd_during_flush rd) g2) = (Inr False, g')"
    by (auto simp: one_round_def split: prod.splits sum.splits if_splits)
  let ?g = "deliveries (rd_during_flush rd) g2"
  from cm obtain pending ga where p: "on_orch (bounded_tail_step (port (\<lambda>w. (Inr (pending_count (w_inbox w)), w)))) ?g = (Inr pending, ga)"
    and rest: "(if 0 < pending then bindE (prepare_redrive (ss_config s)) (\<lambda>_. returnE True)
       else (\<lambda>g. bindE (on_orch (bounded_tail_step (port (on_lease (mark_complete e))))) (\<lambda>_. returnE False)
                    (deliveries (rd_after_check rd) g))) ga = (Inr False, g')"
    unfolding check_and_mark_def by (rule bindE_InrD)
  from p have "on_orch (port (\<lambda>w. (Inr (pending_count (w_inbox w)), w))) ?g = (Inr pending, ga)"
    by (auto simp: on_orch_def split: prod.splits)
  then obtain fs where ga: "ga = ?g\<lparr>g_orch := (g_orch ?g)\<lparr>w_faults := fs\<rparr>\<rparr>" "pending = pending_count (w_inbox (g_orch ?g))"
    by (rule on_orch_port_Inr) auto
  have "pending = 0" using rest by (cases "0 < pending") (auto simp: bindE_def returnE_def split: prod.splits sum.splits)
  with rest obtain u where "on_orch (bounded_tail_step (port (on_lease (mark_complete e)))) (deliveries (rd_after_check rd) ga) = (Inr u, g')"
    by (auto simp: returnE_def elim!: bindE_InrD)
  then have "on_orch (port (on_lease (mark_complete e))) (deliveries (rd_after_check rd) ga) = (Inr u, g')"
    by (auto simp: on_orch_def split: prod.splits)
  then obtain fs' w where w: "on_lease (mark_complete e) ((g_orch (deliveries (rd_after_check rd) ga))\<lparr>w_faults := fs'\<rparr>) = (Inr u, w)"
    "g' = (deliveries (rd_after_check rd) ga)\<lparr>g_orch := w\<rparr>" by (rule on_orch_port_Inr)
  with g ga \<open>pending = 0\<close> that [of g1 g2 fs'] show ?thesis
    by (auto simp: on_lease_def mark_complete_def deliveries_def pending_count_def split: prod.splits if_splits)
qed

lemma coalesced_cleared:
  assumes "append_coalesced_audits e w = (r, w')"
  shows "or_coalesced w' = [] \<and> or_reobserved w' = []"
proof -
  have frame: "or_coalesced w2 = or_coalesced w1 \<and> or_reobserved w2 = or_reobserved w1"
    if "append_audit_entries es w1 = (r, w2)" for es r w1 w2
    using that by (auto simp: append_audit_entries_def returnE_def port_def on_audit_def split: list.splits option.splits prod.splits)
  show ?thesis
  proof (cases "or_coalesced w = [] \<and> or_reobserved w = []")
    case True
    with assms show ?thesis by (simp add: append_coalesced_audits_def coalesced_rows_def)
  next
    case False
    let ?es = "coalesced_rows e (w_now w) ''merged'' (or_coalesced w) @ coalesced_rows e (w_now w) ''re-observed'' (or_reobserved w)"
    have "?es \<noteq> []" using False by (auto simp: coalesced_rows_def dest: arg_cong [where f = length])
    then have "append_audit_entries ?es (w\<lparr>or_coalesced := [], or_reobserved := []\<rparr>) = (r, w')"
      using assms unfolding append_coalesced_audits_def Let_def by (simp only: if_False)
    from frame [OF this] show ?thesis by simp
  qed
qed


lemma append_audits_grow:
  assumes "append_audit_entries es w = (r, w')"
  shows "orch_grew w w' \<and> w_archive w' = w_archive w"
proof -
  have many: "set (au_committed s) \<subseteq> set (au_committed (snd (audit_append_many xs s)))" for xs s
  proof (induction xs arbitrary: s)
    case (Cons x xs)
    have "set (au_committed s) \<subseteq> set (au_committed (snd (audit_append x s)))" by (auto simp: audit_append_def)
    with Cons show ?case by (force simp: bindE_def split: prod.split sum.split)
  qed simp
  have one: "set (au_committed s) \<subseteq> set (au_committed (snd (audit_append x s)))" for x s by (auto simp: audit_append_def)
  have p: "orch_grew w w' \<and> w_archive w' = w_archive w"
    if "port (on_audit f) w = (r, w')" and "\<And>s. set (au_committed s) \<subseteq> set (au_committed (snd (f s)))" for f
    using that(1) that(2) [of "w_audit w"] by (auto simp: port_def on_audit_def orch_grew_def split: list.splits option.splits prod.splits)
  show ?thesis
  proof (cases es)
    case Nil
    with assms show ?thesis by (simp add: append_audit_entries_def returnE_def orch_grew_def)
  next
    case (Cons x xs)
    with assms p [OF _ one] p [OF _ many] show ?thesis by (cases xs) (simp_all add: append_audit_entries_def)
  qed
qed

lemma coalesced_grows:
  assumes "append_coalesced_audits e w = (r, w')"
  shows "orch_grew w w' \<and> w_archive w' = w_archive w"
proof -
  let ?es = "coalesced_rows e (w_now w) ''merged'' (or_coalesced w) @ coalesced_rows e (w_now w) ''re-observed'' (or_reobserved w)"
  show ?thesis
  proof (cases "?es = []")
    case True
    with assms show ?thesis by (simp add: append_coalesced_audits_def orch_grew_def)
  next
    case False
    with assms have "append_audit_entries ?es (w\<lparr>or_coalesced := [], or_reobserved := []\<rparr>) = (r, w')"
      unfolding append_coalesced_audits_def Let_def by (simp only: if_False)
    from append_audits_grow [OF this] show ?thesis by (simp add: orch_grew_def)
  qed
qed

definition all_accounted :: "session_setup \<Rightarrow> epoch \<Rightarrow> gather_state \<Rightarrow> bool" where
  "all_accounted s e g \<longleftrightarrow> (\<forall>x \<in> set (g_aggregators g). accounted_for (ss_config s) e g x)"

lemma flushed_round:
  assumes "aggregate_and_flush s e rd g = (Inr (), g')" and "author_grows (rd_drive rd)"
  shows "all_accounted s e g' \<and> arc_buffer (w_archive (g_orch g')) = [] \<and> or_coalesced (g_orch g') = [] \<and> or_reobserved (g_orch g') = []"
proof -
  obtain u ga where a: "aggregate (ss_config s) e (rd_activation rd) (rd_drive rd) g = (Inr u, ga)" and
    "bindE (on_orch (append_coalesced_audits e)) (\<lambda>_. on_orch (bounded_tail_step flush_write_behind)) ga = (Inr (), g')"
    using assms(1) unfolding aggregate_and_flush_def by (rule bindE_InrD)
  then obtain v gb where b: "on_orch (append_coalesced_audits e) ga = (Inr v, gb)" and
    c: "on_orch (bounded_tail_step flush_write_behind) gb = (Inr (), g')" by (auto elim: bindE_InrD)
  from b obtain w where w: "append_coalesced_audits e (g_orch ga) = (Inr v, w)" "gb = ga\<lparr>g_orch := w\<rparr>"
    by (auto simp: on_orch_def split: prod.splits)
  from c obtain fs where g': "g' = gb\<lparr>g_orch := (g_orch gb)\<lparr>w_faults := fs, w_archive := snd (archive_flush (w_archive (g_orch gb)))\<rparr>\<rparr>"
    by (rule flush_Inr)
  have "grew ga g'" using coalesced_grows [OF w(1)] w(2) g' by (auto simp: grew_def orch_grew_def)
  moreover have "accounted_for (ss_config s) e ga x" if "x \<in> set (g_aggregators ga)" for x
  proof -
    have "g_aggregators ga = g_aggregators g"
      using growingD [OF growing.keep_aggregate [OF author_keeps [OF assms(2)]] a] by (simp add: grew_def)
    with that aggregate_accounted [OF assms(2)] a show ?thesis by simp
  qed
  ultimately have "all_accounted s e g'" using accounted_mono unfolding all_accounted_def by (metis grew_def)
  with coalesced_cleared [OF w(1)] w(2) g' show ?thesis by (simp add: archive_flush_def)
qed


lemma run_body_ends:
  assumes "run_body s e rounds g = Some (r, Some flushed, g')"
  obtains g0 m fl where "one_round s e (rounds m) fl g0 = Inl (r, flushed, g')" and "m = 0 \<longrightarrow> \<not> fl"
proof -
  from assms obtain u g1 where "prepare_run s e g = (Inr u, g1)" "run_rounds s e rounds 0 False g1 = Some (r, flushed, g')"
    by (auto simp: run_body_def split: prod.splits sum.splits option.splits)
  from run_rounds_ends [OF this(2), where I = "\<lambda>m fl _. m = 0 \<longrightarrow> \<not> fl"] that show ?thesis by auto
qed

lemma run_status:
  assumes "run s rounds g = Some (Inr res, g')" and "or_status res \<noteq> SUPERSEDED"
  obtains e m fl g0 flushed g1 fs ar where "one_round s e (rounds m) fl g0 = Inl (Inr (or_status res), flushed, g1)"
    and "m = 0 \<longrightarrow> \<not> fl" and "res = result_of e g1 (or_status res)"
    and "flushed \<and> ar = w_archive (g_orch g1) \<or> \<not> flushed \<and> ar = snd (archive_flush (w_archive (g_orch g1)))"
    and "g' = g1\<lparr>g_orch := (g_orch g1)\<lparr>w_faults := fs, w_archive := ar, w_lock := without_lease e (w_lock (g_orch g1))\<rparr>\<rparr>"
proof -
  obtain e g0 r fl1 g1 status where b: "run_body s e rounds g0 = Some (r, fl1, g1)" and st: "superseded r = Inr status"
    and res: "res = result_of e g1 status" and l: "leave_run e fl1 (Inr res) g1 = (Inr res, g')"
    using assms(1) by (rule run_Inr)
  from res have "or_status res = status" by (simp add: result_of_def)
  with st assms(2) have r: "r = Inr (or_status res)" by (auto simp: superseded_def split: if_splits)
  from l obtain fs ar where fl: "fl1 = Some True \<and> ar = w_archive (g_orch g1) \<or> fl1 = Some False \<and> ar = snd (archive_flush (w_archive (g_orch g1)))"
    and g': "g' = g1\<lparr>g_orch := (g_orch g1)\<lparr>w_faults := fs, w_archive := ar, w_lock := without_lease e (w_lock (g_orch g1))\<rparr>\<rparr>"
    by (rule leave_Inr)
  then obtain flushed where f: "fl1 = Some flushed" by auto
  from b [unfolded f] obtain h m fl where "one_round s e (rounds m) fl h = Inl (r, flushed, g1)" "m = 0 \<longrightarrow> \<not> fl"
    by (rule run_body_ends)
  with r res f fl g' \<open>or_status res = status\<close> that show ?thesis by auto
qed

lemma without_lease_simps [simp]:
  "lk_complete (without_lease e l) = lk_complete l" "lk_counter (without_lease e l) = lk_counter l"
  by (auto simp: without_lease_def lock_release_def split: option.splits)


lemma park_trail:
  assumes "park_session e g = (Inr st, g')"
  shows "st = PARKED \<and> or_coalesced (g_orch g') = [] \<and> or_reobserved (g_orch g') = [] \<and> au_committed (w_audit (g_orch g')) \<noteq> [] \<and>
     ae_kind (last (au_committed (w_audit (g_orch g')))) = SESSION_PARKED \<and> ae_epoch (last (au_committed (w_audit (g_orch g')))) = e"
proof -
  obtain u g1 where a: "on_orch (append_coalesced_audits e) g = (Inr u, g1)"
    and b: "bindE (on_orch (audit_session_parked e)) (\<lambda>_. returnE PARKED) g1 = (Inr st, g')"
    using assms unfolding park_session_def by (rule bindE_InrD)
  from b obtain v where p: "on_orch (audit_session_parked e) g1 = (Inr v, g')" and st: "st = PARKED"
    by (auto simp: returnE_def elim: bindE_InrD)
  then have "on_orch (port (on_audit (audit_append (audit_row e (w_now (g_orch g1)) SESSION_PARKED)))) g1 = (Inr v, g')"
    by (simp add: on_orch_def audit_session_parked_def)
  then obtain fs where g': "g' = g1\<lparr>g_orch := (g_orch g1)\<lparr>w_faults := fs, w_audit := (w_audit (g_orch g1))
      \<lparr>au_max_epoch := e, au_committed := au_committed (w_audit (g_orch g1)) @ [audit_row e (w_now (g_orch g1)) SESSION_PARKED]\<rparr>\<rparr>\<rparr>"
    by (rule on_orch_port_Inr) (auto simp: on_audit_def audit_append_def audit_row_def split: if_splits)
  from a obtain w where "append_coalesced_audits e (g_orch g) = (Inr u, w)" "g1 = g\<lparr>g_orch := w\<rparr>" by (auto simp: on_orch_def split: prod.splits)
  with coalesced_cleared st g' show ?thesis by (auto simp: audit_row_def)
qed

text \<open>
  Also: PARKED means audited. If a run returns PARKED then the last row of the audit trail is the park
  of this epoch and no coalesced count is pending; if the session parked in the first round, the
  write-behind buffer has been flushed as well.
\<close>

theorem parked_is_audited:
  assumes "run s rounds g = Some (Inr res, g')" and "or_status res = PARKED"
  shows "or_coalesced (g_orch g') = [] \<and> or_reobserved (g_orch g') = [] \<and>
     ae_kind (last (au_committed (w_audit (g_orch g')))) = SESSION_PARKED \<and>
     ae_epoch (last (au_committed (w_audit (g_orch g')))) = or_epoch res \<and>
     (\<exists>n. (\<exists>h h1. rd_gather (rounds n) h = (Inr True, h1)) \<and> (n = 0 \<longrightarrow> arc_buffer (w_archive (g_orch g')) = []))"
proof -
  from assms(2) have "or_status res \<noteq> SUPERSEDED" by simp
  with assms(1) obtain e m fl g0 flushed g1 fs ar where re: "one_round s e (rounds m) fl g0 = Inl (Inr (or_status res), flushed, g1)"
    and fl: "m = 0 \<longrightarrow> \<not> fl" and res: "res = result_of e g1 (or_status res)"
    and ar: "flushed \<and> ar = w_archive (g_orch g1) \<or> \<not> flushed \<and> ar = snd (archive_flush (w_archive (g_orch g1)))"
    and g': "g' = g1\<lparr>g_orch := (g_orch g1)\<lparr>w_faults := fs, w_archive := ar, w_lock := without_lease e (w_lock (g_orch g1))\<rparr>\<rparr>"
    by (rule run_status)
  from re assms(2) obtain h1 where g: "rd_gather (rounds m) g0 = (Inr True, h1)" and p: "park_session e h1 = (Inr PARKED, g1)" and "flushed = fl"
    by (auto simp: one_round_def split: prod.splits sum.splits if_splits)
  have "m = 0 \<longrightarrow> arc_buffer ar = []" using ar fl \<open>flushed = fl\<close> by (auto simp: archive_flush_def)
  moreover have "or_epoch res = e" by (subst res) (simp add: result_of_def)
  ultimately show ?thesis using park_trail [OF p] g by (auto simp: g')
qed


section \<open>What a round keeps\<close>

locale run_frame = aggregation_frame +
  assumes archive_keeps: "J g \<Longrightarrow> J (g\<lparr>g_orch := (g_orch g)\<lparr>w_archive := ar\<rparr>\<rparr>)"
    and rows_keep: "J g \<Longrightarrow> J (g\<lparr>g_orch := (g_orch g)\<lparr>w_audit := a\<rparr>\<rparr>)"
    and counts_keep: "J g \<Longrightarrow> J (g\<lparr>g_orch := (g_orch g)\<lparr>or_coalesced := cs, or_reobserved := rs\<rparr>\<rparr>)"
    and durable_keeps: "J g \<Longrightarrow> J (g\<lparr>g_orch := (g_orch g)\<lparr>w_durable := d\<rparr>\<rparr>)"
    and fresh_keeps: "J g \<Longrightarrow> J (g\<lparr>g_fresh_deadline := b\<rparr>)"
begin

lemma keep_tail_step: "keep (on_orch m) \<Longrightarrow> keep (on_orch (bounded_tail_step m))"
proof (rule triple_keepI)
  fix g r g'
  assume k: "keep (on_orch m)" and g: "J g" and m: "on_orch (bounded_tail_step m) g = (r, g')"
  obtain r1 g1 where 1: "on_orch m g = (r1, g1)" by (cases "on_orch m g")
  with m have "g' = g1" by (auto simp: on_orch_def bounded_tail_step_def split: prod.splits sum.splits)
  with triple_keepD [OF k g 1] show "J g'" by simp
qed

lemma keep_audits: "keep (on_orch (append_audit_entries es))"
proof -
  have "keep (on_orch (port (on_audit f)))" for f
    by (rule keep_port) (auto simp: on_audit_def split: prod.split intro: rows_keep)
  note port = this
  show ?thesis
  proof (cases es)
    case Nil
    then show ?thesis by (simp add: append_audit_entries_def returnE_def on_orch_def triple_def)
  next
    case (Cons x xs)
    then show ?thesis by (cases xs) (simp_all add: append_audit_entries_def port)
  qed
qed

lemma keep_coalesced: "keep (on_orch (append_coalesced_audits e))"
proof (rule triple_keepI)
  fix g r g'
  assume g: "J g" and a: "on_orch (append_coalesced_audits e) g = (r, g')"
  let ?es = "coalesced_rows e (w_now (g_orch g)) ''merged'' (or_coalesced (g_orch g)) @
    coalesced_rows e (w_now (g_orch g)) ''re-observed'' (or_reobserved (g_orch g))"
  show "J g'"
  proof (cases "?es = []")
    case True
    with a g show ?thesis by (simp add: append_coalesced_audits_def on_orch_def)
  next
    case False
    let ?g = "g\<lparr>g_orch := (g_orch g)\<lparr>or_coalesced := [], or_reobserved := []\<rparr>\<rparr>"
    from a False have "on_orch (append_audit_entries ?es) ?g = (r, g')"
      unfolding append_coalesced_audits_def Let_def on_orch_def by (simp add: if_not_P split: prod.splits del: append_is_Nil_conv)
    then show ?thesis by (rule triple_keepD [OF keep_audits counts_keep [OF g]])
  qed
qed

lemma keep_flush: "keep (on_orch flush_write_behind)"
  unfolding flush_write_behind_def by (rule keep_port) (simp add: on_archive_def archive_keeps)

lemma keep_park: "keep (park_session e)"
  unfolding park_session_def
proof (intro keep_bind keep_coalesced triple_returnE)
  show "keep (on_orch (audit_session_parked e))" for u :: unit
    unfolding audit_session_parked_def [abs_def] by (rule keep_row_now)
qed

lemma keep_round:
  assumes "\<And>x delta. keep (on_orch (rd_drive rd x delta))"
  shows "keep (aggregate_and_flush s e rd)"
  unfolding aggregate_and_flush_def
  by (intro keep_bind keep_coalesced keep_tail_step keep_flush keep_aggregate assms)

lemma keep_redrive: "keep (prepare_redrive c)"
proof -
  have "keep (on_orch (forE (clear_marker c) xs))" for xs
  proof (rule keep_forE)
    show "keep (on_orch (clear_marker c x))" for x
      unfolding clear_marker_def by (rule keep_port) (auto simp: on_durable_def split: prod.split intro: durable_keeps)
  qed
  then have "keep (bindE (on_orch (forE (clear_marker c) xs)) (\<lambda>_ g. (Inr (), g\<lparr>g_fresh_deadline := True\<rparr>)))" for xs
    by (rule keep_bind) (simp add: triple_def fresh_keeps)
  then show ?thesis unfolding prepare_redrive_def triple_def by blast
qed

lemma keep_exclude:
  assumes "\<And>g xs ys. J g \<Longrightarrow> J (g\<lparr>g_gathering := xs, g_aggregators := ys\<rparr>)"
  shows "keep (exclude_unpermitted_operators c)"
  unfolding exclude_unpermitted_operators_def
  by (rule keep_bind [OF keep_read]) (auto simp: triple_def Let_def assms split: option.split)

end

interpretation inbox_stays: run_frame "\<lambda>g. w_inbox (g_orch g) = ib" for ib
  by unfold_locales simp_all

interpretation mark_stays: run_frame "\<lambda>g. lk_complete (w_lock (g_orch g)) = b" for b
  by unfold_locales (simp_all add: lock_renew_def split: option.split)

interpretation mark_merges: merge_frame "\<lambda>w. lk_complete (w_lock w) = b" for b
  by unfold_locales (auto simp: same_base_def)


section \<open>Only completion marks\<close>

definition keeps_mark :: "(gather_state, 'r) op \<Rightarrow> bool" where
  "keeps_mark f \<longleftrightarrow> (\<forall>g. lk_complete (w_lock (g_orch (snd (f g)))) = lk_complete (w_lock (g_orch g)))"

definition rounds_keep_mark :: "(nat \<Rightarrow> round) \<Rightarrow> bool" where
  "rounds_keep_mark rounds \<longleftrightarrow> (\<forall>n. keeps_mark (rd_gather (rounds n)) \<and> (\<forall>x delta. keeps_mark (on_orch (rd_drive (rounds n) x delta))))"

lemma keeps_markD: "keeps_mark f \<Longrightarrow> mark_stays.keep b f"
  by (rule triple_keepI) (metis keeps_mark_def snd_conv)

lemma keeps_markI: "(\<And>b. mark_stays.keep b f) \<Longrightarrow> keeps_mark f"
  unfolding keeps_mark_def
proof
  fix g
  assume "\<And>b. mark_stays.keep b f"
  from mark_stays.keep_snd [OF this] show "lk_complete (w_lock (g_orch (snd (f g)))) = lk_complete (w_lock (g_orch g))" by simp
qed

lemma keeps_markE: "keeps_mark f \<Longrightarrow> f g = (r, g') \<Longrightarrow> lk_complete (w_lock (g_orch g')) = lk_complete (w_lock (g_orch g))"
  by (metis keeps_mark_def snd_conv)

lemma prepare_keeps_mark: "mark_stays.keep b (prepare_run s e)"
proof -
  have store: "mark_stays.keep b (on_orch (port (on_store f)))" for f :: "(session_state, unit) op"
    by (rule mark_stays.keep_port) (simp add: on_store_def split: prod.split)
  have row: "mark_stays.keep b (on_orch (audit_flow_drift e name old current))" for name old current
    unfolding audit_flow_drift_def [abs_def] by (rule mark_stays.keep_row_now)
  have split: "on_orch (bindE m f) = bindE (on_orch m) (\<lambda>x. on_orch (f x))" for m :: "(orch, 'x) op" and f :: "'x \<Rightarrow> (orch, unit) op"
    by (rule ext) (simp add: on_orch_def bindE_def split: prod.splits sum.splits)
  have ret: "mark_stays.keep b (on_orch (returnE ()))" by (simp add: on_orch_def returnE_def triple_def)
  have drift: "mark_stays.keep b (on_orch (detect_flow_drift s e))"
  proof (cases "ss_flow s")
    case (Some flow)
    obtain name current where "flow = (name, current)" by (cases flow)
    moreover have "mark_stays.keep b (on_orch (if stored = Some current then returnE () else bindE
        (case stored of None \<Rightarrow> returnE () | Some old \<Rightarrow> audit_flow_drift e name old current) (\<lambda>_. port (on_store (store_set_fingerprint current e)))))"
      for stored
      by (cases stored) (auto simp: split ret intro!: mark_stays.keep_bind [OF row store] store)
    ultimately show ?thesis using Some by (simp add: detect_flow_drift_def split mark_stays.keep_bind [OF mark_stays.keep_read])
  qed (simp add: detect_flow_drift_def ret)
  have mirror: "mark_stays.keep b (on_orch rehydrate_mirror)"
    unfolding rehydrate_mirror_def by (rule mark_stays.keep_port) (simp add: mirror_rehydrate_def)
  have seed: "mark_stays.keep b (if ss_seed s = [] then returnE () else on_orch (merge c ds e))" for c ds
    using triple_on_orch [OF mark_merges.keep_merge [of b c e "map (\<lambda>d. (None, d)) ds"], of "\<lambda>_. True"]
    by (auto simp: merge_def orch_free_def)
  have breaker: "mark_stays.keep b (\<lambda>g. (Inr (), g\<lparr>g_breaker := f g\<rparr>))" for f by (simp add: triple_def)
  have rest: "mark_stays.keep b (\<lambda>g. bindE (on_orch rehydrate_mirror) (\<lambda>_. bindE (if ss_seed s = [] then returnE () else on_orch (merge (gc_run (ss_config s)) (ss_seed s) e))
      (\<lambda>_ g. (Inr (), g\<lparr>g_breaker := build_circuit_breaker (gc_registry (ss_config s)) (g_gathering g) (rc_capabilities (gc_run (ss_config s)))\<rparr>)))
      (g\<lparr>g_activator := new_activator\<rparr>))" (is "mark_stays.keep b (\<lambda>g. ?m (g\<lparr>g_activator := new_activator\<rparr>))")
  proof (rule triple_keepI)
    fix g r g'
    assume "lk_complete (w_lock (g_orch g)) = b" and m: "?m (g\<lparr>g_activator := new_activator\<rparr>) = (r, g')"
    then have "lk_complete (w_lock (g_orch (g\<lparr>g_activator := new_activator\<rparr>))) = b" by simp
    moreover have "mark_stays.keep b ?m" by (intro mark_stays.keep_bind mirror seed breaker)
    ultimately show "lk_complete (w_lock (g_orch g')) = b" using m by - (rule triple_keepD)
  qed
  have "mark_stays.keep b (exclude_unpermitted_operators (ss_config s))" by (rule mark_stays.keep_exclude) simp
  with drift rest show ?thesis unfolding prepare_run_def Let_def by (intro mark_stays.keep_bind)
qed

lemma check_keeps_mark:
  assumes "check_and_mark s e rd g = (r, g')" and "r \<noteq> Inr False"
  shows "lk_complete (w_lock (g_orch g')) = lk_complete (w_lock (g_orch g))"
proof -
  let ?read = "on_orch (bounded_tail_step (port (\<lambda>w. (Inr (pending_count (w_inbox w)), w))))"
  have read: "mark_stays.keep b ?read" for b by (rule mark_stays.keep_tail_step [OF mark_stays.keep_read])
  obtain r1 g1 where 1: "?read g = (r1, g1)" by (cases "?read g")
  have g1: "lk_complete (w_lock (g_orch g1)) = lk_complete (w_lock (g_orch g))"
    using triple_keepD [OF read _ 1] by simp
  show ?thesis
  proof (cases r1)
    case (Inl err)
    with assms(1) 1 g1 show ?thesis by (simp add: check_and_mark_def)
  next
    case (Inr pending)
    show ?thesis
    proof (cases "0 < pending")
      case True
      have "keeps_mark (bindE (prepare_redrive (ss_config s)) (\<lambda>_. returnE True))"
        by (rule keeps_markI) (intro mark_stays.keep_bind mark_stays.keep_redrive triple_returnE)
      moreover have "bindE (prepare_redrive (ss_config s)) (\<lambda>_. returnE True) g1 = (r, g')"
        using assms(1) 1 Inr True by (simp add: check_and_mark_def)
      ultimately show ?thesis using g1 by (auto dest: keeps_markE)
    next
      case False
      with assms 1 Inr obtain err where "r = Inl err" and
        "on_orch (bounded_tail_step (port (on_lease (mark_complete e)))) (deliveries (rd_after_check rd) g1) = (Inl err, g')"
        by (auto simp: check_and_mark_def bindE_def returnE_def split: prod.splits sum.splits)
      then have "lk_complete (w_lock (g_orch g')) = lk_complete (w_lock (g_orch g1))"
        by (auto simp: on_orch_def bounded_tail_step_def port_def on_lease_def mark_complete_def deliveries_def
          split: prod.splits sum.splits list.splits option.splits if_splits)
      with g1 show ?thesis by simp
    qed
  qed
qed

lemma round_keeps_mark:
  assumes gather: "keeps_mark (rd_gather rd)" and drive: "\<And>x delta. keeps_mark (on_orch (rd_drive rd x delta))"
    and r: "one_round s e rd fl g = y"
  shows "case y of Inr g1 \<Rightarrow> lk_complete (w_lock (g_orch g1)) = lk_complete (w_lock (g_orch g))
    | Inl (r, fl', g1) \<Rightarrow> r \<noteq> Inr COMPLETED \<longrightarrow> lk_complete (w_lock (g_orch g1)) = lk_complete (w_lock (g_orch g))"
proof -
  obtain r1 g1 where 1: "rd_gather rd g = (r1, g1)" by (cases "rd_gather rd g")
  obtain r2 g2 where 2: "aggregate_and_flush s e rd g1 = (r2, g2)" by (cases "aggregate_and_flush s e rd g1")
  obtain rp gp where p: "park_session e g1 = (rp, gp)" by (cases "park_session e g1")
  let ?g2 = "deliveries (rd_during_flush rd) g2"
  obtain r3 g3 where 3: "check_and_mark s e rd ?g2 = (r3, g3)" by (cases "check_and_mark s e rd ?g2")
  have k: "keeps_mark (aggregate_and_flush s e rd)"
    by (rule keeps_markI, rule mark_stays.keep_round, rule keeps_markD, rule drive)
  have kp: "keeps_mark (park_session e)"
    by (rule keeps_markI, rule mark_stays.keep_park)
  note keep = keeps_markE [OF gather 1] keeps_markE [OF k 2] keeps_markE [OF kp p]
  show ?thesis
  proof (cases r1)
    case (Inl err)
    with r 1 keep show ?thesis by (auto simp: one_round_def)
  next
    case (Inr parked)
    show ?thesis
    proof (cases parked)
      case True
      with r 1 p keep Inr show ?thesis by (auto simp: one_round_def)
    next
      case False
      show ?thesis
      proof (cases r2)
        case (Inl err)
        with r 1 2 keep \<open>r1 = Inr parked\<close> False show ?thesis by (auto simp: one_round_def)
      next
        case (Inr u)
        have "r3 \<noteq> Inr False \<Longrightarrow> lk_complete (w_lock (g_orch g3)) = lk_complete (w_lock (g_orch g))"
          using check_keeps_mark [OF 3] keep by (simp add: deliveries_def)
        with r 1 2 3 \<open>r1 = Inr parked\<close> False Inr show ?thesis by (cases r3) (auto simp: one_round_def)
      qed
    qed
  qed
qed

text \<open>
  Also: only completion marks. If the rounds' gathering and the aggregators' own code leave the
  completion mark alone, then a run that returns PARKED or SUPERSEDED leaves it as it was: such a
  session stays resumable.
\<close>

theorem only_completion_marks:
  assumes "run s rounds g = Some (Inr res, g')" and "or_status res \<noteq> COMPLETED" and "rounds_keep_mark rounds"
  shows "lk_complete (w_lock (g_orch g')) = lk_complete (w_lock (g_orch g))"
proof -
  note keep = assms(3) [unfolded rounds_keep_mark_def, rule_format]
  let ?acquire = "on_orch (\<lambda>w. port (on_lease (lock_acquire (gc_lock_ttl (ss_config s)) (w_mono w))) w)"
  obtain x ga where a: "?acquire g = (x, ga)" by (cases "?acquire g")
  have ga: "lk_complete (w_lock (g_orch ga)) = lk_complete (w_lock (g_orch g))"
    using a by (auto simp: on_orch_def port_def on_lease_def lock_acquire_def Let_def split: prod.splits list.splits option.splits if_splits)
  from assms(1) a obtain e where x: "x = Inr e" by (cases x) (simp_all add: run_def)
  let ?g0 = "ga\<lparr>g_orch := resolve_audit_cipher s (g_orch ga)\<rparr>"
  from assms(1) a x obtain r flushed g1 where b: "run_body s e rounds ?g0 = Some (r, flushed, g1)"
    and l: "leave_run e flushed (map_sum id (result_of e g1) (superseded r)) g1 = (Inr res, g')"
    by (auto simp: run_def split: option.splits prod.splits)
  from l obtain fs ar where m: "map_sum id (result_of e g1) (superseded r) = Inr res"
    and g': "g' = g1\<lparr>g_orch := (g_orch g1)\<lparr>w_faults := fs, w_archive := ar, w_lock := without_lease e (w_lock (g_orch g1))\<rparr>\<rparr>"
    by (rule leave_Inr)
  from m assms(2) have r: "r \<noteq> Inr COMPLETED" by (auto simp: superseded_def result_of_def split: if_splits)
  obtain r0 h where p: "prepare_run s e ?g0 = (r0, h)" by (cases "prepare_run s e ?g0")
  have "lk_complete (w_lock (g_orch ?g0)) = lk_complete (w_lock (g_orch ga))" by (simp add: resolve_audit_cipher_def)
  with triple_keepD [OF prepare_keeps_mark _ p] ga have h: "lk_complete (w_lock (g_orch h)) = lk_complete (w_lock (g_orch g))" by simp
  have "lk_complete (w_lock (g_orch g1)) = lk_complete (w_lock (g_orch g))"
  proof (cases r0)
    case (Inl err)
    with b p h show ?thesis by (simp add: run_body_def)
  next
    case (Inr u)
    with b p obtain fl where "run_rounds s e rounds 0 False h = Some (r, fl, g1)" by (auto simp: run_body_def split: option.splits prod.splits)
    then obtain m fl0 g0 where "lk_complete (w_lock (g_orch g0)) = lk_complete (w_lock (g_orch g))" "one_round s e (rounds m) fl0 g0 = Inl (r, fl, g1)"
    proof (rule run_rounds_ends [where I = "\<lambda>_ _ g0. lk_complete (w_lock (g_orch g0)) = lk_complete (w_lock (g_orch g))"])
      show "lk_complete (w_lock (g_orch k1)) = lk_complete (w_lock (g_orch g))"
        if "lk_complete (w_lock (g_orch k)) = lk_complete (w_lock (g_orch g))" "one_round s e (rounds n) fl k = Inr k1" for n fl k k1
        using round_keeps_mark [OF conjunct1 [OF keep] spec2 [OF conjunct2 [OF keep]] that(2)] that(1) by simp
    qed (use h in simp_all)
    with round_keeps_mark [OF conjunct1 [OF keep] spec2 [OF conjunct2 [OF keep]] this(2)] r show ?thesis by simp
  qed
  then show ?thesis by (simp add: g')
qed


section \<open>The rounds end\<close>

text \<open>From some round on, nobody delivers during the flush and a round that goes on to aggregate left the inbox empty.\<close>

definition deliveries_stop :: "(nat \<Rightarrow> round) \<Rightarrow> nat \<Rightarrow> bool" where
  "deliveries_stop rounds N \<longleftrightarrow> (\<forall>n \<ge> N. rd_during_flush (rounds n) = id \<and>
     (\<forall>g g'. rd_gather (rounds n) g = (Inr False, g') \<longrightarrow> ib_messages (w_inbox (g_orch g')) = []) \<and>
     (\<forall>x delta w. w_inbox (snd (rd_drive (rounds n) x delta w)) = w_inbox w))"

lemma quiet_round_ends:
  assumes "deliveries_stop rounds N" and "N \<le> n"
  obtains y where "one_round s e (rounds n) flushed g = Inl y"
proof -
  let ?rd = "rounds n"
  have quiet: "rd_during_flush ?rd = id" "\<And>g g'. rd_gather ?rd g = (Inr False, g') \<Longrightarrow> ib_messages (w_inbox (g_orch g')) = []"
    "\<And>x delta w. w_inbox (snd (rd_drive ?rd x delta w)) = w_inbox w" using assms by (simp_all add: deliveries_stop_def)
  have False if again: "one_round s e ?rd flushed g = Inr g3" for g3
  proof -
    from again obtain g1 g2 where 1: "rd_gather ?rd g = (Inr False, g1)" and 2: "aggregate_and_flush s e ?rd g1 = (Inr (), g2)"
      and 3: "check_and_mark s e ?rd (deliveries (rd_during_flush ?rd) g2) = (Inr True, g3)"
      by (auto simp: one_round_def split: prod.splits sum.splits if_splits)
    have "inbox_stays.keep ib (on_orch (rd_drive ?rd x delta))" for ib x delta
      by (rule triple_keepI) (use quiet(3) in \<open>auto simp: on_orch_def split: prod.splits dest: sym\<close>, metis snd_conv)
    from triple_keepD [OF inbox_stays.keep_round [OF this] _ 2] quiet(2) [OF 1]
    have "ib_messages (w_inbox (g_orch g2)) = []" by simp
    moreover from 3 obtain pending ga where p: "on_orch (bounded_tail_step (port (\<lambda>w. (Inr (pending_count (w_inbox w)), w)))) g2 = (Inr pending, ga)"
      and rest: "(if 0 < pending then bindE (prepare_redrive (ss_config s)) (\<lambda>_. returnE True)
       else (\<lambda>g. bindE (on_orch (bounded_tail_step (port (on_lease (mark_complete e))))) (\<lambda>_. returnE False)
                    (deliveries (rd_after_check ?rd) g))) ga = (Inr True, g3)"
      unfolding check_and_mark_def quiet(1) by (auto simp: deliveries_def elim!: bindE_InrD)
    ultimately have "pending = 0"
      by (auto simp: on_orch_def port_def bounded_tail_step_def pending_count_def split: prod.splits sum.splits list.splits option.splits)
    with rest show False by (auto simp: bindE_def returnE_def split: prod.splits sum.splits)
  qed
  with that show ?thesis by (cases "one_round s e ?rd flushed g") auto
qed

text \<open>
  If from round \<open>N\<close> on nothing is delivered during the flush and gathering leaves the inbox empty when
  it goes on to aggregate, the drain-before-release loop ends, whatever the ports do.
\<close>

lemma run_returns:
  assumes "deliveries_stop rounds N"
  shows "run s rounds g \<noteq> None"
proof -
  have ends: "run_rounds s e rounds n flushed h \<noteq> None" for e n flushed h
  proof (induction "N - n" arbitrary: n flushed h)
    case 0
    then have "N \<le> n" by simp
    with assms obtain y where "one_round s e (rounds n) flushed h = Inl y" by (rule quiet_round_ends)
    then show ?case by (simp add: run_rounds.simps)
  next
    case (Suc d)
    then have "d = N - (n + 1)" by simp
    from Suc.hyps(1) [OF this] show ?case by (subst run_rounds.simps) (simp split: sum.split)
  qed
  have body: "run_body s e rounds h \<noteq> None" for e h
    by (auto simp: run_body_def split: prod.split sum.split option.split dest: notE [OF ends])
  show ?thesis by (auto simp: run_def split: prod.split sum.split option.split dest: notE [OF body])
qed

section \<open>When a higher epoch takes over\<close>

text \<open>The epoch is minted, the audit cipher resolved.\<close>

definition acquires :: "session_setup \<Rightarrow> gather_state \<Rightarrow> epoch \<Rightarrow> gather_state \<Rightarrow> bool" where
  "acquires s g e g' \<longleftrightarrow> (\<exists>g1. on_orch (\<lambda>w. port (on_lease (lock_acquire (gc_lock_ttl (ss_config s)) (w_mono w))) w) g = (Inr e, g1) \<and>
     g' = g1\<lparr>g_orch := resolve_audit_cipher s (g_orch g1)\<rparr>)"

lemma acquires_run:
  assumes "acquires s g e g0"
  shows "run s rounds g = (case run_body s e rounds g0 of None \<Rightarrow> None
    | Some (r, flushed, g2) \<Rightarrow> Some (leave_run e flushed (map_sum id (result_of e g2) (superseded r)) g2))"
  using assms by (auto simp: run_def acquires_def)

lemma release_quiet: "w_faults (g_orch g) = [] \<Longrightarrow>
    release_epoch e g = (Inr (), g\<lparr>g_orch := (g_orch g)\<lparr>w_lock := without_lease e (w_lock (g_orch g))\<rparr>\<rparr>)"
  by (auto simp: release_epoch_def on_orch_def port_def on_lease_def lock_release_def without_lease_def split: option.splits)

lemma flush_quiet: "w_faults (g_orch g) = [] \<Longrightarrow> on_orch (bounded_tail_step flush_write_behind) g =
    (Inr (), g\<lparr>g_orch := (g_orch g)\<lparr>w_archive := snd (archive_flush (w_archive (g_orch g)))\<rparr>\<rparr>)"
  by (simp add: on_orch_def bounded_tail_step_def flush_write_behind_def port_def on_archive_def)


text \<open>
  Also: a run that is fenced before its first round is not reported as superseded. Whatever the
  preparation raises (the fence included: a successor took over before the drift check, the seed or
  the rehydration), the \<^verbatim>\<open>finally\<close> clause reads the unassigned variable \<^verbatim>\<open>flushed\<close>: the run raises
  UnboundLocalError, after releasing its epoch, and the archive is not flushed.
\<close>

theorem early_fence_is_not_superseded:
  assumes "acquires s g e g0" and "prepare_run s e g0 = (Inl err, g1)" and "w_faults (g_orch g1) = []"
  shows "run s rounds g = Some (Inl unbound_local, g1\<lparr>g_orch := (g_orch g1)\<lparr>w_lock := without_lease e (w_lock (g_orch g1))\<rparr>\<rparr>)"
  using assms(2,3)
  by (simp add: acquires_run [OF assms(1)] run_body_def leave_run_def backstop_def raiseE_def release_quiet)


section \<open>Concrete runs\<close>

definition demo_setup :: session_setup where
  "demo_setup = \<lparr>ss_config = demo_gather_config, ss_seed = [], ss_flow = None, ss_cipher = Inl (OtherError ''no key'')\<rparr>"

definition demo_round :: "bool \<Rightarrow> round" where
  "demo_round parked = \<lparr>rd_gather = returnE parked, rd_activation = (\<lambda>_. None), rd_drive = (\<lambda>_ _. returnE ()), rd_during_flush = id, rd_after_check = id\<rparr>"

definition demo_idle :: gather_state where
  "demo_idle = (demo_gather [])\<lparr>g_orch := demo_orch\<lparr>w_faults := [], w_inbox := new_inbox\<rparr>, g_aggregators := [demo_sink]\<rparr>"

definition demo_owned :: gather_state where
  "demo_owned = demo_idle\<lparr>g_orch := (g_orch demo_idle)\<lparr>w_lock := \<lparr>lk_counter = 1, lk_lease = Some \<lparr>ls_epoch = 1, ls_expires_at = 30\<rparr>, lk_complete = False\<rparr>\<rparr>\<rparr>"

lemma demo_acquires: "acquires demo_setup demo_idle 1 demo_owned"
  by (simp add: acquires_def demo_setup_def demo_idle_def demo_owned_def demo_gather_defs on_orch_def port_def on_lease_def lock_acquire_def is_live_def
      new_lock_def resolve_audit_cipher_def)

lemma demo_rehydrate: "mirror_rehydrate (sample_mirror, empty_session) = (Inr (), (sample_mirror, empty_session))"
  by (simp add: sample_mirror_def mirror_rehydrate_def new_mirror_def)

definition demo_ready :: gather_state where
  "demo_ready = demo_owned\<lparr>g_breaker := build_circuit_breaker empty_registry [] []\<rparr>"

lemmas demo_run_defs = demo_setup_def demo_round_def demo_idle_def demo_owned_def demo_ready_def demo_gather_def demo_orch_def
  demo_gather_config_def demo_config_def on_orch_def port_def bindE_def returnE_def

lemma demo_prepare: "prepare_run demo_setup 1 demo_owned = (Inr (), demo_ready)"
  by (simp add: prepare_run_def Let_def exclude_unpermitted_operators_def permitted_operators_def detect_flow_drift_def rehydrate_mirror_def
     demo_run_defs demo_catalog_def demo_rehydrate new_activator_def)

definition demo_reported :: gather_state where
  "demo_reported = snd (on_orch (report_skipped_aggregator demo_gather_config 1 [] [] demo_sink) demo_ready)"

lemma demo_ready_aggregate: "aggregate demo_gather_config 1 (\<lambda>_. None) (\<lambda>_ _. returnE ()) demo_ready = (Inr (), demo_reported)"
proof -
  have renew: "on_orch (renew_now demo_gather_config 1) demo_ready = (Inr (), demo_ready)"
    by (simp add: renew_now_def on_lease_def lock_renew_def is_live_def demo_run_defs)
  have view: "mirror_snapshot (or_mirror (g_orch demo_ready)) (rc_session (gc_run demo_gather_config)) = Inr []"
    by (simp add: demo_run_defs demo_view [simplified])
  have refresh: "refresh_capabilities demo_gather_config 1 (\<lambda>_. None) [] demo_ready = (Inr no_capabilities, demo_ready)"
    by (simp add: refresh_capabilities_def refresh_def demo_run_defs no_capabilities_def activate_rounds.simps activation_ready_def
       new_activator_def preferred_order_def demo_catalog_def)
  have "\<not> is_ready demo_sink [] []"
    by (simp add: is_ready_iff admits_def deps_reachable_def caps_available_def demo_sink_def sample_operator_def)
  then have select: "select_aggregators demo_gather_config 1 [] [] [demo_sink] demo_ready = (Inr [], demo_reported)"
    by (simp add: demo_reported_def demo_run_defs demo_trail_defs new_audit_def)
  have "g_aggregators demo_ready = [demo_sink]" by (simp add: demo_run_defs)
  with renew view refresh select show ?thesis
    by (simp add: aggregate_def present_types_def available_no_capabilities bindE_def raise_first_def del: select_aggregators.simps)
qed

lemma demo_reported_parts:
  "w_faults (g_orch demo_reported) = []" "or_coalesced (g_orch demo_reported) = []" "or_reobserved (g_orch demo_reported) = []"
  "w_inbox (g_orch demo_reported) = new_inbox" "w_archive (g_orch demo_reported) = new_archive" "g_aggregators demo_reported = [demo_sink]"
  "w_lock (g_orch demo_reported) = \<lparr>lk_counter = 1, lk_lease = Some \<lparr>ls_epoch = 1, ls_expires_at = 30\<rparr>, lk_complete = False\<rparr>"
  by (simp_all add: demo_reported_def demo_run_defs demo_trail_defs new_audit_def)

definition demo_done :: gather_state where
  "demo_done = demo_reported\<lparr>g_orch := (g_orch demo_reported)\<lparr>w_lock := (w_lock (g_orch demo_reported))\<lparr>lk_complete := True\<rparr>\<rparr>\<rparr>"

lemma demo_round_parts:
  "rd_gather (demo_round b) = returnE b" "rd_activation (demo_round b) = (\<lambda>_. None)" "rd_drive (demo_round b) = (\<lambda>_ _. returnE ())"
  "rd_during_flush (demo_round b) = id" "rd_after_check (demo_round b) = id"
  by (simp_all add: demo_round_def)

lemma demo_round_completes: "one_round demo_setup 1 (demo_round False) False demo_ready = Inl (Inr COMPLETED, True, demo_done)"
proof -
  have c: "ss_config demo_setup = demo_gather_config" by (simp add: demo_setup_def)
  have f: "aggregate_and_flush demo_setup 1 (demo_round False) demo_ready = (Inr (), demo_reported)"
    by (simp add: aggregate_and_flush_def c demo_round_parts demo_ready_aggregate bindE_def on_orch_def append_coalesced_audits_def coalesced_rows_def
      demo_reported_parts bounded_tail_step_def flush_write_behind_def port_def on_archive_def archive_flush_def new_archive_def)
  have "check_and_mark demo_setup 1 (demo_round False) (deliveries id demo_reported) = (Inr False, demo_done)"
    by (simp add: check_and_mark_def demo_round_parts bindE_def on_orch_def bounded_tail_step_def port_def deliveries_def demo_reported_parts
      pending_count_def new_inbox_def on_lease_def mark_complete_def returnE_def demo_done_def)
  with f show ?thesis by (simp add: one_round_def returnE_def demo_round_parts)
qed

lemma demo_completes:
  "run demo_setup (\<lambda>_. demo_round False) demo_idle = Some (Inr (result_of 1 demo_done COMPLETED),
     demo_done\<lparr>g_orch := (g_orch demo_done)\<lparr>w_lock := without_lease 1 (w_lock (g_orch demo_done))\<rparr>\<rparr>)"
proof -
  have "w_faults (g_orch demo_done) = []" by (simp add: demo_done_def demo_reported_parts)
  then show ?thesis
    by (simp add: acquires_run [OF demo_acquires] run_body_def demo_prepare run_rounds.simps demo_round_completes leave_run_def backstop_def
      returnE_def superseded_def release_quiet)
qed

lemma demo_author: "\<forall>n. author_grows (rd_drive ((\<lambda>_. demo_round False) n))"
  by (simp add: demo_round_def author_grows_def orch_grew_def returnE_def)

theorem run_releases_witness:
  "\<not> (\<exists>l. lk_lease (w_lock (g_orch (snd (the (run demo_setup (\<lambda>_. demo_round False) demo_idle))))) = Some l \<and> ls_epoch l = 1)"
  using run_releases [OF demo_completes] by (simp add: demo_completes result_of_def)


text \<open>A run that parks in its first round.\<close>

definition demo_parked :: gather_state where
  "demo_parked = demo_ready\<lparr>g_orch := (g_orch demo_ready)\<lparr>w_audit := \<lparr>au_committed = [audit_row 1 0 SESSION_PARKED], au_max_epoch = 1\<rparr>\<rparr>\<rparr>"

lemma demo_round_parks: "one_round demo_setup 1 (demo_round True) False demo_ready = Inl (Inr PARKED, False, demo_parked)"
  by (simp add: one_round_def demo_round_parts park_session_def demo_parked_def append_coalesced_audits_def coalesced_rows_def
    audit_session_parked_def on_audit_def audit_append_def new_audit_def demo_run_defs audit_row_def)

lemma demo_parks: "\<exists>g'. run demo_setup (\<lambda>_. demo_round True) demo_idle = Some (Inr (result_of 1 demo_parked PARKED), g')"
proof -
  have "w_faults (g_orch demo_parked) = []" by (simp add: demo_parked_def demo_run_defs)
  then show ?thesis
    by (simp add: acquires_run [OF demo_acquires] run_body_def demo_prepare run_rounds.simps demo_round_parks leave_run_def backstop_def
      flush_quiet superseded_def release_quiet)
qed

theorem parked_is_audited_witness:
  "\<exists>res g'. run demo_setup (\<lambda>_. demo_round True) demo_idle = Some (Inr res, g') \<and> or_status res = PARKED \<and>
     ae_kind (last (au_committed (w_audit (g_orch g')))) = SESSION_PARKED"
proof -
  obtain g' where r: "run demo_setup (\<lambda>_. demo_round True) demo_idle = Some (Inr (result_of 1 demo_parked PARKED), g')"
    using demo_parks by blast
  have "or_status (result_of 1 demo_parked PARKED) = PARKED" by (simp add: result_of_def)
  from parked_is_audited [OF r this] this r show ?thesis by blast
qed

theorem only_completion_marks_witness:
  "\<exists>res g'. run demo_setup (\<lambda>_. demo_round True) demo_idle = Some (Inr res, g') \<and> \<not> lk_complete (w_lock (g_orch g'))"
proof -
  obtain g' where r: "run demo_setup (\<lambda>_. demo_round True) demo_idle = Some (Inr (result_of 1 demo_parked PARKED), g')"
    using demo_parks by blast
  have "or_status (result_of 1 demo_parked PARKED) \<noteq> COMPLETED" by (simp add: result_of_def)
  moreover have "rounds_keep_mark (\<lambda>_. demo_round True)"
    by (simp add: rounds_keep_mark_def keeps_mark_def demo_round_parts returnE_def on_orch_def)
  moreover have "\<not> lk_complete (w_lock (g_orch demo_idle))" by (simp add: demo_run_defs new_lock_def)
  ultimately show ?thesis using only_completion_marks [OF r] r by blast
qed

text \<open>Two runs that meet a higher epoch: in a round, and before the first one.\<close>

definition fenced_round :: round where
  "fenced_round = (demo_round True)\<lparr>rd_gather := raiseE StaleEpochError\<rparr>"


definition drifting_setup :: session_setup where
  "drifting_setup = demo_setup\<lparr>ss_flow := Some (''flow'', ''f1'')\<rparr>"

definition overtaken :: "gather_state \<Rightarrow> gather_state" where
  "overtaken g = g\<lparr>g_orch := (g_orch g)\<lparr>w_store := empty_session\<lparr>st_max_epoch := 2\<rparr>\<rparr>\<rparr>"

theorem early_fence_is_not_superseded_witness:
  "\<exists>g'. run drifting_setup (\<lambda>_. demo_round True) (overtaken demo_idle) = Some (Inl unbound_local, g')"
proof -
  have a: "acquires drifting_setup (overtaken demo_idle) 1 (overtaken demo_owned)"
    by (simp add: acquires_def drifting_setup_def overtaken_def demo_run_defs on_lease_def lock_acquire_def is_live_def new_lock_def
      resolve_audit_cipher_def)
  have "prepare_run drifting_setup 1 (overtaken demo_owned) = (Inl StaleEpochError, overtaken demo_owned)"
    by (simp add: prepare_run_def Let_def exclude_unpermitted_operators_def permitted_operators_def detect_flow_drift_def drifting_setup_def
      overtaken_def demo_run_defs demo_catalog_def empty_session_def on_store_def store_set_fingerprint_def store_guard_epoch_def)
  from early_fence_is_not_superseded [OF a this, of "\<lambda>_. demo_round True"] show ?thesis by (simp add: overtaken_def demo_run_defs)
qed

text \<open>
  C0: a park after a redrive skips the flush. In this run a message is delivered during the flush of
  the first round, and the second round archives a row and parks: the run returns PARKED and the row
  is still in the write-behind buffer, although the exit is documented to flush on the park path.
\<close>

definition late_archive :: archive_state where
  "late_archive = snd (archive_one demo_codec demo_cipher (archived_of (sample_dp ''v'' 1) ''s'' ''n'' 1) new_archive)"

definition archiving_gather :: "(gather_state, bool) op" where
  "archiving_gather =
     bindE (on_orch (archive_entries demo_config [archived_of (sample_dp ''v'' 1) ''s'' ''n'' 1])) (\<lambda>_. returnE True)"

definition redriven_rounds :: "nat \<Rightarrow> round" where
  "redriven_rounds n =
     (if n = 0 then (demo_round False)\<lparr>rd_during_flush := (\<lambda>ib. snd (append_serialized ''m1'' ''x'' ib))\<rparr>
      else (demo_round True)\<lparr>rd_gather := archiving_gather\<rparr>)"

definition demo_redriven :: gather_state where
  "demo_redriven = demo_reported\<lparr>g_orch := (g_orch demo_reported)\<lparr>w_inbox := snd (append_serialized ''m1'' ''x'' new_inbox)\<rparr>,
     g_fresh_deadline := True\<rparr>"

definition demo_reparked :: gather_state where
  "demo_reparked = demo_redriven\<lparr>g_orch := (g_orch demo_redriven)\<lparr>w_archive := late_archive,
     w_audit := snd (audit_append (audit_row 1 0 SESSION_PARKED) (w_audit (g_orch demo_redriven)))\<rparr>\<rparr>"

lemma demo_round_redrives: "one_round demo_setup 1 (redriven_rounds 0) False demo_ready = Inr demo_redriven"
proof -
  have c: "ss_config demo_setup = demo_gather_config" by (simp add: demo_setup_def)
  have f: "aggregate_and_flush demo_setup 1 (redriven_rounds 0) demo_ready = (Inr (), demo_reported)"
    by (simp add: aggregate_and_flush_def c demo_round_parts redriven_rounds_def demo_ready_aggregate bindE_def on_orch_def append_coalesced_audits_def
      coalesced_rows_def demo_reported_parts bounded_tail_step_def flush_write_behind_def port_def on_archive_def archive_flush_def new_archive_def)
  have d: "w_durable (g_orch demo_reported) = new_durable" by (simp add: demo_reported_def demo_run_defs demo_trail_defs new_audit_def)
  have "check_and_mark demo_setup 1 (redriven_rounds 0) (deliveries (\<lambda>ib. snd (append_serialized ''m1'' ''x'' ib)) demo_reported) = (Inr True, demo_redriven)"
    by (simp add: check_and_mark_def bindE_def on_orch_def bounded_tail_step_def port_def deliveries_def demo_reported_parts c
      pending_count_def new_inbox_def append_serialized_def returnE_def demo_redriven_def prepare_redrive_def clear_marker_def on_durable_def
      clear_contribution_def d new_durable_def)
  with f show ?thesis by (simp add: one_round_def returnE_def demo_round_parts redriven_rounds_def)
qed

lemma demo_round_reparks: "one_round demo_setup 1 (redriven_rounds 1) True demo_redriven = Inl (Inr PARKED, True, demo_reparked)"
proof -
  have t: "w_now (g_orch demo_reported) = 0" "au_max_epoch (w_audit (g_orch demo_reported)) = 1"
    by (simp_all add: demo_reported_def demo_run_defs demo_trail_defs new_audit_def)
  have c: "rc_codec demo_config = demo_codec" "rc_archive_cipher demo_config = demo_cipher" by (simp_all add: demo_config_def)
  show ?thesis
    by (simp add: one_round_def redriven_rounds_def archiving_gather_def archive_entries_def on_orch_def port_def on_archive_def bindE_def returnE_def
      demo_redriven_def demo_reparked_def demo_reported_parts late_archive_def park_session_def append_coalesced_audits_def coalesced_rows_def
      audit_session_parked_def on_audit_def t c archive_one_def new_archive_def archived_of_def audit_append_def audit_row_def)
qed

theorem redriven_park_skips_flush:
  "\<exists>res g'. run demo_setup redriven_rounds demo_idle = Some (Inr res, g') \<and> or_status res = PARKED \<and>
     buffered_count (w_archive (g_orch g')) = 1"
proof -
  have "run_rounds demo_setup 1 redriven_rounds 1 True demo_redriven = Some (Inr PARKED, True, demo_reparked)"
    unfolding run_rounds.simps [of _ _ _ 1] demo_round_reparks by simp
  then have "run_rounds demo_setup 1 redriven_rounds 0 False demo_ready = Some (Inr PARKED, True, demo_reparked)"
    unfolding run_rounds.simps [of _ _ _ 0] demo_round_redrives by simp
  moreover have "w_faults (g_orch demo_reparked) = []" by (simp add: demo_reparked_def demo_redriven_def demo_reported_parts)
  moreover have "length (arc_buffer late_archive) = 1" by (simp add: late_archive_def archive_one_def new_archive_def archived_of_def)
  ultimately show ?thesis
    by (simp add: acquires_run [OF demo_acquires] run_body_def demo_prepare leave_run_def backstop_def returnE_def superseded_def release_quiet
      result_of_def buffered_count_def demo_reparked_def)
qed

end
