(* ===== verification/Flow.thy ===== *)
theory Flow
  imports Scheduling
begin

text \<open>
  First-class flow definitions, \<^verbatim>\<open>orcastork/flow.py\<close>: what a flow declares and the fingerprint
  that tells a resume whether the flow has changed. The digest (\<^verbatim>\<open>hashlib.sha256\<close> of the encoded
  text) is a parameter; so is the attribute lookup that finds a capability's registry id on a
  class (none on an abstract one). What the fingerprint covers is proved as an equivalence: two
  flows have the same text exactly when they have the same shape.
\<close>

section \<open>Flows\<close>

record flow_definition =
  fl_name :: string
  fl_operators :: "operator_class list"
  fl_capabilities :: "capability_class list"
  fl_completes_when :: "completion_item option"
  fl_retry_policy :: "retry_policy option"
  fl_park_after :: "seconds option"
  fl_operation_timeout :: "seconds option"
  fl_session_deadline :: "int option"
  fl_max_inbox_deliveries :: "int option"
  fl_emission_queue_size :: "int option"

primrec join_with :: "string \<Rightarrow> string list \<Rightarrow> string" where
  "join_with sep [] = []"
| "join_with sep (x # xs) = (if xs = [] then x else x @ sep @ join_with sep xs)"

definition data_point_names :: "pyclass list \<Rightarrow> string" where
  "data_point_names ts = join_with '','' (sort (map cls_name ts))"

definition capability_name :: "(pyclass \<Rightarrow> capability_id option) \<Rightarrow> pyclass \<Rightarrow> string" where
  "capability_name attr k = (case attr k of Some cid \<Rightarrow> cid | None \<Rightarrow> cls_name k)"

definition capability_names :: "(pyclass \<Rightarrow> capability_id option) \<Rightarrow> pyclass list \<Rightarrow> string" where
  "capability_names attr ks = join_with '','' (sort (map (capability_name attr) ks))"

definition show_bool :: "bool \<Rightarrow> string" where
  "show_bool b = (if b then ''True'' else ''False'')"

definition rerun_on_value :: "rerun_on \<Rightarrow> string" where
  "rerun_on_value r = (case r of ADDED_OR_UPDATED \<Rightarrow> ''added_or_updated'' | ADDED_ONLY \<Rightarrow> ''added_only'')"

definition show_cap :: "int option \<Rightarrow> string" where
  "show_cap k = (case k of None \<Rightarrow> ''None'' | Some n \<Rightarrow> show_int n)"

definition operator_line :: "(pyclass \<Rightarrow> capability_id option) \<Rightarrow> operator_class \<Rightarrow> string" where
  "operator_line attr x =
     ''operator '' @ op_id x @ '' depends_on=['' @ data_point_names (op_depends_on x) @ ''] produces=['' @
     data_point_names (op_produces x) @ ''] requires=['' @ capability_names attr (op_requires x) @ ''] rerun_on_new_data='' @
     show_bool (rerun_on_new_data (op_policy x)) @ '' rerun_on='' @ rerun_on_value (rerun_on (op_policy x)) @
     '' max_cycles='' @ show_cap (max_cycles (op_policy x))"

definition capability_line :: "(pyclass \<Rightarrow> capability_id option) \<Rightarrow> capability_class \<Rightarrow> string" where
  "capability_line attr k =
     ''capability '' @ cap_id k @ '' depends_on=['' @ data_point_names (cap_depends_on k) @ ''] requires=['' @
     capability_names attr (cap_requires k) @ '']''"

definition completion_line :: "completion_condition option \<Rightarrow> string" where
  "completion_line c = ''completes_when '' @ (case c of None \<Rightarrow> ''None'' | Some x \<Rightarrow> describe_condition x)"

definition fingerprint_lines :: "(pyclass \<Rightarrow> capability_id option) \<Rightarrow> flow_definition \<Rightarrow> completion_condition option \<Rightarrow> string list" where
  "fingerprint_lines attr fl c =
     map (operator_line attr) (sort_key op_id (fl_operators fl)) @
     map (capability_line attr) (sort_key cap_id (fl_capabilities fl)) @ [completion_line c]"

definition fingerprint :: "(string \<Rightarrow> string) \<Rightarrow> (pyclass \<Rightarrow> capability_id option) \<Rightarrow> flow_definition \<Rightarrow> orca_error + string" where
  "fingerprint digest attr fl =
     (case normalize_completion (fl_completes_when fl) of
        Inl err \<Rightarrow> Inl err
      | Inr c \<Rightarrow> Inr (digest (join_with [CHR 0x0A] (fingerprint_lines attr fl c))))"

definition flow_identity :: "(string \<Rightarrow> string) \<Rightarrow> (pyclass \<Rightarrow> capability_id option) \<Rightarrow> flow_definition \<Rightarrow> orca_error + string \<times> string" where
  "flow_identity digest attr fl =
     (case fingerprint digest attr fl of Inl err \<Rightarrow> Inl err | Inr f \<Rightarrow> Inr (fl_name fl, f))"

section \<open>Declaration order never matters\<close>

text \<open>
  The shape the fingerprint covers: what each operator and each capability declares, by name, and the
  text of the completion condition.
\<close>

type_synonym operator_shape = "operator_id \<times> string list \<times> string list \<times> string list \<times> bool \<times> rerun_on \<times> int option"
type_synonym capability_shape = "capability_id \<times> string list \<times> string list"

definition operator_shape :: "(pyclass \<Rightarrow> capability_id option) \<Rightarrow> operator_class \<Rightarrow> operator_shape" where
  "operator_shape attr x =
     (op_id x, sort (map cls_name (op_depends_on x)), sort (map cls_name (op_produces x)), sort (map (capability_name attr) (op_requires x)),
      rerun_on_new_data (op_policy x), rerun_on (op_policy x), max_cycles (op_policy x))"

definition capability_shape :: "(pyclass \<Rightarrow> capability_id option) \<Rightarrow> capability_class \<Rightarrow> capability_shape" where
  "capability_shape attr k = (cap_id k, sort (map cls_name (cap_depends_on k)), sort (map (capability_name attr) (cap_requires k)))"

definition flow_shape ::
  "(pyclass \<Rightarrow> capability_id option) \<Rightarrow> flow_definition \<Rightarrow> completion_condition option \<Rightarrow>
     operator_shape list \<times> capability_shape list \<times> string" where
  "flow_shape attr fl c =
     (map (operator_shape attr) (sort_key op_id (fl_operators fl)), map (capability_shape attr) (sort_key cap_id (fl_capabilities fl)),
      completion_line c)"

fun operator_text :: "operator_shape \<Rightarrow> string" where
  "operator_text (oid, ds, ps, rs, again, kinds, cap) =
     ''operator '' @ oid @ '' depends_on=['' @ join_with '','' ds @ ''] produces=['' @ join_with '','' ps @ ''] requires=['' @
     join_with '','' rs @ ''] rerun_on_new_data='' @ show_bool again @ '' rerun_on='' @ rerun_on_value kinds @ '' max_cycles='' @ show_cap cap"

fun capability_text :: "capability_shape \<Rightarrow> string" where
  "capability_text (cid, ds, rs) =
     ''capability '' @ cid @ '' depends_on=['' @ join_with '','' ds @ ''] requires=['' @ join_with '','' rs @ '']''"

lemma lines_of_shape:
  "fingerprint_lines attr fl c = (case flow_shape attr fl c of (os, ks, l) \<Rightarrow> map operator_text os @ map capability_text ks @ [l])"
  by (simp add: fingerprint_lines_def flow_shape_def operator_line_def capability_line_def operator_shape_def capability_shape_def
      data_point_names_def capability_names_def)

section \<open>The text determines the shape\<close>

text \<open>A name that occurs in the text has none of the characters the text is built with.\<close>

definition plain :: "string \<Rightarrow> bool" where
  "plain n \<longleftrightarrow> n \<noteq> [] \<and> set n \<inter> {CHR '','', CHR '' '', CHR '']'', CHR 0x0A} = {}"

lemma split_at_char:
  "xs @ c # ys = xs' @ c # ys' \<Longrightarrow> c \<notin> set xs \<Longrightarrow> c \<notin> set xs' \<Longrightarrow> xs = xs' \<and> ys = ys'"
proof (induction xs arbitrary: xs')
  case Nil
  then show ?case by (cases xs') auto
next
  case (Cons x xs)
  then show ?case by (cases xs') auto
qed

lemma join_with_inject:
  assumes "\<forall>x \<in> set xs. x \<noteq> [] \<and> c \<notin> set x" and "\<forall>y \<in> set ys. y \<noteq> [] \<and> c \<notin> set y"
  shows "join_with [c] xs = join_with [c] ys \<longleftrightarrow> xs = ys"
  using assms
proof (induction xs arbitrary: ys)
  case Nil
  then show ?case by (cases ys) auto
next
  case (Cons x xs)
  show ?case
  proof (cases ys)
    case Nil
    with Cons.prems show ?thesis by auto
  next
    case (Cons y zs)
    have IH: "join_with [c] xs = join_with [c] zs \<longleftrightarrow> xs = zs" using Cons.IH [of zs] Cons.prems Cons by simp
    have ne: "c \<notin> set x" "c \<notin> set y" using Cons.prems Cons by auto
    show ?thesis
    proof (cases "xs = [] \<or> zs = []")
      case True
      have "join_with [c] (x # xs) \<noteq> join_with [c] (y # zs)" if "(xs = []) \<noteq> (zs = [])"
      proof
        assume eq: "join_with [c] (x # xs) = join_with [c] (y # zs)"
        from arg_cong [where f = set, OF this] have "c \<in> set x \<or> c \<in> set y" using that by (cases "xs = []") auto
        with ne show False by simp
      qed
      with True Cons show ?thesis by auto
    next
      case False
      then have "join_with [c] (x # xs) = x @ c # join_with [c] xs" "join_with [c] (y # zs) = y @ c # join_with [c] zs" by simp_all
      then have "join_with [c] (x # xs) = join_with [c] ys \<longleftrightarrow> x @ c # join_with [c] xs = y @ c # join_with [c] zs"
        unfolding Cons by (simp only:)
      also have "\<dots> \<longleftrightarrow> x = y \<and> xs = zs" using split_at_char [of x c "join_with [c] xs" y "join_with [c] zs", OF _ ne] IH by blast
      finally show ?thesis using Cons by simp
    qed
  qed
qed

lemma plain_join: "\<forall>x \<in> set xs. plain x \<Longrightarrow> CHR '']'' \<notin> set (join_with '','' xs)" "\<forall>x \<in> set xs. plain x \<Longrightarrow> CHR 0x0A \<notin> set (join_with '','' xs)"
  by (induction xs) (auto simp: plain_def)

lemma plain_join_inject: "\<forall>x \<in> set xs. plain x \<Longrightarrow> \<forall>y \<in> set ys. plain y \<Longrightarrow> join_with '','' xs = join_with '','' ys \<longleftrightarrow> xs = ys"
  by (rule join_with_inject) (auto simp: plain_def)


definition plain_operator :: "operator_shape \<Rightarrow> bool" where
  "plain_operator s \<longleftrightarrow> (case s of (oid, ds, ps, rs, again, kinds, cap) \<Rightarrow>
     plain oid \<and> (\<forall>n \<in> set ds. plain n) \<and> (\<forall>n \<in> set ps. plain n) \<and> (\<forall>n \<in> set rs. plain n))"

definition plain_capability :: "capability_shape \<Rightarrow> bool" where
  "plain_capability s \<longleftrightarrow> (case s of (cid, ds, rs) \<Rightarrow> plain cid \<and> (\<forall>n \<in> set ds. plain n) \<and> (\<forall>n \<in> set rs. plain n))"

lemma split_after:
  assumes "xs @ c # ys = xs' @ c # ys'" and "c \<notin> set xs" and "c \<notin> set xs'"
  obtains "xs = xs'" and "ys = ys'"
  using split_at_char [OF assms] by blast

lemma show_bool_inject [simp]: "show_bool a = show_bool b \<longleftrightarrow> a = b"
  by (cases a; cases b) (simp_all add: show_bool_def)

lemma rerun_on_value_inject [simp]: "rerun_on_value a = rerun_on_value b \<longleftrightarrow> a = b"
  by (cases a; cases b) (simp_all add: rerun_on_value_def)

lemma no_blank: "CHR '' '' \<notin> set (show_bool b)" "CHR '' '' \<notin> set (rerun_on_value r)"
  by (simp_all add: show_bool_def rerun_on_value_def split: rerun_on.split)

lemma show_cap_inject [simp]: "show_cap a = show_cap b \<longleftrightarrow> a = b"
proof -
  have "parse_int ''None'' = None" by code_simp
  then have "show_int n \<noteq> ''None''" for n using parse_show_int [of n] by (metis option.distinct(1))
  then show ?thesis by (cases a; cases b) (auto simp: show_cap_def dest: sym)
qed

lemma operator_text_inject:
  assumes "plain_operator s" and "plain_operator s'" and "operator_text s = operator_text s'"
  shows "s = s'"
proof -
  obtain oid ds ps rs again kinds cap where s: "s = (oid, ds, ps, rs, again, kinds, cap)" by (cases s) auto
  obtain oid' ds' ps' rs' again' kinds' cap' where s': "s' = (oid', ds', ps', rs', again', kinds', cap')" by (cases s') auto
  from assms(1,2) have p: "CHR '' '' \<notin> set oid" "CHR '' '' \<notin> set oid'" "\<forall>n \<in> set ds. plain n" "\<forall>n \<in> set ds'. plain n"
    "\<forall>n \<in> set ps. plain n" "\<forall>n \<in> set ps'. plain n" "\<forall>n \<in> set rs. plain n" "\<forall>n \<in> set rs'. plain n"
    by (auto simp: plain_operator_def s s' plain_def)
  from assms(3) have "oid @ CHR '' '' # (''depends_on=['' @ join_with '','' ds @ ''] produces=['' @ join_with '','' ps @ ''] requires=['' @
     join_with '','' rs @ ''] rerun_on_new_data='' @ show_bool again @ '' rerun_on='' @ rerun_on_value kinds @ '' max_cycles='' @ show_cap cap) =
     oid' @ CHR '' '' # (''depends_on=['' @ join_with '','' ds' @ ''] produces=['' @ join_with '','' ps' @ ''] requires=['' @
     join_with '','' rs' @ ''] rerun_on_new_data='' @ show_bool again' @ '' rerun_on='' @ rerun_on_value kinds' @ '' max_cycles='' @ show_cap cap')"
    by (simp add: s s')
  from split_at_char [OF this p(1,2)] have 1: "oid = oid'" and
    "join_with '','' ds @ CHR '']'' # ('' produces=['' @ join_with '','' ps @ ''] requires=['' @
     join_with '','' rs @ ''] rerun_on_new_data='' @ show_bool again @ '' rerun_on='' @ rerun_on_value kinds @ '' max_cycles='' @ show_cap cap) =
     join_with '','' ds' @ CHR '']'' # ('' produces=['' @ join_with '','' ps' @ ''] requires=['' @
     join_with '','' rs' @ ''] rerun_on_new_data='' @ show_bool again' @ '' rerun_on='' @ rerun_on_value kinds' @ '' max_cycles='' @ show_cap cap')"
    by simp_all
  from split_at_char [OF this(2) plain_join(1) [OF p(3)] plain_join(1) [OF p(4)]] have 2: "join_with '','' ds = join_with '','' ds'" and
    "join_with '','' ps @ CHR '']'' # ('' requires=['' @
     join_with '','' rs @ ''] rerun_on_new_data='' @ show_bool again @ '' rerun_on='' @ rerun_on_value kinds @ '' max_cycles='' @ show_cap cap) =
     join_with '','' ps' @ CHR '']'' # ('' requires=['' @
     join_with '','' rs' @ ''] rerun_on_new_data='' @ show_bool again' @ '' rerun_on='' @ rerun_on_value kinds' @ '' max_cycles='' @ show_cap cap')"
    by simp_all
  from split_at_char [OF this(2) plain_join(1) [OF p(5)] plain_join(1) [OF p(6)]] have 3: "join_with '','' ps = join_with '','' ps'" and
    "join_with '','' rs @ CHR '']'' # ('' rerun_on_new_data='' @ show_bool again @ '' rerun_on='' @ rerun_on_value kinds @ '' max_cycles='' @ show_cap cap) =
     join_with '','' rs' @ CHR '']'' # ('' rerun_on_new_data='' @ show_bool again' @ '' rerun_on='' @ rerun_on_value kinds' @ '' max_cycles='' @ show_cap cap')"
    by simp_all
  from split_at_char [OF this(2) plain_join(1) [OF p(7)] plain_join(1) [OF p(8)]] have 4: "join_with '','' rs = join_with '','' rs'" and
    "show_bool again @ CHR '' '' # (''rerun_on='' @ rerun_on_value kinds @ '' max_cycles='' @ show_cap cap) =
     show_bool again' @ CHR '' '' # (''rerun_on='' @ rerun_on_value kinds' @ '' max_cycles='' @ show_cap cap')"
    by simp_all
  from split_at_char [OF this(2) no_blank(1) no_blank(1)] have 5: "again = again'" and
    "rerun_on_value kinds @ CHR '' '' # (''max_cycles='' @ show_cap cap) = rerun_on_value kinds' @ CHR '' '' # (''max_cycles='' @ show_cap cap')"
    by simp_all
  from split_at_char [OF this(2) no_blank(2) no_blank(2)] have 6: "kinds = kinds'" "cap = cap'" by simp_all
  from 1 2 3 4 5 6 p show ?thesis by (simp add: s s' plain_join_inject)
qed

lemma capability_text_inject:
  assumes "plain_capability s" and "plain_capability s'" and "capability_text s = capability_text s'"
  shows "s = s'"
proof -
  obtain cid ds rs where s: "s = (cid, ds, rs)" by (cases s) auto
  obtain cid' ds' rs' where s': "s' = (cid', ds', rs')" by (cases s') auto
  from assms(1,2) have p: "CHR '' '' \<notin> set cid" "CHR '' '' \<notin> set cid'" "\<forall>n \<in> set ds. plain n" "\<forall>n \<in> set ds'. plain n"
    "\<forall>n \<in> set rs. plain n" "\<forall>n \<in> set rs'. plain n" by (auto simp: plain_capability_def s s' plain_def)
  from assms(3) have "cid @ CHR '' '' # (''depends_on=['' @ join_with '','' ds @ ''] requires=['' @ join_with '','' rs @ '']'') =
     cid' @ CHR '' '' # (''depends_on=['' @ join_with '','' ds' @ ''] requires=['' @ join_with '','' rs' @ '']'')" by (simp add: s s')
  from split_at_char [OF this p(1,2)] have 1: "cid = cid'" and
    "join_with '','' ds @ CHR '']'' # ('' requires=['' @ join_with '','' rs @ '']'') =
     join_with '','' ds' @ CHR '']'' # ('' requires=['' @ join_with '','' rs' @ '']'')" by simp_all
  from split_at_char [OF this(2) plain_join(1) [OF p(3)] plain_join(1) [OF p(4)]] 1 p show ?thesis by (simp add: s s' plain_join_inject)
qed


lemma no_newline_int: "CHR 0x0A \<notin> set (show_int n)"
proof -
  have "CHR 0x0A \<notin> set (show_nat m)" for m
    using show_nat_chars(2) [of "CHR 0x0A" m] by (auto simp: is_blank_def)
  then show ?thesis by (simp add: show_int_def)
qed

lemma no_newline:
  "plain_operator s \<Longrightarrow> CHR 0x0A \<notin> set (operator_text s)" "plain_capability k \<Longrightarrow> CHR 0x0A \<notin> set (capability_text k)"
proof -
  have "CHR 0x0A \<notin> set (show_bool b)" "CHR 0x0A \<notin> set (rerun_on_value r)" "CHR 0x0A \<notin> set (show_cap m)" for b r m
    by (simp_all add: show_bool_def rerun_on_value_def show_cap_def no_newline_int split: rerun_on.split option.split)
  then show "plain_operator s \<Longrightarrow> CHR 0x0A \<notin> set (operator_text s)"
    by (cases s) (simp add: plain_operator_def plain_def plain_join(2))
  show "plain_capability k \<Longrightarrow> CHR 0x0A \<notin> set (capability_text k)"
    by (cases k) (simp add: plain_capability_def plain_def plain_join(2))
qed

lemma text_heads:
  "hd (operator_text s) = CHR ''o''" "operator_text s \<noteq> []" "hd (capability_text k) = CHR ''c''" "capability_text k \<noteq> []"
  "hd (tl (capability_text k)) = CHR ''a''" "hd (tl (completion_line c)) = CHR ''o''" "hd (completion_line c) = CHR ''c''" "completion_line c \<noteq> []"
  by (cases s; cases k; simp add: completion_line_def)+

lemma map_text_inject:
  assumes "\<And>x y. x \<in> set xs \<Longrightarrow> y \<in> set ys \<Longrightarrow> f x = f y \<Longrightarrow> x = y" and "map f xs = map f ys"
  shows "xs = ys"
  using assms(2,1) by (induction xs arbitrary: ys) (auto simp: Cons_eq_map_conv map_eq_Cons_conv)

text \<open>The lines of one kind are those with its heading.\<close>

lemma lines_split:
  assumes "map operator_text os @ map capability_text ks @ [completion_line c] = map operator_text os' @ map capability_text ks' @ [completion_line c']"
  shows "map operator_text os = map operator_text os'" "map capability_text ks = map capability_text ks'" "completion_line c = completion_line c'"
proof -
  let ?o = "\<lambda>l. hd l = CHR ''o''" and ?a = "\<lambda>l. hd (tl l) = CHR ''a''"
  have o: "filter ?o (map operator_text xs @ map capability_text ys @ [completion_line z]) = map operator_text xs" for xs ys z
    by (simp add: filter_map text_heads comp_def)
  from arg_cong [OF assms, where f = "filter ?o"] show 1: "map operator_text os = map operator_text os'" unfolding o .
  with assms have 2: "map capability_text ks @ [completion_line c] = map capability_text ks' @ [completion_line c']" by simp
  have a: "filter ?a (map capability_text ys @ [completion_line z]) = map capability_text ys" for ys z
    by (simp add: filter_map text_heads comp_def)
  from arg_cong [OF 2, where f = "filter ?a"] show "map capability_text ks = map capability_text ks'" unfolding a .
  from 2 show "completion_line c = completion_line c'" by simp
qed


lemma map_sort_key: "map g (sort_key (\<lambda>x. f (g x)) xs) = sort_key f (map g xs)"
proof -
  have "map g (insort_key (\<lambda>x. f (g x)) x xs) = insort_key f (g x) (map g xs)" for x xs by (induction xs) simp_all
  then show ?thesis by (induction xs) simp_all
qed

lemma sort_key_set_eq:
  assumes "distinct (map f xs)" and "distinct (map f ys)"
  shows "sort_key f xs = sort_key f ys \<longleftrightarrow> set xs = set ys"
proof
  assume "sort_key f xs = sort_key f ys"
  then show "set xs = set ys" by (metis set_sort)
next
  assume s: "set xs = set ys"
  have d: "distinct (map f (sort_key f zs))" if "distinct (map f zs)" for zs using that by (simp add: distinct_map)
  from assms(1) s have "inj_on f (set (sort_key f xs) \<union> set (sort_key f ys))" by (simp add: distinct_map)
  then show "sort_key f xs = sort_key f ys"
    by (rule map_sorted_distinct_set_unique) (use s assms d in simp_all)
qed

definition well_named :: "(pyclass \<Rightarrow> capability_id option) \<Rightarrow> flow_definition \<Rightarrow> completion_condition option \<Rightarrow> bool" where
  "well_named attr fl c \<longleftrightarrow> normalize_completion (fl_completes_when fl) = Inr c \<and> CHR 0x0A \<notin> set (completion_line c) \<and>
     distinct (map op_id (fl_operators fl)) \<and> distinct (map cap_id (fl_capabilities fl)) \<and>
     (\<forall>x \<in> set (fl_operators fl). plain_operator (operator_shape attr x)) \<and>
     (\<forall>k \<in> set (fl_capabilities fl). plain_capability (capability_shape attr k))"

lemma shape_sets:
  "distinct (map op_id (fl_operators fl)) \<Longrightarrow> distinct (map op_id (fl_operators fl')) \<Longrightarrow>
     map (operator_shape attr) (sort_key op_id (fl_operators fl)) = map (operator_shape attr) (sort_key op_id (fl_operators fl')) \<longleftrightarrow>
     operator_shape attr ` set (fl_operators fl) = operator_shape attr ` set (fl_operators fl')"
  "distinct (map cap_id (fl_capabilities fl)) \<Longrightarrow> distinct (map cap_id (fl_capabilities fl')) \<Longrightarrow>
     map (capability_shape attr) (sort_key cap_id (fl_capabilities fl)) = map (capability_shape attr) (sort_key cap_id (fl_capabilities fl')) \<longleftrightarrow>
     capability_shape attr ` set (fl_capabilities fl) = capability_shape attr ` set (fl_capabilities fl')"
  using map_sort_key [of "operator_shape attr" fst] map_sort_key [of "capability_shape attr" fst]
    sort_key_set_eq [of fst "map (operator_shape attr) (fl_operators fl)" "map (operator_shape attr) (fl_operators fl')"]
    sort_key_set_eq [of fst "map (capability_shape attr) (fl_capabilities fl)" "map (capability_shape attr) (fl_capabilities fl')"]
  by (simp_all add: operator_shape_def capability_shape_def comp_def)


section \<open>What the fingerprint does not cover\<close>

definition flow_of :: "operator_class list \<Rightarrow> flow_definition" where
  "flow_of ops = \<lparr>fl_name = ''flow'', fl_operators = ops, fl_capabilities = [], fl_completes_when = None, fl_retry_policy = None, fl_park_after = None,
     fl_operation_timeout = None, fl_session_deadline = None, fl_max_inbox_deliveries = None, fl_emission_queue_size = None\<rparr>"

definition demo_writer :: "pyclass list \<Rightarrow> operator_class" where
  "demo_writer consumes = (sample_operator ''writer'' [] [] [])\<lparr>is_aggregator := True, op_consumes := consumes\<rparr>"

definition demo_producer :: operator_class where
  "demo_producer = sample_operator ''producer'' [] [PyClass ''Lead'' []] []"


text \<open>
  Also: a change of \<^verbatim>\<open>consumes\<close> is not drift. Whatever the digest, giving an aggregator a \<^verbatim>\<open>consumes\<close>
  declaration leaves the fingerprint as it was, although it prunes an operator from the run.
\<close>

theorem consumes_is_not_drift:
  "fingerprint digest attr (flow_of [demo_producer, demo_writer []]) =
     fingerprint digest attr (flow_of [demo_producer, demo_writer [PyClass ''Score'' []]]) \<and>
   pruned_gathering empty_registry [demo_producer, demo_writer []] [] None = [demo_producer] \<and>
   pruned_gathering empty_registry [demo_producer, demo_writer [PyClass ''Score'' []]] [] None = []"
proof (intro conjI)
  let ?n = "normalize_completion None = Inr None"
  have n: ?n by (simp add: normalize_completion_def)
  have "operator_line attr (demo_writer [PyClass ''Score'' []]) = operator_line attr (demo_writer [])"
    "op_id (demo_writer [PyClass ''Score'' []]) = ''writer''" "op_id (demo_writer []) = ''writer''"
    by (simp_all add: operator_line_def demo_writer_def sample_operator_def)
  then show "fingerprint digest attr (flow_of [demo_producer, demo_writer []]) =
     fingerprint digest attr (flow_of [demo_producer, demo_writer [PyClass ''Score'' []]])"
    by (simp add: fingerprint_def fingerprint_lines_def flow_of_def n demo_producer_def sample_operator_def)
qed (simp_all add: pruned_gathering_def gathering_of_def aggregators_of_def prune_to_consumed_closure_def demo_writer_def demo_producer_def
    sample_operator_def referenced_types_def backward_reachable_def Let_def kept_operators_def admit_loop.simps produces_needed_def
    effective_produces_def empty_registry_def issubclass_def
    keep_capabilities.simps capability_pass_def requirement_pairs_def)

end
