(* ===== verification/Pacing.thy ===== *)
theory Pacing
  imports Orca_Prelude
begin

text \<open>
  The pacing ports in memory: the token bucket \<^verbatim>\<open>orcastork/adapters/memory/rate_limiter.py\<close>
  and the cooldown gate \<^verbatim>\<open>orcastork/adapters/memory/gate.py\<close>. Python's floats are reals here.
  The clock is an argument of each step: an acquire is a sequence of attempts, each at the time
  the clock shows, with a sleep of the returned length after an attempt that found no token.
\<close>

section \<open>The token bucket\<close>

record bucket =
  bk_tokens :: real
  bk_refilled_at :: seconds

record rate_limiter =
  rl_rate :: real
  rl_burst :: int
  rl_buckets :: "string \<rightharpoonup> bucket"

definition rate_limiter_of :: "real \<Rightarrow> int \<Rightarrow> orca_error + rate_limiter" where
  "rate_limiter_of rate burst =
     (if rate \<le> 0 then Inl ValueError
      else if burst < 1 then Inl ValueError
      else Inr \<lparr>rl_rate = rate, rl_burst = burst, rl_buckets = Map.empty\<rparr>)"

definition bucket_at :: "rate_limiter \<Rightarrow> string \<Rightarrow> seconds \<Rightarrow> bucket" where
  "bucket_at l key now =
     (case rl_buckets l key of None \<Rightarrow> \<lparr>bk_tokens = real_of_int (rl_burst l), bk_refilled_at = now\<rparr> | Some b \<Rightarrow> b)"

definition refill :: "rate_limiter \<Rightarrow> seconds \<Rightarrow> bucket \<Rightarrow> bucket" where
  "refill l now b =
     \<lparr>bk_tokens = min (real_of_int (rl_burst l)) (bk_tokens b + (now - bk_refilled_at b) * rl_rate l), bk_refilled_at = now\<rparr>"

text \<open>One iteration of the loop of \<^verbatim>\<open>acquire\<close>: \<open>None\<close> returns, \<open>Some d\<close> sleeps \<open>d\<close> and tries again.\<close>

definition acquire_attempt :: "string \<Rightarrow> seconds \<Rightarrow> rate_limiter \<Rightarrow> seconds option \<times> rate_limiter" where
  "acquire_attempt key now l =
     (let b = refill l now (bucket_at l key now) in
      if 1 \<le> bk_tokens b then
        (None, l\<lparr>rl_buckets := (rl_buckets l)(key \<mapsto> b\<lparr>bk_tokens := bk_tokens b - 1\<rparr>)\<rparr>)
      else (Some ((1 - bk_tokens b) / rl_rate l), l\<lparr>rl_buckets := (rl_buckets l)(key \<mapsto> b)\<rparr>))"

text \<open>A caller alone on the clock. The result is the time at which the call returns.\<close>

partial_function (option) acquire_alone :: "string \<Rightarrow> seconds \<Rightarrow> rate_limiter \<Rightarrow> (seconds \<times> rate_limiter) option" where
  "acquire_alone key now l =
     (case acquire_attempt key now l of
        (None, l') \<Rightarrow> Some (now, l')
      | (Some d, l') \<Rightarrow> acquire_alone key (now + d) l')"

text \<open>Any interleaving of attempts of any callers; the grants of one key are counted.\<close>

primrec attempts :: "(seconds \<times> string) list \<Rightarrow> rate_limiter \<Rightarrow> rate_limiter" where
  "attempts [] l = l"
| "attempts (a # as) l = attempts as (snd (acquire_attempt (snd a) (fst a) l))"

primrec granted :: "string \<Rightarrow> (seconds \<times> string) list \<Rightarrow> rate_limiter \<Rightarrow> nat" where
  "granted key [] l = 0"
| "granted key (a # as) l =
     (if snd a = key \<and> fst (acquire_attempt (snd a) (fst a) l) = None then 1 else 0) +
     granted key as (snd (acquire_attempt (snd a) (fst a) l))"

section \<open>Bounds\<close>

definition limiter_ok :: "seconds \<Rightarrow> rate_limiter \<Rightarrow> bool" where
  "limiter_ok now l \<longleftrightarrow> 0 < rl_rate l \<and> 1 \<le> rl_burst l \<and>
     (\<forall>key b. rl_buckets l key = Some b \<longrightarrow> 0 \<le> bk_tokens b \<and> bk_tokens b \<le> real_of_int (rl_burst l) \<and> bk_refilled_at b \<le> now)"

lemma limiter_of_ok: "rate_limiter_of rate burst = Inr l \<Longrightarrow> limiter_ok now l"
  by (auto simp: rate_limiter_of_def limiter_ok_def split: if_splits)

lemma limiter_ok_later: "limiter_ok now l \<Longrightarrow> now \<le> t \<Longrightarrow> limiter_ok t l"
  unfolding limiter_ok_def by (meson order_trans)

lemma bucket_at_ok:
  assumes "limiter_ok now l"
  shows "0 \<le> bk_tokens (bucket_at l key now)" "bk_tokens (bucket_at l key now) \<le> real_of_int (rl_burst l)"
    "bk_refilled_at (bucket_at l key now) \<le> now"
  using assms by (auto simp: limiter_ok_def bucket_at_def split: option.splits)

lemma refill_ok:
  assumes "limiter_ok now l"
  shows "0 \<le> bk_tokens (refill l now (bucket_at l key now))"
    "bk_tokens (refill l now (bucket_at l key now)) \<le> real_of_int (rl_burst l)"
    "bk_tokens (refill l now (bucket_at l key now)) \<le>
       bk_tokens (bucket_at l key now) + (now - bk_refilled_at (bucket_at l key now)) * rl_rate l"
    "bk_refilled_at (refill l now (bucket_at l key now)) = now"
  using bucket_at_ok [OF assms, of key] assms by (auto simp: refill_def limiter_ok_def)

lemma acquire_attempt_frame:
  "rl_rate (snd (acquire_attempt key now l)) = rl_rate l" "rl_burst (snd (acquire_attempt key now l)) = rl_burst l"
  "k \<noteq> key \<Longrightarrow> rl_buckets (snd (acquire_attempt key now l)) k = rl_buckets l k"
  by (simp_all add: acquire_attempt_def Let_def)

lemma acquire_attempt_ok:
  assumes "limiter_ok now l"
  shows "limiter_ok now (snd (acquire_attempt key now l))"
  using assms refill_ok [OF assms, of key] by (auto simp: acquire_attempt_def limiter_ok_def Let_def split: if_splits)

text \<open>The potential of a key: its tokens at a time, as the refill rule would compute them without the cap.\<close>

definition potential :: "rate_limiter \<Rightarrow> string \<Rightarrow> seconds \<Rightarrow> real" where
  "potential l key now = (case rl_buckets l key of
     None \<Rightarrow> real_of_int (rl_burst l) | Some b \<Rightarrow> bk_tokens b + (now - bk_refilled_at b) * rl_rate l)"

lemma potential_nonneg: "limiter_ok now l \<Longrightarrow> 0 \<le> potential l key now"
  by (auto simp: potential_def limiter_ok_def split: option.split)

lemma potential_later:
  assumes "limiter_ok now l" and "now \<le> t"
  shows "potential l key t \<le> potential l key now + (t - now) * rl_rate l"
  using assms by (auto simp: potential_def limiter_ok_def algebra_simps split: option.split)

lemma potential_attempt:
  assumes "limiter_ok now l"
  shows "potential (snd (acquire_attempt k now l)) key now +
     (if k = key \<and> fst (acquire_attempt k now l) = None then 1 else 0) \<le> potential l key now"
proof (cases "k = key")
  case True
  have "bk_tokens (bucket_at l key now) + (now - bk_refilled_at (bucket_at l key now)) * rl_rate l = potential l key now"
    by (simp add: bucket_at_def potential_def split: option.split)
  with refill_ok(3) [OF assms, of key] refill_ok(4) [OF assms, of key] True show ?thesis
    by (simp add: acquire_attempt_def Let_def potential_def [of "_\<lparr>rl_buckets := _\<rparr>"])
next
  case False
  then show ?thesis by (auto simp: potential_def acquire_attempt_frame split: option.split)
qed

lemma granted_potential:
  "limiter_ok now l \<Longrightarrow> sorted (now # map fst as) \<Longrightarrow>
     real (granted key as l) \<le> potential l key now + (last (now # map fst as) - now) * rl_rate l"
proof (induction as arbitrary: now l)
  case Nil
  then show ?case by (simp add: potential_nonneg)
next
  case (Cons a as)
  let ?l = "snd (acquire_attempt (snd a) (fst a) l)"
  let ?g = "if snd a = key \<and> fst (acquire_attempt (snd a) (fst a) l) = None then 1 else 0 :: real"
  have le: "now \<le> fst a" and s: "sorted (fst a # map fst as)" using Cons.prems(2) by auto
  have ok: "limiter_ok (fst a) l" by (rule limiter_ok_later [OF Cons.prems(1) le])
  have "real (granted key as ?l) \<le> potential ?l key (fst a) + (last (fst a # map fst as) - fst a) * rl_rate ?l"
    by (rule Cons.IH [OF acquire_attempt_ok [OF ok] s])
  moreover have "potential ?l key (fst a) + ?g \<le> potential l key (fst a)" by (rule potential_attempt [OF ok])
  moreover have "potential l key (fst a) \<le> potential l key now + (fst a - now) * rl_rate l"
    by (rule potential_later [OF Cons.prems(1) le])
  moreover have "real (granted key (a # as) l) = ?g + real (granted key as ?l)"
    by (cases "snd a = key \<and> fst (acquire_attempt (snd a) (fst a) l) = None") auto
  ultimately show ?case by (simp add: acquire_attempt_frame algebra_simps)
qed

text \<open>
  Also: over any interleaving of acquire attempts of any callers, at nondecreasing times, the grants
  of one key never exceed the burst plus the rate times the time that passed.
\<close>

theorem token_bucket_bound:
  assumes "rate_limiter_of rate burst = Inr l" and "sorted (start # map fst as)"
  shows "real (granted key as l) \<le> real_of_int burst + rate * (last (start # map fst as) - start)"
proof -
  have l: "rl_rate l = rate" "potential l key start = real_of_int burst"
    using assms(1) by (auto simp: rate_limiter_of_def potential_def split: if_splits)
  from granted_potential [OF limiter_of_ok [OF assms(1)] assms(2), of key] show ?thesis
    by (simp add: l mult.commute)
qed

theorem token_bucket_bound_witness:
  "real (granted ''k'' [(0, ''k''), (0, ''k''), (3, ''k'')] \<lparr>rl_rate = 1, rl_burst = 1, rl_buckets = Map.empty\<rparr>) \<le> 4"
  using token_bucket_bound [of 1 1 "\<lparr>rl_rate = 1, rl_burst = 1, rl_buckets = Map.empty\<rparr>" 0
      "[(0, ''k''), (0, ''k''), (3, ''k'')]" "''k''"]
  by (simp add: rate_limiter_of_def)

lemma acquire_after_sleep:
  assumes "limiter_ok now l" and "acquire_attempt key now l = (Some d, l')"
  shows "0 < d \<and> d * rl_rate l \<le> 1 \<and> fst (acquire_attempt key (now + d) l') = None"
proof -
  let ?b = "refill l now (bucket_at l key now)"
  have d: "d = (1 - bk_tokens ?b) / rl_rate l" "bk_tokens ?b < 1"
    and l': "l' = l\<lparr>rl_buckets := (rl_buckets l)(key \<mapsto> ?b)\<rparr>"
    using assms(2) by (auto simp: acquire_attempt_def Let_def split: if_splits)
  have r: "0 < rl_rate l" "1 \<le> rl_burst l" using assms(1) by (auto simp: limiter_ok_def)
  have e: "bk_tokens ?b + (now + d - bk_refilled_at ?b) * rl_rate l = 1"
    using r(1) refill_ok(4) [OF assms(1), of key] by (simp add: d(1))
  have "refill l' (now + d) (bucket_at l' key (now + d)) = \<lparr>bk_tokens = min (real_of_int (rl_burst l)) 1, bk_refilled_at = now + d\<rparr>"
  proof -
    have b: "bucket_at l' key (now + d) = ?b" by (simp add: bucket_at_def [of _ key "now + d"] l')
    have "refill l' t x = \<lparr>bk_tokens = min (real_of_int (rl_burst l)) (bk_tokens x + (t - bk_refilled_at x) * rl_rate l),
        bk_refilled_at = t\<rparr>" for t x
      by (simp add: refill_def l')
    then show ?thesis by (simp only: b e)
  qed
  with r(2) have "fst (acquire_attempt key (now + d) l') = None" by (simp add: acquire_attempt_def Let_def)
  moreover have "0 < d" using d r(1) by simp
  moreover have "d * rl_rate l \<le> 1" using d(1) r(1) refill_ok(1) [OF assms(1), of key] by simp
  ultimately show ?thesis by simp
qed

text \<open>
  Also: a caller alone on the clock always gets its token: \<^verbatim>\<open>acquire\<close> returns after at most one
  sleep, no later than the time one token takes to refill.
\<close>

theorem acquire_returns:
  assumes "limiter_ok now l"
  shows "\<exists>t l'. acquire_alone key now l = Some (t, l') \<and> now \<le> t \<and> (t - now) * rl_rate l \<le> 1"
proof (cases "acquire_attempt key now l")
  case (Pair r l1)
  show ?thesis
  proof (cases r)
    case None
    with Pair show ?thesis by (simp add: acquire_alone.simps [of key now l])
  next
    case (Some d)
    with Pair have a: "acquire_attempt key now l = (Some d, l1)" by simp
    from acquire_after_sleep [OF assms a] obtain l2 where b: "acquire_attempt key (now + d) l1 = (None, l2)"
      "0 < d" "d * rl_rate l \<le> 1" by (cases "acquire_attempt key (now + d) l1") auto
    have "acquire_alone key (now + d) l1 = Some (now + d, l2)" by (simp add: acquire_alone.simps [of key "now + d" l1] b(1))
    with a b(2,3) show ?thesis by (simp add: acquire_alone.simps [of key now l])
  qed
qed

theorem acquire_returns_witness:
  "\<exists>t l'. acquire_alone ''k'' 5 \<lparr>rl_rate = 2, rl_burst = 1, rl_buckets = [''k'' \<mapsto> \<lparr>bk_tokens = 0, bk_refilled_at = 5\<rparr>]\<rparr> = Some (t, l') \<and>
     5 \<le> t \<and> (t - 5) * 2 \<le> 1"
  using acquire_returns [of 5 "\<lparr>rl_rate = 2, rl_burst = 1, rl_buckets = [''k'' \<mapsto> \<lparr>bk_tokens = 0, bk_refilled_at = 5\<rparr>]\<rparr>" "''k''"]
  by (simp add: limiter_ok_def)

section \<open>The cooldown gate\<close>

type_synonym cooldown_gate = "string \<rightharpoonup> seconds"

definition gate_try_acquire :: "string \<Rightarrow> seconds \<Rightarrow> seconds \<Rightarrow> cooldown_gate \<Rightarrow> bool \<times> cooldown_gate" where
  "gate_try_acquire key cooldown now g =
     (case g key of
        Some expires \<Rightarrow> if now < expires then (False, g) else (True, g(key \<mapsto> now + cooldown))
      | None \<Rightarrow> (True, g(key \<mapsto> now + cooldown)))"

primrec gate_grants :: "string \<Rightarrow> (string \<times> seconds \<times> seconds) list \<Rightarrow> cooldown_gate \<Rightarrow> (seconds \<times> seconds) list" where
  "gate_grants key [] g = []"
| "gate_grants key (c # cs) g =
     (case c of (k, cooldown, now) \<Rightarrow>
        (if k = key \<and> fst (gate_try_acquire k cooldown now g) then [(now, cooldown)] else []) @
        gate_grants key cs (snd (gate_try_acquire k cooldown now g)))"

lemma gate_grants_after:
  "g key = Some expires \<Longrightarrow> p \<in> set (gate_grants key cs g) \<Longrightarrow> \<forall>c \<in> set cs. 0 \<le> fst (snd c) \<Longrightarrow> expires \<le> fst p"
proof (induction cs arbitrary: g expires)
  case (Cons c cs)
  obtain k cooldown now where c: "c = (k, cooldown, now)" by (cases c)
  have cd: "0 \<le> cooldown" using Cons.prems(3) c by auto
  show ?case
  proof (cases "k = key \<and> expires \<le> now")
    case True
    with Cons.prems(1) have "snd (gate_try_acquire k cooldown now g) key = Some (now + cooldown)"
      by (simp add: gate_try_acquire_def)
    from Cons.IH [where g = "snd (gate_try_acquire k cooldown now g)", OF this] Cons.prems(2,3) c True cd show ?thesis by (auto split: if_splits)
  next
    case False
    with Cons.prems(1) have "snd (gate_try_acquire k cooldown now g) key = Some expires"
      and "\<not> (k = key \<and> fst (gate_try_acquire k cooldown now g))"
      by (auto simp: gate_try_acquire_def split: option.splits)
    with Cons.IH [where g = "snd (gate_try_acquire k cooldown now g)", OF this(1)] Cons.prems(2,3) c show ?thesis by auto
  qed
qed simp

text \<open>
  Also: between two grants of one key at least the cooldown of the earlier one passes, whatever the
  calls in between, for any number of keys and callers.
\<close>

theorem cooldown_separates_grants:
  assumes "\<forall>c \<in> set cs. 0 \<le> fst (snd c)"
  shows "sorted_wrt (\<lambda>p q. fst p + snd p \<le> fst q) (gate_grants key cs g)"
  using assms
proof (induction cs arbitrary: g)
  case (Cons c cs)
  obtain k cooldown now where c: "c = (k, cooldown, now)" by (cases c)
  let ?g = "snd (gate_try_acquire k cooldown now g)"
  have ih: "sorted_wrt (\<lambda>p q. fst p + snd p \<le> fst q) (gate_grants key cs ?g)" using Cons by auto
  show ?case
  proof (cases "k = key \<and> fst (gate_try_acquire k cooldown now g)")
    case True
    then have "?g key = Some (now + cooldown)" by (auto simp: gate_try_acquire_def split: option.splits if_splits)
    from gate_grants_after [where g = ?g, OF this] Cons.prems ih True c show ?thesis by auto
  qed (use ih c in auto)
qed simp

theorem cooldown_separates_grants_witness:
  "sorted_wrt (\<lambda>p q. fst p + snd p \<le> fst q) (gate_grants ''k'' [(''k'', 5, 1), (''k'', 5, 3), (''k'', 5, 7)] Map.empty)"
  by (rule cooldown_separates_grants) simp

end
