(* ===== verification/Manager.thy ===== *)
theory Manager
  imports Session_Outcome Flow Pacing
begin

text \<open>
  The fleet-level supervisor, \<^verbatim>\<open>orcastork/manager/manager.py\<close>, for one session: starting, resuming,
  re-opening, delivering, and the backstop that re-spawns after a completed run. A spawn is the
  constructor and the run of \<open>Session_Run\<close>. The manager shares the session with other pods: at every
  port call (and at the acquire of a spawn) \<open>ms_moves\<close> says what the others have done to the session
  since the last one, any function of the world; once the list is empty the others are still. A run
  with no end has no result (\<open>None\<close>).
\<close>

section \<open>Calls and moves\<close>

datatype redrive = Resume | ReopenOrResume

record manager_state =
  ms_world :: world
  ms_moves :: "(world \<Rightarrow> world) list"
  ms_gate :: cooldown_gate
  ms_rechecks :: "(redrive \<times> seconds) list"
  ms_spawned :: nat

type_synonym 'r call = "manager_state \<Rightarrow> ((orca_error + 'r) \<times> manager_state) option"

definition bindC :: "'a call \<Rightarrow> ('a \<Rightarrow> 'b call) \<Rightarrow> 'b call" where
  "bindC m f st = (case m st of None \<Rightarrow> None | Some (Inl err, st1) \<Rightarrow> Some (Inl err, st1) | Some (Inr x, st1) \<Rightarrow> f x st1)"

definition returnC :: "'a \<Rightarrow> 'a call" where
  "returnC x st = Some (Inr x, st)"

definition raiseC :: "orca_error \<Rightarrow> 'a call" where
  "raiseC err st = Some (Inl err, st)"

fun forC :: "('x \<Rightarrow> unit call) \<Rightarrow> 'x list \<Rightarrow> unit call" where
  "forC f [] = returnC ()"
| "forC f (x # xs) = bindC (f x) (\<lambda>_. forC f xs)"

definition others_move :: "manager_state \<Rightarrow> manager_state" where
  "others_move st = (case ms_moves st of [] \<Rightarrow> st | f # fs \<Rightarrow> st\<lparr>ms_world := f (ms_world st), ms_moves := fs\<rparr>)"

definition await :: "(world, 'r) op \<Rightarrow> 'r call" where
  "await m st = (let st1 = others_move st in case port m (ms_world st1) of (r, w) \<Rightarrow> Some (r, st1\<lparr>ms_world := w\<rparr>))"

definition on_world_lock :: "(lock_state, 'r) op \<Rightarrow> (world, 'r) op" where
  "on_world_lock f w = (case f (w_lock w) of (r, l) \<Rightarrow> (r, w\<lparr>w_lock := l\<rparr>))"

definition on_world_durable :: "(durable_state, 'r) op \<Rightarrow> (world, 'r) op" where
  "on_world_durable f w = (case f (w_durable w) of (r, d) \<Rightarrow> (r, w\<lparr>w_durable := d\<rparr>))"

definition ask :: "(world \<Rightarrow> 'r) \<Rightarrow> 'r call" where
  "ask f = await (\<lambda>w. (Inr (f w), w))"

section \<open>Spawning\<close>

record manager_config =
  mc_config :: gather_config
  mc_cipher :: "orca_error + resolved_cipher"
  mc_digest :: "string \<Rightarrow> string"
  mc_attr :: "pyclass \<Rightarrow> capability_id option"
  mc_gate :: "seconds option"
  mc_recheck_seconds :: seconds
  mc_serialize :: "data_point \<Rightarrow> string \<times> string"
  mc_rounds :: "nat \<Rightarrow> nat \<Rightarrow> round"

definition default_redelivery_recheck_seconds :: seconds where
  "default_redelivery_recheck_seconds = 35"

definition max_backstop_respawns :: nat where
  "max_backstop_respawns = 8"

definition never_minted_epoch :: epoch where
  "never_minted_epoch = 0"

definition default_retry_policy :: retry_policy where
  "default_retry_policy = \<lparr>max_attempts = 5, base_delay = 1 / 20, jitter = 1 / 5\<rparr>"

definition flow_tuning :: "flow_definition \<Rightarrow> tuning" where
  "flow_tuning fl = \<lparr>tu_operation_timeout = fl_operation_timeout fl, tu_session_deadline = fl_session_deadline fl, tu_park_after = fl_park_after fl,
     tu_lease_renew_interval = default_lease_renew_interval, tu_max_inbox_deliveries = fl_max_inbox_deliveries fl,
     tu_emission_queue_size = fl_emission_queue_size fl, tu_retry_policy = fl_retry_policy fl\<rparr>"

definition registered_caps :: "capability_class list \<Rightarrow> capability_registry" where
  "registered_caps caps = foldl (\<lambda>m k. AList.update (cap_id k) k m) [] caps"

definition session_setup_of :: "manager_config \<Rightarrow> flow_definition \<Rightarrow> data_point list \<Rightarrow> orca_error + session_setup" where
  "session_setup_of m fl seed =
     (case flow_identity (mc_digest m) (mc_attr m) fl of
        Inl err \<Rightarrow> Inl err
      | Inr ident \<Rightarrow>
          (case normalize_completion (fl_completes_when fl) of
             Inl err \<Rightarrow> Inl err
           | Inr cond \<Rightarrow>
               let c = apply_tuning default_retry_policy (flow_tuning fl) (mc_config m) in
               Inr \<lparr>ss_config = c\<lparr>gc_run := (gc_run c)\<lparr>rc_operators := fl_operators fl, rc_capabilities := fl_capabilities fl\<rparr>,
                       gc_completes_when := cond, gc_capability_registry := registered_caps (fl_capabilities fl)\<rparr>,
                    ss_seed = seed, ss_flow = Some ident, ss_cipher = mc_cipher m\<rparr>))"

definition spawn :: "manager_config \<Rightarrow> flow_definition \<Rightarrow> data_point list \<Rightarrow> bool \<Rightarrow> orchestrator_result call" where
  "spawn m fl seed fresh st =
     (case session_setup_of m fl seed of
        Inl err \<Rightarrow> Some (Inl err, st)
      | Inr s \<Rightarrow>
          let st1 = others_move st in
          (case orchestrator_init (ss_config s) fresh (ms_world st1) of
             Inl err \<Rightarrow> Some (Inl err, st)
           | Inr g \<Rightarrow>
               (case run s (mc_rounds m (ms_spawned st1)) g of
                  None \<Rightarrow> None
                | Some (r, g1) \<Rightarrow> Some (r, st1\<lparr>ms_world := world.truncate (g_orch g1), ms_spawned := ms_spawned st1 + 1\<rparr>))))"

definition clear_for_rerun :: "manager_config \<Rightarrow> flow_definition \<Rightarrow> unit call" where
  "clear_for_rerun m fl =
     bindC (await (on_world_lock clear_complete)) (\<lambda>_.
       forC (\<lambda>x. await (on_world_durable (clear_contribution (rc_session (gc_run (mc_config m))) (op_id x))))
         (filter is_aggregator (fl_operators fl)))"

definition respawn_to_drain :: "manager_config \<Rightarrow> flow_definition \<Rightarrow> orchestrator_result call" where
  "respawn_to_drain m fl = bindC (clear_for_rerun m fl) (\<lambda>_. spawn m fl [] True)"

fun drain_loop :: "manager_config \<Rightarrow> flow_definition \<Rightarrow> nat \<Rightarrow> orchestrator_result \<Rightarrow> orchestrator_result call" where
  "drain_loop m fl 0 res = returnC res"
| "drain_loop m fl (Suc k) res =
     (if or_status res \<noteq> COMPLETED then returnC res
      else bindC (ask (\<lambda>w. pending_count (w_inbox w))) (\<lambda>pending.
        if pending = 0 then returnC res
        else (\<lambda>st. case respawn_to_drain m fl st of
                None \<Rightarrow> None
              | Some (Inl err, st1) \<Rightarrow> if err = LockHeldError then Some (Inr res, st1) else Some (Inl err, st1)
              | Some (Inr res1, st1) \<Rightarrow> drain_loop m fl k res1 st1)))"

definition spawn_and_drain :: "manager_config \<Rightarrow> flow_definition \<Rightarrow> data_point list \<Rightarrow> bool \<Rightarrow> orchestrator_result call" where
  "spawn_and_drain m fl seed fresh = bindC (spawn m fl seed fresh) (drain_loop m fl max_backstop_respawns)"

text \<open>A lost race for the lock is a stand-down, not an error.\<close>

definition stand_down :: "orchestrator_result call \<Rightarrow> orchestrator_result option call" where
  "stand_down c st =
     (case c st of
        None \<Rightarrow> None
      | Some (Inl err, st1) \<Rightarrow> if err = LockHeldError then Some (Inr None, st1) else Some (Inl err, st1)
      | Some (Inr res, st1) \<Rightarrow> Some (Inr (Some res), st1))"

section \<open>The operations\<close>

definition gate_try_start :: "seconds \<Rightarrow> string \<Rightarrow> bool call" where
  "gate_try_start cooldown key st =
     (let st1 = others_move st in case gate_try_acquire key cooldown (w_mono (ms_world st1)) (ms_gate st1) of
        (ok, g) \<Rightarrow> Some (Inr ok, st1\<lparr>ms_gate := g\<rparr>))"

definition start_session :: "manager_config \<Rightarrow> flow_definition \<Rightarrow> data_point list \<Rightarrow> string option \<Rightarrow> orchestrator_result call" where
  "start_session m fl seed gate_key =
     (case mc_gate m of
        None \<Rightarrow> spawn_and_drain m fl seed False
      | Some cooldown \<Rightarrow>
          bindC (gate_try_start cooldown (case gate_key of Some k \<Rightarrow> k | None \<Rightarrow> rc_namespace (gc_run (mc_config m)))) (\<lambda>ok.
            if \<not> ok then raiseC SchedulingGateBlockedError else spawn_and_drain m fl seed False))"

definition ask_complete :: "bool call" where
  "ask_complete = ask (\<lambda>w. is_complete (w_lock w))"

definition ask_epoch :: "epoch call" where
  "ask_epoch = ask (\<lambda>w. current_epoch (w_lock w))"

definition ask_held :: "bool call" where
  "ask_held = ask (\<lambda>w. is_held (w_mono w) (w_lock w))"

definition is_orphaned :: "bool call" where
  "is_orphaned =
     bindC ask_complete (\<lambda>complete. if complete then returnC False
       else bindC ask_epoch (\<lambda>epoch. if epoch = never_minted_epoch then returnC False
         else bindC ask_held (\<lambda>held. returnC (\<not> held))))"

definition resume :: "manager_config \<Rightarrow> flow_definition \<Rightarrow> orchestrator_result option call" where
  "resume m fl =
     bindC ask_complete (\<lambda>complete. if complete then returnC None
       else bindC ask_epoch (\<lambda>epoch. if epoch = never_minted_epoch then returnC None
         else bindC ask_held (\<lambda>held. if held then returnC None
           else stand_down (spawn_and_drain m fl [] False))))"

definition reopen :: "manager_config \<Rightarrow> flow_definition \<Rightarrow> orchestrator_result option call" where
  "reopen m fl =
     bindC ask_complete (\<lambda>complete. if \<not> complete then returnC None
       else bindC ask_held (\<lambda>held. if held then returnC None
         else bindC (clear_for_rerun m fl) (\<lambda>_. stand_down (spawn_and_drain m fl [] True))))"

definition reopen_or_resume :: "manager_config \<Rightarrow> flow_definition \<Rightarrow> orchestrator_result option call" where
  "reopen_or_resume m fl = bindC ask_complete (\<lambda>complete. if complete then reopen m fl else resume m fl)"

definition schedule_recheck :: "manager_config \<Rightarrow> redrive \<Rightarrow> manager_state \<Rightarrow> manager_state" where
  "schedule_recheck m how st = st\<lparr>ms_rechecks := ms_rechecks st @ [(how, w_mono (ms_world st) + mc_recheck_seconds m)]\<rparr>"

text \<open>A scheduled recheck when its time has come: whatever it raises is logged and swallowed.\<close>

definition fire_recheck :: "manager_config \<Rightarrow> flow_definition \<Rightarrow> redrive \<Rightarrow> unit call" where
  "fire_recheck m fl how st =
     (case (case how of Resume \<Rightarrow> resume m fl | ReopenOrResume \<Rightarrow> reopen_or_resume m fl) st of
        None \<Rightarrow> None
      | Some (_, st1) \<Rightarrow> Some (Inr (), st1))"

definition deliver :: "manager_config \<Rightarrow> flow_definition \<Rightarrow> data_point \<Rightarrow> bool \<Rightarrow> orchestrator_result option call" where
  "deliver m fl d reopen_if_complete =
     bindC (await (on_inbox (case mc_serialize m d of (i, payload) \<Rightarrow> append_serialized i payload))) (\<lambda>_.
     bindC ask_complete (\<lambda>complete.
       if complete then (if reopen_if_complete then reopen m fl else returnC None)
       else bindC ask_held (\<lambda>held.
         if held then (\<lambda>st. returnC None (schedule_recheck m (if reopen_if_complete then ReopenOrResume else Resume) st))
         else resume m fl)))"

end
