(* ===== verification/Fleet.thy ===== *)
theory Fleet
  imports Manager
begin

text \<open>
  What the supervisor of \<open>Manager\<close> promises: whom it stands down for, that a delivery is kept, that the
  backstop drains what landed after the last check and is bounded, that its operations return, and
  that one start per cooldown passes the gate. The last section is the race of two re-opens.
\<close>

section \<open>Calls\<close>

definition quiet :: "manager_state \<Rightarrow> bool" where
  "quiet st \<longleftrightarrow> ms_moves st = [] \<and> w_faults (ms_world st) = []"

lemma await_quiet [simp]:
  assumes "quiet st"
  shows "await m st = (case m (ms_world st) of (r, w) \<Rightarrow> Some (r, st\<lparr>ms_world := w\<rparr>))"
  using assms by (simp add: quiet_def await_def others_move_def port_def)

lemma ask_quiet [simp]: "quiet st \<Longrightarrow> ask f st = Some (Inr (f (ms_world st)), st)"
  by (simp add: ask_def)

lemma bindC_ask_quiet [simp]: "quiet st \<Longrightarrow> bindC (ask f) k st = k (f (ms_world st)) st"
  by (simp add: bindC_def)

lemma bindC_Some:
  assumes "bindC m f st = Some (r, st')"
  obtains (raised) err where "m st = Some (Inl err, st')" and "r = Inl err"
  | (went_on) x st1 where "m st = Some (Inr x, st1)" and "f x st1 = Some (r, st')"
  using assms by (auto simp: bindC_def split: option.splits prod.splits sum.splits)

lemma others_move_simps [simp]:
  "ms_spawned (others_move st) = ms_spawned st" "ms_gate (others_move st) = ms_gate st" "ms_rechecks (others_move st) = ms_rechecks st"
  "ms_moves (others_move st) = tl (ms_moves st)"
  by (simp_all add: others_move_def split: list.split)

lemma await_keeps:
  assumes "await m st = Some (r, st')"
  shows "ms_spawned st' = ms_spawned st \<and> ms_gate st' = ms_gate st \<and> ms_rechecks st' = ms_rechecks st \<and> ms_moves st' = tl (ms_moves st)"
  using assms by (auto simp: await_def Let_def others_move_def split: prod.splits list.splits)

lemma forC_keeps:
  assumes "forC f xs st = Some (r, st')" and step: "\<And>x st r st'. f x st = Some (r, st') \<Longrightarrow> P st \<Longrightarrow> P st'" and "P st"
  shows "P st'"
  using assms(1,3)
proof (induction xs arbitrary: st)
  case (Cons x xs)
  from Cons.prems(1) show ?case unfolding forC.simps
  proof (cases rule: bindC_Some)
    case (raised err)
    with step Cons.prems(2) show ?thesis by blast
  next
    case (went_on y st1)
    with step [of x st "Inr y" st1] Cons show ?thesis by blast
  qed
qed (simp add: returnC_def)

section \<open>Whom the supervisor stands down for\<close>

lemma resume_quiet:
  assumes "quiet st"
  shows "resume m fl st =
    (if \<not> is_complete (w_lock (ms_world st)) \<and> current_epoch (w_lock (ms_world st)) \<noteq> 0 \<and> \<not> is_held (w_mono (ms_world st)) (w_lock (ms_world st))
     then stand_down (spawn_and_drain m fl [] False) st else Some (Inr None, st))"
  by (simp add: resume_def ask_complete_def ask_epoch_def ask_held_def assms never_minted_epoch_def returnC_def)

lemma forC_clears:
  assumes "quiet st"
  shows "\<exists>d. forC (\<lambda>x. await (on_world_durable (clear_contribution sid (op_id x)))) xs st =
    Some (Inr (), st\<lparr>ms_world := (ms_world st)\<lparr>w_durable := d\<rparr>\<rparr>)"
  using assms
proof (induction xs arbitrary: st)
  case Nil
  have "(ms_world st)\<lparr>w_durable := w_durable (ms_world st)\<rparr> = ms_world st" by simp
  then have "forC (\<lambda>x. await (on_world_durable (clear_contribution sid (op_id x)))) [] st =
    Some (Inr (), st\<lparr>ms_world := (ms_world st)\<lparr>w_durable := w_durable (ms_world st)\<rparr>\<rparr>)" by (simp add: returnC_def)
  then show ?case by blast
next
  case (Cons x xs)
  let ?st = "st\<lparr>ms_world := (ms_world st)\<lparr>w_durable := snd (clear_contribution sid (op_id x) (w_durable (ms_world st)))\<rparr>\<rparr>"
  have "quiet ?st" using Cons.prems by (simp add: quiet_def)
  from Cons.IH [OF this] Cons.prems show ?case
    by (auto simp: bindC_def on_world_durable_def clear_contribution_def)
qed

lemma clear_quiet:
  assumes "quiet st"
  obtains d where "clear_for_rerun m fl st = Some (Inr (), st\<lparr>ms_world := (ms_world st)
      \<lparr>w_lock := (w_lock (ms_world st))\<lparr>lk_complete := False\<rparr>, w_durable := d\<rparr>\<rparr>)"
proof -
  let ?st = "st\<lparr>ms_world := (ms_world st)\<lparr>w_lock := (w_lock (ms_world st))\<lparr>lk_complete := False\<rparr>\<rparr>\<rparr>"
  have "quiet ?st" using assms by (simp add: quiet_def)
  from forC_clears [OF this] that assms show ?thesis
    by (auto simp: clear_for_rerun_def bindC_def on_world_lock_def clear_complete_def)
qed

text \<open>
  Also: a resume is exactly what \<^verbatim>\<open>is_orphaned\<close> calls for. With no other party moving and no fault,
  \<^verbatim>\<open>is_orphaned\<close> answers, and \<^verbatim>\<open>resume\<close> spawns if and only if the answer is yes: a session that is
  complete, never started, or held is left as it is.
\<close>

theorem resume_iff_orphaned:
  assumes "ms_moves st = []" and "w_faults (ms_world st) = []"
  shows "\<exists>orphaned. is_orphaned st = Some (Inr orphaned, st) \<and>
     resume m fl st = (if orphaned then stand_down (spawn_and_drain m fl [] False) st else Some (Inr None, st)) \<and>
     (orphaned \<longleftrightarrow> \<not> is_complete (w_lock (ms_world st)) \<and> current_epoch (w_lock (ms_world st)) \<noteq> 0 \<and>
        \<not> is_held (w_mono (ms_world st)) (w_lock (ms_world st)))"
proof -
  have q: "quiet st" using assms by (simp add: quiet_def)
  show ?thesis
    by (simp add: is_orphaned_def ask_complete_def ask_epoch_def ask_held_def q resume_quiet never_minted_epoch_def returnC_def)
qed

section \<open>The backstop\<close>

lemma spawn_Some:
  assumes "spawn m fl seed fresh st = Some (r, st')"
  obtains (refused) err where "r = Inl err" and "st' = st"
  | (ran) s g g' where "session_setup_of m fl seed = Inr s" and "orchestrator_init (ss_config s) fresh (ms_world (others_move st)) = Inr g"
      and "run s (mc_rounds m (ms_spawned st)) g = Some (r, g')"
      and "st' = (others_move st)\<lparr>ms_world := world.truncate (g_orch g'), ms_spawned := ms_spawned st + 1\<rparr>"
proof (cases "session_setup_of m fl seed")
  case (Inl err)
  with assms refused show ?thesis by (auto simp: spawn_def)
next
  case (Inr s)
  show ?thesis
  proof (cases "orchestrator_init (ss_config s) fresh (ms_world (others_move st))")
    case (Inl err)
    with assms \<open>session_setup_of m fl seed = Inr s\<close> refused show ?thesis by (auto simp: spawn_def)
  next
    case (Inr g)
    with assms \<open>session_setup_of m fl seed = Inr s\<close> ran [OF _ Inr] show ?thesis
      by (cases "run s (mc_rounds m (ms_spawned st)) g") (auto simp: spawn_def)
  qed
qed

lemma spawn_keeps:
  assumes "spawn m fl seed fresh st = Some (r, st')"
  shows "ms_spawned st \<le> ms_spawned st' \<and> ms_spawned st' \<le> ms_spawned st + 1 \<and> ms_gate st' = ms_gate st \<and> ms_rechecks st' = ms_rechecks st \<and>
     (ms_moves st = [] \<longrightarrow> ms_moves st' = []) \<and> (r \<in> range Inr \<longrightarrow> ms_spawned st' = ms_spawned st + 1)"
  using assms by (cases rule: spawn_Some) auto

lemma clear_keeps:
  assumes "clear_for_rerun m fl st = Some (r, st')"
  shows "ms_spawned st' = ms_spawned st \<and> ms_gate st' = ms_gate st \<and> ms_rechecks st' = ms_rechecks st \<and> (ms_moves st = [] \<longrightarrow> ms_moves st' = [])"
proof -
  let ?P = "\<lambda>st'. ms_spawned st' = ms_spawned st \<and> ms_gate st' = ms_gate st \<and> ms_rechecks st' = ms_rechecks st \<and> (ms_moves st = [] \<longrightarrow> ms_moves st' = [])"
  have step: "?P st2" if "await f st1 = Some (r, st2)" "?P st1" for f :: "(world, unit) op" and st1 r st2
    using await_keeps [OF that(1)] that(2) by simp
  from assms show ?thesis unfolding clear_for_rerun_def
  proof (cases rule: bindC_Some)
    case (raised err)
    with step show ?thesis by blast
  next
    case (went_on x st1)
    then have "?P st1" using step by blast
    with went_on(2) show ?thesis
      by - (rule forC_keeps [where P = ?P], auto dest: step)
  qed
qed

lemma respawn_keeps:
  assumes "respawn_to_drain m fl st = Some (r, st')"
  shows "ms_spawned st \<le> ms_spawned st' \<and> ms_spawned st' \<le> ms_spawned st + 1 \<and> ms_gate st' = ms_gate st \<and> ms_rechecks st' = ms_rechecks st \<and>
     (ms_moves st = [] \<longrightarrow> ms_moves st' = []) \<and> (r \<in> range Inr \<longrightarrow> ms_spawned st' = ms_spawned st + 1)"
  using assms unfolding respawn_to_drain_def
proof (cases rule: bindC_Some)
  case (raised err)
  with clear_keeps [OF raised(1)] show ?thesis by auto
next
  case (went_on x st1)
  from clear_keeps [OF went_on(1)] spawn_keeps [OF went_on(2)] show ?thesis by auto
qed

text \<open>The three ways through one turn of the backstop.\<close>

lemma drain_turn:
  assumes "drain_loop m fl (Suc k) res st = Some (r, st')"
  obtains (not_completed) "or_status res \<noteq> COMPLETED" and "r = Inr res" and "st' = st"
  | (no_answer) err where "r = Inl err" and "ask (\<lambda>w. pending_count (w_inbox w)) st = Some (Inl err, st')"
  | (drained) "r = Inr res" and "ask (\<lambda>w. pending_count (w_inbox w)) st = Some (Inr 0, st')"
  | (stood_down) n st1 where "r = Inr res" and "ask (\<lambda>w. pending_count (w_inbox w)) st = Some (Inr n, st1)"
      and "respawn_to_drain m fl st1 = Some (Inl LockHeldError, st')"
  | (failed) err n st1 where "r = Inl err" and "ask (\<lambda>w. pending_count (w_inbox w)) st = Some (Inr n, st1)"
      and "respawn_to_drain m fl st1 = Some (Inl err, st')"
  | (respawned) n st1 st2 res2 where "or_status res = COMPLETED" and "ask (\<lambda>w. pending_count (w_inbox w)) st = Some (Inr n, st1)" and "0 < n"
      and "respawn_to_drain m fl st1 = Some (Inr res2, st2)" and "drain_loop m fl k res2 st2 = Some (r, st')"
proof (cases "or_status res = COMPLETED")
  case False
  with assms not_completed show ?thesis by (simp add: returnC_def)
next
  case True
  with assms have "bindC (ask (\<lambda>w. pending_count (w_inbox w))) (\<lambda>pending.
        if pending = 0 then returnC res
        else (\<lambda>st. case respawn_to_drain m fl st of
                None \<Rightarrow> None
              | Some (Inl err, st1) \<Rightarrow> if err = LockHeldError then Some (Inr res, st1) else Some (Inl err, st1)
              | Some (Inr res1, st1) \<Rightarrow> drain_loop m fl k res1 st1)) st = Some (r, st')" by simp
  then show ?thesis
  proof (cases rule: bindC_Some)
    case (raised err)
    with no_answer show ?thesis by blast
  next
    case (went_on n st1)
    show ?thesis
    proof (cases "n = 0")
      case True
      with went_on drained show ?thesis by (simp add: returnC_def)
    next
      case False
      with went_on False True stood_down failed respawned show ?thesis
        by (auto split: option.splits prod.splits sum.splits if_splits)
    qed
  qed
qed

lemma drain_bound:
  "drain_loop m fl k res st = Some (r, st') \<Longrightarrow>
     ms_spawned st \<le> ms_spawned st' \<and> ms_spawned st' \<le> ms_spawned st + k \<and> ms_gate st' = ms_gate st \<and> ms_rechecks st' = ms_rechecks st"
proof (induction k arbitrary: res st)
  case 0
  then show ?case by (simp add: returnC_def)
next
  case (Suc k)
  have asked: "ms_spawned st1 = ms_spawned st \<and> ms_gate st1 = ms_gate st \<and> ms_rechecks st1 = ms_rechecks st"
    if "ask (\<lambda>w. pending_count (w_inbox w)) st = Some (r1, st1)" for r1 st1
    using that await_keeps unfolding ask_def by blast
  from Suc.prems show ?case
  proof (cases rule: drain_turn)
    case (respawned n st1 st2 res2)
    from Suc.IH [OF respawned(5)] respawn_keeps [OF respawned(4)] asked [OF respawned(2)] show ?thesis by auto
  next
    case (stood_down n st1)
    with asked respawn_keeps [OF stood_down(3)] show ?thesis by fastforce
  next
    case (failed err n st1)
    with asked respawn_keeps [OF failed(3)] show ?thesis by fastforce
  qed (use asked in auto)
qed

text \<open>What a completed spawn leaves in the inbox arrived after its last check.\<close>

lemma spawn_completed_inbox:
  assumes "spawn m fl seed fresh st = Some (Inr res, st')" and "or_status res = COMPLETED"
  obtains n empty where "ib_messages empty = []" and "w_inbox (ms_world st') = rd_after_check (mc_rounds m (ms_spawned st) n) empty"
proof -
  from assms(1) obtain s g g' where r: "run s (mc_rounds m (ms_spawned st)) g = Some (Inr res, g')"
    and w: "w_inbox (ms_world st') = w_inbox (g_orch g')"
    by (cases rule: spawn_Some) (auto simp: world.truncate_def)
  have "or_status res \<noteq> SUPERSEDED" using assms(2) by simp
  with r obtain e n fl g0 flushed g1 fs ar where one: "one_round s e (mc_rounds m (ms_spawned st) n) fl g0 = Inl (Inr (or_status res), flushed, g1)"
    and g': "g' = g1\<lparr>g_orch := (g_orch g1)\<lparr>w_faults := fs, w_archive := ar, w_lock := without_lease e (w_lock (g_orch g1))\<rparr>\<rparr>"
    by (rule run_status) blast
  from one [unfolded assms(2)] show ?thesis
  proof (rule round_completed)
    fix h1 h2 fs'
    assume e: "ib_messages (rd_during_flush (mc_rounds m (ms_spawned st) n) (w_inbox (g_orch h2))) = []"
      and "g1 = h2\<lparr>g_orch := (g_orch h2)\<lparr>w_faults := fs',
        w_inbox := rd_after_check (mc_rounds m (ms_spawned st) n) (rd_during_flush (mc_rounds m (ms_spawned st) n) (w_inbox (g_orch h2))),
        w_lock := (w_lock (g_orch h2))\<lparr>lk_complete := True\<rparr>\<rparr>\<rparr>"
    with g' w that [OF e] show ?thesis by simp
  qed
qed

definition all_in_time :: "round \<Rightarrow> bool" where
  "all_in_time rd \<longleftrightarrow> rd_after_check rd = id"

lemma timely_spawn_drains:
  assumes "spawn m fl seed fresh st = Some (Inr res, st')" and "or_status res = COMPLETED" and "\<forall>n. all_in_time (mc_rounds m (ms_spawned st) n)"
  shows "ib_messages (w_inbox (ms_world st')) = []"
  using spawn_completed_inbox [OF assms(1,2)] assms(3) by (metis all_in_time_def id_apply)

lemma timely_respawn_drains:
  assumes "respawn_to_drain m fl st = Some (Inr res, st')" and "or_status res = COMPLETED" and "\<forall>n. all_in_time (mc_rounds m (ms_spawned st) n)"
  shows "ib_messages (w_inbox (ms_world st')) = []"
  using assms(1) unfolding respawn_to_drain_def
proof (cases rule: bindC_Some)
  case (went_on x st1)
  with clear_keeps [OF went_on(1)] assms(2,3) timely_spawn_drains show ?thesis by metis
qed simp

lemma asked_still:
  assumes "ask (\<lambda>w. pending_count (w_inbox w)) st = Some (Inr n, st1)" and "ms_moves st = []"
  shows "w_inbox (ms_world st1) = w_inbox (ms_world st) \<and> n = length (ib_messages (w_inbox (ms_world st))) \<and>
     ms_moves st1 = [] \<and> ms_spawned st1 = ms_spawned st"
  using assms by (auto simp: ask_def await_def others_move_def port_def pending_count_def split: prod.splits list.splits option.splits)

lemma drain_loop_drains:
  assumes "drain_loop m fl k res st = Some (Inr res', st')" and "or_status res' = COMPLETED" and "ms_moves st = []"
    and "ib_messages (w_inbox (ms_world st)) = [] \<or> (\<exists>j < k. \<forall>n. all_in_time (mc_rounds m (ms_spawned st + j) n))"
  shows "ib_messages (w_inbox (ms_world st')) = [] \<or> (\<exists>st1. respawn_to_drain m fl st1 = Some (Inl LockHeldError, st'))"
  using assms
proof (induction k arbitrary: res st)
  case 0
  then show ?case by (simp add: returnC_def)
next
  case (Suc k)
  from Suc.prems(1) show ?case
  proof (cases rule: drain_turn)
    case drained
    with asked_still [OF drained(2) Suc.prems(3)] show ?thesis by simp
  next
    case (respawned n st1 st2 res2)
    from asked_still [OF respawned(2) Suc.prems(3)] respawned(3) have 1: "ms_moves st1 = []" "ms_spawned st1 = ms_spawned st"
      and "ib_messages (w_inbox (ms_world st)) \<noteq> []" by auto
    with Suc.prems(4) obtain j where j: "j < Suc k" "\<forall>n. all_in_time (mc_rounds m (ms_spawned st + j) n)" by blast
    from respawn_keeps [OF respawned(4)] 1 have 2: "ms_moves st2 = []" "ms_spawned st2 = ms_spawned st + 1" by auto
    show ?thesis
    proof (cases "or_status res2 = COMPLETED")
      case False
      with respawned(5) Suc.prems(2) show ?thesis by (cases k) (auto simp: returnC_def)
    next
      case True
      have "ib_messages (w_inbox (ms_world st2)) = [] \<or> (\<exists>j < k. \<forall>n. all_in_time (mc_rounds m (ms_spawned st2 + j) n))"
      proof (cases j)
        case 0
        with j 1 timely_respawn_drains [OF respawned(4) True] show ?thesis by simp
      next
        case (Suc i)
        with j 2 show ?thesis by (auto intro: exI [where x = i])
      qed
      from Suc.IH [OF respawned(5) Suc.prems(2) 2(1) this] show ?thesis .
    qed
  qed (use Suc.prems in auto)
qed


text \<open>
  Also: the backstop is bounded. Whatever is delivered and whatever the other parties do, one call of
  \<^verbatim>\<open>_spawn_and_drain\<close> spawns at most nine orchestrators; and if it returns, it has spawned one.
\<close>

theorem backstop_bounded:
  assumes "spawn_and_drain m fl seed fresh st = Some (r, st')"
  shows "ms_spawned st' \<le> ms_spawned st + (1 + max_backstop_respawns) \<and> (r \<in> range Inr \<longrightarrow> ms_spawned st < ms_spawned st')"
  using assms unfolding spawn_and_drain_def
proof (cases rule: bindC_Some)
  case (raised err)
  with spawn_keeps [OF raised(1)] show ?thesis by auto
next
  case (went_on res st1)
  from spawn_keeps [OF went_on(1)] drain_bound [OF went_on(2)] show ?thesis by auto
qed

section \<open>The operations return\<close>

definition ends :: "'r call \<Rightarrow> bool" where
  "ends c \<longleftrightarrow> (\<forall>st. \<exists>y. c st = Some y)"

lemma ends_bind: "ends m \<Longrightarrow> (\<And>x. ends (f x)) \<Longrightarrow> ends (bindC m f)"
  unfolding ends_def
proof
  fix st
  assume "\<forall>st. \<exists>y. m st = Some y" and f: "\<And>x. \<forall>st. \<exists>y. f x st = Some y"
  then obtain r st1 where "m st = Some (r, st1)" by (metis surj_pair)
  with f show "\<exists>y. bindC m f st = Some y" by (cases r) (simp_all add: bindC_def)
qed

lemma ends_if: "ends a \<Longrightarrow> ends b \<Longrightarrow> ends (if c then a else b)"
  by simp

lemma ends_return: "ends (returnC x)" "ends (raiseC err)"
  by (simp_all add: ends_def returnC_def raiseC_def)

lemma ends_await: "ends (await m)" "ends (ask f)"
  by (simp_all add: ends_def await_def ask_def Let_def split: prod.split)

lemma ends_for: "(\<And>x. ends (f x)) \<Longrightarrow> ends (forC f xs)"
  by (induction xs) (simp_all add: ends_return ends_bind)

lemma ends_stand_down: "ends c \<Longrightarrow> ends (stand_down c)"
  by (auto simp: ends_def stand_down_def split: option.split prod.split sum.split)

lemma ends_pure: "ends (\<lambda>st. returnC x (f st))"
  by (simp add: ends_def returnC_def)

lemma ends_gate: "ends (gate_try_start cooldown key)"
  by (simp add: ends_def gate_try_start_def Let_def split: prod.split)

lemmas ends_intros = ends_bind ends_if ends_return ends_await ends_for ends_stand_down ends_pure ends_gate

definition runs_return :: "manager_config \<Rightarrow> bool" where
  "runs_return m \<longleftrightarrow> (\<forall>i. \<exists>N. deliveries_stop (mc_rounds m i) N)"

lemma ends_spawn:
  assumes "runs_return m"
  shows "ends (spawn m fl seed fresh)"
proof -
  have "\<exists>y. run s (mc_rounds m i) g = Some y" for s i g
  proof -
    from assms obtain N where "deliveries_stop (mc_rounds m i) N" by (auto simp: runs_return_def)
    from run_returns [OF this] show ?thesis by blast
  qed
  then show ?thesis
    by (simp add: ends_def spawn_def Let_def split: sum.split option.split) (metis option.distinct(1))
qed

lemma ends_clear: "ends (clear_for_rerun m fl)"
  unfolding clear_for_rerun_def by (intro ends_intros)

lemma ends_drain_loop: "runs_return m \<Longrightarrow> ends (drain_loop m fl k res)"
proof (induction k arbitrary: res)
  case 0
  then show ?case by (simp add: ends_def returnC_def)
next
  case (Suc k)
  have respawn: "ends (respawn_to_drain m fl)"
    unfolding respawn_to_drain_def by (intro ends_bind ends_clear ends_spawn Suc.prems)
  have "ends (\<lambda>st. case respawn_to_drain m fl st of
                None \<Rightarrow> None
              | Some (Inl err, st1) \<Rightarrow> if err = LockHeldError then Some (Inr res, st1) else Some (Inl err, st1)
              | Some (Inr res1, st1) \<Rightarrow> drain_loop m fl k res1 st1)"
    unfolding ends_def
  proof
    fix st
    obtain r st1 where "respawn_to_drain m fl st = Some (r, st1)" using respawn by (metis ends_def surj_pair)
    with Suc.IH [OF Suc.prems] show "\<exists>y. (case respawn_to_drain m fl st of
                None \<Rightarrow> None
              | Some (Inl err, st1) \<Rightarrow> if err = LockHeldError then Some (Inr res, st1) else Some (Inl err, st1)
              | Some (Inr res1, st1) \<Rightarrow> drain_loop m fl k res1 st1) = Some y"
      by (cases r) (simp_all add: ends_def)
  qed
  then have "ends (if or_status res \<noteq> COMPLETED then returnC res
      else bindC (ask (\<lambda>w. pending_count (w_inbox w))) (\<lambda>pending.
        if pending = 0 then returnC res
        else (\<lambda>st. case respawn_to_drain m fl st of
                None \<Rightarrow> None
              | Some (Inl err, st1) \<Rightarrow> if err = LockHeldError then Some (Inr res, st1) else Some (Inl err, st1)
              | Some (Inr res1, st1) \<Rightarrow> drain_loop m fl k res1 st1)))"
    by (intro ends_intros)
  then show ?case unfolding ends_def by simp
qed

lemma ends_spawn_and_drain: "runs_return m \<Longrightarrow> ends (spawn_and_drain m fl seed fresh)"
  unfolding spawn_and_drain_def by (intro ends_intros ends_spawn ends_drain_loop)

lemma ends_resume: "runs_return m \<Longrightarrow> ends (resume m fl)"
  unfolding resume_def ask_complete_def ask_epoch_def ask_held_def by (intro ends_intros ends_spawn_and_drain)

lemma ends_reopen: "runs_return m \<Longrightarrow> ends (reopen m fl)"
  unfolding reopen_def ask_complete_def ask_held_def by (intro ends_intros ends_clear ends_spawn_and_drain)

lemma ends_deliver: "runs_return m \<Longrightarrow> ends (deliver m fl d again)"
  unfolding deliver_def ask_complete_def ask_held_def by (intro ends_intros ends_resume ends_reopen)

lemma ends_start: "runs_return m \<Longrightarrow> ends (start_session m fl seed key)"
  unfolding start_session_def by (cases "mc_gate m") (auto intro!: ends_intros ends_spawn_and_drain)

lemma ends_recheck: "runs_return m \<Longrightarrow> ends (fire_recheck m fl how)"
proof -
  assume r: "runs_return m"
  have "ends (case how of Resume \<Rightarrow> resume m fl | ReopenOrResume \<Rightarrow> reopen_or_resume m fl)"
    unfolding reopen_or_resume_def ask_complete_def
    by (cases how) (simp_all add: ends_resume [OF r] ends_reopen [OF r] ends_await ends_bind)
  then show ?thesis unfolding ends_def fire_recheck_def
    by (metis (no_types, lifting) case_prod_conv option.simps(5) surj_pair)
qed


section \<open>Delivery and starts\<close>

definition mailed :: "manager_config \<Rightarrow> data_point \<Rightarrow> inbox_message" where
  "mailed m d = \<lparr>ms_id = fst (mc_serialize m d), ms_payload = snd (mc_serialize m d), ms_count = 0, ms_claimed = False\<rparr>"


text \<open>
  Also: the cooldown admits one start. If a start with a scheduling gate spawned, then a start with the
  same key before the cooldown is over, on a gate nobody else touched, is refused and spawns nothing.
\<close>

theorem gate_admits_one:
  assumes "mc_gate m = Some cooldown" and "start_session m fl seed (Some key) st = Some (r, st1)" and "ms_spawned st < ms_spawned st1"
    and "ms_gate st2 = ms_gate st1" and "w_mono (ms_world (others_move st2)) < w_mono (ms_world (others_move st)) + cooldown"
  shows "start_session m fl2 seed2 (Some key) st2 = Some (Inl SchedulingGateBlockedError, others_move st2)"
proof -
  obtain ok g where gate: "gate_try_acquire key cooldown (w_mono (ms_world (others_move st))) (ms_gate st) = (ok, g)"
    by (cases "gate_try_acquire key cooldown (w_mono (ms_world (others_move st))) (ms_gate st)")
  let ?st = "(others_move st)\<lparr>ms_gate := g\<rparr>"
  from assms(1,2) gate have s: "(if \<not> ok then raiseC SchedulingGateBlockedError else spawn_and_drain m fl seed False) ?st = Some (r, st1)"
    by (simp add: start_session_def gate_try_start_def bindC_def)
  with assms(3) have ok by (auto simp: raiseC_def split: if_splits)
  with gate have g: "g key = Some (w_mono (ms_world (others_move st)) + cooldown)"
    by (auto simp: gate_try_acquire_def split: option.splits if_splits)
  from s \<open>ok\<close> have "spawn_and_drain m fl seed False ?st = Some (r, st1)" by simp
  then have "ms_gate st1 = g" unfolding spawn_and_drain_def
  proof (cases rule: bindC_Some)
    case (raised err)
    with spawn_keeps [OF raised(1)] show ?thesis by simp
  next
    case (went_on res st3)
    from spawn_keeps [OF went_on(1)] drain_bound [OF went_on(2)] show ?thesis by simp
  qed
  with g assms(4,5) have "gate_try_acquire key cooldown (w_mono (ms_world (others_move st2))) (ms_gate st2) = (False, ms_gate st2)"
    by (simp add: gate_try_acquire_def)
  moreover have "(others_move st2)\<lparr>ms_gate := ms_gate st2\<rparr> = others_move st2" by (metis manager_state.surjective manager_state.update_convs(3) others_move_simps(2))
  ultimately show ?thesis using assms(1) by (simp add: start_session_def gate_try_start_def bindC_def raiseC_def)
qed

section \<open>Losing the race for the lock\<close>

definition accepts_flow :: "manager_config \<Rightarrow> flow_definition \<Rightarrow> bool" where
  "accepts_flow m fl \<longleftrightarrow> (\<exists>s. session_setup_of m fl [] = Inr s \<and> (\<forall>fresh w. orchestrator_init (ss_config s) fresh w \<in> range Inr))"

lemma truncate_new_orch: "world.truncate (new_orch c w) = w"
  by (cases w) (simp add: new_orch_def world.extend_def world.truncate_def)

lemma spawn_loses:
  assumes "accepts_flow m fl" and "w_faults (ms_world (others_move st)) = []"
    and "is_held (w_mono (ms_world (others_move st))) (w_lock (ms_world (others_move st)))"
  shows "spawn m fl [] fresh st = Some (Inl LockHeldError, (others_move st)\<lparr>ms_spawned := ms_spawned st + 1\<rparr>)"
proof -
  let ?w = "ms_world (others_move st)"
  from assms(1) obtain s where s: "session_setup_of m fl [] = Inr s" and "orchestrator_init (ss_config s) fresh ?w \<in> range Inr"
    by (auto simp: accepts_flow_def)
  then obtain g where g: "orchestrator_init (ss_config s) fresh ?w = Inr g" by blast
  then have "g = new_gather (ss_config s) fresh ?w" by (simp add: orchestrator_init_def Let_def split: sum.splits)
  then have o1: "g_orch g = new_orch (ss_config s) ?w" by (simp add: new_gather_def)
  have parts: "w_faults (g_orch g) = []" "w_mono (g_orch g) = w_mono ?w" "w_lock (g_orch g) = w_lock ?w"
    using assms(2) by (simp_all add: o1 new_orch_def world.extend_def)
  have "on_orch (\<lambda>w. port (on_lease (lock_acquire (gc_lock_ttl (ss_config s)) (w_mono w))) w) g = (Inl LockHeldError, g)"
    using assms(3) parts by (simp add: on_orch_def port_def on_lease_def lock_acquire_def is_held_def o1 new_orch_def world.extend_def split: prod.split)
  then have "run s (mc_rounds m (ms_spawned st)) g = Some (Inl LockHeldError, g)" by (simp add: run_def)
  moreover have "(others_move st)\<lparr>ms_world := ?w, ms_spawned := ms_spawned st + 1\<rparr> = (others_move st)\<lparr>ms_spawned := ms_spawned st + 1\<rparr>" by simp
  ultimately show ?thesis by (simp add: spawn_def s g o1 truncate_new_orch Let_def)
qed

lemma spawn_and_drain_loses:
  assumes "accepts_flow m fl" and "w_faults (ms_world (others_move st)) = []"
    and "is_held (w_mono (ms_world (others_move st))) (w_lock (ms_world (others_move st)))"
  shows "stand_down (spawn_and_drain m fl [] fresh) st = Some (Inr None, (others_move st)\<lparr>ms_spawned := ms_spawned st + 1\<rparr>)"
  by (simp add: spawn_and_drain_def bindC_def stand_down_def spawn_loses [OF assms])

text \<open>
  Also: losing a resume changes nothing. If between the checks of a resume and its acquire another
  resumer takes the lock, the resume stands down, and the session is exactly what the winner made it.
\<close>

theorem losing_resume_changes_nothing:
  assumes "accepts_flow m fl" and "ms_moves st = [id, id, id, winner]" and "w_faults (ms_world st) = []"
    and "\<not> is_complete (w_lock (ms_world st))" and "current_epoch (w_lock (ms_world st)) \<noteq> 0"
    and "\<not> is_held (w_mono (ms_world st)) (w_lock (ms_world st))"
    and "w_faults (winner (ms_world st)) = []" and "is_held (w_mono (winner (ms_world st))) (w_lock (winner (ms_world st)))"
  shows "resume m fl st = Some (Inr None, st\<lparr>ms_world := winner (ms_world st), ms_moves := [], ms_spawned := ms_spawned st + 1\<rparr>)"
proof -
  let ?st = "st\<lparr>ms_world := ms_world st, ms_moves := [winner]\<rparr>"
  have step: "ask h (st\<lparr>ms_moves := id # fs\<rparr>) = Some (Inr (h (ms_world st)), st\<lparr>ms_moves := fs\<rparr>)" for h fs
    using assms(3) by (simp add: ask_def await_def others_move_def port_def)
  have "st = st\<lparr>ms_moves := [id, id, id, winner]\<rparr>" using assms(2) by simp
  then have "resume m fl st = resume m fl (st\<lparr>ms_moves := [id, id, id, winner]\<rparr>)" by simp
  also have "\<dots> = stand_down (spawn_and_drain m fl [] False) (st\<lparr>ms_moves := [winner]\<rparr>)"
    by (simp add: resume_def ask_complete_def ask_epoch_def ask_held_def bindC_def step assms(4-6) never_minted_epoch_def)
  also have "\<dots> = Some (Inr None, (others_move (st\<lparr>ms_moves := [winner]\<rparr>))\<lparr>ms_spawned := ms_spawned st + 1\<rparr>)"
    using spawn_and_drain_loses [of m fl "st\<lparr>ms_moves := [winner]\<rparr>" False] assms(1,7,8) by (simp add: others_move_def)
  finally show ?thesis by (simp add: others_move_def)
qed

text \<open>
  C27: losing a re-open changes something. If between the checks of a re-open and its first write
  another re-opener has run the session and marked it complete, but not yet released it, then the
  re-open erases that mark and stands down: once the winner has released the lock, the session it
  finished counts as orphaned.
\<close>

theorem losing_reopen_orphans:
  assumes "accepts_flow m fl" and "ms_moves st = [id, id, winner]" and "w_faults (ms_world st) = []"
    and "is_complete (w_lock (ms_world st))" and "\<not> is_held (w_mono (ms_world st)) (w_lock (ms_world st))"
    and "w_faults (winner (ms_world st)) = []"
    and "w_lock (winner (ms_world st)) = \<lparr>lk_counter = e, lk_lease = Some l, lk_complete = True\<rparr>"
    and "ls_epoch l = e" and "0 < e" and "w_mono (winner (ms_world st)) < ls_expires_at l"
  shows "\<exists>st'. reopen m fl st = Some (Inr None, st') \<and>
     is_orphaned (st'\<lparr>ms_world := (ms_world st')\<lparr>w_lock := without_lease e (w_lock (ms_world st'))\<rparr>\<rparr>) =
       Some (Inr True, st'\<lparr>ms_world := (ms_world st')\<lparr>w_lock := without_lease e (w_lock (ms_world st'))\<rparr>\<rparr>)"
proof -
  let ?w = "winner (ms_world st)"
  let ?st = "st\<lparr>ms_moves := [], ms_world := ?w\<lparr>w_lock := (w_lock ?w)\<lparr>lk_complete := False\<rparr>\<rparr>\<rparr>"
  have step: "ask h (st\<lparr>ms_moves := id # fs\<rparr>) = Some (Inr (h (ms_world st)), st\<lparr>ms_moves := fs\<rparr>)" for h fs
    using assms(3) by (simp add: ask_def await_def others_move_def port_def)
  have q: "quiet ?st" using assms(6) by (simp add: quiet_def)
  obtain d where f: "forC (\<lambda>x. await (on_world_durable (clear_contribution (rc_session (gc_run (mc_config m))) (op_id x)))) (filter is_aggregator (fl_operators fl)) ?st =
      Some (Inr (), ?st\<lparr>ms_world := (ms_world ?st)\<lparr>w_durable := d\<rparr>\<rparr>)" (is "_ = Some (_, ?st1)")
    using forC_clears [OF q] by blast
  have c: "clear_for_rerun m fl (st\<lparr>ms_moves := [winner]\<rparr>) = Some (Inr (), ?st1)"
    using f assms(6) by (simp add: clear_for_rerun_def bindC_def await_def others_move_def port_def on_world_lock_def clear_complete_def)
  have held: "is_held (w_mono (ms_world ?st1)) (w_lock (ms_world ?st1))"
    using assms(7,10) by (simp add: is_held_def is_live_def)
  have "others_move ?st1 = ?st1" by (simp add: others_move_def)
  then have lose: "stand_down (spawn_and_drain m fl [] True) ?st1 = Some (Inr None, ?st1\<lparr>ms_spawned := ms_spawned st + 1\<rparr>)"
    using spawn_and_drain_loses [of m fl ?st1 True] assms(1,6) held by simp
  have "st = st\<lparr>ms_moves := [id, id, winner]\<rparr>" using assms(2) by simp
  then have "reopen m fl st = reopen m fl (st\<lparr>ms_moves := [id, id, winner]\<rparr>)" by simp
  also have "\<dots> = Some (Inr None, ?st1\<lparr>ms_spawned := ms_spawned st + 1\<rparr>)"
    using c lose by (simp add: reopen_def ask_complete_def ask_held_def bindC_def step assms(4,5))
  finally have r: "reopen m fl st = Some (Inr None, ?st1\<lparr>ms_spawned := ms_spawned st + 1\<rparr>)" .
  have "is_orphaned st2 = Some (Inr True, st2)"
    if "quiet st2" "w_lock (ms_world st2) = \<lparr>lk_counter = e, lk_lease = None, lk_complete = False\<rparr>" for st2
    using that assms(9) by (simp add: is_orphaned_def ask_complete_def ask_epoch_def ask_held_def is_complete_def current_epoch_def is_held_def
      is_live_def never_minted_epoch_def returnC_def)
  with r q assms(6-8) show ?thesis by (auto simp: without_lease_def lock_release_def quiet_def)
qed

section \<open>A small fleet\<close>

definition demo_manager :: "bool \<Rightarrow> manager_config" where
  "demo_manager parked = \<lparr>mc_config = demo_gather_config, mc_cipher = Inl (OtherError ''no key''), mc_digest = id, mc_attr = (\<lambda>_. None),
     mc_gate = Some 60, mc_recheck_seconds = default_redelivery_recheck_seconds, mc_serialize = (\<lambda>_. (''m1'', ''x'')),
     mc_rounds = (\<lambda>_ _. demo_round parked)\<rparr>"

definition demo_world :: "lock_state \<Rightarrow> world" where
  "demo_world l = world.truncate (demo_orch\<lparr>w_faults := [], w_inbox := new_inbox, w_lock := l,
     w_store := empty_session\<lparr>st_fingerprint := Some ''completes_when None''\<rparr>\<rparr>)"

definition demo_fleet :: "lock_state \<Rightarrow> (world \<Rightarrow> world) list \<Rightarrow> manager_state" where
  "demo_fleet l moves = \<lparr>ms_world = demo_world l, ms_moves = moves, ms_gate = Map.empty, ms_rechecks = [], ms_spawned = 0\<rparr>"

definition free_lock :: "bool \<Rightarrow> lock_state" where
  "free_lock b = \<lparr>lk_counter = 1, lk_lease = None, lk_complete = b\<rparr>"

lemmas demo_fleet_defs = demo_manager_def demo_fleet_def demo_world_def world.truncate_def demo_orch_def free_lock_def flow_of_def
  quiet_def demo_gather_config_def demo_config_def

lemma demo_fleet_parts [simp]:
  "ms_moves (demo_fleet l fs) = fs" "ms_spawned (demo_fleet l fs) = 0" "ms_gate (demo_fleet l fs) = Map.empty"
  "w_lock (ms_world (demo_fleet l fs)) = l" "w_faults (ms_world (demo_fleet l fs)) = []" "w_mono (ms_world (demo_fleet l fs)) = 0"
  "w_inbox (ms_world (demo_fleet l fs)) = new_inbox"
  by (simp_all add: demo_fleet_defs)

definition demo_session :: session_setup where
  "demo_session = \<lparr>ss_config = demo_gather_config\<lparr>gc_run := demo_config\<lparr>rc_retry_policy := default_retry_policy\<rparr>, gc_park_after := None\<rparr>,
     ss_seed = [], ss_flow = Some (''flow'', ''completes_when None''), ss_cipher = Inl (OtherError ''no key'')\<rparr>"

lemma demo_setup_of: "session_setup_of (demo_manager b) (flow_of []) [] = Inr demo_session"
  by (simp add: demo_session_def session_setup_of_def flow_identity_def fingerprint_def normalize_completion_def fingerprint_lines_def completion_line_def
    demo_fleet_defs apply_tuning_def flow_tuning_def or_default_def default_max_inbox_deliveries_def default_operation_timeout_def
    default_session_deadline_def default_lease_renew_interval_def registered_caps_def Let_def)

lemma demo_init: "orchestrator_init (ss_config demo_session) fresh w = Inr (new_gather (ss_config demo_session) fresh w)"
proof -
  have "pruned_gathering empty_registry [] [] None = []" by (simp add: pruned_gathering_def gathering_of_def aggregators_of_def prune_to_consumed_closure_def)
  then show ?thesis
    by (simp add: orchestrator_init_def Let_def new_gather_def demo_session_def demo_fleet_defs build_graph_def requirement_edges_def data_edges_def
      validate_acyclic_or_bounded_def find_cycles_def new_tarjan_def)
qed

lemma demo_accepts: "accepts_flow (demo_manager b) (flow_of [])"
  by (simp add: accepts_flow_def demo_setup_of demo_init)

text \<open>The state in which a spawn over the free lock has acquired, and in which it has prepared its run.\<close>

definition demo_taken :: "bool \<Rightarrow> bool \<Rightarrow> gather_state" where
  "demo_taken fresh b = (let g = new_gather (ss_config demo_session) fresh (demo_world (free_lock b)) in
     g\<lparr>g_orch := (g_orch g)\<lparr>w_lock := \<lparr>lk_counter = 2, lk_lease = Some \<lparr>ls_epoch = 2, ls_expires_at = 30\<rparr>, lk_complete = b\<rparr>\<rparr>\<rparr>)"

definition demo_prepared :: "bool \<Rightarrow> bool \<Rightarrow> gather_state" where
  "demo_prepared fresh b = (let g = demo_taken fresh b in
     g\<lparr>g_orch := (g_orch g)\<lparr>or_mirror := (or_mirror (g_orch g))\<lparr>mi_hydrated := True\<rparr>\<rparr>,
       g_breaker := build_circuit_breaker empty_registry [] []\<rparr>)"

lemma nothing_pruned: "pruned_gathering empty_registry [] [] None = []"
  by (simp add: pruned_gathering_def gathering_of_def aggregators_of_def prune_to_consumed_closure_def)

lemmas demo_spawn_defs = demo_taken_def demo_prepared_def new_gather_def new_orch_def demo_session_def demo_fleet_defs Let_def world.extend_def
  nothing_pruned aggregators_of_def on_orch_def port_def returnE_def bindE_def

lemma demo_acquired: "acquires demo_session (new_gather (ss_config demo_session) fresh (demo_world (free_lock b))) 2 (demo_taken fresh b)"
  by (simp add: acquires_def demo_spawn_defs on_lease_def lock_acquire_def is_live_def resolve_audit_cipher_def)

lemma demo_prepares: "prepare_run demo_session 2 (demo_taken fresh b) = (Inr (), demo_prepared fresh b)"
  by (simp add: prepare_run_def exclude_unpermitted_operators_def permitted_operators_def detect_flow_drift_def rehydrate_mirror_def demo_spawn_defs
    demo_catalog_def mirror_rehydrate_def new_mirror_def empty_session_def store_snapshot_def new_activator_def)

lemma demo_prepared_parts:
  "w_faults (g_orch (demo_prepared fresh b)) = []" "or_coalesced (g_orch (demo_prepared fresh b)) = []"
  "or_reobserved (g_orch (demo_prepared fresh b)) = []" "w_inbox (g_orch (demo_prepared fresh b)) = new_inbox"
  "w_archive (g_orch (demo_prepared fresh b)) = new_archive" "g_aggregators (demo_prepared fresh b) = []"
  "w_lock (g_orch (demo_prepared fresh b)) = \<lparr>lk_counter = 2, lk_lease = Some \<lparr>ls_epoch = 2, ls_expires_at = 30\<rparr>, lk_complete = b\<rparr>"
  by (simp_all add: demo_spawn_defs)

lemma demo_prepared_aggregate:
  "aggregate (ss_config demo_session) 2 (\<lambda>_. None) (\<lambda>_ _. returnE ()) (demo_prepared fresh b) = (Inr (), demo_prepared fresh b)"
proof -
  have renew: "on_orch (renew_now (ss_config demo_session) 2) (demo_prepared fresh b) = (Inr (), demo_prepared fresh b)"
    by (simp add: renew_now_def on_lease_def lock_renew_def is_live_def demo_spawn_defs)
  have view: "mirror_snapshot (or_mirror (g_orch (demo_prepared fresh b))) (rc_session (gc_run (ss_config demo_session))) = Inr []"
    by (simp add: demo_spawn_defs mirror_snapshot_def mirror_guard_read_def new_mirror_def)
  have refresh: "refresh_capabilities (ss_config demo_session) 2 (\<lambda>_. None) [] (demo_prepared fresh b) = (Inr no_capabilities, demo_prepared fresh b)"
    by (simp add: refresh_capabilities_def refresh_def demo_spawn_defs no_capabilities_def activate_rounds.simps activation_ready_def
       new_activator_def preferred_order_def demo_catalog_def)
  from renew view refresh show ?thesis
    by (simp add: aggregate_def present_types_def available_no_capabilities bindE_def raise_first_def demo_prepared_parts returnE_def)
qed

definition demo_finished :: "bool \<Rightarrow> bool \<Rightarrow> gather_state" where
  "demo_finished fresh b = (demo_prepared fresh b)\<lparr>g_orch := (g_orch (demo_prepared fresh b))
     \<lparr>w_lock := (w_lock (g_orch (demo_prepared fresh b)))\<lparr>lk_complete := True\<rparr>\<rparr>\<rparr>"

lemma demo_finishes: "one_round demo_session 2 (demo_round False) False (demo_prepared fresh b) = Inl (Inr COMPLETED, True, demo_finished fresh b)"
proof -
  have f: "aggregate_and_flush demo_session 2 (demo_round False) (demo_prepared fresh b) = (Inr (), demo_prepared fresh b)"
    by (simp add: aggregate_and_flush_def demo_round_parts demo_prepared_aggregate bindE_def on_orch_def append_coalesced_audits_def coalesced_rows_def
      demo_prepared_parts bounded_tail_step_def flush_write_behind_def port_def on_archive_def archive_flush_def new_archive_def)
  have "check_and_mark demo_session 2 (demo_round False) (deliveries id (demo_prepared fresh b)) = (Inr False, demo_finished fresh b)"
    by (simp add: check_and_mark_def demo_round_parts bindE_def on_orch_def bounded_tail_step_def port_def deliveries_def demo_prepared_parts
      pending_count_def new_inbox_def on_lease_def mark_complete_def returnE_def demo_finished_def)
  with f show ?thesis by (simp add: one_round_def returnE_def demo_round_parts)
qed

text \<open>One spawn completes the session, and the backstop finds nothing to drain.\<close>

definition demo_drained :: "bool \<Rightarrow> bool \<Rightarrow> manager_state" where
  "demo_drained fresh b = (demo_fleet (free_lock b) [])\<lparr>ms_world := world.truncate ((g_orch (demo_finished fresh b))
     \<lparr>w_lock := without_lease 2 (w_lock (g_orch (demo_finished fresh b)))\<rparr>), ms_spawned := 1\<rparr>"

lemma demo_drained_parts:
  "ms_world (demo_drained fresh b) = world.truncate ((g_orch (demo_finished fresh b))\<lparr>w_lock := without_lease 2 (w_lock (g_orch (demo_finished fresh b)))\<rparr>)"
  "w_inbox (ms_world (demo_drained fresh b)) = new_inbox" "w_faults (ms_world (demo_drained fresh b)) = []" "ms_moves (demo_drained fresh b) = []"
  "ms_spawned (demo_drained fresh b) = 1" "ms_gate (demo_drained fresh b) = Map.empty"
  by (simp_all add: demo_drained_def world.truncate_def demo_finished_def demo_prepared_parts)

lemma demo_spawns:
  "spawn (demo_manager False) (flow_of []) [] fresh (demo_fleet (free_lock b) []) =
     Some (Inr (result_of 2 (demo_finished fresh b) COMPLETED), demo_drained fresh b)"
proof -
  have "w_faults (g_orch (demo_finished fresh b)) = []" by (simp add: demo_finished_def demo_prepared_parts)
  then have "run demo_session (\<lambda>_. demo_round False) (new_gather (ss_config demo_session) fresh (demo_world (free_lock b))) =
      Some (Inr (result_of 2 (demo_finished fresh b) COMPLETED),
        (demo_finished fresh b)\<lparr>g_orch := (g_orch (demo_finished fresh b))\<lparr>w_lock := without_lease 2 (w_lock (g_orch (demo_finished fresh b)))\<rparr>\<rparr>)"
    by (simp add: acquires_run [OF demo_acquired] run_body_def demo_prepares run_rounds.simps demo_finishes leave_run_def backstop_def returnE_def
      superseded_def release_quiet)
  moreover have "mc_rounds (demo_manager False) n = (\<lambda>_. demo_round False)" for n by (simp add: demo_manager_def)
  moreover have "ms_world (demo_fleet (free_lock b) []) = demo_world (free_lock b)" by (simp add: demo_fleet_def)
  ultimately show ?thesis
    by (simp add: spawn_def demo_setup_of demo_init Let_def others_move_def demo_drained_def)
qed

lemma demo_drains:
  "spawn_and_drain (demo_manager False) (flow_of []) [] fresh (demo_fleet (free_lock b) []) =
     Some (Inr (result_of 2 (demo_finished fresh b) COMPLETED), demo_drained fresh b)"
proof -
  have "quiet (demo_drained fresh b)" by (simp add: quiet_def demo_drained_parts(3,4))
  then have "drain_loop (demo_manager False) (flow_of []) (Suc 7) (result_of 2 (demo_finished fresh b) COMPLETED) (demo_drained fresh b) =
      Some (Inr (result_of 2 (demo_finished fresh b) COMPLETED), demo_drained fresh b)"
    by (simp only: drain_loop.simps bindC_ask_quiet) (simp add: pending_count_def demo_drained_parts(2) new_inbox_def returnC_def)
  then show ?thesis by (simp add: spawn_and_drain_def bindC_def demo_spawns max_backstop_respawns_def)
qed

theorem resume_iff_orphaned_witness:
  "is_orphaned (demo_fleet (free_lock False) []) = Some (Inr True, demo_fleet (free_lock False) []) \<and>
   resume (demo_manager False) (flow_of []) (demo_fleet (free_lock True) []) = Some (Inr None, demo_fleet (free_lock True) [])"
  using resume_iff_orphaned [of "demo_fleet (free_lock False) []" "demo_manager False" "flow_of []"]
    resume_iff_orphaned [of "demo_fleet (free_lock True) []" "demo_manager False" "flow_of []"]
  by (auto simp: free_lock_def is_complete_def current_epoch_def is_held_def is_live_def)


theorem backstop_bounded_witness:
  "ms_spawned (demo_drained False False) \<le> 9 \<and> 0 < ms_spawned (demo_drained False False)"
  using backstop_bounded [OF demo_drains [of False False]] by (simp add: max_backstop_respawns_def)


lemma demo_late:
  "deliver (demo_manager False) (flow_of []) (sample_dp ''v'' 1) False (demo_fleet (free_lock True) []) =
     Some (Inr None, (demo_fleet (free_lock True) [])\<lparr>ms_world := (ms_world (demo_fleet (free_lock True) []))
       \<lparr>w_inbox := snd (append_serialized ''m1'' ''x'' new_inbox)\<rparr>\<rparr>)"
proof -
  let ?st = "(demo_fleet (free_lock True) [])\<lparr>ms_world := (ms_world (demo_fleet (free_lock True) []))\<lparr>w_inbox := snd (append_serialized ''m1'' ''x'' new_inbox)\<rparr>\<rparr>"
  have q: "quiet (demo_fleet (free_lock True) [])" "quiet ?st" by (simp_all add: quiet_def)
  have "mc_serialize (demo_manager False) (sample_dp ''v'' 1) = (''m1'', ''x'')" by (simp add: demo_manager_def)
  with q show ?thesis
    by (simp add: deliver_def bindC_def on_inbox_def append_serialized_def ask_complete_def returnC_def free_lock_def is_complete_def)
qed


theorem gate_admits_one_witness:
  "\<exists>st1. start_session (demo_manager False) (flow_of []) [] (Some ''device'') st1 = Some (Inl SchedulingGateBlockedError, st1) \<and> ms_spawned st1 = 1"
proof -
  define st where "st = demo_fleet \<lparr>lk_counter = 1, lk_lease = Some \<lparr>ls_epoch = 1, ls_expires_at = 30\<rparr>, lk_complete = False\<rparr> []"
  have still: "others_move st = st" by (simp add: others_move_def st_def)
  have gate: "mc_gate (demo_manager False) = Some 60" by (simp add: demo_manager_def)
  have g: "gate_try_acquire ''device'' 60 (w_mono (ms_world st)) (ms_gate st) = (True, [''device'' \<mapsto> 60])"
    by (simp add: gate_try_acquire_def st_def)
  let ?st = "st\<lparr>ms_gate := [''device'' \<mapsto> 60]\<rparr>"
  have still': "others_move ?st = ?st" by (simp add: others_move_def st_def)
  have "spawn (demo_manager False) (flow_of []) [] False ?st = Some (Inl LockHeldError, ?st\<lparr>ms_spawned := 1\<rparr>)"
    using spawn_loses [OF demo_accepts, of ?st False False] by (simp add: still') (simp add: st_def is_held_def is_live_def)
  then have first: "start_session (demo_manager False) (flow_of []) [] (Some ''device'') st = Some (Inl LockHeldError, ?st\<lparr>ms_spawned := 1\<rparr>)"
    by (simp add: start_session_def gate gate_try_start_def bindC_def still g spawn_and_drain_def)
  have "start_session (demo_manager False) (flow_of []) [] (Some ''device'') (?st\<lparr>ms_spawned := 1\<rparr>) =
      Some (Inl SchedulingGateBlockedError, others_move (?st\<lparr>ms_spawned := 1\<rparr>))"
    by (rule gate_admits_one [OF gate first]) (simp_all add: st_def others_move_def)
  then show ?thesis by (intro exI [where x = "?st\<lparr>ms_spawned := 1\<rparr>"]) (simp add: others_move_def st_def)
qed

theorem losing_resume_changes_nothing_witness:
  "\<exists>winner. resume (demo_manager False) (flow_of []) (demo_fleet (free_lock False) [id, id, id, winner]) =
     Some (Inr None, (demo_fleet (free_lock False) [])\<lparr>ms_world := winner (demo_world (free_lock False)), ms_spawned := 1\<rparr>)"
proof -
  define winner :: "world \<Rightarrow> world" where "winner = (\<lambda>w. w\<lparr>w_lock := snd (lock_acquire 30 (w_mono w) (w_lock w))\<rparr>)"
  have "resume (demo_manager False) (flow_of []) (demo_fleet (free_lock False) [id, id, id, winner]) =
      Some (Inr None, (demo_fleet (free_lock False) [id, id, id, winner])
        \<lparr>ms_world := winner (ms_world (demo_fleet (free_lock False) [id, id, id, winner])), ms_moves := [],
         ms_spawned := ms_spawned (demo_fleet (free_lock False) [id, id, id, winner]) + 1\<rparr>)"
    by (rule losing_resume_changes_nothing)
      (simp_all add: demo_accepts winner_def free_lock_def is_complete_def current_epoch_def is_held_def is_live_def lock_acquire_def Let_def)
  then show ?thesis by (intro exI [where x = winner]) (simp add: demo_fleet_def)
qed

theorem losing_reopen_orphans_witness:
  "\<exists>winner st'. reopen (demo_manager False) (flow_of []) (demo_fleet (free_lock True) [id, id, winner]) = Some (Inr None, st') \<and>
     lk_complete (w_lock (winner (demo_world (free_lock True)))) \<and>
     is_orphaned (st'\<lparr>ms_world := (ms_world st')\<lparr>w_lock := without_lease 2 (w_lock (ms_world st'))\<rparr>\<rparr>) =
       Some (Inr True, st'\<lparr>ms_world := (ms_world st')\<lparr>w_lock := without_lease 2 (w_lock (ms_world st'))\<rparr>\<rparr>)"
proof -
  define winner :: "world \<Rightarrow> world" where
    "winner = (\<lambda>w. w\<lparr>w_lock := snd (mark_complete 2 (snd (lock_acquire 30 (w_mono w) (snd (clear_complete (w_lock w))))))\<rparr>)"
  let ?st = "demo_fleet (free_lock True) [id, id, winner]"
  have l: "w_lock (winner (ms_world ?st)) = \<lparr>lk_counter = 2, lk_lease = Some \<lparr>ls_epoch = 2, ls_expires_at = 30\<rparr>, lk_complete = True\<rparr>"
    by (simp add: winner_def free_lock_def lock_acquire_def is_live_def clear_complete_def mark_complete_def Let_def)
  have "\<exists>st'. reopen (demo_manager False) (flow_of []) ?st = Some (Inr None, st') \<and>
     is_orphaned (st'\<lparr>ms_world := (ms_world st')\<lparr>w_lock := without_lease 2 (w_lock (ms_world st'))\<rparr>\<rparr>) =
       Some (Inr True, st'\<lparr>ms_world := (ms_world st')\<lparr>w_lock := without_lease 2 (w_lock (ms_world st'))\<rparr>\<rparr>)"
    by (rule losing_reopen_orphans [where winner = winner and e = 2, OF demo_accepts _ _ _ _ _ l])
      (simp_all add: winner_def free_lock_def is_complete_def is_held_def is_live_def)
  with l show ?thesis by (auto simp: demo_fleet_def intro!: exI [where x = winner])
qed

end
