(* ===== verification/Takeover_Guard.thy ===== *)
theory Takeover_Guard
  imports Orca_Prelude
begin

text \<open>
  The supervisor's takeover guard, \<^verbatim>\<open>_takeover_guard\<close> of \<^verbatim>\<open>orcastork/manager/manager.py\<close>: the resume
  attempts of one process for one session run one at a time, and the lock they share is dropped once
  nobody holds or awaits it. The entries are objects: \<open>tg_entries\<close> is the heap, a position in it a
  reference, and the dictionary maps a session to one. Every caller that ever arrived has a position in
  \<open>tg_callers\<close>. A step runs from one suspension of a caller to its next, in any order the event loop
  chooses; which of the waiting callers the lock wakes first is left open.
\<close>

section \<open>State and steps\<close>

record guard_entry =
  ge_locked :: bool
  ge_users :: int

datatype guard_phase = Awaits session_id nat | Holds session_id nat | Gone

record takeover_guards =
  tg_entries :: "guard_entry list"
  tg_map :: "session_id \<rightharpoonup> nat"
  tg_callers :: "guard_phase list"

definition no_guards :: takeover_guards where
  "no_guards = \<lparr>tg_entries = [], tg_map = Map.empty, tg_callers = []\<rparr>"

definition guard_entry_for :: "session_id \<Rightarrow> takeover_guards \<Rightarrow> nat \<times> takeover_guards" where
  "guard_entry_for sid g =
     (case tg_map g sid of
        Some i \<Rightarrow> (i, g)
      | None \<Rightarrow> (length (tg_entries g), g\<lparr>tg_entries := tg_entries g @ [\<lparr>ge_locked = False, ge_users = 0\<rparr>],
                   tg_map := (tg_map g)(sid \<mapsto> length (tg_entries g))\<rparr>))"

definition count_user :: "nat \<Rightarrow> int \<Rightarrow> takeover_guards \<Rightarrow> takeover_guards" where
  "count_user i k g = g\<lparr>tg_entries := (tg_entries g)[i := (tg_entries g ! i)\<lparr>ge_users := ge_users (tg_entries g ! i) + k\<rparr>]\<rparr>"

definition set_locked :: "nat \<Rightarrow> bool \<Rightarrow> takeover_guards \<Rightarrow> takeover_guards" where
  "set_locked i b g = g\<lparr>tg_entries := (tg_entries g)[i := (tg_entries g ! i)\<lparr>ge_locked := b\<rparr>]\<rparr>"

definition guard_arrive :: "session_id \<Rightarrow> takeover_guards \<Rightarrow> takeover_guards" where
  "guard_arrive sid g =
     (case guard_entry_for sid g of (i, g1) \<Rightarrow> (count_user i 1 g1)\<lparr>tg_callers := tg_callers g @ [Awaits sid i]\<rparr>)"

text \<open>The \<^verbatim>\<open>finally\<close> clause.\<close>

definition guard_depart :: "session_id \<Rightarrow> nat \<Rightarrow> takeover_guards \<Rightarrow> takeover_guards" where
  "guard_depart sid i g =
     (let g1 = count_user i (- 1) g in
      if ge_users (tg_entries g1 ! i) = 0 \<and> tg_map g1 sid = Some i then g1\<lparr>tg_map := (tg_map g1)(sid := None)\<rparr> else g1)"

definition guard_enter :: "nat \<Rightarrow> takeover_guards \<Rightarrow> takeover_guards option" where
  "guard_enter c g =
     (case tg_callers g ! c of
        Awaits sid i \<Rightarrow>
          if ge_locked (tg_entries g ! i) then None
          else Some ((set_locked i True g)\<lparr>tg_callers := (tg_callers g)[c := Holds sid i]\<rparr>)
      | _ \<Rightarrow> None)"

definition guard_leave :: "nat \<Rightarrow> takeover_guards \<Rightarrow> takeover_guards option" where
  "guard_leave c g =
     (case tg_callers g ! c of
        Holds sid i \<Rightarrow> Some (guard_depart sid i ((set_locked i False g)\<lparr>tg_callers := (tg_callers g)[c := Gone]\<rparr>))
      | _ \<Rightarrow> None)"

text \<open>A caller cancelled while it awaits the lock.\<close>

definition guard_cancel :: "nat \<Rightarrow> takeover_guards \<Rightarrow> takeover_guards option" where
  "guard_cancel c g =
     (case tg_callers g ! c of
        Awaits sid i \<Rightarrow> Some (guard_depart sid i (g\<lparr>tg_callers := (tg_callers g)[c := Gone]\<rparr>))
      | _ \<Rightarrow> None)"

inductive guard_step :: "takeover_guards \<Rightarrow> takeover_guards \<Rightarrow> bool" where
  arrives: "guard_step g (guard_arrive sid g)"
| enters: "c < length (tg_callers g) \<Longrightarrow> guard_enter c g = Some g' \<Longrightarrow> guard_step g g'"
| leaves: "c < length (tg_callers g) \<Longrightarrow> guard_leave c g = Some g' \<Longrightarrow> guard_step g g'"
| cancelled: "c < length (tg_callers g) \<Longrightarrow> guard_cancel c g = Some g' \<Longrightarrow> guard_step g g'"

inductive guard_reaches :: "takeover_guards \<Rightarrow> bool" where
  initially: "guard_reaches no_guards"
| steps: "guard_reaches g \<Longrightarrow> guard_step g g' \<Longrightarrow> guard_reaches g'"

section \<open>The invariant\<close>

definition served :: "takeover_guards \<Rightarrow> session_id \<Rightarrow> nat \<Rightarrow> bool" where
  "served g sid i \<longleftrightarrow> i < length (tg_entries g) \<and> 0 < ge_users (tg_entries g ! i) \<and>
     ge_users (tg_entries g ! i) = int (count_list (tg_callers g) (Awaits sid i) + count_list (tg_callers g) (Holds sid i)) \<and>
     count_list (tg_callers g) (Holds sid i) = (if ge_locked (tg_entries g ! i) then 1 else 0)"

definition guard_inv :: "takeover_guards \<Rightarrow> bool" where
  "guard_inv g \<longleftrightarrow>
     (\<forall>sid i. Awaits sid i \<in> set (tg_callers g) \<or> Holds sid i \<in> set (tg_callers g) \<longrightarrow> tg_map g sid = Some i) \<and>
     (\<forall>sid i. tg_map g sid = Some i \<longrightarrow> served g sid i) \<and>
     (\<forall>s t i. tg_map g s = Some i \<and> tg_map g t = Some i \<longrightarrow> s = t)"

lemma guard_invD:
  assumes "guard_inv g"
  shows "Awaits sid i \<in> set (tg_callers g) \<Longrightarrow> tg_map g sid = Some i" and "Holds sid i \<in> set (tg_callers g) \<Longrightarrow> tg_map g sid = Some i"
    and "tg_map g sid = Some i \<Longrightarrow> served g sid i" and "tg_map g s = Some i \<Longrightarrow> tg_map g t = Some i \<Longrightarrow> s = t"
  using assms by (auto simp: guard_inv_def)

lemma alone: "guard_inv g \<Longrightarrow> tg_map g sid = Some i \<Longrightarrow> s \<noteq> sid \<Longrightarrow> tg_map g s \<noteq> Some i"
  by (metis guard_invD(4))

lemma count_update:
  "c < length xs \<Longrightarrow> count_list (xs[c := y]) x + (if xs ! c = x then 1 else 0) = count_list xs x + (if y = x then 1 else (0::nat))"
proof (induction xs arbitrary: c)
  case (Cons a xs)
  show ?case
  proof (cases c)
    case (Suc k)
    with Cons.IH [of k] Cons.prems show ?thesis by (auto split: if_splits)
  qed simp
qed simp

lemma count_two:
  assumes "a < length xs" and "b < length xs" and "a \<noteq> b" and "xs ! a = x" and "xs ! b = x"
  shows "2 \<le> count_list xs x"
  using assms
proof (induction xs arbitrary: a b)
  case (Cons y xs)
  have one: "0 < count_list xs x" if "k < length xs" "xs ! k = x" for k
    using that by (metis count_list_0_iff gr0I nth_mem)
  from Cons show ?case by (cases a; cases b) (auto dest: one simp: Suc_le_eq)
qed simp

lemma guard_inv_cong:
  assumes inv: "guard_inv g" and sid: "tg_map g' sid = None \<or> (\<exists>i. tg_map g' sid = Some i \<and> served g' sid i \<and> (\<forall>s. s \<noteq> sid \<longrightarrow> tg_map g s \<noteq> Some i))"
    and others: "\<And>s. s \<noteq> sid \<Longrightarrow> tg_map g' s = tg_map g s"
    and kept: "\<And>s j. s \<noteq> sid \<Longrightarrow> tg_map g s = Some j \<Longrightarrow> j < length (tg_entries g') \<and> tg_entries g' ! j = tg_entries g ! j"
    and counts: "\<And>s j. s \<noteq> sid \<Longrightarrow> count_list (tg_callers g') (Awaits s j) = count_list (tg_callers g) (Awaits s j) \<and>
        count_list (tg_callers g') (Holds s j) = count_list (tg_callers g) (Holds s j)"
    and mine: "\<And>j. Awaits sid j \<in> set (tg_callers g') \<or> Holds sid j \<in> set (tg_callers g') \<Longrightarrow> tg_map g' sid = Some j"
  shows "guard_inv g'"
  unfolding guard_inv_def
proof (intro conjI allI impI)
  fix s j
  assume p: "Awaits s j \<in> set (tg_callers g') \<or> Holds s j \<in> set (tg_callers g')"
  show "tg_map g' s = Some j"
  proof (cases "s = sid")
    case True
    with p mine show ?thesis by blast
  next
    case False
    from p counts [OF False, of j] have "Awaits s j \<in> set (tg_callers g) \<or> Holds s j \<in> set (tg_callers g)"
      by (metis count_list_0_iff)
    with guard_invD(1,2) [OF inv] others [OF False] show ?thesis by auto
  qed
next
  fix s j
  assume m: "tg_map g' s = Some j"
  show "served g' s j"
  proof (cases "s = sid")
    case True
    with m sid show ?thesis by auto
  next
    case False
    with m others have m': "tg_map g s = Some j" by simp
    from guard_invD(3) [OF inv this] kept [OF False m'] counts [OF False, of j] show ?thesis by (simp add: served_def)
  qed
next
  fix s t j
  assume m: "tg_map g' s = Some j \<and> tg_map g' t = Some j"
  show "s = t"
  proof (cases "s = sid \<or> t = sid")
    case True
    with m sid others show ?thesis by (metis option.inject option.distinct(1))
  next
    case False
    with m others guard_invD(4) [OF inv] show ?thesis by metis
  qed
qed

lemma arrive_keeps:
  assumes inv: "guard_inv g"
  shows "guard_inv (guard_arrive sid g)"
proof (cases "tg_map g sid")
  case (Some i)
  from guard_invD(3) [OF inv Some] have sv: "served g sid i" .
  let ?g = "(count_user i 1 g)\<lparr>tg_callers := tg_callers g @ [Awaits sid i]\<rparr>"
  have "guard_inv ?g"
  proof (rule guard_inv_cong [OF inv, where sid = sid])
    show "tg_map ?g sid = None \<or> (\<exists>i. tg_map ?g sid = Some i \<and> served ?g sid i \<and> (\<forall>s. s \<noteq> sid \<longrightarrow> tg_map g s \<noteq> Some i))"
      using sv Some alone [OF inv Some] by (auto simp: served_def count_user_def)
    show "j < length (tg_entries ?g) \<and> tg_entries ?g ! j = tg_entries g ! j" if "s \<noteq> sid" "tg_map g s = Some j" for s j
    proof -
      have "j \<noteq> i" using that alone [OF inv Some] by auto
      with guard_invD(3) [OF inv that(2)] show ?thesis by (simp add: count_user_def served_def)
    qed
    show "tg_map ?g sid = Some j" if "Awaits sid j \<in> set (tg_callers ?g) \<or> Holds sid j \<in> set (tg_callers ?g)" for j
      using that Some guard_invD(1,2) [OF inv] by (auto simp: count_user_def)
  qed (auto simp: count_user_def)
  then show ?thesis by (simp add: guard_arrive_def guard_entry_for_def Some)
next
  case None
  let ?n = "length (tg_entries g)"
  let ?g1 = "g\<lparr>tg_entries := tg_entries g @ [\<lparr>ge_locked = False, ge_users = 0\<rparr>], tg_map := (tg_map g)(sid \<mapsto> ?n)\<rparr>"
  let ?g = "(count_user ?n 1 ?g1)\<lparr>tg_callers := tg_callers g @ [Awaits sid ?n]\<rparr>"
  have fresh: "Awaits sid j \<notin> set (tg_callers g)" "Holds sid j \<notin> set (tg_callers g)" for j
    using None guard_invD(1,2) [OF inv, of sid j] by auto
  have old: "j < ?n" if "tg_map g s = Some j" for s j using guard_invD(3) [OF inv that] by (simp add: served_def)
  have "guard_inv ?g"
  proof (rule guard_inv_cong [OF inv, where sid = sid])
    show "tg_map ?g sid = None \<or> (\<exists>i. tg_map ?g sid = Some i \<and> served ?g sid i \<and> (\<forall>s. s \<noteq> sid \<longrightarrow> tg_map g s \<noteq> Some i))"
      using fresh old by (auto simp: served_def count_user_def dest: less_not_refl2)
    show "j < length (tg_entries ?g) \<and> tg_entries ?g ! j = tg_entries g ! j" if "s \<noteq> sid" "tg_map g s = Some j" for s j
      using old [OF that(2)] by (auto simp: count_user_def nth_append)
    show "tg_map ?g sid = Some j" if "Awaits sid j \<in> set (tg_callers ?g) \<or> Holds sid j \<in> set (tg_callers ?g)" for j
      using that fresh by (auto simp: count_user_def)
  qed (auto simp: count_user_def)
  then show ?thesis by (simp add: guard_arrive_def guard_entry_for_def None)
qed

text \<open>A caller of \<open>sid\<close> changes its phase or departs: the entry is the one the session is mapped to.\<close>

lemma others_kept:
  assumes "guard_inv g" and "tg_map g sid = Some i" and "s \<noteq> sid" and "tg_map g s = Some j"
  shows "j \<noteq> i \<and> j < length (tg_entries g)"
  using assms guard_invD(3) [OF assms(1,4)] alone [OF assms(1,2,3)] by (auto simp: served_def)

lemma enter_keeps:
  assumes inv: "guard_inv g" and c: "c < length (tg_callers g)" and e: "guard_enter c g = Some g'"
  shows "guard_inv g'"
proof -
  from e obtain sid i where p: "tg_callers g ! c = Awaits sid i" and free: "\<not> ge_locked (tg_entries g ! i)"
    and g': "g' = (set_locked i True g)\<lparr>tg_callers := (tg_callers g)[c := Holds sid i]\<rparr>"
    by (auto simp: guard_enter_def split: guard_phase.splits if_splits)
  have m: "tg_map g sid = Some i" using guard_invD(1) [OF inv, of sid i] c p by (metis nth_mem)
  note sv = guard_invD(3) [OF inv m]
  note cu = count_update [OF c, of "Holds sid i", unfolded p]
  show ?thesis
  proof (rule guard_inv_cong [OF inv, where sid = sid])
    have "served g' sid i"
      using sv free cu [of "Awaits sid i"] cu [of "Holds sid i"] by (auto simp: served_def g' set_locked_def)
    then show "tg_map g' sid = None \<or> (\<exists>i. tg_map g' sid = Some i \<and> served g' sid i \<and> (\<forall>s. s \<noteq> sid \<longrightarrow> tg_map g s \<noteq> Some i))"
      using m alone [OF inv m] by (simp add: g' set_locked_def)
    show "j < length (tg_entries g') \<and> tg_entries g' ! j = tg_entries g ! j" if "s \<noteq> sid" "tg_map g s = Some j" for s j
      using others_kept [OF inv m that] by (simp add: g' set_locked_def)
    show "count_list (tg_callers g') (Awaits s j) = count_list (tg_callers g) (Awaits s j) \<and>
        count_list (tg_callers g') (Holds s j) = count_list (tg_callers g) (Holds s j)" if "s \<noteq> sid" for s j
      using that cu [of "Awaits s j"] cu [of "Holds s j"] by (simp add: g')
    show "tg_map g' sid = Some j" if "Awaits sid j \<in> set (tg_callers g') \<or> Holds sid j \<in> set (tg_callers g')" for j
      using that guard_invD(1,2) [OF inv, of sid j] m set_update_subset_insert [of "tg_callers g" c "Holds sid i"]
      by (auto simp: g' set_locked_def)
  qed (auto simp: g' set_locked_def)
qed

text \<open>Departing, with the lock in the state \<open>b\<close> the caller leaves it in.\<close>

lemma depart_keeps:
  assumes inv: "guard_inv g" and c: "c < length (tg_callers g)"
    and p: "tg_callers g ! c = Awaits sid i \<and> b = ge_locked (tg_entries g ! i) \<or> tg_callers g ! c = Holds sid i \<and> \<not> b"
  shows "guard_inv (guard_depart sid i ((set_locked i b g)\<lparr>tg_callers := (tg_callers g)[c := Gone]\<rparr>))"
    (is "guard_inv ?g'")
proof -
  have m: "tg_map g sid = Some i" using guard_invD(1,2) [OF inv, of sid i] c p by (metis nth_mem)
  note sv = guard_invD(3) [OF inv m]
  have cu: "count_list ((tg_callers g)[c := Gone]) (Awaits s j) + (if tg_callers g ! c = Awaits s j then 1 else 0) = count_list (tg_callers g) (Awaits s j)"
    "count_list ((tg_callers g)[c := Gone]) (Holds s j) + (if tg_callers g ! c = Holds s j then 1 else 0) = count_list (tg_callers g) (Holds s j)" for s j
    using count_update [OF c, of Gone "Awaits s j"] count_update [OF c, of Gone "Holds s j"] by simp_all
  let ?e = "(tg_entries g ! i)\<lparr>ge_locked := b, ge_users := ge_users (tg_entries g ! i) - 1\<rparr>"
  have parts: "tg_callers ?g' = (tg_callers g)[c := Gone]" "tg_entries ?g' = (tg_entries g)[i := ?e]"
    "tg_map ?g' = (if ge_users (tg_entries g ! i) = 1 then (tg_map g)(sid := None) else tg_map g)"
    using sv m by (auto simp: guard_depart_def count_user_def set_locked_def served_def Let_def)
  have left: "ge_users (tg_entries g ! i) - 1 =
      int (count_list ((tg_callers g)[c := Gone]) (Awaits sid i) + count_list ((tg_callers g)[c := Gone]) (Holds sid i))"
    "count_list ((tg_callers g)[c := Gone]) (Holds sid i) = (if b then 1 else 0)"
    using sv p cu [of sid i] by (auto simp: served_def split: if_splits)
  have away: "Awaits sid j \<notin> set ((tg_callers g)[c := Gone]) \<and> Holds sid j \<notin> set ((tg_callers g)[c := Gone])" if "j \<noteq> i" for j
    using guard_invD(1,2) [OF inv, of sid j] m that set_update_subset_insert [of "tg_callers g" c Gone] by auto
  show ?thesis
  proof (rule guard_inv_cong [OF inv, where sid = sid])
    show "tg_map ?g' sid = None \<or> (\<exists>i. tg_map ?g' sid = Some i \<and> served ?g' sid i \<and> (\<forall>s. s \<noteq> sid \<longrightarrow> tg_map g s \<noteq> Some i))"
    proof (cases "ge_users (tg_entries g ! i) = 1")
      case False
      have "served ?g' sid i" using sv False left by (auto simp: served_def parts)
      moreover have "tg_map ?g' sid = Some i" using m False by (simp add: parts)
      ultimately show ?thesis using alone [OF inv m] by blast
    qed (simp add: parts)
    show "j < length (tg_entries ?g') \<and> tg_entries ?g' ! j = tg_entries g ! j" if "s \<noteq> sid" "tg_map g s = Some j" for s j
      using others_kept [OF inv m that] by (simp add: parts)
    show "count_list (tg_callers ?g') (Awaits s j) = count_list (tg_callers g) (Awaits s j) \<and>
        count_list (tg_callers ?g') (Holds s j) = count_list (tg_callers g) (Holds s j)" if "s \<noteq> sid" for s j
      using that cu [of s j] p by (auto simp: parts)
    show "tg_map ?g' sid = Some j" if "Awaits sid j \<in> set (tg_callers ?g') \<or> Holds sid j \<in> set (tg_callers ?g')" for j
    proof -
      from that away have "j = i" by (auto simp: parts)
      with that have "0 < count_list ((tg_callers g)[c := Gone]) (Awaits sid i) + count_list ((tg_callers g)[c := Gone]) (Holds sid i)"
        by (metis parts(1) count_list_0_iff add_is_0 neq0_conv)
      with left m \<open>j = i\<close> show ?thesis by (auto simp: parts)
    qed
  qed (auto simp: parts)
qed

lemma step_keeps: "guard_step g g' \<Longrightarrow> guard_inv g \<Longrightarrow> guard_inv g'"
proof (induction rule: guard_step.induct)
  case (arrives g sid)
  then show ?case by (rule arrive_keeps)
next
  case (enters c g g')
  then show ?case by (auto intro: enter_keeps)
next
  case (leaves c g g')
  then obtain sid i where "tg_callers g ! c = Holds sid i"
    and "g' = guard_depart sid i ((set_locked i False g)\<lparr>tg_callers := (tg_callers g)[c := Gone]\<rparr>)"
    by (auto simp: guard_leave_def split: guard_phase.splits)
  with leaves depart_keeps [of g c sid i False] show ?case by simp
next
  case (cancelled c g g')
  then obtain sid i where p: "tg_callers g ! c = Awaits sid i" and g': "g' = guard_depart sid i (g\<lparr>tg_callers := (tg_callers g)[c := Gone]\<rparr>)"
    by (auto simp: guard_cancel_def split: guard_phase.splits)
  have "set_locked i (ge_locked (tg_entries g ! i)) g = g" by (simp add: set_locked_def)
  with depart_keeps [of g c sid i "ge_locked (tg_entries g ! i)"] cancelled p g' show ?case by simp
qed

lemma reaches_inv: "guard_reaches g \<Longrightarrow> guard_inv g"
proof (induction rule: guard_reaches.induct)
  case initially
  show ?case by (simp add: guard_inv_def no_guards_def)
next
  case (steps g g')
  then show ?case by (auto intro: step_keeps)
qed

section \<open>What the guard promises\<close>

text \<open>
  C28: one takeover at a time. In every reachable state at most one caller is inside the guard of a
  session, whatever the order in which callers arrive, enter, leave and are cancelled.
\<close>

theorem takeover_exclusive:
  assumes "guard_reaches g" and "a < length (tg_callers g)" and "b < length (tg_callers g)"
    and "tg_callers g ! a = Holds sid i" and "tg_callers g ! b = Holds sid j"
  shows "a = b"
proof (rule ccontr)
  assume "a \<noteq> b"
  have inv: "guard_inv g" using assms(1) by (rule reaches_inv)
  have m: "tg_map g sid = Some i" "tg_map g sid = Some j" using guard_invD(2) [OF inv] assms(2-5) by (metis nth_mem)+
  then have "2 \<le> count_list (tg_callers g) (Holds sid i)" using count_two [OF assms(2,3) \<open>a \<noteq> b\<close>] assms(4,5) by simp
  with guard_invD(3) [OF inv m(1)] show False by (simp add: served_def split: if_splits)
qed

text \<open>
  Also: the guard does not leak. In every reachable state a session has an entry exactly while some
  caller holds or awaits its lock.
\<close>

theorem takeover_entries_exact:
  assumes "guard_reaches g"
  shows "tg_map g sid \<noteq> None \<longleftrightarrow> (\<exists>i. Awaits sid i \<in> set (tg_callers g) \<or> Holds sid i \<in> set (tg_callers g))"
proof
  have inv: "guard_inv g" using assms by (rule reaches_inv)
  show "\<exists>i. Awaits sid i \<in> set (tg_callers g) \<or> Holds sid i \<in> set (tg_callers g)" if "tg_map g sid \<noteq> None"
  proof -
    from that obtain i where "tg_map g sid = Some i" by blast
    from guard_invD(3) [OF inv this] have "0 < count_list (tg_callers g) (Awaits sid i) + count_list (tg_callers g) (Holds sid i)"
      unfolding served_def by linarith
    then show ?thesis by (metis count_list_0_iff add_is_0 neq0_conv)
  qed
  show "tg_map g sid \<noteq> None" if "\<exists>i. Awaits sid i \<in> set (tg_callers g) \<or> Holds sid i \<in> set (tg_callers g)"
    using that guard_invD(1,2) [OF inv] by fastforce
qed

text \<open>
  Nobody waits for nothing: a caller that awaits the lock can enter, or another one is inside, and once
  that one leaves it can enter.
\<close>

theorem takeover_progress:
  assumes "guard_reaches g" and "a < length (tg_callers g)" and "tg_callers g ! a = Awaits sid i"
  shows "guard_enter a g \<noteq> None \<or>
     (\<exists>b g'. b < length (tg_callers g) \<and> tg_callers g ! b = Holds sid i \<and> guard_leave b g = Some g' \<and> guard_enter a g' \<noteq> None)"
proof (cases "ge_locked (tg_entries g ! i)")
  case False
  with assms(3) show ?thesis by (simp add: guard_enter_def)
next
  case True
  have inv: "guard_inv g" using assms(1) by (rule reaches_inv)
  have m: "tg_map g sid = Some i" using guard_invD(1) [OF inv] assms(2,3) by (metis nth_mem)
  note sv = guard_invD(3) [OF inv m]
  with True have "count_list (tg_callers g) (Holds sid i) = 1" by (simp add: served_def)
  then have "Holds sid i \<in> set (tg_callers g)" by (metis count_list_0_iff zero_neq_one)
  then obtain b where b: "b < length (tg_callers g)" "tg_callers g ! b = Holds sid i" by (auto simp: in_set_conv_nth)
  let ?g' = "guard_depart sid i ((set_locked i False g)\<lparr>tg_callers := (tg_callers g)[b := Gone]\<rparr>)"
  have l: "guard_leave b g = Some ?g'" by (simp add: guard_leave_def b)
  have "a \<noteq> b" using b assms(3) by auto
  then have "tg_callers ?g' ! a = Awaits sid i" "\<not> ge_locked (tg_entries ?g' ! i)"
    using sv assms(3) by (simp_all add: guard_depart_def count_user_def set_locked_def Let_def served_def)
  then have "guard_enter a ?g' \<noteq> None" by (simp add: guard_enter_def)
  with b l show ?thesis by blast
qed

text \<open>Two callers of one session, the first inside.\<close>

definition demo_guards :: takeover_guards where
  "demo_guards = the (guard_enter 0 (guard_arrive ''s'' (guard_arrive ''s'' no_guards)))"

lemma demo_guards_eq: "demo_guards = \<lparr>tg_entries = [\<lparr>ge_locked = True, ge_users = 2\<rparr>], tg_map = [''s'' \<mapsto> 0], tg_callers = [Holds ''s'' 0, Awaits ''s'' 0]\<rparr>"
  by (simp add: demo_guards_def guard_enter_def guard_arrive_def guard_entry_for_def no_guards_def count_user_def set_locked_def)

lemma demo_guards_reached: "guard_reaches demo_guards"
proof -
  let ?g = "guard_arrive ''s'' (guard_arrive ''s'' no_guards)"
  have e: "guard_enter 0 ?g = Some demo_guards"
    by (simp add: demo_guards_eq guard_enter_def guard_arrive_def guard_entry_for_def no_guards_def count_user_def set_locked_def)
  have "0 < length (tg_callers ?g)" by (simp add: guard_arrive_def split: prod.split)
  from guard_step.enters [OF this e] show ?thesis
    by (blast intro: guard_reaches.intros guard_step.arrives)
qed

theorem takeover_exclusive_witness: "tg_callers demo_guards ! 0 = Holds ''s'' 0 \<and> (THE a. a < 2 \<and> tg_callers demo_guards ! a = Holds ''s'' 0) = 0"
proof -
  have "a = 0" if "a < 2" "tg_callers demo_guards ! a = Holds ''s'' 0" for a
    using that takeover_exclusive [OF demo_guards_reached, of a 0 "''s''" 0 0] by (simp add: demo_guards_eq)
  then show ?thesis by (auto simp: demo_guards_eq)
qed

theorem takeover_entries_exact_witness: "tg_map demo_guards ''s'' \<noteq> None \<and> tg_map demo_guards ''t'' = None"
  using takeover_entries_exact [OF demo_guards_reached, of "''s''"] takeover_entries_exact [OF demo_guards_reached, of "''t''"]
  by (auto simp: demo_guards_eq)

theorem takeover_progress_witness:
  "\<exists>g'. guard_leave 0 demo_guards = Some g' \<and> guard_enter 1 g' \<noteq> None"
  using takeover_progress [OF demo_guards_reached, of 1 "''s''" 0]
  by (auto simp: demo_guards_eq guard_enter_def less_Suc_eq)

end
