(* ===== verification/Py_Repr.thy ===== *)
theory Py_Repr
  imports DataPoints
begin

text \<open>
  Python's \<^verbatim>\<open>repr\<close> of normal forms. The in-process engine orders dictionary items by it, and
  \<^verbatim>\<open>canonical_value\<close> of \<^verbatim>\<open>orcastork/datapoints/base.py\<close> is the representation of a value's
  normal form: the string under which the Redis store and the archive know it.
\<close>

section \<open>The textual representation of values\<close>

text \<open>A string is one of code points below 256.\<close>

definition hex_digit :: "nat \<Rightarrow> char" where
  "hex_digit n = (if n < 10 then char_of (48 + n) else char_of (87 + n))"

definition prints_as_is :: "char \<Rightarrow> bool" where
  "prints_as_is c \<longleftrightarrow> (let n = of_char c :: nat in (32 \<le> n \<and> n < 127) \<or> (160 < n \<and> n \<noteq> 173))"

definition repr_char :: "char \<Rightarrow> char \<Rightarrow> string" where
  "repr_char quote c =
     (if c = quote \<or> c = CHR 0x5C then [CHR 0x5C, c]
      else if c = CHR 0x0A then [CHR 0x5C, CHR ''n'']
      else if c = CHR 0x0D then [CHR 0x5C, CHR ''r'']
      else if c = CHR 0x09 then [CHR 0x5C, CHR ''t'']
      else if prints_as_is c then [c]
      else [CHR 0x5C, CHR ''x'', hex_digit (of_char c div 16), hex_digit (of_char c mod 16)])"

definition repr_string :: "string \<Rightarrow> string" where
  "repr_string s =
     (let quote = (if CHR 0x27 \<in> set s \<and> CHR 0x22 \<notin> set s then CHR 0x22 else CHR 0x27)
      in [quote] @ concat (map (repr_char quote) s) @ [quote])"

fun repr_items :: "string list \<Rightarrow> string" where
  "repr_items [] = []"
| "repr_items [x] = x"
| "repr_items (x # xs) = x @ '', '' @ repr_items xs"

fun py_repr :: "pyval \<Rightarrow> string" where
  "py_repr PNone = ''None''"
| "py_repr (PBool b) = (if b then ''True'' else ''False'')"
| "py_repr (PInt n) = show_int n"
| "py_repr (PStr s) = repr_string s"
| "py_repr (PTuple xs) = (case xs of [x] \<Rightarrow> ''('' @ py_repr x @ '',)'' | _ \<Rightarrow> ''('' @ repr_items (map py_repr xs) @ '')'')"
| "py_repr _ = ''''"

definition canonical_value :: "pyval \<Rightarrow> string" where
  "canonical_value v = py_repr (make_hashable v)"

end
