(* ===== verification/Lite_State.thy ===== *)
theory Lite_State
  imports Scheduling Py_Repr
begin

text \<open>
  The data of the in-process engine: DataPoints and their read view, \<^verbatim>\<open>orcastork_lite/datapoints.py\<close>,
  and the session's keyed set with revisions and watermarks, \<^verbatim>\<open>orcastork_lite/state.py\<close>. Classes
  and values are those of \<open>DataPoints\<close>; there is no class registry here. Every value of the model can
  be made hashable.
\<close>

section \<open>DataPoints\<close>

fun lite_hashable :: "pyval \<Rightarrow> pyval" where
  "lite_hashable (PList xs) = PTuple (map lite_hashable xs)"
| "lite_hashable (PTuple xs) = PTuple (map lite_hashable xs)"
| "lite_hashable (PDict kvs) = PTuple (sort_key py_repr (map (\<lambda>(k, v). PTuple [PStr k, lite_hashable v]) kvs))"
| "lite_hashable (PSet xs) = PTuple (sort_key py_repr (map PStr (remdups xs)))"
| "lite_hashable v = v"

record lite_point =
  lp_class :: pyclass
  lp_value :: pyval
  lp_retrieved_by :: operator_id
  lp_first :: instant
  lp_last :: instant

type_synonym lite_key = "pyclass \<times> pyval"

definition lite_identity :: "lite_point \<Rightarrow> lite_key" where
  "lite_identity d = (lp_class d, canon (lite_hashable (lp_value d)))"

definition lite_reobserved :: "instant \<Rightarrow> lite_point \<Rightarrow> lite_point" where
  "lite_reobserved t d = d\<lparr>lp_last := max (lp_last d) t\<rparr>"

text \<open>Building the model validates the value, which is pydantic's: \<open>validate\<close> stands for it.\<close>

record lite_emission =
  lm_leaf :: pyclass
  lm_value :: pyval

definition lite_finalize ::
  "(pyclass \<Rightarrow> pyval \<Rightarrow> string + pyval) \<Rightarrow> operator_id \<Rightarrow> instant \<Rightarrow> lite_emission \<Rightarrow> string + lite_point" where
  "lite_finalize validate oid t em =
     (case validate (lm_leaf em) (lm_value em) of
        Inl err \<Rightarrow> Inl err
      | Inr v \<Rightarrow> Inr \<lparr>lp_class = lm_leaf em, lp_value = v, lp_retrieved_by = oid, lp_first = t, lp_last = t\<rparr>)"

definition lite_of_type :: "lite_point list \<Rightarrow> pyclass \<Rightarrow> lite_point list" where
  "lite_of_type view t = filter (\<lambda>d. issubclass (lp_class d) t) view"

definition lite_latest :: "lite_point list \<Rightarrow> pyclass \<Rightarrow> lite_point option" where
  "lite_latest view t =
     (case lite_of_type view t of [] \<Rightarrow> None
      | d # ds \<Rightarrow> Some (foldl (\<lambda>best x. if lp_last best < lp_last x then x else best) d ds))"

definition lite_present_types :: "lite_point list \<Rightarrow> pyclass list" where
  "lite_present_types view = remdups (map lp_class view)"

section \<open>The session state\<close>

record lite_entry =
  le_point :: lite_point
  le_added :: int
  le_updated :: int

record lite_state =
  ls_entries :: "(lite_key \<times> lite_entry) list"
  ls_revision :: int
  ls_watermarks :: "operator_id \<rightharpoonup> int"

definition new_lite_state :: lite_state where
  "new_lite_state = \<lparr>ls_entries = [], ls_revision = 0, ls_watermarks = Map.empty\<rparr>"

record lite_outcome =
  lo_revision :: int
  lo_added :: "lite_point list"
  lo_updated :: "lite_point list"

type_synonym lite_merging = "(lite_key \<times> lite_entry) list \<times> lite_point list \<times> lite_point list"

definition lite_merge_one :: "int \<Rightarrow> lite_point \<Rightarrow> lite_merging \<Rightarrow> lite_merging" where
  "lite_merge_one next_revision d = (\<lambda>(es, added, updated).
     (case map_of es (lite_identity d) of
        None \<Rightarrow> (AList.update (lite_identity d) \<lparr>le_point = d, le_added = next_revision, le_updated = next_revision\<rparr> es, added @ [d], updated)
      | Some e \<Rightarrow>
          if lp_last (le_point e) < lp_last d then
            (let p = lite_reobserved (lp_last d) (le_point e)
             in (AList.update (lite_identity d) (e\<lparr>le_point := p, le_updated := next_revision\<rparr>) es, added, updated @ [p]))
          else (es, added, updated)))"

definition lite_merge :: "lite_point list \<Rightarrow> lite_state \<Rightarrow> lite_outcome \<times> lite_state" where
  "lite_merge ds s =
     (case fold (lite_merge_one (ls_revision s + 1)) ds (ls_entries s, [], []) of
        (es, added, updated) \<Rightarrow>
          let r = (if added \<noteq> [] \<or> updated \<noteq> [] then ls_revision s + 1 else ls_revision s)
          in (\<lparr>lo_revision = r, lo_added = added, lo_updated = updated\<rparr>, s\<lparr>ls_entries := es, ls_revision := r\<rparr>))"

definition lite_view :: "lite_state \<Rightarrow> lite_point list" where
  "lite_view s = map (\<lambda>p. le_point (snd p)) (ls_entries s)"

definition lite_has_run :: "operator_id \<Rightarrow> lite_state \<Rightarrow> bool" where
  "lite_has_run oid s \<longleftrightarrow> ls_watermarks s oid \<noteq> None"

definition lite_advance_watermark :: "operator_id \<Rightarrow> int \<Rightarrow> lite_state \<Rightarrow> lite_state" where
  "lite_advance_watermark oid r s = s\<lparr>ls_watermarks := (ls_watermarks s)(oid \<mapsto> r)\<rparr>"

record lite_delta =
  ld_added :: "lite_point list"
  ld_updated :: "lite_point list"
  ld_newly_available :: "capability_id list"
  ld_first :: bool

definition lite_delta_for :: "operator_id \<Rightarrow> capability_id list \<Rightarrow> capability_id list \<Rightarrow> lite_state \<Rightarrow> lite_delta" where
  "lite_delta_for oid previous available s =
     (let newly = filter (\<lambda>c. c \<notin> set previous) available; es = map snd (ls_entries s)
      in case ls_watermarks s oid of
           None \<Rightarrow> \<lparr>ld_added = map le_point es, ld_updated = [], ld_newly_available = newly, ld_first = True\<rparr>
         | Some w \<Rightarrow>
             \<lparr>ld_added = map le_point (filter (\<lambda>e. w < le_added e) es),
              ld_updated = map le_point (filter (\<lambda>e. le_added e \<le> w \<and> w < le_updated e) es),
              ld_newly_available = newly, ld_first = False\<rparr>)"

section \<open>The state is the keyed merge of what was observed\<close>

definition lite_refresh :: "lite_point \<Rightarrow> lite_point \<Rightarrow> lite_point" where
  "lite_refresh old d = lite_reobserved (lp_last d) old"

interpretation lite_points: keyed_merge lite_identity lite_refresh
  by unfold_locales (simp_all add: lite_identity_def lite_refresh_def lite_reobserved_def max.assoc max.left_commute max.commute)

definition points_of :: "(lite_key \<times> lite_entry) list \<Rightarrow> (lite_key \<times> lite_point) list" where
  "points_of es = map (\<lambda>(k, e). (k, le_point e)) es"

lemma map_of_points: "map_of (points_of es) k = map_option le_point (map_of es k)"
  by (induction es) (auto simp: points_of_def)

lemma points_update: "points_of (AList.update k e es) = AList.update k (le_point e) (points_of es)"
  by (induction es) (auto simp: points_of_def)

lemma merge_one_points:
  assumes "lite_merge_one n d (es, added, updated) = (es', added', updated')"
  shows "points_of es' = upsert lite_identity lite_refresh d (points_of es)"
proof (cases "map_of es (lite_identity d)")
  case None
  with assms show ?thesis by (auto simp: lite_merge_one_def upsert_def map_of_points points_update)
next
  case (Some e)
  show ?thesis
  proof (cases "lp_last (le_point e) < lp_last d")
    case True
    with assms Some show ?thesis
      by (auto simp: lite_merge_one_def upsert_def map_of_points points_update lite_refresh_def Let_def)
  next
    case False
    then have "lite_refresh (le_point e) d = le_point e" by (simp add: lite_refresh_def lite_reobserved_def max_def)
    with assms Some False show ?thesis by (simp add: lite_merge_one_def upsert_def map_of_points update_triv)
  qed
qed

lemma merge_fold_points:
  "fold (lite_merge_one n) ds (es, added, updated) = (es', added', updated') \<Longrightarrow>
     points_of es' = fold (upsert lite_identity lite_refresh) ds (points_of es)"
proof (induction ds arbitrary: es added updated)
  case (Cons d ds)
  obtain es1 a1 u1 where m: "lite_merge_one n d (es, added, updated) = (es1, a1, u1)" by (metis prod_cases3)
  with Cons.prems Cons.IH merge_one_points [OF m] show ?case by simp
qed simp

text \<open>
  C35: the session state is the keyed merge of what was observed. However a sequence of observations
  arrives, the entries after a merge are those that inserting or re-observing the DataPoints one by
  one under their identity leaves.
\<close>

theorem lite_merge_refines:
  "points_of (ls_entries (snd (lite_merge ds s))) = fold (upsert lite_identity lite_refresh) ds (points_of (ls_entries s))"
proof -
  obtain es added updated where "fold (lite_merge_one (ls_revision s + 1)) ds (ls_entries s, [], []) = (es, added, updated)"
    by (metis prod_cases3)
  with merge_fold_points [OF this] show ?thesis by (simp add: lite_merge_def Let_def)
qed

section \<open>Revisions\<close>

declare split_paired_All [simp del] split_paired_Ex [simp del]

definition revs_ok :: "int \<Rightarrow> (lite_key \<times> lite_entry) list \<Rightarrow> bool" where
  "revs_ok r es \<longleftrightarrow> well_keyed (\<lambda>e. lite_identity (le_point e)) es \<and>
     (\<forall>k e. map_of es k = Some e \<longrightarrow> 0 < le_added e \<and> le_added e \<le> le_updated e \<and> le_updated e \<le> r)"

definition lite_state_ok :: "lite_state \<Rightarrow> bool" where
  "lite_state_ok s \<longleftrightarrow> 0 \<le> ls_revision s \<and> revs_ok (ls_revision s) (ls_entries s) \<and>
     (\<forall>oid w. ls_watermarks s oid = Some w \<longrightarrow> w \<le> ls_revision s)"

lemma revs_okD:
  assumes "revs_ok r es" and "map_of es k = Some e"
  shows "lite_identity (le_point e) = k" and "0 < le_added e" and "le_added e \<le> le_updated e" and "le_updated e \<le> r"
  using assms well_keyed_lookup [of "\<lambda>e. lite_identity (le_point e)" es k e] by (simp_all add: revs_ok_def)

lemma lite_reobserved_identity [simp]: "lite_identity (lite_reobserved t d) = lite_identity d"
  by (simp add: lite_reobserved_def lite_identity_def)

lemma merge_one_cases:
  assumes "lite_merge_one n d (es, added, updated) = (es', added', updated')"
  obtains (fresh) "map_of es (lite_identity d) = None" and "added' = added @ [d]" and "updated' = updated"
      and "es' = AList.update (lite_identity d) \<lparr>le_point = d, le_added = n, le_updated = n\<rparr> es"
  | (fresher) e where "map_of es (lite_identity d) = Some e" and "lp_last (le_point e) < lp_last d" and "added' = added"
      and "updated' = updated @ [lite_reobserved (lp_last d) (le_point e)]"
      and "es' = AList.update (lite_identity d) (e\<lparr>le_point := lite_reobserved (lp_last d) (le_point e), le_updated := n\<rparr>) es"
  | (same) "es' = es" and "added' = added" and "updated' = updated"
proof (cases "map_of es (lite_identity d)")
  case None
  with assms fresh show ?thesis by (simp add: lite_merge_one_def)
next
  case (Some e)
  show ?thesis
  proof (cases "lp_last (le_point e) < lp_last d")
    case True
    with assms Some fresher show ?thesis by (simp add: lite_merge_one_def Let_def)
  next
    case False
    with assms Some same show ?thesis by (simp add: lite_merge_one_def)
  qed
qed

lemma merge_one_revs:
  assumes "lite_merge_one n d (es, added, updated) = (es', added', updated')" and "revs_ok n es" and "0 < n"
  shows "revs_ok n es'"
  using assms(1)
proof (cases rule: merge_one_cases)
  case fresh
  with assms(2,3) show ?thesis by (auto simp: revs_ok_def update_conv intro: well_keyed_update)
next
  case (fresher e)
  have "lite_identity (le_point e) = lite_identity d"
    using assms(2) fresher(1) by (rule revs_okD)
  with fresher assms(2) show ?thesis
    by (auto simp: revs_ok_def update_conv split: if_splits intro!: well_keyed_update dest: spec2)
qed (use assms(2) in simp)

lemma merge_fold_revs:
  "fold (lite_merge_one n) ds (es, added, updated) = (es', added', updated') \<Longrightarrow> revs_ok n es \<Longrightarrow> 0 < n \<Longrightarrow> revs_ok n es'"
proof (induction ds arbitrary: es added updated)
  case (Cons d ds)
  obtain es1 a1 u1 where m: "lite_merge_one n d (es, added, updated) = (es1, a1, u1)" by (metis prod_cases3)
  with Cons merge_one_revs [OF m] show ?case by simp
qed simp

lemma merge_fold_quiet:
  "fold (lite_merge_one n) ds (es, added, updated) = (es', added', updated') \<Longrightarrow>
     (\<exists>a u. added' = added @ a \<and> updated' = updated @ u \<and> (a = [] \<and> u = [] \<longrightarrow> es' = es))"
proof (induction ds arbitrary: es added updated)
  case (Cons d ds)
  obtain es1 a1 u1 where m: "lite_merge_one n d (es, added, updated) = (es1, a1, u1)" by (metis prod_cases3)
  with Cons.prems have "fold (lite_merge_one n) ds (es1, a1, u1) = (es', added', updated')" by simp
  from Cons.IH [OF this] obtain a u where au: "added' = a1 @ a" "updated' = u1 @ u" "a = [] \<and> u = [] \<longrightarrow> es' = es1" by blast
  from m show ?case by (cases rule: merge_one_cases) (use au in auto)
qed simp

lemma revs_ok_mono: "revs_ok r es \<Longrightarrow> r \<le> r' \<Longrightarrow> revs_ok r' es"
  by (fastforce simp: revs_ok_def)

text \<open>The parts of a merge.\<close>

lemma lite_merge_parts:
  obtains es added updated where "fold (lite_merge_one (ls_revision s + 1)) ds (ls_entries s, [], []) = (es, added, updated)"
    and "lite_merge ds s = (\<lparr>lo_revision = ls_revision (snd (lite_merge ds s)), lo_added = added, lo_updated = updated\<rparr>,
       s\<lparr>ls_entries := es, ls_revision := if added = [] \<and> updated = [] then ls_revision s else ls_revision s + 1\<rparr>)"
    and "added = [] \<and> updated = [] \<longrightarrow> es = ls_entries s"
proof -
  obtain es added updated where f: "fold (lite_merge_one (ls_revision s + 1)) ds (ls_entries s, [], []) = (es, added, updated)"
    by (metis prod_cases3)
  from merge_fold_quiet [OF f] have "added = [] \<and> updated = [] \<longrightarrow> es = ls_entries s" by auto
  with that [OF f] f show ?thesis by (auto simp: lite_merge_def Let_def)
qed

lemma lite_merge_ok:
  assumes "lite_state_ok s"
  shows "lite_state_ok (snd (lite_merge ds s))"
proof (rule lite_merge_parts [of s ds])
  fix es added updated
  assume f: "fold (lite_merge_one (ls_revision s + 1)) ds (ls_entries s, [], []) = (es, added, updated)"
    and m: "lite_merge ds s = (\<lparr>lo_revision = ls_revision (snd (lite_merge ds s)), lo_added = added, lo_updated = updated\<rparr>,
       s\<lparr>ls_entries := es, ls_revision := if added = [] \<and> updated = [] then ls_revision s else ls_revision s + 1\<rparr>)"
    and q: "added = [] \<and> updated = [] \<longrightarrow> es = ls_entries s"
  have "revs_ok (ls_revision s + 1) (ls_entries s)" using assms revs_ok_mono by (auto simp: lite_state_ok_def)
  with merge_fold_revs [OF f] assms have "revs_ok (ls_revision s + 1) es" by (simp add: lite_state_ok_def)
  moreover from m have "snd (lite_merge ds s) = s\<lparr>ls_entries := es, ls_revision := if added = [] \<and> updated = [] then ls_revision s else ls_revision s + 1\<rparr>"
    by (metis snd_conv)
  moreover have "w \<le> ls_revision s + 1" if "ls_watermarks s oid = Some w" for oid w
  proof -
    from assms that have "w \<le> ls_revision s" by (auto simp: lite_state_ok_def)
    then show ?thesis by simp
  qed
  ultimately show ?thesis using assms q by (cases "added = [] \<and> updated = []") (auto simp: lite_state_ok_def)
qed

definition lite_merges :: "lite_point list list \<Rightarrow> lite_state \<Rightarrow> lite_state" where
  "lite_merges batches s = fold (\<lambda>ds s. snd (lite_merge ds s)) batches s"

text \<open>How the entries have moved on since revision \<open>r\<close>, when they were \<open>es\<close>.\<close>

definition moved_on :: "int \<Rightarrow> (lite_key \<times> lite_entry) list \<Rightarrow> (lite_key \<times> lite_entry) list \<Rightarrow> bool" where
  "moved_on r es es' \<longleftrightarrow>
     (\<forall>k e. map_of es k = Some e \<longrightarrow> (\<exists>e'. map_of es' k = Some e' \<and> le_added e' = le_added e \<and>
        lp_last (le_point e) \<le> lp_last (le_point e') \<and> (r < le_updated e' \<longleftrightarrow> lp_last (le_point e) < lp_last (le_point e')))) \<and>
     (\<forall>k e'. map_of es' k = Some e' \<and> map_of es k = None \<longrightarrow> r < le_added e')"

lemma moved_on_refl: "revs_ok r es \<Longrightarrow> moved_on r es es"
  by (fastforce simp: moved_on_def revs_ok_def)

lemma merge_one_moves:
  assumes "lite_merge_one n d (es1, added, updated) = (es2, added', updated')" and "moved_on r es es1" and "r < n"
  shows "moved_on r es es2"
  using assms(1)
proof (cases rule: merge_one_cases)
  case fresh
  with assms(2,3) show ?thesis by (fastforce simp: moved_on_def update_conv)
next
  case (fresher e1)
  let ?k = "lite_identity d"
  let ?e2 = "e1\<lparr>le_point := lite_reobserved (lp_last d) (le_point e1), le_updated := n\<rparr>"
  have es2: "map_of es2 = (map_of es1)(?k \<mapsto> ?e2)" by (simp add: fresher update_conv)
  have last: "lp_last (le_point ?e2) = lp_last d" using fresher(2) by (simp add: lite_reobserved_def)
  show ?thesis
    unfolding moved_on_def
  proof (intro conjI allI impI)
    fix k e
    assume e: "map_of es k = Some e"
    show "\<exists>e'. map_of es2 k = Some e' \<and> le_added e' = le_added e \<and> lp_last (le_point e) \<le> lp_last (le_point e') \<and>
        (r < le_updated e' \<longleftrightarrow> lp_last (le_point e) < lp_last (le_point e'))"
    proof (cases "k = ?k")
      case True
      with assms(2) e fresher(1) have "le_added e1 = le_added e" "lp_last (le_point e) \<le> lp_last (le_point e1)"
        unfolding moved_on_def by (metis option.inject)+
      with True es2 last fresher(2) assms(3) show ?thesis by auto
    next
      case False
      with assms(2) e es2 show ?thesis by (auto simp: moved_on_def)
    qed
  next
    fix k e'
    assume "map_of es2 k = Some e' \<and> map_of es k = None"
    with assms(2) es2 fresher(1) show "r < le_added e'" by (auto simp: moved_on_def split: if_splits)
  qed
qed (use assms(2) in simp)

lemma merge_fold_moves:
  "fold (lite_merge_one n) ds (es1, added, updated) = (es2, added', updated') \<Longrightarrow> moved_on r es es1 \<Longrightarrow> r < n \<Longrightarrow> moved_on r es es2"
proof (induction ds arbitrary: es1 added updated)
  case (Cons d ds)
  obtain es3 a1 u1 where m: "lite_merge_one n d (es1, added, updated) = (es3, a1, u1)" by (metis prod_cases3)
  with Cons merge_one_moves [OF m] show ?case by simp
qed simp

lemma lite_merge_moves:
  assumes "moved_on r es (ls_entries s)" and "r \<le> ls_revision s"
  shows "moved_on r es (ls_entries (snd (lite_merge ds s))) \<and> r \<le> ls_revision (snd (lite_merge ds s)) \<and>
     ls_watermarks (snd (lite_merge ds s)) = ls_watermarks s"
proof (rule lite_merge_parts [of s ds])
  fix es' added updated
  assume f: "fold (lite_merge_one (ls_revision s + 1)) ds (ls_entries s, [], []) = (es', added, updated)"
    and m: "lite_merge ds s = (\<lparr>lo_revision = ls_revision (snd (lite_merge ds s)), lo_added = added, lo_updated = updated\<rparr>,
       s\<lparr>ls_entries := es', ls_revision := if added = [] \<and> updated = [] then ls_revision s else ls_revision s + 1\<rparr>)"
  from m have "snd (lite_merge ds s) = s\<lparr>ls_entries := es', ls_revision := if added = [] \<and> updated = [] then ls_revision s else ls_revision s + 1\<rparr>"
    by (metis snd_conv)
  with merge_fold_moves [OF f assms(1)] assms(2) show ?thesis by simp
qed

lemma lite_merges_move:
  assumes "moved_on r es (ls_entries s)" and "r \<le> ls_revision s"
  shows "moved_on r es (ls_entries (lite_merges bs s)) \<and> ls_watermarks (lite_merges bs s) = ls_watermarks s"
  using assms
proof (induction bs arbitrary: s)
  case (Cons b bs)
  from lite_merge_moves [OF Cons.prems, of b] Cons.IH [of "snd (lite_merge b s)"] show ?case by (simp add: lite_merges_def)
qed (simp add: lite_merges_def)

lemma lite_merges_ok: "lite_state_ok s \<Longrightarrow> lite_state_ok (lite_merges bs s)"
  unfolding lite_merges_def by (induction bs arbitrary: s) (simp_all add: lite_merge_ok)

lemma identities_image:
  assumes "revs_ok r es"
  shows "lite_identity ` set (map le_point (filter P (map snd es))) = {k. \<exists>e. map_of es k = Some e \<and> P e}"
proof -
  have d: "distinct (map fst es)" using assms by (simp add: revs_ok_def well_keyed_def)
  have key: "lite_identity (le_point e) = k" if "(k, e) \<in> set es" for k e
    using assms that by (auto simp: revs_ok_def well_keyed_def)
  show ?thesis
  proof (intro equalityI subsetI)
    fix k
    assume "k \<in> lite_identity ` set (map le_point (filter P (map snd es)))"
    then obtain k' e where "(k', e) \<in> set es" "P e" "k = lite_identity (le_point e)" by auto
    with key d show "k \<in> {k. \<exists>e. map_of es k = Some e \<and> P e}" by auto
  next
    fix k
    assume "k \<in> {k. \<exists>e. map_of es k = Some e \<and> P e}"
    then obtain e where "(k, e) \<in> set es" "P e" by (auto dest: map_of_SomeD)
    with key [of k e] show "k \<in> lite_identity ` set (map le_point (filter P (map snd es)))"
      by (auto intro!: image_eqI [where x = "le_point e"] simp: image_iff)
  qed
qed

definition key_at :: "lite_state \<Rightarrow> lite_key \<Rightarrow> lite_point option" where
  "key_at s k = map_option le_point (map_of (ls_entries s) k)"

text \<open>
  C36: a delta is the difference of two views. If an operator's watermark is the revision of state
  \<open>s\<close>, then after any merges what its delta presents as added are exactly the identities that \<open>s\<close> did
  not have, and as updated those it had and that have been seen more recently since.
\<close>

theorem lite_delta_is_difference:
  assumes "lite_state_ok s" and "ls_watermarks s oid = Some (ls_revision s)"
  shows "lite_identity ` set (ld_added (lite_delta_for oid previous available (lite_merges bs s))) =
       {k. key_at s k = None \<and> key_at (lite_merges bs s) k \<noteq> None} \<and>
     lite_identity ` set (ld_updated (lite_delta_for oid previous available (lite_merges bs s))) =
       {k. \<exists>p p'. key_at s k = Some p \<and> key_at (lite_merges bs s) k = Some p' \<and> lp_last p < lp_last p'}"
proof -
  let ?s = "lite_merges bs s" and ?r = "ls_revision s"
  have ok: "revs_ok ?r (ls_entries s)" "revs_ok (ls_revision ?s) (ls_entries ?s)"
    using assms(1) lite_merges_ok [OF assms(1), of bs] by (simp_all add: lite_state_ok_def)
  from lite_merges_move [OF moved_on_refl [OF ok(1)], of bs] have mv: "moved_on ?r (ls_entries s) (ls_entries ?s)"
    and w: "ls_watermarks ?s oid = Some ?r" using assms(2) by auto
  have old: "le_added e \<le> ?r" if "map_of (ls_entries s) k = Some e" for k e
    using revs_okD(3,4) [OF ok(1) that] by simp
  have added: "(\<exists>e'. map_of (ls_entries ?s) k = Some e' \<and> ?r < le_added e') \<longleftrightarrow> key_at s k = None \<and> key_at ?s k \<noteq> None" for k
  proof (cases "map_of (ls_entries s) k")
    case None
    with mv show ?thesis unfolding moved_on_def key_at_def by auto
  next
    case (Some e)
    with mv obtain e' where "map_of (ls_entries ?s) k = Some e'" "le_added e' = le_added e" unfolding moved_on_def by blast
    with Some old [OF Some] show ?thesis by (simp add: key_at_def)
  qed
  have updated: "(\<exists>e'. map_of (ls_entries ?s) k = Some e' \<and> le_added e' \<le> ?r \<and> ?r < le_updated e') \<longleftrightarrow>
      (\<exists>p p'. key_at s k = Some p \<and> key_at ?s k = Some p' \<and> lp_last p < lp_last p')" for k
  proof (cases "map_of (ls_entries s) k")
    case None
    with mv show ?thesis unfolding moved_on_def key_at_def by (auto simp: not_le)
  next
    case (Some e)
    with mv obtain e' where "map_of (ls_entries ?s) k = Some e'" "le_added e' = le_added e"
      "?r < le_updated e' \<longleftrightarrow> lp_last (le_point e) < lp_last (le_point e')" unfolding moved_on_def by blast
    with Some old [OF Some] show ?thesis by (simp add: key_at_def)
  qed
  show ?thesis
    using identities_image [OF ok(2), of "\<lambda>e. ?r < le_added e"] identities_image [OF ok(2), of "\<lambda>e. le_added e \<le> ?r \<and> ?r < le_updated e"]
    by (simp add: lite_delta_for_def w added updated Let_def)
qed

definition demo_point :: "string \<Rightarrow> instant \<Rightarrow> lite_point" where
  "demo_point v t = \<lparr>lp_class = PyClass ''Lead'' [], lp_value = PStr v, lp_retrieved_by = ''seed'', lp_first = t, lp_last = t\<rparr>"

definition demo_looked :: lite_state where
  "demo_looked = lite_advance_watermark ''op'' 1 (snd (lite_merge [demo_point ''a'' 1] new_lite_state))"

theorem lite_delta_is_difference_witness:
  "lite_identity ` set (ld_added (lite_delta_for ''op'' [] [] (lite_merges [[demo_point ''a'' 2, demo_point ''b'' 2]] demo_looked))) =
     {lite_identity (demo_point ''b'' 2)} \<and> lite_state_ok demo_looked"
proof -
  have "lite_state_ok new_lite_state" by (simp add: lite_state_ok_def new_lite_state_def revs_ok_def)
  from lite_merge_ok [OF this, of "[demo_point ''a'' 1]"] have ok: "lite_state_ok demo_looked"
    by (auto simp: demo_looked_def lite_state_ok_def lite_advance_watermark_def lite_merge_def lite_merge_one_def new_lite_state_def)
  have "ls_watermarks demo_looked ''op'' = Some (ls_revision demo_looked)"
    by (simp add: demo_looked_def lite_merge_def lite_merge_one_def new_lite_state_def lite_advance_watermark_def)
  from lite_delta_is_difference [OF ok this, where bs = "[[demo_point ''a'' 2, demo_point ''b'' 2]]" and previous = "[]" and available = "[]"]
  have "lite_identity ` set (ld_added (lite_delta_for ''op'' [] [] (lite_merges [[demo_point ''a'' 2, demo_point ''b'' 2]] demo_looked))) =
      {k. key_at demo_looked k = None \<and> key_at (lite_merges [[demo_point ''a'' 2, demo_point ''b'' 2]] demo_looked) k \<noteq> None}" by (rule conjunct1)
  also have "\<dots> = {lite_identity (demo_point ''b'' 2)}"
  proof -
    have ids: "lite_identity (demo_point ''a'' t) = (PyClass ''Lead'' [], PStr ''a'')" "lite_identity (demo_point ''b'' t) = (PyClass ''Lead'' [], PStr ''b'')"
      "lp_last (demo_point v t) = t" for v t by (simp_all add: lite_identity_def demo_point_def)
    have "fst ` set (ls_entries demo_looked) = {lite_identity (demo_point ''a'' 2)}"
      by (simp add: demo_looked_def lite_merge_def lite_merge_one_def new_lite_state_def lite_advance_watermark_def ids)
    moreover have "fst ` set (ls_entries (lite_merges [[demo_point ''a'' 2, demo_point ''b'' 2]] demo_looked)) =
        {lite_identity (demo_point ''a'' 2), lite_identity (demo_point ''b'' 2)}"
      by (simp add: demo_looked_def lite_merges_def lite_merge_def lite_merge_one_def new_lite_state_def lite_advance_watermark_def ids Let_def)
    ultimately show ?thesis by (auto simp: key_at_def map_of_eq_None_iff ids)
  qed
  finally show ?thesis using ok by simp
qed

end
