(* ===== verification/Lite_Graph.thy ===== *)
theory Lite_Graph
  imports Lite_State Cycles Capabilities
begin

text \<open>
  The dependency graph and the capability activation of the in-process engine:
  \<^verbatim>\<open>orcastork_lite/graph.py\<close>, the constructor's checks and pruning in
  \<^verbatim>\<open>orcastork_lite/orchestrator.py\<close>, and the activator of \<^verbatim>\<open>orcastork_lite/capabilities.py\<close>.
  Operator and capability classes are the records of \<open>Operators\<close> (an operator here is never an
  aggregator). Tarjan's algorithm, the bounded-cycle rule, the circuit breaker and the availability
  fixpoint are repeated in this package word for word; the model shares them with \<open>Cycles\<close>,
  \<open>Dependency_Graph\<close> and \<open>Capabilities\<close>.
\<close>

section \<open>Edges\<close>

definition overlaps :: "pyclass \<Rightarrow> pyclass \<Rightarrow> bool" where
  "overlaps produced needed \<longleftrightarrow> issubclass produced needed \<or> issubclass needed produced"

definition lite_feeds :: "operator_class \<Rightarrow> pyclass list \<Rightarrow> bool" where
  "lite_feeds producer needed \<longleftrightarrow> (\<exists>p \<in> set (op_produces producer). \<exists>n \<in> set needed. overlaps p n)"

definition lite_build_edges :: "operator_class list \<Rightarrow> capability_class list \<Rightarrow> graph_edges" where
  "lite_build_edges ops caps =
     (let nodes = map OpNode ops @ map CapNode caps;
          empty = fold (\<lambda>n g. AList.update n [] g) nodes []
      in fold (\<lambda>consumer g.
           fold (\<lambda>t. fold (\<lambda>c g. if issubclass (cap_class c) t then add_edge (CapNode c) consumer g else g) caps) (node_requires consumer)
             (fold (\<lambda>x g. if lite_feeds x (node_depends_on consumer) then add_edge (OpNode x) consumer g else g) ops g)) nodes empty)"

definition lite_build_uses_edges :: "operator_class list \<Rightarrow> graph_edges" where
  "lite_build_uses_edges ops =
     fold (\<lambda>consumer. fold (\<lambda>x g. if x \<noteq> consumer \<and> lite_feeds x (op_uses consumer) then add_edge (OpNode x) (OpNode consumer) g else g) ops) ops
       (fold (\<lambda>x g. AList.update (OpNode x) [] g) ops [])"

definition lite_cycle_caps :: "graph_edges \<Rightarrow> operator_id \<rightharpoonup> int" where
  "lite_cycle_caps g = cycle_caps (find_cycles g)"

section \<open>What is worth running\<close>

definition lite_backward_reachable :: "operator_class list \<Rightarrow> capability_class list \<Rightarrow> pyclass list \<Rightarrow> node list" where
  "lite_backward_reachable ops caps sinks =
     (let kept = fst (admit_loop (\<lambda>needed x. lite_feeds x needed) (\<lambda>x needed. needed @ op_depends_on x) ops [] sinks)
      in map OpNode kept @ map CapNode (keep_capabilities kept caps []))"

definition lite_sinks :: "operator_class list \<Rightarrow> pyclass list" where
  "lite_sinks sink_operators = concat (map (\<lambda>x. op_consumes x @ op_depends_on x) sink_operators)"

definition lite_prune :: "operator_class list \<Rightarrow> capability_class list \<Rightarrow> operator_class list" where
  "lite_prune ops caps =
     (let sink_operators = filter (\<lambda>x. op_consumes x \<noteq> []) ops
      in if sink_operators = [] then ops
         else let kept = lite_backward_reachable ops caps (lite_sinks sink_operators);
                  pruned = filter (\<lambda>x. OpNode x \<notin> set kept \<and> x \<notin> set sink_operators) ops
              in filter (\<lambda>x. x \<notin> set pruned) ops)"

datatype lite_error = LiteDuplicateId | LiteUnboundedCycle

definition check_unique_ids :: "operator_class list \<Rightarrow> capability_class list \<Rightarrow> lite_error + unit" where
  "check_unique_ids ops caps =
     (if \<not> distinct (map op_id ops) then Inl LiteDuplicateId
      else if \<not> distinct (map cap_id caps) then Inl LiteDuplicateId
      else Inr ())"

interpretation lite_backward: admission "\<lambda>needed x. lite_feeds x needed" "\<lambda>x needed. needed @ op_depends_on x" set
    "\<lambda>x. set (op_depends_on x)" "\<lambda>A x. \<exists>p \<in> set (op_produces x). \<exists>t \<in> A. overlaps p t"
  by unfold_locales (auto simp: lite_feeds_def)

text \<open>What the sinks and a set of operators need, and the sets closed under feeding it.\<close>

definition feeds_set :: "operator_class \<Rightarrow> pyclass set \<Rightarrow> bool" where
  "feeds_set x A \<longleftrightarrow> (\<exists>p \<in> set (op_produces x). \<exists>t \<in> A. overlaps p t)"

definition sink_needs :: "operator_class list \<Rightarrow> operator_class set \<Rightarrow> pyclass set" where
  "sink_needs ops K = (\<Union>x \<in> {x \<in> set ops. op_consumes x \<noteq> []}. set (op_consumes x) \<union> set (op_depends_on x)) \<union>
     (\<Union>x \<in> K. set (op_depends_on x))"

definition prune_closed :: "operator_class list \<Rightarrow> operator_class set \<Rightarrow> bool" where
  "prune_closed ops K \<longleftrightarrow> (\<forall>x \<in> set ops. feeds_set x (sink_needs ops K) \<longrightarrow> x \<in> K)"

lemma lite_kept:
  assumes "admit_loop (\<lambda>needed x. lite_feeds x needed) (\<lambda>x needed. needed @ op_depends_on x) ops []
      (lite_sinks (filter (\<lambda>x. op_consumes x \<noteq> []) ops)) = (R, s')"
  shows "prune_closed ops (set R)" and "prune_closed ops K \<Longrightarrow> set R \<subseteq> K" and "set R \<subseteq> set ops"
proof -
  have needs: "set (lite_sinks (filter (\<lambda>x. op_consumes x \<noteq> []) ops)) \<union> (\<Union>y \<in> K. set (op_depends_on y)) = sink_needs ops K" for K
    by (auto simp: lite_sinks_def sink_needs_def)
  show "prune_closed ops (set R)"
    using lite_backward.loop_closed [OF assms] needs [of "set R"] by (auto simp: prune_closed_def feeds_set_def)
  show "set R \<subseteq> K" if "prune_closed ops K"
    by (rule lite_backward.loop_least [OF assms]) (use that needs [of K] in \<open>auto simp: prune_closed_def feeds_set_def\<close>)
  show "set R \<subseteq> set ops" using assms by (rule lite_backward.loop_subset)
qed

lemma lite_prune_eq:
  assumes "\<exists>x \<in> set ops. op_consumes x \<noteq> []"
  obtains R where "prune_closed ops (set R)" and "\<And>K. prune_closed ops K \<Longrightarrow> set R \<subseteq> K" and "set R \<subseteq> set ops"
    and "lite_prune ops caps = filter (\<lambda>x. x \<in> set R \<or> op_consumes x \<noteq> []) ops"
proof -
  obtain R s' where l: "admit_loop (\<lambda>needed x. lite_feeds x needed) (\<lambda>x needed. needed @ op_depends_on x) ops []
      (lite_sinks (filter (\<lambda>x. op_consumes x \<noteq> []) ops)) = (R, s')" by fastforce
  have "lite_prune ops caps = filter (\<lambda>x. x \<in> set R \<or> op_consumes x \<noteq> []) ops"
    using assms by (auto simp: lite_prune_def Let_def lite_backward_reachable_def l filter_empty_conv intro!: filter_cong)
  with lite_kept [OF l] that show ?thesis by blast
qed

text \<open>
  Also: pruning keeps what the sinks need, and nothing else. If some operator declares what it consumes,
  the operators left are the declaring ones and the least set that contains every producer of
  something a declaring operator consumes or depends on, or an operator of the set depends on.
\<close>

theorem lite_prune_exact:
  assumes "\<exists>x \<in> set ops. op_consumes x \<noteq> []"
  shows "set (lite_prune ops caps) =
     {x \<in> set ops. op_consumes x \<noteq> [] \<or> x \<in> \<Inter> {K. prune_closed ops K \<and> K \<subseteq> set ops}}"
proof -
  from assms obtain R where R: "prune_closed ops (set R)" "\<And>K. prune_closed ops K \<Longrightarrow> set R \<subseteq> K" "set R \<subseteq> set ops"
    and p: "lite_prune ops caps = filter (\<lambda>x. x \<in> set R \<or> op_consumes x \<noteq> []) ops"
    using lite_prune_eq [OF assms, of caps] by blast
  have "\<Inter> {K. prune_closed ops K \<and> K \<subseteq> set ops} = set R" using R by blast
  with p show ?thesis by auto
qed

definition lite_sink :: operator_class where
  "lite_sink = (sample_operator ''sink'' [] [] [])\<lparr>op_consumes := [PyClass ''S'' []]\<rparr>"

lemmas lite_demo_defs = demo_seed_def demo_worker_def demo_noise_def lite_sink_def sample_operator_def

theorem lite_prune_exact_witness:
  "demo_noise \<notin> set (lite_prune [demo_seed, demo_worker, demo_noise, lite_sink] []) \<and>
   demo_worker \<in> set (lite_prune [demo_seed, demo_worker, demo_noise, lite_sink] [])"
proof -
  let ?ops = "[demo_seed, demo_worker, demo_noise, lite_sink]"
  have "\<exists>x \<in> set ?ops. op_consumes x \<noteq> []" by (simp add: lite_sink_def)
  note exact = lite_prune_exact [OF this, of "[]"]
  have "prune_closed ?ops {demo_seed, demo_worker}"
    by (auto simp: prune_closed_def feeds_set_def sink_needs_def overlaps_def issubclass_def lite_demo_defs)
  moreover have "demo_noise \<notin> {demo_seed, demo_worker}" "op_consumes demo_noise = []" by (simp_all add: lite_demo_defs)
  moreover have "demo_worker \<in> K" if "prune_closed ?ops K" for K
  proof -
    have "PyClass ''S'' [] \<in> sink_needs ?ops K"
      unfolding sink_needs_def by (rule UnI1, rule UN_I [of lite_sink]) (simp_all add: lite_sink_def)
    moreover have "op_produces demo_worker = [PyClass ''S'' []]" by (simp add: lite_demo_defs)
    ultimately have "feeds_set demo_worker (sink_needs ?ops K)" by (auto simp: feeds_set_def overlaps_def)
    with that show ?thesis by (simp add: prune_closed_def)
  qed
  ultimately show ?thesis unfolding exact by fastforce
qed

text \<open>
  Pruning looks at what operators need, not at what the capabilities they require need: the flow
  below is pruned to \<^verbatim>\<open>lookup\<close> and the sink, although \<^verbatim>\<open>lookup\<close> requires \<open>K\<close>, which only
  becomes available with what \<^verbatim>\<open>seed\<close> produces.
\<close>

theorem lite_pruning_starves_capability:
  "lite_prune [demo_seed, demo_lookup, lite_sink] [demo_capability] = [demo_lookup, lite_sink] \<and>
   compute_available [(''k'', demo_capability)] [''k''] [] = [] \<and>
   compute_available [(''k'', demo_capability)] [''k''] [PyClass ''D'' []] = [''k''] \<and>
   is_ready demo_lookup [PyClass ''D'' []] [PyClass ''K'' []]"
  by code_simp

section \<open>Activation\<close>

record lite_activator =
  la_activated :: "(capability_id \<times> capability_class) list"
  la_failed :: "capability_id list"

definition new_lite_activator :: lite_activator where
  "new_lite_activator = \<lparr>la_activated = [], la_failed = []\<rparr>"

text \<open>\<open>activates\<close> says which activations succeed; the others raise or time out.\<close>

definition lite_activate_one :: "capability_registry \<Rightarrow> (capability_id \<Rightarrow> bool) \<Rightarrow> capability_id \<Rightarrow> lite_activator \<Rightarrow> lite_activator" where
  "lite_activate_one registered activates cid a =
     (case map_of registered cid of
        None \<Rightarrow> a
      | Some c \<Rightarrow>
          if activates cid then a\<lparr>la_activated := AList.update cid c (la_activated a)\<rparr>
          else a\<lparr>la_failed := List.insert cid (la_failed a)\<rparr>)"

definition lite_activation_ready :: "capability_registry \<Rightarrow> lite_activator \<Rightarrow> capability_id list \<Rightarrow> capability_id list" where
  "lite_activation_ready registered a pending =
     filter (\<lambda>cid. case map_of registered cid of None \<Rightarrow> False
        | Some c \<Rightarrow> requires_available (cap_requires c) (map fst (la_activated a)) registered) pending"

function lite_activate_rounds ::
  "capability_registry \<Rightarrow> (capability_id \<Rightarrow> bool) \<Rightarrow> capability_id list \<Rightarrow> lite_activator \<Rightarrow> lite_activator" where
  "lite_activate_rounds registered activates pending a =
     (let ready = lite_activation_ready registered a pending in
      if ready = [] then a
      else lite_activate_rounds registered activates (filter (\<lambda>cid. cid \<notin> set ready) pending)
             (fold (lite_activate_one registered activates) ready a))"
  by pat_completeness auto
termination
proof (relation "measure (\<lambda>(r, f, pending, a). length pending)", goal_cases)
  case 1
  show ?case by simp
next
  case (2 registered activates pending a ready)
  then have "set ready \<subseteq> set pending" "ready \<noteq> []" by (auto simp: lite_activation_ready_def)
  then obtain c where "c \<in> set ready" "c \<in> set pending" by (meson list.set_sel(1) subsetD)
  then have "length (filter (\<lambda>cid. cid \<notin> set ready) pending) < length pending" by (intro length_filter_less) auto
  then show ?case by simp
qed

declare lite_activate_rounds.simps [simp del]

definition lite_refresh_activator ::
  "capability_registry \<Rightarrow> capability_catalog \<Rightarrow> namespace_id \<Rightarrow> (capability_id \<Rightarrow> bool) \<Rightarrow> lite_point list \<Rightarrow> lite_activator \<Rightarrow>
     capability_view \<times> lite_activator" where
  "lite_refresh_activator registered cat ns activates view a =
     (let available = compute_available registered (permitted_capabilities cat ns) (lite_present_types view);
          pending = filter (\<lambda>cid. cid \<notin> set (map fst (la_activated a)) \<and> cid \<notin> set (la_failed a)) available;
          a' = lite_activate_rounds registered activates pending a
      in (\<lparr>cv_available = concat (map (\<lambda>cid. case map_of (la_activated a') cid of None \<Rightarrow> [] | Some c \<Rightarrow> [(cid, c)]) available),
           cv_preference = preferred_order cat ns\<rparr>, a'))"

text \<open>The order of activation respects the layers; nothing activates twice or after it failed.\<close>

fun layered :: "capability_registry \<Rightarrow> capability_id list \<Rightarrow> (capability_id \<times> capability_class) list \<Rightarrow> bool" where
  "layered registered below [] = True"
| "layered registered below (x # xs) =
     (requires_available (cap_requires (snd x)) below registered \<and> layered registered (below @ [fst x]) xs)"

definition lite_activator_ok :: "capability_registry \<Rightarrow> lite_activator \<Rightarrow> bool" where
  "lite_activator_ok registered a \<longleftrightarrow> distinct (map fst (la_activated a)) \<and>
     (\<forall>x \<in> set (la_activated a). map_of registered (fst x) = Some (snd x)) \<and>
     set (map fst (la_activated a)) \<inter> set (la_failed a) = {} \<and> layered registered [] (la_activated a)"

lemma layered_snoc:
  "layered registered below (xs @ [x]) \<longleftrightarrow> layered registered below xs \<and> requires_available (cap_requires (snd x)) (below @ map fst xs) registered"
  by (induction xs arbitrary: below) auto

lemma requires_available_mono: "requires_available rs A registered \<Longrightarrow> set A \<subseteq> set B \<Longrightarrow> requires_available rs B registered"
  by (auto simp: requires_available_def)

text \<open>What a step of the activator keeps of the earlier ones.\<close>

definition activator_extends :: "lite_activator \<Rightarrow> lite_activator \<Rightarrow> bool" where
  "activator_extends a b \<longleftrightarrow> (\<exists>xs. la_activated b = la_activated a @ xs) \<and> set (la_failed a) \<subseteq> set (la_failed b)"

lemma extends_refl: "activator_extends a a"
  by (simp add: activator_extends_def)

lemma extends_trans: "activator_extends a b \<Longrightarrow> activator_extends b c \<Longrightarrow> activator_extends a c"
  by (auto simp: activator_extends_def)

lemma update_fresh: "k \<notin> fst ` set xs \<Longrightarrow> AList.update k v xs = xs @ [(k, v)]"
  by (induction xs) auto

lemma activate_one_ok:
  assumes "lite_activator_ok registered a" and "cid \<notin> set (map fst (la_activated a))" and "cid \<notin> set (la_failed a)"
    and "map_of registered cid = Some c" and "requires_available (cap_requires c) (map fst (la_activated a)) registered"
  shows "lite_activator_ok registered (lite_activate_one registered activates cid a) \<and>
     activator_extends a (lite_activate_one registered activates cid a) \<and>
     set (map fst (la_activated (lite_activate_one registered activates cid a))) \<union> set (la_failed (lite_activate_one registered activates cid a)) =
       insert cid (set (map fst (la_activated a)) \<union> set (la_failed a))"
proof -
  have "AList.update cid c (la_activated a) = la_activated a @ [(cid, c)]" using assms(2) by (simp add: update_fresh)
  then show ?thesis using assms
    by (auto simp: lite_activate_one_def lite_activator_ok_def layered_snoc activator_extends_def)
qed

lemma activate_fold_ok:
  assumes "lite_activator_ok registered a" and "distinct cids" and "set cids \<inter> (set (map fst (la_activated a)) \<union> set (la_failed a)) = {}"
    and "\<forall>cid \<in> set cids. \<exists>c. map_of registered cid = Some c \<and> requires_available (cap_requires c) (map fst (la_activated a)) registered"
  shows "lite_activator_ok registered (fold (lite_activate_one registered activates) cids a) \<and>
     activator_extends a (fold (lite_activate_one registered activates) cids a) \<and>
     set (map fst (la_activated (fold (lite_activate_one registered activates) cids a))) \<union> set (la_failed (fold (lite_activate_one registered activates) cids a)) =
       set cids \<union> (set (map fst (la_activated a)) \<union> set (la_failed a))"
  using assms
proof (induction cids arbitrary: a)
  case (Cons cid cids)
  then obtain c where c: "map_of registered cid = Some c" "requires_available (cap_requires c) (map fst (la_activated a)) registered" by auto
  let ?a = "lite_activate_one registered activates cid a"
  have one: "lite_activator_ok registered ?a \<and> activator_extends a ?a \<and>
      set (map fst (la_activated ?a)) \<union> set (la_failed ?a) = insert cid (set (map fst (la_activated a)) \<union> set (la_failed a))"
    using Cons.prems c by (intro activate_one_ok) auto
  then have sub: "set (map fst (la_activated a)) \<subseteq> set (map fst (la_activated ?a))" by (auto simp: activator_extends_def)
  have "\<forall>cid \<in> set cids. \<exists>c. map_of registered cid = Some c \<and> requires_available (cap_requires c) (map fst (la_activated ?a)) registered"
    using Cons.prems(4) requires_available_mono [OF _ sub] by (metis list.set_intros(2))
  moreover have "set cids \<inter> (set (map fst (la_activated ?a)) \<union> set (la_failed ?a)) = {}" using one Cons.prems(2,3) by auto
  ultimately have "lite_activator_ok registered (fold (lite_activate_one registered activates) cids ?a) \<and>
     activator_extends ?a (fold (lite_activate_one registered activates) cids ?a) \<and>
     set (map fst (la_activated (fold (lite_activate_one registered activates) cids ?a))) \<union> set (la_failed (fold (lite_activate_one registered activates) cids ?a)) =
       set cids \<union> (set (map fst (la_activated ?a)) \<union> set (la_failed ?a))"
    using one Cons.prems(2) by (intro Cons.IH) auto
  with one extends_trans [of a ?a] show ?case by auto
qed (simp add: extends_refl)

lemma activate_rounds_ok:
  assumes "lite_activator_ok registered a" and "distinct pending" and "set pending \<inter> (set (map fst (la_activated a)) \<union> set (la_failed a)) = {}"
  shows "lite_activator_ok registered (lite_activate_rounds registered activates pending a) \<and>
     activator_extends a (lite_activate_rounds registered activates pending a)"
  using assms
proof (induction registered activates pending a rule: lite_activate_rounds.induct)
  case (1 registered activates pending a)
  let ?ready = "lite_activation_ready registered a pending"
  show ?case
  proof (cases "?ready = []")
    case True
    with "1.prems" show ?thesis by (simp add: lite_activate_rounds.simps [of registered activates pending a] Let_def extends_refl)
  next
    case False
    let ?a = "fold (lite_activate_one registered activates) ?ready a"
    have "lite_activator_ok registered ?a \<and> activator_extends a ?a \<and> set (map fst (la_activated ?a)) \<union> set (la_failed ?a) =
        set ?ready \<union> (set (map fst (la_activated a)) \<union> set (la_failed a))"
      by (rule activate_fold_ok) (use "1.prems" in \<open>auto simp: lite_activation_ready_def split: option.splits\<close>)
    then have f: "lite_activator_ok registered ?a" "activator_extends a ?a" "set (map fst (la_activated ?a)) \<union> set (la_failed ?a) =
        set ?ready \<union> (set (map fst (la_activated a)) \<union> set (la_failed a))" by blast+
    have "lite_activator_ok registered (lite_activate_rounds registered activates (filter (\<lambda>cid. cid \<notin> set ?ready) pending) ?a) \<and>
        activator_extends ?a (lite_activate_rounds registered activates (filter (\<lambda>cid. cid \<notin> set ?ready) pending) ?a)"
      using "1.prems"(2,3) f by (intro "1.IH" [OF refl False]) auto
    with f(2) extends_trans show ?thesis
      using False by (auto simp: lite_activate_rounds.simps [of registered activates pending a] Let_def)
  qed
qed

lemma lite_refresh_ok:
  assumes "lite_activator_ok registered a" and "distinct (map fst registered)"
  shows "lite_activator_ok registered (snd (lite_refresh_activator registered cat ns activates view a)) \<and>
     activator_extends a (snd (lite_refresh_activator registered cat ns activates view a))"
  unfolding lite_refresh_activator_def Let_def snd_conv
  by (rule activate_rounds_ok [OF assms(1)]) (auto simp: compute_available_distinct [OF assms(2)])

primrec lite_refreshes ::
  "capability_registry \<Rightarrow> namespace_id \<Rightarrow> (capability_catalog \<times> (capability_id \<Rightarrow> bool) \<times> lite_point list) list \<Rightarrow> lite_activator \<Rightarrow> lite_activator" where
  "lite_refreshes registered ns [] a = a"
| "lite_refreshes registered ns (x # xs) a =
     lite_refreshes registered ns xs (snd (lite_refresh_activator registered (fst x) ns (fst (snd x)) (snd (snd x)) a))"

lemma lite_refreshes_ok:
  assumes "lite_activator_ok registered a" and "distinct (map fst registered)"
  shows "lite_activator_ok registered (lite_refreshes registered ns xs a) \<and> activator_extends a (lite_refreshes registered ns xs a)"
  using assms(1)
proof (induction xs arbitrary: a)
  case (Cons x xs)
  let ?a = "snd (lite_refresh_activator registered (fst x) ns (fst (snd x)) (snd (snd x)) a)"
  from lite_refresh_ok [OF Cons.prems assms(2)] have "lite_activator_ok registered ?a" "activator_extends a ?a" by auto
  with Cons.IH [of ?a] extends_trans [of a ?a] show ?case by auto
qed (simp add: extends_refl)

text \<open>
  Also: capabilities activate once, in layers. Over any sequence of refreshes, with any DataPoints,
  permissions and outcomes, what was activated stays activated, what failed is never activated later,
  and each capability is activated only after others that provide all it requires.
\<close>

theorem lite_activation_layered:
  assumes "distinct (map fst registered)"
  shows "(\<exists>later. la_activated (lite_refreshes registered ns (xs @ ys) new_lite_activator) =
         la_activated (lite_refreshes registered ns xs new_lite_activator) @ later) \<and>
     set (la_failed (lite_refreshes registered ns xs new_lite_activator)) \<inter>
       set (map fst (la_activated (lite_refreshes registered ns (xs @ ys) new_lite_activator))) = {} \<and>
     distinct (map fst (la_activated (lite_refreshes registered ns xs new_lite_activator))) \<and>
     layered registered [] (la_activated (lite_refreshes registered ns xs new_lite_activator))"
proof -
  have split: "lite_refreshes registered ns (xs @ ys) a = lite_refreshes registered ns ys (lite_refreshes registered ns xs a)" for a
    by (induction xs arbitrary: a) simp_all
  have "lite_activator_ok registered new_lite_activator" by (simp add: lite_activator_ok_def new_lite_activator_def)
  from lite_refreshes_ok [OF this assms, of ns xs] have a: "lite_activator_ok registered (lite_refreshes registered ns xs new_lite_activator)" ..
  from lite_refreshes_ok [OF a assms, of ns ys] a show ?thesis
    unfolding split activator_extends_def lite_activator_ok_def by blast
qed

theorem lite_activation_layered_witness:
  "la_activated (lite_refreshes [(''k'', demo_capability)] ''ns'' [(demo_catalog, \<lambda>_. True, [\<lparr>lp_class = PyClass ''D'' [], lp_value = PNone,
     lp_retrieved_by = ''seed'', lp_first = 0, lp_last = 0\<rparr>])] new_lite_activator) = [(''k'', demo_capability)] \<and>
   layered [(''k'', demo_capability)] [] (la_activated (lite_refreshes [(''k'', demo_capability)] ''ns'' [(demo_catalog, \<lambda>_. True,
     [\<lparr>lp_class = PyClass ''D'' [], lp_value = PNone, lp_retrieved_by = ''seed'', lp_first = 0, lp_last = 0\<rparr>])] new_lite_activator))"
proof (rule conjI)
  show "la_activated (lite_refreshes [(''k'', demo_capability)] ''ns'' [(demo_catalog, \<lambda>_. True, [\<lparr>lp_class = PyClass ''D'' [], lp_value = PNone,
     lp_retrieved_by = ''seed'', lp_first = 0, lp_last = 0\<rparr>])] new_lite_activator) = [(''k'', demo_capability)]"
    by code_simp
  have "distinct (map fst [(''k'', demo_capability)])" by simp
  from lite_activation_layered [OF this] show "layered [(''k'', demo_capability)] [] (la_activated (lite_refreshes [(''k'', demo_capability)] ''ns''
     [(demo_catalog, \<lambda>_. True, [\<lparr>lp_class = PyClass ''D'' [], lp_value = PNone, lp_retrieved_by = ''seed'', lp_first = 0, lp_last = 0\<rparr>])]
     new_lite_activator))" by blast
qed

end
