(* ===== verification/Lite_Session.thy ===== *)
theory Lite_Session
  imports Lite_Graph
begin

text \<open>
  The in-process engine's session, \<^verbatim>\<open>orcastork_lite/orchestrator.py\<close>: one gathering loop that is the
  only writer of the session state, and the operators' tasks, which only put signals on its queue.

  The loop runs from one suspension to the next: at the head of the loop a pass refreshes the
  capabilities, plans, launches and decides what to wait for; a signal, a window that comes due or the
  deadline takes it back to the head; leaving it, what is still running is cancelled. Between two steps
  of the loop tasks put signals and the clock moves on, in any order. What the author's code emits and
  raises, which activations succeed and how much time passes are left open; a pass itself takes no
  time. An event is recorded when it is handed to the sink; that a sink fails changes nothing else.
  Errors are the text \<^verbatim>\<open>str(error)\<close>. A lookup that would raise \<^verbatim>\<open>KeyError\<close> is \<open>None\<close>.
\<close>

section \<open>State\<close>

datatype lite_outcome_kind = RunSucceeded | RunFailed | RunRetrying | RunCancelled

datatype lite_event =
    DataPointMerged string pyval operator_id bool int instant
  | OperatorRunCompleted operator_id lite_outcome_kind int "string option" instant
  | CapabilityActivated capability_id bool instant
  | SessionCompleted bool "operator_id \<rightharpoonup> int" "operator_id \<rightharpoonup> string" instant

datatype lite_signal = LiteEmitted operator_id lite_point | LiteCompleted operator_id "string option" bool

record lite_running =
  lr_observed :: int
  lr_until :: seconds
  lr_clipped :: bool
  lr_finished :: bool

record armed_retry =
  ar_error :: string
  ar_observed :: int
  ar_attempts :: int

datatype lite_phase = AtHead | AwaitsSignal "seconds option" | AwaitsTimer seconds | Leaving | Cancelling | Ended

record lite_session =
  lt_phase :: lite_phase
  lt_state :: lite_state
  lt_operators :: "operator_class list"
  lt_by_id :: "operator_id \<rightharpoonup> operator_class"
  lt_breaker :: circuit_breaker
  lt_runs :: "operator_id \<rightharpoonup> int"
  lt_failures :: "operator_id \<rightharpoonup> string"
  lt_failed_attempts :: "operator_id \<rightharpoonup> int"
  lt_armed :: "operator_id \<rightharpoonup> armed_retry"
  lt_prev_caps :: "operator_id \<rightharpoonup> capability_id list"
  lt_undeclared :: "(operator_id \<times> pyclass) list"
  lt_published_caps :: "capability_id list"
  lt_deadline_hit :: bool
  lt_activator :: lite_activator
  lt_debounce :: debounce_controller
  lt_retries :: debounce_controller
  lt_running :: "(operator_id \<times> lite_running) list"
  lt_queue :: "lite_signal list"
  lt_clock :: seconds
  lt_now :: instant
  lt_deadline :: "seconds option"
  lt_events :: "lite_event list"

record lite_config =
  lc_namespace :: namespace_id
  lc_capabilities :: "capability_class list"
  lc_operation_timeout :: seconds
  lc_session_deadline :: "seconds option"
  lc_catalog :: capability_catalog
  lc_uniform :: "operator_id \<Rightarrow> nat \<Rightarrow> real \<Rightarrow> real \<Rightarrow> real"

definition cancelled_at_deadline :: string where
  "cancelled_at_deadline = ''cancelled: the session deadline passed while the operator was running''"

definition lite_registered :: "lite_config \<Rightarrow> capability_registry" where
  "lite_registered c = foldl (\<lambda>m k. AList.update (cap_id k) k m) [] (lc_capabilities c)"

section \<open>Publishing and merging\<close>

definition lite_publish :: "lite_event \<Rightarrow> lite_session \<Rightarrow> lite_session" where
  "lite_publish ev s = s\<lparr>lt_events := lt_events s @ [ev]\<rparr>"

definition publish_run :: "operator_id \<Rightarrow> lite_outcome_kind \<Rightarrow> int \<Rightarrow> string option \<Rightarrow> lite_session \<Rightarrow> lite_session" where
  "publish_run oid outcome attempt err s =
     lite_publish (OperatorRunCompleted oid outcome attempt
       (case err of None \<Rightarrow> None | Some msg \<Rightarrow> Some (if outcome = RunCancelled then cancelled_at_deadline else msg)) (lt_now s)) s"

definition publish_merge :: "lite_outcome \<Rightarrow> lite_session \<Rightarrow> lite_session" where
  "publish_merge out s =
     fold (\<lambda>d s. lite_publish (DataPointMerged (cls_name (lp_class d)) (lp_value d) (lp_retrieved_by d) False (lo_revision out) (lt_now s)) s) (lo_updated out)
       (fold (\<lambda>d s. lite_publish (DataPointMerged (cls_name (lp_class d)) (lp_value d) (lp_retrieved_by d) True (lo_revision out) (lt_now s)) s) (lo_added out) s)"

definition lite_merge_all :: "lite_point list \<Rightarrow> lite_session \<Rightarrow> lite_session" where
  "lite_merge_all ds s = (case lite_merge ds (lt_state s) of (out, st) \<Rightarrow> publish_merge out (s\<lparr>lt_state := st\<rparr>))"

definition lite_check_declared :: "operator_id \<Rightarrow> lite_point \<Rightarrow> lite_session \<Rightarrow> lite_session option" where
  "lite_check_declared oid d s =
     (case lt_by_id s oid of
        None \<Rightarrow> None
      | Some x \<Rightarrow>
          if \<exists>t \<in> set (op_produces x). issubclass (lp_class d) t then Some s
          else Some (s\<lparr>lt_undeclared := List.insert (oid, lp_class d) (lt_undeclared s)\<rparr>))"

fun check_emissions :: "(operator_id \<times> lite_point) list \<Rightarrow> lite_session \<Rightarrow> lite_session option" where
  "check_emissions [] s = Some s"
| "check_emissions ((oid, d) # es) s = (case lite_check_declared oid d s of None \<Rightarrow> None | Some s1 \<Rightarrow> check_emissions es s1)"

definition lite_merge_emissions :: "(operator_id \<times> lite_point) list \<Rightarrow> lite_session \<Rightarrow> lite_session option" where
  "lite_merge_emissions es s =
     (if es = [] then Some s
      else case check_emissions es s of None \<Rightarrow> None | Some s1 \<Rightarrow> Some (lite_merge_all (map snd es) s1))"

section \<open>Completions\<close>

definition attempts_so_far :: "operator_id \<Rightarrow> lite_session \<Rightarrow> int" where
  "attempts_so_far oid s = (case lt_failed_attempts s oid of None \<Rightarrow> 0 | Some n \<Rightarrow> n)"

definition lite_schedule_retry :: "lite_config \<Rightarrow> operator_class \<Rightarrow> int \<Rightarrow> lite_session \<Rightarrow> bool \<times> lite_session" where
  "lite_schedule_retry c x attempts s =
     (case op_retry (op_policy x) of
        None \<Rightarrow> (False, s)
      | Some p \<Rightarrow>
          if max_attempts p \<le> attempts \<or> is_tripped (op_id x) (lt_breaker s) then (False, s)
          else (True, s\<lparr>lt_retries := debounce_schedule (lt_clock s) (op_id x)
                  (Some (backoff_delays (lc_uniform c (op_id x)) p ! nat (attempts - 1))) (lt_retries s)\<rparr>))"

definition record_terminal_failure :: "operator_id \<Rightarrow> string \<Rightarrow> int \<Rightarrow> int \<Rightarrow> lite_session \<Rightarrow> lite_session" where
  "record_terminal_failure oid err observed attempts s =
     publish_run oid RunFailed attempts (Some err)
       (s\<lparr>lt_failed_attempts := (lt_failed_attempts s)(oid := None), lt_failures := (lt_failures s)(oid \<mapsto> err),
          lt_state := lite_advance_watermark oid observed (lt_state s)\<rparr>)"

text \<open>A failed run: a retry is armed, or the failure is terminal.\<close>

definition lite_run_failed :: "lite_config \<Rightarrow> operator_id \<Rightarrow> string \<Rightarrow> int \<Rightarrow> int \<Rightarrow> lite_session \<Rightarrow> lite_session option" where
  "lite_run_failed c oid msg observed attempts s =
     (case lt_by_id s oid of
        None \<Rightarrow> None
      | Some x \<Rightarrow>
          (case lite_schedule_retry c x attempts (s\<lparr>lt_failed_attempts := (lt_failed_attempts s)(oid \<mapsto> attempts)\<rparr>) of
             (armed, s1) \<Rightarrow>
               if armed then Some (publish_run oid RunRetrying attempts (Some msg)
                 (s1\<lparr>lt_armed := (lt_armed s1)(oid \<mapsto> \<lparr>ar_error = msg, ar_observed = observed, ar_attempts = attempts\<rparr>)\<rparr>))
               else Some (record_terminal_failure oid msg observed attempts s1)))"

definition lite_run_cut :: "operator_id \<Rightarrow> string option \<Rightarrow> lite_session \<Rightarrow> lite_session" where
  "lite_run_cut oid err s =
     publish_run oid RunCancelled (attempts_so_far oid s + 1) err
       (s\<lparr>lt_deadline_hit := True, lt_failures := (lt_failures s)(oid \<mapsto> cancelled_at_deadline)\<rparr>)"

definition lite_count_run :: "operator_id \<Rightarrow> lite_session \<Rightarrow> lite_session" where
  "lite_count_run oid s = s\<lparr>lt_runs := (lt_runs s)(oid \<mapsto> (case lt_runs s oid of None \<Rightarrow> 0 | Some n \<Rightarrow> n) + 1),
     lt_breaker := record_run oid (lt_breaker s)\<rparr>"

definition lite_record_completion :: "lite_config \<Rightarrow> operator_id \<Rightarrow> string option \<Rightarrow> bool \<Rightarrow> lite_session \<Rightarrow> lite_session option" where
  "lite_record_completion c oid err cut_off s =
     (case map_of (lt_running s) oid of
        None \<Rightarrow> None
      | Some r \<Rightarrow>
          let s1 = s\<lparr>lt_running := AList.delete oid (lt_running s)\<rparr> in
          if cut_off then Some (lite_run_cut oid err s1)
          else
            let s2 = lite_count_run oid s1; attempts = attempts_so_far oid s2 + 1
            in case err of
                 None \<Rightarrow> Some (publish_run oid RunSucceeded attempts None
                   (s2\<lparr>lt_failed_attempts := (lt_failed_attempts s2)(oid := None),
                       lt_state := lite_advance_watermark oid (lr_observed r) (lt_state s2)\<rparr>))
               | Some msg \<Rightarrow> lite_run_failed c oid msg (lr_observed r) attempts s2)"

fun emissions_in :: "lite_signal list \<Rightarrow> (operator_id \<times> lite_point) list" where
  "emissions_in [] = []"
| "emissions_in (LiteEmitted oid d # qs) = (oid, d) # emissions_in qs"
| "emissions_in (LiteCompleted _ _ _ # qs) = emissions_in qs"

fun record_completions :: "lite_config \<Rightarrow> lite_signal list \<Rightarrow> lite_session \<Rightarrow> lite_session option" where
  "record_completions c [] s = Some s"
| "record_completions c (LiteEmitted _ _ # qs) s = record_completions c qs s"
| "record_completions c (LiteCompleted oid err cut_off # qs) s =
     (case lite_record_completion c oid err cut_off s of None \<Rightarrow> None | Some s1 \<Rightarrow> record_completions c qs s1)"

definition lite_consume :: "lite_config \<Rightarrow> lite_signal list \<Rightarrow> lite_session \<Rightarrow> lite_session option" where
  "lite_consume c qs s = (case lite_merge_emissions (emissions_in qs) s of None \<Rightarrow> None | Some s1 \<Rightarrow> record_completions c qs s1)"

text \<open>All that is on the queue.\<close>

definition consume_queue :: "lite_config \<Rightarrow> lite_session \<Rightarrow> lite_session option" where
  "consume_queue c s = lite_consume c (lt_queue s) (s\<lparr>lt_queue := []\<rparr>)"

section \<open>Planning\<close>

definition lite_ready :: "operator_class \<Rightarrow> pyclass list \<Rightarrow> pyclass list \<Rightarrow> bool" where
  "lite_ready x present available \<longleftrightarrow>
     (\<forall>t \<in> set (op_depends_on x). \<exists>p \<in> set present. issubclass p t) \<and> (\<forall>t \<in> set (op_requires x). \<exists>a \<in> set available. issubclass a t)"

definition lite_relevant :: "operator_class \<Rightarrow> lite_delta \<Rightarrow> bool" where
  "lite_relevant x delta \<longleftrightarrow>
     ld_newly_available delta \<noteq> [] \<or>
     (\<exists>d \<in> set (if rerun_on (op_policy x) = ADDED_ONLY then ld_added delta else ld_added delta @ ld_updated delta).
        \<exists>t \<in> set (op_depends_on x) \<union> set (op_uses x). issubclass (lp_class d) t)"

record lite_runnable =
  rn_operator :: operator_class
  rn_delta :: lite_delta
  rn_is_retry :: bool

record lite_plan =
  pn_runnable :: "lite_runnable list"
  pn_soonest :: "seconds option"
  pn_session :: lite_session

definition track :: "seconds option \<Rightarrow> lite_plan \<Rightarrow> lite_plan" where
  "track due p =
     (case due of
        None \<Rightarrow> p
      | Some t \<Rightarrow> p\<lparr>pn_soonest := Some (case pn_soonest p of None \<Rightarrow> t | Some u \<Rightarrow> min u t)\<rparr>)"

definition add_runnable :: "operator_class \<Rightarrow> lite_delta \<Rightarrow> bool \<Rightarrow> lite_plan \<Rightarrow> lite_plan" where
  "add_runnable x delta retry p = p\<lparr>pn_runnable := pn_runnable p @ [\<lparr>rn_operator = x, rn_delta = delta, rn_is_retry = retry\<rparr>]\<rparr>"

definition plan_delta :: "operator_class \<Rightarrow> capability_view \<Rightarrow> lite_session \<Rightarrow> lite_delta" where
  "plan_delta x caps s =
     lite_delta_for (op_id x) (case lt_prev_caps s (op_id x) of None \<Rightarrow> [] | Some cs \<Rightarrow> cs) (map fst (cv_available caps)) (lt_state s)"

text \<open>An armed retry owns its operator's next launch.\<close>

definition plan_retry :: "operator_class \<Rightarrow> bool \<Rightarrow> capability_view \<Rightarrow> lite_plan \<Rightarrow> lite_plan option" where
  "plan_retry x ready caps p =
     (let s = pn_session p; oid = op_id x in
      if \<not> ready then
        (case lt_armed s oid of
           None \<Rightarrow> None
         | Some a \<Rightarrow> Some (p\<lparr>pn_session := record_terminal_failure oid (ar_error a) (ar_observed a) (ar_attempts a)
             (s\<lparr>lt_retries := debounce_clear oid (lt_retries s), lt_armed := (lt_armed s)(oid := None)\<rparr>)\<rparr>))
      else if is_due (lt_clock s) oid (lt_retries s) then Some (add_runnable x (plan_delta x caps s) True p)
      else Some (track (db_due_at (lt_retries s) oid) p))"

text \<open>A rerun is coalesced on a window.\<close>

definition plan_rerun :: "operator_class \<Rightarrow> capability_view \<Rightarrow> lite_plan \<Rightarrow> lite_plan" where
  "plan_rerun x caps p =
     (let s = pn_session p; oid = op_id x; delta = plan_delta x caps s in
      if \<not> rerun_on_new_data (op_policy x) \<or> \<not> lite_relevant x delta then p
      else
        let s1 = (if is_scheduled oid (lt_debounce s) then s
                  else s\<lparr>lt_debounce := debounce_schedule (lt_clock s) oid (debounce (op_policy x)) (lt_debounce s)\<rparr>);
            p1 = p\<lparr>pn_session := s1\<rparr>
        in if is_due (lt_clock s1) oid (lt_debounce s1) then add_runnable x delta False p1
           else track (db_due_at (lt_debounce s1) oid) p1)"

definition plan_operator ::
  "pyclass list \<Rightarrow> capability_view \<Rightarrow> operator_class \<Rightarrow> lite_plan \<Rightarrow> lite_plan option" where
  "plan_operator present caps x p =
     (let s = pn_session p; oid = op_id x in
      if oid \<in> set (map fst (lt_running s)) \<or> is_tripped oid (lt_breaker s) then Some p
      else
        let ready = lite_ready x present (available_types caps) in
        if is_scheduled oid (lt_retries s) then plan_retry x ready caps p
        else if \<not> ready then Some p
        else if \<not> lite_has_run oid (lt_state s) then Some (add_runnable x (plan_delta x caps s) False p)
        else Some (plan_rerun x caps p))"

fun plan_operators :: "pyclass list \<Rightarrow> capability_view \<Rightarrow> operator_class list \<Rightarrow> lite_plan \<Rightarrow> lite_plan option" where
  "plan_operators present caps [] p = Some p"
| "plan_operators present caps (x # xs) p =
     (case plan_operator present caps x p of None \<Rightarrow> None | Some p1 \<Rightarrow> plan_operators present caps xs p1)"

definition lite_plan_of :: "lite_point list \<Rightarrow> capability_view \<Rightarrow> lite_session \<Rightarrow> lite_plan option" where
  "lite_plan_of view caps s =
     plan_operators (lite_present_types view) caps (lt_operators s) \<lparr>pn_runnable = [], pn_soonest = None, pn_session = s\<rparr>"

section \<open>One pass\<close>

definition lite_refresh_capabilities :: "lite_config \<Rightarrow> (capability_id \<Rightarrow> bool) \<Rightarrow> lite_point list \<Rightarrow> lite_session \<Rightarrow> capability_view \<times> lite_session" where
  "lite_refresh_capabilities c activates view s =
     (case lite_refresh_activator (lite_registered c) (lc_catalog c) (lc_namespace c) activates view (lt_activator s) of
        (caps, a) \<Rightarrow>
          let outcomes = map (\<lambda>cid. (cid, True)) (sort (map fst (la_activated a))) @ map (\<lambda>cid. (cid, False)) (sort (la_failed a))
          in (caps, fold (\<lambda>(cid, ok) s. if cid \<in> set (lt_published_caps s) then s
                 else lite_publish (CapabilityActivated cid ok (lt_now s)) (s\<lparr>lt_published_caps := cid # lt_published_caps s\<rparr>))
               outcomes (s\<lparr>lt_activator := a\<rparr>)))"

definition lite_timeout_for :: "lite_config \<Rightarrow> operator_class \<Rightarrow> seconds" where
  "lite_timeout_for c x = (case op_timeout (op_policy x) of None \<Rightarrow> lc_operation_timeout c | Some t \<Rightarrow> t)"

text \<open>A launch: the run is bounded by its timeout, clipped to what is left of the session.\<close>

definition lite_launch :: "lite_config \<Rightarrow> capability_view \<Rightarrow> int \<Rightarrow> lite_runnable \<Rightarrow> lite_session \<Rightarrow> lite_session" where
  "lite_launch c caps observed rn s =
     (let x = rn_operator rn; oid = op_id x;
          timeout = lite_timeout_for c x;
          clipped = (case lt_deadline s of None \<Rightarrow> False | Some d \<Rightarrow> d - lt_clock s < timeout);
          bound = (case lt_deadline s of None \<Rightarrow> timeout | Some d \<Rightarrow> if clipped then d - lt_clock s else timeout);
          s1 = s\<lparr>lt_prev_caps := (lt_prev_caps s)(oid \<mapsto> map fst (cv_available caps)),
                 lt_running := AList.update oid \<lparr>lr_observed = observed, lr_until = lt_clock s + bound, lr_clipped = clipped, lr_finished = False\<rparr>
                   (lt_running s)\<rparr>
      in if rn_is_retry rn then s1\<lparr>lt_retries := debounce_clear oid (lt_retries s1), lt_armed := (lt_armed s1)(oid := None)\<rparr>
         else s1\<lparr>lt_debounce := debounce_clear oid (lt_debounce s1)\<rparr>)"

definition lite_wait :: "seconds option \<Rightarrow> lite_session \<Rightarrow> seconds option" where
  "lite_wait soonest s =
     (case soonest of
        None \<Rightarrow> None
      | Some t \<Rightarrow>
          let next_due_in = max 0 (t - lt_clock s)
          in Some (max 0 (case lt_deadline s of None \<Rightarrow> next_due_in | Some d \<Rightarrow> min next_due_in (d - lt_clock s))))"

definition lite_open :: "lite_session \<Rightarrow> bool" where
  "lite_open s \<longleftrightarrow> \<not> lt_deadline_hit s \<and> (case lt_deadline s of None \<Rightarrow> True | Some d \<Rightarrow> lt_clock s < d)"

definition lite_pass :: "lite_config \<Rightarrow> (capability_id \<Rightarrow> bool) \<Rightarrow> lite_session \<Rightarrow> lite_session option" where
  "lite_pass c activates s =
     (let view = lite_view (lt_state s); observed = ls_revision (lt_state s) in
      case lite_refresh_capabilities c activates view s of (caps, s1) \<Rightarrow>
        (case lite_plan_of view caps s1 of
           None \<Rightarrow> None
         | Some p \<Rightarrow>
             let s2 = fold (lite_launch c caps observed) (pn_runnable p) (pn_session p);
                 wait = lite_wait (pn_soonest p) s2
             in Some (s2\<lparr>lt_phase :=
                  (if lt_running s2 \<noteq> [] then AwaitsSignal (map_option (\<lambda>w. lt_clock s2 + w) wait)
                   else case wait of Some w \<Rightarrow> AwaitsTimer (lt_clock s2 + w) | None \<Rightarrow> Leaving)\<rparr>)))"

section \<open>Steps\<close>

text \<open>A task puts a signal: an emission, finalized now, or its completion, the last signal of a run.\<close>

definition lite_put :: "lite_signal \<Rightarrow> lite_session \<Rightarrow> lite_session option" where
  "lite_put q s =
     (case q of
        LiteEmitted oid d \<Rightarrow>
          (case map_of (lt_running s) oid of
             Some r \<Rightarrow> if \<not> lr_finished r \<and> lp_retrieved_by d = oid \<and> lp_first d = lt_now s \<and> lp_last d = lt_now s
                       then Some (s\<lparr>lt_queue := lt_queue s @ [q]\<rparr>) else None
           | None \<Rightarrow> None)
      | LiteCompleted oid err cut_off \<Rightarrow>
          (case map_of (lt_running s) oid of
             Some r \<Rightarrow> if \<not> lr_finished r \<and> (cut_off \<longrightarrow> lr_clipped r \<and> err \<noteq> None)
                       then Some (s\<lparr>lt_queue := lt_queue s @ [q], lt_running := AList.update oid (r\<lparr>lr_finished := True\<rparr>) (lt_running s)\<rparr>) else None
           | None \<Rightarrow> None))"

text \<open>After the first drain the tasks still running are cancelled; what they put before they end is drained too.\<close>

definition lite_cancel_one :: "operator_id \<Rightarrow> lite_session \<Rightarrow> lite_session" where
  "lite_cancel_one oid s =
     lite_publish (OperatorRunCompleted oid RunCancelled (attempts_so_far oid s + 1) (Some cancelled_at_deadline) (lt_now s))
       (s\<lparr>lt_failures := (lt_failures s)(oid \<mapsto> cancelled_at_deadline)\<rparr>)"

definition lite_finish :: "lite_config \<Rightarrow> lite_session \<Rightarrow> lite_session option" where
  "lite_finish c s =
     (case consume_queue c s of
        None \<Rightarrow> None
      | Some s1 \<Rightarrow>
          let s2 = (fold lite_cancel_one (sort (map fst (lt_running s1))) s1)\<lparr>lt_running := []\<rparr>
          in Some (lite_publish (SessionCompleted (lt_deadline_hit s2) (lt_runs s2) (lt_failures s2) (lt_now s2)) (s2\<lparr>lt_phase := Ended\<rparr>)))"

inductive lite_step :: "lite_config \<Rightarrow> lite_session \<Rightarrow> lite_session \<Rightarrow> bool" for c where
  time: "0 \<le> d \<Longrightarrow> 0 \<le> k \<Longrightarrow> lite_step c s (s\<lparr>lt_clock := lt_clock s + d, lt_now := lt_now s + k\<rparr>)"
| signal: "lite_put q s = Some s' \<Longrightarrow> lite_step c s s'"
| pass: "lt_phase s = AtHead \<Longrightarrow> lite_open s \<Longrightarrow> lite_pass c activates s = Some s' \<Longrightarrow> lite_step c s s'"
| deadline: "lt_phase s = AtHead \<Longrightarrow> \<not> lite_open s \<Longrightarrow> lite_step c s (s\<lparr>lt_deadline_hit := True, lt_phase := Leaving\<rparr>)"
| take: "lt_phase s = AwaitsSignal w \<Longrightarrow> lt_queue s \<noteq> [] \<Longrightarrow> consume_queue c s = Some s' \<Longrightarrow> lite_step c s (s'\<lparr>lt_phase := AtHead\<rparr>)"
| due: "lt_phase s = AwaitsSignal (Some t) \<Longrightarrow> t \<le> lt_clock s \<Longrightarrow> lite_step c s (s\<lparr>lt_phase := AtHead\<rparr>)"
| slept: "lt_phase s = AwaitsTimer t \<Longrightarrow> t \<le> lt_clock s \<Longrightarrow> lite_step c s (s\<lparr>lt_phase := AtHead\<rparr>)"
| leave: "lt_phase s = Leaving \<Longrightarrow> consume_queue c s = Some s' \<Longrightarrow> lite_step c s (s'\<lparr>lt_phase := Cancelling\<rparr>)"
| finish: "lt_phase s = Cancelling \<Longrightarrow> lite_finish c s = Some s' \<Longrightarrow> lite_step c s s'"

section \<open>The constructor and the start of a run\<close>

definition exclude_unpermitted :: "lite_config \<Rightarrow> operator_class list \<Rightarrow> operator_class list" where
  "exclude_unpermitted c ops =
     (case permitted_operators (lc_catalog c) (lc_namespace c) of None \<Rightarrow> ops | Some ids \<Rightarrow> filter (\<lambda>x. op_id x \<in> set ids) ops)"

definition lite_blank :: "lite_config \<Rightarrow> operator_class list \<Rightarrow> seconds \<Rightarrow> instant \<Rightarrow> lite_session" where
  "lite_blank c ops clock now =
     \<lparr>lt_phase = AtHead, lt_state = new_lite_state, lt_operators = exclude_unpermitted c ops,
      lt_by_id = map_of (rev (map (\<lambda>x. (op_id x, x)) ops)),
      lt_breaker = new_breaker (lite_cycle_caps (lite_build_edges ops (lc_capabilities c))), lt_runs = Map.empty, lt_failures = Map.empty,
      lt_failed_attempts = Map.empty, lt_armed = Map.empty, lt_prev_caps = Map.empty, lt_undeclared = [], lt_published_caps = [],
      lt_deadline_hit = False, lt_activator = new_lite_activator,
      lt_debounce = \<lparr>db_default_window = 0, db_due_at = Map.empty\<rparr>, lt_retries = \<lparr>db_default_window = 0, db_due_at = Map.empty\<rparr>,
      lt_running = [], lt_queue = [], lt_clock = clock, lt_now = now,
      lt_deadline = map_option (\<lambda>d. clock + d) (lc_session_deadline c), lt_events = []\<rparr>"

definition lite_start ::
  "lite_config \<Rightarrow> operator_class list \<Rightarrow> lite_point list \<Rightarrow> seconds \<Rightarrow> instant \<Rightarrow> lite_error + lite_session" where
  "lite_start c operators seed clock now =
     (case check_unique_ids operators (lc_capabilities c) of
        Inl err \<Rightarrow> Inl err
      | Inr _ \<Rightarrow>
          let ops = lite_prune operators (lc_capabilities c) in
          (case validate_acyclic_or_bounded (lite_build_edges ops (lc_capabilities c)) of
             Inl _ \<Rightarrow> Inl LiteUnboundedCycle
           | Inr _ \<Rightarrow> Inr (lite_merge_all seed (lite_blank c ops clock now))))"

text \<open>What the step relation reaches from a started session.\<close>

inductive lite_reaches :: "lite_config \<Rightarrow> operator_class list \<Rightarrow> lite_session \<Rightarrow> bool" for c operators where
  started: "lite_start c operators seed clock now = Inr s \<Longrightarrow> lite_reaches c operators s"
| onwards: "lite_reaches c operators s \<Longrightarrow> lite_step c s s' \<Longrightarrow> lite_reaches c operators s'"

record lite_result =
  rs_runs :: "operator_id \<rightharpoonup> int"
  rs_points :: "lite_point list"
  rs_failures :: "operator_id \<rightharpoonup> string"
  rs_deadline_hit :: bool

definition lite_result_of :: "lite_session \<Rightarrow> lite_result" where
  "lite_result_of s = \<lparr>rs_runs = lt_runs s, rs_points = lite_view (lt_state s), rs_failures = lt_failures s, rs_deadline_hit = lt_deadline_hit s\<rparr>"

end
