(* ===== verification/Lite_Invariant.thy ===== *)
theory Lite_Invariant
  imports Lite_Session
begin

text \<open>
  The invariant of the in-process engine's session and its preservation by every step of
  \<open>Lite_Session\<close>: the loop's dictionaries agree with each other, so no lookup raises; the circuit
  breaker's cap counts the run in flight; the data and its watermarks are in order; no run outlives
  the deadline; and the last event published for an operator says how its last run ended.
\<close>

declare split_paired_All [simp del] split_paired_Ex [simp del]

section \<open>What the parts of a step change\<close>

definition merge_events :: "lite_outcome \<Rightarrow> instant \<Rightarrow> lite_event list" where
  "merge_events out now =
     map (\<lambda>d. DataPointMerged (cls_name (lp_class d)) (lp_value d) (lp_retrieved_by d) True (lo_revision out) now) (lo_added out) @
     map (\<lambda>d. DataPointMerged (cls_name (lp_class d)) (lp_value d) (lp_retrieved_by d) False (lo_revision out) now) (lo_updated out)"

lemma publish_fold:
  "fold (\<lambda>d s. lite_publish (DataPointMerged (cls_name (lp_class d)) (lp_value d) (lp_retrieved_by d) b r (lt_now s)) s) ds s =
     s\<lparr>lt_events := lt_events s @ map (\<lambda>d. DataPointMerged (cls_name (lp_class d)) (lp_value d) (lp_retrieved_by d) b r (lt_now s)) ds\<rparr>"
  by (induction ds arbitrary: s) (simp_all add: lite_publish_def)

lemma publish_merge_eq: "publish_merge out s = s\<lparr>lt_events := lt_events s @ merge_events out (lt_now s)\<rparr>"
  unfolding publish_merge_def publish_fold by (simp add: merge_events_def)

lemma merge_all_eq:
  "lite_merge_all ds s = s\<lparr>lt_state := snd (lite_merge ds (lt_state s)),
     lt_events := lt_events s @ merge_events (fst (lite_merge ds (lt_state s))) (lt_now s)\<rparr>"
  by (simp add: lite_merge_all_def publish_merge_eq split: prod.split)

lemma check_emissions_eq:
  "\<forall>e \<in> set es. lt_by_id s (fst e) \<noteq> None \<Longrightarrow> \<exists>us. check_emissions es s = Some (s\<lparr>lt_undeclared := us\<rparr>)"
proof (induction es arbitrary: s)
  case Nil
  have "s\<lparr>lt_undeclared := lt_undeclared s\<rparr> = s" by simp
  then have "check_emissions [] s = Some (s\<lparr>lt_undeclared := lt_undeclared s\<rparr>)" by simp
  then show ?case by blast
next
  case (Cons e es)
  obtain oid d where e: "e = (oid, d)" by (cases e)
  with Cons.prems obtain x where x: "lt_by_id s oid = Some x" by auto
  show ?case
  proof (cases "\<exists>t \<in> set (op_produces x). issubclass (lp_class d) t")
    case True
    with x e Cons show ?thesis by (simp add: lite_check_declared_def)
  next
    case False
    let ?s = "s\<lparr>lt_undeclared := List.insert (oid, lp_class d) (lt_undeclared s)\<rparr>"
    have "\<forall>e \<in> set es. lt_by_id ?s (fst e) \<noteq> None" using Cons.prems by simp
    from Cons.IH [OF this] show ?thesis using x e False by (simp add: lite_check_declared_def)
  qed
qed

lemma merge_emissions_eq:
  assumes "\<forall>e \<in> set es. lt_by_id s (fst e) \<noteq> None"
  obtains us where "lite_merge_emissions es s = Some (s\<lparr>lt_undeclared := us, lt_state := snd (lite_merge (map snd es) (lt_state s)),
     lt_events := lt_events s @ merge_events (fst (lite_merge (map snd es) (lt_state s))) (lt_now s)\<rparr>)"
proof (cases "es = []")
  case True
  have "lite_merge [] (lt_state s) = (\<lparr>lo_revision = ls_revision (lt_state s), lo_added = [], lo_updated = []\<rparr>, lt_state s)"
    by (simp add: lite_merge_def)
  then have "lite_merge_emissions es s = Some (s\<lparr>lt_undeclared := lt_undeclared s, lt_state := snd (lite_merge (map snd es) (lt_state s)),
     lt_events := lt_events s @ merge_events (fst (lite_merge (map snd es) (lt_state s))) (lt_now s)\<rparr>)"
    using True by (simp add: lite_merge_emissions_def merge_events_def)
  with that show ?thesis by blast
next
  case False
  from check_emissions_eq [OF assms] obtain us where "check_emissions es s = Some (s\<lparr>lt_undeclared := us\<rparr>)" by blast
  with False that show ?thesis by (simp add: lite_merge_emissions_def merge_all_eq)
qed

text \<open>The end of a run, as one record update for each way it can end.\<close>

definition run_event :: "operator_id \<Rightarrow> lite_outcome_kind \<Rightarrow> int \<Rightarrow> string option \<Rightarrow> lite_session \<Rightarrow> lite_event" where
  "run_event oid outcome attempt err s = OperatorRunCompleted oid outcome attempt
     (case err of None \<Rightarrow> None | Some msg \<Rightarrow> Some (if outcome = RunCancelled then cancelled_at_deadline else msg)) (lt_now s)"

lemma publish_run_eq: "publish_run oid outcome attempt err s = s\<lparr>lt_events := lt_events s @ [run_event oid outcome attempt err s]\<rparr>"
  by (simp add: publish_run_def run_event_def lite_publish_def)

lemma completion_cases:
  assumes "lite_record_completion c oid err cut_off s = Some s'"
  obtains (cut_short) r where "map_of (lt_running s) oid = Some r" and "cut_off"
      and "s' = s\<lparr>lt_running := AList.delete oid (lt_running s), lt_deadline_hit := True,
        lt_failures := (lt_failures s)(oid \<mapsto> cancelled_at_deadline),
        lt_events := lt_events s @ [run_event oid RunCancelled (attempts_so_far oid s + 1) err s]\<rparr>"
  | (succeeded) r where "map_of (lt_running s) oid = Some r" and "err = None"
      and "s' = s\<lparr>lt_running := AList.delete oid (lt_running s),
        lt_runs := (lt_runs s)(oid \<mapsto> (case lt_runs s oid of None \<Rightarrow> 0 | Some n \<Rightarrow> n) + 1), lt_breaker := record_run oid (lt_breaker s),
        lt_failed_attempts := (lt_failed_attempts s)(oid := None),
        lt_state := lite_advance_watermark oid (lr_observed r) (lt_state s),
        lt_events := lt_events s @ [run_event oid RunSucceeded (attempts_so_far oid s + 1) None s]\<rparr>"
  | (retried) r msg x due where "map_of (lt_running s) oid = Some r" and "err = Some msg" and "lt_by_id s oid = Some x"
      and "\<not> is_tripped (op_id x) (record_run oid (lt_breaker s))"
      and "s' = s\<lparr>lt_running := AList.delete oid (lt_running s),
        lt_runs := (lt_runs s)(oid \<mapsto> (case lt_runs s oid of None \<Rightarrow> 0 | Some n \<Rightarrow> n) + 1), lt_breaker := record_run oid (lt_breaker s),
        lt_failed_attempts := (lt_failed_attempts s)(oid \<mapsto> attempts_so_far oid s + 1),
        lt_retries := (lt_retries s)\<lparr>db_due_at := (db_due_at (lt_retries s))(op_id x \<mapsto> due)\<rparr>,
        lt_armed := (lt_armed s)(oid \<mapsto> \<lparr>ar_error = msg, ar_observed = lr_observed r, ar_attempts = attempts_so_far oid s + 1\<rparr>),
        lt_events := lt_events s @ [run_event oid RunRetrying (attempts_so_far oid s + 1) (Some msg) s]\<rparr>"
  | (failed) r msg x where "map_of (lt_running s) oid = Some r" and "err = Some msg" and "lt_by_id s oid = Some x"
      and "s' = s\<lparr>lt_running := AList.delete oid (lt_running s),
        lt_runs := (lt_runs s)(oid \<mapsto> (case lt_runs s oid of None \<Rightarrow> 0 | Some n \<Rightarrow> n) + 1), lt_breaker := record_run oid (lt_breaker s),
        lt_failed_attempts := (lt_failed_attempts s)(oid := None), lt_failures := (lt_failures s)(oid \<mapsto> msg),
        lt_state := lite_advance_watermark oid (lr_observed r) (lt_state s),
        lt_events := lt_events s @ [run_event oid RunFailed (attempts_so_far oid s + 1) (Some msg) s]\<rparr>"
proof -
  from assms obtain r where r: "map_of (lt_running s) oid = Some r" by (auto simp: lite_record_completion_def split: option.splits)
  show ?thesis
  proof (cases cut_off)
    case True
    with assms r cut_short show ?thesis
      by (simp add: lite_record_completion_def lite_run_cut_def publish_run_eq attempts_so_far_def run_event_def Let_def)
  next
    case nc: False
    show ?thesis
    proof (cases err)
      case None
      with assms r nc succeeded show ?thesis
        by (simp add: lite_record_completion_def lite_count_run_def publish_run_eq attempts_so_far_def run_event_def Let_def)
    next
      case (Some msg)
      let ?s = "lite_count_run oid (s\<lparr>lt_running := AList.delete oid (lt_running s)\<rparr>)"
      from assms r nc Some have f: "lite_run_failed c oid msg (lr_observed r) (attempts_so_far oid s + 1) ?s = Some s'"
        by (simp add: lite_record_completion_def lite_count_run_def attempts_so_far_def Let_def)
      then obtain x where x: "lt_by_id s oid = Some x" by (auto simp: lite_run_failed_def lite_count_run_def split: option.splits)
      let ?s1 = "?s\<lparr>lt_failed_attempts := (lt_failed_attempts ?s)(oid \<mapsto> attempts_so_far oid s + 1)\<rparr>"
      obtain armed s2 where sr: "lite_schedule_retry c x (attempts_so_far oid s + 1) ?s1 = (armed, s2)" by fastforce
      show ?thesis
      proof (cases armed)
        case True
        with sr obtain due where t: "\<not> is_tripped (op_id x) (record_run oid (lt_breaker s))"
          and s2: "s2 = ?s1\<lparr>lt_retries := (lt_retries s)\<lparr>db_due_at := (db_due_at (lt_retries s))(op_id x \<mapsto> due)\<rparr>\<rparr>"
          by (auto simp: lite_schedule_retry_def lite_count_run_def debounce_schedule_def Let_def split: option.splits if_splits)
        with f x sr True have "s' = publish_run oid RunRetrying (attempts_so_far oid s + 1) (Some msg)
            (s2\<lparr>lt_armed := (lt_armed s2)(oid \<mapsto> \<lparr>ar_error = msg, ar_observed = lr_observed r, ar_attempts = attempts_so_far oid s + 1\<rparr>)\<rparr>)"
          by (simp add: lite_run_failed_def lite_count_run_def)
        with retried [OF r Some x t] s2 show ?thesis by (simp add: publish_run_eq lite_count_run_def run_event_def)
      next
        case False
        with sr have s2: "s2 = ?s1" by (auto simp: lite_schedule_retry_def split: option.splits if_splits)
        with f x sr False have "s' = record_terminal_failure oid msg (lr_observed r) (attempts_so_far oid s + 1) ?s1"
          by (simp add: lite_run_failed_def lite_count_run_def)
        with failed [OF r Some x] show ?thesis by (simp add: record_terminal_failure_def publish_run_eq lite_count_run_def run_event_def)
      qed
    qed
  qed
qed

lemma completion_total:
  "map_of (lt_running s) oid \<noteq> None \<Longrightarrow> lt_by_id s oid \<noteq> None \<Longrightarrow> lite_record_completion c oid err cut_off s \<noteq> None"
  by (auto simp: lite_record_completion_def lite_run_failed_def lite_count_run_def Let_def split: option.splits prod.splits)


section \<open>Reading the events back\<close>

fun note_added :: "lite_event \<Rightarrow> (string \<times> pyval \<times> operator_id) list \<Rightarrow> (string \<times> pyval \<times> operator_id) list" where
  "note_added (DataPointMerged t v oid True r at_time) ps = ps @ [(t, v, oid)]"
| "note_added _ ps = ps"

fun note_failure :: "lite_event \<Rightarrow> (operator_id \<rightharpoonup> string) \<Rightarrow> (operator_id \<rightharpoonup> string)" where
  "note_failure (OperatorRunCompleted oid outcome attempt err at_time) m = (if outcome \<in> {RunFailed, RunCancelled} then m(oid := err) else m)"
| "note_failure _ m = m"

fun note_outcome :: "lite_event \<Rightarrow> (operator_id \<rightharpoonup> lite_outcome_kind) \<Rightarrow> (operator_id \<rightharpoonup> lite_outcome_kind)" where
  "note_outcome (OperatorRunCompleted oid outcome attempt err at_time) m = m(oid \<mapsto> outcome)"
| "note_outcome _ m = m"

definition added_in :: "lite_event list \<Rightarrow> (string \<times> pyval \<times> operator_id) list" where
  "added_in evs = fold note_added evs []"

definition failures_in :: "lite_event list \<Rightarrow> operator_id \<rightharpoonup> string" where
  "failures_in evs = fold note_failure evs Map.empty"

definition last_outcome :: "lite_event list \<Rightarrow> operator_id \<rightharpoonup> lite_outcome_kind" where
  "last_outcome evs = fold note_outcome evs Map.empty"

definition provenance :: "lite_point \<Rightarrow> string \<times> pyval \<times> operator_id" where
  "provenance d = (cls_name (lp_class d), lp_value d, lp_retrieved_by d)"

lemma read_snoc:
  "added_in (evs @ [ev]) = note_added ev (added_in evs)" "failures_in (evs @ [ev]) = note_failure ev (failures_in evs)"
  "last_outcome (evs @ [ev]) = note_outcome ev (last_outcome evs)"
  by (simp_all add: added_in_def failures_in_def last_outcome_def)

lemma added_in_merge: "added_in (evs @ merge_events out now) = added_in evs @ map provenance (lo_added out)"
proof -
  have a: "fold note_added (map (\<lambda>d. DataPointMerged (cls_name (lp_class d)) (lp_value d) (lp_retrieved_by d) True r now) ds) ps = ps @ map provenance ds" for r ds ps
    by (induction ds arbitrary: ps) (simp_all add: provenance_def)
  have u: "fold note_added (map (\<lambda>d. DataPointMerged (cls_name (lp_class d)) (lp_value d) (lp_retrieved_by d) False r now) ds) ps = ps" for r ds ps
    by (induction ds arbitrary: ps) simp_all
  show ?thesis by (simp add: added_in_def merge_events_def a u)
qed

lemma others_in_merge:
  "failures_in (evs @ merge_events out now) = failures_in evs" "last_outcome (evs @ merge_events out now) = last_outcome evs"
proof -
  have f: "fold note_failure (map (\<lambda>d. DataPointMerged (cls_name (lp_class d)) (lp_value d) (lp_retrieved_by d) b r now) ds) m = m" for b r ds m
    by (induction ds arbitrary: m) simp_all
  have l: "fold note_outcome (map (\<lambda>d. DataPointMerged (cls_name (lp_class d)) (lp_value d) (lp_retrieved_by d) b r now) ds) m = m" for b r ds m
    by (induction ds arbitrary: m) simp_all
  show "failures_in (evs @ merge_events out now) = failures_in evs" "last_outcome (evs @ merge_events out now) = last_outcome evs"
    by (simp_all add: failures_in_def last_outcome_def merge_events_def f l)
qed

lemma update_known:
  "map_of es k = Some e \<Longrightarrow> provenance (le_point e') = provenance (le_point e) \<Longrightarrow>
     map (\<lambda>p. provenance (le_point (snd p))) (AList.update k e' es) = map (\<lambda>p. provenance (le_point (snd p))) es"
  by (induction es) auto

lemma merge_one_added:
  assumes "lite_merge_one n d (es, added, updated) = (es', added', updated')"
  shows "\<exists>a. added' = added @ a \<and>
     map (\<lambda>p. provenance (le_point (snd p))) es' = map (\<lambda>p. provenance (le_point (snd p))) es @ map provenance a"
  using assms
proof (cases rule: merge_one_cases)
  case fresh
  then have "lite_identity d \<notin> fst ` set es" by (simp add: map_of_eq_None_iff)
  with fresh show ?thesis by (simp add: update_fresh)
next
  case (fresher e)
  have "provenance (le_point (e\<lparr>le_point := lite_reobserved (lp_last d) (le_point e), le_updated := n\<rparr>)) = provenance (le_point e)"
    by (simp add: provenance_def lite_reobserved_def)
  from update_known [OF fresher(1) this] fresher show ?thesis by simp
qed simp

lemma merge_fold_added:
  "fold (lite_merge_one n) ds (es, added, updated) = (es', added', updated') \<Longrightarrow>
     \<exists>a. added' = added @ a \<and>
       map (\<lambda>p. provenance (le_point (snd p))) es' = map (\<lambda>p. provenance (le_point (snd p))) es @ map provenance a"
proof (induction ds arbitrary: es added updated)
  case (Cons d ds)
  obtain es1 a1 u1 where m: "lite_merge_one n d (es, added, updated) = (es1, a1, u1)" by (metis prod_cases3)
  with Cons.prems have "fold (lite_merge_one n) ds (es1, a1, u1) = (es', added', updated')" by simp
  from Cons.IH [OF this] obtain a2 where a2: "added' = a1 @ a2"
    "map (\<lambda>p. provenance (le_point (snd p))) es' = map (\<lambda>p. provenance (le_point (snd p))) es1 @ map provenance a2" by blast
  from merge_one_added [OF m] obtain a3 where "a1 = added @ a3"
    "map (\<lambda>p. provenance (le_point (snd p))) es1 = map (\<lambda>p. provenance (le_point (snd p))) es @ map provenance a3" by blast
  with a2 show ?case by simp
qed simp

lemma merge_added:
  "map provenance (lite_view (snd (lite_merge ds st))) = map provenance (lite_view st) @ map provenance (lo_added (fst (lite_merge ds st)))"
proof (rule lite_merge_parts [of st ds])
  fix es added updated
  assume f: "fold (lite_merge_one (ls_revision st + 1)) ds (ls_entries st, [], []) = (es, added, updated)"
  from merge_fold_added [OF f] have "map (\<lambda>p. provenance (le_point (snd p))) es =
      map (\<lambda>p. provenance (le_point (snd p))) (ls_entries st) @ map provenance added" by simp
  with f show ?thesis by (simp add: lite_merge_def lite_view_def Let_def comp_def)
qed

section \<open>The invariant\<close>

definition lt_ids :: "lite_session \<Rightarrow> bool" where
  "lt_ids s \<longleftrightarrow> distinct (map op_id (lt_operators s)) \<and> (\<forall>oid x. lt_by_id s oid = Some x \<longrightarrow> op_id x = oid) \<and> (\<forall>x \<in> set (lt_operators s). lt_by_id s (op_id x) = Some x)"

definition lt_known :: "lite_session \<Rightarrow> bool" where
  "lt_known s \<longleftrightarrow> distinct (map fst (lt_running s)) \<and> fst ` set (lt_running s) \<subseteq> op_id ` set (lt_operators s) \<and>
     dom (lt_armed s) \<subseteq> op_id ` set (lt_operators s)"

definition lt_windows :: "lite_session \<Rightarrow> bool" where
  "lt_windows s \<longleftrightarrow> dom (db_due_at (lt_retries s)) = dom (lt_armed s) \<and> dom (lt_armed s) \<inter> fst ` set (lt_running s) = {} \<and>
     (\<forall>oid \<in> dom (lt_armed s). \<not> is_tripped oid (lt_breaker s))"

definition lt_budget :: "lite_session \<Rightarrow> bool" where
  "lt_budget s \<longleftrightarrow> lt_runs s = cb_counts (lt_breaker s) \<and>
     (\<forall>oid k. cb_caps (lt_breaker s) oid = Some k \<longrightarrow>
        breaker_runs oid (lt_breaker s) \<le> max 0 k \<and>
        (oid \<in> fst ` set (lt_running s) \<longrightarrow> breaker_runs oid (lt_breaker s) + 1 \<le> max 0 k))"

definition lt_data :: "lite_session \<Rightarrow> bool" where
  "lt_data s \<longleftrightarrow> lite_state_ok (lt_state s) \<and> (\<forall>p \<in> set (lt_running s). lr_observed (snd p) \<le> ls_revision (lt_state s)) \<and>
     (\<forall>oid a. lt_armed s oid = Some a \<longrightarrow> ar_observed a \<le> ls_revision (lt_state s))"

definition lt_bounded :: "lite_session \<Rightarrow> bool" where
  "lt_bounded s \<longleftrightarrow> (\<forall>d. lt_deadline s = Some d \<longrightarrow> (\<forall>p \<in> set (lt_running s). lr_until (snd p) \<le> d))"

definition lt_mirrored :: "lite_session \<Rightarrow> bool" where
  "lt_mirrored s \<longleftrightarrow> added_in (lt_events s) = map provenance (lite_view (lt_state s)) \<and> failures_in (lt_events s) = lt_failures s"

definition lt_reported :: "lite_session \<Rightarrow> bool" where
  "lt_reported s \<longleftrightarrow>
     (\<forall>oid \<in> dom (lt_armed s). last_outcome (lt_events s) oid = Some RunRetrying) \<and>
     (\<forall>oid. last_outcome (lt_events s) oid = Some RunRetrying \<longrightarrow> oid \<in> dom (lt_armed s) \<union> fst ` set (lt_running s)) \<and>
     (\<forall>oid. last_outcome (lt_events s) oid = Some RunFailed \<longrightarrow> oid \<in> dom (lt_failures s)) \<and>
     (\<forall>oid. last_outcome (lt_events s) oid = Some RunCancelled \<longrightarrow> lt_deadline_hit s)"

definition lite_ok :: "lite_session \<Rightarrow> bool" where
  "lite_ok s \<longleftrightarrow> lt_ids s \<and> lt_known s \<and> lt_windows s \<and> lt_budget s \<and> lt_data s \<and> lt_bounded s \<and> lt_mirrored s \<and> lt_reported s"

lemmas lt_inv_defs = lt_ids_def lt_known_def lt_windows_def lt_budget_def lt_data_def lt_bounded_def lt_mirrored_def lt_reported_def

text \<open>The completions still to be consumed are those of the runs that have ended, one for each.\<close>

fun completed_in :: "lite_signal list \<Rightarrow> operator_id list" where
  "completed_in [] = []"
| "completed_in (LiteEmitted _ _ # qs) = completed_in qs"
| "completed_in (LiteCompleted oid _ _ # qs) = oid # completed_in qs"

fun cut_has_error :: "lite_signal \<Rightarrow> bool" where
  "cut_has_error (LiteCompleted oid err cut_off) = (cut_off \<longrightarrow> err \<noteq> None)"
| "cut_has_error _ = True"

definition queue_ok :: "lite_signal list \<Rightarrow> (operator_id \<times> lite_running) list \<Rightarrow> bool" where
  "queue_ok qs rs \<longleftrightarrow> distinct (completed_in qs) \<and> set (completed_in qs) = {oid. \<exists>r. map_of rs oid = Some r \<and> lr_finished r} \<and>
     (\<forall>q \<in> set qs. cut_has_error q)"

definition emitters_ok :: "lite_signal list \<Rightarrow> (operator_id \<times> lite_running) list \<Rightarrow> bool" where
  "emitters_ok qs rs \<longleftrightarrow> fst ` set (emissions_in qs) \<subseteq> fst ` set rs"

lemma keys_delete: "fst ` set (AList.delete k xs) = fst ` set xs - {k}"
  by (auto simp: AList.delete_eq)

lemma delete_subset: "set (AList.delete k xs) \<subseteq> set xs"
  by (auto simp: AList.delete_eq)

lemma merged_ok:
  assumes "lite_ok s"
  shows "lite_ok (s\<lparr>lt_undeclared := us, lt_state := snd (lite_merge ds (lt_state s)),
     lt_events := lt_events s @ merge_events (fst (lite_merge ds (lt_state s))) (lt_now s)\<rparr>)"
proof -
  have ok: "lite_state_ok (lt_state s)" using assms by (simp add: lite_ok_def lt_data_def)
  then have "revs_ok (ls_revision (lt_state s)) (ls_entries (lt_state s))" by (simp add: lite_state_ok_def)
  from lite_merge_moves [OF moved_on_refl [OF this]] have "ls_revision (lt_state s) \<le> ls_revision (snd (lite_merge ds (lt_state s)))" by simp
  then have mono: "r \<le> ls_revision (lt_state s) \<Longrightarrow> r \<le> ls_revision (snd (lite_merge ds (lt_state s)))" for r by simp
  show ?thesis
    using assms mono lite_merge_ok [OF ok, of ds]
    by (simp add: lite_ok_def lt_inv_defs added_in_merge others_in_merge merge_added)
qed


section \<open>Completions\<close>

text \<open>What no step changes.\<close>

definition lt_fixed :: "lite_session \<Rightarrow> seconds option \<times> operator_class list \<times> (operator_id \<rightharpoonup> operator_class) \<times> (operator_id \<rightharpoonup> int)" where
  "lt_fixed s = (lt_deadline s, lt_operators s, lt_by_id s, cb_caps (lt_breaker s))"

lemma run_event_reads [simp]:
  "note_added (run_event oid k a err s) ps = ps"
  "note_outcome (run_event oid k a err s) m = m(oid \<mapsto> k)"
  "note_failure (run_event oid RunSucceeded a err s) f = f"
  "note_failure (run_event oid RunRetrying a err s) f = f"
  "note_failure (run_event oid RunFailed a (Some msg) s) f = f(oid \<mapsto> msg)"
  "err \<noteq> None \<Longrightarrow> note_failure (run_event oid RunCancelled a err s) f = f(oid \<mapsto> cancelled_at_deadline)"
  by (auto simp: run_event_def split: option.splits)

lemma lite_tripped_other: "oid' \<noteq> oid \<Longrightarrow> is_tripped oid' (record_run oid b) = is_tripped oid' b"
  by (auto simp: is_tripped_def record_run_def breaker_runs_def split: option.splits)

lemma runs_recorded:
  "cb_caps (record_run oid b) = cb_caps b"
  "cb_counts (record_run oid b) = (cb_counts b)(oid \<mapsto> breaker_runs oid b + 1)"
  "breaker_runs oid' (record_run oid b) = (if oid' = oid then breaker_runs oid b + 1 else breaker_runs oid' b)"
  by (simp_all add: record_run_def breaker_runs_def)

lemma advanced_ok: "lite_state_ok st \<Longrightarrow> r \<le> ls_revision st \<Longrightarrow> lite_state_ok (lite_advance_watermark oid r st)"
  by (simp add: lite_state_ok_def lite_advance_watermark_def)

lemma advanced_same [simp]:
  "ls_revision (lite_advance_watermark oid r st) = ls_revision st" "lite_view (lite_advance_watermark oid r st) = lite_view st"
  by (simp_all add: lite_advance_watermark_def lite_view_def)

lemma completion_keys:
  assumes "lite_record_completion c oid err cut_off s = Some s'"
  shows "lt_running s' = AList.delete oid (lt_running s)" and "lt_by_id s' = lt_by_id s" and "lt_operators s' = lt_operators s"
    and "lt_deadline s' = lt_deadline s" and "lt_queue s' = lt_queue s" and "lt_phase s' = lt_phase s" and "oid \<in> fst ` set (lt_running s)"
    and "lt_deadline_hit s \<longrightarrow> lt_deadline_hit s'" and "lt_fixed s' = lt_fixed s"
  using assms
  by (cases rule: completion_cases; force simp: lt_fixed_def runs_recorded dest: map_of_SomeD)+

lemma completion_known:
  assumes "lt_known s" and "lite_record_completion c oid err cut_off s = Some s'"
  shows "lt_known s'"
proof -
  have "dom (lt_armed s') \<subseteq> insert oid (dom (lt_armed s))"
    using assms(2) by (cases rule: completion_cases) auto
  moreover have "insert oid (dom (lt_armed s)) \<subseteq> op_id ` set (lt_operators s)"
    using assms(1) completion_keys(7) [OF assms(2)] unfolding lt_known_def insert_subset by (metis subsetD)
  ultimately have armed: "dom (lt_armed s') \<subseteq> op_id ` set (lt_operators s)" by (rule subset_trans)
  have "fst ` set (lt_running s) - {oid} \<subseteq> op_id ` set (lt_operators s)" using assms(1) unfolding lt_known_def by (metis Diff_subset subset_trans)
  with armed assms(1) show ?thesis unfolding lt_known_def completion_keys [OF assms(2)] keys_delete by (simp add: distinct_delete)
qed

lemma completion_windows:
  assumes "lt_windows s" and "lt_ids s" and c: "lite_record_completion c oid err cut_off s = Some s'"
  shows "lt_windows s'"
proof -
  have out: "oid \<notin> dom (lt_armed s)" using assms(1) completion_keys(7) [OF c] by (auto simp: lt_windows_def)
  then have still: "\<forall>k \<in> dom (lt_armed s). \<not> is_tripped k (record_run oid (lt_breaker s))"
    using assms(1) lite_tripped_other [of _ oid "lt_breaker s"] unfolding lt_windows_def by metis
  from c show ?thesis
  proof (cases rule: completion_cases)
    case (retried r msg x due)
    then have "op_id x = oid" using assms(2) by (simp add: lt_ids_def)
    with retried assms(1) out still show ?thesis by (auto simp: lt_windows_def keys_delete)
  qed (use assms(1) out still in \<open>auto simp: lt_windows_def keys_delete\<close>)
qed

lemma completion_budget:
  assumes "lt_budget s" and c: "lite_record_completion c oid err cut_off s = Some s'"
  shows "lt_budget s'"
  using c
  by (cases rule: completion_cases)
    (use assms(1) completion_keys(7) [OF c] in \<open>simp_all add: lt_budget_def keys_delete runs_recorded breaker_runs_def\<close>)

lemma completion_data:
  assumes "lt_data s" and c: "lite_record_completion c oid err cut_off s = Some s'"
  shows "lt_data s'"
proof -
  have r: "lr_observed r \<le> ls_revision (lt_state s)" if "map_of (lt_running s) oid = Some r" for r
    using assms(1) map_of_SomeD [OF that] by (auto simp: lt_data_def)
  from c show ?thesis
    by (cases rule: completion_cases)
      (use assms(1) r in \<open>auto simp: lt_data_def advanced_ok dest: subsetD [OF delete_subset]\<close>)
qed

lemma completion_bounded:
  assumes "lt_bounded s" and c: "lite_record_completion c oid err cut_off s = Some s'"
  shows "lt_bounded s'"
  using assms(1) unfolding lt_bounded_def completion_keys [OF c] by (auto dest: subsetD [OF delete_subset])

lemma completion_mirrored:
  assumes "lt_mirrored s" and c: "lite_record_completion c oid err cut_off s = Some s'" and "cut_off \<longrightarrow> err \<noteq> None"
  shows "lt_mirrored s'"
  using c by (cases rule: completion_cases) (use assms in \<open>simp_all add: lt_mirrored_def read_snoc del: not_None_eq\<close>)

lemma completion_reported:
  assumes "lt_reported s" and "lt_windows s" and c: "lite_record_completion c oid err cut_off s = Some s'"
  shows "lt_reported s'"
proof -
  have out: "oid \<notin> dom (lt_armed s)" using assms(2) completion_keys(7) [OF c] by (auto simp: lt_windows_def)
  from c show ?thesis
    by (cases rule: completion_cases) (use assms(1) out in \<open>auto simp: lt_reported_def read_snoc keys_delete\<close>)
qed

lemma completion_ok:
  assumes "lite_ok s" and c: "lite_record_completion c oid err cut_off s = Some s'" and "cut_off \<longrightarrow> err \<noteq> None"
  shows "lite_ok s'"
proof -
  have "lt_ids s'" using assms(1) unfolding lite_ok_def lt_ids_def completion_keys [OF c] by blast
  with assms completion_known [OF _ c] completion_windows [OF _ _ c] completion_budget [OF _ c] completion_data [OF _ c]
    completion_bounded [OF _ c] completion_mirrored [OF _ c] completion_reported [OF _ _ c]
  show ?thesis unfolding lite_ok_def by blast
qed


section \<open>Consuming the queue\<close>

lemma finished_running: "queue_ok qs rs \<Longrightarrow> oid \<in> set (completed_in qs) \<Longrightarrow> map_of rs oid \<noteq> None"
  by (auto simp: queue_ok_def)

lemma known_by_id: "lite_ok s \<Longrightarrow> oid \<in> fst ` set (lt_running s) \<Longrightarrow> lt_by_id s oid \<noteq> None"
  unfolding lite_ok_def lt_known_def lt_ids_def by (metis image_iff option.distinct(1) subsetD)

lemma queue_after:
  "queue_ok (LiteCompleted oid err cut_off # qs) rs \<Longrightarrow> queue_ok qs (AList.delete oid rs)"
  by (auto simp: queue_ok_def delete_conv)

lemma record_completions_ok:
  "lite_ok s \<Longrightarrow> queue_ok qs (lt_running s) \<Longrightarrow>
     \<exists>s'. record_completions c qs s = Some s' \<and> lite_ok s' \<and> queue_ok [] (lt_running s') \<and> lt_phase s' = lt_phase s \<and>
       lt_queue s' = lt_queue s \<and> lt_fixed s' = lt_fixed s \<and> set (lt_running s') \<subseteq> set (lt_running s) \<and>
       (lt_running s = [] \<longrightarrow> s' = s) \<and> (lt_deadline_hit s \<longrightarrow> lt_deadline_hit s')"
proof (induction c qs s rule: record_completions.induct)
  case (1 c s)
  then show ?case by simp
next
  case (2 c oid d qs s)
  then have "queue_ok qs (lt_running s)" by (simp add: queue_ok_def)
  with 2 show ?case by simp
next
  case (3 c oid err cut_off qs s)
  from finished_running [OF 3(3), of oid] have r: "map_of (lt_running s) oid \<noteq> None" by simp
  then have "oid \<in> fst ` set (lt_running s)" by (simp add: map_of_eq_None_iff)
  from completion_total [OF r known_by_id [OF 3(2) this]] obtain s1 where s1: "lite_record_completion c oid err cut_off s = Some s1" by blast
  have e: "cut_off \<longrightarrow> err \<noteq> None" using 3(3) by (auto simp: queue_ok_def)
  note keys = completion_keys [OF s1]
  from queue_after [OF 3(3)] have q: "queue_ok qs (lt_running s1)" by (simp only: keys(1))
  from 3(1) [OF s1 completion_ok [OF 3(2) s1 e] q] obtain s' where s': "record_completions c qs s1 = Some s'" "lite_ok s'"
    "queue_ok [] (lt_running s')" "lt_phase s' = lt_phase s1" "lt_queue s' = lt_queue s1" "lt_fixed s' = lt_fixed s1"
    "set (lt_running s') \<subseteq> set (lt_running s1)" "lt_deadline_hit s1 \<longrightarrow> lt_deadline_hit s'" by blast
  have "set (lt_running s') \<subseteq> set (lt_running s)" using s'(7) delete_subset [of oid "lt_running s"] unfolding keys(1) by (rule subset_trans)
  moreover have "lt_running s \<noteq> []" using keys(7) by auto
  ultimately show ?case using s' s1 keys(8) unfolding keys(5,6,9) by simp
qed

lemma no_signals: "completed_in qs = [] \<Longrightarrow> emissions_in qs = [] \<Longrightarrow> qs = []"
  by (cases qs rule: completed_in.cases) auto

lemma consume_ok:
  assumes "lite_ok s" and "queue_ok (lt_queue s) (lt_running s)" and "emitters_ok (lt_queue s) (lt_running s)"
  obtains s' where "consume_queue c s = Some s'" and "lite_ok s'" and "queue_ok [] (lt_running s')" and "lt_phase s' = lt_phase s"
    and "lt_queue s' = []" and "lt_fixed s' = lt_fixed s" and "set (lt_running s') \<subseteq> set (lt_running s)"
    and "lt_running s = [] \<longrightarrow> s' = s" and "lt_deadline_hit s \<longrightarrow> lt_deadline_hit s'"
proof -
  let ?s = "s\<lparr>lt_queue := []\<rparr>" and ?es = "emissions_in (lt_queue s)"
  have ok: "lite_ok ?s" using assms(1) by (simp add: lite_ok_def lt_inv_defs)
  have "\<forall>e \<in> set ?es. lt_by_id ?s (fst e) \<noteq> None"
    using assms(3) known_by_id [OF assms(1)] by (auto simp: emitters_ok_def)
  then obtain us where m: "lite_merge_emissions ?es ?s = Some (?s\<lparr>lt_undeclared := us, lt_state := snd (lite_merge (map snd ?es) (lt_state ?s)),
     lt_events := lt_events ?s @ merge_events (fst (lite_merge (map snd ?es) (lt_state ?s))) (lt_now ?s)\<rparr>)" (is "_ = Some ?s1")
    by (rule merge_emissions_eq)
  have q: "queue_ok (lt_queue s) (lt_running ?s1)" using assms(2) by simp
  from record_completions_ok [OF merged_ok [OF ok] q] obtain s' where s': "record_completions c (lt_queue s) ?s1 = Some s'" "lite_ok s'"
    "queue_ok [] (lt_running s')" "lt_phase s' = lt_phase ?s1" "lt_queue s' = lt_queue ?s1" "lt_fixed s' = lt_fixed ?s1"
    "set (lt_running s') \<subseteq> set (lt_running ?s1)" "lt_deadline_hit ?s1 \<longrightarrow> lt_deadline_hit s'" by blast
  have c: "consume_queue c s = Some s'" unfolding consume_queue_def lite_consume_def m using s'(1) by simp
  have "s' = s" if "lt_running s = []"
  proof -
    from that assms(2,3) have "completed_in (lt_queue s) = []" "emissions_in (lt_queue s) = []" by (auto simp: queue_ok_def emitters_ok_def)
    then have "lt_queue s = []" by (rule no_signals)
    then show ?thesis using c by (cases s) (simp add: consume_queue_def lite_consume_def lite_merge_emissions_def)
  qed
  with that [OF c s'(2,3)] s'(4-8) show ?thesis by (simp add: lt_fixed_def)
qed


section \<open>Planning\<close>

definition with_debounce :: "debounce_controller \<Rightarrow> lite_session \<Rightarrow> lite_session" where
  "with_debounce d s = s\<lparr>lt_debounce := d\<rparr>"

text \<open>There is nothing to launch an operator for.\<close>

definition lite_quiet :: "pyclass list \<Rightarrow> capability_view \<Rightarrow> operator_class \<Rightarrow> lite_session \<Rightarrow> bool" where
  "lite_quiet present caps x s \<longleftrightarrow> is_tripped (op_id x) (lt_breaker s) \<or> \<not> lite_ready x present (available_types caps) \<or>
     (lite_has_run (op_id x) (lt_state s) \<and> (\<not> rerun_on_new_data (op_policy x) \<or> \<not> lite_relevant x (plan_delta x caps s)))"

definition retry_lost :: "operator_id \<Rightarrow> armed_retry \<Rightarrow> lite_session \<Rightarrow> lite_session" where
  "retry_lost oid a s = s\<lparr>lt_retries := debounce_clear oid (lt_retries s), lt_armed := (lt_armed s)(oid := None),
     lt_failed_attempts := (lt_failed_attempts s)(oid := None), lt_failures := (lt_failures s)(oid \<mapsto> ar_error a),
     lt_state := lite_advance_watermark oid (ar_observed a) (lt_state s),
     lt_events := lt_events s @ [run_event oid RunFailed (ar_attempts a) (Some (ar_error a)) s]\<rparr>"

lemma with_debounce_same: "with_debounce (lt_debounce s) s = s" "p\<lparr>pn_session := with_debounce (lt_debounce (pn_session p)) (pn_session p)\<rparr> = p"
  by (simp_all add: with_debounce_def)

lemma plan_operator_cases:
  assumes "plan_operator present caps x p = Some p'"
  obtains (skipped) "p' = p" and "op_id x \<in> fst ` set (lt_running (pn_session p)) \<or> is_tripped (op_id x) (lt_breaker (pn_session p)) \<or>
        \<not> is_scheduled (op_id x) (lt_retries (pn_session p)) \<and> lite_quiet present caps x (pn_session p)"
  | (lost) a where "lt_armed (pn_session p) (op_id x) = Some a" and "\<not> lite_ready x present (available_types caps)"
      and "p' = p\<lparr>pn_session := retry_lost (op_id x) a (pn_session p)\<rparr>"
  | (launched) delta retry d where "op_id x \<notin> fst ` set (lt_running (pn_session p))" and "\<not> is_tripped (op_id x) (lt_breaker (pn_session p))"
      and "retry \<longleftrightarrow> is_scheduled (op_id x) (lt_retries (pn_session p))"
      and "p' = add_runnable x delta retry (p\<lparr>pn_session := with_debounce d (pn_session p)\<rparr>)"
  | (later) due d where "p' = track (Some due) (p\<lparr>pn_session := with_debounce d (pn_session p)\<rparr>)"
proof -
  let ?s = "pn_session p" and ?oid = "op_id x"
  show ?thesis
  proof (cases "?oid \<in> fst ` set (lt_running ?s) \<or> is_tripped ?oid (lt_breaker ?s)")
    case True
    with assms have "p' = p" by (auto simp: plan_operator_def)
    with skipped True show ?thesis by blast
  next
    case free: False
    let ?ready = "lite_ready x present (available_types caps)"
    show ?thesis
    proof (cases "is_scheduled ?oid (lt_retries ?s)")
      case True
      with free assms have pl: "plan_retry x ?ready caps p = Some p'" by (simp add: plan_operator_def Let_def)
      show ?thesis
      proof (cases ?ready)
        case False
        with pl obtain a where a: "lt_armed ?s ?oid = Some a" by (auto simp: plan_retry_def Let_def split: option.splits)
        with False pl have "p' = p\<lparr>pn_session := retry_lost ?oid a ?s\<rparr>"
          by (simp add: plan_retry_def retry_lost_def record_terminal_failure_def publish_run_eq run_event_def Let_def)
        with lost a False show ?thesis by blast
      next
        case ready: True
        show ?thesis
        proof (cases "is_due (lt_clock ?s) ?oid (lt_retries ?s)")
          case due: True
          with ready pl have "p' = add_runnable x (plan_delta x caps ?s) True (p\<lparr>pn_session := with_debounce (lt_debounce ?s) ?s\<rparr>)"
            by (simp add: plan_retry_def Let_def with_debounce_same)
          with launched free True show ?thesis by blast
        next
          case False
          from True obtain t where "db_due_at (lt_retries ?s) ?oid = Some t" by (auto simp: is_scheduled_def)
          with ready False pl have "p' = track (Some t) (p\<lparr>pn_session := with_debounce (lt_debounce ?s) ?s\<rparr>)"
            by (simp add: plan_retry_def Let_def with_debounce_same)
          with later show ?thesis by blast
        qed
      qed
    next
      case unarmed: False
      show ?thesis
      proof (cases "lite_quiet present caps x ?s")
        case True
        with free unarmed assms have "p' = p" by (auto simp: plan_operator_def plan_rerun_def lite_quiet_def Let_def split: if_splits)
        with skipped unarmed True show ?thesis by blast
      next
        case loud: False
        show ?thesis
        proof (cases "lite_has_run ?oid (lt_state ?s)")
          case False
          have "lite_ready x present (available_types caps)" using loud by (simp add: lite_quiet_def)
          with False free unarmed assms have "p' = add_runnable x (plan_delta x caps ?s) False p" by (auto simp: plan_operator_def Let_def)
          then have "p' = add_runnable x (plan_delta x caps ?s) False (p\<lparr>pn_session := with_debounce (lt_debounce ?s) ?s\<rparr>)"
            by (simp add: with_debounce_def)
          then show ?thesis using free unarmed by (intro launched [where retry = False]) simp_all
        next
          case True
          with free unarmed assms loud have p': "p' = plan_rerun x caps p" and rel: "rerun_on_new_data (op_policy x)" "lite_relevant x (plan_delta x caps ?s)"
            by (simp_all add: plan_operator_def lite_quiet_def Let_def)
          define d where "d = (if is_scheduled ?oid (lt_debounce ?s) then lt_debounce ?s
             else debounce_schedule (lt_clock ?s) ?oid (debounce (op_policy x)) (lt_debounce ?s))"
          have "is_scheduled ?oid d" by (simp add: d_def is_scheduled_def debounce_schedule_def Let_def)
          then obtain t where t: "db_due_at d ?oid = Some t" by (auto simp: is_scheduled_def)
          have "(if is_scheduled ?oid (lt_debounce ?s) then ?s
                  else ?s\<lparr>lt_debounce := debounce_schedule (lt_clock ?s) ?oid (debounce (op_policy x)) (lt_debounce ?s)\<rparr>) = with_debounce d ?s"
            by (simp add: with_debounce_def d_def)
          with p' rel t have "p' = (if is_due (lt_clock ?s) ?oid d then add_runnable x (plan_delta x caps ?s) False (p\<lparr>pn_session := with_debounce d ?s\<rparr>)
             else track (Some t) (p\<lparr>pn_session := with_debounce d ?s\<rparr>))"
            by (simp only: plan_rerun_def Let_def) (simp add: with_debounce_def)
          then show ?thesis using free unarmed later [of t d] launched [where retry = False and d = d] by (cases "is_due (lt_clock ?s) ?oid d") simp_all
        qed
      qed
    qed
  qed
qed


text \<open>What planning leaves alone.\<close>

definition plan_frame :: "lite_session \<Rightarrow> lite_session \<Rightarrow> bool" where
  "plan_frame s s' \<longleftrightarrow> lt_running s' = lt_running s \<and> lt_queue s' = lt_queue s \<and> lt_operators s' = lt_operators s \<and>
     lt_deadline s' = lt_deadline s \<and> lt_clock s' = lt_clock s \<and> lt_breaker s' = lt_breaker s \<and> lt_deadline_hit s' = lt_deadline_hit s \<and>
     dom (lt_armed s') \<subseteq> dom (lt_armed s) \<and> ls_revision (lt_state s') = ls_revision (lt_state s) \<and> ls_entries (lt_state s') = ls_entries (lt_state s) \<and>
     lt_prev_caps s' = lt_prev_caps s \<and> lt_activator s' = lt_activator s \<and> lt_by_id s' = lt_by_id s"

definition runnable_ok :: "lite_session \<Rightarrow> lite_runnable \<Rightarrow> bool" where
  "runnable_ok s rn \<longleftrightarrow> rn_operator rn \<in> set (lt_operators s) \<and> op_id (rn_operator rn) \<notin> fst ` set (lt_running s) \<and>
     \<not> is_tripped (op_id (rn_operator rn)) (lt_breaker s) \<and> (\<not> rn_is_retry rn \<longrightarrow> op_id (rn_operator rn) \<notin> dom (lt_armed s))"

definition plan_ok :: "lite_plan \<Rightarrow> bool" where
  "plan_ok p \<longleftrightarrow> lite_ok (pn_session p) \<and> (\<forall>rn \<in> set (pn_runnable p). runnable_ok (pn_session p) rn)"

lemma frame_refl: "plan_frame s s"
  by (simp add: plan_frame_def)

lemma frame_trans: "plan_frame s s' \<Longrightarrow> plan_frame s' s'' \<Longrightarrow> plan_frame s s''"
  unfolding plan_frame_def by (metis subset_trans)

lemma frame_debounce: "plan_frame s (with_debounce d s)"
  by (simp add: plan_frame_def with_debounce_def)

lemma frame_runnable: "plan_frame s s' \<Longrightarrow> runnable_ok s rn \<Longrightarrow> runnable_ok s' rn"
  unfolding plan_frame_def runnable_ok_def by (metis subsetD)

lemma debounce_ok: "lite_ok s \<Longrightarrow> lite_ok (with_debounce d s)"
  by (simp add: lite_ok_def lt_inv_defs with_debounce_def)

lemma frame_lost: "plan_frame s (retry_lost oid a s)"
  by (auto simp: plan_frame_def retry_lost_def lite_advance_watermark_def)

lemma lost_ok:
  assumes "lite_ok s" and "lt_armed s oid = Some a"
  shows "lite_ok (retry_lost oid a s)"
proof -
  have "lt_ids (retry_lost oid a s)" "lt_budget (retry_lost oid a s)" "lt_bounded (retry_lost oid a s)"
    using assms(1) by (simp_all add: lite_ok_def lt_ids_def lt_budget_def lt_bounded_def retry_lost_def)
  moreover have "lt_known (retry_lost oid a s)" using assms(1) unfolding lite_ok_def lt_known_def retry_lost_def by (simp, blast)
  moreover have "lt_windows (retry_lost oid a s)" using assms(1) by (auto simp: lite_ok_def lt_windows_def retry_lost_def debounce_clear_def)
  moreover have "lt_data (retry_lost oid a s)" using assms by (simp add: lite_ok_def lt_data_def retry_lost_def advanced_ok)
  moreover have "lt_mirrored (retry_lost oid a s)" using assms by (simp add: lite_ok_def lt_mirrored_def retry_lost_def read_snoc)
  moreover have "lt_reported (retry_lost oid a s)" using assms by (auto simp: lite_ok_def lt_reported_def retry_lost_def read_snoc)
  ultimately show ?thesis by (simp add: lite_ok_def)
qed

lemma track_same [simp]: "pn_session (track due p) = pn_session p" "pn_runnable (track due p) = pn_runnable p"
  by (simp_all add: track_def split: option.split)

lemma track_soonest: "pn_soonest (track (Some due) p) \<noteq> None"
  by (simp add: track_def)

lemma plan_operator_ok:
  assumes p: "plan_ok p" and x: "x \<in> set (lt_operators (pn_session p))"
  shows "\<exists>p'. plan_operator present caps x p = Some p' \<and> plan_ok p' \<and> plan_frame (pn_session p) (pn_session p') \<and> lt_phase (pn_session p') = lt_phase (pn_session p)"
proof -
  let ?s = "pn_session p"
  have ok: "lite_ok ?s" and rs: "\<forall>rn \<in> set (pn_runnable p). runnable_ok ?s rn" using p by (simp_all add: plan_ok_def)
  have "lt_armed ?s (op_id x) \<noteq> None" if "is_scheduled (op_id x) (lt_retries ?s)"
    using ok that unfolding lite_ok_def lt_windows_def is_scheduled_def by blast
  then obtain p' where p': "plan_operator present caps x p = Some p'"
    by (fastforce simp: plan_operator_def plan_retry_def Let_def)
  have keep: "\<forall>rn \<in> set (pn_runnable p). runnable_ok s' rn" if "plan_frame ?s s'" for s'
    using rs frame_runnable [OF that] by blast
  from p' have "plan_ok p' \<and> plan_frame ?s (pn_session p') \<and> lt_phase (pn_session p') = lt_phase ?s"
  proof (cases rule: plan_operator_cases)
    case skipped
    with p show ?thesis by (simp add: frame_refl)
  next
    case (lost a)
    with lost_ok [OF ok lost(1)] keep [OF frame_lost] frame_lost show ?thesis by (simp add: plan_ok_def) (simp add: retry_lost_def)
  next
    case (launched delta retry d)
    have "runnable_ok ?s \<lparr>rn_operator = x, rn_delta = delta, rn_is_retry = retry\<rparr>"
      using launched(1-3) x ok by (auto simp: runnable_ok_def is_scheduled_def lite_ok_def lt_windows_def)
    from frame_runnable [OF frame_debounce this] launched(4) debounce_ok [OF ok] keep [OF frame_debounce] frame_debounce
    show ?thesis by (auto simp: plan_ok_def add_runnable_def) (simp add: with_debounce_def)
  next
    case (later due d)
    with debounce_ok [OF ok] keep [OF frame_debounce] frame_debounce show ?thesis by (simp add: plan_ok_def) (simp add: with_debounce_def)
  qed
  with p' show ?thesis by blast
qed

lemma plan_operators_ok:
  "plan_ok p \<Longrightarrow> set xs \<subseteq> set (lt_operators (pn_session p)) \<Longrightarrow>
     \<exists>p'. plan_operators present caps xs p = Some p' \<and> plan_ok p' \<and> plan_frame (pn_session p) (pn_session p') \<and>
       lt_phase (pn_session p') = lt_phase (pn_session p)"
proof (induction present caps xs p rule: plan_operators.induct)
  case (1 present caps p)
  then show ?case by (simp add: frame_refl)
next
  case (2 present caps x xs p)
  from plan_operator_ok [OF 2(2), of x present caps] 2(3) obtain p1 where p1: "plan_operator present caps x p = Some p1" "plan_ok p1"
    "plan_frame (pn_session p) (pn_session p1)" "lt_phase (pn_session p1) = lt_phase (pn_session p)" by auto
  have "set xs \<subseteq> set (lt_operators (pn_session p1))" using 2(3) p1(3) by (simp add: plan_frame_def)
  from 2(1) [OF p1(1,2) this] p1 frame_trans show ?case by fastforce
qed


section \<open>Launching\<close>

definition launchable :: "lite_session \<Rightarrow> lite_runnable \<Rightarrow> bool" where
  "launchable s rn \<longleftrightarrow> rn_operator rn \<in> set (lt_operators s) \<and> \<not> is_tripped (op_id (rn_operator rn)) (lt_breaker s) \<and>
     (\<not> rn_is_retry rn \<longrightarrow> op_id (rn_operator rn) \<notin> dom (lt_armed s)) \<and>
     (\<forall>r. map_of (lt_running s) (op_id (rn_operator rn)) = Some r \<longrightarrow> \<not> lr_finished r)"

lemma runnable_launchable: "runnable_ok s rn \<Longrightarrow> launchable s rn"
  using map_of_eq_None_iff [of "lt_running s" "op_id (rn_operator rn)"] by (simp add: runnable_ok_def launchable_def)

lemma launch_cases:
  obtains bound clipped d where "bound + lt_clock s \<le> (case lt_deadline s of None \<Rightarrow> bound + lt_clock s | Some t \<Rightarrow> t)"
    and "lite_launch c caps observed rn s = s\<lparr>lt_prev_caps := (lt_prev_caps s)(op_id (rn_operator rn) \<mapsto> map fst (cv_available caps)),
       lt_running := AList.update (op_id (rn_operator rn))
         \<lparr>lr_observed = observed, lr_until = lt_clock s + bound, lr_clipped = clipped, lr_finished = False\<rparr> (lt_running s),
       lt_retries := (if rn_is_retry rn then debounce_clear (op_id (rn_operator rn)) (lt_retries s) else lt_retries s),
       lt_armed := (if rn_is_retry rn then (lt_armed s)(op_id (rn_operator rn) := None) else lt_armed s),
       lt_debounce := d\<rparr>"
proof -
  let ?timeout = "lite_timeout_for c (rn_operator rn)"
  let ?clipped = "case lt_deadline s of None \<Rightarrow> False | Some d \<Rightarrow> d - lt_clock s < ?timeout"
  let ?bound = "case lt_deadline s of None \<Rightarrow> ?timeout | Some d \<Rightarrow> if ?clipped then d - lt_clock s else ?timeout"
  let ?d = "if rn_is_retry rn then lt_debounce s else debounce_clear (op_id (rn_operator rn)) (lt_debounce s)"
  show ?thesis
  proof (rule that [where bound = ?bound and clipped = ?clipped and d = ?d])
    show "?bound + lt_clock s \<le> (case lt_deadline s of None \<Rightarrow> ?bound + lt_clock s | Some t \<Rightarrow> t)" by (auto split: option.split)
  qed (simp add: lite_launch_def Let_def)
qed

lemma keys_update: "fst ` set (AList.update k v xs) = insert k (fst ` set xs)"
  by (simp add: dom_update)

lemma update_members: "p \<in> set (AList.update k v xs) \<Longrightarrow> p = (k, v) \<or> p \<in> set xs"
  by (induction xs) (auto split: if_splits)

lemma lite_launch_ok:
  assumes "lite_ok s" and "launchable s rn" and "observed \<le> ls_revision (lt_state s)"
  shows "lite_ok (lite_launch c caps observed rn s)"
proof (rule launch_cases [of s c caps observed rn])
  fix bound clipped d
  assume bound: "bound + lt_clock s \<le> (case lt_deadline s of None \<Rightarrow> bound + lt_clock s | Some t \<Rightarrow> t)"
    and eq: "lite_launch c caps observed rn s = s\<lparr>lt_prev_caps := (lt_prev_caps s)(op_id (rn_operator rn) \<mapsto> map fst (cv_available caps)),
       lt_running := AList.update (op_id (rn_operator rn))
         \<lparr>lr_observed = observed, lr_until = lt_clock s + bound, lr_clipped = clipped, lr_finished = False\<rparr> (lt_running s),
       lt_retries := (if rn_is_retry rn then debounce_clear (op_id (rn_operator rn)) (lt_retries s) else lt_retries s),
       lt_armed := (if rn_is_retry rn then (lt_armed s)(op_id (rn_operator rn) := None) else lt_armed s),
       lt_debounce := d\<rparr>"
  let ?s = "lite_launch c caps observed rn s"
  have "lt_ids ?s" "lt_mirrored ?s" using assms(1) by (simp_all add: eq lite_ok_def lt_ids_def lt_mirrored_def)
  moreover have "lt_known ?s" using assms(1,2)
    by (cases "rn_is_retry rn") (auto simp: eq lite_ok_def lt_known_def keys_update launchable_def distinct_update)
  moreover have "lt_windows ?s" using assms(1,2)
    by (cases "rn_is_retry rn") (auto simp: eq lite_ok_def lt_windows_def keys_update launchable_def debounce_clear_def)
  moreover have "lt_budget ?s" using assms(1,2)
    by (auto simp: eq lite_ok_def lt_budget_def keys_update launchable_def is_tripped_def split: option.splits)
  moreover have "lt_data ?s" using assms(1,3)
    by (cases "rn_is_retry rn") (auto simp: eq lite_ok_def lt_data_def dest!: update_members)
  moreover have "lt_bounded ?s" using assms(1) bound by (auto simp: eq lite_ok_def lt_bounded_def dest!: update_members)
  moreover have "lt_reported ?s" using assms(1,2)
    by (cases "rn_is_retry rn") (auto simp: eq lite_ok_def lt_reported_def keys_update launchable_def)
  ultimately show ?thesis by (simp add: lite_ok_def)
qed


lemma launch_keeps:
  "lt_queue (lite_launch c caps observed rn s) = lt_queue s" "lt_state (lite_launch c caps observed rn s) = lt_state s"
  "lt_phase (lite_launch c caps observed rn s) = lt_phase s" "lt_operators (lite_launch c caps observed rn s) = lt_operators s"
  "lt_breaker (lite_launch c caps observed rn s) = lt_breaker s" "lt_deadline_hit (lite_launch c caps observed rn s) = lt_deadline_hit s"
  "lt_running (lite_launch c caps observed rn s) \<noteq> []" "lt_fixed (lite_launch c caps observed rn s) = lt_fixed s"
  "lt_clock (lite_launch c caps observed rn s) = lt_clock s"
  by (auto simp: lite_launch_def lt_fixed_def Let_def)

lemma launch_running:
  obtains r where "lt_running (lite_launch c caps observed rn s) = AList.update (op_id (rn_operator rn)) r (lt_running s)" and "\<not> lr_finished r"
  by (simp add: lite_launch_def Let_def)

lemma launch_armed: "dom (lt_armed (lite_launch c caps observed rn s)) \<subseteq> dom (lt_armed s)"
  by (auto simp: lite_launch_def Let_def split: if_splits)

lemma launch_signals:
  assumes "launchable s rn" and "queue_ok qs (lt_running s)" and "emitters_ok qs (lt_running s)"
  shows "queue_ok qs (lt_running (lite_launch c caps observed rn s)) \<and> emitters_ok qs (lt_running (lite_launch c caps observed rn s))"
proof (rule launch_running [of c caps observed rn s])
  fix r
  assume r: "lt_running (lite_launch c caps observed rn s) = AList.update (op_id (rn_operator rn)) r (lt_running s)" "\<not> lr_finished r"
  have "{oid. \<exists>r'. ((map_of (lt_running s))(op_id (rn_operator rn) \<mapsto> r)) oid = Some r' \<and> lr_finished r'} =
      {oid. \<exists>r'. map_of (lt_running s) oid = Some r' \<and> lr_finished r'}"
    using assms(1) r(2) by (auto simp: launchable_def)
  with assms(2,3) show ?thesis by (auto simp: r(1) queue_ok_def emitters_ok_def keys_update update_conv)
qed

lemma launch_launchable:
  assumes "launchable s rn'"
  shows "launchable (lite_launch c caps observed rn s) rn'"
proof (rule launch_running [of c caps observed rn s])
  fix r
  assume r: "lt_running (lite_launch c caps observed rn s) = AList.update (op_id (rn_operator rn)) r (lt_running s)" "\<not> lr_finished r"
  have "op_id (rn_operator rn') \<notin> dom (lt_armed (lite_launch c caps observed rn s))" if "op_id (rn_operator rn') \<notin> dom (lt_armed s)"
    using that launch_armed by blast
  with assms r show ?thesis by (auto simp: launchable_def launch_keeps update_conv)
qed

lemma launches_ok:
  "lite_ok s \<Longrightarrow> \<forall>rn \<in> set rns. launchable s rn \<Longrightarrow> observed \<le> ls_revision (lt_state s) \<Longrightarrow>
     queue_ok (lt_queue s) (lt_running s) \<Longrightarrow> emitters_ok (lt_queue s) (lt_running s) \<Longrightarrow> s' = fold (lite_launch c caps observed) rns s \<Longrightarrow>
     lite_ok s' \<and> queue_ok (lt_queue s') (lt_running s') \<and> emitters_ok (lt_queue s') (lt_running s') \<and> lt_phase s' = lt_phase s \<and>
       lt_deadline_hit s' = lt_deadline_hit s \<and> (lt_running s' = [] \<longrightarrow> rns = []) \<and> lt_fixed s' = lt_fixed s \<and> lt_clock s' = lt_clock s"
proof (induction rns arbitrary: s)
  case (Cons rn rns)
  let ?s = "lite_launch c caps observed rn s"
  have l: "launchable s rn" using Cons.prems(2) by simp
  have later: "\<forall>rn \<in> set rns. launchable ?s rn" using Cons.prems(2) launch_launchable by simp
  have nonempty: "lt_running (fold (lite_launch c caps observed) rns s) \<noteq> []" if "lt_running s \<noteq> []" for s
    using that by (induction rns arbitrary: s) (simp_all add: launch_keeps)
  from Cons.IH [OF lite_launch_ok [OF Cons.prems(1) l Cons.prems(3)] later] launch_signals [OF l Cons.prems(4,5)] Cons.prems(3,6) nonempty [of ?s]
  show ?case by (simp add: launch_keeps)
qed simp

section \<open>A pass\<close>

lemma refresh_frame:
  assumes "lite_refresh_capabilities c activates view s = (caps, s')"
  obtains a pub evs where "s' = s\<lparr>lt_activator := a, lt_published_caps := pub, lt_events := lt_events s @ evs\<rparr>"
    and "\<forall>ev \<in> set evs. \<exists>cid ok t. ev = CapabilityActivated cid ok t"
    and "lite_refresh_activator (lite_registered c) (lc_catalog c) (lc_namespace c) activates view (lt_activator s) = (caps, a)"
proof -
  define pc where "pc = (\<lambda>(cid, ok) s. if cid \<in> set (lt_published_caps s) then s
    else lite_publish (CapabilityActivated cid ok (lt_now s)) (s\<lparr>lt_published_caps := cid # lt_published_caps s\<rparr>))"
  have f: "\<exists>pub evs. fold pc os s = s\<lparr>lt_published_caps := pub, lt_events := lt_events s @ evs\<rparr> \<and>
      (\<forall>ev \<in> set evs. \<exists>cid ok t. ev = CapabilityActivated cid ok t)" for os and s :: lite_session
  proof (induction os arbitrary: s)
    case Nil
    have "fold pc [] s = s\<lparr>lt_published_caps := lt_published_caps s, lt_events := lt_events s @ []\<rparr>" by simp
    then show ?case by (metis empty_iff empty_set)
  next
    case (Cons o1 os)
    obtain cid ok where o1: "o1 = (cid, ok)" by (cases o1)
    show ?case
    proof (cases "cid \<in> set (lt_published_caps s)")
      case True
      with o1 Cons [of s] show ?thesis by (simp add: pc_def)
    next
      case False
      let ?s = "s\<lparr>lt_published_caps := cid # lt_published_caps s, lt_events := lt_events s @ [CapabilityActivated cid ok (lt_now s)]\<rparr>"
      from False o1 have "fold pc (o1 # os) s = fold pc os ?s" by (simp add: pc_def lite_publish_def)
      moreover from Cons [of ?s] obtain pub evs where "fold pc os ?s = ?s\<lparr>lt_published_caps := pub, lt_events := lt_events ?s @ evs\<rparr>"
        "\<forall>ev \<in> set evs. \<exists>cid ok t. ev = CapabilityActivated cid ok t" by blast
      ultimately have "fold pc (o1 # os) s = s\<lparr>lt_published_caps := pub, lt_events := lt_events s @ (CapabilityActivated cid ok (lt_now s) # evs)\<rparr> \<and>
          (\<forall>ev \<in> set (CapabilityActivated cid ok (lt_now s) # evs). \<exists>cid ok t. ev = CapabilityActivated cid ok t)" by simp
      then show ?thesis by blast
    qed
  qed
  obtain view' a where ra: "lite_refresh_activator (lite_registered c) (lc_catalog c) (lc_namespace c) activates view (lt_activator s) = (view', a)"
    by fastforce
  define os where "os = map (\<lambda>cid. (cid, True)) (sort (map fst (la_activated a))) @ map (\<lambda>cid. (cid, False)) (sort (la_failed a))"
  from assms ra have "s' = fold pc os (s\<lparr>lt_activator := a\<rparr>)"
    by (simp add: lite_refresh_capabilities_def pc_def os_def Let_def)
  moreover have "view' = caps" using assms ra by (simp add: lite_refresh_capabilities_def Let_def)
  ultimately show ?thesis using f [of os "s\<lparr>lt_activator := a\<rparr>"] that ra by auto
qed

lemma capability_events:
  assumes "\<forall>ev \<in> set evs. \<exists>cid ok t. ev = CapabilityActivated cid ok t"
  shows "added_in (es @ evs) = added_in es" "failures_in (es @ evs) = failures_in es" "last_outcome (es @ evs) = last_outcome es"
  using assms by (induction evs arbitrary: es rule: rev_induct; fastforce simp: read_snoc simp flip: append_assoc)+


text \<open>A plan that launches nothing and waits for nothing leaves every operator lite_quiet.\<close>

lemma quiet_same:
  assumes "lt_breaker s' = lt_breaker s" and "ls_entries (lt_state s') = ls_entries (lt_state s)"
    and "ls_watermarks (lt_state s') (op_id x) = ls_watermarks (lt_state s) (op_id x)" and "lt_prev_caps s' = lt_prev_caps s"
  shows "lite_quiet present caps x s' = lite_quiet present caps x s"
  using assms by (simp add: lite_quiet_def plan_delta_def lite_delta_for_def lite_has_run_def)

lemma plan_quiet_kept:
  assumes "plan_operator present caps y p = Some p'" and "op_id y \<noteq> op_id x"
  shows "lite_quiet present caps x (pn_session p') = lite_quiet present caps x (pn_session p)"
  using assms(1)
proof (cases rule: plan_operator_cases)
  case (lost a)
  with assms(2) show ?thesis by (intro quiet_same) (simp_all add: retry_lost_def lite_advance_watermark_def)
next
  case (launched delta retry d)
  then show ?thesis by (intro quiet_same) (simp_all add: add_runnable_def with_debounce_def)
next
  case (later due d)
  then show ?thesis by (intro quiet_same) (simp_all add: with_debounce_def)
qed simp

lemma plans_quiet_kept:
  "plan_operators present caps ys p = Some p' \<Longrightarrow> op_id x \<notin> op_id ` set ys \<Longrightarrow>
     lite_quiet present caps x (pn_session p') = lite_quiet present caps x (pn_session p)"
proof (induction ys arbitrary: p)
  case (Cons y ys)
  then obtain p1 where p1: "plan_operator present caps y p = Some p1" "plan_operators present caps ys p1 = Some p'"
    by (auto split: option.splits)
  from Cons.IH [OF p1(2)] plan_quiet_kept [OF p1(1), of x] Cons.prems(2) show ?case by auto
qed simp

lemma plan_operator_grows:
  assumes "plan_operator present caps y p = Some p'" and "pn_runnable p' = []" and "pn_soonest p' = None"
  shows "pn_runnable p = [] \<and> pn_soonest p = None"
  using assms(1)
proof (cases rule: plan_operator_cases)
  case (later due d)
  with assms(3) track_soonest show ?thesis by metis
qed (use assms(2,3) in \<open>auto simp: add_runnable_def\<close>)

lemma plans_grow:
  "plan_operators present caps ys p = Some p' \<Longrightarrow> pn_runnable p' = [] \<Longrightarrow> pn_soonest p' = None \<Longrightarrow> pn_runnable p = [] \<and> pn_soonest p = None"
proof (induction ys arbitrary: p)
  case (Cons y ys)
  then obtain p1 where p1: "plan_operator present caps y p = Some p1" "plan_operators present caps ys p1 = Some p'"
    by (auto split: option.splits)
  from Cons.IH [OF p1(2) Cons.prems(2,3)] plan_operator_grows [OF p1(1)] show ?case by blast
qed simp

lemma plan_idle:
  "plan_operators present caps xs p = Some p' \<Longrightarrow> pn_runnable p' = [] \<Longrightarrow> pn_soonest p' = None \<Longrightarrow> plan_ok p \<Longrightarrow>
     lt_running (pn_session p) = [] \<Longrightarrow> set xs \<subseteq> set (lt_operators (pn_session p)) \<Longrightarrow> distinct (map op_id xs) \<Longrightarrow>
     \<forall>x \<in> set xs. lite_quiet present caps x (pn_session p') \<and> op_id x \<notin> dom (lt_armed (pn_session p'))"
proof (induction xs arbitrary: p)
  case (Cons x xs)
  from Cons.prems(1) obtain p1 where p1: "plan_operator present caps x p = Some p1" "plan_operators present caps xs p1 = Some p'"
    by (auto split: option.splits)
  have ok: "plan_ok p1" "plan_frame (pn_session p) (pn_session p1)" using plan_operator_ok [OF Cons.prems(4), of x present caps] Cons.prems(6) p1(1) by auto
  have sub: "set xs \<subseteq> set (lt_operators (pn_session p1))" "lt_running (pn_session p1) = []"
    using ok(2) Cons.prems(5,6) by (auto simp: plan_frame_def)
  from plan_operators_ok [OF ok(1) sub(1), of present caps] p1(2) have fr: "plan_frame (pn_session p1) (pn_session p')" by auto
  have w: "lt_windows (pn_session p)" using Cons.prems(4) by (simp add: plan_ok_def lite_ok_def)
  have "lite_quiet present caps x (pn_session p1) \<and> op_id x \<notin> dom (lt_armed (pn_session p1))"
    using p1(1)
  proof (cases rule: plan_operator_cases)
    case skipped
    then have "is_tripped (op_id x) (lt_breaker (pn_session p)) \<or>
        \<not> is_scheduled (op_id x) (lt_retries (pn_session p)) \<and> lite_quiet present caps x (pn_session p)" using Cons.prems(5) by simp
    with skipped(1) w show ?thesis unfolding lt_windows_def is_scheduled_def lite_quiet_def by blast
  next
    case (lost a)
    then show ?thesis by (simp add: lite_quiet_def retry_lost_def)
  next
    case (launched delta retry d)
    then show ?thesis using plans_grow [OF p1(2) Cons.prems(2,3)] by (simp add: add_runnable_def)
  next
    case (later due d)
    with plans_grow [OF p1(2) Cons.prems(2,3)] track_soonest show ?thesis by metis
  qed
  moreover have "op_id x \<notin> op_id ` set xs" using Cons.prems(7) by simp
  ultimately have "lite_quiet present caps x (pn_session p') \<and> op_id x \<notin> dom (lt_armed (pn_session p'))"
    using plans_quiet_kept [OF p1(2)] fr by (auto simp: plan_frame_def)
  with Cons.IH [OF p1(2) Cons.prems(2,3) ok(1) sub(2,1)] Cons.prems(7) show ?case by simp
qed simp

text \<open>The view of the capabilities that the last refresh left.\<close>

definition lite_caps :: "lite_config \<Rightarrow> lite_session \<Rightarrow> capability_view" where
  "lite_caps c s =
     \<lparr>cv_available = concat (map (\<lambda>cid. case map_of (la_activated (lt_activator s)) cid of None \<Rightarrow> [] | Some k \<Rightarrow> [(cid, k)])
        (compute_available (lite_registered c) (permitted_capabilities (lc_catalog c) (lc_namespace c)) (lite_present_types (lite_view (lt_state s))))),
      cv_preference = preferred_order (lc_catalog c) (lc_namespace c)\<rparr>"

definition all_quiet :: "lite_config \<Rightarrow> lite_session \<Rightarrow> bool" where
  "all_quiet c s \<longleftrightarrow> lt_running s = [] \<and> lt_armed s = Map.empty \<and> lt_queue s = [] \<and>
     (\<forall>x \<in> set (lt_operators s). lite_quiet (lite_present_types (lite_view (lt_state s))) (lite_caps c s) x s)"

definition signals_ok :: "lite_session \<Rightarrow> bool" where
  "signals_ok s \<longleftrightarrow> queue_ok (lt_queue s) (lt_running s) \<and> emitters_ok (lt_queue s) (lt_running s)"

lemma pass_ok:
  assumes "lite_ok s" and "signals_ok s"
  shows "\<exists>s'. lite_pass c activates s = Some s' \<and> lite_ok s' \<and> signals_ok s' \<and> lt_deadline_hit s' = lt_deadline_hit s \<and>
     lt_phase s' \<notin> {AtHead, Cancelling, Ended} \<and> (lt_phase s' = Leaving \<longrightarrow> all_quiet c s') \<and>
     lt_fixed s' = lt_fixed s \<and> lt_clock s' = lt_clock s"
proof -
  let ?view = "lite_view (lt_state s)" and ?rev = "ls_revision (lt_state s)"
  obtain caps s1 where rc: "lite_refresh_capabilities c activates ?view s = (caps, s1)" by fastforce
  from refresh_frame [OF rc] obtain a pub evs where s1: "s1 = s\<lparr>lt_activator := a, lt_published_caps := pub, lt_events := lt_events s @ evs\<rparr>"
    and evs: "\<forall>ev \<in> set evs. \<exists>cid ok t. ev = CapabilityActivated cid ok t"
    and ra: "lite_refresh_activator (lite_registered c) (lc_catalog c) (lc_namespace c) activates ?view (lt_activator s) = (caps, a)" .
  have ok1: "lite_ok s1" using assms(1) by (simp add: s1 lite_ok_def lt_inv_defs capability_events [OF evs])
  have same1: "lt_state s1 = lt_state s" "lt_running s1 = lt_running s" "lt_queue s1 = lt_queue s" "lt_deadline_hit s1 = lt_deadline_hit s" by (simp_all add: s1)
  have caps: "caps = lite_caps c s1"
    using ra by (auto simp: lite_refresh_activator_def lite_caps_def s1 Let_def)
  define present where "present = lite_present_types ?view"
  define p0 where "p0 = \<lparr>pn_runnable = [], pn_soonest = None, pn_session = s1\<rparr>"
  have p0: "plan_ok p0" "set (lt_operators s1) \<subseteq> set (lt_operators (pn_session p0))" using ok1 by (simp_all add: plan_ok_def p0_def)
  from plan_operators_ok [OF p0, of present caps] obtain p where p: "plan_operators present caps (lt_operators s1) p0 = Some p" "plan_ok p"
    "plan_frame s1 (pn_session p)" by (auto simp: p0_def)
  then have lp: "lite_plan_of ?view caps s1 = Some p" by (simp add: lite_plan_of_def present_def p0_def)
  define s2 where "s2 = fold (lite_launch c caps ?rev) (pn_runnable p) (pn_session p)"
  have launch: "\<forall>rn \<in> set (pn_runnable p). launchable (pn_session p) rn"
    using p(2) runnable_launchable by (simp add: plan_ok_def)
  have sig: "queue_ok (lt_queue (pn_session p)) (lt_running (pn_session p))" "emitters_ok (lt_queue (pn_session p)) (lt_running (pn_session p))"
    using assms(2) p(3) same1 by (simp_all add: signals_ok_def plan_frame_def)
  have rev: "?rev \<le> ls_revision (lt_state (pn_session p))" using p(3) same1(1) by (simp add: plan_frame_def)
  have okp: "lite_ok (pn_session p)" using p(2) by (simp add: plan_ok_def)
  from launches_ok [OF okp launch rev sig s2_def] have s2: "lite_ok s2" "signals_ok s2" "lt_deadline_hit s2 = lt_deadline_hit s"
    "lt_running s2 = [] \<Longrightarrow> pn_runnable p = []" using p(3) same1(4) by (simp_all add: signals_ok_def plan_frame_def)
  have fixed: "lt_fixed s2 = lt_fixed s" "lt_clock s2 = lt_clock s"
    using launches_ok [OF okp launch rev sig s2_def] p(3) by (simp_all add: plan_frame_def lt_fixed_def s1)
  define ph where "ph = (if lt_running s2 \<noteq> [] then AwaitsSignal (map_option (\<lambda>w. lt_clock s2 + w) (lite_wait (pn_soonest p) s2))
    else case lite_wait (pn_soonest p) s2 of Some w \<Rightarrow> AwaitsTimer (lt_clock s2 + w) | None \<Rightarrow> Leaving)"
  have pass: "lite_pass c activates s = Some (s2\<lparr>lt_phase := ph\<rparr>)"
    unfolding lite_pass_def rc Let_def prod.case lp option.case ph_def s2_def by (rule refl)
  have idle: "all_quiet c (s2\<lparr>lt_phase := ph\<rparr>)" if "ph = Leaving"
  proof -
    from that have none: "lt_running s2 = []" "pn_soonest p = None"
      by (auto simp: ph_def lite_wait_def Let_def split: if_splits option.splits)
    with s2(4) have nr: "pn_runnable p = []" by blast
    then have eq: "s2 = pn_session p" by (simp add: s2_def)
    have run: "lt_running (pn_session p0) = []" using none(1) eq p(3) by (simp add: plan_frame_def p0_def)
    have d: "distinct (map op_id (lt_operators s1))" using ok1 by (simp add: lite_ok_def lt_ids_def)
    from plan_idle [OF p(1) nr none(2) p0(1) run p0(2) d]
    have q: "\<forall>x \<in> set (lt_operators s1). lite_quiet present caps x s2 \<and> op_id x \<notin> dom (lt_armed s2)" by (simp only: eq)
    have fr: "lt_operators s2 = lt_operators s1" "lt_activator s2 = lt_activator s1" "lite_view (lt_state s2) = ?view"
      using p(3) same1(1) by (simp_all add: plan_frame_def eq lite_view_def)
    then have cv: "lite_caps c s2 = caps" using caps same1(1) by (simp add: lite_caps_def)
    have "dom (lt_armed s2) \<subseteq> op_id ` set (lt_operators s1)" using s2(1) fr(1) by (simp add: lite_ok_def lt_known_def)
    moreover have "dom (lt_armed s2) \<inter> op_id ` set (lt_operators s1) = {}" using q by blast
    ultimately have "dom (lt_armed s2) = {}" by (simp only: Int_absorb2)
    then have "lt_armed s2 = Map.empty" by (simp only: dom_eq_empty_conv)
    moreover have "lt_queue s2 = []" using s2(2) none(1) no_signals by (simp add: signals_ok_def queue_ok_def emitters_ok_def)
    ultimately have "all_quiet c s2" using q none(1) cv fr by (simp add: all_quiet_def present_def)
    then show ?thesis by (simp add: all_quiet_def lite_caps_def lite_quiet_def plan_delta_def)
  qed
  have "ph \<notin> {AtHead, Cancelling, Ended}" by (auto simp: ph_def split: option.splits)
  moreover have "lite_ok (s2\<lparr>lt_phase := ph\<rparr>)" "signals_ok (s2\<lparr>lt_phase := ph\<rparr>)"
    using s2(1,2) by (simp_all add: lite_ok_def lt_inv_defs signals_ok_def)
  ultimately show ?thesis using pass idle s2(3) fixed by (simp add: lt_fixed_def)
qed


section \<open>Every step\<close>

definition lite_inv :: "lite_config \<Rightarrow> lite_session \<Rightarrow> bool" where
  "lite_inv c s \<longleftrightarrow> lite_ok s \<and> signals_ok s \<and> (lt_phase s \<in> {Leaving, Cancelling, Ended} \<and> \<not> lt_deadline_hit s \<longrightarrow> all_quiet c s) \<and>
     (lt_phase s = Ended \<longrightarrow> lt_running s = [])"

text \<open>What is neither the phase, the clock, the queue nor the deadline flag.\<close>

lemma all_quiet_same:
  assumes "lt_running s' = lt_running s" and "lt_armed s' = lt_armed s" and "lt_queue s' = lt_queue s" and "lt_operators s' = lt_operators s"
    and "lt_state s' = lt_state s" and "lt_activator s' = lt_activator s" and "lt_breaker s' = lt_breaker s" and "lt_prev_caps s' = lt_prev_caps s"
  shows "all_quiet c s' = all_quiet c s"
  using assms by (simp add: all_quiet_def lite_caps_def lite_quiet_def plan_delta_def)

lemma put_inv:
  assumes "lite_inv c s" and "lite_put q s = Some s'"
  shows "lite_inv c s'"
proof (cases q)
  case (LiteEmitted oid d)
  with assms(2) obtain r where r: "map_of (lt_running s) oid = Some r" and s': "s' = s\<lparr>lt_queue := lt_queue s @ [q]\<rparr>"
    by (auto simp: lite_put_def split: option.splits if_splits)
  have snoc: "completed_in (qs @ [q]) = completed_in qs" "emissions_in (qs @ [q]) = emissions_in qs @ [(oid, d)]" for qs
    by (induction qs rule: completed_in.induct) (simp_all add: LiteEmitted)
  have "oid \<in> fst ` set (lt_running s)" using map_of_eq_None_iff [of "lt_running s" oid] r by auto
  moreover have "cut_has_error q" by (simp add: LiteEmitted)
  ultimately have "signals_ok s'" "lt_running s \<noteq> []" using assms(1)
    by (auto simp: lite_inv_def signals_ok_def s' queue_ok_def emitters_ok_def snoc)
  moreover have "lite_ok s'" using assms(1) by (simp add: lite_inv_def s' lite_ok_def lt_inv_defs)
  ultimately show ?thesis using assms(1) by (auto simp: lite_inv_def s' all_quiet_def)
next
  case (LiteCompleted oid err cut_off)
  with assms(2) obtain r where r: "map_of (lt_running s) oid = Some r" "\<not> lr_finished r" "cut_off \<longrightarrow> err \<noteq> None"
    and s': "s' = s\<lparr>lt_running := AList.update oid (r\<lparr>lr_finished := True\<rparr>) (lt_running s), lt_queue := lt_queue s @ [q]\<rparr>"
    by (auto simp: lite_put_def split: option.splits if_splits)
  have snoc: "completed_in (qs @ [q]) = completed_in qs @ [oid]" "emissions_in (qs @ [q]) = emissions_in qs" for qs
    by (induction qs rule: completed_in.induct) (simp_all add: LiteCompleted)
  have mem: "oid \<in> fst ` set (lt_running s)" "(oid, r) \<in> set (lt_running s)" using map_of_eq_None_iff [of "lt_running s" oid] map_of_SomeD [OF r(1)] r(1) by auto
  then have keys: "fst ` set (lt_running s') = fst ` set (lt_running s)" by (auto simp: s' keys_update)
  have "lt_data s'" "lt_bounded s'" using assms(1) mem(2)
    by (fastforce simp: lite_inv_def lite_ok_def lt_data_def lt_bounded_def s' dest!: update_members)+
  moreover have "lt_ids s' \<and> lt_known s' \<and> lt_windows s' \<and> lt_budget s' \<and> lt_mirrored s' \<and> lt_reported s'"
    using assms(1) unfolding lite_inv_def lite_ok_def lt_ids_def lt_known_def lt_windows_def lt_budget_def lt_mirrored_def lt_reported_def keys
    by (simp add: s' distinct_update)
  moreover have "signals_ok s'"
  proof -
    have "map_of (lt_running s') = (map_of (lt_running s))(oid \<mapsto> r\<lparr>lr_finished := True\<rparr>)" by (simp add: s' update_conv)
    then have "{k. \<exists>r'. map_of (lt_running s') k = Some r' \<and> lr_finished r'} = insert oid {k. \<exists>r'. map_of (lt_running s) k = Some r' \<and> lr_finished r'}"
      by auto
    moreover have "oid \<notin> {k. \<exists>r'. map_of (lt_running s) k = Some r' \<and> lr_finished r'}" using r by simp
    moreover have "cut_has_error q" using r(3) by (simp add: LiteCompleted)
    ultimately show ?thesis using assms(1)
      unfolding lite_inv_def signals_ok_def queue_ok_def emitters_ok_def keys by (simp add: s' snoc)
  qed
  moreover have "lt_running s \<noteq> []" using mem by auto
  ultimately show ?thesis using assms(1) by (auto simp: lite_inv_def lite_ok_def s' all_quiet_def)
qed

lemma cancel_fold:
  "fold lite_cancel_one ids s = s\<lparr>lt_failures := fold (\<lambda>oid m. m(oid \<mapsto> cancelled_at_deadline)) ids (lt_failures s),
     lt_events := lt_events s @ map (\<lambda>oid. OperatorRunCompleted oid RunCancelled (attempts_so_far oid s + 1) (Some cancelled_at_deadline) (lt_now s)) ids\<rparr>"
  by (induction ids arbitrary: s) (simp_all add: lite_cancel_one_def lite_publish_def attempts_so_far_def)

lemma cancelled_reads:
  "added_in (evs @ map (\<lambda>oid. OperatorRunCompleted oid RunCancelled (a oid) (Some e) t) ids) = added_in evs"
  "failures_in (evs @ map (\<lambda>oid. OperatorRunCompleted oid RunCancelled (a oid) (Some e) t) ids) = fold (\<lambda>oid m. m(oid \<mapsto> e)) ids (failures_in evs)"
  "last_outcome (evs @ map (\<lambda>oid. OperatorRunCompleted oid RunCancelled (a oid) (Some e) t) ids) oid =
     (if oid \<in> set ids then Some RunCancelled else last_outcome evs oid)"
  by (induction ids arbitrary: evs rule: rev_induct) (simp_all add: read_snoc flip: append_assoc)


lemma fold_dom: "dom (fold (\<lambda>oid m. m(oid \<mapsto> e)) ids f) = dom f \<union> set ids"
  by (induction ids arbitrary: f) auto

lemma finish_inv:
  assumes inv: "lite_inv c s" and ph: "lt_phase s = Cancelling"
  shows "\<exists>s'. lite_finish c s = Some s' \<and> lite_inv c s' \<and> lt_phase s' = Ended \<and> lt_fixed s' = lt_fixed s"
proof -
  have ok: "lite_ok s" "queue_ok (lt_queue s) (lt_running s)" "emitters_ok (lt_queue s) (lt_running s)"
    using inv by (simp_all add: lite_inv_def signals_ok_def)
  from consume_ok [OF ok, of c] obtain s1 where s1: "consume_queue c s = Some s1" "lite_ok s1" "lt_queue s1 = []" "lt_running s = [] \<longrightarrow> s1 = s"
    "lt_deadline_hit s \<longrightarrow> lt_deadline_hit s1" "lt_fixed s1 = lt_fixed s" by blast
  define ids where "ids = sort (map fst (lt_running s1))"
  have ids: "set ids = fst ` set (lt_running s1)" by (simp add: ids_def)
  have lite_quiet: "all_quiet c s1 \<and> ids = []" if "\<not> lt_deadline_hit s"
  proof -
    from that inv ph have "all_quiet c s" by (simp add: lite_inv_def)
    with s1(4) show ?thesis by (auto simp: all_quiet_def ids_def)
  qed
  define s2 where "s2 = (fold lite_cancel_one ids s1)\<lparr>lt_running := []\<rparr>"
  define s3 where "s3 = lite_publish (SessionCompleted (lt_deadline_hit s2) (lt_runs s2) (lt_failures s2) (lt_now s2)) (s2\<lparr>lt_phase := Ended\<rparr>)"
  have fin: "lite_finish c s = Some s3" by (simp add: lite_finish_def s1(1) s3_def s2_def ids_def Let_def)
  have hit: "lt_deadline_hit s1" if "ids \<noteq> []" using lite_quiet that s1(5) by blast
  have s3: "s3 = s1\<lparr>lt_failures := fold (\<lambda>oid m. m(oid \<mapsto> cancelled_at_deadline)) ids (lt_failures s1),
      lt_events := (lt_events s1 @ map (\<lambda>oid. OperatorRunCompleted oid RunCancelled (attempts_so_far oid s1 + 1) (Some cancelled_at_deadline) (lt_now s1)) ids) @
        [SessionCompleted (lt_deadline_hit s2) (lt_runs s2) (lt_failures s2) (lt_now s2)], lt_running := [], lt_phase := Ended\<rparr>"
    by (simp add: s3_def s2_def cancel_fold lite_publish_def)
  have "lt_ids s3" "lt_known s3" "lt_windows s3" "lt_budget s3" "lt_data s3" "lt_bounded s3"
    using s1(2) by (simp_all add: lite_ok_def lt_inv_defs s3)
  moreover have "lt_mirrored s3" using s1(2) by (simp add: lite_ok_def lt_mirrored_def s3 read_snoc cancelled_reads del: append_assoc)
  moreover have "lt_reported s3"
  proof -
    have last: "last_outcome (lt_events s3) oid = (if oid \<in> set ids then Some RunCancelled else last_outcome (lt_events s1) oid)" for oid
      by (simp add: s3 read_snoc cancelled_reads del: append_assoc)
    have out: "dom (lt_armed s1) \<inter> set ids = {}" using s1(2) by (simp add: lite_ok_def lt_windows_def ids)
    have rep: "lt_reported s1" using s1(2) by (simp add: lite_ok_def)
    have "last_outcome (lt_events s3) oid = Some RunRetrying" if "oid \<in> dom (lt_armed s3)" for oid
      using that rep out last [of oid] by (auto simp: lt_reported_def s3)
    moreover have "oid \<in> dom (lt_armed s3)" if "last_outcome (lt_events s3) oid = Some RunRetrying" for oid
      using that rep last [of oid] ids by (auto simp: lt_reported_def s3 split: if_splits)
    moreover have "oid \<in> dom (lt_failures s3)" if "last_outcome (lt_events s3) oid = Some RunFailed" for oid
      using that rep last [of oid] by (auto simp: lt_reported_def s3 fold_dom split: if_splits)
    moreover have "lt_deadline_hit s3" if "last_outcome (lt_events s3) oid = Some RunCancelled" for oid
    proof (cases "oid \<in> set ids")
      case True
      then have "ids \<noteq> []" by auto
      with hit show ?thesis by (simp add: s3)
    next
      case False
      with that last [of oid] have "last_outcome (lt_events s1) oid = Some RunCancelled" by simp
      with rep have "lt_deadline_hit s1" unfolding lt_reported_def by blast
      then show ?thesis by (simp add: s3)
    qed
    ultimately show ?thesis unfolding lt_reported_def by blast
  qed
  ultimately have "lite_ok s3" by (simp add: lite_ok_def)
  moreover have "signals_ok s3" using s1(3) by (simp add: s3 signals_ok_def queue_ok_def emitters_ok_def)
  moreover have "all_quiet c s3" if "\<not> lt_deadline_hit s3"
  proof -
    have "\<not> lt_deadline_hit s" using that s1(5) by (auto simp: s3)
    with lite_quiet have q: "all_quiet c s1" by blast
    then have "lt_running s1 = []" by (simp add: all_quiet_def)
    then have "all_quiet c s3 = all_quiet c s1" by (intro all_quiet_same) (simp_all add: s3)
    with q show ?thesis by simp
  qed
  ultimately have "lite_inv c s3" by (simp add: lite_inv_def s3)
  moreover have "lt_fixed s3 = lt_fixed s" using s1(6) by (simp add: s3 lt_fixed_def)
  ultimately show ?thesis using fin by (simp add: s3)
qed

theorem lite_step_inv:
  assumes "lite_inv c s" and "lite_step c s s'"
  shows "lite_inv c s'"
  using assms(2)
proof (cases rule: lite_step.cases)
  case (time d k)
  have "all_quiet c s' = all_quiet c s" by (intro all_quiet_same) (simp_all add: time)
  with assms(1) time show ?thesis by (simp add: lite_inv_def lite_ok_def lt_inv_defs signals_ok_def)
next
  case (signal q)
  from put_inv [OF assms(1) this] show ?thesis .
next
  case (pass activates)
  have "lite_ok s" "signals_ok s" using assms(1) by (simp_all add: lite_inv_def)
  from pass_ok [OF this, of c activates] pass(3) show ?thesis by (auto simp: lite_inv_def)
next
  case deadline
  with assms(1) show ?thesis by (simp add: lite_inv_def lite_ok_def lt_inv_defs signals_ok_def)
next
  case (take w s1)
  from assms(1) have "lite_ok s" "queue_ok (lt_queue s) (lt_running s)" "emitters_ok (lt_queue s) (lt_running s)"
    by (simp_all add: lite_inv_def signals_ok_def)
  from consume_ok [OF this, of c] take(4) have "lite_ok s1" "queue_ok [] (lt_running s1)" "lt_queue s1 = []" by auto
  with take(1) show ?thesis by (simp add: lite_inv_def lite_ok_def lt_inv_defs signals_ok_def emitters_ok_def)
next
  case (due t)
  with assms(1) show ?thesis by (simp add: lite_inv_def lite_ok_def lt_inv_defs signals_ok_def)
next
  case (slept t)
  with assms(1) show ?thesis by (simp add: lite_inv_def lite_ok_def lt_inv_defs signals_ok_def)
next
  case (leave s1)
  from assms(1) have "lite_ok s" "queue_ok (lt_queue s) (lt_running s)" "emitters_ok (lt_queue s) (lt_running s)"
    by (simp_all add: lite_inv_def signals_ok_def)
  from consume_ok [OF this, of c] leave(3) have s1: "lite_ok s1" "queue_ok [] (lt_running s1)" "lt_queue s1 = []" "lt_running s = [] \<longrightarrow> s1 = s"
    "lt_deadline_hit s \<longrightarrow> lt_deadline_hit s1" by auto
  have q: "all_quiet c s'" if "\<not> lt_deadline_hit s1"
  proof -
    have "all_quiet c s" using that s1(5) assms(1) leave(2) by (auto simp: lite_inv_def)
    moreover from this s1(4) have "s1 = s" by (simp add: all_quiet_def)
    moreover have "all_quiet c s' = all_quiet c s1" by (intro all_quiet_same) (simp_all add: leave(1))
    ultimately show ?thesis by simp
  qed
  with s1 leave(1) show ?thesis by (simp add: lite_inv_def lite_ok_def lt_inv_defs signals_ok_def emitters_ok_def)
next
  case finish
  from finish_inv [OF assms(1) finish(1)] finish(2) show ?thesis by auto
qed

lemma lite_start_inv:
  assumes "lite_start c operators seed clock now = Inr s"
  shows "lite_inv c s"
proof -
  let ?ops = "lite_prune operators (lc_capabilities c)"
  from assms have d: "distinct (map op_id operators)" and s: "s = lite_merge_all seed (lite_blank c ?ops clock now)"
    by (auto simp: lite_start_def check_unique_ids_def Let_def split: sum.splits if_splits)
  have "\<exists>P. ?ops = filter P operators"
  proof (cases "filter (\<lambda>x. op_consumes x \<noteq> []) operators = []")
    case True
    then have "?ops = filter (\<lambda>_. True) operators" by (simp add: lite_prune_def)
    then show ?thesis by blast
  qed (auto simp: lite_prune_def Let_def)
  then have dops: "distinct (map op_id ?ops)" using distinct_map_filter [OF d] by (elim exE) simp
  let ?m = "map (\<lambda>x. (op_id x, x)) ?ops"
  have dm: "distinct (map fst (rev ?m))" using dops by (simp add: comp_def flip: rev_map)
  have sub: "set (exclude_unpermitted c ?ops) \<subseteq> set ?ops" by (auto simp: exclude_unpermitted_def split: option.splits)
  have dx: "distinct (map op_id (exclude_unpermitted c ?ops))" using distinct_map_filter [OF dops] dops

    by (simp add: exclude_unpermitted_def split: option.split)
  have "map_of (rev ?m) (op_id x) = Some x" if "x \<in> set ?ops" for x
    using that by (intro map_of_is_SomeI [OF dm]) simp
  moreover have "op_id x = oid" if "map_of (rev ?m) oid = Some x" for oid x using map_of_SomeD [OF that] by auto
  ultimately have ids: "\<forall>oid x. map_of (rev ?m) oid = Some x \<longrightarrow> op_id x = oid"
    "\<forall>x \<in> set (exclude_unpermitted c ?ops). map_of (rev ?m) (op_id x) = Some x" using sub by blast+
  have "lt_operators (lite_blank c ?ops clock now) = exclude_unpermitted c ?ops" "lt_by_id (lite_blank c ?ops clock now) = map_of (rev ?m)"
    by (simp_all add: lite_blank_def)
  with ids dx have "lt_ids (lite_blank c ?ops clock now)" unfolding lt_ids_def by presburger
  let ?b = "lite_blank c ?ops clock now"
  note \<open>lt_ids ?b\<close>
  moreover have "lt_known ?b" "lt_windows ?b" "lt_bounded ?b" by (simp_all add: lt_known_def lt_windows_def lt_bounded_def lite_blank_def)
  moreover have "lt_budget ?b" by (simp add: lt_budget_def lite_blank_def new_breaker_def breaker_runs_def)
  moreover have "lt_data ?b" by (simp add: lt_data_def lite_blank_def lite_state_ok_def new_lite_state_def revs_ok_def)
  moreover have "lt_mirrored ?b" "lt_reported ?b"
    by (simp_all add: lt_mirrored_def lt_reported_def lite_blank_def added_in_def failures_in_def last_outcome_def lite_view_def new_lite_state_def)
  ultimately have "lite_ok ?b" by (simp add: lite_ok_def)
  from merged_ok [OF this, where us = "[]" and ds = seed] have "lite_ok s" by (simp add: s merge_all_eq lite_blank_def)
  then show ?thesis by (simp add: lite_inv_def s merge_all_eq lite_blank_def signals_ok_def queue_ok_def emitters_ok_def)
qed

lemma lite_reaches_inv: "lite_reaches c operators s \<Longrightarrow> lite_inv c s"
  by (induction rule: lite_reaches.induct) (auto intro: lite_start_inv lite_step_inv)

end
