(* ===== verification/Lite_Outcome.thy ===== *)
theory Lite_Outcome
  imports Lite_Invariant
begin

text \<open>
  What a session of the in-process engine promises: its loop never raises, its cycles are bounded,
  it leaves the loop only when there is nothing to run or the deadline has passed, the events say what
  its result says, no run is given more time than the session has, and once the deadline has passed it
  can always end.
\<close>

section \<open>What stays fixed\<close>

lemma lite_step_fixed:
  assumes "lite_inv c s" and "lite_step c s s'"
  shows "lt_fixed s' = lt_fixed s"
  using assms(2)
proof (cases rule: lite_step.cases)
  case (signal q)
  then show ?thesis by (auto simp: lite_put_def lt_fixed_def split: lite_signal.splits option.splits if_splits)
next
  case (pass activates)
  have "lite_ok s" "signals_ok s" using assms(1) by (simp_all add: lite_inv_def)
  from pass_ok [OF this, of c activates] pass(3) show ?thesis by auto
next
  case (take w s1)
  from assms(1) have "lite_ok s" "queue_ok (lt_queue s) (lt_running s)" "emitters_ok (lt_queue s) (lt_running s)"
    by (simp_all add: lite_inv_def signals_ok_def)
  from consume_ok [OF this, of c] take(4) have "lt_fixed s1 = lt_fixed s" by auto
  with take(1) show ?thesis by (simp add: lt_fixed_def)
next
  case (leave s1)
  from assms(1) have "lite_ok s" "queue_ok (lt_queue s) (lt_running s)" "emitters_ok (lt_queue s) (lt_running s)"
    by (simp_all add: lite_inv_def signals_ok_def)
  from consume_ok [OF this, of c] leave(3) have "lt_fixed s1 = lt_fixed s" by auto
  with leave(1) show ?thesis by (simp add: lt_fixed_def)
next
  case finish
  from finish_inv [OF assms(1) finish(1)] finish(2) show ?thesis by auto
qed (simp_all add: lt_fixed_def)

lemma lite_reaches_fixed:
  "lite_reaches c operators s \<Longrightarrow>
     cb_caps (lt_breaker s) = lite_cycle_caps (lite_build_edges (lite_prune operators (lc_capabilities c)) (lc_capabilities c)) \<and>
     lt_operators s = exclude_unpermitted c (lite_prune operators (lc_capabilities c))"
proof (induction rule: lite_reaches.induct)
  case (started seed clock now s)
  then show ?case
    by (auto simp: lite_start_def merge_all_eq lite_blank_def new_breaker_def Let_def split: sum.splits if_splits)
next
  case (onwards s s')
  from lite_step_fixed [OF lite_reaches_inv [OF onwards(1)] onwards(2)] onwards(3) show ?case by (simp add: lt_fixed_def)
qed

section \<open>A session that runs\<close>

definition demo_lone :: operator_class where
  "demo_lone = (sample_operator ''lone'' [] [] [])\<lparr>op_policy := (op_policy (sample_operator ''lone'' [] [] []))\<lparr>op_retry := Some demo_policy\<rparr>\<rparr>"

definition demo_lite :: lite_config where
  "demo_lite = \<lparr>lc_namespace = ''ns'', lc_capabilities = [], lc_operation_timeout = 10, lc_session_deadline = Some (1/2),
     lc_catalog = \<lparr>cat_permitted = Map.empty, cat_preferred = Map.empty, cat_permitted_operators = Map.empty\<rparr>, lc_uniform = \<lambda>_ _ _ _. 0\<rparr>"

definition demo_opened :: lite_session where
  "demo_opened = lite_blank demo_lite [demo_lone] 0 0"

definition lite_demo_launched :: lite_session where
  "lite_demo_launched = demo_opened\<lparr>lt_prev_caps := [''lone'' \<mapsto> []],
     lt_running := [(''lone'', \<lparr>lr_observed = 0, lr_until = 1/2, lr_clipped = True, lr_finished = False\<rparr>)],
     lt_phase := AwaitsSignal None\<rparr>"

lemma lite_demo_start: "lite_start demo_lite [demo_lone] [] 0 0 = Inr demo_opened"
proof -
  have "check_unique_ids [demo_lone] [] = Inr ()" "lite_prune [demo_lone] [] = [demo_lone]"
    by (simp_all add: check_unique_ids_def lite_prune_def demo_lone_def sample_operator_def)
  moreover have "validate_acyclic_or_bounded (lite_build_edges [demo_lone] []) = Inr ()" by code_simp
  moreover have "lite_merge_all [] s = s" for s :: lite_session by (simp add: merge_all_eq lite_merge_def merge_events_def)
  ultimately show ?thesis by (simp add: lite_start_def demo_lite_def demo_opened_def)
qed

definition nothing_available :: capability_view where
  "nothing_available = \<lparr>cv_available = [], cv_preference = []\<rparr>"

lemma lite_demo_refresh:
  assumes "lt_activator s = new_lite_activator"
  shows "lite_refresh_capabilities demo_lite activates view s = (nothing_available, s)"
proof -
  have "compute_available [] [] present = []" for present using compute_available_subset [of "[]" "[]" present] by simp
  moreover have "s\<lparr>lt_activator := lt_activator s\<rparr> = s" by simp
  then have "s\<lparr>lt_activator := new_lite_activator\<rparr> = s" by (simp only: assms)
  ultimately have "lite_refresh_activator [] (lc_catalog demo_lite) (lc_namespace demo_lite) activates view (lt_activator s) = (nothing_available, new_lite_activator)"
    using assms by (simp add: lite_refresh_activator_def demo_lite_def permitted_capabilities_def preferred_order_def
        nothing_available_def lite_activate_rounds.simps lite_activation_ready_def Let_def)
  with \<open>s\<lparr>lt_activator := new_lite_activator\<rparr> = s\<close> show ?thesis
    by (simp add: lite_refresh_capabilities_def lite_registered_def demo_lite_def new_lite_activator_def)
qed

lemmas demo_lite_defs = demo_lone_def demo_lite_def sample_operator_def demo_policy_def

text \<open>The parts of a session the planner reads, for the demonstration's one operator.\<close>

definition demo_like :: "lite_session \<Rightarrow> bool" where
  "demo_like s \<longleftrightarrow> lt_activator s = new_lite_activator \<and> lt_operators s = [demo_lone] \<and> lt_by_id s = [''lone'' \<mapsto> demo_lone] \<and>
     cb_caps (lt_breaker s) = Map.empty \<and> lt_deadline s = Some (1/2)"

lemma demo_opened_like: "demo_like demo_opened"
proof -
  have "find_cycles (lite_build_edges [demo_lone] []) = []" by code_simp
  then have "lite_cycle_caps (lite_build_edges [demo_lone] []) = Map.empty" by (simp add: lite_cycle_caps_def cycle_caps_def)
  then show ?thesis
    by (simp add: demo_like_def demo_opened_def lite_blank_def exclude_unpermitted_def permitted_operators_def new_breaker_def demo_lite_defs)
qed

lemma demo_plan:
  assumes "demo_like s"
  shows "lite_plan_of view nothing_available s = plan_operator (lite_present_types view) nothing_available demo_lone
     \<lparr>pn_runnable = [], pn_soonest = None, pn_session = s\<rparr>"
  using assms by (simp add: lite_plan_of_def demo_like_def split: option.split)

lemma lite_demo_ready: "lite_ready demo_lone present available" "\<not> rerun_on_new_data (op_policy demo_lone)" "op_id demo_lone = ''lone''"
    "op_policy demo_lone = \<lparr>rerun_on_new_data = False, rerun_on = ADDED_OR_UPDATED, debounce = None, max_cycles = None,
       op_timeout = None, op_retry = Some demo_policy\<rparr>"
  by (simp_all add: lite_ready_def demo_lone_def sample_operator_def)

lemma lite_demo_pass: "lite_pass demo_lite activates demo_opened = Some lite_demo_launched"
proof -
  have s: "lt_activator demo_opened = new_lite_activator" "lt_state demo_opened = new_lite_state" "lt_running demo_opened = []"
    "lt_retries demo_opened = \<lparr>db_default_window = 0, db_due_at = Map.empty\<rparr>" "lt_clock demo_opened = 0" "lt_deadline demo_opened = Some (1/2)"
    "lt_debounce demo_opened = \<lparr>db_default_window = 0, db_due_at = Map.empty\<rparr>" "lt_prev_caps demo_opened = Map.empty"
    by (simp_all add: demo_opened_def lite_blank_def demo_lite_def)
  have "\<not> is_tripped ''lone'' (lt_breaker demo_opened)" using demo_opened_like by (simp add: demo_like_def is_tripped_def)
  then have "lite_plan_of view nothing_available demo_opened = Some (add_runnable demo_lone (plan_delta demo_lone nothing_available demo_opened) False
      \<lparr>pn_runnable = [], pn_soonest = None, pn_session = demo_opened\<rparr>)" for view
    by (simp add: demo_plan [OF demo_opened_like] plan_operator_def lite_demo_ready s is_scheduled_def lite_has_run_def new_lite_state_def)
  moreover have "lite_launch demo_lite nothing_available 0 \<lparr>rn_operator = demo_lone, rn_delta = delta, rn_is_retry = False\<rparr> demo_opened =
      demo_opened\<lparr>lt_prev_caps := [''lone'' \<mapsto> []],
        lt_running := [(''lone'', \<lparr>lr_observed = 0, lr_until = 1/2, lr_clipped = True, lr_finished = False\<rparr>)]\<rparr>" for delta
  proof -
    have "lite_timeout_for demo_lite demo_lone = 10" by (simp add: lite_timeout_for_def lite_demo_ready) (simp add: demo_lite_def)
    then show ?thesis
      by (simp add: lite_launch_def lite_demo_ready s nothing_available_def debounce_clear_def fun_upd_idem Let_def)
  qed
  ultimately show ?thesis
    by (simp add: lite_pass_def lite_demo_refresh [OF s(1)] add_runnable_def s new_lite_state_def lite_wait_def lite_demo_launched_def)
qed


definition demo_ended_run :: "string option \<Rightarrow> lite_session" where
  "demo_ended_run err = lite_demo_launched\<lparr>lt_running := [(''lone'', \<lparr>lr_observed = 0, lr_until = 1/2, lr_clipped = True, lr_finished = True\<rparr>)],
     lt_queue := [LiteCompleted ''lone'' err False]\<rparr>"

definition demo_counted :: "lite_event \<Rightarrow> lite_session" where
  "demo_counted ev = demo_opened\<lparr>lt_prev_caps := [''lone'' \<mapsto> []], lt_runs := [''lone'' \<mapsto> 1],
     lt_breaker := record_run ''lone'' (lt_breaker demo_opened), lt_events := [ev]\<rparr>"

definition demo_retrying :: lite_session where
  "demo_retrying = (demo_counted (OperatorRunCompleted ''lone'' RunRetrying 1 (Some ''boom'') 0))\<lparr>lt_failed_attempts := [''lone'' \<mapsto> 1],
     lt_retries := \<lparr>db_default_window = 0, db_due_at = [''lone'' \<mapsto> 1]\<rparr>,
     lt_armed := [''lone'' \<mapsto> \<lparr>ar_error = ''boom'', ar_observed = 0, ar_attempts = 1\<rparr>]\<rparr>"

definition demo_succeeded :: lite_session where
  "demo_succeeded = (demo_counted (OperatorRunCompleted ''lone'' RunSucceeded 1 None 0))\<lparr>lt_state := lite_advance_watermark ''lone'' 0 new_lite_state\<rparr>"

lemma demo_put_run: "lite_put (LiteCompleted ''lone'' err False) lite_demo_launched = Some (demo_ended_run err)"
  by (simp add: lite_put_def demo_ended_run_def lite_demo_launched_def demo_opened_def lite_blank_def)

lemmas demo_session_defs = demo_ended_run_def demo_counted_def demo_retrying_def demo_succeeded_def lite_demo_launched_def

lemma demo_opened_fields:
  "lt_activator demo_opened = new_lite_activator" "lt_state demo_opened = new_lite_state" "lt_running demo_opened = []" "lt_queue demo_opened = []"
  "lt_retries demo_opened = \<lparr>db_default_window = 0, db_due_at = Map.empty\<rparr>" "lt_clock demo_opened = 0" "lt_now demo_opened = 0"
  "lt_deadline demo_opened = Some (1/2)" "lt_debounce demo_opened = \<lparr>db_default_window = 0, db_due_at = Map.empty\<rparr>"
  "lt_prev_caps demo_opened = Map.empty" "lt_runs demo_opened = Map.empty" "lt_failed_attempts demo_opened = Map.empty" "lt_armed demo_opened = Map.empty"
  "lt_events demo_opened = []" "lt_failures demo_opened = Map.empty" "lt_deadline_hit demo_opened = False" "lt_phase demo_opened = AtHead"
  by (simp_all add: demo_opened_def lite_blank_def demo_lite_def)

lemma demo_not_tripped: "cb_caps b = Map.empty \<Longrightarrow> \<not> is_tripped oid b"
  by (simp add: is_tripped_def)

lemma demo_fails: "consume_queue demo_lite (demo_ended_run (Some ''boom'')) = Some (demo_retrying\<lparr>lt_phase := AwaitsSignal None\<rparr>)"
proof -
  have like: "lt_by_id demo_opened = [''lone'' \<mapsto> demo_lone]" "\<not> is_tripped ''lone'' (record_run ''lone'' (lt_breaker demo_opened))"
    using demo_opened_like by (simp_all add: demo_like_def demo_not_tripped runs_recorded)
  have "backoff_delays (\<lambda>_ _ _. 0) demo_policy ! 0 = 1" "max_attempts demo_policy = 2" by (simp_all add: backoff_delays_def demo_policy_def upt_rec)
  then show ?thesis
    by (simp add: consume_queue_def lite_consume_def lite_merge_emissions_def demo_session_defs demo_opened_fields lite_record_completion_def lite_count_run_def
        lite_run_failed_def lite_schedule_retry_def like lite_demo_ready attempts_so_far_def debounce_schedule_def publish_run_def lite_publish_def Let_def)
      (simp add: demo_opened_def lite_blank_def demo_lite_def)
qed

lemma demo_succeeds: "consume_queue demo_lite (demo_ended_run None) = Some (demo_succeeded\<lparr>lt_phase := AwaitsSignal None\<rparr>)"
  by (simp add: consume_queue_def lite_consume_def lite_merge_emissions_def demo_session_defs demo_opened_fields lite_record_completion_def lite_count_run_def
      attempts_so_far_def publish_run_def lite_publish_def Let_def)


lemma demo_like_counted: "demo_like (demo_counted ev)" "demo_like demo_retrying" "demo_like demo_succeeded"
  using demo_opened_like by (simp_all add: demo_like_def demo_session_defs runs_recorded)

lemma demo_waits: "lite_pass demo_lite activates demo_retrying = Some (demo_retrying\<lparr>lt_phase := AwaitsTimer (1/2)\<rparr>)"
proof -
  have t: "\<not> is_tripped ''lone'' (lt_breaker demo_retrying)" "lt_activator demo_retrying = new_lite_activator"
    using demo_like_counted(2) by (simp_all add: demo_like_def demo_not_tripped)
  have "lite_plan_of view nothing_available demo_retrying = Some \<lparr>pn_runnable = [], pn_soonest = Some 1, pn_session = demo_retrying\<rparr>" for view
    unfolding demo_plan [OF demo_like_counted(2)] using t(1)
    by (simp add: plan_operator_def plan_retry_def lite_demo_ready demo_session_defs demo_opened_fields is_scheduled_def is_due_def track_def Let_def)
  moreover have "lt_running demo_retrying = []" "lt_clock demo_retrying = 0" "lt_deadline demo_retrying = Some (1/2)"
    by (simp_all add: demo_session_defs demo_opened_fields)
  ultimately show ?thesis by (simp add: lite_pass_def lite_demo_refresh [OF t(2)] lite_wait_def)
qed

lemma demo_leaves: "lite_pass demo_lite activates demo_succeeded = Some (demo_succeeded\<lparr>lt_phase := Leaving\<rparr>)"
proof -
  have t: "\<not> is_tripped ''lone'' (lt_breaker demo_succeeded)" "lt_activator demo_succeeded = new_lite_activator"
    using demo_like_counted(3) by (simp_all add: demo_like_def demo_not_tripped)
  have "lite_plan_of view nothing_available demo_succeeded = Some \<lparr>pn_runnable = [], pn_soonest = None, pn_session = demo_succeeded\<rparr>" for view
    unfolding demo_plan [OF demo_like_counted(3)] using t(1)
    by (simp add: plan_operator_def plan_rerun_def lite_demo_ready demo_session_defs demo_opened_fields is_scheduled_def
        lite_has_run_def lite_advance_watermark_def Let_def)
  moreover have "lt_running demo_succeeded = []" by (simp add: demo_session_defs demo_opened_fields)
  ultimately show ?thesis by (simp add: lite_pass_def lite_demo_refresh [OF t(2)] lite_wait_def)
qed

lemma demo_reaches_run: "lite_reaches demo_lite [demo_lone] (demo_ended_run err)"
proof -
  have "lite_reaches demo_lite [demo_lone] demo_opened" using lite_demo_start by (rule started)
  moreover have "lite_step demo_lite demo_opened lite_demo_launched"
    by (rule lite_step.pass [where activates = "\<lambda>_. True"]) (simp_all add: lite_demo_pass demo_opened_fields lite_open_def)
  moreover have "lite_step demo_lite lite_demo_launched (demo_ended_run err)" using demo_put_run by (rule lite_step.signal)
  ultimately show ?thesis by (blast intro: lite_reaches.intros)
qed

lemma lite_demo_taken:
  assumes "consume_queue demo_lite (demo_ended_run err) = Some (s\<lparr>lt_phase := AwaitsSignal None\<rparr>)" and "lt_phase s = AtHead"
  shows "lite_reaches demo_lite [demo_lone] s"
proof -
  have "lite_step demo_lite (demo_ended_run err) ((s\<lparr>lt_phase := AwaitsSignal None\<rparr>)\<lparr>lt_phase := AtHead\<rparr>)"
    using assms(1) by (intro lite_step.take [where w = None]) (simp_all add: demo_session_defs)
  moreover have "(s\<lparr>lt_phase := AwaitsSignal None\<rparr>)\<lparr>lt_phase := AtHead\<rparr> = s" using assms(2) by (cases s) simp
  ultimately show ?thesis using demo_reaches_run by (auto intro: onwards)
qed

definition session_ended :: "lite_session \<Rightarrow> lite_session" where
  "session_ended s = s\<lparr>lt_events := lt_events s @ [SessionCompleted (lt_deadline_hit s) (lt_runs s) (lt_failures s) (lt_now s)], lt_phase := Ended\<rparr>"

lemma consume_nothing: "lt_queue s = [] \<Longrightarrow> consume_queue c s = Some s"
  by (cases s) (simp add: consume_queue_def lite_consume_def lite_merge_emissions_def)

lemma leaving_ends:
  assumes "lite_reaches c ops s" and "lt_phase s = Leaving" and "lt_queue s = []" and "lt_running s = []"
  shows "lite_reaches c ops (session_ended s)"
proof -
  have "lite_step c s (s\<lparr>lt_phase := Cancelling\<rparr>)" using assms(2,3) by (intro lite_step.leave) (simp_all add: consume_nothing)
  moreover have "lite_finish c (s\<lparr>lt_phase := Cancelling\<rparr>) = Some (session_ended s)"
    using assms(3,4) by (cases s) (simp add: lite_finish_def consume_nothing lite_publish_def session_ended_def)
  then have "lite_step c (s\<lparr>lt_phase := Cancelling\<rparr>) (session_ended s)" by (intro lite_step.finish) simp_all
  ultimately show ?thesis using assms(1) by (blast intro: onwards)
qed

definition lite_demo_done :: lite_session where
  "lite_demo_done = session_ended (demo_succeeded\<lparr>lt_phase := Leaving\<rparr>)"

lemma demo_done_reached: "lite_reaches demo_lite [demo_lone] lite_demo_done"
proof -
  have f: "lt_phase demo_succeeded = AtHead" "lt_queue demo_succeeded = []" "lt_running demo_succeeded = []" "lite_open demo_succeeded"
    by (simp_all add: demo_session_defs demo_opened_fields lite_open_def)
  have "lite_step demo_lite demo_succeeded (demo_succeeded\<lparr>lt_phase := Leaving\<rparr>)"
    by (rule lite_step.pass [where activates = "\<lambda>_. True"]) (simp_all add: demo_leaves f)
  with lite_demo_taken [OF demo_succeeds f(1)] have "lite_reaches demo_lite [demo_lone] (demo_succeeded\<lparr>lt_phase := Leaving\<rparr>)" by (rule onwards)
  then show ?thesis unfolding lite_demo_done_def using f by (intro leaving_ends) simp_all
qed


lemma demo_done_ended: "lt_phase lite_demo_done = Ended" "\<not> lt_deadline_hit lite_demo_done"
  by (simp_all add: lite_demo_done_def session_ended_def demo_session_defs demo_opened_fields)

definition demo_loop :: operator_class where
  "demo_loop = (sample_operator ''looped'' [PyClass ''D'' []] [PyClass ''D'' []] [])\<lparr>op_policy :=
     (op_policy (sample_operator ''looped'' [] [] []))\<lparr>max_cycles := Some 3\<rparr>\<rparr>"

definition demo_looped :: lite_session where
  "demo_looped = lite_blank demo_lite [demo_loop] 0 0"

lemma demo_looped_cap: "lite_cycle_caps (lite_build_edges (lite_prune [demo_loop] (lc_capabilities demo_lite)) (lc_capabilities demo_lite)) ''looped'' = Some 3"
proof -
  have "lite_cycle_caps (lite_build_edges [demo_loop] []) ''looped'' = Some 3" by code_simp
  then show ?thesis by (simp add: lite_prune_def demo_loop_def sample_operator_def demo_lite_def)
qed

lemma demo_looped_reached: "lite_reaches demo_lite [demo_loop] demo_looped"
proof -
  have "check_unique_ids [demo_loop] [] = Inr ()" "lite_prune [demo_loop] [] = [demo_loop]"
    by (simp_all add: check_unique_ids_def lite_prune_def demo_loop_def sample_operator_def)
  moreover have "validate_acyclic_or_bounded (lite_build_edges [demo_loop] []) = Inr ()" by code_simp
  moreover have "lite_merge_all [] s = s" for s :: lite_session by (simp add: merge_all_eq lite_merge_def merge_events_def)
  ultimately have "lite_start demo_lite [demo_loop] [] 0 0 = Inr demo_looped" by (simp add: lite_start_def demo_lite_def demo_looped_def)
  then show ?thesis by (rule started)
qed

section \<open>What a session promises\<close>

text \<open>
  C29: the loop never raises. In every session that can be reached, whatever the operators emit, raise
  and however their signals interleave, planning a pass and recording what is on the queue find every
  key they look up: the completion's running record, the operator of an emission, the retry a
  window stands for.
\<close>

theorem lite_never_keyerror:
  assumes "lite_reaches c operators s"
  shows "lite_pass c activates s \<noteq> None \<and> consume_queue c s \<noteq> None"
proof -
  from lite_reaches_inv [OF assms] have ok: "lite_ok s" "signals_ok s" by (simp_all add: lite_inv_def)
  from pass_ok [OF this] have "lite_pass c activates s \<noteq> None" by blast
  moreover from ok consume_ok [of s c] have "consume_queue c s \<noteq> None" unfolding signals_ok_def by blast
  ultimately show ?thesis by blast
qed

theorem lite_never_keyerror_witness:
  "lite_pass demo_lite (\<lambda>_. True) (demo_ended_run (Some ''boom'')) \<noteq> None \<and> consume_queue demo_lite (demo_ended_run (Some ''boom'')) \<noteq> None"
  using demo_reaches_run by (rule lite_never_keyerror)

text \<open>
  C30: the circuit breaker bounds every cycle. An operator on a declared cycle completes at most
  \<^verbatim>\<open>max_cycles\<close> runs in a session, failed attempts and retries included, and while it has a run in
  flight at most one less: the run in flight never overshoots the cap.
\<close>

theorem lite_cycle_budget:
  assumes "lite_reaches c operators s"
    and "lite_cycle_caps (lite_build_edges (lite_prune operators (lc_capabilities c)) (lc_capabilities c)) oid = Some k"
  shows "(case lt_runs s oid of None \<Rightarrow> 0 | Some n \<Rightarrow> n) + (if oid \<in> fst ` set (lt_running s) then 1 else 0) \<le> max 0 k"
proof -
  from lite_reaches_inv [OF assms(1)] have "lt_budget s" by (simp add: lite_inv_def lite_ok_def)
  with lite_reaches_fixed [OF assms(1)] assms(2) show ?thesis by (simp add: lt_budget_def breaker_runs_def)
qed

theorem lite_cycle_budget_witness:
  "(case lt_runs demo_looped ''looped'' of None \<Rightarrow> 0 | Some n \<Rightarrow> n) + (if ''looped'' \<in> fst ` set (lt_running demo_looped) then 1 else 0) \<le> max 0 (3 :: int)"
  using demo_looped_reached demo_looped_cap by (rule lite_cycle_budget)

text \<open>
  C31: a session that ends before its deadline ended because there was nothing left to do. No run is in
  flight, no retry is armed, no signal is unread, and every operator is tripped, not ready, or has run
  and either does not rerun on new data or has none since.
\<close>

theorem lite_quiescence_genuine:
  assumes "lite_reaches c operators s" and "lt_phase s = Ended" and "\<not> lt_deadline_hit s" and "x \<in> set (lt_operators s)"
  shows "lt_running s = [] \<and> lt_armed s = Map.empty \<and> lt_queue s = [] \<and>
     (is_tripped (op_id x) (lt_breaker s) \<or>
      \<not> lite_ready x (lite_present_types (lite_view (lt_state s))) (available_types (lite_caps c s)) \<or>
      lite_has_run (op_id x) (lt_state s) \<and>
        (\<not> rerun_on_new_data (op_policy x) \<or> \<not> lite_relevant x (plan_delta x (lite_caps c s) s)))"
proof -
  from lite_reaches_inv [OF assms(1)] assms(2,3) have "all_quiet c s" by (simp add: lite_inv_def)
  with assms(4) show ?thesis by (simp add: all_quiet_def lite_quiet_def)
qed

theorem lite_quiescence_genuine_witness:
  "lt_armed lite_demo_done = Map.empty \<and> lt_operators lite_demo_done = [demo_lone]"
proof -
  have ops: "lt_operators lite_demo_done = [demo_lone]" using demo_like_counted(3) by (simp add: lite_demo_done_def session_ended_def demo_like_def)
  then have "demo_lone \<in> set (lt_operators lite_demo_done)" by simp
  from lite_quiescence_genuine [OF demo_done_reached demo_done_ended this] ops show ?thesis by blast
qed

text \<open>
  C32: a session that ends before its deadline leaves no failure unsaid. The last event of each
  operator's runs is a success, or a failure that is in the result; no retry is pending and nothing
  was cancelled.
\<close>

theorem lite_failures_reported:
  assumes "lite_reaches c operators s" and "lt_phase s = Ended" and "\<not> lt_deadline_hit s" and "last_outcome (lt_events s) oid = Some outcome"
  shows "outcome = RunSucceeded \<or> outcome = RunFailed \<and> rs_failures (lite_result_of s) oid \<noteq> None"
proof -
  from lite_reaches_inv [OF assms(1)] assms(2,3) have "all_quiet c s" "lt_reported s" by (simp_all add: lite_inv_def lite_ok_def)
  with assms(3,4) show ?thesis by (cases outcome) (auto simp: all_quiet_def lt_reported_def lite_result_of_def)
qed

theorem lite_failures_reported_witness:
  "last_outcome (lt_events lite_demo_done) ''lone'' = Some RunSucceeded \<and> rs_failures (lite_result_of lite_demo_done) = Map.empty"
proof -
  have l: "last_outcome (lt_events lite_demo_done) ''lone'' = Some RunSucceeded" and f: "rs_failures (lite_result_of lite_demo_done) = Map.empty"
    by (simp_all add: lite_demo_done_def session_ended_def demo_session_defs demo_opened_fields last_outcome_def lite_result_of_def)
  from lite_failures_reported [OF demo_done_reached demo_done_ended l] l f show ?thesis by simp
qed

text \<open>
  C33: the events say what the result says. At every moment of a session the DataPoints announced as
  added are the DataPoints it holds, in that order and with their provenance, and reading the events
  of failed and cancelled runs gives the failures it reports.
\<close>

theorem lite_events_mirror:
  assumes "lite_reaches c operators s"
  shows "added_in (lt_events s) = map provenance (rs_points (lite_result_of s)) \<and> failures_in (lt_events s) = rs_failures (lite_result_of s)"
  using lite_reaches_inv [OF assms] by (simp add: lite_inv_def lite_ok_def lt_mirrored_def lite_result_of_def)

theorem lite_events_mirror_witness:
  "added_in (lt_events lite_demo_done) = [] \<and> failures_in (lt_events lite_demo_done) = Map.empty"
proof -
  have "lite_view (lt_state lite_demo_done) = []" "lt_failures lite_demo_done = Map.empty"
    by (simp_all add: lite_demo_done_def session_ended_def demo_session_defs demo_opened_fields lite_view_def lite_advance_watermark_def new_lite_state_def)
  with lite_events_mirror [OF demo_done_reached] show ?thesis by (simp add: lite_result_of_def)
qed

text \<open>
  Also: no run is given more time than the session has, and none has seen more data than there is: the
  bound on a run in flight is at most the deadline, and its watermark at most the current revision.
\<close>

theorem lite_run_bounds:
  assumes "lite_reaches c operators s" and "(oid, r) \<in> set (lt_running s)" and "lt_deadline s = Some d"
  shows "lr_until r \<le> d \<and> lr_observed r \<le> ls_revision (lt_state s) \<and> oid \<notin> dom (lt_armed s)"
proof -
  from lite_reaches_inv [OF assms(1)] have "lt_bounded s" "lt_data s" "lt_windows s" by (simp_all add: lite_inv_def lite_ok_def)
  moreover have "oid \<in> fst ` set (lt_running s)" using assms(2) by (auto intro: rev_image_eqI)
  ultimately show ?thesis using assms(2,3) unfolding lt_bounded_def lt_data_def lt_windows_def by fastforce
qed


theorem lite_run_bounds_witness:
  "lr_until \<lparr>lr_observed = 0, lr_until = 1/2, lr_clipped = True, lr_finished = True\<rparr> \<le> (1/2 :: seconds)"
proof -
  have "(''lone'', \<lparr>lr_observed = 0, lr_until = 1/2, lr_clipped = True, lr_finished = True\<rparr>) \<in> set (lt_running (demo_ended_run None))"
    and "lt_deadline (demo_ended_run None) = Some (1/2)"
    by (simp_all add: demo_session_defs demo_opened_fields)
  from lite_run_bounds [OF demo_reaches_run this] show ?thesis by blast
qed

text \<open>
  Also: at the deadline an armed retry is forgotten. The run of \<^verbatim>\<open>lone\<close> fails, a retry is armed, and the
  deadline passes before it is due: the session reports one run and no failure, and the last event of
  the operator says that it is retrying.
\<close>

theorem lite_deadline_forgets_retry:
  "\<exists>s. lite_reaches demo_lite [demo_lone] s \<and> lt_phase s = Ended \<and> last_outcome (lt_events s) ''lone'' = Some RunRetrying \<and>
     rs_runs (lite_result_of s) ''lone'' = Some 1 \<and> rs_failures (lite_result_of s) = Map.empty"
proof -
  let ?w = "demo_retrying\<lparr>lt_phase := AwaitsTimer (1/2)\<rparr>"
  let ?l = "?w\<lparr>lt_clock := lt_clock ?w + 1/2, lt_now := lt_now ?w + 0\<rparr>"
  let ?h = "?l\<lparr>lt_phase := AtHead\<rparr>"
  let ?e = "?h\<lparr>lt_deadline_hit := True, lt_phase := Leaving\<rparr>"
  have f: "lt_phase demo_retrying = AtHead" "lt_queue demo_retrying = []" "lt_running demo_retrying = []" "lite_open demo_retrying"
    by (simp_all add: demo_session_defs demo_opened_fields lite_open_def)
  have "lite_step demo_lite demo_retrying ?w"
    by (rule lite_step.pass [where activates = "\<lambda>_. True"]) (simp_all add: demo_waits f)
  moreover have "lite_step demo_lite ?w ?l" by (rule lite_step.time) simp_all
  moreover have "lite_step demo_lite ?l ?h" by (rule lite_step.slept [where t = "1/2"]) (simp_all add: demo_session_defs demo_opened_fields)
  moreover have "lite_step demo_lite ?h ?e" by (rule lite_step.deadline) (simp_all add: demo_session_defs demo_opened_fields lite_open_def)
  moreover note lite_demo_taken [OF demo_fails f(1)]
  ultimately have "lite_reaches demo_lite [demo_lone] ?e" by (blast intro: onwards)
  then have "lite_reaches demo_lite [demo_lone] (session_ended ?e)" using f by (intro leaving_ends) simp_all
  moreover have "last_outcome (lt_events (session_ended ?e)) ''lone'' = Some RunRetrying" "lt_phase (session_ended ?e) = Ended"
    "rs_runs (lite_result_of (session_ended ?e)) ''lone'' = Some 1" "rs_failures (lite_result_of (session_ended ?e)) = Map.empty"
    by (simp_all add: session_ended_def demo_session_defs demo_opened_fields last_outcome_def lite_result_of_def)
  ultimately show ?thesis by blast
qed


section \<open>After the deadline\<close>

text \<open>What the loop waits for: something is running, and no window lies beyond the deadline.\<close>

definition waits_ok :: "lite_session \<Rightarrow> bool" where
  "waits_ok s \<longleftrightarrow>
     (case lt_phase s of
        AwaitsSignal w \<Rightarrow> lt_running s \<noteq> []
      | AwaitsTimer t \<Rightarrow> \<forall>d. lt_deadline s = Some d \<longrightarrow> t \<le> d
      | _ \<Rightarrow> True)"

lemma waits_step:
  assumes "lite_inv c s" and "waits_ok s" and "lite_step c s s'"
  shows "waits_ok s'"
  using assms(3)
proof (cases rule: lite_step.cases)
  case (time d k)
  with assms(2) show ?thesis by (cases "lt_phase s") (simp_all add: waits_ok_def)
next
  case (signal q)
  then have "lt_phase s' = lt_phase s \<and> lt_deadline s' = lt_deadline s \<and> (lt_running s \<noteq> [] \<longrightarrow> lt_running s' \<noteq> [])"
    by (cases q) (auto simp: lite_put_def keys_update neq_Nil_conv split: option.splits if_splits dest: arg_cong [where f = "\<lambda>x. fst ` set x"])
  with assms(2) show ?thesis by (simp add: waits_ok_def split: lite_phase.splits)
next
  case (pass activates)
  have "lite_ok s" "signals_ok s" using assms(1) by (simp_all add: lite_inv_def)
  from pass_ok [OF this, of c activates] pass(3) have "lt_fixed s' = lt_fixed s" "lt_clock s' = lt_clock s" by auto
  then have d: "lt_deadline s' = lt_deadline s" "lt_clock s' = lt_clock s" by (simp_all add: lt_fixed_def)
  from pass(3) obtain p :: lite_plan and mid :: lite_session where s': "s' = mid\<lparr>lt_phase :=
      (if lt_running mid \<noteq> [] then AwaitsSignal (map_option (\<lambda>w. lt_clock mid + w) (lite_wait (pn_soonest p) mid))
       else case lite_wait (pn_soonest p) mid of Some w \<Rightarrow> AwaitsTimer (lt_clock mid + w) | None \<Rightarrow> Leaving)\<rparr>"
  proof -
    obtain caps s1 where rc: "lite_refresh_capabilities c activates (lite_view (lt_state s)) s = (caps, s1)" by fastforce
    with pass(3) obtain p where lp: "lite_plan_of (lite_view (lt_state s)) caps s1 = Some p" by (cases "lite_plan_of (lite_view (lt_state s)) caps s1") (simp_all add: lite_pass_def)
    show ?thesis
      by (rule that [where p = p and mid = "fold (lite_launch c caps (ls_revision (lt_state s))) (pn_runnable p) (pn_session p)"],
          rule pass(3) [unfolded lite_pass_def rc Let_def prod.case lp option.case option.inject, symmetric])
  qed
  have "t \<le> e" if "lite_wait (pn_soonest p) mid = Some w" "t = lt_clock mid + w" "lt_deadline s = Some e" for w t e
  proof -
    have "lt_deadline mid = Some e" "lt_clock mid < e" using s' d pass(2) that(3) by (auto simp: lite_open_def)
    with that show ?thesis by (auto simp: lite_wait_def Let_def split: option.splits)
  qed
  then show ?thesis using s' d by (auto simp: waits_ok_def split: option.splits)
next
  case (finish)
  from finish_inv [OF assms(1) finish(1)] finish(2) show ?thesis by (auto simp: waits_ok_def)
qed (simp_all add: waits_ok_def)

lemma lite_reaches_waits: "lite_reaches c operators s \<Longrightarrow> waits_ok s"
proof (induction rule: lite_reaches.induct)
  case (started seed clock now s)
  then show ?case by (auto simp: waits_ok_def lite_start_def merge_all_eq lite_blank_def Let_def split: sum.splits if_splits)
next
  case (onwards s s')
  from waits_step [OF lite_reaches_inv [OF onwards(1)] onwards(3,2)] show ?case .
qed

lemma ends_leaving:
  assumes "lite_inv c s" and "lt_phase s = Leaving"
  shows "\<exists>s'. (lite_step c)\<^sup>*\<^sup>* s s' \<and> lt_phase s' = Ended"
proof -
  have "lite_ok s" "queue_ok (lt_queue s) (lt_running s)" "emitters_ok (lt_queue s) (lt_running s)"
    using assms(1) by (simp_all add: lite_inv_def signals_ok_def)
  from consume_ok [OF this, of c] obtain s1 where "consume_queue c s = Some s1" by blast
  with assms(2) have st: "lite_step c s (s1\<lparr>lt_phase := Cancelling\<rparr>)" by (rule lite_step.leave)
  from finish_inv [OF lite_step_inv [OF assms(1) st]] obtain s2 where s2: "lite_finish c (s1\<lparr>lt_phase := Cancelling\<rparr>) = Some s2" "lt_phase s2 = Ended"
    by auto
  then have "lite_step c (s1\<lparr>lt_phase := Cancelling\<rparr>) s2" by (intro lite_step.finish) simp_all
  with st have "(lite_step c)\<^sup>*\<^sup>* s s2" by (meson converse_rtranclp_into_rtranclp rtranclp.rtrancl_refl)
  with s2(2) show ?thesis by blast
qed

lemma ends_at_head:
  assumes "lite_inv c s" and "lt_phase s = AtHead" and "\<not> lite_open s"
  shows "\<exists>s'. (lite_step c)\<^sup>*\<^sup>* s s' \<and> lt_phase s' = Ended"
proof -
  have st: "lite_step c s (s\<lparr>lt_deadline_hit := True, lt_phase := Leaving\<rparr>)" using assms(2,3) by (rule lite_step.deadline)
  from ends_leaving [OF lite_step_inv [OF assms(1) st]] show ?thesis using st by (auto intro: converse_rtranclp_into_rtranclp)
qed

lemma consume_clock:
  assumes "consume_queue c s = Some s'"
  shows "lt_clock s' = lt_clock s"
proof -
  have merge: "lt_clock (lite_merge_all ds s) = lt_clock s" for ds s by (simp add: merge_all_eq)
  have checked: "check_emissions es s = Some s' \<Longrightarrow> lt_clock s' = lt_clock s" for es s s'
    by (induction es s rule: check_emissions.induct) (auto simp: lite_check_declared_def split: option.splits if_splits)
  have recorded: "record_completions c qs s = Some s' \<Longrightarrow> lt_clock s' = lt_clock s" for qs s s'
  proof (induction c qs s rule: record_completions.induct)
    case (3 c oid err cut_off qs s)
    then obtain s1 where s1: "lite_record_completion c oid err cut_off s = Some s1" "record_completions c qs s1 = Some s'"
      by (auto split: option.splits)
    have "lt_clock s1 = lt_clock s" using s1(1) by (cases rule: completion_cases) simp_all
    with 3 s1 show ?case by simp
  qed simp_all
  show ?thesis using assms
    by (auto simp: consume_queue_def lite_consume_def lite_merge_emissions_def merge split: option.splits if_splits dest!: checked recorded)
qed



end
