(* ===== verification/Redis_Store.thy ===== *)
theory Redis_Store
  imports Py_Repr Session_Store "HOL-Library.Multiset"
begin

text \<open>
  The Redis adapter of the session store, \<^verbatim>\<open>orcastork/adapters/redis/store.py\<close>: its Lua scripts and
  the operations around them, for one session.

  Redis is a parameter: a record of the commands the adapter sends, over an arbitrary server state
  \<open>'r\<close>. \<open>redis_laws\<close> is what their documentation says of keys used at one type, as the adapter's key
  prefixes use them, before any of them expires. A value is text or a JSON document, whose type \<open>'j\<close> is
  a parameter too, with the codec. A script runs atomically, so it is a function of the server state.
  The numbers of a script are integers that Lua's doubles represent.
\<close>

declare map_of_eq_Some_iff [simp del] Some_eq_map_of_iff [simp del]

section \<open>Redis\<close>

datatype 'j redis_value = RText string | RJson 'j

record ('r, 'j) redis =
  rd_get :: "string \<Rightarrow> 'r \<Rightarrow> 'j redis_value option"
  rd_set :: "string \<Rightarrow> 'j redis_value \<Rightarrow> 'r \<Rightarrow> 'r"
  rd_incr :: "string \<Rightarrow> 'r \<Rightarrow> int \<times> 'r"
  rd_hget :: "string \<Rightarrow> string \<Rightarrow> 'r \<Rightarrow> 'j redis_value option"
  rd_hset :: "string \<Rightarrow> string \<Rightarrow> 'j redis_value \<Rightarrow> 'r \<Rightarrow> 'r"
  rd_hdel :: "string \<Rightarrow> string \<Rightarrow> 'r \<Rightarrow> 'r"
  rd_hgetall :: "string \<Rightarrow> 'r \<Rightarrow> (string \<times> 'j redis_value) list"
  rd_pexpire :: "string \<Rightarrow> int \<Rightarrow> 'r \<Rightarrow> 'r"

text \<open>\<^verbatim>\<open>tonumber(x or '0')\<close> in the scripts, \<^verbatim>\<open>int(x or 0)\<close> in Python.\<close>

definition redis_num :: "'j redis_value option \<Rightarrow> int" where
  "redis_num v = (case v of Some (RText t) \<Rightarrow> (case parse_int t of None \<Rightarrow> 0 | Some n \<Rightarrow> n) | _ \<Rightarrow> 0)"

definition number_held :: "'j redis_value option \<Rightarrow> bool" where
  "number_held v \<longleftrightarrow> v = None \<or> (\<exists>n. v = Some (RText (show_int n)))"

definition hash_key :: "string \<Rightarrow> bool" where
  "hash_key k \<longleftrightarrow> takeWhile (\<lambda>c. c \<noteq> CHR '':'') k \<in> {''dp'', ''added'', ''upd'', ''wm'', ''fx'', ''meta''}"

definition redis_laws :: "('r, 'j) redis \<Rightarrow> bool" where
  "redis_laws R \<longleftrightarrow>
     (\<forall>k v j r. \<not> hash_key k \<longrightarrow> rd_get R j (rd_set R k v r) = (if j = k then Some v else rd_get R j r)) \<and>
     (\<forall>k v h f r. \<not> hash_key k \<longrightarrow> hash_key h \<longrightarrow> rd_hget R h f (rd_set R k v r) = rd_hget R h f r) \<and>
     (\<forall>k r. \<not> hash_key k \<longrightarrow> number_held (rd_get R k r) \<longrightarrow> fst (rd_incr R k r) = redis_num (rd_get R k r) + 1) \<and>
     (\<forall>k j r. \<not> hash_key k \<longrightarrow> number_held (rd_get R k r) \<longrightarrow>
        rd_get R j (snd (rd_incr R k r)) = (if j = k then Some (RText (show_int (fst (rd_incr R k r)))) else rd_get R j r)) \<and>
     (\<forall>k h f r. \<not> hash_key k \<longrightarrow> hash_key h \<longrightarrow> rd_hget R h f (snd (rd_incr R k r)) = rd_hget R h f r) \<and>
     (\<forall>k g v h f r. hash_key k \<longrightarrow> hash_key h \<longrightarrow>
        rd_hget R h f (rd_hset R k g v r) = (if h = k \<and> f = g then Some v else rd_hget R h f r)) \<and>
     (\<forall>k g v j r. hash_key k \<longrightarrow> \<not> hash_key j \<longrightarrow> rd_get R j (rd_hset R k g v r) = rd_get R j r) \<and>
     (\<forall>k g h f r. hash_key k \<longrightarrow> hash_key h \<longrightarrow>
        rd_hget R h f (rd_hdel R k g r) = (if h = k \<and> f = g then None else rd_hget R h f r)) \<and>
     (\<forall>k g j r. hash_key k \<longrightarrow> \<not> hash_key j \<longrightarrow> rd_get R j (rd_hdel R k g r) = rd_get R j r) \<and>
     (\<forall>h r. hash_key h \<longrightarrow> distinct (map fst (rd_hgetall R h r)) \<and> (\<forall>f. map_of (rd_hgetall R h r) f = rd_hget R h f r)) \<and>
     (\<forall>k t j r. 0 < t \<longrightarrow> rd_get R j (rd_pexpire R k t r) = rd_get R j r) \<and>
     (\<forall>k t h f r. 0 < t \<longrightarrow> rd_hget R h f (rd_pexpire R k t r) = rd_hget R h f r)"

lemma redis_num_text [simp]: "redis_num (Some (RText (show_int n))) = n" "redis_num None = 0"
  by (simp_all add: redis_num_def)

section \<open>Keys and the codec\<close>

definition epoch_key :: "session_id \<Rightarrow> string" where "epoch_key sid = ''epoch:'' @ sid"
definition rev_key :: "session_id \<Rightarrow> string" where "rev_key sid = ''rev:'' @ sid"
definition dp_key :: "session_id \<Rightarrow> string" where "dp_key sid = ''dp:'' @ sid"
definition added_key :: "session_id \<Rightarrow> string" where "added_key sid = ''added:'' @ sid"
definition upd_key :: "session_id \<Rightarrow> string" where "upd_key sid = ''upd:'' @ sid"
definition wm_key :: "session_id \<Rightarrow> string" where "wm_key sid = ''wm:'' @ sid"
definition fx_key :: "session_id \<Rightarrow> string" where "fx_key sid = ''fx:'' @ sid"
definition meta_key :: "session_id \<Rightarrow> string" where "meta_key sid = ''meta:'' @ sid"

lemmas key_defs = epoch_key_def rev_key_def dp_key_def added_key_def upd_key_def wm_key_def fx_key_def meta_key_def

lemma key_kinds [simp]:
  "\<not> hash_key (epoch_key sid)" "\<not> hash_key (rev_key sid)" "hash_key (dp_key sid)" "hash_key (added_key sid)"
  "hash_key (upd_key sid)" "hash_key (wm_key sid)" "hash_key (fx_key sid)" "hash_key (meta_key sid)"
  by (simp_all add: key_defs hash_key_def)

lemma keys_differ [simp]:
  "epoch_key sid \<noteq> rev_key sid" "rev_key sid \<noteq> epoch_key sid"
  "dp_key sid \<noteq> added_key sid" "dp_key sid \<noteq> upd_key sid" "dp_key sid \<noteq> wm_key sid" "dp_key sid \<noteq> fx_key sid" "dp_key sid \<noteq> meta_key sid"
  "added_key sid \<noteq> dp_key sid" "added_key sid \<noteq> upd_key sid" "added_key sid \<noteq> wm_key sid" "added_key sid \<noteq> fx_key sid" "added_key sid \<noteq> meta_key sid"
  "upd_key sid \<noteq> dp_key sid" "upd_key sid \<noteq> added_key sid" "upd_key sid \<noteq> wm_key sid" "upd_key sid \<noteq> fx_key sid" "upd_key sid \<noteq> meta_key sid"
  "wm_key sid \<noteq> dp_key sid" "wm_key sid \<noteq> added_key sid" "wm_key sid \<noteq> upd_key sid" "wm_key sid \<noteq> fx_key sid" "wm_key sid \<noteq> meta_key sid"
  "fx_key sid \<noteq> dp_key sid" "fx_key sid \<noteq> added_key sid" "fx_key sid \<noteq> upd_key sid" "fx_key sid \<noteq> wm_key sid" "fx_key sid \<noteq> meta_key sid"
  "meta_key sid \<noteq> dp_key sid" "meta_key sid \<noteq> added_key sid" "meta_key sid \<noteq> upd_key sid" "meta_key sid \<noteq> wm_key sid" "meta_key sid \<noteq> fx_key sid"
  by (simp_all add: key_defs)

record 'j redis_codec =
  dumps :: "data_point \<Rightarrow> 'j"
  loads :: "'j \<Rightarrow> orca_error + data_point"
  isoformat :: "instant \<Rightarrow> string"
  fromisoformat :: "string \<Rightarrow> orca_error + instant"

text \<open>
  A DataPoint of one of the given contents is read back as it was written: \<^verbatim>\<open>parse_data_point\<close> of its
  JSON, for values JSON has.
\<close>

type_synonym content = "string \<times> pyval"

definition content :: "data_point \<Rightarrow> content" where
  "content d = (dp_type d, dp_value d)"

definition codec_ok :: "'j redis_codec \<Rightarrow> content set \<Rightarrow> bool" where
  "codec_ok C K \<longleftrightarrow> (\<forall>d. content d \<in> K \<longrightarrow> loads C (dumps C d) = Inr d) \<and> (\<forall>t. fromisoformat C (isoformat C t) = Inr t)"

definition redis_identity :: "data_point \<Rightarrow> string" where
  "redis_identity d = dp_type d @ [CHR 0x00] @ canonical_value (dp_value d)"

section \<open>The scripts\<close>

definition guard_script :: "('r, 'j) redis \<Rightarrow> string \<Rightarrow> epoch \<Rightarrow> 'r \<Rightarrow> bool \<times> 'r" where
  "guard_script R ek e r =
     (let stored = redis_num (rd_get R ek r)
      in if e < stored then (False, r) else (True, if stored < e then rd_set R ek (RText (show_int e)) r else r))"

type_synonym 'j redis_triple = "string \<times> bool \<times> 'j"

definition write_item :: "('r, 'j) redis \<Rightarrow> session_id \<Rightarrow> int \<Rightarrow> 'j redis_triple \<Rightarrow> 'r \<Rightarrow> 'r" where
  "write_item R sid rv = (\<lambda>(ident, is_new, doc) r.
     (let r1 = rd_hset R (dp_key sid) ident (RJson doc) r;
          r2 = rd_hset R (upd_key sid) ident (RText (show_int rv)) r1
      in if is_new then rd_hset R (added_key sid) ident (RText (show_int rv)) r2 else r2))"

definition write_script :: "('r, 'j) redis \<Rightarrow> session_id \<Rightarrow> epoch \<Rightarrow> 'j redis_triple list \<Rightarrow> 'r \<Rightarrow> int \<times> 'r" where
  "write_script R sid e triples r =
     (case guard_script R (epoch_key sid) e r of
        (False, r1) \<Rightarrow> (-1, r1)
      | (True, r1) \<Rightarrow>
          if triples = [] then (redis_num (rd_get R (rev_key sid) r1), r1)
          else (case rd_incr R (rev_key sid) r1 of (rv, r2) \<Rightarrow> (rv, fold (write_item R sid rv) triples r2)))"

definition guarded_field_script :: "('r, 'j) redis \<Rightarrow> session_id \<Rightarrow> string \<Rightarrow> epoch \<Rightarrow> string \<Rightarrow> string \<Rightarrow> 'r \<Rightarrow> int \<times> 'r" where
  "guarded_field_script R sid hash e field v r =
     (case guard_script R (epoch_key sid) e r of
        (False, r1) \<Rightarrow> (-1, r1)
      | (True, r1) \<Rightarrow> (0, rd_hset R hash field (RText v) r1))"

definition claim_effect_script :: "('r, 'j) redis \<Rightarrow> session_id \<Rightarrow> epoch \<Rightarrow> string \<Rightarrow> bool \<Rightarrow> 'r \<Rightarrow> int \<times> 'r" where
  "claim_effect_script R sid e k reclaim_stale r =
     (case guard_script R (epoch_key sid) e r of
        (False, r1) \<Rightarrow> (-1, r1)
      | (True, r1) \<Rightarrow>
          let pending = RText (''pending:'' @ show_int e); acquired = (1, rd_hset R (fx_key sid) k pending r1)
          in case rd_hget R (fx_key sid) k r1 of
               None \<Rightarrow> acquired
             | Some st \<Rightarrow>
                 if st = RText ''committed'' then (2, r1)
                 else if st = pending then (3, r1)
                 else if reclaim_stale then acquired
                 else (4, r1))"

definition commit_effect_script :: "('r, 'j) redis \<Rightarrow> session_id \<Rightarrow> epoch \<Rightarrow> string \<Rightarrow> 'r \<Rightarrow> int \<times> 'r" where
  "commit_effect_script R sid e k r =
     (case guard_script R (epoch_key sid) e r of
        (False, r1) \<Rightarrow> (-1, r1)
      | (True, r1) \<Rightarrow>
          (0, if rd_hget R (fx_key sid) k r1 = Some (RText (''pending:'' @ show_int e))
              then rd_hset R (fx_key sid) k (RText ''committed'') r1 else r1))"

definition revert_effect_script :: "('r, 'j) redis \<Rightarrow> session_id \<Rightarrow> epoch \<Rightarrow> string \<Rightarrow> 'r \<Rightarrow> int \<times> 'r" where
  "revert_effect_script R sid e k r =
     (case guard_script R (epoch_key sid) e r of
        (False, r1) \<Rightarrow> (-1, r1)
      | (True, r1) \<Rightarrow>
          (0, if rd_hget R (fx_key sid) k r1 = Some (RText (''pending:'' @ show_int e))
              then rd_hdel R (fx_key sid) k r1 else r1))"

section \<open>The operations\<close>

record ('r, 'j) redis_store =
  rs_redis :: "('r, 'j) redis"
  rs_codec :: "'j redis_codec"
  rs_ttl :: int

definition slide_ttl :: "('r, 'j) redis_store \<Rightarrow> string list \<Rightarrow> 'r \<Rightarrow> 'r" where
  "slide_ttl S keys r = fold (\<lambda>k. rd_pexpire (rs_redis S) k (rs_ttl S)) keys r"

text \<open>After a script: -1 is a stale epoch, otherwise the lifetimes are extended.\<close>

definition checked :: "('r, 'j) redis_store \<Rightarrow> string list \<Rightarrow> int \<times> 'r \<Rightarrow> (orca_error + int) \<times> 'r" where
  "checked S keys res = (case res of (n, r) \<Rightarrow> if n = -1 then (Inl StaleEpochError, r) else (Inr n, slide_ttl S keys r))"

definition redis_apply :: "('r, 'j) redis_store \<Rightarrow> session_id \<Rightarrow> 'j redis_triple list \<Rightarrow> epoch \<Rightarrow> ('r, revision) op" where
  "redis_apply S sid triples e r =
     checked S [epoch_key sid, rev_key sid, dp_key sid, added_key sid, upd_key sid, wm_key sid, fx_key sid, meta_key sid]
       (write_script (rs_redis S) sid e triples r)"

definition write_triple :: "'j redis_codec \<Rightarrow> (string \<times> 'j redis_value) list \<Rightarrow> data_point \<Rightarrow> orca_error + 'j redis_triple list" where
  "write_triple C current d =
     (case map_of current (redis_identity d) of
        None \<Rightarrow> Inr [(redis_identity d, True, dumps C d)]
      | Some (RText _) \<Rightarrow> Inl ValueError
      | Some (RJson doc) \<Rightarrow>
          (case loads C doc of
             Inl err \<Rightarrow> Inl err
           | Inr existing \<Rightarrow>
               if last_retrieved existing < last_retrieved d
               then Inr [(redis_identity d, False, dumps C (reobserved existing (last_retrieved d)))]
               else Inr []))"

fun write_triples :: "'j redis_codec \<Rightarrow> (string \<times> 'j redis_value) list \<Rightarrow> data_point list \<Rightarrow> orca_error + 'j redis_triple list" where
  "write_triples C current [] = Inr []"
| "write_triples C current (d # ds) =
     (case write_triple C current d of
        Inl err \<Rightarrow> Inl err
      | Inr ts \<Rightarrow> (case write_triples C current ds of Inl err \<Rightarrow> Inl err | Inr us \<Rightarrow> Inr (ts @ us)))"

definition redis_write :: "('r, 'j) redis_store \<Rightarrow> session_id \<Rightarrow> data_point list \<Rightarrow> epoch \<Rightarrow> ('r, revision) op" where
  "redis_write S sid ds e r =
     (case write_triples (rs_codec S) (rd_hgetall (rs_redis S) (dp_key sid) r) ds of
        Inl err \<Rightarrow> (Inl err, r)
      | Inr triples \<Rightarrow> redis_apply S sid triples e r)"

definition redis_apply_resolved :: "('r, 'j) redis_store \<Rightarrow> session_id \<Rightarrow> data_point list \<Rightarrow> data_point list \<Rightarrow> epoch \<Rightarrow> ('r, revision) op" where
  "redis_apply_resolved S sid added updated e =
     redis_apply S sid (map (\<lambda>d. (redis_identity d, True, dumps (rs_codec S) d)) added @
       map (\<lambda>d. (redis_identity d, False, dumps (rs_codec S) d)) updated) e"

definition redis_set_watermark :: "('r, 'j) redis_store \<Rightarrow> session_id \<Rightarrow> operator_id \<Rightarrow> revision \<Rightarrow> epoch \<Rightarrow> ('r, int) op" where
  "redis_set_watermark S sid oid rv e r =
     checked S [epoch_key sid, wm_key sid] (guarded_field_script (rs_redis S) sid (wm_key sid) e oid (show_int rv) r)"

definition redis_set_deadline :: "('r, 'j) redis_store \<Rightarrow> session_id \<Rightarrow> instant \<Rightarrow> epoch \<Rightarrow> ('r, int) op" where
  "redis_set_deadline S sid t e r =
     checked S [epoch_key sid, meta_key sid] (guarded_field_script (rs_redis S) sid (meta_key sid) e ''deadline'' (isoformat (rs_codec S) t) r)"

definition redis_set_fingerprint :: "('r, 'j) redis_store \<Rightarrow> session_id \<Rightarrow> string \<Rightarrow> epoch \<Rightarrow> ('r, int) op" where
  "redis_set_fingerprint S sid f e r =
     checked S [epoch_key sid, meta_key sid] (guarded_field_script (rs_redis S) sid (meta_key sid) e ''flow_fingerprint'' f r)"

definition claim_result :: "int \<Rightarrow> effect_claim option" where
  "claim_result = [1 \<mapsto> ACQUIRED, 2 \<mapsto> ALREADY_COMMITTED, 3 \<mapsto> PENDING_SAME_EPOCH, 4 \<mapsto> PENDING_STALE_EPOCH]"

definition redis_claim_effect :: "('r, 'j) redis_store \<Rightarrow> session_id \<Rightarrow> string \<Rightarrow> bool \<Rightarrow> epoch \<Rightarrow> ('r, effect_claim) op" where
  "redis_claim_effect S sid k reclaim_stale e r =
     (case checked S [epoch_key sid, fx_key sid] (claim_effect_script (rs_redis S) sid e k reclaim_stale r) of
        (Inl err, r1) \<Rightarrow> (Inl err, r1)
      | (Inr n, r1) \<Rightarrow> (case claim_result n of None \<Rightarrow> (Inl (OtherError ''KeyError''), r1) | Some c \<Rightarrow> (Inr c, r1)))"

definition redis_commit_effect :: "('r, 'j) redis_store \<Rightarrow> session_id \<Rightarrow> string \<Rightarrow> epoch \<Rightarrow> ('r, int) op" where
  "redis_commit_effect S sid k e r = checked S [epoch_key sid, fx_key sid] (commit_effect_script (rs_redis S) sid e k r)"

definition redis_revert_effect :: "('r, 'j) redis_store \<Rightarrow> session_id \<Rightarrow> string \<Rightarrow> epoch \<Rightarrow> ('r, int) op" where
  "redis_revert_effect S sid k e r = checked S [epoch_key sid, fx_key sid] (revert_effect_script (rs_redis S) sid e k r)"


section \<open>Reads\<close>

definition redis_entries :: "('r, 'j) redis_store \<Rightarrow> session_id \<Rightarrow> 'r \<Rightarrow> ('j redis_value \<times> int \<times> int) list" where
  "redis_entries S sid r =
     map (\<lambda>(ident, raw). (raw, redis_num (map_of (rd_hgetall (rs_redis S) (added_key sid) r) ident),
         redis_num (map_of (rd_hgetall (rs_redis S) (upd_key sid) r) ident)))
       (rd_hgetall (rs_redis S) (dp_key sid) r)"

definition parse_entry :: "'j redis_codec \<Rightarrow> 'j redis_value \<Rightarrow> orca_error + data_point" where
  "parse_entry C v = (case v of RText _ \<Rightarrow> Inl ValueError | RJson doc \<Rightarrow> loads C doc)"

fun parse_entries :: "'j redis_codec \<Rightarrow> ('j redis_value \<times> int \<times> int) list \<Rightarrow> orca_error + (data_point \<times> int \<times> int) list" where
  "parse_entries C [] = Inr []"
| "parse_entries C ((v, a, u) # xs) =
     (case parse_entry C v of
        Inl err \<Rightarrow> Inl err
      | Inr d \<Rightarrow> (case parse_entries C xs of Inl err \<Rightarrow> Inl err | Inr ys \<Rightarrow> Inr ((d, a, u) # ys)))"

definition redis_snapshot :: "('r, 'j) redis_store \<Rightarrow> session_id \<Rightarrow> 'r \<Rightarrow> orca_error + dp_view" where
  "redis_snapshot S sid r = (case parse_entries (rs_codec S) (redis_entries S sid r) of Inl err \<Rightarrow> Inl err | Inr xs \<Rightarrow> Inr (map fst xs))"

definition redis_revision :: "('r, 'j) redis_store \<Rightarrow> session_id \<Rightarrow> 'r \<Rightarrow> revision" where
  "redis_revision S sid r = redis_num (rd_get (rs_redis S) (rev_key sid) r)"

definition redis_change_set_since :: "('r, 'j) redis_store \<Rightarrow> session_id \<Rightarrow> 'r \<Rightarrow> revision \<Rightarrow> orca_error + change_set" where
  "redis_change_set_since S sid r since =
     (case parse_entries (rs_codec S) (redis_entries S sid r) of
        Inl err \<Rightarrow> Inl err
      | Inr xs \<Rightarrow> Inr \<lparr>cs_added = map fst (filter (\<lambda>(d, a, u). since < a) xs),
                      cs_updated = map fst (filter (\<lambda>(d, a, u). \<not> since < a \<and> since < u) xs)\<rparr>)"

definition redis_get_watermark :: "('r, 'j) redis_store \<Rightarrow> session_id \<Rightarrow> 'r \<Rightarrow> operator_id \<Rightarrow> revision option" where
  "redis_get_watermark S sid r oid =
     (case rd_hget (rs_redis S) (wm_key sid) oid r of None \<Rightarrow> None | Some v \<Rightarrow> Some (redis_num (Some v)))"

definition redis_text :: "'j redis_value option \<Rightarrow> string option" where
  "redis_text v = (case v of Some (RText t) \<Rightarrow> Some t | _ \<Rightarrow> None)"

definition redis_get_effect_state :: "('r, 'j) redis_store \<Rightarrow> session_id \<Rightarrow> 'r \<Rightarrow> string \<Rightarrow> string option" where
  "redis_get_effect_state S sid r k = redis_text (rd_hget (rs_redis S) (fx_key sid) k r)"

definition redis_get_fingerprint :: "('r, 'j) redis_store \<Rightarrow> session_id \<Rightarrow> 'r \<Rightarrow> string option" where
  "redis_get_fingerprint S sid r = redis_text (rd_hget (rs_redis S) (meta_key sid) ''flow_fingerprint'' r)"

definition redis_get_deadline :: "('r, 'j) redis_store \<Rightarrow> session_id \<Rightarrow> 'r \<Rightarrow> orca_error + instant option" where
  "redis_get_deadline S sid r =
     (case redis_text (rd_hget (rs_redis S) (meta_key sid) ''deadline'' r) of
        None \<Rightarrow> Inr None
      | Some t \<Rightarrow> (case fromisoformat (rs_codec S) t of Inl err \<Rightarrow> Inl err | Inr d \<Rightarrow> Inr (Some d)))"

section \<open>The laws, one by one\<close>

lemma redis_set:
  assumes "redis_laws R" and "\<not> hash_key k"
  shows "rd_get R j (rd_set R k v r) = (if j = k then Some v else rd_get R j r)"
    and "hash_key h \<Longrightarrow> rd_hget R h f (rd_set R k v r) = rd_hget R h f r"
  using assms unfolding redis_laws_def by simp_all

lemma redis_incr:
  assumes "redis_laws R" and "\<not> hash_key k" and "number_held (rd_get R k r)"
  shows "fst (rd_incr R k r) = redis_num (rd_get R k r) + 1"
    and "rd_get R j (snd (rd_incr R k r)) = (if j = k then Some (RText (show_int (redis_num (rd_get R k r) + 1))) else rd_get R j r)"
    and "hash_key h \<Longrightarrow> rd_hget R h f (snd (rd_incr R k r)) = rd_hget R h f r"
proof -
  show f: "fst (rd_incr R k r) = redis_num (rd_get R k r) + 1" using assms unfolding redis_laws_def by simp
  have "rd_get R j (snd (rd_incr R k r)) = (if j = k then Some (RText (show_int (fst (rd_incr R k r)))) else rd_get R j r)"
    using assms unfolding redis_laws_def by simp
  then show "rd_get R j (snd (rd_incr R k r)) = (if j = k then Some (RText (show_int (redis_num (rd_get R k r) + 1))) else rd_get R j r)"
    by (simp only: f)
  show "hash_key h \<Longrightarrow> rd_hget R h f (snd (rd_incr R k r)) = rd_hget R h f r" using assms unfolding redis_laws_def by simp
qed

lemma redis_hset:
  assumes "redis_laws R" and "hash_key k"
  shows "hash_key h \<Longrightarrow> rd_hget R h f (rd_hset R k g v r) = (if h = k \<and> f = g then Some v else rd_hget R h f r)"
    and "\<not> hash_key j \<Longrightarrow> rd_get R j (rd_hset R k g v r) = rd_get R j r"
  using assms unfolding redis_laws_def by simp_all

lemma redis_hdel:
  assumes "redis_laws R" and "hash_key k"
  shows "hash_key h \<Longrightarrow> rd_hget R h f (rd_hdel R k g r) = (if h = k \<and> f = g then None else rd_hget R h f r)"
    and "\<not> hash_key j \<Longrightarrow> rd_get R j (rd_hdel R k g r) = rd_get R j r"
  using assms unfolding redis_laws_def by simp_all

lemma redis_hgetall:
  assumes "redis_laws R" and "hash_key h"
  shows "distinct (map fst (rd_hgetall R h r))" and "map_of (rd_hgetall R h r) f = rd_hget R h f r"
  using assms unfolding redis_laws_def by simp_all

lemma redis_pexpire:
  assumes "redis_laws R" and "0 < t"
  shows "rd_get R j (rd_pexpire R k t r) = rd_get R j r" and "rd_hget R h f (rd_pexpire R k t r) = rd_hget R h f r"
  using assms unfolding redis_laws_def by simp_all

lemma redis_slide:
  assumes "redis_laws (rs_redis S)" and "0 < rs_ttl S"
  shows "rd_get (rs_redis S) j (slide_ttl S ks r) = rd_get (rs_redis S) j r \<and> rd_hget (rs_redis S) h f (slide_ttl S ks r) = rd_hget (rs_redis S) h f r"
  unfolding slide_ttl_def by (induction ks arbitrary: r) (simp_all add: redis_pexpire [OF assms])

section \<open>The in-memory store it mirrors\<close>

text \<open>
  The observations of a session have values from a set on which the string Redis knows a value by is
  as fine as Python's equality. \<open>canonical_value\<close> tells \<^verbatim>\<open>True\<close> from \<^verbatim>\<open>1\<close>, so not every set is one.
\<close>

definition known_by_text :: "content set \<Rightarrow> bool" where
  "known_by_text K \<longleftrightarrow> (\<forall>d d'. content d \<in> K \<longrightarrow> content d' \<in> K \<longrightarrow> (redis_identity d = redis_identity d' \<longleftrightarrow> identity_key d = identity_key d'))"

lemma known_by_textD: "known_by_text K \<Longrightarrow> content d \<in> K \<Longrightarrow> content d' \<in> K \<Longrightarrow> redis_identity d = redis_identity d' \<longleftrightarrow> identity_key d = identity_key d'"
  by (simp add: known_by_text_def)

definition entries_from :: "content set \<Rightarrow> (identity \<times> st_entry) list \<Rightarrow> bool" where
  "entries_from K E \<longleftrightarrow> distinct (map fst E) \<and> (\<forall>p \<in> set E. identity_key (en_dp (snd p)) = fst p \<and> content (en_dp (snd p)) \<in> K)"

definition by_text :: "(identity \<times> st_entry) list \<Rightarrow> string \<rightharpoonup> st_entry" where
  "by_text E = map_of (map (\<lambda>p. (redis_identity (en_dp (snd p)), snd p)) E)"

lemma by_text_lookup:
  assumes "known_by_text K" and "entries_from K E" and "content d \<in> K"
  shows "by_text E (redis_identity d) = map_of E (identity_key d)"
  using assms(2)
proof (induction E)
  case (Cons p E)
  from Cons.prems have p: "identity_key (en_dp (snd p)) = fst p" "content (en_dp (snd p)) \<in> K" and E: "entries_from K E"
    by (auto simp: entries_from_def)
  have same: "redis_identity (en_dp (snd p)) = redis_identity d \<longleftrightarrow> fst p = identity_key d"
    using known_by_textD [OF assms(1) p(2) assms(3)] p(1) by simp
  show ?case
  proof (cases "fst p = identity_key d")
    case True
    with same show ?thesis by (cases p) (simp add: by_text_def)
  next
    case False
    with same Cons.IH [OF E] show ?thesis by (cases p) (simp add: by_text_def)
  qed
qed (simp add: by_text_def)

lemma by_text_update:
  assumes "known_by_text K" and "entries_from K E" and "content d \<in> K" and "content (en_dp en) \<in> K" and "identity_key (en_dp en) = identity_key d"
  shows "by_text (AList.update (identity_key d) en E) = (by_text E)(redis_identity d \<mapsto> en)"
    and "entries_from K (AList.update (identity_key d) en E)"
proof -
  have en: "redis_identity (en_dp en) = redis_identity d" using known_by_textD [OF assms(1,4,3)] assms(5) by simp
  show "by_text (AList.update (identity_key d) en E) = (by_text E)(redis_identity d \<mapsto> en)"
    using assms(2)
  proof (induction E)
    case Nil
    then show ?case by (simp add: by_text_def en)
  next
    case (Cons p E)
    from Cons.prems have p: "identity_key (en_dp (snd p)) = fst p" "content (en_dp (snd p)) \<in> K" and E: "entries_from K E"
      by (auto simp: entries_from_def)
    have same: "redis_identity (en_dp (snd p)) = redis_identity d \<longleftrightarrow> fst p = identity_key d"
      using known_by_textD [OF assms(1) p(2) assms(3)] p(1) by simp
    show ?case
    proof (cases "fst p = identity_key d")
      case True
      with same show ?thesis by (cases p) (simp add: by_text_def en fun_eq_iff)
    next
      case False
      with same have ne: "redis_identity (en_dp (snd p)) \<noteq> redis_identity d" by simp
      have "by_text (AList.update (identity_key d) en (p # E)) =
          (by_text (AList.update (identity_key d) en E))(redis_identity (en_dp (snd p)) \<mapsto> snd p)"
        using False by (cases p) (simp add: by_text_def)
      also have "\<dots> = ((by_text E)(redis_identity d \<mapsto> en))(redis_identity (en_dp (snd p)) \<mapsto> snd p)"
        by (simp only: Cons.IH [OF E])
      also have "\<dots> = ((by_text E)(redis_identity (en_dp (snd p)) \<mapsto> snd p))(redis_identity d \<mapsto> en)"
        by (rule fun_upd_twist [OF ne [symmetric]])
      also have "(by_text E)(redis_identity (en_dp (snd p)) \<mapsto> snd p) = by_text (p # E)" by (simp add: by_text_def)
      finally show ?thesis .
    qed
  qed
  have members: "p = (identity_key d, en) \<or> p \<in> set E" if "p \<in> set (AList.update (identity_key d) en E)" for p
    using that by (induction E) (auto split: if_splits)
  show "entries_from K (AList.update (identity_key d) en E)"
    unfolding entries_from_def
  proof (intro conjI ballI)
    show "distinct (map fst (AList.update (identity_key d) en E))" using assms(2) by (simp add: entries_from_def distinct_update)
    fix p
    assume "p \<in> set (AList.update (identity_key d) en E)"
    then have p: "p = (identity_key d, en) \<or> p \<in> set E" by (rule members)
    with assms(2,5) show "identity_key (en_dp (snd p)) = fst p" by (auto simp: entries_from_def)
    from p assms(2,4) show "content (en_dp (snd p)) \<in> K" by (auto simp: entries_from_def)
  qed
qed

text \<open>The three hashes against the entries.\<close>

definition entries_rel :: "('r, 'j) redis_store \<Rightarrow> session_id \<Rightarrow> 'r \<Rightarrow> (identity \<times> st_entry) list \<Rightarrow> bool" where
  "entries_rel S sid r E \<longleftrightarrow>
     (\<forall>i. by_text E i = None \<longrightarrow>
        rd_hget (rs_redis S) (dp_key sid) i r = None \<and> rd_hget (rs_redis S) (added_key sid) i r = None) \<and>
     (\<forall>i en. by_text E i = Some en \<longrightarrow>
        rd_hget (rs_redis S) (dp_key sid) i r = Some (RJson (dumps (rs_codec S) (en_dp en))) \<and>
        redis_num (rd_hget (rs_redis S) (added_key sid) i r) = en_added en \<and>
        redis_num (rd_hget (rs_redis S) (upd_key sid) i r) = en_updated en)"

definition mirrors :: "('r, 'j) redis_store \<Rightarrow> session_id \<Rightarrow> 'r \<Rightarrow> session_state \<Rightarrow> bool" where
  "mirrors S sid r s \<longleftrightarrow>
     redis_num (rd_get (rs_redis S) (epoch_key sid) r) = st_max_epoch s \<and>
     redis_num (rd_get (rs_redis S) (rev_key sid) r) = st_revision s \<and> number_held (rd_get (rs_redis S) (rev_key sid) r) \<and>
     entries_rel S sid r (st_entries s) \<and>
     (\<forall>oid. rd_hget (rs_redis S) (wm_key sid) oid r = map_option (\<lambda>n. RText (show_int n)) (st_watermarks s oid)) \<and>
     (\<forall>k. rd_hget (rs_redis S) (fx_key sid) k r = map_option RText (st_effects s k)) \<and>
     rd_hget (rs_redis S) (meta_key sid) ''deadline'' r = map_option (\<lambda>t. RText (isoformat (rs_codec S) t)) (st_deadline s) \<and>
     rd_hget (rs_redis S) (meta_key sid) ''flow_fingerprint'' r = map_option RText (st_fingerprint s)"


section \<open>Every guarded operation is the in-memory store's\<close>

lemma guard_mirrors:
  assumes "redis_laws (rs_redis S)" and "mirrors S sid r s"
  shows "e < st_max_epoch s \<Longrightarrow> guard_script (rs_redis S) (epoch_key sid) e r = (False, r)"
    and "\<not> e < st_max_epoch s \<Longrightarrow> \<exists>r1. guard_script (rs_redis S) (epoch_key sid) e r = (True, r1) \<and> mirrors S sid r1 (s\<lparr>st_max_epoch := e\<rparr>)"
proof -
  have n: "redis_num (rd_get (rs_redis S) (epoch_key sid) r) = st_max_epoch s" using assms(2) by (simp add: mirrors_def)
  then show "e < st_max_epoch s \<Longrightarrow> guard_script (rs_redis S) (epoch_key sid) e r = (False, r)" by (simp add: guard_script_def Let_def)
  note set = redis_set [OF assms(1), of "epoch_key sid"]
  have set_ok: "mirrors S sid (rd_set (rs_redis S) (epoch_key sid) (RText (show_int e)) r) (s\<lparr>st_max_epoch := e\<rparr>)"
    using assms(2) by (simp add: mirrors_def entries_rel_def set)
  assume "\<not> e < st_max_epoch s"
  then show "\<exists>r1. guard_script (rs_redis S) (epoch_key sid) e r = (True, r1) \<and> mirrors S sid r1 (s\<lparr>st_max_epoch := e\<rparr>)"
    using set_ok n assms(2) by (cases "st_max_epoch s < e") (auto simp: guard_script_def Let_def mirrors_def)
qed

lemma slide_mirrors: "redis_laws (rs_redis S) \<Longrightarrow> 0 < rs_ttl S \<Longrightarrow> mirrors S sid (slide_ttl S ks r) s = mirrors S sid r s"
  using redis_slide [of S] by (simp add: mirrors_def entries_rel_def)

text \<open>A script that does what the in-memory operation does once the epoch is accepted.\<close>

lemma guarded_refines:
  assumes "redis_laws (rs_redis S)" and "0 < rs_ttl S" and "mirrors S sid r s"
    and body: "\<And>r1. mirrors S sid r1 (s\<lparr>st_max_epoch := e\<rparr>) \<Longrightarrow> \<exists>n r2. body r1 = (n, r2) \<and> n \<noteq> -1 \<and>
      fst (f (s\<lparr>st_max_epoch := e\<rparr>)) = Inr (reply n) \<and> mirrors S sid r2 (snd (f (s\<lparr>st_max_epoch := e\<rparr>)))"
  shows "\<exists>res r'. checked S ks (case guard_script (rs_redis S) (epoch_key sid) e r of (False, r1) \<Rightarrow> (-1, r1) | (True, r1) \<Rightarrow> body r1) = (res, r') \<and>
     fst (bindE (store_guard_epoch e) (\<lambda>_. f) s) = (case res of Inl x \<Rightarrow> Inl x | Inr n \<Rightarrow> Inr (reply n)) \<and>
     mirrors S sid r' (snd (bindE (store_guard_epoch e) (\<lambda>_. f) s))"
proof (cases "e < st_max_epoch s")
  case True
  with guard_mirrors(1) [OF assms(1,3)] assms(3) show ?thesis by (simp add: checked_def bindE_def store_guard_epoch_def)
next
  case False
  from guard_mirrors(2) [OF assms(1,3) False] obtain r1 where r1: "guard_script (rs_redis S) (epoch_key sid) e r = (True, r1)"
    "mirrors S sid r1 (s\<lparr>st_max_epoch := e\<rparr>)" by blast
  from body [OF r1(2)] obtain n r2 where "body r1 = (n, r2)" "n \<noteq> -1" "fst (f (s\<lparr>st_max_epoch := e\<rparr>)) = Inr (reply n)"
    "mirrors S sid r2 (snd (f (s\<lparr>st_max_epoch := e\<rparr>)))" by blast
  with r1(1) False slide_mirrors [OF assms(1,2)] show ?thesis by (simp add: checked_def bindE_def store_guard_epoch_def)
qed

text \<open>A reply of a script, in the in-memory store's terms.\<close>

definition unit_reply :: "int \<Rightarrow> unit" where "unit_reply n = ()"
definition claim_reply :: "int \<Rightarrow> effect_claim" where "claim_reply n = the (claim_result n)"

definition same_outcome :: "(int \<Rightarrow> 'a) \<Rightarrow> ('r, 'j) redis_store \<Rightarrow> session_id \<Rightarrow> (orca_error + int) \<times> 'r \<Rightarrow> (orca_error + 'a) \<times> session_state \<Rightarrow> bool" where
  "same_outcome reply S sid res mem \<longleftrightarrow>
     fst mem = (case fst res of Inl x \<Rightarrow> Inl x | Inr n \<Rightarrow> Inr (reply n)) \<and> mirrors S sid (snd res) (snd mem)"

lemma guarded_same:
  assumes "redis_laws (rs_redis S)" and "0 < rs_ttl S" and "mirrors S sid r s"
    and "\<And>r1. mirrors S sid r1 (s\<lparr>st_max_epoch := e\<rparr>) \<Longrightarrow> \<exists>n r2. body r1 = (n, r2) \<and> n \<noteq> -1 \<and>
      fst (f (s\<lparr>st_max_epoch := e\<rparr>)) = Inr (reply n) \<and> mirrors S sid r2 (snd (f (s\<lparr>st_max_epoch := e\<rparr>)))"
  shows "same_outcome reply S sid
     (checked S ks (case guard_script (rs_redis S) (epoch_key sid) e r of (False, r1) \<Rightarrow> (-1, r1) | (True, r1) \<Rightarrow> body r1))
     (bindE (store_guard_epoch e) (\<lambda>_. f) s)"
proof -
  from guarded_refines [OF assms(1,2,3), where body = body and f = f and reply = reply and e = e and ks = ks] assms(4) obtain res r' where
    "checked S ks (case guard_script (rs_redis S) (epoch_key sid) e r of (False, r1) \<Rightarrow> (-1, r1) | (True, r1) \<Rightarrow> body r1) = (res, r')"
    "fst (bindE (store_guard_epoch e) (\<lambda>_. f) s) = (case res of Inl x \<Rightarrow> Inl x | Inr n \<Rightarrow> Inr (reply n))"
    "mirrors S sid r' (snd (bindE (store_guard_epoch e) (\<lambda>_. f) s))" by blast
  then show ?thesis by (simp add: same_outcome_def)
qed

text \<open>The meta fields.\<close>

lemma watermark_refines:
  assumes "redis_laws (rs_redis S)" and "0 < rs_ttl S" and "mirrors S sid r s"
  shows "same_outcome unit_reply S sid (redis_set_watermark S sid oid rv e r) (store_set_watermark oid rv e s)"
  unfolding redis_set_watermark_def guarded_field_script_def store_set_watermark_def
  by (rule guarded_same [OF assms]) (auto simp: mirrors_def entries_rel_def redis_hset [OF assms(1)] unit_reply_def)

lemma deadline_refines:
  assumes "redis_laws (rs_redis S)" and "0 < rs_ttl S" and "mirrors S sid r s"
  shows "same_outcome unit_reply S sid (redis_set_deadline S sid t e r) (store_set_deadline t e s)"
  unfolding redis_set_deadline_def guarded_field_script_def store_set_deadline_def
  by (rule guarded_same [OF assms]) (auto simp: mirrors_def entries_rel_def redis_hset [OF assms(1)] unit_reply_def)

lemma fingerprint_refines:
  assumes "redis_laws (rs_redis S)" and "0 < rs_ttl S" and "mirrors S sid r s"
  shows "same_outcome unit_reply S sid (redis_set_fingerprint S sid f e r) (store_set_fingerprint f e s)"
  unfolding redis_set_fingerprint_def guarded_field_script_def store_set_fingerprint_def
  by (rule guarded_same [OF assms]) (auto simp: mirrors_def entries_rel_def redis_hset [OF assms(1)] unit_reply_def)

text \<open>The effect marks.\<close>

lemma mark_text: "''pending:'' @ show_int e = effect_pending_state e" "''committed'' = effect_committed"
  by (simp_all add: effect_pending_state_def effect_pending_prefix_def effect_committed_def)

lemma effects_mirror:
  assumes "redis_laws (rs_redis S)" and "mirrors S sid r s"
  shows "mirrors S sid (rd_hset (rs_redis S) (fx_key sid) k (RText m) r) (s\<lparr>st_effects := (st_effects s)(k \<mapsto> m)\<rparr>)"
    and "mirrors S sid (rd_hdel (rs_redis S) (fx_key sid) k r) (s\<lparr>st_effects := (st_effects s)(k := None)\<rparr>)"
    and "rd_hget (rs_redis S) (fx_key sid) k r = map_option RText (st_effects s k)"
  using assms(2) by (simp_all add: mirrors_def entries_rel_def redis_hset [OF assms(1)] redis_hdel [OF assms(1)])

lemma claim_refines:
  assumes "redis_laws (rs_redis S)" and "0 < rs_ttl S" and "mirrors S sid r s"
  shows "same_outcome claim_reply S sid
     (checked S [epoch_key sid, fx_key sid] (claim_effect_script (rs_redis S) sid e k reclaim_stale r)) (claim_effect k reclaim_stale e s)"
  unfolding claim_effect_script_def claim_effect_def mark_text Let_def
proof (rule guarded_same [OF assms])
  fix r1
  let ?s = "s\<lparr>st_max_epoch := e\<rparr>"
  assume r1: "mirrors S sid r1 ?s"
  note marks = effects_mirror(1) [OF assms(1) r1, of k "effect_pending_state e"] effects_mirror(3) [OF assms(1) r1, of k] r1
  let ?acq = "(1 :: int, rd_hset (rs_redis S) (fx_key sid) k (RText (effect_pending_state e)) r1)"
  let ?script = "case rd_hget (rs_redis S) (fx_key sid) k r1 of None \<Rightarrow> ?acq
     | Some st \<Rightarrow> if st = RText effect_committed then (2, r1) else if st = RText (effect_pending_state e) then (3, r1)
         else if reclaim_stale then ?acq else (4, r1)"
  let ?mem = "case st_effects ?s k of None \<Rightarrow> (Inr ACQUIRED, ?s\<lparr>st_effects := (st_effects ?s)(k \<mapsto> effect_pending_state e)\<rparr>)
     | Some stored \<Rightarrow> if stored = effect_committed then (Inr ALREADY_COMMITTED, ?s)
         else if stored = effect_pending_state e then (Inr PENDING_SAME_EPOCH, ?s)
         else if reclaim_stale then (Inr ACQUIRED, ?s\<lparr>st_effects := (st_effects ?s)(k \<mapsto> effect_pending_state e)\<rparr>)
         else (Inr PENDING_STALE_EPOCH, ?s)"
  have "fst ?script \<noteq> -1 \<and> fst ?mem = Inr (claim_reply (fst ?script)) \<and> mirrors S sid (snd ?script) (snd ?mem)"
    using marks by (cases "st_effects ?s k") (simp_all add: claim_reply_def claim_result_def)
  then show "\<exists>n r2. ?script = (n, r2) \<and> n \<noteq> -1 \<and> fst ?mem = Inr (claim_reply n) \<and> mirrors S sid r2 (snd ?mem)"
    by (cases ?script) simp
qed

lemma commit_refines:
  assumes "redis_laws (rs_redis S)" and "0 < rs_ttl S" and "mirrors S sid r s"
  shows "same_outcome unit_reply S sid (redis_commit_effect S sid k e r) (commit_effect k e s)"
  unfolding redis_commit_effect_def commit_effect_script_def commit_effect_def mark_text
proof (rule guarded_same [OF assms])
  fix r1
  let ?s = "s\<lparr>st_max_epoch := e\<rparr>"
  assume r1: "mirrors S sid r1 ?s"
  have same: "?s\<lparr>st_effects := (st_effects ?s)(k \<mapsto> effect_committed)\<rparr> = ?s" if "st_effects ?s k = Some effect_committed"
    using that by (simp add: fun_upd_idem)
  show "\<exists>n r2. (0, if rd_hget (rs_redis S) (fx_key sid) k r1 = Some (RText (effect_pending_state e))
        then rd_hset (rs_redis S) (fx_key sid) k (RText effect_committed) r1 else r1) = (n, r2) \<and> n \<noteq> -1 \<and>
      fst (if st_effects ?s k \<in> {Some (effect_pending_state e), Some effect_committed}
           then (Inr (), ?s\<lparr>st_effects := (st_effects ?s)(k \<mapsto> effect_committed)\<rparr>) else (Inr (), ?s)) = Inr (unit_reply n) \<and>
      mirrors S sid r2 (snd (if st_effects ?s k \<in> {Some (effect_pending_state e), Some effect_committed}
           then (Inr (), ?s\<lparr>st_effects := (st_effects ?s)(k \<mapsto> effect_committed)\<rparr>) else (Inr (), ?s)))"
    using effects_mirror(1) [OF assms(1) r1, of k effect_committed] effects_mirror(3) [OF assms(1) r1, of k] r1 same
    by (auto simp: unit_reply_def)
qed

lemma revert_refines:
  assumes "redis_laws (rs_redis S)" and "0 < rs_ttl S" and "mirrors S sid r s"
  shows "same_outcome unit_reply S sid (redis_revert_effect S sid k e r) (revert_effect k e s)"
  unfolding redis_revert_effect_def revert_effect_script_def revert_effect_def mark_text
proof (rule guarded_same [OF assms])
  fix r1
  let ?s = "s\<lparr>st_max_epoch := e\<rparr>"
  assume r1: "mirrors S sid r1 ?s"
  show "\<exists>n r2. (0, if rd_hget (rs_redis S) (fx_key sid) k r1 = Some (RText (effect_pending_state e))
        then rd_hdel (rs_redis S) (fx_key sid) k r1 else r1) = (n, r2) \<and> n \<noteq> -1 \<and>
      fst (if st_effects ?s k = Some (effect_pending_state e) then (Inr (), ?s\<lparr>st_effects := (st_effects ?s)(k := None)\<rparr>) else (Inr (), ?s)) =
        Inr (unit_reply n) \<and>
      mirrors S sid r2 (snd (if st_effects ?s k = Some (effect_pending_state e)
        then (Inr (), ?s\<lparr>st_effects := (st_effects ?s)(k := None)\<rparr>) else (Inr (), ?s)))"
    using effects_mirror(2) [OF assms(1) r1, of k] effects_mirror(3) [OF assms(1) r1, of k] r1 by (auto simp: unit_reply_def)
qed

section \<open>Writes\<close>

lemma write_added_refines:
  assumes laws: "redis_laws (rs_redis S)" and K: "known_by_text K" "entries_from K (st_entries s)" "content d \<in> K" and r: "mirrors S sid r s"
  shows "mirrors S sid (write_item (rs_redis S) sid rv (redis_identity d, True, dumps (rs_codec S) d) r) (s\<lparr>st_entries := apply_added rv (st_entries s) d\<rparr>)"
    and "entries_from K (apply_added rv (st_entries s) d)"
proof -
  note up = by_text_update [OF K, of "\<lparr>en_dp = d, en_added = rv, en_updated = rv\<rparr>"]
  show "entries_from K (apply_added rv (st_entries s) d)" using up(2) K(3) by (simp add: apply_added_def)
  have "by_text (apply_added rv (st_entries s) d) = (by_text (st_entries s))(redis_identity d \<mapsto> \<lparr>en_dp = d, en_added = rv, en_updated = rv\<rparr>)"
    using up(1) K(3) by (simp add: apply_added_def)
  then show "mirrors S sid (write_item (rs_redis S) sid rv (redis_identity d, True, dumps (rs_codec S) d) r) (s\<lparr>st_entries := apply_added rv (st_entries s) d\<rparr>)"
    using r by (simp add: mirrors_def entries_rel_def write_item_def Let_def redis_hset [OF laws])
qed

lemma write_updated_refines:
  assumes laws: "redis_laws (rs_redis S)" and K: "known_by_text K" "entries_from K (st_entries s)" "content d \<in> K" and r: "mirrors S sid r s"
  shows "mirrors S sid (write_item (rs_redis S) sid rv (redis_identity d, False, dumps (rs_codec S) d) r) (s\<lparr>st_entries := apply_updated rv (st_entries s) d\<rparr>)"
    and "entries_from K (apply_updated rv (st_entries s) d)"
proof -
  define added where "added = (case map_of (st_entries s) (identity_key d) of None \<Rightarrow> 0 | Some existing \<Rightarrow> en_added existing)"
  note up = by_text_update [OF K, of "\<lparr>en_dp = d, en_added = added, en_updated = rv\<rparr>"]
  have eq: "apply_updated rv (st_entries s) d = AList.update (identity_key d) \<lparr>en_dp = d, en_added = added, en_updated = rv\<rparr> (st_entries s)"
    by (simp add: apply_updated_def added_def)
  show "entries_from K (apply_updated rv (st_entries s) d)" using up(2) K(3) by (simp add: eq)
  have new: "by_text (apply_updated rv (st_entries s) d) = (by_text (st_entries s))(redis_identity d \<mapsto> \<lparr>en_dp = d, en_added = added, en_updated = rv\<rparr>)"
    using up(1) K(3) by (simp add: eq)
  have old: "redis_num (rd_hget (rs_redis S) (added_key sid) (redis_identity d) r) = added"
  proof (cases "map_of (st_entries s) (identity_key d)")
    case None
    then have "by_text (st_entries s) (redis_identity d) = None" by (simp add: by_text_lookup [OF K])
    with r None show ?thesis by (simp add: mirrors_def entries_rel_def added_def)
  next
    case (Some en)
    then have "by_text (st_entries s) (redis_identity d) = Some en" by (simp add: by_text_lookup [OF K])
    with r Some show ?thesis by (simp add: mirrors_def entries_rel_def added_def)
  qed
  show "mirrors S sid (write_item (rs_redis S) sid rv (redis_identity d, False, dumps (rs_codec S) d) r) (s\<lparr>st_entries := apply_updated rv (st_entries s) d\<rparr>)"
    using r old by (simp add: mirrors_def entries_rel_def write_item_def Let_def redis_hset [OF laws] new)
qed

text \<open>A batch of triples against the same steps on the entries.\<close>

fun apply_item :: "revision \<Rightarrow> bool \<times> data_point \<Rightarrow> (identity \<times> st_entry) list \<Rightarrow> (identity \<times> st_entry) list" where
  "apply_item rv (is_new, d) E = (if is_new then apply_added rv E d else apply_updated rv E d)"

definition item_triple :: "'j redis_codec \<Rightarrow> bool \<times> data_point \<Rightarrow> 'j redis_triple" where
  "item_triple C = (\<lambda>(is_new, d). (redis_identity d, is_new, dumps C d))"

lemma write_items_refine:
  assumes laws: "redis_laws (rs_redis S)" and K: "known_by_text K" and "entries_from K (st_entries s)" and "mirrors S sid r s"
    and "\<forall>x \<in> set xs. content (snd x) \<in> K"
  shows "mirrors S sid (fold (write_item (rs_redis S) sid rv) (map (item_triple (rs_codec S)) xs) r) (s\<lparr>st_entries := fold (apply_item rv) xs (st_entries s)\<rparr>)
     \<and> entries_from K (fold (apply_item rv) xs (st_entries s))"
  using assms(3-5)
proof (induction xs arbitrary: r s)
  case (Cons x xs)
  obtain is_new d where x: "x = (is_new, d)" by (cases x)
  with Cons.prems(3) have d: "content d \<in> K" by simp
  let ?s = "s\<lparr>st_entries := apply_item rv x (st_entries s)\<rparr>"
  have "mirrors S sid (write_item (rs_redis S) sid rv (item_triple (rs_codec S) x) r) ?s \<and> entries_from K (st_entries ?s)"
    using write_added_refines [OF laws K Cons.prems(1) d Cons.prems(2), of rv] write_updated_refines [OF laws K Cons.prems(1) d Cons.prems(2), of rv] x
    by (cases is_new) (simp_all add: item_triple_def)
  with Cons.IH [of ?s "write_item (rs_redis S) sid rv (item_triple (rs_codec S) x) r"] Cons.prems(3) show ?case by simp
qed simp

text \<open>The whole script on a batch, once the epoch is accepted.\<close>

definition batch :: "(bool \<times> data_point) list \<Rightarrow> (session_state, revision) op" where
  "batch xs s = (if xs = [] then (Inr (st_revision s), s)
     else (Inr (st_revision s + 1), s\<lparr>st_entries := fold (apply_item (st_revision s + 1)) xs (st_entries s), st_revision := st_revision s + 1\<rparr>))"

lemma batch_refines:
  assumes laws: "redis_laws (rs_redis S)" and ttl: "0 < rs_ttl S" and K: "known_by_text K" and inE: "entries_from K (st_entries s)" and r: "mirrors S sid r s"
    and xs: "\<forall>x \<in> set xs. content (snd x) \<in> K" and s: "0 \<le> st_revision s"
  shows "same_outcome id S sid (redis_apply S sid (map (item_triple (rs_codec S)) xs) e r) (bindE (store_guard_epoch e) (\<lambda>_. batch xs) s)"
  unfolding redis_apply_def write_script_def
proof (rule guarded_same [OF laws ttl r])
  fix r1
  let ?s = "s\<lparr>st_max_epoch := e\<rparr>"
  let ?R = "rs_redis S"
  assume r1: "mirrors S sid r1 ?s"
  let ?script = "if map (item_triple (rs_codec S)) xs = [] then (redis_num (rd_get ?R (rev_key sid) r1), r1)
     else case rd_incr ?R (rev_key sid) r1 of (rv, r2) \<Rightarrow> (rv, fold (write_item ?R sid rv) (map (item_triple (rs_codec S)) xs) r2)"
  have "fst ?script \<noteq> -1 \<and> fst (batch xs ?s) = Inr (id (fst ?script)) \<and> mirrors S sid (snd ?script) (snd (batch xs ?s))"
  proof (cases "xs = []")
    case True
    with r1 s show ?thesis by (simp add: batch_def mirrors_def)
  next
    case False
    have held: "number_held (rd_get ?R (rev_key sid) r1)" and num: "redis_num (rd_get ?R (rev_key sid) r1) = st_revision s"
      using r1 by (simp_all add: mirrors_def)
    note incr = redis_incr [OF laws, of "rev_key sid" r1, simplified key_kinds, OF _ held, simplified num]
    obtain rv r2 where i: "rd_incr ?R (rev_key sid) r1 = (rv, r2)" by (cases "rd_incr ?R (rev_key sid) r1")
    have rv: "rv = st_revision s + 1" using incr(1) i by simp
    have "mirrors S sid r2 (?s\<lparr>st_revision := st_revision s + 1\<rparr>)"
      using r1 incr(2,3) i by (simp add: mirrors_def entries_rel_def number_held_def)
    from write_items_refine [OF laws K _ this xs, of "st_revision s + 1"] inE
    have "mirrors S sid (fold (write_item ?R sid rv) (map (item_triple (rs_codec S)) xs) r2)
        (?s\<lparr>st_revision := st_revision s + 1, st_entries := fold (apply_item rv) xs (st_entries s)\<rparr>)" by (simp add: rv)
    with False i rv s show ?thesis by (simp add: batch_def mirrors_def)
  qed
  then show "\<exists>n r2. ?script = (n, r2) \<and> n \<noteq> -1 \<and> fst (batch xs ?s) = Inr (id n) \<and> mirrors S sid r2 (snd (batch xs ?s))"
    by (cases ?script) simp
qed

lemma fold_added: "fold (apply_item rv) (map (Pair True) ds) E = foldl (apply_added rv) E ds"
  by (induction ds arbitrary: E) simp_all

lemma fold_updated: "fold (apply_item rv) (map (Pair False) ds) E = foldl (apply_updated rv) E ds"
  by (induction ds arbitrary: E) simp_all

lemma apply_resolved_batch:
  "store_apply_resolved added updated e = bindE (store_guard_epoch e) (\<lambda>_. batch (map (Pair True) added @ map (Pair False) updated))"
  unfolding store_apply_resolved_def
  by (rule arg_cong [where f = "bindE (store_guard_epoch e)"]) (auto simp: fun_eq_iff batch_def Let_def fold_added fold_updated)

lemma apply_resolved_refines:
  assumes "redis_laws (rs_redis S)" and "0 < rs_ttl S" and "known_by_text K" and "entries_from K (st_entries s)" and "mirrors S sid r s"
    and "\<forall>d \<in> set added \<union> set updated. content d \<in> K" and "0 \<le> st_revision s"
  shows "same_outcome id S sid (redis_apply_resolved S sid added updated e r) (store_apply_resolved added updated e s)"
proof -
  let ?xs = "map (Pair True) added @ map (Pair False) updated"
  have triples: "map (\<lambda>d. (redis_identity d, True, dumps (rs_codec S) d)) added @ map (\<lambda>d. (redis_identity d, False, dumps (rs_codec S) d)) updated =
      map (item_triple (rs_codec S)) ?xs" by (simp add: item_triple_def)
  have "\<forall>x \<in> set ?xs. content (snd x) \<in> K" using assms(6) by auto
  from batch_refines [OF assms(1-5) this assms(7)] show ?thesis
    unfolding redis_apply_resolved_def apply_resolved_batch triples .
qed

text \<open>
  \<^verbatim>\<open>write\<close> decides each observation against the hash as it was before the batch, the in-memory
  store against the entries the batch has reached. Where the batch observes every identity once the
  two decide alike.
\<close>

definition decided :: "(identity \<times> st_entry) list \<Rightarrow> data_point \<Rightarrow> (bool \<times> data_point) list" where
  "decided E d =
     (case map_of E (identity_key d) of
        None \<Rightarrow> [(True, d)]
      | Some en \<Rightarrow> if last_retrieved (en_dp en) < last_retrieved d then [(False, reobserved (en_dp en) (last_retrieved d))] else [])"

lemma content_reobserved [simp]: "content (reobserved d t) = content d"
  by (simp add: content_def reobserved_def)

lemma redis_identity_reobserved [simp]: "redis_identity (reobserved d t) = redis_identity d"
  by (simp add: redis_identity_def reobserved_def)

lemma decided_content:
  assumes "entries_from K E" and "content d \<in> K" and "x \<in> set (decided E d)"
  shows "content (snd x) \<in> K"
proof (cases "map_of E (identity_key d)")
  case None
  with assms show ?thesis by (simp add: decided_def)
next
  case (Some en)
  from map_of_SomeD [OF this] assms(1) have "content (en_dp en) \<in> K" by (auto simp: entries_from_def)
  with Some assms show ?thesis by (simp add: decided_def split: if_splits)
qed

lemma write_one_decided:
  assumes "entries_from K E"
  shows "write_one rv (E, c) d = (fold (apply_item rv) (decided E d) E, c \<or> decided E d \<noteq> [])"
proof (cases "map_of E (identity_key d)")
  case None
  then show ?thesis by (simp add: write_one_def decided_def apply_added_def)
next
  case (Some en)
  then have key: "identity_key (en_dp en) = identity_key d" using map_of_SomeD [of E "identity_key d" en] assms by (auto simp: entries_from_def)
  obtain p a u where en: "en = \<lparr>en_dp = p, en_added = a, en_updated = u\<rparr>" by (cases en)
  from Some key show ?thesis by (simp add: write_one_def decided_def apply_updated_def en)
qed

lemma decided_elsewhere:
  assumes "entries_from K E" and "identity_key d \<noteq> k"
  shows "map_of (fold (apply_item rv) (decided E d) E) k = map_of E k"
proof (cases "map_of E (identity_key d)")
  case None
  with assms(2) show ?thesis by (simp add: decided_def apply_added_def update_conv')
next
  case (Some en)
  then have key: "identity_key (en_dp en) = identity_key d" using map_of_SomeD [of E "identity_key d" en] assms(1) by (auto simp: entries_from_def)
  with Some assms(2) show ?thesis by (simp add: decided_def apply_updated_def update_conv')
qed

lemma entries_from_items:
  assumes K: "known_by_text K"
  shows "entries_from K E \<Longrightarrow> \<forall>x \<in> set xs. content (snd x) \<in> K \<Longrightarrow> entries_from K (fold (apply_item rv) xs E)"
proof (induction xs arbitrary: E)
  case (Cons x xs)
  obtain is_new d where x: "x = (is_new, d)" by (cases x)
  with Cons.prems have d: "content d \<in> K" by simp
  have "entries_from K (apply_item rv x E)"
    using by_text_update(2) [OF K Cons.prems(1) d] d x by (cases is_new) (simp_all add: apply_added_def apply_updated_def)
  with Cons show ?case by simp
qed simp

lemma write_fold_decided:
  assumes K: "known_by_text K"
  shows "entries_from K E \<Longrightarrow> \<forall>d \<in> set ds. content d \<in> K \<Longrightarrow> distinct (map identity_key ds) \<Longrightarrow>
    \<forall>d \<in> set ds. map_of E (identity_key d) = map_of E0 (identity_key d) \<Longrightarrow>
    foldl (write_one rv) (E, c) ds = (fold (apply_item rv) (concat (map (decided E0) ds)) E, c \<or> concat (map (decided E0) ds) \<noteq> [])"
proof (induction ds arbitrary: E c)
  case (Cons d ds)
  have same: "decided E d = decided E0 d" using Cons.prems(4) by (simp add: decided_def)
  let ?E = "fold (apply_item rv) (decided E0 d) E"
  have E: "entries_from K ?E"
    using entries_from_items [OF K Cons.prems(1), of "decided E0 d" rv] decided_content [OF Cons.prems(1), of d] Cons.prems(2) same by auto
  have rest: "map_of ?E (identity_key x) = map_of E0 (identity_key x)" if "x \<in> set ds" for x
  proof -
    have "identity_key d \<noteq> identity_key x" using Cons.prems(3) that by auto
    with decided_elsewhere [OF Cons.prems(1), of d "identity_key x" rv] same Cons.prems(4) that show ?thesis by simp
  qed
  have "foldl (write_one rv) (?E, c \<or> decided E0 d \<noteq> []) ds =
      (fold (apply_item rv) (concat (map (decided E0) ds)) ?E, (c \<or> decided E0 d \<noteq> []) \<or> concat (map (decided E0) ds) \<noteq> [])"
    using Cons.IH [OF E, of "c \<or> decided E0 d \<noteq> []"] Cons.prems(2,3) rest by simp
  moreover have "foldl (write_one rv) (E, c) (d # ds) = foldl (write_one rv) (?E, c \<or> decided E0 d \<noteq> []) ds"
    by (simp add: write_one_decided [OF Cons.prems(1)] same)
  ultimately show ?case by auto
qed simp

lemma write_batch:
  assumes "known_by_text K" and "entries_from K (st_entries s)" and "\<forall>d \<in> set ds. content d \<in> K" and "distinct (map identity_key ds)"
  shows "store_write ds e s = bindE (store_guard_epoch e) (\<lambda>_. batch (concat (map (decided (st_entries s)) ds))) s"
proof -
  let ?xs = "concat (map (decided (st_entries s)) ds)"
  have "foldl (write_one (st_revision s + 1)) (st_entries s, False) ds = (fold (apply_item (st_revision s + 1)) ?xs (st_entries s), ?xs \<noteq> [])"
    using write_fold_decided [OF assms, of "st_entries s" "st_revision s + 1" False] by simp
  then show ?thesis
    by (cases "?xs = []") (simp_all del: concat_eq_Nil_conv add: store_write_def bindE_def store_guard_epoch_def batch_def Let_def)
qed

lemma write_triples_decided:
  assumes laws: "redis_laws (rs_redis S)" and codec: "codec_ok (rs_codec S) K" and K: "known_by_text K"
    and E: "entries_from K (st_entries s)" and r: "mirrors S sid r s" and ds: "\<forall>d \<in> set ds. content d \<in> K"
  shows "write_triples (rs_codec S) (rd_hgetall (rs_redis S) (dp_key sid) r) ds =
     Inr (map (item_triple (rs_codec S)) (concat (map (decided (st_entries s)) ds)))"
  using ds
proof (induction ds)
  case (Cons d ds)
  then have d: "content d \<in> K" by simp
  let ?current = "rd_hgetall (rs_redis S) (dp_key sid) r"
  have "write_triple (rs_codec S) ?current d = Inr (map (item_triple (rs_codec S)) (decided (st_entries s) d))"
  proof (cases "map_of (st_entries s) (identity_key d)")
    case None
    then have "by_text (st_entries s) (redis_identity d) = None" by (simp add: by_text_lookup [OF K E d])
    with r None show ?thesis
      by (simp add: write_triple_def redis_hgetall [OF laws] mirrors_def entries_rel_def decided_def item_triple_def)
  next
    case (Some en)
    then have en: "by_text (st_entries s) (redis_identity d) = Some en" by (simp add: by_text_lookup [OF K E d])
    have key: "identity_key (en_dp en) = identity_key d" "content (en_dp en) \<in> K"
      using map_of_SomeD [OF Some] E by (auto simp: entries_from_def)
    then have "redis_identity (en_dp en) = redis_identity d" using known_by_textD [OF K key(2) d] by simp
    moreover have "loads (rs_codec S) (dumps (rs_codec S) (en_dp en)) = Inr (en_dp en)" using codec key(2) by (simp add: codec_ok_def)
    moreover have "map_of ?current (redis_identity d) = Some (RJson (dumps (rs_codec S) (en_dp en)))"
      using r en by (simp add: redis_hgetall [OF laws] mirrors_def entries_rel_def)
    ultimately show ?thesis using Some by (simp add: write_triple_def decided_def item_triple_def)
  qed
  with Cons show ?case by simp
qed simp

lemma write_refines:
  assumes "redis_laws (rs_redis S)" and "0 < rs_ttl S" and "known_by_text K" and "entries_from K (st_entries s)" and "mirrors S sid r s"
    and codec: "codec_ok (rs_codec S) K" and ds: "\<forall>d \<in> set ds. content d \<in> K" "distinct (map identity_key ds)" and "0 \<le> st_revision s"
  shows "same_outcome id S sid (redis_write S sid ds e r) (store_write ds e s)"
proof -
  have "\<forall>x \<in> set (concat (map (decided (st_entries s)) ds)). content (snd x) \<in> K"
    using decided_content [OF assms(4)] ds(1) by auto
  from batch_refines [OF assms(1-5) this assms(9)]
  show ?thesis
    unfolding write_batch [OF assms(3,4) ds] redis_write_def write_triples_decided [OF assms(1) codec assms(3,4,5) ds(1)] by simp
qed


section \<open>The reads\<close>

lemma parse_entries_map:
  "(\<And>x. x \<in> set L \<Longrightarrow> parse_entry C (fst (f x)) = Inr (fst (g x)) \<and> snd (f x) = snd (g x)) \<Longrightarrow> parse_entries C (map f L) = Inr (map g L)"
proof (induction L)
  case (Cons x L)
  obtain v a u where f: "f x = (v, a, u)" by (cases "f x") auto
  obtain p where "g x = (p, a, u)" and "parse_entry C v = Inr p" using Cons.prems [of x] f by (cases "g x") auto
  with Cons.IH Cons.prems f show ?case by simp
qed simp

definition entry_read :: "st_entry \<Rightarrow> data_point \<times> int \<times> int" where
  "entry_read en = (en_dp en, en_added en, en_updated en)"

lemma entries_by_text:
  assumes "known_by_text K" and "entries_from K E"
  shows "dom (by_text E) = (\<lambda>p. redis_identity (en_dp (snd p))) ` set E"
    and "distinct (map (\<lambda>p. redis_identity (en_dp (snd p))) E)"
    and "p \<in> set E \<Longrightarrow> by_text E (redis_identity (en_dp (snd p))) = Some (snd p)"
proof -
  have inj: "redis_identity (en_dp (snd p)) = redis_identity (en_dp (snd q)) \<longleftrightarrow> fst p = fst q" if "p \<in> set E" "q \<in> set E" for p q
    using known_by_textD [OF assms(1), of "en_dp (snd p)" "en_dp (snd q)"] assms(2) that by (simp add: entries_from_def)
  have d: "distinct (map fst E)" using assms(2) by (simp add: entries_from_def)
  then have "distinct E" and inj_fst: "inj_on fst (set E)" by (auto simp: distinct_map)
  then have "inj_on (\<lambda>p. redis_identity (en_dp (snd p))) (set E)" by (simp add: inj_on_def inj)
  with \<open>distinct E\<close> show ids: "distinct (map (\<lambda>p. redis_identity (en_dp (snd p))) E)" by (simp add: distinct_map)
  show "dom (by_text E) = (\<lambda>p. redis_identity (en_dp (snd p))) ` set E" by (simp add: by_text_def dom_map_of_conv_image_fst image_image)
  show "by_text E (redis_identity (en_dp (snd p))) = Some (snd p)" if "p \<in> set E"
    unfolding by_text_def by (rule map_of_is_SomeI) (use ids that in \<open>auto simp: comp_def\<close>)
qed

lemma entries_read:
  assumes laws: "redis_laws (rs_redis S)" and codec: "codec_ok (rs_codec S) K" and K: "known_by_text K"
    and E: "entries_from K (st_entries s)" and r: "mirrors S sid r s"
  obtains xs where "parse_entries (rs_codec S) (redis_entries S sid r) = Inr xs"
    and "mset xs = mset (map (\<lambda>p. entry_read (snd p)) (st_entries s))"
proof -
  let ?E = "st_entries s" and ?L = "rd_hgetall (rs_redis S) (dp_key sid) r"
  let ?id = "\<lambda>p. redis_identity (en_dp (snd p))"
  let ?g = "\<lambda>i. entry_read (the (by_text ?E i))"
  note texts = entries_by_text [OF K E]
  have look: "map_of ?L i = map_option (\<lambda>en. RJson (dumps (rs_codec S) (en_dp en))) (by_text ?E i)" for i
    using r by (cases "by_text ?E i") (simp_all add: redis_hgetall [OF laws] mirrors_def entries_rel_def)
  have keys: "set (map fst ?L) = dom (by_text ?E)"
    using look by (auto simp: dom_map_of_conv_image_fst [symmetric] dom_def)
  have L: "distinct (map fst ?L)" by (rule redis_hgetall(1) [OF laws]) simp
  have row: "parse_entry (rs_codec S) raw = Inr (fst (?g i)) \<and>
      redis_num (rd_hget (rs_redis S) (added_key sid) i r) = fst (snd (?g i)) \<and>
      redis_num (rd_hget (rs_redis S) (upd_key sid) i r) = snd (snd (?g i))" if "(i, raw) \<in> set ?L" for i raw
  proof -
    have "map_of ?L i = Some raw" by (rule map_of_is_SomeI [OF L that])
    with look [of i] obtain en where en: "by_text ?E i = Some en" "raw = RJson (dumps (rs_codec S) (en_dp en))" by (cases "by_text ?E i") auto
    then have "i \<in> dom (by_text ?E)" by (simp add: dom_def)
    then obtain p where "p \<in> set ?E" "i = ?id p" unfolding texts(1) by blast
    with texts(3) en(1) have "en = snd p" by simp
    with \<open>p \<in> set ?E\<close> E have "content (en_dp en) \<in> K" by (simp add: entries_from_def)
    with codec have "loads (rs_codec S) (dumps (rs_codec S) (en_dp en)) = Inr (en_dp en)" by (simp add: codec_ok_def)
    with en r show ?thesis by (simp add: parse_entry_def entry_read_def mirrors_def entries_rel_def)
  qed
  have "parse_entries (rs_codec S) (redis_entries S sid r) = Inr (map (\<lambda>x. ?g (fst x)) ?L)"
    unfolding redis_entries_def by (rule parse_entries_map) (use row in \<open>auto simp: redis_hgetall [OF laws] intro: prod_eqI\<close>)
  moreover have "mset (map fst ?L) = mset (map ?id ?E)"
  proof -
    have "set (map fst ?L) = set (map ?id ?E)" using keys texts(1) by simp
    then show ?thesis using set_eq_iff_mset_eq_distinct [OF L texts(2)] by simp
  qed
  then have "image_mset ?g (mset (map fst ?L)) = image_mset ?g (mset (map ?id ?E))" by simp
  then have "mset (map (\<lambda>x. ?g (fst x)) ?L) = mset (map (\<lambda>p. ?g (?id p)) ?E)"
    by (simp add: image_mset.compositionality comp_def)
  moreover have "map (\<lambda>p. ?g (?id p)) ?E = map (\<lambda>p. entry_read (snd p)) ?E" using texts(3) by simp
  ultimately show ?thesis using that by metis
qed

definition reads_agree :: "('r, 'j) redis_store \<Rightarrow> session_id \<Rightarrow> 'r \<Rightarrow> session_state \<Rightarrow> bool" where
  "reads_agree S sid r s \<longleftrightarrow>
     redis_revision S sid r = st_revision s \<and>
     redis_get_watermark S sid r = store_get_watermark s \<and>
     redis_get_effect_state S sid r = get_effect_state s \<and>
     redis_get_fingerprint S sid r = st_fingerprint s \<and>
     redis_get_deadline S sid r = Inr (st_deadline s) \<and>
     (\<exists>v. redis_snapshot S sid r = Inr v \<and> mset v = mset (store_snapshot s)) \<and>
     (\<forall>since. \<exists>c. redis_change_set_since S sid r since = Inr c \<and>
        mset (cs_added c) = mset (cs_added (store_change_set_since s since)) \<and>
        mset (cs_updated c) = mset (cs_updated (store_change_set_since s since)))"

lemma filtered_reads:
  assumes "mset xs = mset (map (\<lambda>p. entry_read (snd p)) E)" and "\<And>en. Q (entry_read en) = P en"
  shows "mset (map fst (filter Q xs)) = mset (map (\<lambda>p. en_dp (snd p)) (filter (\<lambda>p. P (snd p)) E))"
proof -
  have "mset (map fst (filter Q xs)) = image_mset fst (filter_mset Q (mset xs))" by (simp add: mset_filter)
  also have "\<dots> = mset (map fst (filter Q (map (\<lambda>p. entry_read (snd p)) E)))" by (simp only: assms(1) mset_filter mset_map)
  also have "map fst (filter Q (map (\<lambda>p. entry_read (snd p)) E)) = map (\<lambda>p. en_dp (snd p)) (filter (\<lambda>p. P (snd p)) E)"
    by (induction E) (simp_all add: assms(2), simp_all add: entry_read_def)
  finally show ?thesis .
qed

lemma mirrors_read:
  assumes laws: "redis_laws (rs_redis S)" and codec: "codec_ok (rs_codec S) K" and K: "known_by_text K"
    and E: "entries_from K (st_entries s)" and r: "mirrors S sid r s"
  shows "reads_agree S sid r s"
  unfolding reads_agree_def
proof (intro conjI allI)
  from entries_read [OF assms] obtain xs where xs: "parse_entries (rs_codec S) (redis_entries S sid r) = Inr xs"
    "mset xs = mset (map (\<lambda>p. entry_read (snd p)) (st_entries s))" .
  show "redis_revision S sid r = st_revision s" using r by (simp add: redis_revision_def mirrors_def)
  show "redis_get_watermark S sid r = store_get_watermark s"
    using r by (auto simp: redis_get_watermark_def store_get_watermark_def mirrors_def fun_eq_iff split: option.split)
  show "redis_get_effect_state S sid r = get_effect_state s"
    using r by (auto simp: redis_get_effect_state_def redis_text_def get_effect_state_def mirrors_def fun_eq_iff split: option.split)
  show "redis_get_fingerprint S sid r = st_fingerprint s"
    using r by (auto simp: redis_get_fingerprint_def redis_text_def mirrors_def split: option.split)
  show "redis_get_deadline S sid r = Inr (st_deadline s)"
    using r codec by (cases "st_deadline s") (simp_all add: redis_get_deadline_def redis_text_def mirrors_def codec_ok_def)
  have "mset (map fst xs) = mset (store_snapshot s)"
    using filtered_reads [OF xs(2), of "\<lambda>_. True" "\<lambda>_. True"] by (simp add: store_snapshot_def)
  with xs(1) show "\<exists>v. redis_snapshot S sid r = Inr v \<and> mset v = mset (store_snapshot s)" by (simp add: redis_snapshot_def)
  fix since
  have "mset (map fst (filter (\<lambda>(d, a, u). since < a) xs)) = mset (cs_added (store_change_set_since s since))"
    using filtered_reads [OF xs(2), of "\<lambda>(d, a, u). since < a" "\<lambda>en. since < en_added en"]
    by (simp add: store_change_set_since_def entry_read_def)
  moreover have "mset (map fst (filter (\<lambda>(d, a, u). \<not> since < a \<and> since < u) xs)) = mset (cs_updated (store_change_set_since s since))"
    using filtered_reads [OF xs(2), of "\<lambda>(d, a, u). \<not> since < a \<and> since < u" "\<lambda>en. en_added en \<le> since \<and> since < en_updated en"]
    by (simp add: store_change_set_since_def entry_read_def not_less)
  ultimately show "\<exists>c. redis_change_set_since S sid r since = Inr c \<and>
        mset (cs_added c) = mset (cs_added (store_change_set_since s since)) \<and>
        mset (cs_updated c) = mset (cs_updated (store_change_set_since s since))"
    using xs(1) by (simp add: redis_change_set_since_def)
qed

section \<open>The adapter against the in-memory one\<close>

datatype store_reply = Revised revision | Claimed effect_claim | Noted

definition replying :: "('a \<Rightarrow> store_reply) \<Rightarrow> (orca_error + 'a) \<times> 's \<Rightarrow> (orca_error + store_reply) \<times> 's" where
  "replying f res = (case fst res of Inl err \<Rightarrow> Inl err | Inr x \<Rightarrow> Inr (f x), snd res)"

fun memory_does :: "epoch \<Rightarrow> store_op \<Rightarrow> (session_state, store_reply) op" where
  "memory_does e (OWrite ds) s = replying Revised (store_write ds e s)"
| "memory_does e (OApply added updated) s = replying Revised (store_apply_resolved added updated e s)"
| "memory_does e (OWatermark oid rv) s = replying (\<lambda>_. Noted) (store_set_watermark oid rv e s)"
| "memory_does e (OClaim k reclaim_stale) s = replying Claimed (claim_effect k reclaim_stale e s)"
| "memory_does e (OCommit k) s = replying (\<lambda>_. Noted) (commit_effect k e s)"
| "memory_does e (ORevert k) s = replying (\<lambda>_. Noted) (revert_effect k e s)"
| "memory_does e (ODeadline t) s = replying (\<lambda>_. Noted) (store_set_deadline t e s)"
| "memory_does e (OFingerprint f) s = replying (\<lambda>_. Noted) (store_set_fingerprint f e s)"

fun redis_does :: "('r, 'j) redis_store \<Rightarrow> session_id \<Rightarrow> epoch \<Rightarrow> store_op \<Rightarrow> ('r, store_reply) op" where
  "redis_does S sid e (OWrite ds) r = replying Revised (redis_write S sid ds e r)"
| "redis_does S sid e (OApply added updated) r = replying Revised (redis_apply_resolved S sid added updated e r)"
| "redis_does S sid e (OWatermark oid rv) r = replying (\<lambda>_. Noted) (redis_set_watermark S sid oid rv e r)"
| "redis_does S sid e (OClaim k reclaim_stale) r = replying Claimed (redis_claim_effect S sid k reclaim_stale e r)"
| "redis_does S sid e (OCommit k) r = replying (\<lambda>_. Noted) (redis_commit_effect S sid k e r)"
| "redis_does S sid e (ORevert k) r = replying (\<lambda>_. Noted) (redis_revert_effect S sid k e r)"
| "redis_does S sid e (ODeadline t) r = replying (\<lambda>_. Noted) (redis_set_deadline S sid t e r)"
| "redis_does S sid e (OFingerprint f) r = replying (\<lambda>_. Noted) (redis_set_fingerprint S sid f e r)"

fun run_all :: "(epoch \<Rightarrow> store_op \<Rightarrow> ('s, store_reply) op) \<Rightarrow> (epoch \<times> store_op) list \<Rightarrow> 's \<Rightarrow> (orca_error + store_reply) list \<times> 's" where
  "run_all does [] s = ([], s)"
| "run_all does ((e, x) # xs) s = (case does e x s of (reply, s1) \<Rightarrow> (case run_all does xs s1 of (replies, s2) \<Rightarrow> (reply # replies, s2)))"

text \<open>Operations whose observations are known by their text, no batch observing an identity twice.\<close>

fun op_fits :: "content set \<Rightarrow> store_op \<Rightarrow> bool" where
  "op_fits K (OWrite ds) = ((\<forall>d \<in> set ds. content d \<in> K) \<and> distinct (map identity_key ds))"
| "op_fits K (OApply added updated) = (\<forall>d \<in> set added \<union> set updated. content d \<in> K)"
| "op_fits K _ = True"

definition fresh_server :: "('r, 'j) redis \<Rightarrow> session_id \<Rightarrow> 'r \<Rightarrow> bool" where
  "fresh_server R sid r \<longleftrightarrow> rd_get R (epoch_key sid) r = None \<and> rd_get R (rev_key sid) r = None \<and>
     (\<forall>h \<in> {dp_key sid, added_key sid, upd_key sid, wm_key sid, fx_key sid, meta_key sid}. \<forall>f. rd_hget R h f r = None)"

lemma fresh_mirrors: "fresh_server (rs_redis S) sid r \<Longrightarrow> mirrors S sid r empty_session"
  by (simp add: fresh_server_def mirrors_def entries_rel_def by_text_def empty_session_def number_held_def)

lemma same_replying:
  "same_outcome reply S sid res mem \<Longrightarrow> fst (replying (\<lambda>n. f (reply n)) res) = fst (replying f mem) \<and>
     mirrors S sid (snd (replying (\<lambda>n. f (reply n)) res)) (snd (replying f mem))"
  by (simp add: same_outcome_def replying_def split: sum.split)

lemma claim_replying:
  assumes "redis_laws (rs_redis S)" and "0 < rs_ttl S" and "mirrors S sid r s"
  shows "fst (redis_claim_effect S sid k reclaim_stale e r) = fst (claim_effect k reclaim_stale e s) \<and>
     mirrors S sid (snd (redis_claim_effect S sid k reclaim_stale e r)) (snd (claim_effect k reclaim_stale e s))"
proof -
  let ?res = "checked S [epoch_key sid, fx_key sid] (claim_effect_script (rs_redis S) sid e k reclaim_stale r)"
  have known: "claim_result n \<noteq> None" if "fst ?res = Inr n" for n
    using that by (auto simp: checked_def claim_effect_script_def claim_result_def Let_def split: prod.splits if_splits bool.splits option.splits)
  from claim_refines [OF assms, of e k reclaim_stale] known show ?thesis
    by (cases ?res; cases "fst ?res") (auto simp: same_outcome_def redis_claim_effect_def claim_reply_def)
qed

lemma does_refines:
  assumes "redis_laws (rs_redis S)" and "0 < rs_ttl S" and "known_by_text K" and "entries_from K (st_entries s)" and "mirrors S sid r s"
    and "codec_ok (rs_codec S) K" and "op_fits K x" and "0 \<le> st_revision s"
  shows "fst (redis_does S sid e x r) = fst (memory_does e x s) \<and> mirrors S sid (snd (redis_does S sid e x r)) (snd (memory_does e x s))"
proof (cases x)
  case (OWrite ds)
  with assms(7) same_replying [OF write_refines [OF assms(1-6) _ _ assms(8)], of ds Revised] show ?thesis by simp
next
  case (OApply added updated)
  with assms(7) same_replying [OF apply_resolved_refines [OF assms(1-5) _ assms(8)], of added updated Revised] show ?thesis by simp
next
  case (OClaim k reclaim_stale)
  with claim_replying [OF assms(1,2,5), of k reclaim_stale e] show ?thesis by (simp add: replying_def)
next
  case (OWatermark oid rv)
  with same_replying [OF watermark_refines [OF assms(1,2,5)], of "\<lambda>_. Noted"] show ?thesis by simp
next
  case (OCommit k)
  with same_replying [OF commit_refines [OF assms(1,2,5)], of "\<lambda>_. Noted"] show ?thesis by simp
next
  case (ORevert k)
  with same_replying [OF revert_refines [OF assms(1,2,5)], of "\<lambda>_. Noted"] show ?thesis by simp
next
  case (ODeadline t)
  with same_replying [OF deadline_refines [OF assms(1,2,5)], of "\<lambda>_. Noted"] show ?thesis by simp
next
  case (OFingerprint f)
  with same_replying [OF fingerprint_refines [OF assms(1,2,5)], of "\<lambda>_. Noted"] show ?thesis by simp
qed

text \<open>What the in-memory state keeps meanwhile.\<close>

lemma batch_from:
  assumes "known_by_text K" and "entries_from K (st_entries s)" and "0 \<le> st_revision s" and "\<forall>x \<in> set xs. content (snd x) \<in> K"
  shows "entries_from K (st_entries (snd (bindE (store_guard_epoch e) (\<lambda>_. batch xs) s))) \<and>
     0 \<le> st_revision (snd (bindE (store_guard_epoch e) (\<lambda>_. batch xs) s))"
  using assms entries_from_items [OF assms(1,2,4)] by (simp add: bindE_def store_guard_epoch_def batch_def)

lemma does_from:
  assumes "known_by_text K" and "entries_from K (st_entries s)" and "0 \<le> st_revision s" and "op_fits K x"
  shows "entries_from K (st_entries (snd (memory_does e x s))) \<and> 0 \<le> st_revision (snd (memory_does e x s))"
proof (cases x)
  case (OWrite ds)
  with assms(4) have ds: "\<forall>d \<in> set ds. content d \<in> K" "distinct (map identity_key ds)" by simp_all
  have "\<forall>y \<in> set (concat (map (decided (st_entries s)) ds)). content (snd y) \<in> K" using decided_content [OF assms(2)] ds(1) by auto
  from batch_from [OF assms(1-3) this] OWrite show ?thesis by (simp add: replying_def write_batch [OF assms(1,2) ds])
next
  case (OApply added updated)
  with assms(4) have "\<forall>y \<in> set (map (Pair True) added @ map (Pair False) updated). content (snd y) \<in> K" by auto
  from batch_from [OF assms(1-3) this] OApply show ?thesis by (simp add: replying_def apply_resolved_batch)
qed (use assms in \<open>simp_all add: replying_def store_op_defs split: option.split\<close>)

lemma run_refines:
  assumes "redis_laws (rs_redis S)" and "0 < rs_ttl S" and "known_by_text K" and "codec_ok (rs_codec S) K"
  shows "entries_from K (st_entries s) \<Longrightarrow> mirrors S sid r s \<Longrightarrow> 0 \<le> st_revision s \<Longrightarrow> \<forall>p \<in> set xs. op_fits K (snd p) \<Longrightarrow>
     fst (run_all (redis_does S sid) xs r) = fst (run_all memory_does xs s) \<and>
     mirrors S sid (snd (run_all (redis_does S sid) xs r)) (snd (run_all memory_does xs s)) \<and>
     entries_from K (st_entries (snd (run_all memory_does xs s)))"
proof (induction xs arbitrary: r s)
  case (Cons p xs)
  obtain e x where p: "p = (e, x)" by (cases p)
  obtain reply r1 where r1: "redis_does S sid e x r = (reply, r1)" by (cases "redis_does S sid e x r")
  obtain reply' s1 where s1: "memory_does e x s = (reply', s1)" by (cases "memory_does e x s")
  have x: "op_fits K x" using Cons.prems(4) p by simp
  have one: "reply = reply'" "mirrors S sid r1 s1"
    using does_refines [OF assms(1-3) Cons.prems(1,2) assms(4) x Cons.prems(3), of e] r1 s1 by simp_all
  have "entries_from K (st_entries s1)" "0 \<le> st_revision s1"
    using does_from [OF assms(3) Cons.prems(1,3) x, of e] s1 by simp_all
  from Cons.IH [OF this(1) one(2) this(2)] Cons.prems(4) one(1) r1 s1 p show ?case by (simp add: case_prod_beta)
qed simp


text \<open>
  Also: Two observations of one identity in a batch overwrite each other in Redis, where the in-memory
  adapter merges them: the later one in the batch is kept even when it is the older.
\<close>

theorem redis_batch_overwrites:
  assumes "redis_laws (rs_redis S)" and "codec_ok (rs_codec S) K" and "0 < rs_ttl S" and "known_by_text K"
    and "fresh_server (rs_redis S) sid r" and "0 \<le> e"
    and "content d \<in> K" and "content d' \<in> K" and "identity_key d' = identity_key d" and "last_retrieved d' < last_retrieved d"
  shows "redis_snapshot S sid (snd (redis_write S sid [d, d'] e r)) = Inr [d'] \<and>
     store_snapshot (snd (store_write [d, d'] e empty_session)) = [d]"
proof
  note laws = assms(1)
  have id: "redis_identity d' = redis_identity d" using known_by_textD [OF assms(4,8,7)] assms(9) by simp
  have r: "mirrors S sid r empty_session" by (rule fresh_mirrors [OF assms(5)])
  have E: "entries_from K (st_entries empty_session)" by (simp add: entries_from_def empty_session_def)
  let ?xs = "[(True, d), (True, d')]"
  have triples: "write_triples (rs_codec S) (rd_hgetall (rs_redis S) (dp_key sid) r) [d, d'] = Inr (map (item_triple (rs_codec S)) ?xs)"
    using write_triples_decided [OF laws assms(2,4) E r, of "[d, d']"] assms(7,8) by (simp add: decided_def empty_session_def)
  have xs: "\<forall>x \<in> set ?xs. content (snd x) \<in> K" using assms(7,8) by simp
  let ?s = "snd (bindE (store_guard_epoch e) (\<lambda>_. batch ?xs) empty_session)"
  have "same_outcome id S sid (redis_write S sid [d, d'] e r) (bindE (store_guard_epoch e) (\<lambda>_. batch ?xs) empty_session)"
    unfolding redis_write_def triples sum.case by (rule batch_refines [OF laws assms(3,4) E r xs]) (simp add: empty_session_def)
  then have m: "mirrors S sid (snd (redis_write S sid [d, d'] e r)) ?s" by (simp add: same_outcome_def)
  have from_s: "entries_from K (st_entries ?s)" using batch_from [OF assms(4) E _ xs, of e] by (simp add: empty_session_def)
  have "store_snapshot ?s = [d']"
    using assms(6,9) by (simp add: bindE_def store_guard_epoch_def batch_def empty_session_def apply_added_def store_snapshot_def)
  with mirrors_read [OF laws assms(2,4) from_s m] show "redis_snapshot S sid (snd (redis_write S sid [d, d'] e r)) = Inr [d']"
    by (auto simp: reads_agree_def)
  show "store_snapshot (snd (store_write [d, d'] e empty_session)) = [d]"
    using assms(6,9,10) by (simp add: store_write_def bindE_def store_guard_epoch_def empty_session_def write_one_def store_snapshot_def)
qed

section \<open>Examples\<close>

text \<open>A server with two maps, one for the texts and one for the hashes.\<close>

type_synonym server = "(string \<Rightarrow> data_point redis_value option) \<times> (string \<Rightarrow> (string \<times> data_point redis_value) list)"

definition map_redis :: "(server, data_point) redis" where
  "map_redis = \<lparr>
     rd_get = \<lambda>k r. fst r k,
     rd_set = \<lambda>k v r. ((fst r)(k \<mapsto> v), snd r),
     rd_incr = \<lambda>k r. (redis_num (fst r k) + 1, ((fst r)(k \<mapsto> RText (show_int (redis_num (fst r k) + 1))), snd r)),
     rd_hget = \<lambda>h f r. map_of (snd r h) f,
     rd_hset = \<lambda>h f v r. (fst r, (snd r)(h := AList.update f v (snd r h))),
     rd_hdel = \<lambda>h f r. (fst r, (snd r)(h := AList.delete f (snd r h))),
     rd_hgetall = \<lambda>h r. AList.clearjunk (snd r h),
     rd_pexpire = \<lambda>k t r. r\<rparr>"

definition map_store :: "(server, data_point) redis_store" where
  "map_store = \<lparr>rs_redis = map_redis,
     rs_codec = \<lparr>dumps = (\<lambda>d. d), loads = Inr, isoformat = show_int,
       fromisoformat = (\<lambda>t. case parse_int t of None \<Rightarrow> Inl ValueError | Some n \<Rightarrow> Inr n)\<rparr>,
     rs_ttl = 86400000\<rparr>"

definition no_server :: server where "no_server = (Map.empty, \<lambda>_. [])"

definition some_contents :: "content set" where
  "some_contents = {(''fact'', PStr ''a''), (''fact'', PStr ''b'')}"

lemma map_redis_laws: "redis_laws map_redis"
  unfolding redis_laws_def map_redis_def by (simp add: update_conv' delete_conv' map_of_clearjunk)

lemma some_contents_known: "known_by_text some_contents"
proof -
  have "redis_identity d = redis_identity d' \<longleftrightarrow> identity_key d = identity_key d'"
    if "content d \<in> some_contents" and "content d' \<in> some_contents" for d d'
    using that by (auto simp: some_contents_def content_def redis_identity_def identity_key_def canonical_value_def repr_string_def repr_char_def prints_as_is_def Let_def)
  then show ?thesis by (simp add: known_by_text_def)
qed

lemma map_store_facts:
  "redis_laws (rs_redis map_store)" "codec_ok (rs_codec map_store) K" "0 < rs_ttl map_store" "fresh_server (rs_redis map_store) sid no_server"
  using map_redis_laws by (simp_all add: map_store_def codec_ok_def fresh_server_def map_redis_def no_server_def)

definition some_ops :: "(epoch \<times> store_op) list" where
  "some_ops = [(1, OWrite [sample_dp ''a'' 5, sample_dp ''b'' 6]), (1, OClaim ''mail'' False), (1, OCommit ''mail''),
     (2, OApply [] [sample_dp ''a'' 9]), (1, OWatermark ''op'' 1), (2, OClaim ''mail'' True), (2, OWrite [sample_dp ''b'' 4]), (2, ODeadline 100)]"

lemma some_ops_fit: "\<forall>p \<in> set some_ops. op_fits some_contents (snd p)"
  by (simp add: some_ops_def some_contents_def content_def sample_dp_def identity_key_def)


theorem redis_batch_overwrites_witness:
  "redis_snapshot map_store ''s'' (snd (redis_write map_store ''s'' [sample_dp ''a'' 5, sample_dp ''a'' 3] 1 no_server)) = Inr [sample_dp ''a'' 3] \<and>
   store_snapshot (snd (store_write [sample_dp ''a'' 5, sample_dp ''a'' 3] 1 empty_session)) = [sample_dp ''a'' 5]"
  by (rule redis_batch_overwrites [where K = some_contents, OF map_store_facts(1,2,3) some_contents_known map_store_facts(4)])
    (simp_all add: some_contents_def content_def sample_dp_def identity_key_def)

text \<open>
  Also: The text of a value is finer than Python's equality: \<^verbatim>\<open>True\<close> and \<^verbatim>\<open>1\<close> are one identity in the
  in-memory adapter and two in Redis.
\<close>

theorem redis_splits_true_from_one:
  "identity_key ((sample_dp v t)\<lparr>dp_value := PBool True\<rparr>) = identity_key ((sample_dp v t)\<lparr>dp_value := PInt 1\<rparr>) \<and>
   redis_identity ((sample_dp v t)\<lparr>dp_value := PBool True\<rparr>) \<noteq> redis_identity ((sample_dp v t)\<lparr>dp_value := PInt 1\<rparr>)"
proof -
  have "length (show_int 1) = 1" by code_simp
  then have "show_int 1 \<noteq> ''True''" by auto
  then show ?thesis by (simp add: identity_key_def redis_identity_def canonical_value_def sample_dp_def)
qed

end
