(* ===== verification/Redis_Lock.thy ===== *)
theory Redis_Lock
  imports Session_Lock Pacing
begin

text \<open>
  The Redis adapters of the session lock and of the cooldown gate,
  \<^verbatim>\<open>orcastork/adapters/redis/lock.py\<close> and \<^verbatim>\<open>gate.py\<close>. What matters here is expiry, so the server is a
  record of commands that take its clock, in milliseconds. \<open>expiry_laws\<close> is their documentation: what
  every later \<^verbatim>\<open>GET\<close> returns after each. A script sees one instant.
\<close>

section \<open>A server with expiring keys\<close>

type_synonym msec = int

record 'r timed_redis =
  tr_exists :: "msec \<Rightarrow> string \<Rightarrow> 'r \<Rightarrow> bool"
  tr_get :: "msec \<Rightarrow> string \<Rightarrow> 'r \<Rightarrow> string option"
  tr_set :: "msec \<Rightarrow> string \<Rightarrow> string \<Rightarrow> 'r \<Rightarrow> 'r"
  tr_set_px :: "msec \<Rightarrow> string \<Rightarrow> string \<Rightarrow> msec \<Rightarrow> 'r \<Rightarrow> 'r"
  tr_set_nx_px :: "msec \<Rightarrow> string \<Rightarrow> string \<Rightarrow> msec \<Rightarrow> 'r \<Rightarrow> bool \<times> 'r"
  tr_incr :: "msec \<Rightarrow> string \<Rightarrow> 'r \<Rightarrow> int \<times> 'r"
  tr_del :: "msec \<Rightarrow> string \<Rightarrow> 'r \<Rightarrow> 'r"
  tr_pexpire :: "msec \<Rightarrow> string \<Rightarrow> msec \<Rightarrow> 'r \<Rightarrow> bool \<times> 'r"

definition script_num :: "string option \<Rightarrow> int" where
  "script_num v = (case v of None \<Rightarrow> 0 | Some t \<Rightarrow> (case parse_int t of None \<Rightarrow> 0 | Some n \<Rightarrow> n))"

definition expiry_laws :: "'r timed_redis \<Rightarrow> bool" where
  "expiry_laws R \<longleftrightarrow>
     (\<forall>t k r. tr_exists R t k r \<longleftrightarrow> tr_get R t k r \<noteq> None) \<and>
     (\<forall>now t k v j r. now \<le> t \<longrightarrow> tr_get R t j (tr_set R now k v r) = (if j = k then Some v else tr_get R t j r)) \<and>
     (\<forall>now t k v px j r. 0 < px \<longrightarrow> now \<le> t \<longrightarrow>
        tr_get R t j (tr_set_px R now k v px r) = (if j = k then (if t < now + px then Some v else None) else tr_get R t j r)) \<and>
     (\<forall>now k v px r. fst (tr_set_nx_px R now k v px r) \<longleftrightarrow> tr_get R now k r = None) \<and>
     (\<forall>now t k v px j r. 0 < px \<longrightarrow> now \<le> t \<longrightarrow>
        tr_get R t j (snd (tr_set_nx_px R now k v px r)) =
          (if j = k \<and> tr_get R now k r = None then (if t < now + px then Some v else None) else tr_get R t j r)) \<and>
     (\<forall>now k n r. tr_get R now k r = None \<or> tr_get R now k r = Some (show_int n) \<longrightarrow>
        fst (tr_incr R now k r) = script_num (tr_get R now k r) + 1) \<and>
     (\<forall>now t k n j r. tr_get R now k r = None \<or> tr_get R now k r = Some (show_int n) \<longrightarrow> now \<le> t \<longrightarrow>
        tr_get R t j (snd (tr_incr R now k r)) =
          (if j \<noteq> k then tr_get R t j r
           else if tr_get R now k r = None \<or> tr_get R t k r \<noteq> None then Some (show_int (script_num (tr_get R now k r) + 1)) else None)) \<and>
     (\<forall>now t k j r. now \<le> t \<longrightarrow> tr_get R t j (tr_del R now k r) = (if j = k then None else tr_get R t j r)) \<and>
     (\<forall>now k px r. fst (tr_pexpire R now k px r) \<longleftrightarrow> tr_get R now k r \<noteq> None) \<and>
     (\<forall>now t k px j r. 0 < px \<longrightarrow> now \<le> t \<longrightarrow>
        tr_get R t j (snd (tr_pexpire R now k px r)) =
          (if j = k \<and> tr_get R now k r \<noteq> None then (if t < now + px then tr_get R now k r else None) else tr_get R t j r))"

lemma script_num_show [simp]: "script_num None = 0" "script_num (Some (show_int n)) = n"
  by (simp_all add: script_num_def)

section \<open>The scripts and the operations\<close>

definition lock_key :: "session_id \<Rightarrow> string" where "lock_key sid = ''lock:'' @ sid"
definition mint_key :: "session_id \<Rightarrow> string" where "mint_key sid = ''mint:'' @ sid"
definition complete_key :: "session_id \<Rightarrow> string" where "complete_key sid = ''complete:'' @ sid"

lemma lock_keys_differ [simp]:
  "lock_key sid \<noteq> mint_key sid" "lock_key sid \<noteq> complete_key sid" "mint_key sid \<noteq> complete_key sid"
  "mint_key sid \<noteq> lock_key sid" "complete_key sid \<noteq> lock_key sid" "complete_key sid \<noteq> mint_key sid"
  by (simp_all add: lock_key_def mint_key_def complete_key_def)

definition acquire_script :: "'r timed_redis \<Rightarrow> string \<Rightarrow> string \<Rightarrow> msec \<Rightarrow> msec \<Rightarrow> 'r \<Rightarrow> int \<times> 'r" where
  "acquire_script R lk mk ttl now r =
     (if tr_exists R now lk r then (0, r)
      else case tr_incr R now mk r of (e, r1) \<Rightarrow> (e, tr_set_px R now lk (show_int e) ttl r1))"

definition release_script :: "'r timed_redis \<Rightarrow> string \<Rightarrow> epoch \<Rightarrow> msec \<Rightarrow> 'r \<Rightarrow> int \<times> 'r" where
  "release_script R lk e now r = (if tr_get R now lk r = Some (show_int e) then (1, tr_del R now lk r) else (0, r))"

definition renew_script :: "'r timed_redis \<Rightarrow> string \<Rightarrow> epoch \<Rightarrow> msec \<Rightarrow> msec \<Rightarrow> 'r \<Rightarrow> int \<times> 'r" where
  "renew_script R lk e ttl now r =
     (if tr_get R now lk r = Some (show_int e)
      then case tr_pexpire R now lk ttl r of (ok, r1) \<Rightarrow> (of_bool ok, r1) else (0, r))"

definition complete_script :: "'r timed_redis \<Rightarrow> string \<Rightarrow> string \<Rightarrow> epoch \<Rightarrow> msec \<Rightarrow> 'r \<Rightarrow> int \<times> 'r" where
  "complete_script R mk ck e now r =
     (if e < script_num (tr_get R now mk r) then (0, r) else (1, tr_set R now ck ''1'' r))"

record 'r redis_lock =
  rl_server :: "'r timed_redis"
  rl_ttl :: msec
  rl_state_ttl :: msec

definition slide_keys :: "'r redis_lock \<Rightarrow> string list \<Rightarrow> msec \<Rightarrow> 'r \<Rightarrow> 'r" where
  "slide_keys L keys now r = fold (\<lambda>k r. snd (tr_pexpire (rl_server L) now k (rl_state_ttl L) r)) keys r"

definition redis_acquire :: "'r redis_lock \<Rightarrow> session_id \<Rightarrow> msec \<Rightarrow> ('r, epoch) op" where
  "redis_acquire L sid now r =
     (case acquire_script (rl_server L) (lock_key sid) (mint_key sid) (rl_ttl L) now r of
        (e, r1) \<Rightarrow> if e = 0 then (Inl LockHeldError, r1) else (Inr e, slide_keys L [mint_key sid] now r1))"

definition redis_renew :: "'r redis_lock \<Rightarrow> session_id \<Rightarrow> epoch \<Rightarrow> msec \<Rightarrow> ('r, unit) op" where
  "redis_renew L sid e now r =
     (case renew_script (rl_server L) (lock_key sid) e (rl_ttl L) now r of
        (extended, r1) \<Rightarrow> if extended = 0 then (Inl StaleEpochError, r1) else (Inr (), r1))"

definition redis_release :: "'r redis_lock \<Rightarrow> session_id \<Rightarrow> epoch \<Rightarrow> msec \<Rightarrow> ('r, unit) op" where
  "redis_release L sid e now r = (Inr (), snd (release_script (rl_server L) (lock_key sid) e now r))"

definition redis_current_epoch :: "'r redis_lock \<Rightarrow> session_id \<Rightarrow> msec \<Rightarrow> 'r \<Rightarrow> epoch" where
  "redis_current_epoch L sid now r = script_num (tr_get (rl_server L) now (mint_key sid) r)"

definition redis_is_held :: "'r redis_lock \<Rightarrow> session_id \<Rightarrow> msec \<Rightarrow> 'r \<Rightarrow> bool" where
  "redis_is_held L sid now r = tr_exists (rl_server L) now (lock_key sid) r"

definition redis_mark_complete :: "'r redis_lock \<Rightarrow> session_id \<Rightarrow> epoch \<Rightarrow> msec \<Rightarrow> ('r, unit) op" where
  "redis_mark_complete L sid e now r =
     (case complete_script (rl_server L) (mint_key sid) (complete_key sid) e now r of
        (marked, r1) \<Rightarrow>
          if marked = 0 then (Inl StaleEpochError, r1) else (Inr (), slide_keys L [mint_key sid, complete_key sid] now r1))"

definition redis_is_complete :: "'r redis_lock \<Rightarrow> session_id \<Rightarrow> msec \<Rightarrow> 'r \<Rightarrow> bool" where
  "redis_is_complete L sid now r = tr_exists (rl_server L) now (complete_key sid) r"

definition redis_clear_complete :: "'r redis_lock \<Rightarrow> session_id \<Rightarrow> msec \<Rightarrow> ('r, unit) op" where
  "redis_clear_complete L sid now r = (Inr (), tr_del (rl_server L) now (complete_key sid) r)"

text \<open>\<^verbatim>\<open>int\<close> of a float drops its fraction.\<close>

definition py_int :: "real \<Rightarrow> int" where
  "py_int x = (if 0 \<le> x then \<lfloor>x\<rfloor> else \<lceil>x\<rceil>)"

definition cooldown_key :: "string \<Rightarrow> string" where "cooldown_key key = ''cooldown:'' @ key"

lemma cooldown_key_inject [simp]: "cooldown_key a = cooldown_key b \<longleftrightarrow> a = b"
  by (simp add: cooldown_key_def)

definition redis_gate_try :: "'r timed_redis \<Rightarrow> string \<Rightarrow> seconds \<Rightarrow> msec \<Rightarrow> 'r \<Rightarrow> bool \<times> 'r" where
  "redis_gate_try R key cooldown now r = tr_set_nx_px R now (cooldown_key key) ''1'' (max (py_int (cooldown * 1000)) 1) r"

section \<open>The laws, one by one\<close>

lemma exists_get: "expiry_laws R \<Longrightarrow> tr_exists R t k r \<longleftrightarrow> tr_get R t k r \<noteq> None"
  by (simp add: expiry_laws_def)

lemma get_set: "expiry_laws R \<Longrightarrow> now \<le> t \<Longrightarrow> tr_get R t j (tr_set R now k v r) = (if j = k then Some v else tr_get R t j r)"
  by (simp add: expiry_laws_def)

lemma get_set_px:
  "expiry_laws R \<Longrightarrow> 0 < px \<Longrightarrow> now \<le> t \<Longrightarrow>
     tr_get R t j (tr_set_px R now k v px r) = (if j = k then (if t < now + px then Some v else None) else tr_get R t j r)"
  by (simp add: expiry_laws_def)

lemma set_nx_px:
  assumes "expiry_laws R"
  shows "fst (tr_set_nx_px R now k v px r) \<longleftrightarrow> tr_get R now k r = None"
    and "0 < px \<Longrightarrow> now \<le> t \<Longrightarrow> tr_get R t j (snd (tr_set_nx_px R now k v px r)) =
      (if j = k \<and> tr_get R now k r = None then (if t < now + px then Some v else None) else tr_get R t j r)"
  using assms unfolding expiry_laws_def by simp_all

lemma incr_fresh:
  assumes "expiry_laws R" and "tr_get R now k r = None"
  shows "fst (tr_incr R now k r) = 1"
    and "now \<le> t \<Longrightarrow> tr_get R t j (snd (tr_incr R now k r)) = (if j = k then Some (show_int 1) else tr_get R t j r)"
  using assms unfolding expiry_laws_def by simp_all

lemma incr_held:
  assumes "expiry_laws R" and "tr_get R now k r = Some (show_int n)"
  shows "fst (tr_incr R now k r) = n + 1"
    and "now \<le> t \<Longrightarrow> tr_get R t j (snd (tr_incr R now k r)) =
      (if j = k then (if tr_get R t k r = None then None else Some (show_int (n + 1))) else tr_get R t j r)"
  using assms unfolding expiry_laws_def by auto

lemma get_del: "expiry_laws R \<Longrightarrow> now \<le> t \<Longrightarrow> tr_get R t j (tr_del R now k r) = (if j = k then None else tr_get R t j r)"
  by (simp add: expiry_laws_def)

lemma get_pexpire:
  assumes "expiry_laws R"
  shows "fst (tr_pexpire R now k px r) \<longleftrightarrow> tr_get R now k r \<noteq> None"
    and "0 < px \<Longrightarrow> now \<le> t \<Longrightarrow> tr_get R t j (snd (tr_pexpire R now k px r)) =
      (if j = k \<and> tr_get R now k r \<noteq> None then (if t < now + px then tr_get R now k r else None) else tr_get R t j r)"
  using assms unfolding expiry_laws_def by simp_all

section \<open>The lock against the in-memory one\<close>

text \<open>
  \<open>tracks L sid now end r s\<close>: from \<open>now\<close> on the lease key lives exactly as long as the lease, and until
  \<open>end\<close> the two counters are there. The in-memory lock counts seconds and never forgets.
\<close>

definition secs :: "msec \<Rightarrow> seconds" where "secs t = real_of_int t / 1000"

definition lease_reads :: "lock_state \<Rightarrow> msec \<Rightarrow> string option" where
  "lease_reads s t = (case lk_lease s of None \<Rightarrow> None
     | Some l \<Rightarrow> if secs t < ls_expires_at l then Some (show_int (ls_epoch l)) else None)"

definition tracks :: "'r redis_lock \<Rightarrow> session_id \<Rightarrow> msec \<Rightarrow> msec \<Rightarrow> 'r \<Rightarrow> lock_state \<Rightarrow> bool" where
  "tracks L sid now horizon r s \<longleftrightarrow> 0 \<le> lk_counter s \<and>
     (\<forall>t \<ge> now. tr_get (rl_server L) t (lock_key sid) r = lease_reads s t) \<and>
     (\<forall>t. now \<le> t \<longrightarrow> t < horizon \<longrightarrow>
        tr_get (rl_server L) t (mint_key sid) r = (if lk_counter s = 0 then None else Some (show_int (lk_counter s))) \<and>
        tr_get (rl_server L) t (complete_key sid) r = (if lk_complete s then Some ''1'' else None))"

lemma tracks_later: "tracks L sid now horizon r s \<Longrightarrow> now \<le> now' \<Longrightarrow> tracks L sid now' horizon r s"
  unfolding tracks_def by (meson order_trans)

datatype lock_call = CAcquire | CRenew epoch | CRelease epoch | CMark epoch | CClear | CEpoch | CHeld | CComplete

datatype lock_reply = AnEpoch epoch | AFlag bool | AUnit

definition answering :: "('a \<Rightarrow> lock_reply) \<Rightarrow> (orca_error + 'a) \<times> 's \<Rightarrow> (orca_error + lock_reply) \<times> 's" where
  "answering f res = (case fst res of Inl err \<Rightarrow> Inl err | Inr x \<Rightarrow> Inr (f x), snd res)"

fun memory_lock_does :: "seconds \<Rightarrow> lock_call \<Rightarrow> seconds \<Rightarrow> (lock_state, lock_reply) op" where
  "memory_lock_does ttl CAcquire now s = answering AnEpoch (lock_acquire ttl now s)"
| "memory_lock_does ttl (CRenew e) now s = answering (\<lambda>_. AUnit) (lock_renew ttl now e s)"
| "memory_lock_does ttl (CRelease e) now s = answering (\<lambda>_. AUnit) (lock_release e s)"
| "memory_lock_does ttl (CMark e) now s = answering (\<lambda>_. AUnit) (mark_complete e s)"
| "memory_lock_does ttl CClear now s = answering (\<lambda>_. AUnit) (clear_complete s)"
| "memory_lock_does ttl CEpoch now s = (Inr (AnEpoch (current_epoch s)), s)"
| "memory_lock_does ttl CHeld now s = (Inr (AFlag (is_held now s)), s)"
| "memory_lock_does ttl CComplete now s = (Inr (AFlag (is_complete s)), s)"

fun redis_lock_does :: "'r redis_lock \<Rightarrow> session_id \<Rightarrow> lock_call \<Rightarrow> msec \<Rightarrow> ('r, lock_reply) op" where
  "redis_lock_does L sid CAcquire now r = answering AnEpoch (redis_acquire L sid now r)"
| "redis_lock_does L sid (CRenew e) now r = answering (\<lambda>_. AUnit) (redis_renew L sid e now r)"
| "redis_lock_does L sid (CRelease e) now r = answering (\<lambda>_. AUnit) (redis_release L sid e now r)"
| "redis_lock_does L sid (CMark e) now r = answering (\<lambda>_. AUnit) (redis_mark_complete L sid e now r)"
| "redis_lock_does L sid CClear now r = answering (\<lambda>_. AUnit) (redis_clear_complete L sid now r)"
| "redis_lock_does L sid CEpoch now r = (Inr (AnEpoch (redis_current_epoch L sid now r)), r)"
| "redis_lock_does L sid CHeld now r = (Inr (AFlag (redis_is_held L sid now r)), r)"
| "redis_lock_does L sid CComplete now r = (Inr (AFlag (redis_is_complete L sid now r)), r)"

fun run_calls :: "(lock_call \<Rightarrow> msec \<Rightarrow> ('s, lock_reply) op) \<Rightarrow> (msec \<times> lock_call) list \<Rightarrow> 's \<Rightarrow> (orca_error + lock_reply) list \<times> 's" where
  "run_calls does [] s = ([], s)"
| "run_calls does ((now, x) # xs) s = (case does x now s of (reply, s1) \<Rightarrow> (case run_calls does xs s1 of (replies, s2) \<Rightarrow> (reply # replies, s2)))"

lemma secs_mono [simp]: "secs a < secs b \<longleftrightarrow> a < b" and secs_add: "secs (a + b) = secs a + secs b"
  by (simp_all add: secs_def add_divide_distrib)

lemma secs_deadline: "secs t < secs now + secs px \<longleftrightarrow> t < now + px"
  by (simp add: secs_add [symmetric])

lemma acquire_refines:
  assumes laws: "expiry_laws (rl_server L)" and ttl: "0 < rl_ttl L" "0 < rl_state_ttl L"
    and r: "tracks L sid now horizon r s" and now: "now < horizon" "horizon \<le> now + rl_state_ttl L"
  shows "fst (redis_acquire L sid now r) = fst (lock_acquire (secs (rl_ttl L)) (secs now) s) \<and>
     tracks L sid now horizon (snd (redis_acquire L sid now r)) (snd (lock_acquire (secs (rl_ttl L)) (secs now) s))"
proof -
  let ?R = "rl_server L"
  have lease: "tr_get ?R t (lock_key sid) r = lease_reads s t" if "now \<le> t" for t using r that by (simp add: tracks_def)
  have mint: "tr_get ?R t (mint_key sid) r = (if lk_counter s = 0 then None else Some (show_int (lk_counter s)))"
    and complete: "tr_get ?R t (complete_key sid) r = (if lk_complete s then Some ''1'' else None)" if "now \<le> t" "t < horizon" for t
    using r that by (simp_all add: tracks_def)
  have n: "0 \<le> lk_counter s" using r by (simp add: tracks_def)
  show ?thesis
  proof (cases "is_live (secs now) s")
    case True
    then have "tr_exists ?R now (lock_key sid) r" by (auto simp: exists_get [OF laws] lease lease_reads_def is_live_def split: option.splits)
    with True r show ?thesis by (simp add: redis_acquire_def acquire_script_def lock_acquire_def)
  next
    case False
    then have free: "\<not> tr_exists ?R now (lock_key sid) r" by (auto simp: exists_get [OF laws] lease lease_reads_def is_live_def split: option.splits)
    obtain e r1 where incr: "tr_incr ?R now (mint_key sid) r = (e, r1)" by (cases "tr_incr ?R now (mint_key sid) r")
    have e: "e = lk_counter s + 1" and r1: "now \<le> t \<Longrightarrow> t < horizon \<Longrightarrow> tr_get ?R t j r1 =
        (if j = mint_key sid then Some (show_int e) else tr_get ?R t j r)"
      and lock1: "now \<le> t \<Longrightarrow> j \<noteq> mint_key sid \<Longrightarrow> tr_get ?R t j r1 = tr_get ?R t j r" for t j
      using incr_fresh [OF laws, of now "mint_key sid" r] incr_held [OF laws, of now "mint_key sid" r "lk_counter s"] mint now(1) incr
      by (cases "lk_counter s = 0"; auto)+
    let ?r2 = "tr_set_px ?R now (lock_key sid) (show_int e) (rl_ttl L) r1"
    let ?r3 = "snd (tr_pexpire ?R now (mint_key sid) (rl_state_ttl L) ?r2)"
    have r2: "tr_get ?R t j ?r2 = (if j = lock_key sid then (if t < now + rl_ttl L then Some (show_int e) else None) else tr_get ?R t j r1)"
      if "now \<le> t" for t j using get_set_px [OF laws ttl(1) that] .
    have m2: "tr_get ?R now (mint_key sid) ?r2 = Some (show_int e)" using r1 [of now "mint_key sid"] now(1) by (simp add: r2)
    have r3: "tr_get ?R t j ?r3 = (if j = mint_key sid then (if t < now + rl_state_ttl L then Some (show_int e) else None) else tr_get ?R t j ?r2)"
      if "now \<le> t" for t j using get_pexpire(2) [OF laws ttl(2) that] m2 by simp
    let ?s = "s\<lparr>lk_counter := e, lk_lease := Some \<lparr>ls_epoch = e, ls_expires_at = secs now + secs (rl_ttl L)\<rparr>\<rparr>"
    obtain r4 where r4: "?r3 = r4" by blast
    have "tr_get ?R t (lock_key sid) r4 = (if t < now + rl_ttl L then Some (show_int e) else None)" if "now \<le> t" for t
      using r3 [OF that, of "lock_key sid"] r2 [OF that, of "lock_key sid"] r4 by simp
    moreover have "tr_get ?R t (mint_key sid) r4 = Some (show_int e)" if "now \<le> t" "t < horizon" for t
      using r3 [OF that(1), of "mint_key sid"] that(2) now(2) r4 by simp
    moreover have "tr_get ?R t (complete_key sid) r4 = (if lk_complete s then Some ''1'' else None)" if "now \<le> t" "t < horizon" for t
      using r3 [OF that(1), of "complete_key sid"] r2 [OF that(1), of "complete_key sid"] lock1 [OF that(1), of "complete_key sid"] complete [OF that] r4 by simp
    ultimately have "tracks L sid now horizon ?r3 ?s"
      using n e unfolding r4 tracks_def by (simp add: lease_reads_def secs_deadline)
    with False free incr e n show ?thesis
      by (simp add: redis_acquire_def acquire_script_def lock_acquire_def slide_keys_def Let_def)
  qed
qed

lemma renew_refines:
  assumes laws: "expiry_laws (rl_server L)" and ttl: "0 < rl_ttl L" and r: "tracks L sid now horizon r s"
  shows "fst (redis_renew L sid e now r) = fst (lock_renew (secs (rl_ttl L)) (secs now) e s) \<and>
     tracks L sid now horizon (snd (redis_renew L sid e now r)) (snd (lock_renew (secs (rl_ttl L)) (secs now) e s))"
proof -
  let ?R = "rl_server L"
  have lease: "tr_get ?R t (lock_key sid) r = lease_reads s t" if "now \<le> t" for t using r that by (simp add: tracks_def)
  obtain ok r1 where x: "tr_pexpire ?R now (lock_key sid) (rl_ttl L) r = (ok, r1)" by (cases "tr_pexpire ?R now (lock_key sid) (rl_ttl L) r")
  show ?thesis
  proof (cases "tr_get ?R now (lock_key sid) r = Some (show_int e)")
    case True
    then obtain l where l: "lk_lease s = Some l" "ls_epoch l = e" "secs now < ls_expires_at l"
      using lease [of now] by (auto simp: lease_reads_def split: option.splits if_splits)
    have ok: ok using get_pexpire(1) [OF laws, of now "lock_key sid" "rl_ttl L" r] True x by simp
    have r1: "tr_get ?R t j r1 = (if j = lock_key sid then (if t < now + rl_ttl L then Some (show_int e) else None) else tr_get ?R t j r)"
      if "now \<le> t" for t j using get_pexpire(2) [OF laws ttl that, of j "lock_key sid" r] True x by simp
    have "tracks L sid now horizon r1 (s\<lparr>lk_lease := Some (l\<lparr>ls_expires_at := secs now + secs (rl_ttl L)\<rparr>)\<rparr>)"
      using r l(2) unfolding tracks_def by (auto simp: r1 lease_reads_def secs_deadline)
    with True x ok l show ?thesis by (simp add: redis_renew_def renew_script_def lock_renew_def is_live_def)
  next
    case False
    then have "fst (lock_renew (secs (rl_ttl L)) (secs now) e s) = Inl StaleEpochError \<and> snd (lock_renew (secs (rl_ttl L)) (secs now) e s) = s"
      using lease [of now] by (auto simp: lease_reads_def lock_renew_def is_live_def split: option.splits if_splits)
    with False r show ?thesis by (simp add: redis_renew_def renew_script_def)
  qed
qed

lemma release_refines:
  assumes laws: "expiry_laws (rl_server L)" and r: "tracks L sid now horizon r s"
  shows "fst (redis_release L sid e now r) = fst (lock_release e s) \<and> tracks L sid now horizon (snd (redis_release L sid e now r)) (snd (lock_release e s))"
proof -
  let ?R = "rl_server L"
  have lease: "tr_get ?R t (lock_key sid) r = lease_reads s t" if "now \<le> t" for t using r that by (simp add: tracks_def)
  show ?thesis
  proof (cases "tr_get ?R now (lock_key sid) r = Some (show_int e)")
    case True
    then obtain l where l: "lk_lease s = Some l" "ls_epoch l = e"
      using lease [of now] by (auto simp: lease_reads_def split: option.splits if_splits)
    have "tracks L sid now horizon (tr_del ?R now (lock_key sid) r) (s\<lparr>lk_lease := None\<rparr>)"
      using r unfolding tracks_def by (auto simp: get_del [OF laws] lease_reads_def)
    with True l show ?thesis by (simp add: redis_release_def release_script_def lock_release_def)
  next
    case False
    have gone: "lease_reads s t = None" if "lk_lease s = Some l" "ls_epoch l = e" "now \<le> t" for l t
    proof -
      have "\<not> secs now < ls_expires_at l" using False lease [of now] that(1,2) by (auto simp: lease_reads_def)
      moreover have "secs now \<le> secs t" using that(3) by (simp add: secs_def)
      ultimately show ?thesis using that(1) by (simp add: lease_reads_def)
    qed
    have "tracks L sid now horizon r (snd (lock_release e s))"
    proof (cases "\<exists>l. lk_lease s = Some l \<and> ls_epoch l = e")
      case True
      then obtain l where "lk_lease s = Some l" "ls_epoch l = e" by blast
      with r gone [OF this] show ?thesis by (auto simp: lock_release_def tracks_def lease_reads_def)
    next
      case False
      with r show ?thesis by (auto simp: lock_release_def split: option.split)
    qed
    with False show ?thesis by (simp add: redis_release_def release_script_def lock_release_def split: option.split)
  qed
qed

lemma mark_refines:
  assumes laws: "expiry_laws (rl_server L)" and ttl: "0 < rl_state_ttl L"
    and r: "tracks L sid now horizon r s" and now: "now < horizon" "horizon \<le> now + rl_state_ttl L"
  shows "fst (redis_mark_complete L sid e now r) = fst (mark_complete e s) \<and>
     tracks L sid now horizon (snd (redis_mark_complete L sid e now r)) (snd (mark_complete e s))"
proof -
  let ?R = "rl_server L"
  have num: "script_num (tr_get ?R now (mint_key sid) r) = lk_counter s" using r now(1) by (simp add: tracks_def)
  show ?thesis
  proof (cases "e < lk_counter s")
    case True
    with num r show ?thesis by (simp add: redis_mark_complete_def complete_script_def mark_complete_def)
  next
    case False
    let ?r1 = "tr_set ?R now (complete_key sid) ''1'' r"
    let ?r2 = "snd (tr_pexpire ?R now (mint_key sid) (rl_state_ttl L) ?r1)"
    let ?r3 = "snd (tr_pexpire ?R now (complete_key sid) (rl_state_ttl L) ?r2)"
    note step = get_set [OF laws] get_pexpire(2) [OF laws ttl]
    have "tracks L sid now horizon ?r3 (s\<lparr>lk_complete := True\<rparr>)"
      using r now unfolding tracks_def by (auto simp: step lease_reads_def)
    with False num show ?thesis by (simp add: redis_mark_complete_def complete_script_def mark_complete_def slide_keys_def)
  qed
qed

lemma lock_does_refines:
  assumes laws: "expiry_laws (rl_server L)" and ttl: "0 < rl_ttl L" "0 < rl_state_ttl L"
    and r: "tracks L sid now horizon r s" and now: "now < horizon" "horizon \<le> now + rl_state_ttl L"
  shows "fst (redis_lock_does L sid x now r) = fst (memory_lock_does (secs (rl_ttl L)) x (secs now) s) \<and>
     tracks L sid now horizon (snd (redis_lock_does L sid x now r)) (snd (memory_lock_does (secs (rl_ttl L)) x (secs now) s))"
proof (cases x)
  case CAcquire
  with acquire_refines [OF assms] show ?thesis by (simp add: answering_def)
next
  case (CRenew e)
  with renew_refines [OF laws ttl(1) r] show ?thesis by (simp add: answering_def)
next
  case (CRelease e)
  with release_refines [OF laws r] show ?thesis by (simp add: answering_def)
next
  case (CMark e)
  with mark_refines [OF laws ttl(2) r now] show ?thesis by (simp add: answering_def)
next
  case CClear
  have "tracks L sid now horizon (tr_del (rl_server L) now (complete_key sid) r) (s\<lparr>lk_complete := False\<rparr>)"
    using r unfolding tracks_def by (auto simp: get_del [OF laws] lease_reads_def)
  with CClear show ?thesis by (simp add: answering_def redis_clear_complete_def clear_complete_def)
next
  case CEpoch
  with r now(1) show ?thesis by (simp add: tracks_def redis_current_epoch_def current_epoch_def)
next
  case CHeld
  with r show ?thesis by (simp add: tracks_def redis_is_held_def is_held_def exists_get [OF laws] lease_reads_def is_live_def split: option.split)
next
  case CComplete
  with r now(1) show ?thesis by (simp add: tracks_def redis_is_complete_def is_complete_def exists_get [OF laws])
qed

definition blank_keys :: "'r redis_lock \<Rightarrow> session_id \<Rightarrow> msec \<Rightarrow> 'r \<Rightarrow> bool" where
  "blank_keys L sid now r \<longleftrightarrow> (\<forall>t \<ge> now. \<forall>k \<in> {lock_key sid, mint_key sid, complete_key sid}. tr_get (rl_server L) t k r = None)"

lemma calls_refine:
  assumes laws: "expiry_laws (rl_server L)" and ttl: "0 < rl_ttl L" "0 < rl_state_ttl L"
  shows "tracks L sid t0 horizon r s \<Longrightarrow> sorted (t0 # map fst xs) \<Longrightarrow> \<forall>c \<in> set xs. fst c < horizon \<Longrightarrow> horizon \<le> t0 + rl_state_ttl L \<Longrightarrow>
     fst (run_calls (redis_lock_does L sid) xs r) =
     fst (run_calls (\<lambda>x now. memory_lock_does (secs (rl_ttl L)) x (secs now)) xs s)"
proof (induction xs arbitrary: t0 r s)
  case (Cons c xs)
  obtain now x where c: "c = (now, x)" by (cases c)
  have now: "t0 \<le> now" "now < horizon" "horizon \<le> now + rl_state_ttl L" using Cons.prems(2-4) c by simp_all
  have r: "tracks L sid now horizon r s" using tracks_later [OF Cons.prems(1) now(1)] .
  note step = lock_does_refines [OF laws ttl r now(2,3), of x]
  obtain reply r1 where r1: "redis_lock_does L sid x now r = (reply, r1)" by (cases "redis_lock_does L sid x now r")
  obtain reply' s1 where s1: "memory_lock_does (secs (rl_ttl L)) x (secs now) s = (reply', s1)"
    by (cases "memory_lock_does (secs (rl_ttl L)) x (secs now) s")
  have "sorted (now # map fst xs)" "\<forall>c \<in> set xs. fst c < horizon" using Cons.prems(2,3) c by simp_all
  from Cons.IH [OF _ this now(3), of r1 s1] step r1 s1 c show ?case by (simp add: case_prod_beta)
qed simp

text \<open>
  C38: Within one lifetime of its counters the Redis lock answers every sequence of calls as the
  in-memory lock does: leases expire at the same instants, epochs and refusals are the same.
\<close>

theorem redis_lock_refines:
  assumes "expiry_laws (rl_server L)" and "0 < rl_ttl L" and "0 < rl_state_ttl L" and "blank_keys L sid t0 r"
    and "sorted (t0 # map fst xs)" and "\<forall>c \<in> set xs. fst c < t0 + rl_state_ttl L"
  shows "fst (run_calls (redis_lock_does L sid) xs r) =
     fst (run_calls (\<lambda>x now. memory_lock_does (secs (rl_ttl L)) x (secs now)) xs new_lock)"
proof (rule calls_refine [OF assms(1-3) _ assms(5,6)])
  show "tracks L sid t0 (t0 + rl_state_ttl L) r new_lock"
    using assms(4) by (simp add: tracks_def blank_keys_def new_lock_def lease_reads_def)
qed simp

section \<open>Beyond the lifetime of the counters\<close>

text \<open>
  A lease renewed in time outlives the mint counter: a renewal extends the lease key alone, and the
  counter's lifetime runs from the last acquisition.
\<close>

definition held_reads :: "'r redis_lock \<Rightarrow> session_id \<Rightarrow> epoch \<Rightarrow> msec \<Rightarrow> msec \<Rightarrow> 'r \<Rightarrow> bool" where
  "held_reads L sid e since gone r \<longleftrightarrow> (\<forall>t \<ge> since.
     tr_get (rl_server L) t (lock_key sid) r = (if t < since + rl_ttl L then Some (show_int e) else None) \<and>
     tr_get (rl_server L) t (mint_key sid) r = (if t < gone then Some (show_int e) else None))"

lemma acquired_reads:
  assumes laws: "expiry_laws (rl_server L)" and ttl: "0 < rl_ttl L" "0 < rl_state_ttl L" and n: "0 \<le> n"
    and free: "tr_get (rl_server L) t0 (lock_key sid) r = None"
    and mint: "tr_get (rl_server L) t0 (mint_key sid) r = (if n = 0 then None else Some (show_int n))"
  shows "\<exists>r1. redis_acquire L sid t0 r = (Inr (n + 1), r1) \<and> held_reads L sid (n + 1) t0 (t0 + rl_state_ttl L) r1"
proof -
  let ?R = "rl_server L"
  obtain e r1 where incr: "tr_incr ?R t0 (mint_key sid) r = (e, r1)" by (cases "tr_incr ?R t0 (mint_key sid) r")
  have e: "e = n + 1" and m1: "tr_get ?R t0 (mint_key sid) r1 = Some (show_int (n + 1))"
    using incr_fresh [OF laws, of t0 "mint_key sid" r] incr_held [OF laws, of t0 "mint_key sid" r n] mint incr
    by (cases "n = 0"; auto)+
  let ?r2 = "tr_set_px ?R t0 (lock_key sid) (show_int (n + 1)) (rl_ttl L) r1"
  let ?r3 = "snd (tr_pexpire ?R t0 (mint_key sid) (rl_state_ttl L) ?r2)"
  have "held_reads L sid (n + 1) t0 (t0 + rl_state_ttl L) ?r3"
    using m1 by (simp add: held_reads_def get_pexpire(2) [OF laws ttl(2)] get_set_px [OF laws ttl(1)])
  with free incr e n show ?thesis by (simp add: redis_acquire_def acquire_script_def slide_keys_def exists_get [OF laws])
qed

lemma renewed_reads:
  assumes laws: "expiry_laws (rl_server L)" and ttl: "0 < rl_ttl L"
    and r: "held_reads L sid e since gone r" and now: "since \<le> now" "now < since + rl_ttl L"
  shows "\<exists>r1. redis_renew L sid e now r = (Inr (), r1) \<and> held_reads L sid e now gone r1"
proof -
  let ?R = "rl_server L"
  obtain ok r1 where x: "tr_pexpire ?R now (lock_key sid) (rl_ttl L) r = (ok, r1)" by (cases "tr_pexpire ?R now (lock_key sid) (rl_ttl L) r")
  have held: "tr_get ?R now (lock_key sid) r = Some (show_int e)" using r now by (simp add: held_reads_def)
  have "held_reads L sid e now gone r1"
    using get_pexpire(2) [OF laws ttl, of now _ _ "lock_key sid" r] held x r now(1) by (simp add: held_reads_def)
  moreover have ok using get_pexpire(1) [OF laws, of now "lock_key sid" "rl_ttl L" r] held x by simp
  ultimately show ?thesis using held x by (simp add: redis_renew_def renew_script_def)
qed

lemma run_calls_append:
  "run_calls does (xs @ ys) s = (case run_calls does xs s of (as, s1) \<Rightarrow> (case run_calls does ys s1 of (bs, s2) \<Rightarrow> (as @ bs, s2)))"
  by (induction xs arbitrary: s) (auto split: prod.splits)

lemma renewals_reads:
  assumes laws: "expiry_laws (rl_server L)" and ttl: "0 < rl_ttl L"
  shows "held_reads L sid e since gone r \<Longrightarrow> successively (\<lambda>a b. a \<le> b \<and> b < a + rl_ttl L) (since # ts) \<Longrightarrow>
     \<exists>r1. run_calls (redis_lock_does L sid) (map (\<lambda>t. (t, CRenew e)) ts) r = (map (\<lambda>_. Inr AUnit) ts, r1) \<and> held_reads L sid e (last (since # ts)) gone r1"
proof (induction ts arbitrary: since r)
  case (Cons t ts)
  from Cons.prems(2) have t: "since \<le> t" "t < since + rl_ttl L" by simp_all
  from renewed_reads [OF laws ttl Cons.prems(1) t] obtain r1 where r1: "redis_renew L sid e t r = (Inr (), r1)" "held_reads L sid e t gone r1" by blast
  from Cons.prems(2) have "successively (\<lambda>a b. a \<le> b \<and> b < a + rl_ttl L) (t # ts)" by simp
  from Cons.IH [OF r1(2) this] r1(1) show ?case by (auto simp: answering_def)
qed simp

text \<open>
  C39: Fencing epochs start again from 1 under a session that lives longer than the counters: a lease
  renewed in time past their lifetime and then released is followed by an acquisition that grants 1,
  not a higher epoch than the last.
\<close>

theorem redis_lock_forgets_epochs:
  assumes "expiry_laws (rl_server L)" and "0 < rl_ttl L" and "0 < rl_state_ttl L" and "0 \<le> n"
    and "tr_get (rl_server L) t0 (lock_key sid) r = None"
    and "tr_get (rl_server L) t0 (mint_key sid) r = (if n = 0 then None else Some (show_int n))"
    and "successively (\<lambda>a b. a \<le> b \<and> b < a + rl_ttl L) (t0 # ts @ [t1])" and "t0 + rl_state_ttl L \<le> t1"
  shows "fst (run_calls (redis_lock_does L sid)
       ((t0, CAcquire) # map (\<lambda>t. (t, CRenew (n + 1))) (ts @ [t1]) @ [(t1, CRelease (n + 1)), (t1, CAcquire)]) r) =
     Inr (AnEpoch (n + 1)) # map (\<lambda>_. Inr AUnit) (ts @ [t1]) @ [Inr AUnit, Inr (AnEpoch 1)]"
proof -
  note laws = assms(1)
  let ?gone = "t0 + rl_state_ttl L"
  from acquired_reads [OF assms(1-6)] obtain r1 where r1: "redis_acquire L sid t0 r = (Inr (n + 1), r1)" "held_reads L sid (n + 1) t0 ?gone r1" by blast
  obtain us where us: "us = ts @ [t1]" by blast
  from renewals_reads [OF laws assms(2) r1(2) assms(7)] obtain r2 where
    r2: "run_calls (redis_lock_does L sid) (map (\<lambda>t. (t, CRenew (n + 1))) us) r1 = (map (\<lambda>_. Inr AUnit) us, r2)"
      "held_reads L sid (n + 1) t1 ?gone r2" unfolding us by auto
  have held: "tr_get (rl_server L) t1 (lock_key sid) r2 = Some (show_int (n + 1))" and mint: "tr_get (rl_server L) t1 (mint_key sid) r2 = None"
    using r2(2) assms(2,8) by (simp_all add: held_reads_def)
  let ?r3 = "tr_del (rl_server L) t1 (lock_key sid) r2"
  have "redis_release L sid (n + 1) t1 r2 = (Inr (), ?r3)" using held by (simp add: redis_release_def release_script_def)
  moreover have "tr_get (rl_server L) t1 (lock_key sid) ?r3 = None" "tr_get (rl_server L) t1 (mint_key sid) ?r3 = (if (0 :: int) = 0 then None else Some (show_int 0))"
    using mint by (simp_all add: get_del [OF laws])
  from acquired_reads [OF laws assms(2,3) _ this] obtain r4 where "redis_acquire L sid t1 ?r3 = (Inr 1, r4)" by auto
  ultimately show ?thesis unfolding us [symmetric] using r1(1) r2(1) by (simp add: answering_def run_calls_append)
qed

section \<open>The cooldown gate\<close>

definition gate_tracks :: "'r timed_redis \<Rightarrow> msec \<Rightarrow> 'r \<Rightarrow> cooldown_gate \<Rightarrow> bool" where
  "gate_tracks R now r g \<longleftrightarrow> (\<forall>key. \<forall>t \<ge> now. tr_get R t (cooldown_key key) r =
     (case g key of None \<Rightarrow> None | Some expires \<Rightarrow> if secs t < expires then Some ''1'' else None))"

text \<open>The gate agrees with the in-memory one for cooldowns of whole milliseconds.\<close>

lemma redis_gate_refines:
  assumes laws: "expiry_laws R" and r: "gate_tracks R now r g" and px: "0 < px"
  shows "fst (redis_gate_try R key (secs px) now r) = fst (gate_try_acquire key (secs px) (secs now) g) \<and>
     gate_tracks R now (snd (redis_gate_try R key (secs px) now r)) (snd (gate_try_acquire key (secs px) (secs now) g))"
proof -
  have ms: "max (py_int (secs px * 1000)) 1 = px" using px by (simp add: py_int_def secs_def)
  have read: "tr_get R t (cooldown_key k) r = (case g k of None \<Rightarrow> None | Some expires \<Rightarrow> if secs t < expires then Some ''1'' else None)"
    if "now \<le> t" for t k using r that by (simp add: gate_tracks_def)
  show ?thesis
  proof (cases "tr_get R now (cooldown_key key) r = None")
    case True
    then have mem: "gate_try_acquire key (secs px) (secs now) g = (True, g(key \<mapsto> secs now + secs px))"
      using read [of now key] by (auto simp: gate_try_acquire_def split: option.splits if_splits)
    have "gate_tracks R now (snd (redis_gate_try R key (secs px) now r)) (g(key \<mapsto> secs now + secs px))"
      using True unfolding gate_tracks_def by (simp add: redis_gate_try_def ms set_nx_px(2) [OF laws px] read secs_deadline)
    with True mem show ?thesis by (simp add: redis_gate_try_def set_nx_px(1) [OF laws])
  next
    case False
    then have mem: "gate_try_acquire key (secs px) (secs now) g = (False, g)"
      using read [of now key] by (auto simp: gate_try_acquire_def split: option.splits if_splits)
    have "tr_get R t j (snd (redis_gate_try R key (secs px) now r)) = tr_get R t j r" if "now \<le> t" for t j
      using set_nx_px(2) [OF laws px that, where k = "cooldown_key key"] False by (auto simp: redis_gate_try_def ms)
    then have "gate_tracks R now (snd (redis_gate_try R key (secs px) now r)) g" using read by (simp add: gate_tracks_def)
    with False mem show ?thesis by (simp add: redis_gate_try_def set_nx_px(1) [OF laws])
  qed
qed

section \<open>Examples\<close>

type_synonym timed_map = "string \<Rightarrow> (string \<times> msec option) option"

definition timed_get :: "msec \<Rightarrow> string \<Rightarrow> timed_map \<Rightarrow> string option" where
  "timed_get t k r = (case r k of None \<Rightarrow> None | Some (v, None) \<Rightarrow> Some v | Some (v, Some d) \<Rightarrow> if t < d then Some v else None)"

definition timed_deadline :: "msec \<Rightarrow> string \<Rightarrow> timed_map \<Rightarrow> msec option" where
  "timed_deadline now k r = (if timed_get now k r = None then None else case r k of None \<Rightarrow> None | Some (v, d) \<Rightarrow> d)"

definition timed_server :: "timed_map timed_redis" where
  "timed_server = \<lparr>
     tr_exists = \<lambda>t k r. timed_get t k r \<noteq> None,
     tr_get = timed_get,
     tr_set = \<lambda>now k v r. r(k \<mapsto> (v, None)),
     tr_set_px = \<lambda>now k v px r. r(k \<mapsto> (v, Some (now + px))),
     tr_set_nx_px = \<lambda>now k v px r. if timed_get now k r = None then (True, r(k \<mapsto> (v, Some (now + px)))) else (False, r),
     tr_incr = \<lambda>now k r. (script_num (timed_get now k r) + 1, r(k \<mapsto> (show_int (script_num (timed_get now k r) + 1), timed_deadline now k r))),
     tr_del = \<lambda>now k r. r(k := None),
     tr_pexpire = \<lambda>now k px r. case timed_get now k r of None \<Rightarrow> (False, r) | Some v \<Rightarrow> (True, r(k \<mapsto> (v, Some (now + px))))\<rparr>"

lemma timed_server_laws: "expiry_laws timed_server"
  unfolding expiry_laws_def timed_server_def
  by (auto simp: timed_get_def timed_deadline_def split: option.splits prod.splits if_splits)

definition timed_lock :: "timed_map redis_lock" where
  "timed_lock = \<lparr>rl_server = timed_server, rl_ttl = 30000, rl_state_ttl = 86400000\<rparr>"

lemma timed_lock_simps [simp]: "rl_server timed_lock = timed_server" "rl_ttl timed_lock = 30000" "rl_state_ttl timed_lock = 86400000"
  by (simp_all add: timed_lock_def)

definition some_calls :: "(msec \<times> lock_call) list" where
  "some_calls = [(5, CAcquire), (10, CAcquire), (20000, CRenew 1), (49999, CHeld), (50000, CHeld), (50001, CAcquire),
     (50002, CRenew 1), (50003, CMark 1), (50004, CMark 2), (50005, CRelease 2), (50006, CComplete), (50007, CEpoch)]"

theorem redis_lock_refines_witness:
  "fst (run_calls (redis_lock_does timed_lock ''s'') some_calls Map.empty) =
     fst (run_calls (\<lambda>x now. memory_lock_does (secs (rl_ttl timed_lock)) x (secs now)) some_calls new_lock)"
  by (rule redis_lock_refines [where ?t0.0 = 0])
    (simp_all add: timed_server_laws blank_keys_def some_calls_def, simp add: timed_server_def timed_get_def)

theorem redis_lock_forgets_epochs_witness:
  "fst (run_calls (redis_lock_does (timed_lock\<lparr>rl_state_ttl := 50000\<rparr>) ''s'')
       ((0, CAcquire) # map (\<lambda>t. (t, CRenew (7 + 1))) ([20000, 40000] @ [60000]) @ [(60000, CRelease (7 + 1)), (60000, CAcquire)])
       [mint_key ''s'' \<mapsto> (show_int 7, Some 10)]) =
     Inr (AnEpoch (7 + 1)) # map (\<lambda>_. Inr AUnit) ([20000 :: int, 40000] @ [60000]) @ [Inr AUnit, Inr (AnEpoch 1)]"
  by (rule redis_lock_forgets_epochs) (simp_all add: timed_server_laws, simp_all add: timed_server_def timed_get_def)

end
