(* ===== verification/Redis_Inbox.thy ===== *)
theory Redis_Inbox
  imports Session_Inbox Redis_Lock
begin

text \<open>
  The Redis adapter of the inbox, \<^verbatim>\<open>orcastork/adapters/redis/inbox.py\<close>: a stream with one consumer
  group. The server is a parameter: its commands, and \<open>sr_view\<close>, what \<^verbatim>\<open>GET\<close>, \<^verbatim>\<open>LRANGE\<close>, \<^verbatim>\<open>XRANGE\<close>,
  \<^verbatim>\<open>XINFO GROUPS\<close> and \<^verbatim>\<open>XPENDING\<close> report of its keys. \<open>stream_laws\<close> says what the documentation of each
  command says it does to the view, before any key expires.
\<close>

section \<open>A server with streams\<close>

type_synonym wire_fields = "(string \<times> string) list"

record stream =
  sm_entries :: "(string \<times> wire_fields) list"
  sm_group :: bool
  sm_read :: nat
  sm_pending :: "(string \<times> int) list"

record server_view =
  vw_text :: "string \<Rightarrow> string option"
  vw_list :: "string \<Rightarrow> string list"
  vw_stream :: "string \<Rightarrow> stream"

record 'r stream_redis =
  sr_view :: "'r \<Rightarrow> server_view"
  sr_le :: "string \<Rightarrow> string \<Rightarrow> bool"
  sr_get :: "string \<Rightarrow> 'r \<Rightarrow> string option"
  sr_set :: "string \<Rightarrow> string \<Rightarrow> 'r \<Rightarrow> 'r"
  sr_incr :: "string \<Rightarrow> 'r \<Rightarrow> 'r"
  sr_rpush :: "string \<Rightarrow> string \<Rightarrow> 'r \<Rightarrow> 'r"
  sr_lrange :: "string \<Rightarrow> 'r \<Rightarrow> string list"
  sr_xadd :: "string \<Rightarrow> wire_fields \<Rightarrow> 'r \<Rightarrow> string \<times> 'r"
  sr_xgroup_create :: "string \<Rightarrow> 'r \<Rightarrow> (string + unit) \<times> 'r"
  sr_xreadgroup :: "string \<Rightarrow> int option \<Rightarrow> 'r \<Rightarrow> (string \<times> wire_fields) list \<times> 'r"
  sr_xautoclaim :: "string \<Rightarrow> 'r \<Rightarrow> (string \<times> wire_fields) list \<times> 'r"
  sr_xpending :: "string \<Rightarrow> string \<Rightarrow> string \<Rightarrow> nat \<Rightarrow> 'r \<Rightarrow> (string \<times> int) list"
  sr_xrange :: "string \<Rightarrow> string \<Rightarrow> string \<Rightarrow> 'r \<Rightarrow> (string \<times> wire_fields) list"
  sr_xlen :: "string \<Rightarrow> 'r \<Rightarrow> int"
  sr_xack :: "string \<Rightarrow> string \<Rightarrow> 'r \<Rightarrow> int \<times> 'r"
  sr_publish :: "string \<Rightarrow> string \<Rightarrow> 'r \<Rightarrow> 'r"
  sr_pexpire :: "string \<Rightarrow> msec \<Rightarrow> 'r \<Rightarrow> 'r"

text \<open>The kinds of key the adapter uses, by prefix.\<close>

definition key_kind :: "string \<Rightarrow> string" where
  "key_kind k = takeWhile (\<lambda>c. c \<noteq> CHR '':'') k"

definition text_key :: "string \<Rightarrow> bool" where
  "text_key k \<longleftrightarrow> key_kind k \<in> {''inbox_epoch'', ''acked''}"

definition stream_at :: "'r stream_redis \<Rightarrow> string \<Rightarrow> 'r \<Rightarrow> stream" where
  "stream_at R k r = vw_stream (sr_view R r) k"

definition view_stream :: "server_view \<Rightarrow> string \<Rightarrow> (stream \<Rightarrow> stream) \<Rightarrow> server_view" where
  "view_stream v k f = v\<lparr>vw_stream := (vw_stream v)(k := f (vw_stream v k))\<rparr>"

text \<open>\<^verbatim>\<open>XAUTOCLAIM\<close> without a \<^verbatim>\<open>COUNT\<close> takes 100.\<close>

definition autoclaim_count :: nat where "autoclaim_count = 100"

definition between :: "'r stream_redis \<Rightarrow> string \<Rightarrow> string \<Rightarrow> (string \<times> 'a) list \<Rightarrow> (string \<times> 'a) list" where
  "between R lo hi xs = filter (\<lambda>p. sr_le R lo (fst p) \<and> sr_le R (fst p) hi) xs"

definition id_before :: "'r stream_redis \<Rightarrow> string \<Rightarrow> string \<Rightarrow> bool" where
  "id_before R i j \<longleftrightarrow> sr_le R i j \<and> i \<noteq> j"

definition order_law :: "'r stream_redis \<Rightarrow> bool" where
  "order_law R \<longleftrightarrow>
     (\<forall>i. sr_le R i i) \<and> (\<forall>i j. sr_le R i j \<longrightarrow> sr_le R j i \<longrightarrow> i = j) \<and> (\<forall>i j k. sr_le R i j \<longrightarrow> sr_le R j k \<longrightarrow> sr_le R i k)"

definition text_law :: "'r stream_redis \<Rightarrow> bool" where
  "text_law R \<longleftrightarrow>
     (\<forall>k r. text_key k \<longrightarrow> sr_get R k r = vw_text (sr_view R r) k) \<and>
     (\<forall>k v r. text_key k \<longrightarrow>
        sr_view R (sr_set R k v r) = (sr_view R r)\<lparr>vw_text := (vw_text (sr_view R r))(k \<mapsto> v)\<rparr>) \<and>
     (\<forall>k n r. text_key k \<longrightarrow> vw_text (sr_view R r) k \<in> {None, Some (show_int n)} \<longrightarrow>
        sr_view R (sr_incr R k r) = (sr_view R r)\<lparr>vw_text := (vw_text (sr_view R r))(k \<mapsto> show_int (script_num (vw_text (sr_view R r) k) + 1))\<rparr>)"

definition list_law :: "'r stream_redis \<Rightarrow> bool" where
  "list_law R \<longleftrightarrow>
     (\<forall>k v r. key_kind k = ''quarantine'' \<longrightarrow>
        sr_view R (sr_rpush R k v r) = (sr_view R r)\<lparr>vw_list := (vw_list (sr_view R r))(k := vw_list (sr_view R r) k @ [v])\<rparr>) \<and>
     (\<forall>k r. key_kind k = ''quarantine'' \<longrightarrow> sr_lrange R k r = vw_list (sr_view R r) k)"

definition xadd_law :: "'r stream_redis \<Rightarrow> bool" where
  "xadd_law R \<longleftrightarrow>
     (\<forall>k f r. key_kind k = ''inbox'' \<longrightarrow>
        (\<forall>i \<in> fst ` set (sm_entries (stream_at R k r)). id_before R i (fst (sr_xadd R k f r))) \<and>
        sr_view R (snd (sr_xadd R k f r)) =
          view_stream (sr_view R r) k (\<lambda>st. st\<lparr>sm_entries := sm_entries st @ [(fst (sr_xadd R k f r), f)]\<rparr>))"

definition group_law :: "'r stream_redis \<Rightarrow> bool" where
  "group_law R \<longleftrightarrow>
     (\<forall>k r. key_kind k = ''inbox'' \<longrightarrow>
        (if sm_group (stream_at R k r) then \<exists>rest. fst (sr_xgroup_create R k r) = Inl (''BUSYGROUP'' @ rest) else fst (sr_xgroup_create R k r) = Inr ()) \<and>
        sr_view R (snd (sr_xgroup_create R k r)) = view_stream (sr_view R r) k (\<lambda>st. st\<lparr>sm_group := True\<rparr>))"

definition readgroup_law :: "'r stream_redis \<Rightarrow> bool" where
  "readgroup_law R \<longleftrightarrow>
     (\<forall>k cap r. key_kind k = ''inbox'' \<longrightarrow> sm_group (stream_at R k r) \<longrightarrow> (case cap of None \<Rightarrow> True | Some c \<Rightarrow> 0 < c) \<longrightarrow>
        (let st = stream_at R k r; unread = drop (sm_read st) (sm_entries st);
             out = (case cap of None \<Rightarrow> unread | Some c \<Rightarrow> take (nat c) unread)
         in fst (sr_xreadgroup R k cap r) = out \<and>
            sr_view R (snd (sr_xreadgroup R k cap r)) = view_stream (sr_view R r) k (\<lambda>st. st\<lparr>sm_read := sm_read st + length out,
              sm_pending := sm_pending st @ map (\<lambda>p. (fst p, 1)) out\<rparr>)))"

definition autoclaim_law :: "'r stream_redis \<Rightarrow> bool" where
  "autoclaim_law R \<longleftrightarrow>
     (\<forall>k r. key_kind k = ''inbox'' \<longrightarrow> sm_group (stream_at R k r) \<longrightarrow>
        (let st = stream_at R k r; held = take autoclaim_count (sm_pending st)
         in fst (sr_xautoclaim R k r) = map (\<lambda>p. (fst p, the (map_of (sm_entries st) (fst p)))) held \<and>
            sr_view R (snd (sr_xautoclaim R k r)) = view_stream (sr_view R r) k (\<lambda>st. st\<lparr>sm_pending :=
              map (\<lambda>p. (fst p, snd p + 1)) held @ drop autoclaim_count (sm_pending st)\<rparr>)))"

definition range_law :: "'r stream_redis \<Rightarrow> bool" where
  "range_law R \<longleftrightarrow>
     (\<forall>k lo hi n r. key_kind k = ''inbox'' \<longrightarrow> sm_group (stream_at R k r) \<longrightarrow>
        sr_xpending R k lo hi n r = take n (between R lo hi (sm_pending (stream_at R k r)))) \<and>
     (\<forall>k lo hi r. key_kind k = ''inbox'' \<longrightarrow> sr_xrange R k lo hi r = between R lo hi (sm_entries (stream_at R k r))) \<and>
     (\<forall>k r. key_kind k = ''inbox'' \<longrightarrow> sr_xlen R k r = int (length (sm_entries (stream_at R k r))))"

definition xack_law :: "'r stream_redis \<Rightarrow> bool" where
  "xack_law R \<longleftrightarrow>
     (\<forall>k i r. key_kind k = ''inbox'' \<longrightarrow>
        fst (sr_xack R k i r) = of_bool (i \<in> fst ` set (sm_pending (stream_at R k r))) \<and>
        sr_view R (snd (sr_xack R k i r)) = view_stream (sr_view R r) k (\<lambda>st. st\<lparr>sm_pending := filter (\<lambda>p. fst p \<noteq> i) (sm_pending st)\<rparr>))"

definition quiet_law :: "'r stream_redis \<Rightarrow> bool" where
  "quiet_law R \<longleftrightarrow>
     (\<forall>c m r. sr_view R (sr_publish R c m r) = sr_view R r) \<and>
     (\<forall>k t r. 0 < t \<longrightarrow> sr_view R (sr_pexpire R k t r) = sr_view R r)"

definition stream_laws :: "'r stream_redis \<Rightarrow> bool" where
  "stream_laws R \<longleftrightarrow> order_law R \<and> text_law R \<and> list_law R \<and> xadd_law R \<and> group_law R \<and> readgroup_law R \<and> autoclaim_law R \<and> range_law R \<and> xack_law R \<and> quiet_law R"

section \<open>The operations\<close>

definition inbox_key :: "session_id \<Rightarrow> string" where "inbox_key sid = ''inbox:'' @ sid"
definition wakeup_channel :: "session_id \<Rightarrow> string" where "wakeup_channel sid = ''inbox-wakeup:'' @ sid"
definition quarantine_key :: "session_id \<Rightarrow> string" where "quarantine_key sid = ''quarantine:'' @ sid"
definition inbox_epoch_key :: "session_id \<Rightarrow> string" where "inbox_epoch_key sid = ''inbox_epoch:'' @ sid"
definition acked_key :: "session_id \<Rightarrow> string" where "acked_key sid = ''acked:'' @ sid"

lemma inbox_key_kinds [simp]:
  "key_kind (inbox_key sid) = ''inbox''" "key_kind (quarantine_key sid) = ''quarantine''"
  "text_key (inbox_epoch_key sid)" "text_key (acked_key sid)"
  by (simp_all add: text_key_def key_kind_def inbox_key_def quarantine_key_def inbox_epoch_key_def acked_key_def)

lemma inbox_keys_differ [simp]: "inbox_epoch_key sid \<noteq> acked_key sid" "acked_key sid \<noteq> inbox_epoch_key sid"
  by (simp_all add: inbox_epoch_key_def acked_key_def)

record 'r redis_inbox =
  ri_server :: "'r stream_redis"
  ri_state_ttl :: msec
  ri_dumps :: "data_point \<Rightarrow> string"
  ri_dec :: "string \<Rightarrow> string + pyval"
  ri_prs :: "pyval \<Rightarrow> orca_error + data_point"
  ri_dump_record :: "quarantined_entry \<Rightarrow> string"
  ri_load_record :: "string \<Rightarrow> orca_error + quarantined_entry"

definition slide_inbox :: "'r redis_inbox \<Rightarrow> string list \<Rightarrow> 'r \<Rightarrow> 'r" where
  "slide_inbox I keys r = fold (\<lambda>k. sr_pexpire (ri_server I) k (ri_state_ttl I)) keys r"

fun occurs_in :: "string \<Rightarrow> string \<Rightarrow> bool" where
  "occurs_in p [] \<longleftrightarrow> p = []"
| "occurs_in p (c # cs) \<longleftrightarrow> take (length p) (c # cs) = p \<or> occurs_in p cs"

definition ensure_group :: "'r redis_inbox \<Rightarrow> session_id \<Rightarrow> ('r, unit) op" where
  "ensure_group I sid r =
     (case sr_xgroup_create (ri_server I) (inbox_key sid) r of
        (Inr _, r1) \<Rightarrow> (Inr (), r1)
      | (Inl msg, r1) \<Rightarrow> if \<not> occurs_in ''BUSYGROUP'' msg then (Inl (OtherError msg), r1) else (Inr (), r1))"

definition redis_append :: "'r redis_inbox \<Rightarrow> session_id \<Rightarrow> data_point \<Rightarrow> ('r, string) op" where
  "redis_append I sid d r =
     (case sr_xadd (ri_server I) (inbox_key sid) [(''data'', ri_dumps I d)] r of
        (i, r1) \<Rightarrow> (Inr i, slide_inbox I [inbox_key sid] (sr_publish (ri_server I) (wakeup_channel sid) ''1'' r1)))"

definition redis_to_entry :: "'r redis_inbox \<Rightarrow> string \<Rightarrow> wire_fields \<Rightarrow> int \<Rightarrow> orca_error + delivered" where
  "redis_to_entry I i fs n =
     (case map_of fs ''data'' of
        None \<Rightarrow> Inr (PoisonInboxEntry i (''KeyError: '' @ [CHR 0x27] @ ''data'' @ [CHR 0x27]) n None)
      | Some payload \<Rightarrow>
          (case ri_dec I payload of
             Inl err \<Rightarrow> Inr (PoisonInboxEntry i err n (Some payload))
           | Inr raw \<Rightarrow> (case ri_prs I raw of Inl err \<Rightarrow> Inl err | Inr d \<Rightarrow> Inr (InboxEntry i d n))))"

fun redis_to_entries :: "'r redis_inbox \<Rightarrow> (string \<times> wire_fields \<times> int) list \<Rightarrow> orca_error + delivered list" where
  "redis_to_entries I [] = Inr []"
| "redis_to_entries I ((i, fs, n) # xs) =
     (case redis_to_entry I i fs n of
        Inl err \<Rightarrow> Inl err
      | Inr d \<Rightarrow> (case redis_to_entries I xs of Inl err \<Rightarrow> Inl err | Inr ds \<Rightarrow> Inr (d # ds)))"

definition redis_consume :: "'r redis_inbox \<Rightarrow> session_id \<Rightarrow> int option \<Rightarrow> ('r, delivered list) op" where
  "redis_consume I sid cap =
     (if (case cap of None \<Rightarrow> False | Some k \<Rightarrow> k \<le> 0) then returnE []
      else bindE (ensure_group I sid) (\<lambda>_ r.
        (case sr_xreadgroup (ri_server I) (inbox_key sid) cap r of
           (response, r1) \<Rightarrow> (redis_to_entries I (map (\<lambda>(i, fs). (i, fs, 1)) response), r1))))"

definition redis_reclaim :: "'r redis_inbox \<Rightarrow> session_id \<Rightarrow> ('r, delivered list) op" where
  "redis_reclaim I sid = bindE (ensure_group I sid) (\<lambda>_ r.
     (case sr_xautoclaim (ri_server I) (inbox_key sid) r of
        (claimed, r1) \<Rightarrow>
          if claimed = [] then (Inr [], r1)
          else let counts = map_of (sr_xpending (ri_server I) (inbox_key sid) (fst (hd claimed)) (fst (last claimed)) (length claimed) r1)
               in (redis_to_entries I (map (\<lambda>(i, fs). (i, fs, case counts i of None \<Rightarrow> 1 | Some n \<Rightarrow> n)) claimed), r1)))"

definition ack_script :: "'r stream_redis \<Rightarrow> string \<Rightarrow> string \<Rightarrow> string \<Rightarrow> epoch \<Rightarrow> string \<Rightarrow> 'r \<Rightarrow> int \<times> 'r" where
  "ack_script R ek sk ak e i r =
     (let stored = script_num (sr_get R ek r)
      in if e < stored then (-1, r)
         else let r1 = (if stored < e then sr_set R ek (show_int e) r else r)
              in case sr_xack R sk i r1 of (acked, r2) \<Rightarrow> (acked, if acked = 1 then sr_incr R ak r2 else r2))"

definition quarantine_script ::
  "'r stream_redis \<Rightarrow> string \<Rightarrow> string \<Rightarrow> string \<Rightarrow> string \<Rightarrow> epoch \<Rightarrow> string \<Rightarrow> string \<Rightarrow> 'r \<Rightarrow> int \<times> 'r" where
  "quarantine_script R ek sk ak qk e i row r =
     (let stored = script_num (sr_get R ek r)
      in if e < stored then (-1, r)
         else let r1 = (if stored < e then sr_set R ek (show_int e) r else r)
              in case sr_xack R sk i r1 of (acked, r2) \<Rightarrow> (acked, if acked = 1 then sr_rpush R qk row (sr_incr R ak r2) else r2))"

definition redis_ack :: "'r redis_inbox \<Rightarrow> session_id \<Rightarrow> string \<Rightarrow> epoch \<Rightarrow> ('r, unit) op" where
  "redis_ack I sid i e r =
     (case ack_script (ri_server I) (inbox_epoch_key sid) (inbox_key sid) (acked_key sid) e i r of
        (res, r1) \<Rightarrow> if res = -1 then (Inl StaleEpochError, r1)
          else (Inr (), slide_inbox I [inbox_key sid, acked_key sid, inbox_epoch_key sid] r1))"

definition redis_quarantine :: "'r redis_inbox \<Rightarrow> session_id \<Rightarrow> string \<Rightarrow> string \<Rightarrow> epoch \<Rightarrow> ('r, unit) op" where
  "redis_quarantine I sid i reason e = bindE (ensure_group I sid) (\<lambda>_ r.
     (let R = ri_server I;
          n = (case sr_xpending R (inbox_key sid) i i 1 r of [] \<Rightarrow> 0 | p # _ \<Rightarrow> snd p);
          payload = (case sr_xrange R (inbox_key sid) i i r of [] \<Rightarrow> None | p # _ \<Rightarrow> map_of (snd p) ''data'');
          row = ri_dump_record I \<lparr>qe_id = i, qe_reason = reason, qe_count = n, qe_payload = payload\<rparr>
      in case quarantine_script R (inbox_epoch_key sid) (inbox_key sid) (acked_key sid) (quarantine_key sid) e i row r of
           (res, r1) \<Rightarrow> if res = -1 then (Inl StaleEpochError, r1)
             else (Inr (), slide_inbox I [inbox_key sid, acked_key sid, inbox_epoch_key sid, quarantine_key sid] r1)))"

fun load_records :: "'r redis_inbox \<Rightarrow> string list \<Rightarrow> orca_error + quarantined_entry list" where
  "load_records I [] = Inr []"
| "load_records I (x # xs) =
     (case ri_load_record I x of
        Inl err \<Rightarrow> Inl err
      | Inr q \<Rightarrow> (case load_records I xs of Inl err \<Rightarrow> Inl err | Inr qs \<Rightarrow> Inr (q # qs)))"

definition redis_quarantined :: "'r redis_inbox \<Rightarrow> session_id \<Rightarrow> 'r \<Rightarrow> orca_error + quarantined_entry list" where
  "redis_quarantined I sid r = load_records I (sr_lrange (ri_server I) (quarantine_key sid) r)"

definition redis_pending_count :: "'r redis_inbox \<Rightarrow> session_id \<Rightarrow> 'r \<Rightarrow> int" where
  "redis_pending_count I sid r = sr_xlen (ri_server I) (inbox_key sid) r - script_num (sr_get (ri_server I) (acked_key sid) r)"

text \<open>
  \<^verbatim>\<open>wait_for_entry\<close> once subscribed: what each poll of the channel brings, and how many it takes to
  return.
\<close>

datatype poll = PTimeout | PIdle | PKind string

fun polls_until :: "poll list \<Rightarrow> nat option" where
  "polls_until [] = None"
| "polls_until (p # ps) = (if p = PKind ''message'' then Some 1 else map_option Suc (polls_until ps))"

definition redis_wait :: "'r redis_inbox \<Rightarrow> session_id \<Rightarrow> 'r \<Rightarrow> poll list \<Rightarrow> nat option" where
  "redis_wait I sid r polls = (if 0 < redis_pending_count I sid r then Some 0 else polls_until polls)"

section \<open>The laws, one by one\<close>

lemma view_stream_simps [simp]:
  "vw_text (view_stream v k f) = vw_text v" "vw_list (view_stream v k f) = vw_list v"
  "vw_stream (view_stream v k f) k = f (vw_stream v k)"
  by (simp_all add: view_stream_def)

lemma view_pexpire: "stream_laws R \<Longrightarrow> 0 < t \<Longrightarrow> sr_view R (sr_pexpire R k t r) = sr_view R r"
  by (simp add: stream_laws_def quiet_law_def)

lemma view_publish: "stream_laws R \<Longrightarrow> sr_view R (sr_publish R c m r) = sr_view R r"
  by (simp add: stream_laws_def quiet_law_def)

lemma view_slide: "stream_laws (ri_server I) \<Longrightarrow> 0 < ri_state_ttl I \<Longrightarrow> sr_view (ri_server I) (slide_inbox I ks r) = sr_view (ri_server I) r"
  unfolding slide_inbox_def by (induction ks arbitrary: r) (simp_all add: view_pexpire)

lemma id_order:
  assumes "stream_laws R"
  shows "sr_le R i i" and "sr_le R i j \<Longrightarrow> sr_le R j i \<Longrightarrow> i = j" and "sr_le R i j \<Longrightarrow> sr_le R j k \<Longrightarrow> sr_le R i k"
  using assms unfolding stream_laws_def order_law_def by blast+

lemma text_facts:
  assumes "stream_laws R" and "text_key k"
  shows "sr_get R k r = vw_text (sr_view R r) k"
    and "sr_view R (sr_set R k v r) = (sr_view R r)\<lparr>vw_text := (vw_text (sr_view R r))(k \<mapsto> v)\<rparr>"
  using assms unfolding stream_laws_def text_law_def by simp_all

lemma incr_fact:
  assumes "stream_laws R" and "text_key k" and "vw_text (sr_view R r) k \<in> {None, Some (show_int n)}"
  shows "sr_view R (sr_incr R k r) = (sr_view R r)\<lparr>vw_text := (vw_text (sr_view R r))(k \<mapsto> show_int (script_num (vw_text (sr_view R r) k) + 1))\<rparr>"
  using assms unfolding stream_laws_def text_law_def by blast

lemma list_facts:
  assumes "stream_laws R" and "key_kind k = ''quarantine''"
  shows "sr_view R (sr_rpush R k v r) = (sr_view R r)\<lparr>vw_list := (vw_list (sr_view R r))(k := vw_list (sr_view R r) k @ [v])\<rparr>"
    and "sr_lrange R k r = vw_list (sr_view R r) k"
  using assms unfolding stream_laws_def list_law_def by simp_all

lemma xadd_facts:
  assumes "stream_laws R" and "key_kind k = ''inbox''"
  shows "\<forall>i \<in> fst ` set (sm_entries (stream_at R k r)). id_before R i (fst (sr_xadd R k f r))"
    and "sr_view R (snd (sr_xadd R k f r)) = view_stream (sr_view R r) k (\<lambda>st. st\<lparr>sm_entries := sm_entries st @ [(fst (sr_xadd R k f r), f)]\<rparr>)"
  using assms unfolding stream_laws_def xadd_law_def by simp_all

lemma occurs_in_prefix: "p \<noteq> [] \<Longrightarrow> occurs_in p (p @ rest)"
  by (cases p) simp_all

lemma ensure_group_fact:
  assumes laws: "stream_laws (ri_server I)"
  shows "\<exists>r1. ensure_group I sid r = (Inr (), r1) \<and>
     sr_view (ri_server I) r1 = view_stream (sr_view (ri_server I) r) (inbox_key sid) (\<lambda>st. st\<lparr>sm_group := True\<rparr>)"
proof -
  let ?R = "ri_server I" and ?k = "inbox_key sid"
  have kind: "key_kind ?k = ''inbox''" by simp
  obtain res r1 where c: "sr_xgroup_create ?R ?k r = (res, r1)" by (cases "sr_xgroup_create ?R ?k r")
  have v: "sr_view ?R r1 = view_stream (sr_view ?R r) ?k (\<lambda>st. st\<lparr>sm_group := True\<rparr>)"
    and res: "if sm_group (stream_at ?R ?k r) then \<exists>rest. res = Inl (''BUSYGROUP'' @ rest) else res = Inr ()"
    using laws kind c unfolding stream_laws_def group_law_def by (metis fst_conv snd_conv)+
  have "occurs_in ''BUSYGROUP'' (''BUSYGROUP'' @ rest)" for rest by (rule occurs_in_prefix) simp
  with res have "ensure_group I sid r = (Inr (), r1)"
    by (cases "sm_group (stream_at ?R ?k r)") (auto simp: ensure_group_def c simp del: occurs_in.simps)
  with v show ?thesis by blast
qed

lemma readgroup_facts:
  assumes "stream_laws R" and "key_kind k = ''inbox''" and "sm_group (stream_at R k r)" and "case cap of None \<Rightarrow> True | Some c \<Rightarrow> 0 < c"
    and "out = (case cap of None \<Rightarrow> drop (sm_read (stream_at R k r)) (sm_entries (stream_at R k r))
        | Some c \<Rightarrow> take (nat c) (drop (sm_read (stream_at R k r)) (sm_entries (stream_at R k r))))"
  shows "fst (sr_xreadgroup R k cap r) = out"
    and "sr_view R (snd (sr_xreadgroup R k cap r)) = view_stream (sr_view R r) k (\<lambda>st. st\<lparr>sm_read := sm_read st + length out,
       sm_pending := sm_pending st @ map (\<lambda>p. (fst p, 1)) out\<rparr>)"
  using assms unfolding stream_laws_def readgroup_law_def Let_def by simp_all

lemma autoclaim_facts:
  assumes "stream_laws R" and "key_kind k = ''inbox''" and "sm_group (stream_at R k r)"
  shows "fst (sr_xautoclaim R k r) = map (\<lambda>p. (fst p, the (map_of (sm_entries (stream_at R k r)) (fst p)))) (take autoclaim_count (sm_pending (stream_at R k r)))"
    and "sr_view R (snd (sr_xautoclaim R k r)) = view_stream (sr_view R r) k (\<lambda>st. st\<lparr>sm_pending :=
       map (\<lambda>p. (fst p, snd p + 1)) (take autoclaim_count (sm_pending (stream_at R k r))) @ drop autoclaim_count (sm_pending st)\<rparr>)"
  using assms unfolding stream_laws_def autoclaim_law_def Let_def by simp_all

lemma range_facts:
  assumes "stream_laws R" and "key_kind k = ''inbox''"
  shows "sm_group (stream_at R k r) \<Longrightarrow> sr_xpending R k lo hi n r = take n (between R lo hi (sm_pending (stream_at R k r)))"
    and "sr_xrange R k lo hi r = between R lo hi (sm_entries (stream_at R k r))"
    and "sr_xlen R k r = int (length (sm_entries (stream_at R k r)))"
  using assms unfolding stream_laws_def range_law_def by simp_all

lemma xack_facts:
  assumes "stream_laws R" and "key_kind k = ''inbox''"
  shows "fst (sr_xack R k i r) = of_bool (i \<in> fst ` set (sm_pending (stream_at R k r)))"
    and "sr_view R (snd (sr_xack R k i r)) = view_stream (sr_view R r) k (\<lambda>st. st\<lparr>sm_pending := filter (\<lambda>p. fst p \<noteq> i) (sm_pending st)\<rparr>)"
  using assms unfolding stream_laws_def xack_law_def by simp_all


section \<open>The in-memory inbox it shadows\<close>

definition payload_of :: "stream \<Rightarrow> string \<Rightarrow> string" where
  "payload_of st i = the (map_of (the (map_of (sm_entries st) i)) ''data'')"

definition claimed_message :: "stream \<Rightarrow> string \<times> int \<Rightarrow> inbox_message" where
  "claimed_message st p = \<lparr>ms_id = fst p, ms_payload = payload_of st (fst p), ms_count = snd p, ms_claimed = True\<rparr>"

definition fresh_message :: "string \<times> wire_fields \<Rightarrow> inbox_message" where
  "fresh_message p = \<lparr>ms_id = fst p, ms_payload = the (map_of (snd p) ''data''), ms_count = 0, ms_claimed = False\<rparr>"

definition unread :: "stream \<Rightarrow> (string \<times> wire_fields) list" where
  "unread st = drop (sm_read st) (sm_entries st)"

definition messages_of :: "stream \<Rightarrow> inbox_message list" where
  "messages_of st = map (claimed_message st) (sm_pending st) @ map fresh_message (unread st)"

definition stream_ok :: "'r stream_redis \<Rightarrow> stream \<Rightarrow> bool" where
  "stream_ok R st \<longleftrightarrow>
     sorted_wrt (id_before R) (map fst (sm_entries st)) \<and> sorted_wrt (id_before R) (map fst (sm_pending st)) \<and>
     fst ` set (sm_pending st) \<subseteq> fst ` set (take (sm_read st) (sm_entries st)) \<and>
     sm_read st \<le> length (sm_entries st) \<and> (\<not> sm_group st \<longrightarrow> sm_pending st = []) \<and> (\<forall>e \<in> set (sm_entries st). \<exists>p. snd e = [(''data'', p)])"

definition shadows :: "'r redis_inbox \<Rightarrow> session_id \<Rightarrow> 'r \<Rightarrow> inbox_state \<Rightarrow> bool" where
  "shadows I sid r s \<longleftrightarrow>
     (let v = sr_view (ri_server I) r; st = stream_at (ri_server I) (inbox_key sid) r
      in stream_ok (ri_server I) st \<and> ib_messages s = messages_of st \<and>
         script_num (vw_text v (inbox_epoch_key sid)) = ib_max_epoch s \<and>
         (\<exists>n. vw_text v (acked_key sid) \<in> {None, Some (show_int n)}) \<and>
         script_num (vw_text v (acked_key sid)) = int (length (sm_entries st)) - int (length (ib_messages s)) \<and>
         load_records I (vw_list v (quarantine_key sid)) = Inr (ib_quarantined s))"

lemma id_before_trans: "stream_laws R \<Longrightarrow> id_before R i j \<Longrightarrow> id_before R j k \<Longrightarrow> id_before R i k"
  unfolding id_before_def using id_order [of R] by blast

lemma sorted_ids_distinct: "stream_laws R \<Longrightarrow> sorted_wrt (id_before R) xs \<Longrightarrow> distinct xs"
  by (induction xs) (auto simp: id_before_def)

lemma stream_ids:
  assumes laws: "stream_laws R" and ok: "stream_ok R st"
  shows "distinct (map fst (sm_entries st))" and "distinct (map fst (sm_pending st))"
    and "p \<in> set (sm_pending st) \<Longrightarrow> q \<in> set (unread st) \<Longrightarrow> id_before R (fst p) (fst q)"
    and "distinct (map ms_id (messages_of st))"
proof -
  have e: "sorted_wrt (id_before R) (map fst (take (sm_read st) (sm_entries st)) @ map fst (unread st))"
    using ok unfolding stream_ok_def unread_def map_append [symmetric] by simp
  show d: "distinct (map fst (sm_entries st))" "distinct (map fst (sm_pending st))"
    using ok sorted_ids_distinct [OF laws] by (auto simp: stream_ok_def)
  show before: "id_before R (fst p) (fst q)" if "p \<in> set (sm_pending st)" "q \<in> set (unread st)" for p q
  proof -
    have "fst p \<in> fst ` set (take (sm_read st) (sm_entries st))" using ok that(1) unfolding stream_ok_def by blast
    with e that(2) show ?thesis by (auto simp: sorted_wrt_append)
  qed
  have "distinct (map fst (unread st))" using d(1) by (simp add: unread_def distinct_drop flip: drop_map)
  moreover have "fst ` set (sm_pending st) \<inter> fst ` set (unread st) = {}" using before by (auto simp: id_before_def)
  ultimately show "distinct (map ms_id (messages_of st))"
    using d(2) by (simp add: messages_of_def claimed_message_def fresh_message_def comp_def)
qed

lemma stream_entry:
  assumes "stream_laws R" and "stream_ok R st" and "p \<in> set (sm_entries st)"
  shows "map_of (sm_entries st) (fst p) = Some (snd p)" and "snd p = [(''data'', payload_of st (fst p))]"
proof -
  show m: "map_of (sm_entries st) (fst p) = Some (snd p)"
    using stream_ids(1) [OF assms(1,2)] assms(3) by (simp add: map_of_is_SomeI)
  from assms(2,3) obtain q where "snd p = [(''data'', q)]" by (auto simp: stream_ok_def)
  with m show "snd p = [(''data'', payload_of st (fst p))]" by (simp add: payload_of_def)
qed

lemma unread_sub: "p \<in> set (unread st) \<Longrightarrow> p \<in> set (sm_entries st)"
  unfolding unread_def by (rule in_set_dropD)

text \<open>What a claim does to a message, and what is delivered of it.\<close>

definition presented :: "inbox_message \<Rightarrow> inbox_message" where
  "presented m = m\<lparr>ms_claimed := True, ms_count := ms_count m + 1\<rparr>"

definition entry_of :: "'r redis_inbox \<Rightarrow> inbox_message \<Rightarrow> delivered" where
  "entry_of I m = projr (to_entry (ri_dec I) (ri_prs I) m)"

lemma to_entry_of: "parses (ri_dec I) (ri_prs I) \<Longrightarrow> to_entry (ri_dec I) (ri_prs I) m = Inr (entry_of I m)"
  unfolding parses_def entry_of_def by (metis sum.sel(2))

lemma redis_to_entry_same:
  "redis_to_entry I i [(''data'', p)] n = to_entry (ri_dec I) (ri_prs I) \<lparr>ms_id = i, ms_payload = p, ms_count = n, ms_claimed = c\<rparr>"
  by (simp add: redis_to_entry_def to_entry_def split: sum.split)

lemma redis_to_entries_map:
  assumes "parses (ri_dec I) (ri_prs I)"
    and "\<And>x. x \<in> set xs \<Longrightarrow> redis_to_entry I (fst (f x)) (fst (snd (f x))) (snd (snd (f x))) = to_entry (ri_dec I) (ri_prs I) (g x)"
  shows "redis_to_entries I (map f xs) = Inr (map (\<lambda>x. entry_of I (g x)) xs)"
  using assms(2)
proof (induction xs)
  case (Cons x xs)
  obtain i fs n where f: "f x = (i, fs, n)" by (cases "f x") auto
  have "redis_to_entry I i fs n = Inr (entry_of I (g x))" using Cons.prems [of x] to_entry_of [OF assms(1)] f by simp
  with Cons f show ?case by simp
qed simp

lemma consume_loop_fresh:
  assumes "parses (ri_dec I) (ri_prs I)"
  shows "\<forall>m \<in> set ms. \<not> ms_claimed m \<Longrightarrow>
    k = (case cap of None \<Rightarrow> length ms | Some c \<Rightarrow> nat (c - n)) \<Longrightarrow>
    consume_loop (ri_dec I) (ri_prs I) cap n ms =
      (Inr (map (\<lambda>m. entry_of I (presented m)) (take k ms)), map presented (take k ms) @ drop k ms)"
proof (induction ms arbitrary: n k)
  case (Cons m ms)
  show ?case
  proof (cases "case cap of None \<Rightarrow> False | Some c \<Rightarrow> c \<le> n")
    case True
    with Cons.prems(2) show ?thesis by (auto split: option.splits)
  next
    case False
    let ?k = "case cap of None \<Rightarrow> length ms | Some c \<Rightarrow> nat (c - (n + 1))"
    have k: "k = Suc ?k" using Cons.prems(2) False by (auto split: option.splits)
    have "consume_loop (ri_dec I) (ri_prs I) cap (n + 1) ms =
        (Inr (map (\<lambda>m. entry_of I (presented m)) (take ?k ms)), map presented (take ?k ms) @ drop ?k ms)"
      by (rule Cons.IH) (use Cons.prems(1) in auto)
    with False Cons.prems(1) show ?thesis
      by (simp add: k Let_def to_entry_of [OF assms] flip: presented_def)
  qed
qed (simp split: option.split)

lemma consume_loop_skips:
  "\<forall>m \<in> set ms. ms_claimed m \<Longrightarrow> \<not> (case cap of None \<Rightarrow> False | Some c \<Rightarrow> c \<le> n) \<Longrightarrow>
     consume_loop dec prs cap n (ms @ ns) = (case consume_loop dec prs cap n ns of (r, ns') \<Rightarrow> (r, ms @ ns'))"
  by (induction ms) (simp_all split: prod.splits)

lemma reclaim_loop_all:
  assumes "parses (ri_dec I) (ri_prs I)"
  shows "\<forall>m \<in> set ms. ms_claimed m \<Longrightarrow> \<forall>m \<in> set ns. \<not> ms_claimed m \<Longrightarrow>
    reclaim_loop (ri_dec I) (ri_prs I) (ms @ ns) = (Inr (map (\<lambda>m. entry_of I (presented m)) ms), map presented ms @ ns)"
proof (induction ms)
  case Nil
  then show ?case by (induction ns) simp_all
next
  case (Cons m ms)
  have "presented m = m\<lparr>ms_count := ms_count m + 1\<rparr>" using Cons.prems(1) by (cases m) (simp add: presented_def)
  with Cons show ?case by (simp add: Let_def to_entry_of [OF assms])
qed

lemma take_claimed_filter:
  "distinct (map ms_id ms) \<Longrightarrow> take_claimed i ms =
     (case filter (\<lambda>m. ms_id m = i \<and> ms_claimed m) ms of [] \<Rightarrow> (None, ms) | m # _ \<Rightarrow> (Some m, filter (\<lambda>m. ms_id m \<noteq> i) ms))"
proof (induction ms)
  case (Cons m ms)
  show ?case
  proof (cases "ms_id m = i")
    case True
    with Cons.prems have "i \<notin> ms_id ` set ms" by simp
    then have "\<forall>x \<in> set ms. ms_id x \<noteq> i" by (metis imageI)
    then have "filter (\<lambda>m. ms_id m = i \<and> ms_claimed m) ms = []" "filter (\<lambda>m. ms_id m \<noteq> i) ms = ms" by (auto simp: filter_empty_conv filter_id_conv)
    with True show ?thesis by simp
  next
    case False
    with Cons show ?thesis by (simp split: list.splits prod.splits)
  qed
qed simp

section \<open>Each operation shadows its counterpart\<close>

definition inbox_setting :: "'r redis_inbox \<Rightarrow> bool" where
  "inbox_setting I \<longleftrightarrow> stream_laws (ri_server I) \<and> 0 < ri_state_ttl I \<and> parses (ri_dec I) (ri_prs I) \<and>
     (\<forall>q. ri_load_record I (ri_dump_record I q) = Inr q)"

lemma stream_at_updated: "sr_view R r' = view_stream (sr_view R r) k f \<Longrightarrow> stream_at R k r' = f (stream_at R k r)"
  by (simp add: stream_at_def)

lemma shadows_view:
  assumes "sr_view (ri_server I) r' = sr_view (ri_server I) r"
  shows "shadows I sid r' s = shadows I sid r s"
  using assms by (simp add: shadows_def stream_at_def)

text \<open>A step that touches the stream only, leaving its entries as they are.\<close>

lemma shadows_stream:
  assumes "shadows I sid r s" and "sr_view (ri_server I) r' = view_stream (sr_view (ri_server I) r) (inbox_key sid) f"
    and "stream_ok (ri_server I) (f (stream_at (ri_server I) (inbox_key sid) r))"
    and "sm_entries (f (stream_at (ri_server I) (inbox_key sid) r)) = sm_entries (stream_at (ri_server I) (inbox_key sid) r)"
    and "length (messages_of (f (stream_at (ri_server I) (inbox_key sid) r))) = length (ib_messages s)"
  shows "shadows I sid r' (s\<lparr>ib_messages := messages_of (f (stream_at (ri_server I) (inbox_key sid) r))\<rparr>)"
    and "stream_at (ri_server I) (inbox_key sid) r' = f (stream_at (ri_server I) (inbox_key sid) r)"
proof -
  show st: "stream_at (ri_server I) (inbox_key sid) r' = f (stream_at (ri_server I) (inbox_key sid) r)"
    by (rule stream_at_updated [OF assms(2)])
  show "shadows I sid r' (s\<lparr>ib_messages := messages_of (f (stream_at (ri_server I) (inbox_key sid) r))\<rparr>)"
    using assms(1,3-5) by (simp add: shadows_def Let_def st assms(2))
qed

lemma group_shadows:
  assumes set: "inbox_setting I" and r: "shadows I sid r s"
  obtains r1 where "ensure_group I sid r = (Inr (), r1)" and "shadows I sid r1 s"
    and "stream_at (ri_server I) (inbox_key sid) r1 = (stream_at (ri_server I) (inbox_key sid) r)\<lparr>sm_group := True\<rparr>"
proof -
  let ?st = "stream_at (ri_server I) (inbox_key sid) r"
  have laws: "stream_laws (ri_server I)" using set by (simp add: inbox_setting_def)
  from ensure_group_fact [OF laws] obtain r1 where r1: "ensure_group I sid r = (Inr (), r1)"
    "sr_view (ri_server I) r1 = view_stream (sr_view (ri_server I) r) (inbox_key sid) (\<lambda>st. st\<lparr>sm_group := True\<rparr>)" by blast
  have ok: "stream_ok (ri_server I) (?st\<lparr>sm_group := True\<rparr>)" using r by (auto simp: shadows_def Let_def stream_ok_def)
  have same: "messages_of (?st\<lparr>sm_group := True\<rparr>) = ib_messages s"
    using r by (simp add: shadows_def Let_def messages_of_def claimed_message_def payload_of_def unread_def)
  have "shadows I sid r1 (s\<lparr>ib_messages := messages_of (?st\<lparr>sm_group := True\<rparr>)\<rparr>)"
    and "stream_at (ri_server I) (inbox_key sid) r1 = ?st\<lparr>sm_group := True\<rparr>"
    by (rule shadows_stream [OF r r1(2)]; simp add: ok same)+
  with r1(1) same that show thesis by simp
qed

lemma append_shadows:
  assumes set: "inbox_setting I" and r: "shadows I sid r s"
  shows "\<exists>i r'. redis_append I sid d r = (Inr i, r') \<and> shadows I sid r' (snd (inbox_append (ri_dumps I) i d s)) \<and>
     i \<notin> fst ` set (sm_entries (stream_at (ri_server I) (inbox_key sid) r)) \<and>
     fst ` set (sm_entries (stream_at (ri_server I) (inbox_key sid) r')) = insert i (fst ` set (sm_entries (stream_at (ri_server I) (inbox_key sid) r)))"
proof -
  let ?R = "ri_server I" and ?k = "inbox_key sid"
  let ?st = "stream_at ?R ?k r"
  let ?f = "[(''data'', ri_dumps I d)]"
  have laws: "stream_laws ?R" and ttl: "0 < ri_state_ttl I" using set by (simp_all add: inbox_setting_def)
  obtain i r1 where x: "sr_xadd ?R ?k ?f r = (i, r1)" by (cases "sr_xadd ?R ?k ?f r")
  have above: "\<forall>j \<in> fst ` set (sm_entries ?st). id_before ?R j i"
    and v: "sr_view ?R r1 = view_stream (sr_view ?R r) ?k (\<lambda>st. st\<lparr>sm_entries := sm_entries st @ [(i, ?f)]\<rparr>)"
    using xadd_facts [OF laws, where k = ?k and r = r and f = ?f] x by simp_all
  have new: "i \<notin> fst ` set (sm_entries ?st)" using above by (auto simp: id_before_def)
  let ?r' = "slide_inbox I [?k] (sr_publish ?R (wakeup_channel sid) ''1'' r1)"
  have v': "sr_view ?R ?r' = sr_view ?R r1" by (simp add: view_slide [OF laws ttl] view_publish [OF laws])
  let ?st1 = "?st\<lparr>sm_entries := sm_entries ?st @ [(i, ?f)]\<rparr>"
  have st1: "stream_at ?R ?k r1 = ?st1" by (rule stream_at_updated [OF v])
  have ok: "stream_ok ?R ?st" and ms: "ib_messages s = messages_of ?st" using r by (simp_all add: shadows_def Let_def)
  have inside: "sm_read ?st \<le> length (sm_entries ?st)" using ok by (simp add: stream_ok_def)
  have pend: "claimed_message ?st1 p = claimed_message ?st p" if "p \<in> set (sm_pending ?st)" for p
  proof -
    have "fst p \<in> fst ` set (take (sm_read ?st) (sm_entries ?st))" using ok that unfolding stream_ok_def by blast
    then have "fst p \<in> fst ` set (sm_entries ?st)" by (auto dest: in_set_takeD)
    then obtain fs where "map_of (sm_entries ?st) (fst p) = Some fs" by (metis map_of_eq_None_iff not_None_eq)
    then show ?thesis by (simp add: claimed_message_def payload_of_def map_add_def)
  qed
  have unread1: "unread ?st1 = unread ?st @ [(i, ?f)]" using inside by (simp add: unread_def)
  have "stream_ok ?R ?st1"
    using ok above inside unfolding stream_ok_def by (auto simp: sorted_wrt_append)
  moreover have "messages_of ?st1 = messages_of ?st @ [\<lparr>ms_id = i, ms_payload = ri_dumps I d, ms_count = 0, ms_claimed = False\<rparr>]"
    using pend by (simp add: messages_of_def unread1 fresh_message_def)
  ultimately have "shadows I sid r1 (snd (inbox_append (ri_dumps I) i d s))"
    using r by (simp add: shadows_def Let_def inbox_append_def append_serialized_def v st1)
  moreover have "redis_append I sid d r = (Inr i, ?r')" by (simp add: redis_append_def x)
  moreover have "stream_at ?R ?k ?r' = ?st1" using st1 by (simp add: stream_at_def v')
  ultimately show ?thesis using new shadows_view [OF v'] by auto
qed


lemma claimed_cong: "sm_entries st' = sm_entries st \<Longrightarrow> claimed_message st' = claimed_message st"
  by (simp add: fun_eq_iff claimed_message_def payload_of_def)

lemma messages_split: "\<forall>m \<in> set (map (claimed_message st) ps). ms_claimed m" "\<forall>m \<in> set (map fresh_message qs). \<not> ms_claimed m"
  by (simp_all add: claimed_message_def fresh_message_def)

lemma consume_shadows:
  assumes set: "inbox_setting I" and r: "shadows I sid r s"
  shows "\<exists>res r'. redis_consume I sid cap r = (res, r') \<and> fst (inbox_consume (ri_dec I) (ri_prs I) cap s) = res \<and>
     shadows I sid r' (snd (inbox_consume (ri_dec I) (ri_prs I) cap s)) \<and>
     sm_entries (stream_at (ri_server I) (inbox_key sid) r') = sm_entries (stream_at (ri_server I) (inbox_key sid) r)"
proof (cases "case cap of None \<Rightarrow> False | Some c \<Rightarrow> c \<le> 0")
  case True
  with r show ?thesis by (simp add: redis_consume_def inbox_consume_def returnE_def)
next
  case False
  let ?R = "ri_server I" and ?k = "inbox_key sid" and ?loop = "consume_loop (ri_dec I) (ri_prs I)"
  have laws: "stream_laws ?R" and prs: "parses (ri_dec I) (ri_prs I)" using set by (simp_all add: inbox_setting_def)
  from group_shadows [OF set r] obtain r1 where r1: "ensure_group I sid r = (Inr (), r1)" "shadows I sid r1 s"
    "stream_at ?R ?k r1 = (stream_at ?R ?k r)\<lparr>sm_group := True\<rparr>" .
  obtain st where st: "stream_at ?R ?k r1 = st" by blast
  have ok: "stream_ok ?R st" and ms: "ib_messages s = messages_of st" using r1(2) st by (simp_all add: shadows_def Let_def)
  define n where "n = (case cap of None \<Rightarrow> length (unread st) | Some c \<Rightarrow> nat (c - 0))"
  define out where "out = take n (unread st)"
  have out: "out = (case cap of None \<Rightarrow> drop (sm_read st) (sm_entries st) | Some c \<Rightarrow> take (nat c) (drop (sm_read st) (sm_entries st)))"
    by (simp add: out_def n_def unread_def split: option.split)
  let ?f = "\<lambda>st. st\<lparr>sm_read := sm_read st + length out, sm_pending := sm_pending st @ map (\<lambda>p. (fst p, 1)) out\<rparr>"
  obtain r2 where x: "sr_xreadgroup ?R ?k cap r1 = (out, r2)" and v: "sr_view ?R r2 = view_stream (sr_view ?R r1) ?k ?f"
    using readgroup_facts [OF laws, of ?k r1 cap out] out r1(3) False st
    by (cases "sr_xreadgroup ?R ?k cap r1") (auto split: option.splits)
  have inside: "sm_read st \<le> length (sm_entries st)" using ok by (simp add: stream_ok_def)
  have out_in: "p \<in> set (unread st)" if "p \<in> set out" for p using that unfolding out_def by (rule in_set_takeD)
  have unread2: "unread (?f st) = drop n (unread st)"
  proof -
    have "drop (length out) (unread st) = drop n (unread st)" by (simp add: out_def min_def)
    then show ?thesis by (simp add: unread_def add.commute)
  qed
  have shown: "claimed_message st (fst p, 1) = presented (fresh_message p)" if "p \<in> set out" for p
    using stream_entry(2) [OF laws ok unread_sub [OF out_in [OF that]]]
    by (simp add: claimed_message_def presented_def fresh_message_def)
  have msgs2: "messages_of (?f st) = map (claimed_message st) (sm_pending st) @ map (\<lambda>p. presented (fresh_message p)) out @ map fresh_message (drop n (unread st))"
    unfolding messages_of_def unread2 using shown by (simp add: claimed_cong [of "?f st" st])
  have ok2: "stream_ok ?R (?f st)"
  proof -
    have before: "id_before ?R (fst p) (fst q)" if "p \<in> set (sm_pending st)" "q \<in> set out" for p q
      using stream_ids(3) [OF laws ok that(1) out_in [OF that(2)]] .
    have "sorted_wrt (id_before ?R) (map fst (unread st))"
      using ok unfolding stream_ok_def unread_def by (simp add: sorted_wrt_drop flip: drop_map)
    then have "sorted_wrt (id_before ?R) (map fst out)" unfolding out_def by (simp add: sorted_wrt_take flip: take_map)
    moreover have "take (sm_read st + length out) (sm_entries st) = take (sm_read st) (sm_entries st) @ out"
      by (simp add: out_def unread_def take_add min_def)
    moreover have "sm_read st + length out \<le> length (sm_entries st)" using inside by (simp add: out_def unread_def)
    moreover have "sm_group st" using r1(3) st by auto
    ultimately show ?thesis using ok before unfolding stream_ok_def by (auto simp: sorted_wrt_append comp_def intro: rev_image_eqI)
  qed
  have len: "length (messages_of (?f st)) = length (ib_messages s)"
    unfolding msgs2 ms messages_of_def [of st] by (simp add: out_def)
  have mem: "inbox_consume (ri_dec I) (ri_prs I) cap s = (Inr (map (\<lambda>p. entry_of I (presented (fresh_message p))) out), s\<lparr>ib_messages := messages_of (?f st)\<rparr>)"
  proof -
    have "?loop cap 0 (map fresh_message (unread st)) = (Inr (map (\<lambda>m. entry_of I (presented m)) (take n (map fresh_message (unread st)))),
        map presented (take n (map fresh_message (unread st))) @ drop n (map fresh_message (unread st)))"
      by (rule consume_loop_fresh [OF prs messages_split(2)]) (simp add: n_def split: option.split)
    then show ?thesis using False unfolding msgs2
      by (simp add: inbox_consume_def ms messages_of_def [of st] consume_loop_skips [OF messages_split(1)] out_def take_map drop_map comp_def)
  qed
  have "redis_to_entries I (map (\<lambda>p. (fst p, snd p, 1)) out) = Inr (map (\<lambda>p. entry_of I (presented (fresh_message p))) out)"
  proof (rule redis_to_entries_map [OF prs])
    fix p
    assume "p \<in> set out"
    from stream_entry(2) [OF laws ok unread_sub [OF out_in [OF this]]]
    have f: "snd p = [(''data'', payload_of st (fst p))]" .
    then show "redis_to_entry I (fst (fst p, snd p, 1)) (fst (snd (fst p, snd p, 1))) (snd (snd (fst p, snd p, 1 :: int))) =
        to_entry (ri_dec I) (ri_prs I) (presented (fresh_message p))"
      by (simp add: redis_to_entry_same [where c = True] presented_def fresh_message_def)
  qed
  then have res: "redis_consume I sid cap r = (Inr (map (\<lambda>p. entry_of I (presented (fresh_message p))) out), r2)"
    using False by (simp add: redis_consume_def bindE_def r1(1) x case_prod_beta')
  have "shadows I sid r2 (s\<lparr>ib_messages := messages_of (?f st)\<rparr>)" and "stream_at ?R ?k r2 = ?f st"
    using shadows_stream [OF r1(2) v] unfolding st using ok2 len by simp_all
  with res mem r1(3) st show ?thesis by auto
qed


lemma between_prefix:
  assumes laws: "stream_laws R" and sorted: "sorted_wrt (id_before R) (map fst (xs @ ys))" and "xs \<noteq> []"
  shows "between R (fst (hd xs)) (fst (last xs)) (xs @ ys) = xs"
proof -
  have xs: "sorted_wrt (id_before R) (map fst xs)" and across: "id_before R (fst p) (fst q)" if "p \<in> set xs" "q \<in> set ys" for p q
    using sorted that by (auto simp: sorted_wrt_append)
  have xs: "sorted_wrt (id_before R) (map fst xs)" using sorted by (simp add: sorted_wrt_append)
  have lo: "sr_le R (fst (hd xs)) (fst p)" if "p \<in> set xs" for p
    using xs that id_order(1) [OF laws] by (cases xs) (auto simp: id_before_def)
  have hi: "sr_le R (fst p) (fst (last xs))" if "p \<in> set xs" for p
    using xs that
  proof (induction xs)
    case (Cons x xs)
    then show ?case using id_order(1) [OF laws] by (auto simp: id_before_def dest: last_in_set)
  qed simp
  have no: "\<not> sr_le R (fst q) (fst (last xs))" if "q \<in> set ys" for q
    using across [OF last_in_set [OF \<open>xs \<noteq> []\<close>] that] id_order(2) [OF laws] by (auto simp: id_before_def)
  have "filter (\<lambda>p. sr_le R (fst (hd xs)) (fst p) \<and> sr_le R (fst p) (fst (last xs))) xs = xs" using lo hi by (simp add: filter_id_conv)
  moreover have "filter (\<lambda>p. sr_le R (fst (hd xs)) (fst p) \<and> sr_le R (fst p) (fst (last xs))) ys = []" using no by (auto simp: filter_empty_conv)
  ultimately show ?thesis by (simp add: between_def)
qed

definition bumped :: "(string \<times> int) list \<Rightarrow> (string \<times> int) list" where
  "bumped ps = map (\<lambda>p. (fst p, snd p + 1)) ps"

lemma bumped_ids [simp]: "map fst (bumped ps) = map fst ps" "fst ` set (bumped ps) = fst ` set ps" "length (bumped ps) = length ps" "bumped ps = [] \<longleftrightarrow> ps = []"
  by (simp_all add: bumped_def image_image comp_def)

lemma bumped_ends: "ps \<noteq> [] \<Longrightarrow> fst (hd (bumped ps)) = fst (hd ps)" "ps \<noteq> [] \<Longrightarrow> fst (last (bumped ps)) = fst (last ps)"
  by (simp_all add: bumped_def hd_map last_map)

lemma reclaim_result:
  assumes set: "inbox_setting I" and r: "shadows I sid r s"
  defines "st \<equiv> stream_at (ri_server I) (inbox_key sid) r"
  shows "\<exists>r'. redis_reclaim I sid r =
       (Inr (map (\<lambda>p. entry_of I (presented (claimed_message st p))) (take autoclaim_count (sm_pending st))), r') \<and>
     (length (sm_pending st) \<le> autoclaim_count \<longrightarrow> shadows I sid r' (s\<lparr>ib_messages := map (\<lambda>p. presented (claimed_message st p)) (sm_pending st) @ map fresh_message (unread st)\<rparr>)) \<and>
     sm_entries (stream_at (ri_server I) (inbox_key sid) r') = sm_entries st"
proof -
  let ?R = "ri_server I" and ?k = "inbox_key sid"
  have laws: "stream_laws ?R" and prs: "parses (ri_dec I) (ri_prs I)" using set by (simp_all add: inbox_setting_def)
  from group_shadows [OF set r] obtain r1 where r1: "ensure_group I sid r = (Inr (), r1)" "shadows I sid r1 s"
    "stream_at ?R ?k r1 = st\<lparr>sm_group := True\<rparr>" unfolding st_def .
  obtain st1 where st1: "stream_at ?R ?k r1 = st1" by blast
  have fields1: "sm_entries st1 = sm_entries st" "sm_pending st1 = sm_pending st" "sm_read st1 = sm_read st" "sm_group st1" using r1(3) st1 by auto
  have ok: "stream_ok ?R st1" and ms: "ib_messages s = messages_of st1" using r1(2) st1 by (simp_all add: shadows_def Let_def)
  define held where "held = take autoclaim_count (sm_pending st1)"
  define late where "late = drop autoclaim_count (sm_pending st1)"
  have pend: "sm_pending st1 = held @ late" by (simp add: held_def late_def)
  let ?f = "\<lambda>s. s\<lparr>sm_pending := bumped held @ drop autoclaim_count (sm_pending s)\<rparr>"
  let ?claimed = "map (\<lambda>p. (fst p, the (map_of (sm_entries st1) (fst p)))) held"
  obtain r2 where x: "sr_xautoclaim ?R ?k r1 = (?claimed, r2)" and v: "sr_view ?R r2 = view_stream (sr_view ?R r1) ?k ?f"
    using autoclaim_facts [OF laws, of ?k r1] fields1(4) st1
    by (cases "sr_xautoclaim ?R ?k r1") (auto simp: held_def bumped_def)
  have st2: "stream_at ?R ?k r2 = st1\<lparr>sm_pending := bumped held @ late\<rparr>" using stream_at_updated [OF v] st1 by (simp add: late_def)
  have sorted: "sorted_wrt (id_before ?R) (map fst (bumped held @ late))" using ok unfolding stream_ok_def pend by simp
  have data: "the (map_of (sm_entries st1) (fst p)) = [(''data'', payload_of st1 (fst p))]" if "p \<in> set held" for p
  proof -
    have "fst p \<in> fst ` set (take (sm_read st1) (sm_entries st1))" using ok that unfolding stream_ok_def pend by auto
    then obtain q where "q \<in> set (sm_entries st1)" "fst q = fst p" by (auto dest: in_set_takeD)
    with stream_entry [OF laws ok this(1)] show ?thesis by simp
  qed
  have entries: "redis_to_entries I (map (\<lambda>(i, fs). (i, fs, case map_of ps i of None \<Rightarrow> 1 | Some n \<Rightarrow> n)) ?claimed) =
      Inr (map (\<lambda>p. entry_of I (presented (claimed_message st1 p))) held)"
    if "ps = bumped held" for ps
    unfolding map_map comp_def
  proof (rule redis_to_entries_map [OF prs])
    fix p
    assume p: "p \<in> set held"
    have "distinct (map fst (bumped held))" using sorted_ids_distinct [OF laws sorted] by simp
    moreover have "(fst p, snd p + 1) \<in> set (bumped held)" using p by (auto simp: bumped_def)
    ultimately have "map_of ps (fst p) = Some (snd p + 1)" unfolding that by (rule map_of_is_SomeI)
    with data [OF p] show "redis_to_entry I (fst (case (fst p, the (map_of (sm_entries st1) (fst p))) of (i, fs) \<Rightarrow> (i, fs, case map_of ps i of None \<Rightarrow> 1 | Some n \<Rightarrow> n)))
        (fst (snd (case (fst p, the (map_of (sm_entries st1) (fst p))) of (i, fs) \<Rightarrow> (i, fs, case map_of ps i of None \<Rightarrow> 1 | Some n \<Rightarrow> n))))
        (snd (snd (case (fst p, the (map_of (sm_entries st1) (fst p))) of (i, fs) \<Rightarrow> (i, fs, case map_of ps i of None \<Rightarrow> 1 | Some n \<Rightarrow> n)))) =
        to_entry (ri_dec I) (ri_prs I) (presented (claimed_message st1 p))"
      by (simp add: redis_to_entry_same [where c = True] presented_def claimed_message_def)
  qed
  have res: "redis_reclaim I sid r = (Inr (map (\<lambda>p. entry_of I (presented (claimed_message st1 p))) held), r2)"
  proof (cases "held = []")
    case True
    then show ?thesis by (simp add: redis_reclaim_def bindE_def r1(1) x)
  next
    case False
    have "sr_xpending ?R ?k (fst (hd ?claimed)) (fst (last ?claimed)) (length ?claimed) r2 = bumped held"
      using range_facts(1) [OF laws, of ?k r2 "fst (hd held)" "fst (last held)" "length held"] st2 fields1(4)
        between_prefix [OF laws sorted] False by (simp add: bumped_ends hd_map last_map)
    with False entries [OF refl] show ?thesis by (simp add: redis_reclaim_def bindE_def r1(1) x Let_def)
  qed
  have same: "claimed_message st1 = claimed_message st" using fields1(1) by (rule claimed_cong)
  have shadow: "shadows I sid r2 (s\<lparr>ib_messages := map (\<lambda>p. presented (claimed_message st p)) (sm_pending st) @ map fresh_message (unread st)\<rparr>)"
    if "length (sm_pending st) \<le> autoclaim_count"
  proof -
    have all: "held = sm_pending st" "late = []" using that fields1(2) by (simp_all add: held_def late_def)
    have p2: "sm_pending (?f st1) = bumped (sm_pending st)" using all by (simp add: late_def)
    have shown: "claimed_message st (fst p, snd p + 1) = presented (claimed_message st p)" for p
      by (simp add: claimed_message_def presented_def)
    have msgs: "messages_of (?f st1) = map (\<lambda>p. presented (claimed_message st p)) (sm_pending st) @ map fresh_message (unread st)"
    proof -
      have c2: "claimed_message (?f st1) = claimed_message st" by (rule claimed_cong) (simp add: fields1(1))
      have "unread (?f st1) = unread st" using fields1(1,3) by (simp add: unread_def)
      then show ?thesis unfolding messages_of_def c2 p2 using shown by (simp add: bumped_def)
    qed
    have "stream_ok ?R (?f st1)" using ok fields1 unfolding stream_ok_def p2 by simp
    moreover have "length (messages_of (?f st1)) = length (ib_messages s)" unfolding msgs unfolding ms messages_of_def using fields1 by (simp add: unread_def)
    ultimately have "shadows I sid r2 (s\<lparr>ib_messages := messages_of (?f st1)\<rparr>)" using shadows_stream(1) [OF r1(2) v] unfolding st1 by simp
    then show ?thesis unfolding msgs .
  qed
  have "sm_entries (stream_at ?R ?k r2) = sm_entries st" using st2 fields1(1) by simp
  with res shadow show ?thesis unfolding held_def fields1(2) same by blast
qed


lemma reclaim_shadows:
  assumes set: "inbox_setting I" and r: "shadows I sid r s"
    and few: "length (sm_pending (stream_at (ri_server I) (inbox_key sid) r)) \<le> autoclaim_count"
  shows "\<exists>res r'. redis_reclaim I sid r = (res, r') \<and> fst (inbox_reclaim (ri_dec I) (ri_prs I) s) = res \<and>
     shadows I sid r' (snd (inbox_reclaim (ri_dec I) (ri_prs I) s)) \<and>
     sm_entries (stream_at (ri_server I) (inbox_key sid) r') = sm_entries (stream_at (ri_server I) (inbox_key sid) r)"
proof -
  let ?st = "stream_at (ri_server I) (inbox_key sid) r"
  have prs: "parses (ri_dec I) (ri_prs I)" using set by (simp add: inbox_setting_def)
  have ms: "ib_messages s = map (claimed_message ?st) (sm_pending ?st) @ map fresh_message (unread ?st)"
    using r by (simp add: shadows_def Let_def messages_of_def)
  have "inbox_reclaim (ri_dec I) (ri_prs I) s =
      (Inr (map (\<lambda>p. entry_of I (presented (claimed_message ?st p))) (sm_pending ?st)),
       s\<lparr>ib_messages := map (\<lambda>p. presented (claimed_message ?st p)) (sm_pending ?st) @ map fresh_message (unread ?st)\<rparr>)"
    unfolding inbox_reclaim_def ms reclaim_loop_all [OF prs messages_split] by (simp add: comp_def)
  with reclaim_result [OF set r] few show ?thesis by auto
qed

text \<open>Disposal.\<close>

lemma epoch_shadows:
  assumes laws: "stream_laws (ri_server I)" and r: "shadows I sid r s" and e: "\<not> e < ib_max_epoch s"
  defines "r1 \<equiv> (if ib_max_epoch s < e then sr_set (ri_server I) (inbox_epoch_key sid) (show_int e) r else r)"
  shows "shadows I sid r1 (s\<lparr>ib_max_epoch := e\<rparr>)" and "stream_at (ri_server I) (inbox_key sid) r1 = stream_at (ri_server I) (inbox_key sid) r"
proof -
  have v: "sr_view (ri_server I) (sr_set (ri_server I) (inbox_epoch_key sid) (show_int e) r) =
      (sr_view (ri_server I) r)\<lparr>vw_text := (vw_text (sr_view (ri_server I) r))(inbox_epoch_key sid \<mapsto> show_int e)\<rparr>"
    by (rule text_facts(2) [OF laws]) simp
  show st: "stream_at (ri_server I) (inbox_key sid) r1 = stream_at (ri_server I) (inbox_key sid) r"
    by (simp add: r1_def stream_at_def v)
  show "shadows I sid r1 (s\<lparr>ib_max_epoch := e\<rparr>)"
  proof (cases "ib_max_epoch s < e")
    case True
    with r show ?thesis by (simp add: r1_def shadows_def Let_def stream_at_def v)
  next
    case False
    with e have "ib_max_epoch s = e" by simp
    with r show ?thesis by (simp add: r1_def shadows_def Let_def)
  qed
qed

definition without :: "string \<Rightarrow> stream \<Rightarrow> stream" where
  "without i st = st\<lparr>sm_pending := filter (\<lambda>p. fst p \<noteq> i) (sm_pending st)\<rparr>"

lemma without_ok: "stream_ok R st \<Longrightarrow> stream_ok R (without i st)"
  unfolding stream_ok_def without_def by (auto simp: sorted_wrt_map sorted_wrt_filter)

lemma take_pending:
  assumes laws: "stream_laws R" and ok: "stream_ok R st"
  shows "i \<notin> fst ` set (sm_pending st) \<Longrightarrow> take_claimed i (messages_of st) = (None, messages_of st) \<and> without i st = st"
    and "i \<in> fst ` set (sm_pending st) \<Longrightarrow> \<exists>n. filter (\<lambda>p. fst p = i) (sm_pending st) = [(i, n)] \<and>
      take_claimed i (messages_of st) = (Some (claimed_message st (i, n)), messages_of (without i st)) \<and>
      length (messages_of st) = length (messages_of (without i st)) + 1"
proof -
  let ?at = "\<lambda>m. ms_id m = i \<and> ms_claimed m"
  have at: "filter ?at (messages_of st) = map (claimed_message st) (filter (\<lambda>p. fst p = i) (sm_pending st))"
    by (simp add: messages_of_def filter_map comp_def claimed_message_def fresh_message_def)
  note take = take_claimed_filter [OF stream_ids(4) [OF laws ok], of i]
  {
    assume no: "i \<notin> fst ` set (sm_pending st)"
    then have "filter (\<lambda>p. fst p = i) (sm_pending st) = []" and "filter (\<lambda>p. fst p \<noteq> i) (sm_pending st) = sm_pending st"
      by (auto simp: filter_empty_conv filter_id_conv)
    then show "take_claimed i (messages_of st) = (None, messages_of st) \<and> without i st = st" using take at by (simp add: without_def)
  }
  assume "i \<in> fst ` set (sm_pending st)"
  then obtain n where n: "(i, n) \<in> set (sm_pending st)" by force
  have d: "distinct (map fst (sm_pending st))" by (rule stream_ids(2) [OF laws ok])
  have one: "filter (\<lambda>p. fst p = i) (sm_pending st) = [(i, n)]"
    using d n
  proof (induction "sm_pending st" arbitrary: st rule: list.induct)
    case (Cons p ps)
    then show ?case
    proof (cases "fst p = i")
      case True
      with Cons(2,3,4) have "p = (i, n)" and "\<forall>q \<in> set ps. fst q \<noteq> i" by (auto simp: image_iff Cons(2) [symmetric])
      with True show ?thesis by (simp add: Cons(2) [symmetric] filter_empty_conv)
    next
      case False
      with Cons(1) [of "st\<lparr>sm_pending := ps\<rparr>"] Cons(2,3,4) show ?thesis by (auto simp: Cons(2) [symmetric])
    qed
  qed simp
  have unread: "\<forall>q \<in> set (unread st). fst q \<noteq> i" using stream_ids(3) [OF laws ok n] by (auto simp: id_before_def)
  have c: "claimed_message (without i st) = claimed_message st" by (rule claimed_cong) (simp add: without_def)
  have u: "unread (without i st) = unread st" by (simp add: unread_def without_def)
  have rest: "filter (\<lambda>m. ms_id m \<noteq> i) (messages_of st) = messages_of (without i st)"
    unfolding messages_of_def c u using unread
    by (simp add: without_def filter_map comp_def claimed_message_def fresh_message_def filter_id_conv)
  have "length (filter (\<lambda>p. fst p = i) (sm_pending st)) + length (filter (\<lambda>p. fst p \<noteq> i) (sm_pending st)) = length (sm_pending st)"
    by (rule sum_length_filter_compl)
  then have "length (messages_of st) = length (messages_of (without i st)) + 1"
    unfolding messages_of_def c u by (simp add: one without_def)
  with one take at rest show "\<exists>n. filter (\<lambda>p. fst p = i) (sm_pending st) = [(i, n)] \<and>
      take_claimed i (messages_of st) = (Some (claimed_message st (i, n)), messages_of (without i st)) \<and>
      length (messages_of st) = length (messages_of (without i st)) + 1" by simp
qed

text \<open>\<^verbatim>\<open>XACK\<close> and the count of it.\<close>

lemma xack_shadows:
  assumes laws: "stream_laws (ri_server I)" and r: "shadows I sid r s"
  defines "st \<equiv> stream_at (ri_server I) (inbox_key sid) r"
  shows "\<exists>n r1. sr_xack (ri_server I) (inbox_key sid) i r = (n, r1) \<and>
     (i \<notin> fst ` set (sm_pending st) \<longrightarrow> n = 0 \<and> shadows I sid r1 s) \<and>
     (i \<in> fst ` set (sm_pending st) \<longrightarrow> n = 1 \<and> shadows I sid (sr_incr (ri_server I) (acked_key sid) r1) (s\<lparr>ib_messages := messages_of (without i st)\<rparr>)) \<and>
     sm_entries (stream_at (ri_server I) (inbox_key sid) r1) = sm_entries st \<and>
     sm_entries (stream_at (ri_server I) (inbox_key sid) (sr_incr (ri_server I) (acked_key sid) r1)) = sm_entries st"
proof -
  let ?R = "ri_server I" and ?k = "inbox_key sid"
  have ok: "stream_ok ?R st" and ms: "ib_messages s = messages_of st" using r by (simp_all add: shadows_def Let_def st_def)
  obtain n r1 where x: "sr_xack ?R ?k i r = (n, r1)" by (cases "sr_xack ?R ?k i r")
  have n: "n = of_bool (i \<in> fst ` set (sm_pending st))"
    and v: "sr_view ?R r1 = view_stream (sr_view ?R r) ?k (without i)"
    using xack_facts [OF laws, of ?k i r] x by (simp_all add: st_def without_def [abs_def])
  have st1: "stream_at ?R ?k r1 = without i st" using stream_at_updated [OF v] by (simp add: st_def)
  obtain m where m: "vw_text (sr_view ?R r1) (acked_key sid) \<in> {None, Some (show_int m)}" using r v by (auto simp: shadows_def Let_def)
  have v2: "sr_view ?R (sr_incr ?R (acked_key sid) r1) =
      (sr_view ?R r1)\<lparr>vw_text := (vw_text (sr_view ?R r1))(acked_key sid \<mapsto> show_int (script_num (vw_text (sr_view ?R r1) (acked_key sid)) + 1))\<rparr>"
    by (rule incr_fact [OF laws _ m]) simp
  have st2: "stream_at ?R ?k (sr_incr ?R (acked_key sid) r1) = without i st" using v2 st1 by (simp add: stream_at_def)
  have e: "sm_entries (without i st) = sm_entries st" by (simp add: without_def)
  have "shadows I sid r1 s" if "i \<notin> fst ` set (sm_pending st)"
  proof -
    have "without i st = st" using take_pending(1) [OF laws ok that] by simp
    with r v st1 ms show ?thesis by (simp add: shadows_def Let_def st_def)
  qed
  moreover have "shadows I sid (sr_incr ?R (acked_key sid) r1) (s\<lparr>ib_messages := messages_of (without i st)\<rparr>)" if "i \<in> fst ` set (sm_pending st)"
    using r take_pending(2) [OF laws ok that] without_ok [OF ok, of i] ms e
    by (auto simp: shadows_def Let_def st2 v2 v st_def [symmetric])
  ultimately show ?thesis using x n st1 st2 e by auto
qed

lemma ack_shadows:
  assumes set: "inbox_setting I" and r: "shadows I sid r s"
  shows "\<exists>res r'. redis_ack I sid i e r = (res, r') \<and> fst (inbox_ack i e s) = res \<and> shadows I sid r' (snd (inbox_ack i e s)) \<and>
     sm_entries (stream_at (ri_server I) (inbox_key sid) r') = sm_entries (stream_at (ri_server I) (inbox_key sid) r)"
proof -
  let ?R = "ri_server I" and ?k = "inbox_key sid"
  let ?st = "stream_at ?R ?k r"
  have laws: "stream_laws ?R" and ttl: "0 < ri_state_ttl I" using set by (simp_all add: inbox_setting_def)
  have stored: "script_num (sr_get ?R (inbox_epoch_key sid) r) = ib_max_epoch s"
    using r by (simp add: text_facts(1) [OF laws] shadows_def Let_def)
  show ?thesis
  proof (cases "e < ib_max_epoch s")
    case True
    with r stored show ?thesis by (simp add: redis_ack_def ack_script_def inbox_ack_def inbox_guard_epoch_def bindE_def)
  next
    case False
    define r1 where "r1 = (if ib_max_epoch s < e then sr_set ?R (inbox_epoch_key sid) (show_int e) r else r)"
    let ?s = "s\<lparr>ib_max_epoch := e\<rparr>"
    have r1: "shadows I sid r1 ?s" "stream_at ?R ?k r1 = ?st" using epoch_shadows [OF laws r False] by (simp_all add: r1_def)
    have ok: "stream_ok ?R ?st" and ms: "ib_messages s = messages_of ?st" using r by (simp_all add: shadows_def Let_def)
    from xack_shadows [OF laws r1(1), of i] obtain n r2 where x: "sr_xack ?R ?k i r1 = (n, r2)"
      and no: "i \<notin> fst ` set (sm_pending ?st) \<Longrightarrow> n = 0 \<and> shadows I sid r2 ?s"
      and yes: "i \<in> fst ` set (sm_pending ?st) \<Longrightarrow> n = 1 \<and> shadows I sid (sr_incr ?R (acked_key sid) r2) (?s\<lparr>ib_messages := messages_of (without i ?st)\<rparr>)"
      and e: "sm_entries (stream_at ?R ?k r2) = sm_entries ?st" "sm_entries (stream_at ?R ?k (sr_incr ?R (acked_key sid) r2)) = sm_entries ?st"
      unfolding r1(2) by blast
    let ?ks = "[?k, acked_key sid, inbox_epoch_key sid]"
    let ?r3 = "if n = 1 then sr_incr ?R (acked_key sid) r2 else r2"
    have res: "redis_ack I sid i e r = (Inr (), slide_inbox I ?ks ?r3)"
      using False stored x no yes by (cases "i \<in> fst ` set (sm_pending ?st)") (auto simp: redis_ack_def ack_script_def Let_def r1_def [symmetric])
    have slid: "sr_view ?R (slide_inbox I ?ks ?r3) = sr_view ?R ?r3" by (rule view_slide [OF laws ttl])
    have same: "?s\<lparr>ib_messages := messages_of ?st\<rparr> = ?s" unfolding ms [symmetric] by (cases s) simp
    have mem: "snd (inbox_ack i e s) = ?s\<lparr>ib_messages := snd (take_claimed i (messages_of ?st))\<rparr>"
      using False by (simp add: inbox_ack_def inbox_guard_epoch_def bindE_def ms)
    have "shadows I sid ?r3 (snd (inbox_ack i e s))"
    proof (cases "i \<in> fst ` set (sm_pending ?st)")
      case True
      with yes take_pending(2) [OF laws ok True] show ?thesis unfolding mem by auto
    next
      case no': False
      have "snd (inbox_ack i e s) = ?s" unfolding mem using take_pending(1) [OF laws ok no'] same by simp
      with no [OF no'] show ?thesis by simp
    qed
    moreover have "fst (inbox_ack i e s) = Inr ()" using False by (simp add: inbox_ack_def inbox_guard_epoch_def bindE_def)
    moreover have "sm_entries (stream_at ?R ?k (slide_inbox I ?ks ?r3)) = sm_entries ?st" using e by (simp add: stream_at_def slid)
    ultimately show ?thesis using res shadows_view [OF slid] by simp
  qed
qed

lemma between_one:
  assumes "stream_laws R"
  shows "between R i i xs = filter (\<lambda>p. fst p = i) xs"
  unfolding between_def by (rule filter_cong) (use id_order [OF assms] in blast)+

lemma load_records_append:
  "load_records I xs = Inr qs \<Longrightarrow> load_records I (xs @ [x]) = (case ri_load_record I x of Inl err \<Rightarrow> Inl err | Inr q \<Rightarrow> Inr (qs @ [q]))"
  by (induction xs arbitrary: qs) (auto split: sum.splits)

lemma quarantine_shadows:
  assumes set: "inbox_setting I" and r: "shadows I sid r s"
  shows "\<exists>res r'. redis_quarantine I sid i reason e r = (res, r') \<and> fst (inbox_quarantine i reason e s) = res \<and>
     shadows I sid r' (snd (inbox_quarantine i reason e s)) \<and>
     sm_entries (stream_at (ri_server I) (inbox_key sid) r') = sm_entries (stream_at (ri_server I) (inbox_key sid) r)"
proof -
  let ?R = "ri_server I" and ?k = "inbox_key sid"
  have laws: "stream_laws ?R" and ttl: "0 < ri_state_ttl I" and codec: "\<And>q. ri_load_record I (ri_dump_record I q) = Inr q"
    using set by (simp_all add: inbox_setting_def)
  from group_shadows [OF set r] obtain r0 where r0: "ensure_group I sid r = (Inr (), r0)" "shadows I sid r0 s"
    "stream_at ?R ?k r0 = (stream_at ?R ?k r)\<lparr>sm_group := True\<rparr>" .
  obtain st where st: "stream_at ?R ?k r0 = st" by blast
  have e0: "sm_entries (stream_at ?R ?k r) = sm_entries st" and g: "sm_group (stream_at ?R ?k r0)" using r0(3) st by auto
  have ok: "stream_ok ?R st" and ms: "ib_messages s = messages_of st" using r0(2) st by (simp_all add: shadows_def Let_def)
  define n where "n = (case sr_xpending ?R ?k i i 1 r0 of [] \<Rightarrow> 0 | p # _ \<Rightarrow> snd p)"
  define payload where "payload = (case sr_xrange ?R ?k i i r0 of [] \<Rightarrow> None | p # _ \<Rightarrow> map_of (snd p) ''data'')"
  define row where "row = ri_dump_record I \<lparr>qe_id = i, qe_reason = reason, qe_count = n, qe_payload = payload\<rparr>"
  have stored: "script_num (sr_get ?R (inbox_epoch_key sid) r0) = ib_max_epoch s"
    using r0(2) by (simp add: text_facts(1) [OF laws] shadows_def Let_def)
  show ?thesis
  proof (cases "e < ib_max_epoch s")
    case True
    with r0 stored e0 st show ?thesis
      by (simp add: redis_quarantine_def quarantine_script_def inbox_quarantine_def inbox_guard_epoch_def bindE_def Let_def)
  next
    case False
    define r1 where "r1 = (if ib_max_epoch s < e then sr_set ?R (inbox_epoch_key sid) (show_int e) r0 else r0)"
    let ?s = "s\<lparr>ib_max_epoch := e\<rparr>"
    have r1: "shadows I sid r1 ?s" "stream_at ?R ?k r1 = st" using epoch_shadows [OF laws r0(2) False] st by (simp_all add: r1_def)
    from xack_shadows [OF laws r1(1), of i] obtain a r2 where x: "sr_xack ?R ?k i r1 = (a, r2)"
      and no: "i \<notin> fst ` set (sm_pending st) \<Longrightarrow> a = 0 \<and> shadows I sid r2 ?s"
      and yes: "i \<in> fst ` set (sm_pending st) \<Longrightarrow> a = 1 \<and> shadows I sid (sr_incr ?R (acked_key sid) r2) (?s\<lparr>ib_messages := messages_of (without i st)\<rparr>)"
      and e: "sm_entries (stream_at ?R ?k r2) = sm_entries st" "sm_entries (stream_at ?R ?k (sr_incr ?R (acked_key sid) r2)) = sm_entries st"
      unfolding r1(2) by blast
    let ?ks = "[?k, acked_key sid, inbox_epoch_key sid, quarantine_key sid]"
    let ?r3 = "if a = 1 then sr_rpush ?R (quarantine_key sid) row (sr_incr ?R (acked_key sid) r2) else r2"
    have res: "redis_quarantine I sid i reason e r = (Inr (), slide_inbox I ?ks ?r3)"
      using False stored x no yes
      by (cases "i \<in> fst ` set (sm_pending st)")
        (auto simp: redis_quarantine_def bindE_def r0(1) quarantine_script_def Let_def r1_def [symmetric] n_def [symmetric] payload_def [symmetric] row_def [symmetric] simp del: One_nat_def)
    have slid: "sr_view ?R (slide_inbox I ?ks ?r3) = sr_view ?R ?r3" by (rule view_slide [OF laws ttl])
    have same: "?s\<lparr>ib_messages := messages_of st\<rparr> = ?s" unfolding ms [symmetric] by (cases s) simp
    have mem: "fst (inbox_quarantine i reason e s) = Inr ()"
      using False by (simp add: inbox_quarantine_def inbox_guard_epoch_def bindE_def split: prod.split option.split)
    have "shadows I sid ?r3 (snd (inbox_quarantine i reason e s)) \<and> sm_entries (stream_at ?R ?k ?r3) = sm_entries st"
    proof (cases "i \<in> fst ` set (sm_pending st)")
      case True
      from take_pending(2) [OF laws ok True] obtain c where c: "filter (\<lambda>p. fst p = i) (sm_pending st) = [(i, c)]"
        "take_claimed i (messages_of st) = (Some (claimed_message st (i, c)), messages_of (without i st))" by blast
      have "i \<in> fst ` set (take (sm_read st) (sm_entries st))" using ok True unfolding stream_ok_def by blast
      then obtain q where q: "q \<in> set (sm_entries st)" "fst q = i" by (auto dest: in_set_takeD)
      have "sr_xpending ?R ?k i i 1 r0 = [(i, c)]" using range_facts(1) [OF laws _ g] c(1) by (simp add: st between_one [OF laws])
      then have n: "n = c" by (simp add: n_def)
      have "map_of (sm_entries st) i = Some (snd q)" using stream_entry(1) [OF laws ok q(1)] q(2) by simp
      have "q \<in> set (filter (\<lambda>p. fst p = i) (sm_entries st))" using q by simp
      moreover have "snd p = snd q" if "p \<in> set (filter (\<lambda>p. fst p = i) (sm_entries st))" for p
        using stream_entry(1) [OF laws ok, of p] stream_entry(1) [OF laws ok q(1)] that q(2) by auto
      ultimately have p: "payload = Some (payload_of st i)"
        using stream_entry(2) [OF laws ok q(1)] q(2)
        by (cases "filter (\<lambda>p. fst p = i) (sm_entries st)") (auto simp: payload_def range_facts(2) [OF laws] st between_one [OF laws])
      let ?r4 = "sr_incr ?R (acked_key sid) r2"
      have v: "sr_view ?R (sr_rpush ?R (quarantine_key sid) row ?r4) =
          (sr_view ?R ?r4)\<lparr>vw_list := (vw_list (sr_view ?R ?r4))(quarantine_key sid := vw_list (sr_view ?R ?r4) (quarantine_key sid) @ [row])\<rparr>"
        by (rule list_facts(1) [OF laws]) simp
      have st4: "stream_at ?R ?k (sr_rpush ?R (quarantine_key sid) row ?r4) = stream_at ?R ?k ?r4" by (simp add: stream_at_def v)
      have a: "a = 1" and r4: "shadows I sid ?r4 (?s\<lparr>ib_messages := messages_of (without i st)\<rparr>)" using yes [OF True] by simp_all
      have "load_records I (vw_list (sr_view ?R ?r4) (quarantine_key sid)) = Inr (ib_quarantined s)" using r4 by (simp add: shadows_def Let_def)
      from load_records_append [OF this, of row]
      have "load_records I (vw_list (sr_view ?R ?r4) (quarantine_key sid) @ [row]) =
          Inr (ib_quarantined s @ [\<lparr>qe_id = i, qe_reason = reason, qe_count = c, qe_payload = Some (payload_of st i)\<rparr>])"
        by (simp add: row_def codec n p)
      with r4 have "shadows I sid (sr_rpush ?R (quarantine_key sid) row ?r4) (?s\<lparr>ib_messages := messages_of (without i st),
          ib_quarantined := ib_quarantined s @ [\<lparr>qe_id = i, qe_reason = reason, qe_count = c, qe_payload = Some (payload_of st i)\<rparr>]\<rparr>)"
        by (simp add: shadows_def Let_def st4 v)
      with a False c(2) e st4 ms show ?thesis
        by (simp add: inbox_quarantine_def inbox_guard_epoch_def bindE_def claimed_message_def)
    next
      case no': False
      with no [OF no'] take_pending(1) [OF laws ok no'] False ms e show ?thesis
        by (simp add: inbox_quarantine_def inbox_guard_epoch_def bindE_def)
    qed
    moreover have "stream_at ?R ?k (slide_inbox I ?ks ?r3) = stream_at ?R ?k ?r3" by (simp add: stream_at_def slid)
    ultimately show ?thesis using res mem e0 shadows_view [OF slid] by simp
  qed
qed


section \<open>The adapter against the in-memory one\<close>

datatype inbox_call = QAppend data_point | QConsume "int option" | QReclaim | QAck string epoch | QQuarantine string string epoch | QCount | QList

datatype inbox_reply = Named string | Delivered "delivered list" | Disposed | Counted int | Listed "quarantined_entry list"

definition saying :: "('a \<Rightarrow> inbox_reply) \<Rightarrow> (orca_error + 'a) \<times> 's \<Rightarrow> (orca_error + inbox_reply) \<times> 's" where
  "saying f res = (case fst res of Inl err \<Rightarrow> Inl err | Inr x \<Rightarrow> Inr (f x), snd res)"

fun redis_inbox_does :: "'r redis_inbox \<Rightarrow> session_id \<Rightarrow> inbox_call \<Rightarrow> ('r, inbox_reply) op" where
  "redis_inbox_does I sid (QAppend d) r = saying Named (redis_append I sid d r)"
| "redis_inbox_does I sid (QConsume cap) r = saying Delivered (redis_consume I sid cap r)"
| "redis_inbox_does I sid QReclaim r = saying Delivered (redis_reclaim I sid r)"
| "redis_inbox_does I sid (QAck i e) r = saying (\<lambda>_. Disposed) (redis_ack I sid i e r)"
| "redis_inbox_does I sid (QQuarantine i reason e) r = saying (\<lambda>_. Disposed) (redis_quarantine I sid i reason e r)"
| "redis_inbox_does I sid QCount r = (Inr (Counted (redis_pending_count I sid r)), r)"
| "redis_inbox_does I sid QList r = saying Listed (redis_quarantined I sid r, r)"

text \<open>The in-memory adapter with the identifiers it is going to draw.\<close>

fun memory_inbox_does :: "'r redis_inbox \<Rightarrow> inbox_call \<Rightarrow> (string list \<times> inbox_state, inbox_reply) op" where
  "memory_inbox_does I (QAppend d) (ids, s) =
     (case saying Named (inbox_append (ri_dumps I) (hd ids) d s) of (res, s') \<Rightarrow> (res, (tl ids, s')))"
| "memory_inbox_does I (QConsume cap) (ids, s) =
     (case saying Delivered (inbox_consume (ri_dec I) (ri_prs I) cap s) of (res, s') \<Rightarrow> (res, (ids, s')))"
| "memory_inbox_does I QReclaim (ids, s) =
     (case saying Delivered (inbox_reclaim (ri_dec I) (ri_prs I) s) of (res, s') \<Rightarrow> (res, (ids, s')))"
| "memory_inbox_does I (QAck i e) (ids, s) = (case saying (\<lambda>_. Disposed) (inbox_ack i e s) of (res, s') \<Rightarrow> (res, (ids, s')))"
| "memory_inbox_does I (QQuarantine i reason e) (ids, s) =
     (case saying (\<lambda>_. Disposed) (inbox_quarantine i reason e s) of (res, s') \<Rightarrow> (res, (ids, s')))"
| "memory_inbox_does I QCount (ids, s) = (Inr (Counted (int (pending_count s))), (ids, s))"
| "memory_inbox_does I QList (ids, s) = (Inr (Listed (ib_quarantined s)), (ids, s))"

fun run_inbox :: "(inbox_call \<Rightarrow> ('s, inbox_reply) op) \<Rightarrow> inbox_call list \<Rightarrow> 's \<Rightarrow> (orca_error + inbox_reply) list" where
  "run_inbox does [] s = []"
| "run_inbox does (x # xs) s = fst (does x s) # run_inbox does xs (snd (does x s))"

fun whole_reclaims :: "'r redis_inbox \<Rightarrow> session_id \<Rightarrow> inbox_call list \<Rightarrow> 'r \<Rightarrow> bool" where
  "whole_reclaims I sid [] r = True"
| "whole_reclaims I sid (x # xs) r =
     ((x = QReclaim \<longrightarrow> length (sm_pending (stream_at (ri_server I) (inbox_key sid) r)) \<le> autoclaim_count) \<and>
      whole_reclaims I sid xs (snd (redis_inbox_does I sid x r)))"

definition blank_inbox :: "'r redis_inbox \<Rightarrow> session_id \<Rightarrow> 'r \<Rightarrow> bool" where
  "blank_inbox I sid r \<longleftrightarrow> stream_at (ri_server I) (inbox_key sid) r = \<lparr>sm_entries = [], sm_group = False, sm_read = 0, sm_pending = []\<rparr> \<and>
     vw_text (sr_view (ri_server I) r) (inbox_epoch_key sid) = None \<and> vw_text (sr_view (ri_server I) r) (acked_key sid) = None \<and>
     vw_list (sr_view (ri_server I) r) (quarantine_key sid) = []"

lemma blank_shadows: "blank_inbox I sid r \<Longrightarrow> shadows I sid r new_inbox"
  by (simp add: blank_inbox_def shadows_def Let_def stream_ok_def messages_of_def unread_def new_inbox_def)

abbreviation entry_ids :: "'r redis_inbox \<Rightarrow> session_id \<Rightarrow> 'r \<Rightarrow> string set" where
  "entry_ids I sid r \<equiv> fst ` set (sm_entries (stream_at (ri_server I) (inbox_key sid) r))"

lemma call_shadows:
  assumes set: "inbox_setting I" and r: "shadows I sid r s" and x: "\<forall>d. x \<noteq> QAppend d"
    and few: "x = QReclaim \<Longrightarrow> length (sm_pending (stream_at (ri_server I) (inbox_key sid) r)) \<le> autoclaim_count"
  shows "\<exists>s'. memory_inbox_does I x (ids, s) = (fst (redis_inbox_does I sid x r), (ids, s')) \<and>
     shadows I sid (snd (redis_inbox_does I sid x r)) s' \<and> entry_ids I sid (snd (redis_inbox_does I sid x r)) = entry_ids I sid r"
proof (cases x)
  case (QConsume cap)
  with consume_shadows [OF set r, of cap] show ?thesis
    by (cases "inbox_consume (ri_dec I) (ri_prs I) cap s") (auto simp: saying_def split: sum.splits)
next
  case QReclaim
  with reclaim_shadows [OF set r few] show ?thesis
    by (cases "inbox_reclaim (ri_dec I) (ri_prs I) s") (auto simp: saying_def split: sum.splits)
next
  case (QAck i e)
  with ack_shadows [OF set r, of i e] show ?thesis by (cases "inbox_ack i e s") (auto simp: saying_def split: sum.splits)
next
  case (QQuarantine i reason e)
  with quarantine_shadows [OF set r, of i reason e] show ?thesis by (cases "inbox_quarantine i reason e s") (auto simp: saying_def split: sum.splits)
next
  case QCount
  have laws: "stream_laws (ri_server I)" using set by (simp add: inbox_setting_def)
  have "redis_pending_count I sid r = int (pending_count s)"
    using r by (simp add: redis_pending_count_def range_facts(3) [OF laws] text_facts(1) [OF laws] shadows_def Let_def pending_count_def)
  with QCount r show ?thesis by simp
next
  case QList
  have laws: "stream_laws (ri_server I)" using set by (simp add: inbox_setting_def)
  have "redis_quarantined I sid r = Inr (ib_quarantined s)"
    using r by (simp add: redis_quarantined_def list_facts(2) [OF laws] shadows_def Let_def)
  with QList r show ?thesis by (simp add: saying_def)
qed (use x in simp)

lemma run_shadows:
  assumes set: "inbox_setting I"
  shows "shadows I sid r s \<Longrightarrow> whole_reclaims I sid xs r \<Longrightarrow>
    \<exists>ids. distinct ids \<and> set ids \<inter> entry_ids I sid r = {} \<and>
      run_inbox (redis_inbox_does I sid) xs r = run_inbox (memory_inbox_does I) xs (ids, s)"
proof (induction xs arbitrary: r s)
  case Nil
  show ?case by (intro exI [of _ "[]"]) simp
next
  case (Cons x xs)
  show ?case
  proof (cases "\<exists>d. x = QAppend d")
    case True
    then obtain d where x: "x = QAppend d" by blast
    from append_shadows [OF set Cons.prems(1), of d] obtain i r' where i: "redis_append I sid d r = (Inr i, r')"
      "shadows I sid r' (snd (inbox_append (ri_dumps I) i d s))" "i \<notin> entry_ids I sid r" "entry_ids I sid r' = insert i (entry_ids I sid r)" by blast
    have "whole_reclaims I sid xs r'" using Cons.prems(2) x i(1) by (simp add: saying_def)
    from Cons.IH [OF i(2) this] obtain ids where ids: "distinct ids" "set ids \<inter> entry_ids I sid r' = {}"
      "run_inbox (redis_inbox_does I sid) xs r' = run_inbox (memory_inbox_does I) xs (ids, snd (inbox_append (ri_dumps I) i d s))" by blast
    have "fst (inbox_append (ri_dumps I) i d s) = Inr i" by (simp add: inbox_append_def append_serialized_def)
    then have "run_inbox (redis_inbox_does I sid) (x # xs) r = run_inbox (memory_inbox_does I) (x # xs) (i # ids, s)"
      using ids(3) x i(1) by (simp add: saying_def)
    moreover have "distinct (i # ids)" and "set (i # ids) \<inter> entry_ids I sid r = {}" using ids(1,2) i(3,4) by auto
    ultimately show ?thesis by blast
  next
    case False
    then have x: "\<forall>d. x \<noteq> QAppend d" by blast
    have few: "x = QReclaim \<Longrightarrow> length (sm_pending (stream_at (ri_server I) (inbox_key sid) r)) \<le> autoclaim_count" using Cons.prems(2) by simp
    let ?r' = "snd (redis_inbox_does I sid x r)"
    from call_shadows [OF set Cons.prems(1) x few] obtain s' where s': "shadows I sid ?r' s'" "entry_ids I sid ?r' = entry_ids I sid r"
      and mem: "memory_inbox_does I x (ids, s) = (fst (redis_inbox_does I sid x r), (ids, s'))" for ids
    proof -
      assume *: "\<And>s'. shadows I sid ?r' s' \<Longrightarrow> entry_ids I sid ?r' = entry_ids I sid r \<Longrightarrow>
        (\<And>ids. memory_inbox_does I x (ids, s) = (fst (redis_inbox_does I sid x r), (ids, s'))) \<Longrightarrow> thesis"
      from call_shadows [OF set Cons.prems(1) x few, of "[]"] obtain s' where
        a: "memory_inbox_does I x ([], s) = (fst (redis_inbox_does I sid x r), ([], s'))" "shadows I sid ?r' s'" "entry_ids I sid ?r' = entry_ids I sid r" by blast
      have "memory_inbox_does I x (ids, s) = (fst (redis_inbox_does I sid x r), (ids, s'))" for ids
        using a(1) x by (cases x) (auto split: prod.splits)
      with a show thesis by (intro *)
    qed
    from Cons.IH [OF s'(1)] Cons.prems(2) obtain ids where "distinct ids" "set ids \<inter> entry_ids I sid ?r' = {}"
      "run_inbox (redis_inbox_does I sid) xs ?r' = run_inbox (memory_inbox_does I) xs (ids, s')" by auto
    with s'(2) mem [of ids] show ?thesis by auto
  qed
qed


text \<open>
  Also: A reclaim re-presents the first 100 pending entries only, where the in-memory inbox re-presents
  all of them: the cursor that \<^verbatim>\<open>XAUTOCLAIM\<close> returns is dropped.
\<close>

theorem redis_reclaim_stops_at_100:
  assumes "inbox_setting I" and "shadows I sid r s"
  shows "\<exists>ds. fst (inbox_reclaim (ri_dec I) (ri_prs I) s) = Inr ds \<and> length ds = length (claimed_ids (ib_messages s)) \<and>
     fst (redis_reclaim I sid r) = Inr (take 100 ds)"
proof -
  let ?st = "stream_at (ri_server I) (inbox_key sid) r"
  have prs: "parses (ri_dec I) (ri_prs I)" using assms(1) by (simp add: inbox_setting_def)
  have ms: "ib_messages s = map (claimed_message ?st) (sm_pending ?st) @ map fresh_message (unread ?st)"
    using assms(2) by (simp add: shadows_def Let_def messages_of_def)
  have "fst (inbox_reclaim (ri_dec I) (ri_prs I) s) = Inr (map (\<lambda>p. entry_of I (presented (claimed_message ?st p))) (sm_pending ?st))"
    unfolding inbox_reclaim_def ms reclaim_loop_all [OF prs messages_split] by (simp add: comp_def)
  moreover have "length (claimed_ids (ib_messages s)) = length (sm_pending ?st)"
    by (simp add: claimed_ids_def ms filter_map comp_def claimed_message_def fresh_message_def)
  ultimately show ?thesis using reclaim_result [OF assms] by (auto simp: autoclaim_count_def take_map)
qed

text \<open>The wait ends with the first message on the channel and with nothing else.\<close>

lemma polls_until_first: "polls_until ps = Some n \<longleftrightarrow> 0 < n \<and> n \<le> length ps \<and> ps ! (n - 1) = PKind ''message'' \<and> PKind ''message'' \<notin> set (take (n - 1) ps)"
proof (induction ps arbitrary: n)
  case (Cons p ps)
  show ?case
  proof (cases n)
    case (Suc k)
    show ?thesis
    proof (cases "p = PKind ''message''")
      case True
      with Suc show ?thesis by (cases k) auto
    next
      case False
      with Suc Cons.IH [of k] show ?thesis by (cases k) auto
    qed
  qed (auto split: if_splits)
qed auto

section \<open>Examples\<close>

text \<open>A server that is its view; identifiers are ordered by length.\<close>

definition view_server :: "server_view stream_redis" where
  "view_server = \<lparr>
     sr_view = (\<lambda>v. v),
     sr_le = (\<lambda>a b. a = b \<or> length a < length b),
     sr_get = (\<lambda>k v. vw_text v k),
     sr_set = (\<lambda>k x v. v\<lparr>vw_text := (vw_text v)(k \<mapsto> x)\<rparr>),
     sr_incr = (\<lambda>k v. v\<lparr>vw_text := (vw_text v)(k \<mapsto> show_int (script_num (vw_text v k) + 1))\<rparr>),
     sr_rpush = (\<lambda>k x v. v\<lparr>vw_list := (vw_list v)(k := vw_list v k @ [x])\<rparr>),
     sr_lrange = (\<lambda>k v. vw_list v k),
     sr_xadd = (\<lambda>k f v. let i = replicate (Suc (sum_list (map (\<lambda>e. length (fst e)) (sm_entries (vw_stream v k))))) CHR ''1''
        in (i, view_stream v k (\<lambda>st. st\<lparr>sm_entries := sm_entries st @ [(i, f)]\<rparr>))),
     sr_xgroup_create = (\<lambda>k v. (if sm_group (vw_stream v k) then Inl ''BUSYGROUP Consumer Group name already exists'' else Inr (),
        view_stream v k (\<lambda>st. st\<lparr>sm_group := True\<rparr>))),
     sr_xreadgroup = (\<lambda>k cap v. let st = vw_stream v k; new = drop (sm_read st) (sm_entries st);
          out = (case cap of None \<Rightarrow> new | Some c \<Rightarrow> take (nat c) new)
        in (out, view_stream v k (\<lambda>st. st\<lparr>sm_read := sm_read st + length out, sm_pending := sm_pending st @ map (\<lambda>p. (fst p, 1)) out\<rparr>))),
     sr_xautoclaim = (\<lambda>k v. let st = vw_stream v k; held = take autoclaim_count (sm_pending st)
        in (map (\<lambda>p. (fst p, the (map_of (sm_entries st) (fst p)))) held,
            view_stream v k (\<lambda>st. st\<lparr>sm_pending := map (\<lambda>p. (fst p, snd p + 1)) held @ drop autoclaim_count (sm_pending st)\<rparr>))),
     sr_xpending = (\<lambda>k lo hi n v. take n (filter (\<lambda>p. (lo = fst p \<or> length lo < length (fst p)) \<and> (fst p = hi \<or> length (fst p) < length hi))
        (sm_pending (vw_stream v k)))),
     sr_xrange = (\<lambda>k lo hi v. filter (\<lambda>p. (lo = fst p \<or> length lo < length (fst p)) \<and> (fst p = hi \<or> length (fst p) < length hi))
        (sm_entries (vw_stream v k))),
     sr_xlen = (\<lambda>k v. int (length (sm_entries (vw_stream v k)))),
     sr_xack = (\<lambda>k i v. (of_bool (i \<in> fst ` set (sm_pending (vw_stream v k))),
        view_stream v k (\<lambda>st. st\<lparr>sm_pending := filter (\<lambda>p. fst p \<noteq> i) (sm_pending st)\<rparr>))),
     sr_publish = (\<lambda>c m v. v),
     sr_pexpire = (\<lambda>k t v. v)\<rparr>"

lemma longer_than_all: "e \<in> set E \<Longrightarrow> length (fst e) < Suc (sum_list (map (\<lambda>e. length (fst e)) E))"
  by (induction E) auto

lemma view_server_laws: "stream_laws view_server"
proof -
  have "order_law view_server" by (auto simp: order_law_def view_server_def)
  moreover have "text_law view_server" by (auto simp: text_law_def view_server_def)
  moreover have "list_law view_server" by (auto simp: list_law_def view_server_def)
  moreover have "xadd_law view_server"
    by (auto simp: xadd_law_def view_server_def Let_def id_before_def stream_at_def dest: longer_than_all)
  moreover have "group_law view_server" by (simp add: group_law_def view_server_def stream_at_def)
  moreover have "readgroup_law view_server" by (simp add: readgroup_law_def view_server_def stream_at_def Let_def)
  moreover have "autoclaim_law view_server" by (simp add: autoclaim_law_def view_server_def stream_at_def Let_def)
  moreover have "range_law view_server" by (simp add: range_law_def view_server_def stream_at_def between_def)
  moreover have "xack_law view_server" by (simp add: xack_law_def view_server_def stream_at_def)
  moreover have "quiet_law view_server" by (simp add: quiet_law_def view_server_def)
  ultimately show ?thesis by (simp add: stream_laws_def)
qed


text \<open>A codec for the quarantine records: every character escaped, every string closed.\<close>

definition enclose :: "string \<Rightarrow> string" where
  "enclose s = concat (map (\<lambda>c. [CHR ''x'', c]) s) @ ''e''"

fun disclose :: "string \<Rightarrow> string \<times> string" where
  "disclose (t # c # cs) = (if t = CHR ''x'' then (case disclose cs of (a, b) \<Rightarrow> (c # a, b)) else ([], c # cs))"
| "disclose _ = ([], [])"

lemma disclose_enclose [simp]: "disclose (enclose s @ r) = (s, r)"
  by (induction s) (cases r; simp add: enclose_def)+

definition dump_row :: "quarantined_entry \<Rightarrow> string" where
  "dump_row q = enclose (qe_id q) @ enclose (qe_reason q) @ enclose (show_int (qe_count q)) @
     (case qe_payload q of None \<Rightarrow> ''n'' | Some p \<Rightarrow> ''s'' @ enclose p)"

definition load_row :: "string \<Rightarrow> orca_error + quarantined_entry" where
  "load_row t = (case disclose t of (i, t1) \<Rightarrow> case disclose t1 of (reason, t2) \<Rightarrow> case disclose t2 of (n, t3) \<Rightarrow>
     (case parse_int n of None \<Rightarrow> Inl ValueError
      | Some k \<Rightarrow> Inr \<lparr>qe_id = i, qe_reason = reason, qe_count = k,
          qe_payload = (if take 1 t3 = ''n'' then None else Some (fst (disclose (drop 1 t3))))\<rparr>))"

lemma load_dump_row: "load_row (dump_row q) = Inr q"
proof -
  have "disclose (enclose p) = (p, [])" for p using disclose_enclose [of p "[]"] by simp
  then show ?thesis by (cases q) (simp add: load_row_def dump_row_def split: option.split)
qed

definition view_inbox :: "server_view redis_inbox" where
  "view_inbox = \<lparr>ri_server = view_server, ri_state_ttl = 86400000,
     ri_dumps = (\<lambda>d. case dp_value d of PStr s \<Rightarrow> s | _ \<Rightarrow> ''{''),
     ri_dec = (\<lambda>t. if t = ''{'' then Inl ''JSONDecodeError: unexpected end of data'' else Inr (PStr t)),
     ri_prs = (\<lambda>v. case v of PStr s \<Rightarrow> Inr (sample_dp s 1) | _ \<Rightarrow> Inr (sample_dp '''' 1)),
     ri_dump_record = dump_row, ri_load_record = load_row\<rparr>"

definition no_view :: server_view where
  "no_view = \<lparr>vw_text = Map.empty, vw_list = (\<lambda>_. []), vw_stream = (\<lambda>_. \<lparr>sm_entries = [], sm_group = False, sm_read = 0, sm_pending = []\<rparr>)\<rparr>"

definition some_inbox_calls :: "inbox_call list" where
  "some_inbox_calls = [QReclaim, QAppend (sample_dp ''a'' 1), QAppend (sample_dp ''{'' 1), QCount, QConsume (Some 1), QConsume None,
     QAck ''1'' 2, QQuarantine ''11'' ''bad'' 2, QAck ''11'' 1, QCount, QList]"

lemma view_inbox_setting: "inbox_setting view_inbox"
proof -
  have "parses (ri_dec view_inbox) (ri_prs view_inbox)" by (auto simp: parses_def to_entry_def view_inbox_def)
  then show ?thesis using view_server_laws load_dump_row by (simp add: inbox_setting_def view_inbox_def)
qed


end
