(* ===== verification/Redis_Limiter.thy ===== *)
theory Redis_Limiter
  imports Redis_Lock
begin

text \<open>
  The Redis rate limiter, \<^verbatim>\<open>orcastork/adapters/redis/rate_limiter.py\<close>: a token bucket in a hash that
  expires when it would be full again. The server is a parameter: what \<^verbatim>\<open>HMGET\<close> returns of a bucket,
  and \<^verbatim>\<open>HSET\<close> with \<^verbatim>\<open>PEXPIRE\<close>, under its clock. Lua's doubles and the texts they are stored as are
  reals here. The script has two clocks, the server's for the expiry and the caller's for the refill.
\<close>

section \<open>The script\<close>

record 'r bucket_redis =
  rb_hmget :: "msec \<Rightarrow> string \<Rightarrow> 'r \<Rightarrow> (real \<times> msec) option"
  rb_hset_pexpire :: "msec \<Rightarrow> string \<Rightarrow> real \<times> msec \<Rightarrow> msec \<Rightarrow> 'r \<Rightarrow> 'r"

definition bucket_laws :: "'r bucket_redis \<Rightarrow> bool" where
  "bucket_laws R \<longleftrightarrow> (\<forall>now t k j v px r. 0 < px \<longrightarrow> now \<le> t \<longrightarrow>
     rb_hmget R t j (rb_hset_pexpire R now k v px r) = (if j = k then (if t < now + px then Some v else None) else rb_hmget R t j r))"

definition bucket_key :: "string \<Rightarrow> string" where "bucket_key key = ''ratelimit:'' @ key"

lemma bucket_key_inject [simp]: "bucket_key a = bucket_key b \<longleftrightarrow> a = b"
  by (simp add: bucket_key_def)

definition token_script :: "'r bucket_redis \<Rightarrow> string \<Rightarrow> msec \<Rightarrow> real \<Rightarrow> real \<Rightarrow> msec \<Rightarrow> msec \<Rightarrow> 'r \<Rightarrow> int \<times> 'r" where
  "token_script R k now_ms rate_per_ms burst ttl t r =
     (let (tokens, refill_ms) = (case rb_hmget R t k r of None \<Rightarrow> (burst, now_ms) | Some p \<Rightarrow> p);
          elapsed = max (now_ms - refill_ms) 0;
          refilled = min burst (tokens + real_of_int elapsed * rate_per_ms);
          (left, wait_ms) = (if 1 \<le> refilled then (refilled - 1, 0) else (refilled, \<lceil>(1 - refilled) / rate_per_ms\<rceil>))
      in (wait_ms, rb_hset_pexpire R t k (left, now_ms) ttl r))"

record 'r redis_limiter =
  rm_redis :: "'r bucket_redis"
  rm_rate_per_ms :: real
  rm_burst :: int
  rm_ttl_ms :: msec

definition redis_limiter_of :: "'r bucket_redis \<Rightarrow> real \<Rightarrow> int \<Rightarrow> orca_error + 'r redis_limiter" where
  "redis_limiter_of R rate burst =
     (if rate \<le> 0 then Inl ValueError
      else if burst < 1 then Inl ValueError
      else let per_ms = rate / 1000
           in Inr \<lparr>rm_redis = R, rm_rate_per_ms = per_ms, rm_burst = burst, rm_ttl_ms = \<lceil>real_of_int burst / per_ms\<rceil>\<rparr>)"

text \<open>One iteration of the loop of \<^verbatim>\<open>acquire\<close>: 0 returns, any other wait sleeps and tries again.\<close>

definition redis_attempt :: "'r redis_limiter \<Rightarrow> string \<Rightarrow> msec \<Rightarrow> msec \<Rightarrow> 'r \<Rightarrow> int \<times> 'r" where
  "redis_attempt M key now_ms t =
     token_script (rm_redis M) (bucket_key key) now_ms (rm_rate_per_ms M) (real_of_int (rm_burst M)) (rm_ttl_ms M) t"

partial_function (option) redis_acquire_token :: "'r redis_limiter \<Rightarrow> string \<Rightarrow> msec \<Rightarrow> 'r \<Rightarrow> (msec \<times> 'r) option" where
  "redis_acquire_token M key now r =
     (case redis_attempt M key now now r of
        (wait_ms, r1) \<Rightarrow> if wait_ms = 0 then Some (now, r1) else redis_acquire_token M key (now + wait_ms) r1)"

section \<open>The limiter in memory\<close>

definition bucket_reads :: "'r redis_limiter \<Rightarrow> msec \<Rightarrow> 'r \<Rightarrow> string \<Rightarrow> bucket option \<Rightarrow> bool" where
  "bucket_reads M now r key ob \<longleftrightarrow>
     (case ob of
        None \<Rightarrow> \<forall>t \<ge> now. rb_hmget (rm_redis M) t (bucket_key key) r = None
      | Some b \<Rightarrow> \<exists>m \<le> now. bk_refilled_at b = secs m \<and> 0 \<le> bk_tokens b \<and>
          (\<forall>t \<ge> now. rb_hmget (rm_redis M) t (bucket_key key) r = (if t < m + rm_ttl_ms M then Some (bk_tokens b, m) else None)))"

definition limiter_tracks :: "'r redis_limiter \<Rightarrow> msec \<Rightarrow> 'r \<Rightarrow> rate_limiter \<Rightarrow> bool" where
  "limiter_tracks M now r l \<longleftrightarrow>
     0 < rl_rate l \<and> 1 \<le> rl_burst l \<and> rm_rate_per_ms M = rl_rate l / 1000 \<and> rm_burst M = rl_burst l \<and>
     rm_ttl_ms M = \<lceil>real_of_int (rl_burst l) / (rl_rate l / 1000)\<rceil> \<and>
     (\<forall>key. bucket_reads M now r key (rl_buckets l key))"

lemma bucket_reads_same:
  assumes "bucket_reads M now r key ob" and "now \<le> now'"
    and "\<And>t. now' \<le> t \<Longrightarrow> rb_hmget (rm_redis M) t (bucket_key key) r' = rb_hmget (rm_redis M) t (bucket_key key) r"
  shows "bucket_reads M now' r' key ob"
proof (cases ob)
  case None
  with assms show ?thesis by (simp add: bucket_reads_def)
next
  case (Some b)
  with assms(1) obtain m where "m \<le> now" "bk_refilled_at b = secs m" "0 \<le> bk_tokens b"
    "\<forall>t \<ge> now. rb_hmget (rm_redis M) t (bucket_key key) r = (if t < m + rm_ttl_ms M then Some (bk_tokens b, m) else None)"
    unfolding bucket_reads_def by auto
  with assms(2,3) Some show ?thesis unfolding bucket_reads_def by (auto intro!: exI [of _ m])
qed

lemma limiter_tracks_later: "limiter_tracks M now r l \<Longrightarrow> now \<le> t \<Longrightarrow> limiter_tracks M t r l"
  using bucket_reads_same [of M now r _ _ t r] unfolding limiter_tracks_def by blast

lemma bucket_reads_held:
  assumes "bucket_reads M now r key (Some b)"
  obtains m where "m \<le> now" and "bk_refilled_at b = secs m" and "0 \<le> bk_tokens b"
    and "rb_hmget (rm_redis M) now (bucket_key key) r = (if now < m + rm_ttl_ms M then Some (bk_tokens b, m) else None)"
  using assms unfolding bucket_reads_def by auto

text \<open>
  What the script finds is what the in-memory bucket refills to: while the hash is there the two refill
  alike, and once it has expired the in-memory bucket is full.
\<close>

lemma refilled_same:
  assumes "limiter_tracks M now r l"
  shows "(case rb_hmget (rm_redis M) now (bucket_key key) r of None \<Rightarrow> (real_of_int (rm_burst M), now) | Some p \<Rightarrow> p) = (tokens, refill_ms) \<Longrightarrow>
     min (real_of_int (rm_burst M)) (tokens + real_of_int (max (now - refill_ms) 0) * rm_rate_per_ms M) =
     bk_tokens (refill l (secs now) (bucket_at l key (secs now)))"
proof -
  assume read: "(case rb_hmget (rm_redis M) now (bucket_key key) r of None \<Rightarrow> (real_of_int (rm_burst M), now) | Some p \<Rightarrow> p) = (tokens, refill_ms)"
  have rate: "0 < rl_rate l" "rm_rate_per_ms M = rl_rate l / 1000" and burst: "rm_burst M = rl_burst l"
    and ttl: "rm_ttl_ms M = \<lceil>real_of_int (rl_burst l) / (rl_rate l / 1000)\<rceil>"
    and reads: "bucket_reads M now r key (rl_buckets l key)"
    using assms by (simp_all add: limiter_tracks_def)
  show ?thesis
  proof (cases "rl_buckets l key")
    case None
    with reads have "rb_hmget (rm_redis M) now (bucket_key key) r = None" by (simp add: bucket_reads_def)
    with read burst None show ?thesis by (simp add: refill_def bucket_at_def)
  next
    case (Some b)
    from bucket_reads_held [OF reads [unfolded Some]] obtain m where m: "m \<le> now" "bk_refilled_at b = secs m" "0 \<le> bk_tokens b"
      "rb_hmget (rm_redis M) now (bucket_key key) r = (if now < m + rm_ttl_ms M then Some (bk_tokens b, m) else None)" .
    have mem: "bk_tokens (refill l (secs now) (bucket_at l key (secs now))) =
        min (real_of_int (rl_burst l)) (bk_tokens b + real_of_int (now - m) * rm_rate_per_ms M)"
      unfolding rate(2) using Some m(2) by (simp add: refill_def bucket_at_def secs_def field_simps)
    show ?thesis
    proof (cases "now < m + rm_ttl_ms M")
      case True
      with m(4) read have "tokens = bk_tokens b" "refill_ms = m" by simp_all
      with m(1) show ?thesis unfolding mem burst by simp
    next
      case False
      have "real_of_int (rl_burst l) / (rl_rate l / 1000) \<le> real_of_int (rm_ttl_ms M)" unfolding ttl by (rule le_of_int_ceiling)
      also have "\<dots> \<le> real_of_int (now - m)" using False by simp
      finally have "real_of_int (rl_burst l) \<le> real_of_int (now - m) * rm_rate_per_ms M"
        unfolding rate(2) using rate(1) by (simp add: pos_divide_le_eq)
      with m(3) have "bk_tokens (refill l (secs now) (bucket_at l key (secs now))) = real_of_int (rl_burst l)" unfolding mem by simp
      with False read m(4) burst show ?thesis by simp
    qed
  qed
qed

text \<open>The waits differ by the rounding up to whole milliseconds.\<close>

definition rounded_wait :: "int \<Rightarrow> seconds option \<Rightarrow> bool" where
  "rounded_wait wait_ms w = (case w of None \<Rightarrow> wait_ms = 0 | Some d \<Rightarrow> 0 < wait_ms \<and> d \<le> secs wait_ms \<and> secs (wait_ms - 1) < d)"

lemma attempt_refines:
  assumes laws: "bucket_laws (rm_redis M)" and M: "limiter_tracks M now r l"
  shows "rounded_wait (fst (redis_attempt M key now now r)) (fst (acquire_attempt key (secs now) l)) \<and>
     limiter_tracks M now (snd (redis_attempt M key now now r)) (snd (acquire_attempt key (secs now) l))"
proof -
  let ?R = "rm_redis M"
  obtain tokens refill_ms where read: "(case rb_hmget ?R now (bucket_key key) r of None \<Rightarrow> (real_of_int (rm_burst M), now) | Some p \<Rightarrow> p) = (tokens, refill_ms)"
    by (cases "case rb_hmget ?R now (bucket_key key) r of None \<Rightarrow> (real_of_int (rm_burst M), now) | Some p \<Rightarrow> p")
  define b where "b = refill l (secs now) (bucket_at l key (secs now))"
  note same = refilled_same [OF M read, folded b_def]
  have rate: "0 < rl_rate l" "rm_rate_per_ms M = rl_rate l / 1000" and burst: "1 \<le> rl_burst l"
    and ttl: "rm_ttl_ms M = \<lceil>real_of_int (rl_burst l) / (rl_rate l / 1000)\<rceil>"
    using M by (simp_all add: limiter_tracks_def)
  have px: "0 < rm_ttl_ms M" unfolding ttl using rate(1) burst by (simp add: zero_less_ceiling)
  have at: "bk_refilled_at b = secs now" by (simp add: b_def refill_def)
  have low: "0 \<le> bk_tokens b"
  proof (cases "rl_buckets l key")
    case None
    with burst show ?thesis by (simp add: b_def refill_def bucket_at_def)
  next
    case (Some c)
    have "bucket_reads M now r key (Some c)" using M Some [symmetric] by (simp add: limiter_tracks_def)
    then obtain m where "m \<le> now" "bk_refilled_at c = secs m" "0 \<le> bk_tokens c" by (rule bucket_reads_held)
    with Some burst rate(1) show ?thesis by (simp add: b_def refill_def bucket_at_def secs_def divide_right_mono)
  qed
  have tracks: "limiter_tracks M now (rb_hset_pexpire ?R now (bucket_key key) (x, now) (rm_ttl_ms M) r)
      (l\<lparr>rl_buckets := (rl_buckets l)(key \<mapsto> c)\<rparr>)"
    if c: "bk_tokens c = x" "bk_refilled_at c = secs now" "0 \<le> x" for x c
    unfolding limiter_tracks_def
  proof (intro conjI allI)
    fix k
    have put: "rb_hmget ?R t (bucket_key k) (rb_hset_pexpire ?R now (bucket_key key) (x, now) (rm_ttl_ms M) r) =
        (if k = key then (if t < now + rm_ttl_ms M then Some (x, now) else None) else rb_hmget ?R t (bucket_key k) r)" if "now \<le> t" for t
      using laws px that by (simp add: bucket_laws_def)
    show "bucket_reads M now (rb_hset_pexpire ?R now (bucket_key key) (x, now) (rm_ttl_ms M) r) k (rl_buckets (l\<lparr>rl_buckets := (rl_buckets l)(key \<mapsto> c)\<rparr>) k)"
    proof (cases "k = key")
      case True
      with c put show ?thesis by (auto simp: bucket_reads_def intro!: exI [of _ now])
    next
      case False
      have "bucket_reads M now r k (rl_buckets l k)" using M by (simp add: limiter_tracks_def)
      from bucket_reads_same [OF this order_refl] put False show ?thesis by simp
    qed
  qed (use M in \<open>simp_all add: limiter_tracks_def\<close>)
  show ?thesis
  proof (cases "1 \<le> bk_tokens b")
    case True
    have "redis_attempt M key now now r = (0, rb_hset_pexpire ?R now (bucket_key key) (bk_tokens b - 1, now) (rm_ttl_ms M) r)"
      unfolding redis_attempt_def token_script_def Let_def read prod.case same using True by simp
    moreover have "acquire_attempt key (secs now) l = (None, l\<lparr>rl_buckets := (rl_buckets l)(key \<mapsto> b\<lparr>bk_tokens := bk_tokens b - 1\<rparr>)\<rparr>)"
      using True by (simp add: acquire_attempt_def Let_def b_def)
    ultimately show ?thesis using tracks [of "b\<lparr>bk_tokens := bk_tokens b - 1\<rparr>" "bk_tokens b - 1"] True at by (simp add: rounded_wait_def)
  next
    case False
    let ?w = "\<lceil>(1 - bk_tokens b) / rm_rate_per_ms M\<rceil>"
    have "redis_attempt M key now now r = (?w, rb_hset_pexpire ?R now (bucket_key key) (bk_tokens b, now) (rm_ttl_ms M) r)"
      unfolding redis_attempt_def token_script_def Let_def read prod.case same using False by simp
    moreover have "acquire_attempt key (secs now) l = (Some ((1 - bk_tokens b) / rl_rate l), l\<lparr>rl_buckets := (rl_buckets l)(key \<mapsto> b)\<rparr>)"
      using False by (simp add: acquire_attempt_def Let_def b_def)
    moreover have "rounded_wait ?w (Some ((1 - bk_tokens b) / rl_rate l))"
    proof -
      define y where "y = (1 - bk_tokens b) / rm_rate_per_ms M"
      have y: "(1 - bk_tokens b) / rl_rate l = y / 1000" using rate(1) by (simp add: y_def rate(2) field_simps)
      have "0 < y" using False rate(1) by (simp add: y_def rate(2))
      moreover have "y \<le> real_of_int \<lceil>y\<rceil>" "real_of_int \<lceil>y\<rceil> < y + 1" by (simp_all add: ceiling_correct) linarith
      ultimately show ?thesis unfolding y y_def [symmetric] by (simp add: rounded_wait_def secs_def zero_less_ceiling)
    qed
    ultimately show ?thesis using tracks [of b "bk_tokens b"] low at by simp
  qed
qed

text \<open>Attempts at the times the clock shows, by anyone and for any key.\<close>

fun redis_attempts :: "'r redis_limiter \<Rightarrow> (msec \<times> string) list \<Rightarrow> 'r \<Rightarrow> int list" where
  "redis_attempts M [] r = []"
| "redis_attempts M ((now, key) # xs) r =
     (case redis_attempt M key now now r of (wait_ms, r1) \<Rightarrow> wait_ms # redis_attempts M xs r1)"

fun memory_attempts :: "(msec \<times> string) list \<Rightarrow> rate_limiter \<Rightarrow> seconds option list" where
  "memory_attempts [] l = []"
| "memory_attempts ((now, key) # xs) l =
     (case acquire_attempt key (secs now) l of (w, l1) \<Rightarrow> w # memory_attempts xs l1)"

lemma attempts_refine:
  assumes laws: "bucket_laws (rm_redis M)"
  shows "limiter_tracks M t r l \<Longrightarrow> sorted (t # map fst xs) \<Longrightarrow> list_all2 rounded_wait (redis_attempts M xs r) (memory_attempts xs l)"
proof (induction xs arbitrary: t r l)
  case (Cons x xs)
  obtain now key where x: "x = (now, key)" by (cases x)
  have M: "limiter_tracks M now r l" using limiter_tracks_later [OF Cons.prems(1)] Cons.prems(2) x by simp
  have "sorted (now # map fst xs)" using Cons.prems(2) x by simp
  from Cons.IH [OF _ this] attempt_refines [OF laws M, of key] x show ?case by (simp add: case_prod_beta)
qed simp

text \<open>
  Also: On a clock shared with the server, the buckets in Redis, which expire, grant exactly what the
  in-memory buckets, which do not, grant, and their waits are those rounded up to milliseconds.
\<close>

theorem redis_limiter_refines:
  assumes "bucket_laws (rm_redis M)" and "redis_limiter_of R rate burst = Inr M" and "rate_limiter_of rate burst = Inr l"
    and "\<forall>t \<ge> t0. \<forall>key. rb_hmget R t (bucket_key key) r = None" and "sorted (t0 # map fst xs)"
  shows "list_all2 rounded_wait (redis_attempts M xs r) (memory_attempts xs l)"
proof (rule attempts_refine [OF assms(1) _ assms(5)])
  show "limiter_tracks M t0 r l"
    using assms(2-4) by (auto simp: limiter_tracks_def bucket_reads_def redis_limiter_of_def rate_limiter_of_def Let_def split: if_splits)
qed

text \<open>A caller alone gets its token at the first attempt or at the second.\<close>

theorem redis_acquire_token_returns:
  assumes laws: "bucket_laws (rm_redis M)" and M: "limiter_tracks M now r l"
  shows "\<exists>t r1. redis_acquire_token M key now r = Some (t, r1) \<and> now \<le> t \<and> secs (t - now - 1) * rl_rate l < 1"
proof -
  obtain w r1 where a: "redis_attempt M key now now r = (w, r1)" by (cases "redis_attempt M key now now r")
  obtain ow l1 where m: "acquire_attempt key (secs now) l = (ow, l1)" by (cases "acquire_attempt key (secs now) l")
  have rate: "0 < rl_rate l" "1 \<le> rl_burst l" using M by (simp_all add: limiter_tracks_def)
  have one: "rounded_wait w ow" "limiter_tracks M now r1 l1" using attempt_refines [OF laws M, of key] a m by simp_all
  show ?thesis
  proof (cases ow)
    case None
    with one(1) a show ?thesis using rate by (subst redis_acquire_token.simps) (simp add: rounded_wait_def secs_def)
  next
    case (Some d)
    let ?b = "refill l (secs now) (bucket_at l key (secs now))"
    have d: "d = (1 - bk_tokens ?b) / rl_rate l" "\<not> 1 \<le> bk_tokens ?b" "l1 = l\<lparr>rl_buckets := (rl_buckets l)(key \<mapsto> ?b)\<rparr>"
      using m Some by (auto simp: acquire_attempt_def Let_def split: if_splits)
    have w: "0 < w" "d \<le> secs w" "secs (w - 1) < d" using one(1) Some by (simp_all add: rounded_wait_def)
    have later: "limiter_tracks M (now + w) r1 l1" using limiter_tracks_later [OF one(2)] w(1) by simp
    obtain w2 r2 where a2: "redis_attempt M key (now + w) (now + w) r1 = (w2, r2)" by (cases "redis_attempt M key (now + w) (now + w) r1")
    have "bk_tokens ?b + (secs (now + w) - secs now) * rl_rate l \<ge> 1"
    proof -
      have "1 - bk_tokens ?b = d * rl_rate l" using d(1) rate(1) by simp
      also have "\<dots> \<le> secs w * rl_rate l" using w(2) rate(1) by (simp add: mult_right_mono)
      finally show ?thesis by (simp add: secs_add)
    qed
    then have "1 \<le> bk_tokens (refill l1 (secs (now + w)) (bucket_at l1 key (secs (now + w))))"
      using rate(2) by (simp add: d(3) refill_def [of "l\<lparr>rl_buckets := (rl_buckets l)(key \<mapsto> ?b)\<rparr>"] bucket_at_def [of "l\<lparr>rl_buckets := (rl_buckets l)(key \<mapsto> ?b)\<rparr>"])
        (simp add: refill_def)
    then have "fst (acquire_attempt key (secs (now + w)) l1) = None" by (simp add: acquire_attempt_def Let_def)
    with attempt_refines [OF laws later, of key] a2 have "w2 = 0" by (simp add: rounded_wait_def)
    have low: "0 \<le> bk_tokens ?b"
    proof -
      have "limiter_tracks M now r1 l1" by (rule one(2))
      then have "bucket_reads M now r1 key (Some ?b)" by (auto simp: limiter_tracks_def d(3) dest!: spec [of _ key])
      then show ?thesis by (rule bucket_reads_held)
    qed
    have "secs (w - 1) * rl_rate l < d * rl_rate l" using w(3) rate(1) by simp
    also have "\<dots> \<le> 1" using d(1) low rate(1) by simp
    finally show ?thesis using a a2 w(1) \<open>w2 = 0\<close>
      by (subst redis_acquire_token.simps) (simp, subst redis_acquire_token.simps, simp)
  qed
qed


section \<open>Examples\<close>

type_synonym bucket_map = "string \<Rightarrow> ((real \<times> msec) \<times> msec) option"

definition map_buckets :: "bucket_map bucket_redis" where
  "map_buckets = \<lparr>rb_hmget = (\<lambda>t k r. case r k of None \<Rightarrow> None | Some (v, d) \<Rightarrow> if t < d then Some v else None),
     rb_hset_pexpire = (\<lambda>now k v px r. r(k \<mapsto> (v, now + px)))\<rparr>"

lemma map_buckets_laws: "bucket_laws map_buckets"
  by (simp add: bucket_laws_def map_buckets_def)

theorem redis_limiter_refines_witness:
  "list_all2 rounded_wait
     (redis_attempts \<lparr>rm_redis = map_buckets, rm_rate_per_ms = 2 / 1000, rm_burst = 1, rm_ttl_ms = \<lceil>real_of_int 1 / (2 / 1000)\<rceil>\<rparr>
        [(5, ''k''), (6, ''k''), (505, ''k''), (2000, ''k'')] Map.empty)
     (memory_attempts [(5, ''k''), (6, ''k''), (505, ''k''), (2000, ''k'')] \<lparr>rl_rate = 2, rl_burst = 1, rl_buckets = Map.empty\<rparr>)"
proof (rule redis_limiter_refines [where ?t0.0 = 0])
  show "redis_limiter_of map_buckets 2 1 =
      Inr \<lparr>rm_redis = map_buckets, rm_rate_per_ms = 2 / 1000, rm_burst = 1, rm_ttl_ms = \<lceil>real_of_int 1 / (2 / 1000)\<rceil>\<rparr>"
    by (simp add: redis_limiter_of_def Let_def)
qed (simp_all add: map_buckets_laws rate_limiter_of_def, simp add: map_buckets_def)

end
